(* ===== verification/Prelude.thy ===== *)
theory Prelude
  imports "HOL-Library.Word" "HOL-Library.Signed_Division"
begin

text \<open>
  Shared vocabulary of the development.

  \<^item> Fixed-width unsigned integers: \<open>u8\<close>, \<open>u16\<close>, \<open>u32\<close>, \<open>u64\<close>.
  \<^item> The error values of the C++ code: a thrown exception or an access whose behaviour the
    language leaves undefined, as the left side of a sum (\<open>'a result\<close>), with the sequencing
    combinator \<open>andthen\<close>.
  \<^item> Checked array accesses \<open>rd\<close> and \<open>wr\<close>: an index out of range is
    \<open>Undefined_Behaviour\<close>, so that a theorem that an operation returns \<open>Inr\<close> also says
    that it stays inside its arrays.
  \<^item> \<open>bitlen\<close>, the position of the highest set bit, and \<open>builtin_clz\<close>,
    \<open>builtin_ffs\<close>, the compiler builtins the code calls.
  \<^item> Bit lemmas that several components use.
\<close>

unbundle bit_operations_syntax

named_theorems result_simps \<open>rewriting of sequenced fallible steps\<close>
named_theorems byte_simps \<open>lengths and bytes of encoded integers\<close>

section \<open>Machine integers\<close>

type_synonym u8 = "8 word"
type_synonym u16 = "16 word"
type_synonym u32 = "32 word"
type_synonym u64 = "64 word"

section \<open>Errors and sequencing\<close>

datatype cxx_error =
    Out_Of_Range
  | Invalid_Argument string
  | Terminate
  | Undefined_Behaviour
  | Bad_Alloc

type_synonym 'a result = "cxx_error + 'a"

definition andthen :: "'a result \<Rightarrow> ('a \<Rightarrow> 'b result) \<Rightarrow> 'b result" where
  "andthen m f = (case m of Inl e \<Rightarrow> Inl e | Inr x \<Rightarrow> f x)"

lemma andthen_Inl [simp, result_simps]: "andthen (Inl e) f = Inl e"
  by (simp add: andthen_def)

lemma andthen_Inr [simp, result_simps]: "andthen (Inr x) f = f x"
  by (simp add: andthen_def)

lemma andthen_eq_Inr_iff: "andthen m f = Inr y \<longleftrightarrow> (\<exists>x. m = Inr x \<and> f x = Inr y)"
  by (cases m) auto

lemma andthen_eq_Inl_iff:
  "andthen m f = Inl e \<longleftrightarrow> m = Inl e \<or> (\<exists>x. m = Inr x \<and> f x = Inl e)"
  by (cases m) auto

lemma andthen_assoc: "andthen (andthen m f) g = andthen m (\<lambda>x. andthen (f x) g)"
  by (cases m) auto

lemma andthen_cong [fundef_cong]:
  "m = m' \<Longrightarrow> (\<And>x. m' = Inr x \<Longrightarrow> f x = g x) \<Longrightarrow> andthen m f = andthen m' g"
  by (cases m') auto

section \<open>Checked array accesses\<close>

definition rd :: "'a list \<Rightarrow> nat \<Rightarrow> 'a result" where
  "rd xs i = (if i < length xs then Inr (xs ! i) else Inl Undefined_Behaviour)"

definition wr :: "'a list \<Rightarrow> nat \<Rightarrow> 'a \<Rightarrow> 'a list result" where
  "wr xs i v = (if i < length xs then Inr (xs[i := v]) else Inl Undefined_Behaviour)"

lemma rd_Inr [simp]: "i < length xs \<Longrightarrow> rd xs i = Inr (xs ! i)"
  by (simp add: rd_def)

lemma wr_Inr [simp]: "i < length xs \<Longrightarrow> wr xs i v = Inr (xs[i := v])"
  by (simp add: wr_def)

lemma rd_eq_Inr_iff: "rd xs i = Inr x \<longleftrightarrow> i < length xs \<and> x = xs ! i"
  by (auto simp: rd_def)

lemma wr_eq_Inr_iff: "wr xs i v = Inr ys \<longleftrightarrow> i < length xs \<and> ys = xs[i := v]"
  by (auto simp: wr_def)

lemma rd_append_mid [simp]: "rd (xs @ y # ys) (length xs) = Inr y"
  by (simp add: rd_def)

lemma wr_append_mid [simp]: "wr (xs @ y # ys) (length xs) v = Inr (xs @ v # ys)"
  by (simp add: wr_def)

fun traverse :: "('a \<Rightarrow> 'b result) \<Rightarrow> 'a list \<Rightarrow> 'b list result" where
  "traverse f [] = Inr []"
| "traverse f (x # xs) = andthen (f x) (\<lambda>y. andthen (traverse f xs) (\<lambda>ys. Inr (y # ys)))"

lemma traverse_Inr: "(\<And>x. x \<in> set xs \<Longrightarrow> f x = Inr (g x)) \<Longrightarrow> traverse f xs = Inr (map g xs)"
  by (induction xs) auto

lemma traverse_length: "traverse f xs = Inr ys \<Longrightarrow> length ys = length xs"
  by (induction xs arbitrary: ys) (auto simp: andthen_eq_Inr_iff)

section \<open>The highest set bit\<close>

fun bitlen :: "nat \<Rightarrow> nat" where
  "bitlen n = (if n = 0 then 0 else Suc (bitlen (n div 2)))"

declare bitlen.simps [simp del]

lemma bitlen_0 [simp]: "bitlen 0 = 0"
  by (simp add: bitlen.simps)

lemma bitlen_pos: "0 < n \<Longrightarrow> bitlen n = Suc (bitlen (n div 2))"
  by (simp add: bitlen.simps)

lemma bitlen_eq_0_iff [simp]: "bitlen n = 0 \<longleftrightarrow> n = 0"
  by (subst bitlen.simps) simp

lemma less_exp_bitlen: "n < 2 ^ bitlen n"
proof (induction n rule: bitlen.induct)
  case (1 n)
  show ?case
  proof (cases "n = 0")
    case False
    with "1.IH" have "n div 2 < 2 ^ bitlen (n div 2)" by simp
    then have "n < 2 * 2 ^ bitlen (n div 2)" by linarith
    with False show ?thesis by (simp add: bitlen_pos)
  qed simp
qed

lemma exp_bitlen_le: "0 < n \<Longrightarrow> 2 ^ (bitlen n - 1) \<le> n"
proof (induction n rule: bitlen.induct)
  case (1 n)
  show ?case
  proof (cases "n div 2 = 0")
    case True
    with "1.prems" show ?thesis by (simp add: bitlen_pos)
  next
    case False
    with "1" have "2 ^ (bitlen (n div 2) - 1) \<le> n div 2" by simp
    moreover from False have "bitlen (n div 2) \<noteq> 0" by simp
    then obtain k where "bitlen (n div 2) = Suc k"
      using not0_implies_Suc by blast
    ultimately show ?thesis using "1.prems" by (simp add: bitlen_pos)
  qed
qed

lemma bitlen_le_iff: "bitlen n \<le> k \<longleftrightarrow> n < 2 ^ k"
proof
  assume "bitlen n \<le> k"
  then have "(2::nat) ^ bitlen n \<le> 2 ^ k" by simp
  with less_exp_bitlen [of n] show "n < 2 ^ k" by linarith
next
  assume less: "n < 2 ^ k"
  show "bitlen n \<le> k"
  proof (cases "n = 0")
    case False
    then have "2 ^ (bitlen n - 1) < (2::nat) ^ k"
      using exp_bitlen_le [of n] less by linarith
    then have "bitlen n - 1 < k" by simp
    then show ?thesis by simp
  qed simp
qed

lemma less_bitlen_iff: "k < bitlen n \<longleftrightarrow> 2 ^ k \<le> n"
  using bitlen_le_iff [of n k] by linarith

lemma bitlen_mono: "m \<le> n \<Longrightarrow> bitlen m \<le> bitlen n"
  using bitlen_le_iff less_exp_bitlen le_less_trans by metis

lemma bitlen_div_exp: "bitlen (n div 2 ^ k) = bitlen n - k"
proof (induction k arbitrary: n)
  case (Suc k)
  have "n div 2 ^ Suc k = n div 2 div 2 ^ k" by (simp add: div_mult2_eq)
  then show ?case using Suc.IH [of "n div 2"]
    by (cases "n = 0") (simp_all add: bitlen_pos)
qed simp

lemma bitlen_eqI: "2 ^ k \<le> n \<Longrightarrow> n < 2 ^ Suc k \<Longrightarrow> bitlen n = Suc k"
  using bitlen_le_iff [of n "Suc k"] less_bitlen_iff [of k n] by linarith

lemma bitlen_unat_le: "bitlen (unat (w :: 'a::len word)) \<le> LENGTH('a)"
  by (simp add: bitlen_le_iff)

text \<open>The compiler builtins; \<open>__builtin_clz\<close> is undefined at 0.\<close>

definition builtin_clz :: "'a::len word \<Rightarrow> nat" where
  "builtin_clz w = (if w = 0 then undefined else LENGTH('a) - bitlen (unat w))"

lemma builtin_clz_bitlen: "w \<noteq> 0 \<Longrightarrow> LENGTH('a) - builtin_clz w = bitlen (unat w)"
  for w :: "'a::len word"
  using bitlen_unat_le [of w] by (simp add: builtin_clz_def)

section \<open>Bits of words\<close>

lemma unat_drop_bit: "unat (drop_bit n w) = unat w div 2 ^ n"
  for w :: "'a::len word"
  unfolding unat_drop_bit_eq by (simp add: drop_bit_eq_div)

lemma unat_take_bit: "unat (take_bit n w) = unat w mod 2 ^ n"
  for w :: "'a::len word"
  unfolding unsigned_take_bit_eq by (simp add: take_bit_eq_mod)

lemma unat_ucast_mod: "unat (ucast w :: 'b::len word) = unat w mod 2 ^ LENGTH('b)"
  for w :: "'a::len word"
  unfolding unsigned_ucast_eq by (simp add: take_bit_eq_mod)

lemma unat_of_nat_mod: "unat (of_nat n :: 'a::len word) = n mod 2 ^ LENGTH('a)"
  by (simp add: unsigned_of_nat take_bit_eq_mod)

lemma unat_of_nat_u8: "n < 256 \<Longrightarrow> unat (of_nat n :: u8) = n"
  by (simp add: unat_of_nat_mod)

lemma or_1_not_0 [simp]: "w OR 1 \<noteq> 0"
  for w :: "'a::len word"
proof
  assume "w OR 1 = 0"
  then have "bit (w OR 1) 0 = bit (0 :: 'a word) 0" by simp
  then show False by (simp add: bit_simps)
qed

lemma bit_unat: "bit (unat w) n = bit w n"
  for w :: "'a::len word"
  by (auto simp: bit_unsigned_iff dest: bit_imp_le_length)

lemma msb_iff: "bit w (LENGTH('a) - Suc 0) \<longleftrightarrow> 2 ^ (LENGTH('a) - 1) \<le> unat w"
  for w :: "'a::len word"
proof -
  let ?h = "2 ^ (LENGTH('a) - 1) :: nat"
  have "unat w < 2 * ?h"
    using unsigned_less [of w] by (metis One_nat_def Suc_pred len_gt_0 power_Suc)
  then have "unat w div ?h < 2" by (simp add: less_mult_imp_div_less)
  moreover have "?h \<le> unat w \<longleftrightarrow> 0 < unat w div ?h" by (simp add: div_greater_zero_iff)
  ultimately have "odd (unat w div ?h) \<longleftrightarrow> ?h \<le> unat w"
    by (cases "unat w div ?h") auto
  then show ?thesis by (metis One_nat_def bit_iff_odd bit_unat)
qed

lemma sint_neg_iff: "sint w < 0 \<longleftrightarrow> 2 ^ (LENGTH('a) - 1) \<le> unat w"
  for w :: "'a::len word"
  using msb_iff [of w] bit_last_iff [of w] by simp

lemma bit_numeral_127: "bit (127 :: 'a::len word) n \<longleftrightarrow> n < 7 \<and> n < LENGTH('a)"
proof -
  have "(127 :: 'a word) = mask 7" by (simp add: mask_eq_exp_minus_1)
  then show ?thesis by (simp only: bit_mask_iff) auto
qed

lemma and_127_take_bit: "w AND 127 = take_bit 7 (w :: 'a::len word)"
  by (simp add: take_bit_eq_mask mask_eq_exp_minus_1)

lemma split_take_drop: "w = take_bit n w OR push_bit n (drop_bit n w)"
  for w :: "'a::len word"
  by (rule bit_word_eqI) (auto simp: bit_simps, metis le_add_diff_inverse not_less)

section \<open>Data refinement\<close>

text \<open>A component with state \<open>'s\<close> implements a specification on abstract values \<open>'a\<close>: each
  operation that the specification allows keeps the invariant and has the specified effect, and
  each one it refuses fails with the specified error. Then every sequence of operations does.\<close>

primrec run_ops :: "('o \<Rightarrow> 's \<Rightarrow> 's result) \<Rightarrow> 'o list \<Rightarrow> 's \<Rightarrow> 's result" where
  "run_ops step [] s = Inr s"
| "run_ops step (x # xs) s = andthen (step x s) (run_ops step xs)"

locale data_refinement =
  fixes inv :: "'s \<Rightarrow> bool"
    and abst :: "'s \<Rightarrow> 'a"
    and pre :: "'o \<Rightarrow> bool"
    and step :: "'o \<Rightarrow> 's \<Rightarrow> 's result"
    and spec :: "'o \<Rightarrow> 'a \<Rightarrow> 'a result"
  assumes step_Inr: "inv s \<Longrightarrow> pre x \<Longrightarrow> spec x (abst s) = Inr a \<Longrightarrow>
      \<exists>t. step x s = Inr t \<and> inv t \<and> abst t = a"
    and step_Inl: "inv s \<Longrightarrow> pre x \<Longrightarrow> spec x (abst s) = Inl e \<Longrightarrow> step x s = Inl e"
begin

lemma run_Inr:
  "inv s \<Longrightarrow> list_all pre xs \<Longrightarrow> run_ops spec xs (abst s) = Inr a \<Longrightarrow>
   \<exists>t. run_ops step xs s = Inr t \<and> inv t \<and> abst t = a"
proof (induction xs arbitrary: s)
  case (Cons x xs)
  then obtain b where b: "spec x (abst s) = Inr b" "run_ops spec xs b = Inr a"
    by (auto simp: andthen_eq_Inr_iff)
  with Cons.prems obtain t where "step x s = Inr t" "inv t" "abst t = b"
    using step_Inr [of s x b] by auto
  with Cons b show ?case by simp
qed simp

lemma run_Inl:
  "inv s \<Longrightarrow> list_all pre xs \<Longrightarrow> run_ops spec xs (abst s) = Inl e \<Longrightarrow> run_ops step xs s = Inl e"
proof (induction xs arbitrary: s)
  case (Cons x xs)
  show ?case
  proof (cases "spec x (abst s)")
    case (Inl d)
    with Cons.prems show ?thesis using step_Inl [of s x d] by simp
  next
    case (Inr b)
    with Cons.prems obtain t where "step x s = Inr t" "inv t" "abst t = b"
      using step_Inr [of s x b] by auto
    with Cons Inr show ?thesis by simp
  qed
qed simp

lemma run_refines:
  assumes "inv s" "list_all pre xs"
  shows "(\<exists>t a. run_ops spec xs (abst s) = Inr a \<and> run_ops step xs s = Inr t \<and>
      inv t \<and> abst t = a) \<or>
    (\<exists>e. run_ops spec xs (abst s) = Inl e \<and> run_ops step xs s = Inl e)"
  using run_Inr [OF assms] run_Inl [OF assms] by (cases "run_ops spec xs (abst s)") auto

end

section \<open>Codecs\<close>

text \<open>A codec writes a value as a string of symbols and reads it back from the front of any input
  that has at least \<open>slack\<close> further symbols. Then a sequence of values can be read back from the
  concatenation of their encodings, and the encoding is injective.\<close>

primrec decode_many :: "('b list \<Rightarrow> 'e + ('v \<times> nat)) \<Rightarrow> nat \<Rightarrow> 'b list \<Rightarrow> 'e + ('v list \<times> nat)" where
  "decode_many dec 0 xs = Inr ([], 0)"
| "decode_many dec (Suc n) xs =
     (case dec xs of Inl e \<Rightarrow> Inl e
      | Inr (v, k) \<Rightarrow>
          (case decode_many dec n (drop k xs) of Inl e \<Rightarrow> Inl e
           | Inr (vs, m) \<Rightarrow> Inr (v # vs, k + m)))"

locale codec =
  fixes enc :: "'v \<Rightarrow> 'b list"
    and dec :: "'b list \<Rightarrow> 'e + ('v \<times> nat)"
    and slack :: nat
  assumes dec_enc: "slack \<le> length rest \<Longrightarrow> dec (enc v @ rest) = Inr (v, length (enc v))"
begin

lemma decode_many_concat:
  "slack \<le> length rest \<Longrightarrow>
   decode_many dec (length vs) (concat (map enc vs) @ rest) =
     Inr (vs, length (concat (map enc vs)))"
proof (induction vs)
  case (Cons v vs)
  have "dec (enc v @ concat (map enc vs) @ rest) = Inr (v, length (enc v))"
    by (rule dec_enc) (use Cons.prems in simp)
  with Cons show ?case by (simp del: length_concat)
qed simp

lemma enc_inject: "enc v = enc w \<longleftrightarrow> v = w"
proof
  assume eq: "enc v = enc w"
  have "dec (enc v @ replicate slack undefined) = Inr (v, length (enc v))"
    "dec (enc w @ replicate slack undefined) = Inr (w, length (enc w))"
    by (rule dec_enc, simp)+
  with eq show "v = w" by (metis prod.inject sum.inject(2))
qed simp

lemma enc_not_prefix:
  "slack \<le> length rest \<Longrightarrow> slack \<le> length rest' \<Longrightarrow> enc v @ rest = enc w @ rest' \<Longrightarrow> v = w"
  using dec_enc [of rest v] dec_enc [of rest' w] by simp

end

lemma of_nat_word_inject:
  "m < 2 ^ LENGTH('a) \<Longrightarrow> n < 2 ^ LENGTH('a) \<Longrightarrow> (of_nat m :: 'a::len word) = of_nat n \<longleftrightarrow> m = n"
  by (metis of_nat_inverse)

section \<open>Reversible mixing\<close>

text \<open>A mixing function on a finite type with a left inverse is a permutation, so that hashing with
  it never makes two keys collide.\<close>

locale reversible_mix =
  fixes mix :: "'a::finite \<Rightarrow> 'a"
    and unmix :: "'a \<Rightarrow> 'a"
  assumes unmix_mix: "unmix (mix x) = x"
begin

lemma mix_inject: "mix x = mix y \<longleftrightarrow> x = y"
  by (metis unmix_mix)

lemma mix_bij: "bij mix"
proof -
  have "inj mix" by (rule injI) (simp add: mix_inject)
  then show ?thesis using finite_UNIV_inj_surj [of mix] by (simp add: bij_def)
qed

lemma mix_unmix: "mix (unmix y) = y"
proof -
  obtain x where "y = mix x" using mix_bij by (metis bij_pointE)
  then show ?thesis by (simp add: unmix_mix)
qed

end

end
