(* ===== verification/Folly_Varint.thy ===== *)
theory Folly_Varint
  imports Prelude
begin

text \<open>
  Variable-length integers: \<open>folly/Varint.h\<close>.

  A \<open>uint64_t\<close> is written as base-128 digits, least significant first, with the top bit set on
  every byte but the last. \<open>encodeVarint\<close> writes into a caller-supplied buffer through a
  pointer; the model is the loop over the buffer and the write position, with a write past the
  end of the buffer as \<open>Undefined_Behaviour\<close>. \<open>tryDecodeVarint\<close> has an unrolled path for
  inputs of at least ten bytes and a bounded loop for shorter ones; both are modelled and
  proved to agree with one reference decoder. The input range is passed by reference and
  advanced, so the model returns the remaining range with the result.
\<close>

unbundle bit_operations_syntax

section \<open>Definitions\<close>

definition kMaxVarintLength32 :: nat where
  "kMaxVarintLength32 = 5"

definition kMaxVarintLength64 :: nat where
  "kMaxVarintLength64 = 10"

datatype DecodeVarintError = TooManyBytes | TooFewBytes

text \<open>The argument and the result of the ZigZag functions are \<open>int64_t\<close>: the same 64 bits,
  read with \<open>sint\<close>.\<close>

definition encodeZigZag :: "u64 \<Rightarrow> u64" where
  "encodeZigZag val = push_bit 1 val XOR signed_drop_bit 63 val"

definition decodeZigZag :: "u64 \<Rightarrow> u64" where
  "decodeZigZag val = drop_bit 1 val XOR (- (val AND 1))"

function encodeVarint_loop :: "u64 \<Rightarrow> u8 list \<Rightarrow> nat \<Rightarrow> (u8 list \<times> nat) result" where
  "encodeVarint_loop val buf p =
     (if val \<ge> 128
      then andthen (wr buf p (ucast (128 OR (val AND 127))))
             (\<lambda>buf'. encodeVarint_loop (drop_bit 7 val) buf' (Suc p))
      else andthen (wr buf p (ucast val)) (\<lambda>buf'. Inr (buf', Suc p)))"
  by pat_completeness auto
termination
proof (relation "measure (\<lambda>(val, buf, p). unat val)")
  fix val :: u64
  assume "128 \<le> val"
  then have "128 \<le> unat val" by (simp add: word_le_nat_alt)
  then have "unat (drop_bit 7 val) < unat val" by (simp add: unat_drop_bit)
  then show "((drop_bit 7 val, buf', Suc p), (val, buf, p)) \<in> measure (\<lambda>(val, buf, p). unat val)"
    for buf' p buf by simp
qed simp

definition encodeVarint :: "u64 \<Rightarrow> u8 list \<Rightarrow> (u8 list \<times> nat) result" where
  "encodeVarint val buf = encodeVarint_loop val buf 0"

function encodeVarintSize_loop :: "u64 \<Rightarrow> nat \<Rightarrow> nat" where
  "encodeVarintSize_loop val s =
     (if val \<ge> 128 then encodeVarintSize_loop (drop_bit 7 val) (Suc s) else s)"
  by pat_completeness auto
termination
proof (relation "measure (\<lambda>(val, s). unat val)")
  fix val :: u64
  assume "128 \<le> val"
  then have "128 \<le> unat val" by (simp add: word_le_nat_alt)
  then have "unat (drop_bit 7 val) < unat val" by (simp add: unat_drop_bit)
  then show "((drop_bit 7 val, Suc s), (val, s)) \<in> measure (\<lambda>(val, s). unat val)"
    for s by simp
qed simp

definition encodeVarintSize :: "bool \<Rightarrow> u64 \<Rightarrow> nat" where
  "encodeVarintSize kIsArchAmd64 val =
     (if kIsArchAmd64
      then let highBit = 64 - builtin_clz (val OR 1) in (highBit + 6) div 7
      else encodeVarintSize_loop val 1)"

text \<open>
  The fast path is a straight line of nine blocks that differ in the shift only, and a tenth
  with the mask 1. \<open>decode_fast_blocks\<close> runs one block per shift; a byte is an
  \<open>int8_t\<close>, so "\<open>b >= 0\<close>" says that its top bit is clear.
\<close>

fun decode_fast_blocks ::
  "nat list \<Rightarrow> u8 list \<Rightarrow> nat \<Rightarrow> u64 \<Rightarrow> DecodeVarintError + u64 \<times> nat" where
  "decode_fast_blocks [] data p val =
     (let b = scast (data ! p) :: u64; val' = val OR push_bit 63 (b AND 1)
      in if sint b \<ge> 0 then Inr (val', Suc p) else Inl TooManyBytes)"
| "decode_fast_blocks (s # ss) data p val =
     (let b = scast (data ! p) :: u64; val' = val OR push_bit s (b AND 127)
      in if sint b \<ge> 0 then Inr (val', Suc p) else decode_fast_blocks ss data (Suc p) val')"

function decode_slow_loop ::
  "u8 list \<Rightarrow> nat \<Rightarrow> nat \<Rightarrow> u64 \<Rightarrow> DecodeVarintError + u64 \<times> nat" where
  "decode_slow_loop data p shift val =
     (if p < length data \<and> sint (data ! p) < 0
      then decode_slow_loop data (Suc p) (shift + 7)
             (val OR push_bit shift (ucast (data ! p AND 127)))
      else if p \<ge> length data then Inl TooFewBytes
      else Inr (val OR push_bit shift (scast (data ! p)), Suc p))"
  by pat_completeness auto
termination
  by (relation "measure (\<lambda>(data, p, shift, val). length data - p)") auto

definition tryDecodeVarint :: "u8 list \<Rightarrow> (DecodeVarintError + u64) \<times> u8 list" where
  "tryDecodeVarint data =
     (case (if length data \<ge> kMaxVarintLength64
            then decode_fast_blocks [0, 7, 14, 21, 28, 35, 42, 49, 56] data 0 0
            else decode_slow_loop data 0 0 0)
      of Inl e \<Rightarrow> (Inl e, data)
       | Inr (val, p) \<Rightarrow> (Inr val, drop p data))"

definition decodeVarint :: "u8 list \<Rightarrow> u64 result \<times> u8 list" where
  "decodeVarint data =
     (case tryDecodeVarint data of
        (Inl e, data') \<Rightarrow>
          (Inl (Invalid_Argument
             (if e = TooManyBytes then ''Invalid varint value: too many bytes.''
              else ''Invalid varint value: too few bytes.'')), data')
      | (Inr v, data') \<Rightarrow> (Inr v, data'))"

declare encodeVarint_loop.simps [simp del]
declare encodeVarintSize_loop.simps [simp del]
declare decode_slow_loop.simps [simp del]

section \<open>The abstract specification: base-128 digits\<close>

text \<open>
  \<open>varint_bytes n\<close> is the encoding of a natural number and \<open>varint_value bs\<close> reads the
  first complete encoding of a byte string: its value and the number of bytes it takes.
\<close>

fun varint_bytes :: "nat \<Rightarrow> u8 list" where
  "varint_bytes n =
     (if n < 128 then [of_nat n] else of_nat (128 + n mod 128) # varint_bytes (n div 128))"

declare varint_bytes.simps [simp del]

fun varint_value :: "u8 list \<Rightarrow> (nat \<times> nat) option" where
  "varint_value [] = None"
| "varint_value (b # bs) =
     (if unat b < 128 then Some (unat b, 1)
      else map_option (\<lambda>(v, k). (unat b mod 128 + 128 * v, Suc k)) (varint_value bs))"

lemma varint_bytes_small: "n < 128 \<Longrightarrow> varint_bytes n = [of_nat n]"
  by (subst varint_bytes.simps) simp

lemma varint_bytes_large:
  "128 \<le> n \<Longrightarrow> varint_bytes n = of_nat (128 + n mod 128) # varint_bytes (n div 128)"
  by (subst varint_bytes.simps) simp

lemma varint_bytes_not_Nil: "varint_bytes n \<noteq> []"
  by (subst varint_bytes.simps) simp

lemma varint_value_bytes:
  "varint_value (varint_bytes n @ rest) = Some (n, length (varint_bytes n))"
proof (induction n rule: varint_bytes.induct)
  case (1 n)
  show ?case
  proof (cases "n < 128")
    case True
    then show ?thesis by (simp add: varint_bytes_small unat_of_nat_u8)
  next
    case False
    then have "unat (of_nat (128 + n mod 128) :: u8) = 128 + n mod 128"
      by (intro unat_of_nat_u8) auto
    with False "1.IH" show ?thesis by (simp add: varint_bytes_large)
  qed
qed

lemma length_varint_bytes: "length (varint_bytes n) = (if n = 0 then 1 else (bitlen n + 6) div 7)"
proof (induction n rule: varint_bytes.induct)
  case (1 n)
  show ?case
  proof (cases "n < 128")
    case True
    then have "bitlen n \<le> 7" by (simp add: bitlen_le_iff)
    moreover have "(bitlen n + 6) div 7 = 1" if "n \<noteq> 0"
    proof -
      from that have "bitlen n \<noteq> 0" by simp
      with calculation show ?thesis by linarith
    qed
    ultimately show ?thesis using True by (simp add: varint_bytes_small)
  next
    case False
    have "bitlen (n div 128) = bitlen n - 7" using bitlen_div_exp [of n 7] by simp
    moreover from False have big: "7 < bitlen n" by (simp add: less_bitlen_iff)
    moreover from big have "Suc ((bitlen n - 7 + 6) div 7) = (bitlen n + 6) div 7" by linarith
    moreover from False have "n div 128 \<noteq> 0" "n \<noteq> 0" by linarith+
    ultimately show ?thesis using False "1.IH" by (simp add: varint_bytes_large)
  qed
qed

section \<open>Encoding\<close>

lemma unat_drop_bit_7: "unat (drop_bit 7 v) = unat v div 128"
  for v :: u64
  by (simp add: unat_drop_bit)

lemma ge_128_iff: "(128 :: u64) \<le> v \<longleftrightarrow> 128 \<le> unat v"
  by (simp add: word_le_nat_alt)

lemma continuation_byte:
  "(ucast (128 OR (v AND 127)) :: u8) = of_nat (128 + unat v mod 128)"
  for v :: u64
proof (rule word_unat_eq_iff [THEN iffD2])
  have "128 OR (v AND 127) = 128 + (v AND 127)"
  proof (rule disjunctive_add [symmetric])
    fix n
    show "\<not> bit (128 :: u64) n \<or> \<not> bit (v AND 127) n"
      using bit_exp_iff [of 7 n, where 'a = u64] by (auto simp: bit_simps bit_numeral_127)
  qed
  moreover have "unat (v AND 127) = unat v mod 128"
    by (simp add: and_127_take_bit unat_take_bit)
  moreover have "unat v mod 128 < 128" by simp
  ultimately show "unat (ucast (128 OR (v AND 127)) :: u8) = unat (of_nat (128 + unat v mod 128) :: u8)"
    by (simp add: unat_ucast_mod unat_word_ariths unat_of_nat_mod)
qed

lemma encodeVarint_loop_spec:
  assumes "p + length (varint_bytes (unat val)) \<le> length buf"
  shows "encodeVarint_loop val buf p =
    Inr (take p buf @ varint_bytes (unat val) @ drop (p + length (varint_bytes (unat val))) buf,
         p + length (varint_bytes (unat val)))"
  using assms
proof (induction val buf p rule: encodeVarint_loop.induct)
  case (1 val buf p)
  show ?case
  proof (cases "128 \<le> val")
    case True
    let ?c = "of_nat (128 + unat val mod 128) :: u8"
    let ?rest = "varint_bytes (unat val div 128)"
    from True have bytes: "varint_bytes (unat val) = ?c # ?rest"
      by (simp add: ge_128_iff varint_bytes_large)
    with "1.prems" have p: "p < length buf" by simp
    have "encodeVarint_loop (drop_bit 7 val) (buf[p := ?c]) (Suc p) =
        Inr (take (Suc p) (buf[p := ?c]) @ ?rest @ drop (Suc p + length ?rest) (buf[p := ?c]),
             Suc p + length ?rest)"
      using "1.IH" [OF True, of "buf[p := ?c]"] "1.prems" bytes p
      by (simp add: unat_drop_bit_7 continuation_byte)
    moreover have "take (Suc p) (buf[p := ?c]) = take p buf @ [?c]"
      using p by (simp add: take_Suc_conv_app_nth)
    ultimately show ?thesis using True p bytes
      by (subst encodeVarint_loop.simps) (simp add: continuation_byte drop_update_cancel)
  next
    case False
    then have bytes: "varint_bytes (unat val) = [of_nat (unat val)]"
      by (simp add: ge_128_iff varint_bytes_small)
    with "1.prems" have "p < length buf" by simp
    with False bytes show ?thesis
      by (subst encodeVarint_loop.simps) (simp add: upd_conv_take_nth_drop)
  qed
qed

lemma length_varint_bytes_u64: "length (varint_bytes (unat (v :: u64))) \<le> kMaxVarintLength64"
proof -
  have "bitlen (unat v) \<le> 64" using bitlen_unat_le [of v] by simp
  then have "(bitlen (unat v) + 6) div 7 \<le> 10" by linarith
  then show ?thesis by (simp add: length_varint_bytes kMaxVarintLength64_def)
qed

lemma encodeVarintSize_loop_spec:
  "encodeVarintSize_loop val s = s + length (varint_bytes (unat val)) - 1"
proof (induction val s rule: encodeVarintSize_loop.induct)
  case (1 val s)
  show ?case
  proof (cases "128 \<le> val")
    case True
    with "1.IH" [OF True] show ?thesis
      by (subst encodeVarintSize_loop.simps)
         (simp add: ge_128_iff varint_bytes_large unat_drop_bit_7)
  next
    case False
    then show ?thesis
      by (subst encodeVarintSize_loop.simps) (simp add: ge_128_iff varint_bytes_small)
  qed
qed

lemma bitlen_or_1: "bitlen (unat (v OR 1)) = (if v = 0 then 1 else bitlen (unat v))"
  for v :: u64
proof -
  have "bitlen 1 = 1" by (simp add: bitlen_pos)
  moreover have "unat (v OR 1) div 2 = unat v div 2"
  proof -
    have "drop_bit 1 (v OR 1) = drop_bit 1 v" by (rule bit_word_eqI) (auto simp: bit_simps)
    then have "unat (v OR 1) div 2 ^ 1 = unat v div 2 ^ 1"
      by (simp only: unat_drop_bit [symmetric])
    then show ?thesis by simp
  qed
  moreover have "0 < unat (v OR 1)" by (simp add: unat_gt_0)
  moreover have "v \<noteq> 0 \<Longrightarrow> 0 < unat v" by (simp add: unat_gt_0)
  ultimately show ?thesis by (auto simp: bitlen_pos)
qed

lemma encodeVarintSize_spec: "encodeVarintSize amd64 val = length (varint_bytes (unat val))"
proof (cases amd64)
  case True
  have "64 - builtin_clz (val OR 1) = bitlen (unat (val OR 1))"
    using builtin_clz_bitlen [of "val OR 1"] by simp
  with True show ?thesis
    by (auto simp: encodeVarintSize_def Let_def bitlen_or_1 length_varint_bytes unat_eq_0)
next
  case False
  then show ?thesis
    by (simp add: encodeVarintSize_def encodeVarintSize_loop_spec length_varint_bytes)
qed

section \<open>Decoding\<close>

text \<open>The readings of a byte in the decoder.\<close>

lemma sint_u8_neg_iff: "sint b < 0 \<longleftrightarrow> \<not> unat b < 128"
  for b :: u8
  by (simp add: sint_neg_iff not_less)

lemma sint_scast_neg_iff: "0 \<le> sint (scast b :: u64) \<longleftrightarrow> unat b < 128"
  for b :: u8
proof -
  have "sint (scast b :: u64) < 0 \<longleftrightarrow> sint b < 0"
    using bit_last_iff [of "scast b :: u64"] bit_last_iff [of b] by (simp add: bit_signed_iff)
  then show ?thesis by (auto simp: sint_u8_neg_iff not_less [symmetric])
qed

lemma take_bit_scast: "n < 8 \<Longrightarrow> take_bit n (scast b :: u64) = take_bit n (ucast b)"
  for b :: u8
  by (rule bit_word_eqI) (auto simp: bit_simps bit_signed_iff)

lemma low_bits_of_byte: "n < 8 \<Longrightarrow> take_bit n (ucast b :: u64) = of_nat (unat b mod 2 ^ n)"
  for b :: u8
proof -
  have "unat b < 256" using unsigned_less [of b] by simp
  moreover from this have "unat b mod 2 ^ n < 2 ^ 64"
    by (intro le_less_trans [OF mod_less_eq_dividend]) simp
  ultimately show ?thesis
    by (simp add: word_unat_eq_iff unat_take_bit unat_ucast_mod unat_of_nat_mod)
qed

lemma continuation_scast: "(scast b :: u64) AND 127 = of_nat (unat b mod 128)"
  for b :: u8
  using take_bit_scast [of 7 b] low_bits_of_byte [of 7 b] by (simp add: and_127_take_bit)

lemma continuation_ucast: "(ucast (b AND 127) :: u64) = of_nat (unat b mod 128)"
  for b :: u8
proof -
  have "(ucast (b AND 127) :: u64) = take_bit 7 (ucast b)"
    by (rule bit_word_eqI) (auto simp: and_127_take_bit bit_simps)
  then show ?thesis using low_bits_of_byte [of 7 b] by simp
qed

lemma last_scast: "unat b < 128 \<Longrightarrow> (scast b :: u64) = of_nat (unat b)"
  for b :: u8
proof -
  assume small: "unat b < 128"
  then have "\<not> bit b 7" using msb_iff [of b] by simp
  have "(scast b :: u64) = ucast b"
  proof (rule bit_word_eqI)
    fix n assume "n < LENGTH(64)"
    moreover have "min 7 n = n \<or> min 7 n = 7 \<and> 8 \<le> n" by linarith
    moreover have "8 \<le> n \<Longrightarrow> \<not> bit b n" using bit_imp_le_length [of b n] by auto
    ultimately show "bit (scast b :: u64) n = bit (ucast b :: u64) n"
      using \<open>\<not> bit b 7\<close> by (auto simp: bit_simps bit_signed_iff)
  qed
  then show ?thesis by simp
qed

lemma last_scast_and_1: "push_bit 63 ((scast b :: u64) AND 1) = of_nat (unat b) * 2 ^ 63"
  for b :: u8
proof -
  have "push_bit 63 ((scast b :: u64) AND 1) = push_bit 63 (ucast b)"
  proof (rule bit_word_eqI)
    fix n assume "n < LENGTH(64)"
    then have "63 \<le> n \<longleftrightarrow> n - 63 = 0 \<and> n = 63" by auto
    then show "bit (push_bit 63 ((scast b :: u64) AND 1)) n = bit (push_bit 63 (ucast b :: u64)) n"
      by (simp only: bit_push_bit_iff bit_and_iff bit_1_iff bit_signed_iff bit_unsigned_iff) auto
  qed
  also have "\<dots> = of_nat (unat b) * 2 ^ 63" by (simp add: push_bit_eq_mult)
  finally show ?thesis .
qed

text \<open>A digit is combined with the value below it: the OR is an addition.\<close>

definition below_bit :: "nat \<Rightarrow> u64 \<Rightarrow> bool" where
  "below_bit s val \<longleftrightarrow> (\<forall>n. bit val n \<longrightarrow> n < s)"

lemma below_bit_0: "below_bit s 0"
  by (simp add: below_bit_def)

lemma or_push_bit_add: "below_bit s val \<Longrightarrow> val OR push_bit s w = val + w * 2 ^ s"
  for val w :: u64
proof -
  assume low: "below_bit s val"
  have "val OR push_bit s w = val + push_bit s w"
    using low by (intro disjunctive_add [symmetric]) (auto simp: below_bit_def bit_simps)
  then show ?thesis by (simp add: push_bit_eq_mult)
qed

lemma below_bit_or_push_bit:
  assumes "below_bit s val"
  shows "below_bit (s + 7) (val OR push_bit s (of_nat (k mod 128)))"
proof -
  have "n < 7" if "bit (of_nat (k mod 128) :: u64) n" for n
  proof -
    from that have "bit (take_bit 7 k) n" by (simp add: bit_simps take_bit_eq_mod)
    then show "n < 7" by (simp add: bit_simps)
  qed
  with assms show ?thesis
    unfolding below_bit_def by (fastforce simp: bit_or_iff bit_push_bit_iff)
qed

lemma accumulate:
  "val + of_nat (k mod 128) * 2 ^ s + of_nat v * 2 ^ (s + 7) =
   val + of_nat (k mod 128 + 128 * v) * (2 ^ s :: u64)"
  by (simp add: power_add algebra_simps)

lemma decode_slow_loop_spec:
  assumes "below_bit s val"
  shows "decode_slow_loop data p s val =
    (case varint_value (drop p data) of
       None \<Rightarrow> Inl TooFewBytes
     | Some (v, k) \<Rightarrow> Inr (val + of_nat v * 2 ^ s, p + k))"
  using assms
proof (induction data p s val rule: decode_slow_loop.induct)
  case (1 data p s val)
  show ?case
  proof (cases "p < length data")
    case True
    then have drop: "drop p data = data ! p # drop (Suc p) data"
      by (simp add: Cons_nth_drop_Suc)
    show ?thesis
    proof (cases "unat (data ! p) < 128")
      case small: True
      then show ?thesis using True "1.prems" drop
        by (subst decode_slow_loop.simps)
           (simp add: sint_u8_neg_iff last_scast or_push_bit_add)
    next
      case large: False
      let ?val = "val OR push_bit s (of_nat (unat (data ! p) mod 128))"
      have "decode_slow_loop data p s val = decode_slow_loop data (Suc p) (s + 7) ?val"
        using True large
        by (subst decode_slow_loop.simps) (simp add: sint_u8_neg_iff continuation_ucast)
      also have "\<dots> = (case varint_value (drop (Suc p) data) of
          None \<Rightarrow> Inl TooFewBytes
        | Some (v, k) \<Rightarrow> Inr (?val + of_nat v * 2 ^ (s + 7), Suc p + k))"
        using "1.IH" True large below_bit_or_push_bit [OF "1.prems"]
        by (simp only: sint_u8_neg_iff continuation_ucast simp_thms)
      finally show ?thesis using large drop "1.prems" accumulate
        by (simp add: or_push_bit_add split: option.splits)
    qed
  next
    case False
    then show ?thesis by (subst decode_slow_loop.simps) simp
  qed
qed

lemma decode_fast_blocks_spec:
  assumes "ss = map ((*) 7) [p..<9]" "p \<le> 9" "10 \<le> length data" "below_bit (7 * p) val"
  shows "decode_fast_blocks ss data p val =
    (case varint_value (take (10 - p) (drop p data)) of
       None \<Rightarrow> Inl TooManyBytes
     | Some (v, k) \<Rightarrow> Inr (val + of_nat v * 2 ^ (7 * p), p + k))"
  using assms
proof (induction ss data p val rule: decode_fast_blocks.induct)
  case (1 data p val)
  then have p: "p = 9" by simp
  moreover have "drop 9 data = data ! 9 # drop 10 data"
    using "1.prems"(3) Cons_nth_drop_Suc [of 9 data] by simp
  ultimately have "take (10 - p) (drop p data) = [data ! 9]" by (simp only: p) simp
  moreover have "val OR push_bit 63 ((scast (data ! 9)) AND 1) = val + of_nat (unat (data ! 9)) * 2 ^ 63"
  proof -
    have "push_bit 63 ((scast (data ! 9) :: u64) AND 1) = push_bit 63 (of_nat (unat (data ! 9)))"
      using last_scast_and_1 [of "data ! 9"] by (simp add: push_bit_eq_mult)
    then show ?thesis using or_push_bit_add [of 63 val] "1.prems"(4) p by simp
  qed
  ultimately show ?case using p
    by (simp add: Let_def sint_scast_neg_iff)
next
  case (2 s ss data p val)
  then have p: "p < 9" by (cases "p < 9") auto
  with "2.prems"(1) have s: "s = 7 * p" and ss: "ss = map ((*) 7) [Suc p..<9]"
    by (auto simp: upt_conv_Cons)
  have bytes: "take (10 - p) (drop p data) = data ! p # take (10 - Suc p) (drop (Suc p) data)"
    using p "2.prems"(3) by (simp add: Cons_nth_drop_Suc [symmetric] take_Cons')
  let ?val = "val OR push_bit s (of_nat (unat (data ! p) mod 128))"
  show ?case
  proof (cases "unat (data ! p) < 128")
    case True
    then show ?thesis using "2.prems"(4) s bytes
      by (simp add: Let_def sint_scast_neg_iff continuation_scast or_push_bit_add
          del: push_bit_and)
  next
    case False
    have "below_bit (7 * Suc p) ?val"
      using below_bit_or_push_bit [OF "2.prems"(4)] s by (simp add: add.commute)
    with "2.IH" [OF refl refl, unfolded continuation_scast sint_scast_neg_iff] False ss p "2.prems"(3)
    have "decode_fast_blocks ss data (Suc p) ?val =
      (case varint_value (take (10 - Suc p) (drop (Suc p) data)) of
         None \<Rightarrow> Inl TooManyBytes
       | Some (v, k) \<Rightarrow> Inr (?val + of_nat v * 2 ^ (7 * Suc p), Suc p + k))"
      by simp
    then show ?thesis using False bytes s "2.prems"(4)
      by (simp add: Let_def sint_scast_neg_iff continuation_scast or_push_bit_add
          power_add distrib_right del: push_bit_and split: option.splits)
  qed
qed

lemma tryDecodeVarint_spec:
  "tryDecodeVarint data =
     (case varint_value (take 10 data) of
        None \<Rightarrow> (Inl (if length data \<ge> 10 then TooManyBytes else TooFewBytes), data)
      | Some (v, k) \<Rightarrow> (Inr (of_nat v), drop k data))"
proof (cases "10 \<le> length data")
  case True
  have shifts: "[0, 7, 14, 21, 28, 35, 42, 49, 56] = map ((*) 7) [0..<9]"
    by (simp add: upt_rec)
  show ?thesis
    using decode_fast_blocks_spec [OF shifts _ True, of 0] True
    by (simp add: tryDecodeVarint_def kMaxVarintLength64_def below_bit_0
        split: option.splits)
next
  case False
  then show ?thesis
    using decode_slow_loop_spec [of 0 0 data 0]
    by (simp add: tryDecodeVarint_def kMaxVarintLength64_def below_bit_0
        split: option.splits)
qed

lemma varint_value_le: "varint_value bs = Some (v, k) \<Longrightarrow> 0 < k \<and> k \<le> length bs"
  by (induction bs arbitrary: v k) (auto split: if_splits)

lemma varint_value_take:
  "varint_value bs = Some (v, k) \<Longrightarrow> k \<le> n \<Longrightarrow> varint_value (take n bs) = Some (v, k)"
proof (induction bs arbitrary: v k n)
  case (Cons b bs)
  then obtain m where n: "n = Suc m" using varint_value_le [of "b # bs" v k] by (cases n) auto
  with Cons show ?case by (auto split: if_splits)
qed simp

section \<open>ZigZag\<close>

lemma sign_mask: "signed_drop_bit 63 v = (if sint v < 0 then - 1 else 0)"
  for v :: u64
proof (rule bit_word_eqI)
  fix n assume n: "n < LENGTH(64)"
  have "bit v 63 \<longleftrightarrow> sint v < 0" using bit_last_iff [of v] by simp
  moreover have "n = 0 \<or> 63 < n + 63" by auto
  ultimately show "bit (signed_drop_bit 63 v) n = bit (if sint v < 0 then - 1 else 0 :: u64) n"
    using n by (auto simp: bit_signed_drop_bit_iff)
qed

lemma neg_and_1: "- (v AND 1) = (if bit v 0 then - 1 else 0)"
  for v :: u64
  by (simp add: and_one_eq bit_0 mod2_eq_if)

lemma encodeZigZag_cases:
  "encodeZigZag v = (if sint v < 0 then NOT (push_bit 1 v) else push_bit 1 v)"
proof -
  have "x XOR - 1 = NOT x" for x :: u64 by (rule bit_word_eqI) (simp add: bit_simps)
  then show ?thesis by (simp only: encodeZigZag_def sign_mask) simp
qed

lemma bit_encodeZigZag:
  "bit (encodeZigZag v) n \<longleftrightarrow> n < 64 \<and> ((0 < n \<and> bit v (n - 1)) \<noteq> bit v 63)"
proof -
  have sign: "bit v 63 \<longleftrightarrow> sint v < 0" using bit_last_iff [of v] by simp
  have shift: "bit (push_bit 1 v) n \<longleftrightarrow> n < 64 \<and> 0 < n \<and> bit v (n - 1)"
    by (simp only: bit_push_bit_iff possible_bit_word) auto
  show ?thesis
  proof (cases "sint v < 0")
    case True
    then have "encodeZigZag v = NOT (push_bit 1 v)" by (simp only: encodeZigZag_cases if_True)
    then have "bit (encodeZigZag v) n \<longleftrightarrow> n < 64 \<and> \<not> bit (push_bit 1 v) n"
      by (simp only: bit_not_iff possible_bit_word) simp
    with True sign shift show ?thesis by auto
  next
    case False
    then have "encodeZigZag v = push_bit 1 v" by (simp only: encodeZigZag_cases if_False)
    with False sign shift show ?thesis by auto
  qed
qed

lemma bit_decodeZigZag:
  "bit (decodeZigZag v) n \<longleftrightarrow> n < 64 \<and> (bit v (Suc n) \<noteq> bit v 0)"
  using bit_imp_le_length [of v "Suc n"]
  unfolding decodeZigZag_def neg_and_1
  by (auto simp: bit_xor_iff bit_drop_bit_eq)

lemma decode_encodeZigZag: "decodeZigZag (encodeZigZag v) = v"
proof (rule bit_word_eqI)
  fix n assume "n < LENGTH(64)"
  then consider "n < 63" | "n = 63" by fastforce
  then show "bit (decodeZigZag (encodeZigZag v)) n = bit v n"
    by cases (auto simp: bit_decodeZigZag bit_encodeZigZag)
qed

lemma encode_decodeZigZag: "encodeZigZag (decodeZigZag v) = v"
proof (rule bit_word_eqI)
  fix n assume n: "n < LENGTH(64)"
  have "\<not> bit v 64" using bit_imp_le_length [of v 64] by auto
  with n show "bit (encodeZigZag (decodeZigZag v)) n = bit v n"
    by (cases n) (auto simp: bit_decodeZigZag bit_encodeZigZag)
qed

lemma uint_of_sint: "uint v = sint v mod 2 ^ 64"
  for v :: u64
  using uint_sint [of v] by (simp add: take_bit_eq_mod)

lemma uint_encodeZigZag:
  "uint (encodeZigZag v) = (if sint v < 0 then - 2 * sint v - 1 else 2 * sint v)"
proof (cases "sint v < 0")
  case True
  have "encodeZigZag v = - (2 * v) - 1"
    using True by (simp add: encodeZigZag_cases push_bit_eq_mult not_eq_complement)
  also have "\<dots> = word_of_int (- 2 * sint v - 1)" by simp
  finally have "uint (encodeZigZag v) = (- 2 * sint v - 1) mod 2 ^ 64"
    by (simp only: uint_word_of_int) simp
  moreover have "- (2 ^ 63) \<le> sint v" using sint_ge [of v] by simp
  ultimately show ?thesis using True by simp
next
  case False
  have "encodeZigZag v = word_of_int (2 * sint v)"
    using False by (simp add: encodeZigZag_cases push_bit_eq_mult)
  then have "uint (encodeZigZag v) = (2 * sint v) mod 2 ^ 64"
    by (simp only: uint_word_of_int) simp
  moreover have "sint v < 2 ^ 63" using sint_lt [of v] by simp
  ultimately show ?thesis using False by simp
qed

section \<open>Varints as a codec\<close>

text \<open>The bytes \<open>encodeVarint\<close> writes into a buffer of maximal length, and the decoder as a
  function from the input to the value and the number of bytes read.\<close>

definition varint_written :: "u64 \<Rightarrow> u8 list" where
  "varint_written val =
     (case encodeVarint val (replicate kMaxVarintLength64 0) of
        Inl _ \<Rightarrow> [] | Inr (buf, n) \<Rightarrow> take n buf)"

definition varint_read :: "u8 list \<Rightarrow> DecodeVarintError + (u64 \<times> nat)" where
  "varint_read bs =
     (case tryDecodeVarint bs of
        (Inl e, _) \<Rightarrow> Inl e | (Inr v, rest) \<Rightarrow> Inr (v, length bs - length rest))"

lemma varint_written_bytes: "varint_written val = varint_bytes (unat val)"
  using encodeVarint_loop_spec [of 0 val "replicate kMaxVarintLength64 0"] length_varint_bytes_u64 [of val]
  by (simp add: varint_written_def encodeVarint_def)

lemma tryDecodeVarint_bytes: "tryDecodeVarint (varint_bytes (unat val) @ rest) = (Inr val, rest)"
proof -
  have "length (varint_bytes (unat val)) \<le> 10"
    using length_varint_bytes_u64 [of val] by (simp add: kMaxVarintLength64_def)
  then have "varint_value (take 10 (varint_bytes (unat val) @ rest)) =
      Some (unat val, length (varint_bytes (unat val)))"
    using varint_value_take [OF varint_value_bytes] by blast
  then show ?thesis by (simp add: tryDecodeVarint_spec)
qed

interpretation varints: codec varint_written varint_read 0
  by unfold_locales (simp add: varint_read_def varint_written_bytes tryDecodeVarint_bytes)

section \<open>Properties\<close>

text \<open>
  C5. Whatever follows it in the input, the encoding of a 64-bit value is decoded to that value,
  and the range is advanced exactly past the encoding; this covers the unrolled path and the
  short-input loop.
\<close>

theorem varint_roundtrip:
  assumes "length buf \<ge> kMaxVarintLength64"
  shows "\<exists>buf' n. encodeVarint val buf = Inr (buf', n) \<and> n \<le> kMaxVarintLength64 \<and>
    length buf' = length buf \<and> drop n buf' = drop n buf \<and>
    tryDecodeVarint (take n buf' @ rest) = (Inr val, rest)"
proof -
  let ?bs = "varint_bytes (unat val)"
  have len: "length ?bs \<le> 10"
    using length_varint_bytes_u64 [of val] by (simp add: kMaxVarintLength64_def)
  with assms have enc: "encodeVarint val buf = Inr (?bs @ drop (length ?bs) buf, length ?bs)"
    using encodeVarint_loop_spec [of 0 val buf] by (simp add: encodeVarint_def kMaxVarintLength64_def)
  have "tryDecodeVarint (?bs @ rest) = (Inr val, rest)" by (rule tryDecodeVarint_bytes)
  with enc assms len show ?thesis by (simp add: kMaxVarintLength64_def)
qed

theorem varint_roundtrip_witness:
  "\<exists>buf' n. encodeVarint 300 (replicate 10 0) = Inr (buf', n) \<and> n \<le> kMaxVarintLength64 \<and>
    length buf' = length (replicate 10 (0 :: u8)) \<and> drop n buf' = drop n (replicate 10 0) \<and>
    tryDecodeVarint (take n buf' @ [1, 2]) = (Inr 300, [1, 2])"
  by (rule varint_roundtrip) (simp add: kMaxVarintLength64_def)

text \<open>
  Values written one after the other are read back in order: any number of varints from the
  concatenation of their encodings, whatever follows; and no encoding is the beginning of
  another.
\<close>

theorem varint_sequence:
  "decode_many varint_read (length vs) (concat (map varint_written vs) @ rest) =
     Inr (vs, length (concat (map varint_written vs))) \<and>
   (varint_written v @ rest = varint_written w @ rest' \<longrightarrow> v = w)"
  using varints.decode_many_concat [of rest vs] varints.enc_not_prefix [of rest rest' v w] by simp

theorem varint_sequence_witness:
  "decode_many varint_read 2 (concat (map varint_written [300, 1]) @ [9]) =
     Inr ([300, 1], length (concat (map varint_written [300, 1])))"
  using varint_sequence [of "[300, 1]" "[9]"] by (simp add: numeral_2_eq_2)

text \<open>
  C23. The decoder is the reference decoder on the first ten bytes: it fails with
  \<open>TooManyBytes\<close> exactly when there are ten bytes and all carry a continuation bit, with
  \<open>TooFewBytes\<close> exactly when a shorter input ends inside an encoding, it leaves the input
  untouched on both errors, and otherwise returns the little-endian base-128 value modulo
  \<open>2 ^ 64\<close> and drops what it has read. The throwing variant reports the same cases as
  \<open>std::invalid_argument\<close>.
\<close>

theorem tryDecodeVarint_reference:
  "tryDecodeVarint data =
     (case varint_value (take 10 data) of
        None \<Rightarrow> (Inl (if length data \<ge> 10 then TooManyBytes else TooFewBytes), data)
      | Some (v, k) \<Rightarrow> (Inr (of_nat v), drop k data))
   \<and> fst (decodeVarint data) =
     (case varint_value (take 10 data) of
        None \<Rightarrow> Inl (Invalid_Argument (if length data \<ge> 10
          then ''Invalid varint value: too many bytes.''
          else ''Invalid varint value: too few bytes.''))
      | Some (v, k) \<Rightarrow> Inr (of_nat v))"
  by (simp add: decodeVarint_def tryDecodeVarint_spec split: option.splits)

text \<open>
  \<open>encodeVarintSize\<close> is the number of bytes \<open>encodeVarint\<close> writes, on both branches of
  its architecture test: at least one, at most \<open>kMaxVarintLength64\<close>, and at most
  \<open>kMaxVarintLength32\<close> for a value below \<open>2 ^ 32\<close>.
\<close>

theorem encodeVarintSize_exact:
  assumes "encodeVarint val buf = Inr (buf', n)" "length buf \<ge> kMaxVarintLength64"
  shows "encodeVarintSize amd64 val = n \<and> 0 < n \<and> n \<le> kMaxVarintLength64 \<and>
    (unat val < 2 ^ 32 \<longrightarrow> n \<le> kMaxVarintLength32)"
proof (intro conjI impI)
  let ?k = "length (varint_bytes (unat val))"
  have k: "?k \<le> kMaxVarintLength64" by (rule length_varint_bytes_u64)
  with assms have n: "n = ?k"
    using encodeVarint_loop_spec [of 0 val buf] by (simp add: encodeVarint_def)
  then show "encodeVarintSize amd64 val = n" by (simp add: encodeVarintSize_spec)
  from k n show "n \<le> kMaxVarintLength64" by simp
  show "0 < n" using n by (simp add: varint_bytes_not_Nil)
  assume "unat val < 2 ^ 32"
  then have "bitlen (unat val) \<le> 32" by (simp add: bitlen_le_iff)
  then have "(bitlen (unat val) + 6) div 7 \<le> 5" by linarith
  then show "n \<le> kMaxVarintLength32"
    using n by (simp add: length_varint_bytes kMaxVarintLength32_def)
qed

theorem encodeVarintSize_exact_witness:
  "encodeVarint 1 (replicate 10 0) = Inr (1 # replicate 9 0, 1) \<and>
   encodeVarintSize True 1 = 1 \<and> encodeVarintSize False 1 = 1"
proof -
  have enc: "encodeVarint 1 (replicate 10 0) = Inr (1 # replicate 9 0, 1)"
    by code_simp
  moreover have "length (replicate 10 (0 :: u8)) \<ge> kMaxVarintLength64"
    by (simp add: kMaxVarintLength64_def)
  ultimately show ?thesis
    using encodeVarintSize_exact [OF enc] by simp
qed

text \<open>
  C30. The ZigZag functions are inverse bijections between \<open>int64_t\<close> and \<open>uint64_t\<close>, and a
  signed value \<open>x\<close> maps to \<open>2 * x\<close> when it is not negative and to \<open>-2 * x - 1\<close> when it is
  (the comment above the function says \<open>-2 * x + 1\<close>).
\<close>

theorem zigzag_bijection:
  "decodeZigZag (encodeZigZag v) = v \<and> encodeZigZag (decodeZigZag w) = w \<and>
   uint (encodeZigZag v) = (if sint v < 0 then - 2 * sint v - 1 else 2 * sint v)"
  by (simp add: decode_encodeZigZag encode_decodeZigZag uint_encodeZigZag)

end
