(* ===== verification/Folly_FixedString_Base.thy ===== *)
theory Folly_FixedString_Base
  imports Prelude
begin

text \<open>
  The free functions under \<open>BasicFixedString\<close>: \<open>folly/lang/Ordering.h\<close>,
  \<open>folly/portability/Constexpr.h\<close> and the namespace \<open>detail::fixedstring\<close> of
  \<open>folly/FixedString.h\<close>.

  A character type is any type with a zero and a linear order. A \<open>const Char*\<close> is the list of
  the characters from the pointer to the end of its object, read through \<open>rd\<close>. Sizes are
  natural numbers below \<open>npos = 2 ^ 64 - 1\<close>. The release build is modelled: \<open>assert\<close> does
  nothing and \<open>assertOutOfBounds\<close> throws \<open>std::out_of_range\<close>.

  The search functions are proved equal to \<open>first_index\<close> and \<open>last_index\<close>, the least and the
  greatest position with a property, and the comparison to the lexicographic order.
\<close>

section \<open>Definitions\<close>

datatype ordering = ord_lt | ord_eq | ord_gt

fun ordering_to_int :: "ordering \<Rightarrow> int" where
  "ordering_to_int ord_lt = - 1"
| "ordering_to_int ord_eq = 0"
| "ordering_to_int ord_gt = 1"

definition to_ordering :: "int \<Rightarrow> ordering" where
  "to_ordering c = (if c < 0 then ord_lt else if c > 0 then ord_gt else ord_eq)"

text \<open>\<open>strlen_test\<close> is one line of the unrolled conditional: stop with \<open>r\<close> at a null
  character, go on with \<open>k\<close> otherwise.\<close>

definition strlen_test :: "'c::zero list \<Rightarrow> nat \<Rightarrow> nat \<Rightarrow> nat result \<Rightarrow> nat result" where
  "strlen_test mem i r k = andthen (rd mem i) (\<lambda>c. if c = 0 then Inr r else k)"

lemma strlen_test_cong [fundef_cong]:
  "mem = mem' \<Longrightarrow> i = i' \<Longrightarrow> r = r' \<Longrightarrow> (i' < length mem' \<Longrightarrow> k = k') \<Longrightarrow>
   strlen_test mem i r k = strlen_test mem' i' r' k'"
  by (simp add: strlen_test_def rd_def)

function constexpr_strlen_internal :: "'c::zero list \<Rightarrow> nat \<Rightarrow> nat \<Rightarrow> nat result" where
  "constexpr_strlen_internal mem s len =
     strlen_test mem (s + 0) (len + 0) (
     strlen_test mem (s + 1) (len + 1) (
     strlen_test mem (s + 2) (len + 2) (
     strlen_test mem (s + 3) (len + 3) (
     strlen_test mem (s + 4) (len + 4) (
     strlen_test mem (s + 5) (len + 5) (
     strlen_test mem (s + 6) (len + 6) (
     strlen_test mem (s + 7) (len + 7) (
     constexpr_strlen_internal mem (s + 8) (len + 8)))))))))"
  by pat_completeness auto
termination
  by (relation "measure (\<lambda>(mem, s, len). length mem - s)") auto

declare constexpr_strlen_internal.simps [simp del]

definition constexpr_strlen :: "'c::zero list \<Rightarrow> nat result" where
  "constexpr_strlen mem = constexpr_strlen_internal mem 0 0"

function constexpr_strcmp_internal ::
  "int list \<Rightarrow> nat \<Rightarrow> int list \<Rightarrow> nat \<Rightarrow> int result" where
  "constexpr_strcmp_internal m1 s1 m2 s2 =
     andthen (rd m1 s1) (\<lambda>a. andthen (rd m2 s2) (\<lambda>b.
       if a = 0 \<or> a \<noteq> b then Inr (a - b)
       else constexpr_strcmp_internal m1 (s1 + 1) m2 (s2 + 1)))"
  by pat_completeness auto
termination
  by (relation "measure (\<lambda>(m1, s1, m2, s2). length m1 - s1)") (auto simp: rd_eq_Inr_iff)

declare constexpr_strcmp_internal.simps [simp del]

definition constexpr_strcmp :: "int list \<Rightarrow> int list \<Rightarrow> int result" where
  "constexpr_strcmp m1 m2 = constexpr_strcmp_internal m1 0 m2 0"

definition npos :: nat where
  "npos = 2 ^ 64 - 1"

text \<open>Subtraction on \<open>size_t\<close>, for the places where the code subtracts before it checks.\<close>

definition size_sub :: "nat \<Rightarrow> nat \<Rightarrow> nat" where
  "size_sub a b = (a + 2 ^ 64 - b) mod 2 ^ 64"

definition checkOverflow :: "nat \<Rightarrow> nat \<Rightarrow> nat result" where
  "checkOverflow i bound = (if i \<le> bound then Inr i else Inl Out_Of_Range)"

definition checkOverflowOrNpos :: "nat \<Rightarrow> nat \<Rightarrow> nat result" where
  "checkOverflowOrNpos i bound =
     (if i = npos then Inr bound else if i \<le> bound then Inr i else Inl Out_Of_Range)"

definition checkNullTerminated :: "'c::zero list \<Rightarrow> 'c list result" where
  "checkNullTerminated a =
     andthen (rd a (length a - 1)) (\<lambda>c. if c = 0 then Inr a else Inl Terminate)"

function detail_compare ::
  "'c::linorder list \<Rightarrow> nat \<Rightarrow> nat \<Rightarrow> 'c list \<Rightarrow> nat \<Rightarrow> nat \<Rightarrow> ordering result" where
  "detail_compare left left_pos left_size right right_pos right_size =
     (if left_pos = left_size
      then (if right_pos = right_size then Inr ord_eq else Inr ord_lt)
      else if right_pos = right_size then Inr ord_gt
      else andthen (rd left left_pos) (\<lambda>l. andthen (rd right right_pos) (\<lambda>r.
        if l < r then Inr ord_lt
        else if l > r then Inr ord_gt
        else detail_compare left (left_pos + 1) left_size right (right_pos + 1) right_size)))"
  by pat_completeness auto
termination
  by (relation "measure (\<lambda>(left, lp, ls, right, rp, rs). length left - lp)")
     (auto simp: rd_eq_Inr_iff)

declare detail_compare.simps [simp del]

definition detail_equal :: "'c::linorder list \<Rightarrow> nat \<Rightarrow> 'c list \<Rightarrow> nat \<Rightarrow> bool result" where
  "detail_equal left left_size right right_size =
     (if left_size = right_size
      then andthen (detail_compare left 0 left_size right 0 right_size) (\<lambda>o'. Inr (o' = ord_eq))
      else Inr False)"

definition char_at_concat ::
  "'c::zero list \<Rightarrow> nat \<Rightarrow> 'c list \<Rightarrow> nat \<Rightarrow> nat \<Rightarrow> 'c result" where
  "char_at_concat left left_count right right_count i =
     (if i < left_count then rd left i
      else if i < left_count + right_count then rd right (i - left_count)
      else Inr 0)"

definition char_at_replace ::
  "'c::zero list \<Rightarrow> nat \<Rightarrow> nat \<Rightarrow> nat \<Rightarrow> 'c list \<Rightarrow> nat \<Rightarrow> nat \<Rightarrow> nat \<Rightarrow> 'c result" where
  "char_at_replace left left_size left_pos left_count right right_pos right_count i =
     (if i < left_pos then rd left i
      else if i < right_count + left_pos then rd right (i - left_pos + right_pos)
      else if i < left_size - left_count + right_count
           then rd left (i - right_count + left_count)
      else Inr 0)"

fun detail_find_at :: "'c list \<Rightarrow> 'c list \<Rightarrow> nat \<Rightarrow> nat \<Rightarrow> bool result" where
  "detail_find_at left right pos 0 = Inr True"
| "detail_find_at left right pos (Suc count) =
     andthen (rd left (pos + count)) (\<lambda>l. andthen (rd right count) (\<lambda>r.
       if l = r then detail_find_at left right pos count else Inr False))"

fun detail_find_one_of_at :: "'c \<Rightarrow> 'c list \<Rightarrow> nat \<Rightarrow> bool result" where
  "detail_find_one_of_at ch right 0 = Inr False"
| "detail_find_one_of_at ch right (Suc pos) =
     andthen (rd right pos) (\<lambda>r. if ch = r then Inr True else detail_find_one_of_at ch right pos)"

function detail_find :: "'c list \<Rightarrow> nat \<Rightarrow> 'c list \<Rightarrow> nat \<Rightarrow> nat \<Rightarrow> nat result" where
  "detail_find left left_size right pos count =
     andthen (detail_find_at left right pos count) (\<lambda>found.
       if found then Inr pos
       else if left_size \<le> pos + count then Inr npos
       else detail_find left left_size right (pos + 1) count)"
  by pat_completeness auto
termination
  by (relation "measure (\<lambda>(left, ls, right, pos, count). ls - pos)") auto

fun detail_rfind :: "'c list \<Rightarrow> 'c list \<Rightarrow> nat \<Rightarrow> nat \<Rightarrow> nat result" where
  "detail_rfind left right pos count =
     andthen (detail_find_at left right pos count) (\<lambda>found.
       if found then Inr pos
       else case pos of 0 \<Rightarrow> Inr npos | Suc pos' \<Rightarrow> detail_rfind left right pos' count)"

function detail_find_first_of :: "'c list \<Rightarrow> nat \<Rightarrow> 'c list \<Rightarrow> nat \<Rightarrow> nat \<Rightarrow> nat result" where
  "detail_find_first_of left left_size right pos count =
     andthen (rd left pos) (\<lambda>c. andthen (detail_find_one_of_at c right count) (\<lambda>found.
       if found then Inr pos
       else if left_size \<le> pos + 1 then Inr npos
       else detail_find_first_of left left_size right (pos + 1) count))"
  by pat_completeness auto
termination
  by (relation "measure (\<lambda>(left, ls, right, pos, count). ls - pos)") auto

function detail_find_first_not_of :: "'c list \<Rightarrow> nat \<Rightarrow> 'c list \<Rightarrow> nat \<Rightarrow> nat \<Rightarrow> nat result" where
  "detail_find_first_not_of left left_size right pos count =
     andthen (rd left pos) (\<lambda>c. andthen (detail_find_one_of_at c right count) (\<lambda>found.
       if \<not> found then Inr pos
       else if left_size \<le> pos + 1 then Inr npos
       else detail_find_first_not_of left left_size right (pos + 1) count))"
  by pat_completeness auto
termination
  by (relation "measure (\<lambda>(left, ls, right, pos, count). ls - pos)") auto

fun detail_find_last_of :: "'c list \<Rightarrow> 'c list \<Rightarrow> nat \<Rightarrow> nat \<Rightarrow> nat result" where
  "detail_find_last_of left right pos count =
     andthen (rd left pos) (\<lambda>c. andthen (detail_find_one_of_at c right count) (\<lambda>found.
       if found then Inr pos
       else case pos of 0 \<Rightarrow> Inr npos | Suc pos' \<Rightarrow> detail_find_last_of left right pos' count))"

fun detail_find_last_not_of :: "'c list \<Rightarrow> 'c list \<Rightarrow> nat \<Rightarrow> nat \<Rightarrow> nat result" where
  "detail_find_last_not_of left right pos count =
     andthen (rd left pos) (\<lambda>c. andthen (detail_find_one_of_at c right count) (\<lambda>found.
       if \<not> found then Inr pos
       else case pos of 0 \<Rightarrow> Inr npos | Suc pos' \<Rightarrow> detail_find_last_not_of left right pos' count))"

declare detail_find.simps [simp del] detail_rfind.simps [simp del]
declare detail_find_first_of.simps [simp del] detail_find_first_not_of.simps [simp del]
declare detail_find_last_of.simps [simp del] detail_find_last_not_of.simps [simp del]

section \<open>Reference definitions\<close>

definition subrange :: "nat \<Rightarrow> nat \<Rightarrow> 'c list \<Rightarrow> 'c list" where
  "subrange a b xs = take (b - a) (drop a xs)"

definition c_string :: "'c::zero list \<Rightarrow> 'c list" where
  "c_string mem = takeWhile (\<lambda>c. c \<noteq> 0) mem"

fun list_compare :: "'c::linorder list \<Rightarrow> 'c list \<Rightarrow> ordering" where
  "list_compare [] [] = ord_eq"
| "list_compare [] (y # ys) = ord_lt"
| "list_compare (x # xs) [] = ord_gt"
| "list_compare (x # xs) (y # ys) =
     (if x < y then ord_lt else if x > y then ord_gt else list_compare xs ys)"

definition first_index :: "(nat \<Rightarrow> bool) \<Rightarrow> nat \<Rightarrow> nat \<Rightarrow> nat" where
  "first_index P lo hi = (case filter P [lo..<hi] of [] \<Rightarrow> npos | p # _ \<Rightarrow> p)"

primrec last_index :: "(nat \<Rightarrow> bool) \<Rightarrow> nat \<Rightarrow> nat" where
  "last_index P 0 = npos"
| "last_index P (Suc n) = (if P n then n else last_index P n)"

definition match_at :: "'c list \<Rightarrow> 'c list \<Rightarrow> nat \<Rightarrow> nat \<Rightarrow> bool" where
  "match_at left right count p \<longleftrightarrow> take count (drop p left) = take count right"

lemma first_index_empty [simp]: "hi \<le> lo \<Longrightarrow> first_index P lo hi = npos"
  by (simp add: first_index_def)

lemma first_index_step:
  "lo < hi \<Longrightarrow> first_index P lo hi = (if P lo then lo else first_index P (Suc lo) hi)"
  by (simp add: first_index_def upt_conv_Cons)

lemma first_index_cases:
  obtains (none) "first_index P lo hi = npos" "\<And>q. lo \<le> q \<Longrightarrow> q < hi \<Longrightarrow> \<not> P q"
  | (found) "lo \<le> first_index P lo hi" "first_index P lo hi < hi" "P (first_index P lo hi)"
      "\<And>q. lo \<le> q \<Longrightarrow> q < first_index P lo hi \<Longrightarrow> \<not> P q"
proof (cases "filter P [lo..<hi]")
  case Nil
  then have "\<And>q. lo \<le> q \<Longrightarrow> q < hi \<Longrightarrow> \<not> P q" by (simp add: filter_empty_conv)
  with Nil show ?thesis by (intro none) (simp add: first_index_def)
next
  case (Cons p ps)
  then obtain us vs where split: "[lo..<hi] = us @ p # vs" "\<forall>u\<in>set us. \<not> P u" "P p"
    by (auto simp: filter_eq_Cons_iff)
  have len: "length us < hi - lo" using arg_cong [OF split(1), of length] by simp
  then have "[lo..<hi] ! length us = lo + length us" by (intro nth_upt) simp
  then have "p = lo + length us" by (simp add: split(1))
  moreover have "q \<in> set us" if "lo \<le> q" "q < p" for q
  proof -
    have "us = take (length us) [lo..<hi]" by (simp add: split(1))
    also have "\<dots> = [lo..<lo + length us]"
      using len by (simp add: take_upt)
    finally show ?thesis using that \<open>p = lo + length us\<close> by (metis atLeastLessThan_iff set_upt)
  qed
  moreover have "first_index P lo hi = p" using Cons by (simp add: first_index_def)
  ultimately show ?thesis using split(2,3) len by (intro found) auto
qed

lemma last_index_cases:
  obtains (none) "last_index P n = npos" "\<And>q. q < n \<Longrightarrow> \<not> P q"
  | (found) "last_index P n < n" "P (last_index P n)"
      "\<And>q. last_index P n < q \<Longrightarrow> q < n \<Longrightarrow> \<not> P q"
proof (induction n arbitrary: thesis)
  case (Suc n)
  show ?case
  proof (cases "P n")
    case True
    then show ?thesis using Suc.prems(2) by simp
  next
    case False
    show ?thesis
    proof (rule Suc.IH)
      assume "last_index P n = npos" "\<And>q. q < n \<Longrightarrow> \<not> P q"
      with False show ?thesis using Suc.prems(1) by (auto simp: less_Suc_eq)
    next
      assume "last_index P n < n" "P (last_index P n)"
        "\<And>q. last_index P n < q \<Longrightarrow> q < n \<Longrightarrow> \<not> P q"
      with False show ?thesis using Suc.prems(2) by (auto simp: less_Suc_eq)
    qed
  qed
qed simp

section \<open>Lengths and comparisons of character arrays\<close>

definition strlen_spec :: "'c::zero list \<Rightarrow> nat \<Rightarrow> nat result" where
  "strlen_spec xs len =
     (if 0 \<in> set xs then Inr (len + length (c_string xs)) else Inl Undefined_Behaviour)"

lemma strlen_test_spec:
  "strlen_test mem s len (strlen_spec (drop (Suc s) mem) (Suc len)) = strlen_spec (drop s mem) len"
proof (cases "s < length mem")
  case True
  then have "drop s mem = mem ! s # drop (Suc s) mem" by (simp add: Cons_nth_drop_Suc)
  with True show ?thesis by (auto simp: strlen_test_def strlen_spec_def c_string_def)
next
  case False
  then show ?thesis by (simp add: strlen_test_def strlen_spec_def rd_def)
qed

lemma constexpr_strlen_internal_spec:
  "constexpr_strlen_internal mem s len = strlen_spec (drop s mem) len"
proof (induction "length mem - s" arbitrary: s len rule: less_induct)
  case less
  show ?case
  proof (cases "s < length mem")
    case True
    then have IH: "constexpr_strlen_internal mem (s + 8) (len + 8) =
        strlen_spec (drop (s + 8) mem) (len + 8)" by (intro less) simp
    have step: "strlen_test mem (s + k) (len + k) (strlen_spec (drop (s + Suc k) mem) (len + Suc k)) =
        strlen_spec (drop (s + k) mem) (len + k)" for k
      using strlen_test_spec [of mem "s + k" "len + k"] by simp
    show ?thesis
      using step [of 0] step [of 1] step [of 2] step [of 3]
        step [of 4] step [of 5] step [of 6] step [of 7]
      by (subst constexpr_strlen_internal.simps) (simp add: IH)
  next
    case False
    then show ?thesis
      by (subst constexpr_strlen_internal.simps) (simp add: strlen_test_def rd_def strlen_spec_def)
  qed
qed

lemma constexpr_strlen_spec:
  "constexpr_strlen mem =
     (if 0 \<in> set mem then Inr (length (c_string mem)) else Inl Undefined_Behaviour)"
  by (simp add: constexpr_strlen_def constexpr_strlen_internal_spec strlen_spec_def)

lemma length_c_string: "0 \<in> set mem \<Longrightarrow> length (c_string mem) < length mem"
  unfolding c_string_def
  by (induction mem) auto

lemma take_c_string: "take (length (c_string mem)) mem = c_string mem"
  unfolding c_string_def by (metis takeWhile_eq_take)

lemma subrange_Cons: "a < b \<Longrightarrow> b \<le> length xs \<Longrightarrow> subrange a b xs = xs ! a # subrange (Suc a) b xs"
proof -
  assume "a < b" "b \<le> length xs"
  moreover from this have "b - a = Suc (b - Suc a)" by simp
  ultimately show ?thesis
    using Cons_nth_drop_Suc [of a xs] by (simp add: subrange_def) (metis take_Suc_Cons)
qed

lemma subrange_empty [simp]: "subrange a a xs = []"
  by (simp add: subrange_def)

lemma subrange_0: "subrange 0 b xs = take b xs"
  by (simp add: subrange_def)

lemma detail_compare_spec:
  "left_pos \<le> left_size \<Longrightarrow> left_size \<le> length left \<Longrightarrow>
   right_pos \<le> right_size \<Longrightarrow> right_size \<le> length right \<Longrightarrow>
   detail_compare left left_pos left_size right right_pos right_size =
   Inr (list_compare (subrange left_pos left_size left) (subrange right_pos right_size right))"
proof (induction left left_pos left_size right right_pos right_size rule: detail_compare.induct)
  case (1 left lp ls right rp rs)
  show ?case
  proof (cases "lp < ls \<and> rp < rs")
    case True
    with 1 show ?thesis
      by (subst detail_compare.simps) (simp add: subrange_Cons)
  next
    case False
    with "1.prems" have "lp = ls \<or> lp < ls \<and> rp = rs" by auto
    with "1.prems" show ?thesis
      by (subst detail_compare.simps) (cases "rp = rs"; auto simp: subrange_Cons)
  qed
qed

lemma list_compare_eq_iff: "list_compare xs ys = ord_eq \<longleftrightarrow> xs = ys"
  by (induction xs ys rule: list_compare.induct) auto

lemma list_compare_lt_iff: "list_compare xs ys = ord_lt \<longleftrightarrow> (xs, ys) \<in> lexord {(a, b). a < b}"
  by (induction xs ys rule: list_compare.induct) auto

lemma list_compare_gt_iff: "list_compare xs ys = ord_gt \<longleftrightarrow> (ys, xs) \<in> lexord {(a, b). a < b}"
  by (induction xs ys rule: list_compare.induct) auto

lemma detail_equal_spec:
  "left_size \<le> length left \<Longrightarrow> right_size \<le> length right \<Longrightarrow>
   detail_equal left left_size right right_size = Inr (take left_size left = take right_size right)"
  by (auto simp: detail_equal_def detail_compare_spec subrange_0 list_compare_eq_iff)
     (metis length_take min.absorb2)

section \<open>Searching\<close>

lemma detail_find_at_spec:
  "pos + count \<le> length left \<Longrightarrow> count \<le> length right \<Longrightarrow>
   detail_find_at left right pos count = Inr (match_at left right count pos)"
proof (induction count)
  case (Suc count)
  then show ?case
    by (auto simp: match_at_def take_Suc_conv_app_nth)
qed (simp add: match_at_def)

lemma detail_find_one_of_at_spec:
  "pos \<le> length right \<Longrightarrow> detail_find_one_of_at ch right pos = Inr (ch \<in> set (take pos right))"
  by (induction pos) (auto simp: take_Suc_conv_app_nth)

lemma detail_find_spec:
  "pos + count \<le> left_size \<Longrightarrow> left_size \<le> length left \<Longrightarrow> count \<le> length right \<Longrightarrow>
   detail_find left left_size right pos count =
   Inr (first_index (match_at left right count) pos (Suc left_size - count))"
proof (induction left left_size right pos count rule: detail_find.induct)
  case (1 left left_size right pos count)
  then have at: "detail_find_at left right pos count = Inr (match_at left right count pos)"
    by (simp add: detail_find_at_spec)
  have step: "first_index (match_at left right count) pos (Suc left_size - count) =
      (if match_at left right count pos then pos
       else first_index (match_at left right count) (Suc pos) (Suc left_size - count))"
    using "1.prems"(1) by (intro first_index_step) simp
  show ?case
  proof (cases "left_size \<le> pos + count")
    case True
    then show ?thesis using step by (subst detail_find.simps) (simp add: at)
  next
    case False
    then show ?thesis using step "1.IH" [OF at] "1.prems"
      by (subst detail_find.simps) (simp add: at)
  qed
qed

lemma detail_rfind_spec:
  "pos + count \<le> length left \<Longrightarrow> count \<le> length right \<Longrightarrow>
   detail_rfind left right pos count = Inr (last_index (match_at left right count) (Suc pos))"
  by (induction pos) (subst detail_rfind.simps; simp add: detail_find_at_spec)+

lemma detail_find_first_of_spec:
  "pos < left_size \<Longrightarrow> left_size \<le> length left \<Longrightarrow> count \<le> length right \<Longrightarrow>
   detail_find_first_of left left_size right pos count =
   Inr (first_index (\<lambda>p. left ! p \<in> set (take count right)) pos left_size)"
proof (induction left left_size right pos count rule: detail_find_first_of.induct)
  case (1 left left_size right pos count)
  then show ?case
    by (subst detail_find_first_of.simps)
       (auto simp: detail_find_one_of_at_spec first_index_step [of pos])
qed

lemma detail_find_first_not_of_spec:
  "pos < left_size \<Longrightarrow> left_size \<le> length left \<Longrightarrow> count \<le> length right \<Longrightarrow>
   detail_find_first_not_of left left_size right pos count =
   Inr (first_index (\<lambda>p. left ! p \<notin> set (take count right)) pos left_size)"
proof (induction left left_size right pos count rule: detail_find_first_not_of.induct)
  case (1 left left_size right pos count)
  then show ?case
    by (subst detail_find_first_not_of.simps)
       (auto simp: detail_find_one_of_at_spec first_index_step [of pos])
qed

lemma detail_find_last_of_spec:
  "pos < length left \<Longrightarrow> count \<le> length right \<Longrightarrow>
   detail_find_last_of left right pos count =
   Inr (last_index (\<lambda>p. left ! p \<in> set (take count right)) (Suc pos))"
  by (induction pos) (subst detail_find_last_of.simps; simp add: detail_find_one_of_at_spec)+

lemma detail_find_last_not_of_spec:
  "pos < length left \<Longrightarrow> count \<le> length right \<Longrightarrow>
   detail_find_last_not_of left right pos count =
   Inr (last_index (\<lambda>p. left ! p \<notin> set (take count right)) (Suc pos))"
  by (induction pos) (subst detail_find_last_not_of.simps; simp add: detail_find_one_of_at_spec)+

end
