(* ===== verification/Folly_FixedString.thy ===== *)
theory Folly_FixedString
  imports Folly_FixedString_Base
begin

text \<open>
  \<open>BasicFixedString<Char, N>\<close> of \<open>folly/FixedString.h\<close>: a string of at most \<open>N\<close> characters in
  an array of \<open>N + 1\<close>, always null-terminated.

  The record has the two members of the class. The template parameter \<open>N\<close> is the first
  argument of the operations that depend on it; a second capacity \<open>M\<close> is that of another
  string. A \<open>const Char*\<close> into the string itself (\<open>first\<close>, \<open>last\<close>) is its offset from
  \<open>data()\<close>; a null-terminated \<open>const Char*\<close> and a character array are the list of their
  characters, the terminator included; an \<open>initializer_list\<close> and a \<open>Range\<close> are the list of
  their characters. A mutating member returns the new string. Where overloads differ only in
  the kind of the argument, the kinds are the constructors of a datatype and each overload is
  one equation. All reads and writes go through \<open>rd\<close> and \<open>wr\<close>.
\<close>

section \<open>Definitions\<close>

record 'c fixed_string =
  fs_data :: "'c list"
  fs_size :: nat

subsection \<open>Array loops\<close>

text \<open>\<open>for (i = 0; i < n; ++i) dst[dp + i] = src[sp + i]\<close> and the loop that stores one
  character \<open>n\<close> times.\<close>

fun array_copy :: "'c list \<Rightarrow> nat \<Rightarrow> 'c list \<Rightarrow> nat \<Rightarrow> nat \<Rightarrow> 'c list result" where
  "array_copy dst dp src sp 0 = Inr dst"
| "array_copy dst dp src sp (Suc n) =
     andthen (rd src sp) (\<lambda>c. andthen (wr dst dp c) (\<lambda>dst'.
       array_copy dst' (Suc dp) src (Suc sp) n))"

fun array_fill :: "'c list \<Rightarrow> nat \<Rightarrow> 'c \<Rightarrow> nat \<Rightarrow> 'c list result" where
  "array_fill dst dp ch 0 = Inr dst"
| "array_fill dst dp ch (Suc n) = andthen (wr dst dp ch) (\<lambda>dst'. array_fill dst' (Suc dp) ch n)"

text \<open>The common end of the mutating members: store the size, write the terminator.\<close>

definition set_size :: "'c::zero list \<Rightarrow> nat \<Rightarrow> 'c fixed_string result" where
  "set_size d n = andthen (wr d n 0) (\<lambda>d'. Inr \<lparr>fs_data = d', fs_size = n\<rparr>)"

subsection \<open>Constructors\<close>

text \<open>The private constructors take an index sequence of \<open>K\<close> indices; the array members after
  the last initialiser are zero.\<close>

definition ctor_range ::
  "nat \<Rightarrow> 'c::zero list \<Rightarrow> nat \<Rightarrow> nat \<Rightarrow> nat \<Rightarrow> nat \<Rightarrow> 'c fixed_string result" where
  "ctor_range N that sz K pos count =
     andthen (traverse (\<lambda>i. if i < size_sub sz pos \<and> i < count then rd that (i + pos) else Inr 0)
                [0..<K])
       (\<lambda>cs. Inr \<lparr>fs_data = cs @ replicate (Suc N - K) 0, fs_size = min (size_sub sz pos) count\<rparr>)"

definition ctor_fill_impl :: "nat \<Rightarrow> nat \<Rightarrow> 'c::zero \<Rightarrow> 'c fixed_string" where
  "ctor_fill_impl N count ch =
     \<lparr>fs_data = map (\<lambda>i. if i < count then ch else 0) [0..<N] @ [0], fs_size = count\<rparr>"

definition ctor_concat ::
  "nat \<Rightarrow> 'c::zero list \<Rightarrow> nat \<Rightarrow> 'c list \<Rightarrow> nat \<Rightarrow> 'c fixed_string result" where
  "ctor_concat N left left_size right right_size =
     andthen (traverse (char_at_concat left left_size right right_size) [0..<N])
       (\<lambda>cs. Inr \<lparr>fs_data = cs @ [0], fs_size = left_size + right_size\<rparr>)"

definition ctor_replace ::
  "nat \<Rightarrow> 'c::zero list \<Rightarrow> nat \<Rightarrow> nat \<Rightarrow> nat \<Rightarrow> 'c list \<Rightarrow> nat \<Rightarrow> nat \<Rightarrow>
   'c fixed_string result" where
  "ctor_replace N left left_size left_pos left_count right right_pos right_count =
     andthen (traverse
         (char_at_replace left left_size left_pos left_count right right_pos right_count) [0..<N])
       (\<lambda>cs. Inr \<lparr>fs_data = cs @ [0], fs_size = left_size - left_count + right_count\<rparr>)"

definition ctor_default :: "nat \<Rightarrow> 'c::zero fixed_string" where
  "ctor_default N = \<lparr>fs_data = replicate (Suc N) 0, fs_size = 0\<rparr>"

definition ctor_substring ::
  "nat \<Rightarrow> nat \<Rightarrow> 'c::zero fixed_string \<Rightarrow> nat \<Rightarrow> nat \<Rightarrow> 'c fixed_string result" where
  "ctor_substring N M that pos count =
     andthen (checkOverflow pos (fs_size that)) (\<lambda>p.
     andthen (checkOverflowOrNpos count (fs_size that - p)) (\<lambda>c.
     andthen (checkOverflow c N) (\<lambda>c'.
       ctor_range N (fs_data that) (fs_size that) (if M < N then M else N) pos c')))"

definition ctor_convert :: "nat \<Rightarrow> nat \<Rightarrow> 'c::zero fixed_string \<Rightarrow> 'c fixed_string result" where
  "ctor_convert N M that = ctor_substring N M that 0 (fs_size that)"

definition ctor_array :: "nat \<Rightarrow> 'c::zero list \<Rightarrow> 'c fixed_string result" where
  "ctor_array N that =
     andthen (checkNullTerminated that) (\<lambda>a.
       ctor_range N a (length that - 1) (length that - 1) 0 npos)"

definition ctor_ptr :: "nat \<Rightarrow> 'c::zero list \<Rightarrow> nat \<Rightarrow> 'c fixed_string result" where
  "ctor_ptr N that count =
     andthen (checkOverflow count N) (\<lambda>c. ctor_range N that c N 0 npos)"

definition ctor_fill :: "nat \<Rightarrow> nat \<Rightarrow> 'c::zero \<Rightarrow> 'c fixed_string result" where
  "ctor_fill N count ch = andthen (checkOverflow count N) (\<lambda>c. Inr (ctor_fill_impl N c ch))"

definition ctor_init_list :: "nat \<Rightarrow> 'c::zero list \<Rightarrow> 'c fixed_string result" where
  "ctor_init_list N il = ctor_ptr N il (length il)"

definition makeFixedString :: "'c::zero list \<Rightarrow> 'c fixed_string result" where
  "makeFixedString a = ctor_array (length a - 1) a"

subsection \<open>Copying out and assignment\<close>

function fs_copy_loop ::
  "'c fixed_string \<Rightarrow> 'c list \<Rightarrow> nat \<Rightarrow> nat \<Rightarrow> nat \<Rightarrow> ('c list \<times> nat) result" where
  "fs_copy_loop s dest count pos i =
     (if i < count
      then if i + pos = fs_size s then Inr (dest, fs_size s)
           else andthen (rd (fs_data s) (i + pos)) (\<lambda>c. andthen (wr dest i c) (\<lambda>dest'.
             fs_copy_loop s dest' count pos (i + 1)))
      else Inr (dest, count))"
  by pat_completeness auto
termination
  by (relation "measure (\<lambda>(s, dest, count, pos, i). count - i)") auto

declare fs_copy_loop.simps [simp del]

definition fs_copy_pos ::
  "'c fixed_string \<Rightarrow> 'c list \<Rightarrow> nat \<Rightarrow> nat \<Rightarrow> ('c list \<times> nat) result" where
  "fs_copy_pos s dest count pos =
     andthen (checkOverflow pos (fs_size s)) (\<lambda>_. fs_copy_loop s dest count pos 0)"

definition fs_copy :: "'c fixed_string \<Rightarrow> 'c list \<Rightarrow> nat \<Rightarrow> ('c list \<times> nat) result" where
  "fs_copy s dest count = fs_copy_pos s dest count 0"

definition fs_assign_op ::
  "nat \<Rightarrow> 'c::zero fixed_string \<Rightarrow> 'c fixed_string \<Rightarrow> 'c fixed_string result" where
  "fs_assign_op N s that =
     andthen (checkOverflow (fs_size that) N) (\<lambda>_.
     andthen (fs_copy that (fs_data s) (fs_size that)) (\<lambda>(d, n). set_size d n))"

definition fs_assign_ptr ::
  "nat \<Rightarrow> 'c::zero fixed_string \<Rightarrow> 'c list \<Rightarrow> nat \<Rightarrow> 'c fixed_string result" where
  "fs_assign_ptr N s that count =
     andthen (checkOverflow count N) (\<lambda>_.
     andthen (array_copy (fs_data s) 0 that 0 count) (\<lambda>d. set_size d count))"

definition fs_assign_array ::
  "nat \<Rightarrow> 'c::zero fixed_string \<Rightarrow> 'c list \<Rightarrow> 'c fixed_string result" where
  "fs_assign_array N s that =
     andthen (checkNullTerminated that) (\<lambda>a. fs_assign_ptr N s a (length that - 1))"

definition fs_assign_op_array ::
  "nat \<Rightarrow> 'c::zero fixed_string \<Rightarrow> 'c list \<Rightarrow> 'c fixed_string result" where
  "fs_assign_op_array N s that =
     andthen (checkNullTerminated that) (\<lambda>a. fs_assign_ptr N s a (length that - 1))"

definition fs_assign_op_init_list ::
  "nat \<Rightarrow> 'c::zero fixed_string \<Rightarrow> 'c list \<Rightarrow> 'c fixed_string result" where
  "fs_assign_op_init_list N s il =
     andthen (checkOverflow (length il) N) (\<lambda>_.
     andthen (array_copy (fs_data s) 0 il 0 (length il)) (\<lambda>d. set_size d (length il)))"

definition fs_assign_fill ::
  "nat \<Rightarrow> 'c::zero fixed_string \<Rightarrow> nat \<Rightarrow> 'c \<Rightarrow> 'c fixed_string result" where
  "fs_assign_fill N s count ch =
     andthen (checkOverflow count N) (\<lambda>_.
     andthen (array_fill (fs_data s) 0 ch count) (\<lambda>d. set_size d count))"

text \<open>Assignment from a string of capacity \<open>M\<close>: for \<open>M = N\<close> overload resolution takes the
  defaulted \<open>operator=\<close>, which copies both members, and the template otherwise.\<close>

definition fs_assign_any ::
  "nat \<Rightarrow> nat \<Rightarrow> 'c::zero fixed_string \<Rightarrow> 'c fixed_string \<Rightarrow> 'c fixed_string result" where
  "fs_assign_any N M s that = (if M = N then Inr that else fs_assign_op N s that)"

definition fs_assign ::
  "nat \<Rightarrow> nat \<Rightarrow> 'c::zero fixed_string \<Rightarrow> 'c fixed_string \<Rightarrow> 'c fixed_string result" where
  "fs_assign N M s that = fs_assign_any N M s that"

definition fs_assign_substring ::
  "nat \<Rightarrow> 'c::zero fixed_string \<Rightarrow> 'c fixed_string \<Rightarrow> nat \<Rightarrow> nat \<Rightarrow> 'c fixed_string result" where
  "fs_assign_substring N s that pos count =
     andthen (checkOverflow pos (fs_size that)) (\<lambda>_.
     andthen (checkOverflowOrNpos count (fs_size that - pos)) (\<lambda>c.
       fs_assign_ptr N s (drop pos (fs_data that)) c))"

text \<open>\<open>swap\<close>: the characters up to and including the terminator of the longer string, then the
  sizes.\<close>

function fs_swap_loop ::
  "'c list \<Rightarrow> 'c list \<Rightarrow> nat \<Rightarrow> nat \<Rightarrow> ('c list \<times> 'c list) result" where
  "fs_swap_loop a b i bound =
     (if i \<le> bound
      then andthen (rd a i) (\<lambda>x. andthen (rd b i) (\<lambda>y.
           andthen (wr a i y) (\<lambda>a'. andthen (wr b i x) (\<lambda>b'.
             fs_swap_loop a' b' (i + 1) bound))))
      else Inr (a, b))"
  by pat_completeness auto
termination
  by (relation "measure (\<lambda>(a, b, i, bound). Suc bound - i)") auto

declare fs_swap_loop.simps [simp del]

definition fs_swap ::
  "'c fixed_string \<Rightarrow> 'c fixed_string \<Rightarrow> ('c fixed_string \<times> 'c fixed_string) result" where
  "fs_swap s that =
     andthen (fs_swap_loop (fs_data s) (fs_data that) 0 (max (fs_size s) (fs_size that)))
       (\<lambda>(a, b). Inr (\<lparr>fs_data = a, fs_size = fs_size that\<rparr>,
                      \<lparr>fs_data = b, fs_size = fs_size s\<rparr>))"

subsection \<open>Element access\<close>

definition fs_empty :: "'c fixed_string \<Rightarrow> bool" where
  "fs_empty s \<longleftrightarrow> fs_size s = 0"

definition toStdString :: "'c fixed_string \<Rightarrow> 'c list" where
  "toStdString s = take (fs_size s) (fs_data s)"

definition fs_at :: "'c fixed_string \<Rightarrow> nat \<Rightarrow> 'c result" where
  "fs_at s i = (if i \<le> fs_size s then rd (fs_data s) i else Inl Out_Of_Range)"

definition fs_index :: "'c fixed_string \<Rightarrow> nat \<Rightarrow> 'c result" where
  "fs_index s i = rd (fs_data s) i"

definition fs_front :: "'c fixed_string \<Rightarrow> 'c result" where
  "fs_front s = fs_index s 0"

definition fs_back :: "'c fixed_string \<Rightarrow> 'c result" where
  "fs_back s = rd (fs_data s) (size_sub (fs_size s) 1)"

subsection \<open>Appending, removing\<close>

definition fs_clear :: "'c::zero fixed_string \<Rightarrow> 'c fixed_string result" where
  "fs_clear s = set_size (fs_data s) 0"

definition fs_push_back :: "nat \<Rightarrow> 'c::zero fixed_string \<Rightarrow> 'c \<Rightarrow> 'c fixed_string result" where
  "fs_push_back N s ch =
     andthen (checkOverflow 1 (size_sub N (fs_size s))) (\<lambda>_.
     andthen (wr (fs_data s) (fs_size s) ch) (\<lambda>d. set_size d (fs_size s + 1)))"

definition fs_pop_back :: "'c::zero fixed_string \<Rightarrow> 'c fixed_string result" where
  "fs_pop_back s =
     andthen (checkOverflow 1 (fs_size s)) (\<lambda>_. set_size (fs_data s) (fs_size s - 1))"

definition fs_cpop_back :: "nat \<Rightarrow> 'c::zero fixed_string \<Rightarrow> 'c fixed_string result" where
  "fs_cpop_back N s =
     andthen (checkOverflow 1 (fs_size s)) (\<lambda>k.
       ctor_substring (N - 1) N s 0 (fs_size s - k))"

definition fs_append_fill ::
  "nat \<Rightarrow> 'c::zero fixed_string \<Rightarrow> nat \<Rightarrow> 'c \<Rightarrow> 'c fixed_string result" where
  "fs_append_fill N s count ch =
     andthen (checkOverflow count (size_sub N (fs_size s))) (\<lambda>_.
     andthen (array_fill (fs_data s) (fs_size s) ch count) (\<lambda>d.
       set_size d (fs_size s + count)))"

definition fs_append_substring ::
  "nat \<Rightarrow> 'c::zero fixed_string \<Rightarrow> 'c fixed_string \<Rightarrow> nat \<Rightarrow> nat \<Rightarrow> 'c fixed_string result" where
  "fs_append_substring N s that pos count =
     andthen (checkOverflow pos (fs_size that)) (\<lambda>_.
     andthen (checkOverflowOrNpos count (fs_size that - pos)) (\<lambda>c.
     andthen (checkOverflow c (size_sub N (fs_size s))) (\<lambda>_.
     andthen (array_copy (fs_data s) (fs_size s) (fs_data that) pos c) (\<lambda>d.
       set_size d (fs_size s + c)))))"

definition fs_append ::
  "nat \<Rightarrow> 'c::zero fixed_string \<Rightarrow> 'c fixed_string \<Rightarrow> 'c fixed_string result" where
  "fs_append N s that = fs_append_substring N s that 0 (fs_size that)"

definition fs_append_ptr ::
  "nat \<Rightarrow> 'c::zero fixed_string \<Rightarrow> 'c list \<Rightarrow> nat \<Rightarrow> 'c fixed_string result" where
  "fs_append_ptr N s that count =
     andthen (checkOverflow count (size_sub N (fs_size s))) (\<lambda>_.
     andthen (array_copy (fs_data s) (fs_size s) that 0 count) (\<lambda>d.
       set_size d (fs_size s + count)))"

definition fs_append_cstr ::
  "nat \<Rightarrow> 'c::zero fixed_string \<Rightarrow> 'c list \<Rightarrow> 'c fixed_string result" where
  "fs_append_cstr N s that = andthen (constexpr_strlen that) (\<lambda>n. fs_append_ptr N s that n)"

text \<open>\<open>operator+=\<close> for a C string, another string, a character, an initializer list.\<close>

datatype 'c addend = Add_cstr "'c list" | Add_fs "'c fixed_string" | Add_char 'c | Add_list "'c list"

fun fs_plus_assign ::
  "nat \<Rightarrow> 'c::zero fixed_string \<Rightarrow> 'c addend \<Rightarrow> 'c fixed_string result" where
  "fs_plus_assign N s (Add_cstr that) = fs_append_cstr N s that"
| "fs_plus_assign N s (Add_fs that) = fs_append_substring N s that 0 (fs_size that)"
| "fs_plus_assign N s (Add_char ch) = fs_push_back N s ch"
| "fs_plus_assign N s (Add_list il) = fs_append_ptr N s il (length il)"

subsection \<open>Concatenation\<close>

definition plus_array_fs :: "nat \<Rightarrow> 'c::zero list \<Rightarrow> 'c fixed_string \<Rightarrow> 'c fixed_string result" where
  "plus_array_fs N a b =
     andthen (checkNullTerminated a) (\<lambda>a'.
       ctor_concat (N + length a - 1) a' (length a - 1) (fs_data b) (fs_size b))"

definition plus_fs_array :: "nat \<Rightarrow> 'c::zero fixed_string \<Rightarrow> 'c list \<Rightarrow> 'c fixed_string result" where
  "plus_fs_array N a b =
     andthen (checkNullTerminated b) (\<lambda>b'.
       ctor_concat (N + length b - 1) (fs_data a) (fs_size a) b' (length b - 1))"

definition plus_char_fs :: "nat \<Rightarrow> 'c::zero \<Rightarrow> 'c fixed_string \<Rightarrow> 'c fixed_string result" where
  "plus_char_fs N a b = ctor_concat (N + 1) [a, 0] 1 (fs_data b) (fs_size b)"

definition plus_fs_char :: "nat \<Rightarrow> 'c::zero fixed_string \<Rightarrow> 'c \<Rightarrow> 'c fixed_string result" where
  "plus_fs_char N a b = ctor_concat (N + 1) (fs_data a) (fs_size a) [b, 0] 1"

definition plus_fs_fs ::
  "nat \<Rightarrow> nat \<Rightarrow> 'c::zero fixed_string \<Rightarrow> 'c fixed_string \<Rightarrow> 'c fixed_string result" where
  "plus_fs_fs N M a b = ctor_concat (N + M) (fs_data a) (fs_size a) (fs_data b) (fs_size b)"

definition fs_cappend_char :: "nat \<Rightarrow> 'c::zero fixed_string \<Rightarrow> 'c \<Rightarrow> 'c fixed_string result" where
  "fs_cappend_char N s ch = plus_fs_char N s ch"

definition fs_cpush_back :: "nat \<Rightarrow> 'c::zero fixed_string \<Rightarrow> 'c \<Rightarrow> 'c fixed_string result" where
  "fs_cpush_back N s ch = fs_cappend_char N s ch"

definition fs_cappend ::
  "nat \<Rightarrow> nat \<Rightarrow> 'c::zero fixed_string \<Rightarrow> 'c fixed_string \<Rightarrow> 'c fixed_string result" where
  "fs_cappend N M s that = plus_fs_fs N M s that"

subsection \<open>Replacing and erasing\<close>

definition fs_creplace_substring ::
  "nat \<Rightarrow> nat \<Rightarrow> 'c::zero fixed_string \<Rightarrow> nat \<Rightarrow> nat \<Rightarrow> 'c fixed_string \<Rightarrow> nat \<Rightarrow> nat \<Rightarrow>
   'c fixed_string result" where
  "fs_creplace_substring N M s this_pos this_count that that_pos that_count =
     andthen (checkOverflow this_pos (fs_size s)) (\<lambda>lp.
     andthen (checkOverflowOrNpos this_count (size_sub (fs_size s) this_pos)) (\<lambda>lc.
     andthen (checkOverflow that_pos (fs_size that)) (\<lambda>rp.
     andthen (checkOverflowOrNpos that_count (size_sub (fs_size that) that_pos)) (\<lambda>rc.
       ctor_replace (N + M) (fs_data s) (fs_size s) lp lc (fs_data that) rp rc))))"

definition fs_creplace ::
  "nat \<Rightarrow> nat \<Rightarrow> 'c::zero fixed_string \<Rightarrow> nat \<Rightarrow> nat \<Rightarrow> 'c fixed_string \<Rightarrow> nat \<Rightarrow>
   'c fixed_string result" where
  "fs_creplace N M s this_pos this_count that that_pos =
     andthen (checkOverflow that_pos (fs_size that)) (\<lambda>p.
       fs_creplace_substring N M s this_pos this_count that that_pos (fs_size that - p))"

definition fs_creplace_ptrs ::
  "nat \<Rightarrow> nat \<Rightarrow> 'c::zero fixed_string \<Rightarrow> nat \<Rightarrow> nat \<Rightarrow> 'c fixed_string \<Rightarrow> nat \<Rightarrow>
   'c fixed_string result" where
  "fs_creplace_ptrs N M s first lst that that_pos =
     andthen (checkOverflow that_pos (fs_size that)) (\<lambda>p.
       fs_creplace_substring N M s first (size_sub lst first) that that_pos (fs_size that - p))"

definition fs_creplace_ptrs_substring ::
  "nat \<Rightarrow> nat \<Rightarrow> 'c::zero fixed_string \<Rightarrow> nat \<Rightarrow> nat \<Rightarrow> 'c fixed_string \<Rightarrow> nat \<Rightarrow> nat \<Rightarrow>
   'c fixed_string result" where
  "fs_creplace_ptrs_substring N M s first lst that that_pos that_count =
     fs_creplace_substring N M s first (size_sub lst first) that that_pos that_count"

definition fs_creplace_array_substring ::
  "nat \<Rightarrow> 'c::zero fixed_string \<Rightarrow> nat \<Rightarrow> nat \<Rightarrow> 'c list \<Rightarrow> nat \<Rightarrow> nat \<Rightarrow>
   'c fixed_string result" where
  "fs_creplace_array_substring N s this_pos this_count that that_pos that_count =
     andthen (checkOverflow this_pos (fs_size s)) (\<lambda>lp.
     andthen (checkOverflowOrNpos this_count (size_sub (fs_size s) this_pos)) (\<lambda>lc.
     andthen (checkNullTerminated that) (\<lambda>a.
     andthen (checkOverflow that_pos (length that - 1)) (\<lambda>rp.
     andthen (checkOverflowOrNpos that_count (size_sub (length that - 1) that_pos)) (\<lambda>rc.
       ctor_replace (N + length that - 1) (fs_data s) (fs_size s) lp lc a rp rc)))))"

definition fs_creplace_array ::
  "nat \<Rightarrow> 'c::zero fixed_string \<Rightarrow> nat \<Rightarrow> nat \<Rightarrow> 'c list \<Rightarrow> 'c fixed_string result" where
  "fs_creplace_array N s this_pos this_count that =
     fs_creplace_array_substring N s this_pos this_count that 0 (length that - 1)"

definition fs_creplace_ptrs_array ::
  "nat \<Rightarrow> 'c::zero fixed_string \<Rightarrow> nat \<Rightarrow> nat \<Rightarrow> 'c list \<Rightarrow> 'c fixed_string result" where
  "fs_creplace_ptrs_array N s first lst that =
     fs_creplace_array_substring N s first (size_sub lst first) that 0 (length that - 1)"

definition fs_creplace_ptrs_array_substring ::
  "nat \<Rightarrow> 'c::zero fixed_string \<Rightarrow> nat \<Rightarrow> nat \<Rightarrow> 'c list \<Rightarrow> nat \<Rightarrow> nat \<Rightarrow>
   'c fixed_string result" where
  "fs_creplace_ptrs_array_substring N s first lst that that_pos that_count =
     fs_creplace_array_substring N s first (size_sub lst first) that that_pos that_count"

definition fs_cappend_substring ::
  "nat \<Rightarrow> nat \<Rightarrow> 'c::zero fixed_string \<Rightarrow> 'c fixed_string \<Rightarrow> nat \<Rightarrow> nat \<Rightarrow>
   'c fixed_string result" where
  "fs_cappend_substring N M s that pos count =
     fs_creplace_substring N M s (fs_size s) 0 that pos count"

definition fs_cappend_array :: "nat \<Rightarrow> 'c::zero fixed_string \<Rightarrow> 'c list \<Rightarrow> 'c fixed_string result" where
  "fs_cappend_array N s that = fs_creplace_array N s (fs_size s) 0 that"

definition fs_cappend_array_substring ::
  "nat \<Rightarrow> 'c::zero fixed_string \<Rightarrow> 'c list \<Rightarrow> nat \<Rightarrow> nat \<Rightarrow> 'c fixed_string result" where
  "fs_cappend_array_substring N s that pos count =
     fs_creplace_array_substring N s (fs_size s) 0 that pos count"

text \<open>The overload for a string assigns a string of capacity \<open>N + M\<close>, through the size-checking
  \<open>operator=\<close> unless \<open>M\<close> is 0; the overload for a pointer builds a string of the same capacity \<open>N\<close> and
  assigns it with the defaulted \<open>operator=\<close>, which copies both members as they are.\<close>

definition fs_replace_substring ::
  "nat \<Rightarrow> nat \<Rightarrow> 'c::zero fixed_string \<Rightarrow> nat \<Rightarrow> nat \<Rightarrow> 'c fixed_string \<Rightarrow> nat \<Rightarrow> nat \<Rightarrow>
   'c fixed_string result" where
  "fs_replace_substring N M s this_pos this_count that that_pos that_count =
     andthen (fs_creplace_substring N M s this_pos this_count that that_pos that_count) (\<lambda>r.
       fs_assign_any N (N + M) s r)"

definition fs_replace_ptrs ::
  "nat \<Rightarrow> nat \<Rightarrow> 'c::zero fixed_string \<Rightarrow> nat \<Rightarrow> nat \<Rightarrow> 'c fixed_string \<Rightarrow>
   'c fixed_string result" where
  "fs_replace_ptrs N M s first lst that =
     fs_replace_substring N M s first (size_sub lst first) that 0 (fs_size that)"

definition fs_replace ::
  "nat \<Rightarrow> nat \<Rightarrow> 'c::zero fixed_string \<Rightarrow> nat \<Rightarrow> nat \<Rightarrow> 'c fixed_string \<Rightarrow> nat \<Rightarrow>
   'c fixed_string result" where
  "fs_replace N M s this_pos this_count that that_pos =
     fs_replace_substring N M s this_pos this_count that that_pos
       (size_sub (fs_size that) that_pos)"

definition fs_replace_ptr ::
  "nat \<Rightarrow> 'c::zero fixed_string \<Rightarrow> nat \<Rightarrow> nat \<Rightarrow> 'c list \<Rightarrow> nat \<Rightarrow> 'c fixed_string result" where
  "fs_replace_ptr N s this_pos this_count that that_count =
     andthen (checkOverflow this_pos (fs_size s)) (\<lambda>lp.
     andthen (checkOverflowOrNpos this_count (size_sub (fs_size s) this_pos)) (\<lambda>lc.
       ctor_replace N (fs_data s) (fs_size s) lp lc that 0 that_count))"

definition fs_replace_cstr ::
  "nat \<Rightarrow> 'c::zero fixed_string \<Rightarrow> nat \<Rightarrow> nat \<Rightarrow> 'c list \<Rightarrow> 'c fixed_string result" where
  "fs_replace_cstr N s this_pos this_count that =
     andthen (constexpr_strlen that) (\<lambda>n. fs_replace_ptr N s this_pos this_count that n)"

definition fs_replace_ptrs_cstr ::
  "nat \<Rightarrow> 'c::zero fixed_string \<Rightarrow> nat \<Rightarrow> nat \<Rightarrow> 'c list \<Rightarrow> 'c fixed_string result" where
  "fs_replace_ptrs_cstr N s first lst that =
     andthen (constexpr_strlen that) (\<lambda>n.
       fs_replace_ptr N s first (size_sub lst first) that n)"

definition fs_replace_fill ::
  "nat \<Rightarrow> 'c::zero fixed_string \<Rightarrow> nat \<Rightarrow> nat \<Rightarrow> nat \<Rightarrow> 'c \<Rightarrow> 'c fixed_string result" where
  "fs_replace_fill N s this_pos this_count that_count ch =
     andthen (ctor_fill N that_count ch) (\<lambda>that.
       fs_replace N N s this_pos this_count that 0)"

definition fs_replace_ptrs_fill ::
  "nat \<Rightarrow> 'c::zero fixed_string \<Rightarrow> nat \<Rightarrow> nat \<Rightarrow> nat \<Rightarrow> 'c \<Rightarrow> 'c fixed_string result" where
  "fs_replace_ptrs_fill N s first lst that_count ch =
     andthen (ctor_fill N that_count ch) (\<lambda>that.
       fs_replace N N s first (size_sub lst first) that 0)"

definition fs_replace_ptrs_init_list ::
  "nat \<Rightarrow> 'c::zero fixed_string \<Rightarrow> nat \<Rightarrow> nat \<Rightarrow> 'c list \<Rightarrow> 'c fixed_string result" where
  "fs_replace_ptrs_init_list N s first lst il =
     fs_replace_ptr N s first (size_sub lst first) il (length il)"

definition fs_erase_all :: "'c::zero fixed_string \<Rightarrow> 'c fixed_string result" where
  "fs_erase_all s = fs_clear s"

definition fs_erase ::
  "nat \<Rightarrow> 'c::zero fixed_string \<Rightarrow> nat \<Rightarrow> nat \<Rightarrow> 'c fixed_string result" where
  "fs_erase N s pos count =
     andthen (checkOverflow pos (fs_size s)) (\<lambda>p.
     andthen (checkOverflowOrNpos count (fs_size s - p)) (\<lambda>c.
       fs_replace_ptr N s pos c [0] 0))"

definition fs_erase_at ::
  "nat \<Rightarrow> 'c::zero fixed_string \<Rightarrow> nat \<Rightarrow> ('c fixed_string \<times> nat) result" where
  "fs_erase_at N s first = andthen (fs_erase N s first 1) (\<lambda>s'. Inr (s', first))"

definition fs_erase_range ::
  "nat \<Rightarrow> 'c::zero fixed_string \<Rightarrow> nat \<Rightarrow> nat \<Rightarrow> ('c fixed_string \<times> nat) result" where
  "fs_erase_range N s first lst =
     andthen (fs_erase N s first (size_sub lst first)) (\<lambda>s'. Inr (s', first))"

definition fs_cerase_all :: "'c::zero fixed_string \<Rightarrow> 'c fixed_string" where
  "fs_cerase_all s = ctor_default 0"

definition fs_cerase :: "nat \<Rightarrow> 'c::zero fixed_string \<Rightarrow> nat \<Rightarrow> nat \<Rightarrow> 'c fixed_string result" where
  "fs_cerase N s pos count =
     andthen (checkOverflow pos (fs_size s)) (\<lambda>p.
     andthen (checkOverflowOrNpos count (fs_size s - p)) (\<lambda>c.
       fs_creplace_array N s pos c [0]))"

definition fs_substr :: "nat \<Rightarrow> 'c::zero fixed_string \<Rightarrow> nat \<Rightarrow> nat \<Rightarrow> 'c fixed_string result" where
  "fs_substr N s pos count = ctor_substring N N s pos count"

definition fs_resize :: "nat \<Rightarrow> 'c::zero fixed_string \<Rightarrow> nat \<Rightarrow> 'c \<Rightarrow> 'c fixed_string result" where
  "fs_resize N s count ch =
     andthen (checkOverflow count N) (\<lambda>_.
       if count = fs_size s then Inr s
       else if count < fs_size s then set_size (fs_data s) count
       else andthen (array_fill (fs_data s) (fs_size s) ch (count - fs_size s)) (\<lambda>d.
              set_size d count))"

definition fs_resize_zero :: "nat \<Rightarrow> 'c::zero fixed_string \<Rightarrow> nat \<Rightarrow> 'c fixed_string result" where
  "fs_resize_zero N s count = fs_resize N s count 0"

subsection \<open>Comparing\<close>

definition fs_compare_substring ::
  "'c::linorder fixed_string \<Rightarrow> nat \<Rightarrow> nat \<Rightarrow> 'c fixed_string \<Rightarrow> nat \<Rightarrow> nat \<Rightarrow> int result" where
  "fs_compare_substring s this_pos this_count that that_pos that_count =
     andthen (checkOverflow this_pos (fs_size s)) (\<lambda>lp.
     andthen (checkOverflow this_count (size_sub (fs_size s) this_pos)) (\<lambda>lc.
     andthen (checkOverflow that_pos (fs_size that)) (\<lambda>rp.
     andthen (checkOverflow that_count (size_sub (fs_size that) that_pos)) (\<lambda>rc.
     andthen (detail_compare (fs_data s) lp (lc + this_pos) (fs_data that) rp (rc + that_pos))
       (\<lambda>r. Inr (ordering_to_int r))))))"

definition fs_compare_ptr ::
  "'c::linorder fixed_string \<Rightarrow> nat \<Rightarrow> nat \<Rightarrow> 'c list \<Rightarrow> nat \<Rightarrow> int result" where
  "fs_compare_ptr s this_pos this_count that that_count =
     andthen (checkOverflow this_pos (fs_size s)) (\<lambda>lp.
     andthen (checkOverflowOrNpos this_count (size_sub (fs_size s) this_pos)) (\<lambda>lc.
     andthen (detail_compare (fs_data s) lp (lc + this_pos) that 0 that_count)
       (\<lambda>r. Inr (ordering_to_int r))))"

text \<open>The other overloads of \<open>compare\<close>, by the kind of their argument.\<close>

datatype 'c operand = Op_fs "'c fixed_string" | Op_cstr "'c list" | Op_range "'c list"

fun fs_compare_pos ::
  "'c::{zero,linorder} fixed_string \<Rightarrow> nat \<Rightarrow> nat \<Rightarrow> 'c operand \<Rightarrow> int result" where
  "fs_compare_pos s this_pos this_count (Op_fs that) =
     fs_compare_substring s this_pos this_count that 0 (fs_size that)"
| "fs_compare_pos s this_pos this_count (Op_cstr that) =
     andthen (constexpr_strlen that) (\<lambda>n. fs_compare_ptr s this_pos this_count that n)"
| "fs_compare_pos s this_pos this_count (Op_range that) =
     fs_compare_ptr s this_pos this_count that (length that)"

fun fs_compare :: "'c::{zero,linorder} fixed_string \<Rightarrow> 'c operand \<Rightarrow> int result" where
  "fs_compare s (Op_fs that) = fs_compare_substring s 0 (fs_size s) that 0 (fs_size that)"
| "fs_compare s (Op_cstr that) =
     andthen (constexpr_strlen that) (\<lambda>n. fs_compare_ptr s 0 (fs_size s) that n)"
| "fs_compare s (Op_range that) = fs_compare_ptr s 0 (fs_size s) that (length that)"

definition fs_compare_range_count ::
  "'c::linorder fixed_string \<Rightarrow> nat \<Rightarrow> nat \<Rightarrow> 'c list \<Rightarrow> nat \<Rightarrow> int result" where
  "fs_compare_range_count s this_pos this_count that that_count =
     andthen (checkOverflow that_count (length that)) (\<lambda>c.
       fs_compare_ptr s this_pos this_count that c)"

text \<open>The relational operators: at least one operand is a string, the other a string, a C string
  or a range. \<open>operand_view\<close> is the pair of pointer and size each overload passes on.\<close>

fun operand_view :: "'c::zero operand \<Rightarrow> ('c list \<times> nat) result" where
  "operand_view (Op_fs s) = Inr (fs_data s, fs_size s)"
| "operand_view (Op_cstr a) = andthen (constexpr_strlen a) (\<lambda>n. Inr (a, n))"
| "operand_view (Op_range a) = Inr (a, length a)"

definition op_eq :: "'c::{zero,linorder} operand \<Rightarrow> 'c operand \<Rightarrow> bool result" where
  "op_eq a b =
     andthen (operand_view a) (\<lambda>(l, ls). andthen (operand_view b) (\<lambda>(r, rs).
       detail_equal l ls r rs))"

definition op_ne :: "'c::{zero,linorder} operand \<Rightarrow> 'c operand \<Rightarrow> bool result" where
  "op_ne a b = andthen (op_eq a b) (\<lambda>e. Inr (\<not> e))"

definition op_lt :: "'c::{zero,linorder} operand \<Rightarrow> 'c operand \<Rightarrow> bool result" where
  "op_lt a b =
     andthen (operand_view a) (\<lambda>(l, ls). andthen (operand_view b) (\<lambda>(r, rs).
     andthen (detail_compare l 0 ls r 0 rs) (\<lambda>x. Inr (x = ord_lt))))"

definition op_gt :: "'c::{zero,linorder} operand \<Rightarrow> 'c operand \<Rightarrow> bool result" where
  "op_gt a b = op_lt b a"

definition op_le :: "'c::{zero,linorder} operand \<Rightarrow> 'c operand \<Rightarrow> bool result" where
  "op_le a b = andthen (op_lt b a) (\<lambda>x. Inr (\<not> x))"

definition op_ge :: "'c::{zero,linorder} operand \<Rightarrow> 'c operand \<Rightarrow> bool result" where
  "op_ge a b = andthen (op_lt a b) (\<lambda>x. Inr (\<not> x))"

subsection \<open>Searching\<close>

text \<open>What is searched for: a string, the first \<open>count\<close> characters at a pointer, a C string, a
  character.\<close>

datatype 'c needle =
  Needle_fs "'c fixed_string" | Needle_ptr "'c list" nat | Needle_cstr "'c list" | Needle_char 'c

fun fs_find :: "'c::zero fixed_string \<Rightarrow> 'c needle \<Rightarrow> nat \<Rightarrow> nat result" where
  "fs_find s (Needle_fs that) pos =
     andthen (checkOverflow pos (fs_size s)) (\<lambda>p.
       if fs_size that \<le> fs_size s - p
       then detail_find (fs_data s) (fs_size s) (fs_data that) pos (fs_size that)
       else Inr npos)"
| "fs_find s (Needle_ptr that count) pos =
     andthen (checkOverflow pos (fs_size s)) (\<lambda>p.
       if count \<le> fs_size s - p
       then detail_find (fs_data s) (fs_size s) that pos count
       else Inr npos)"
| "fs_find s (Needle_cstr that) pos =
     andthen (constexpr_strlen that) (\<lambda>count.
     andthen (checkOverflow pos (fs_size s)) (\<lambda>p.
       if count \<le> fs_size s - p
       then detail_find (fs_data s) (fs_size s) that pos count
       else Inr npos))"
| "fs_find s (Needle_char ch) pos =
     andthen (checkOverflow pos (fs_size s)) (\<lambda>p.
       if 0 = fs_size s - p then Inr npos
       else detail_find (fs_data s) (fs_size s) [ch] pos 1)"

definition fs_find0 :: "'c::zero fixed_string \<Rightarrow> 'c needle \<Rightarrow> nat result" where
  "fs_find0 s n = fs_find s n 0"

fun fs_rfind :: "'c::zero fixed_string \<Rightarrow> 'c needle \<Rightarrow> nat \<Rightarrow> nat result" where
  "fs_rfind s (Needle_fs that) pos =
     (if fs_size that \<le> fs_size s
      then andthen (checkOverflow pos (fs_size s)) (\<lambda>p.
        detail_rfind (fs_data s) (fs_data that) (min p (fs_size s - fs_size that)) (fs_size that))
      else Inr npos)"
| "fs_rfind s (Needle_ptr that count) pos =
     (if count \<le> fs_size s
      then andthen (checkOverflow pos (fs_size s)) (\<lambda>p.
        detail_rfind (fs_data s) that (min p (fs_size s - count)) count)
      else Inr npos)"
| "fs_rfind s (Needle_cstr that) pos =
     andthen (constexpr_strlen that) (\<lambda>count.
      if count \<le> fs_size s
      then andthen (checkOverflow pos (fs_size s)) (\<lambda>p.
        detail_rfind (fs_data s) that (min p (fs_size s - count)) count)
      else Inr npos)"
| "fs_rfind s (Needle_char ch) pos =
     (if 0 = fs_size s then Inr npos
      else andthen (checkOverflow pos (fs_size s)) (\<lambda>p.
        detail_rfind (fs_data s) [ch] (min p (fs_size s - 1)) 1))"

definition fs_rfind_end :: "'c::zero fixed_string \<Rightarrow> 'c needle \<Rightarrow> nat result" where
  "fs_rfind_end s n = fs_rfind s n (fs_size s)"

text \<open>The four character-set searches. \<open>needle_view\<close> is the pair of pointer and count the
  overloads pass on; the single-character overload passes an array of one character.\<close>

fun needle_view :: "'c::zero needle \<Rightarrow> ('c list \<times> nat) result" where
  "needle_view (Needle_fs that) = Inr (fs_data that, fs_size that)"
| "needle_view (Needle_ptr that count) = Inr (that, count)"
| "needle_view (Needle_cstr that) = andthen (constexpr_strlen that) (\<lambda>n. Inr (that, n))"
| "needle_view (Needle_char ch) = Inr ([ch], 1)"

definition fs_find_first_of :: "'c::zero fixed_string \<Rightarrow> 'c needle \<Rightarrow> nat \<Rightarrow> nat result" where
  "fs_find_first_of s n pos =
     andthen (needle_view n) (\<lambda>(that, count).
     andthen (checkOverflow pos (fs_size s)) (\<lambda>p.
       if fs_size s = p then Inr npos
       else detail_find_first_of (fs_data s) (fs_size s) that pos count))"

definition fs_find_first_not_of :: "'c::zero fixed_string \<Rightarrow> 'c needle \<Rightarrow> nat \<Rightarrow> nat result" where
  "fs_find_first_not_of s n pos =
     andthen (needle_view n) (\<lambda>(that, count).
     andthen (checkOverflow pos (fs_size s)) (\<lambda>p.
       if fs_size s = p then Inr npos
       else detail_find_first_not_of (fs_data s) (fs_size s) that pos count))"

definition fs_find_last_of :: "'c::zero fixed_string \<Rightarrow> 'c needle \<Rightarrow> nat \<Rightarrow> nat result" where
  "fs_find_last_of s n pos =
     andthen (needle_view n) (\<lambda>(that, count).
       if 0 = fs_size s then Inr npos
       else andthen (checkOverflow pos (fs_size s)) (\<lambda>p.
         detail_find_last_of (fs_data s) that (min p (fs_size s - 1)) count))"

definition fs_find_last_not_of :: "'c::zero fixed_string \<Rightarrow> 'c needle \<Rightarrow> nat \<Rightarrow> nat result" where
  "fs_find_last_not_of s n pos =
     andthen (needle_view n) (\<lambda>(that, count).
       if 0 = fs_size s then Inr npos
       else andthen (checkOverflow pos (fs_size s)) (\<lambda>p.
         detail_find_last_not_of (fs_data s) that (min p (fs_size s - 1)) count))"

definition fs_find_first_of0 :: "'c::zero fixed_string \<Rightarrow> 'c needle \<Rightarrow> nat result" where
  "fs_find_first_of0 s n = fs_find_first_of s n 0"

definition fs_find_first_not_of0 :: "'c::zero fixed_string \<Rightarrow> 'c needle \<Rightarrow> nat result" where
  "fs_find_first_not_of0 s n = fs_find_first_not_of s n 0"

definition fs_find_last_of_end :: "'c::zero fixed_string \<Rightarrow> 'c needle \<Rightarrow> nat result" where
  "fs_find_last_of_end s n = fs_find_last_of s n (fs_size s)"

definition fs_find_last_not_of_end :: "'c::zero fixed_string \<Rightarrow> 'c needle \<Rightarrow> nat result" where
  "fs_find_last_not_of_end s n = fs_find_last_not_of s n (fs_size s)"

end
