(* ===== verification/Folly_FixedString_Correct.thy ===== *)
theory Folly_FixedString_Correct
  imports Folly_FixedString
begin

text \<open>
  Correctness of \<open>BasicFixedString\<close>.

  The abstraction of a string is \<open>toStdString\<close>, the list of its characters. \<open>fs_inv N s\<close> is
  the class invariant: an array of \<open>N + 1\<close> characters, a size of at most \<open>N\<close> and a
  terminator at the size. \<open>fs_refines N r spec\<close> says that the result \<open>r\<close> of an operation
  implements a specification on lists: the same exception, or a string that satisfies the
  invariant and has the specified characters; in both cases without an access out of bounds.
\<close>

section \<open>Invariant, abstraction, specification\<close>

definition fs_inv :: "nat \<Rightarrow> 'c::zero fixed_string \<Rightarrow> bool" where
  "fs_inv N s \<longleftrightarrow>
     N < npos \<and> length (fs_data s) = Suc N \<and> fs_size s \<le> N \<and> fs_data s ! fs_size s = 0"

definition fs_ok :: "nat \<Rightarrow> 'c::zero fixed_string result \<Rightarrow> 'c list \<Rightarrow> bool" where
  "fs_ok N r xs \<longleftrightarrow> (\<exists>s. r = Inr s \<and> fs_inv N s \<and> toStdString s = xs)"

definition fs_refines :: "nat \<Rightarrow> 'c::zero fixed_string result \<Rightarrow> 'c list result \<Rightarrow> bool" where
  "fs_refines N r spec = (case spec of Inl e \<Rightarrow> r = Inl e | Inr xs \<Rightarrow> fs_ok N r xs)"

definition bounded :: "nat \<Rightarrow> 'c list \<Rightarrow> 'c list result" where
  "bounded N xs = (if length xs \<le> N then Inr xs else Inl Out_Of_Range)"

definition substr_spec :: "'c list \<Rightarrow> nat \<Rightarrow> nat \<Rightarrow> 'c list result" where
  "substr_spec xs pos count =
     (if pos \<le> length xs then
        if count = npos then Inr (drop pos xs)
        else if count \<le> length xs - pos then Inr (take count (drop pos xs))
        else Inl Out_Of_Range
      else Inl Out_Of_Range)"

definition replace_spec :: "'c list \<Rightarrow> nat \<Rightarrow> nat \<Rightarrow> 'c list \<Rightarrow> 'c list result" where
  "replace_spec xs pos count ys =
     andthen (substr_spec xs pos count) (\<lambda>old.
       Inr (take pos xs @ ys @ drop (pos + length old) xs))"

lemma fs_refines_Inr [simp]: "fs_refines N r (Inr xs) = fs_ok N r xs"
  by (simp add: fs_refines_def)

lemma fs_refines_Inl [simp]: "fs_refines N r (Inl e) \<longleftrightarrow> r = Inl e"
  by (simp add: fs_refines_def)

lemma npos_bound: "n < npos \<Longrightarrow> n < 2 ^ 64"
  by (simp add: npos_def)

lemma size_sub_eq [simp]: "b \<le> a \<Longrightarrow> a < npos \<Longrightarrow> size_sub a b = a - b"
proof -
  assume "b \<le> a" "a < npos"
  moreover from this have "a + 2 ^ 64 - b = (a - b) + 2 ^ 64" by simp
  moreover have "a - b < 2 ^ 64" using \<open>a < npos\<close> npos_bound [of a] by simp
  ultimately show ?thesis unfolding size_sub_def by (metis mod_add_self2 mod_less)
qed

lemma fs_invD:
  assumes "fs_inv N s"
  shows "N < npos" "length (fs_data s) = Suc N" "fs_size s \<le> N" "fs_size s < npos"
    "length (toStdString s) = fs_size s" "fs_data s ! fs_size s = 0"
  using assms by (auto simp: fs_inv_def toStdString_def)

lemma fs_okI:
  assumes "N < npos" "length d = Suc N" "length xs \<le> N"
    "\<And>i. i < length xs \<Longrightarrow> d ! i = xs ! i" "d ! length xs = 0"
  shows "fs_ok N (Inr \<lparr>fs_data = d, fs_size = length xs\<rparr>) xs"
  unfolding fs_ok_def
  by (rule exI, intro conjI, rule refl)
     (use assms in \<open>auto simp: fs_inv_def toStdString_def intro: nth_equalityI\<close>)

lemma checkOverflow_Inr [simp]: "i \<le> m \<Longrightarrow> checkOverflow i m = Inr i"
  by (simp add: checkOverflow_def)

lemma checkOverflow_Inl [simp]: "m < i \<Longrightarrow> checkOverflow i m = Inl Out_Of_Range"
  by (simp add: checkOverflow_def)

lemma checkOverflowOrNpos_Inr [simp]:
  "i \<le> m \<Longrightarrow> m < npos \<Longrightarrow> checkOverflowOrNpos i m = Inr i"
  by (simp add: checkOverflowOrNpos_def)

lemma checkOverflowOrNpos_npos [simp]: "checkOverflowOrNpos npos m = Inr m"
  by (simp add: checkOverflowOrNpos_def)

lemma checkNullTerminated_snoc [simp]: "checkNullTerminated (xs @ [0]) = Inr (xs @ [0])"
  by (simp add: checkNullTerminated_def)

section \<open>Loops and private constructors\<close>

lemma array_copy_spec:
  "dp + n \<le> length dst \<Longrightarrow> sp + n \<le> length src \<Longrightarrow>
   array_copy dst dp src sp n = Inr (take dp dst @ take n (drop sp src) @ drop (dp + n) dst)"
proof (induction n arbitrary: dst dp sp)
  case (Suc n)
  let ?dst = "dst[dp := src ! sp]"
  have "array_copy ?dst (Suc dp) src (Suc sp) n =
      Inr (take (Suc dp) ?dst @ take n (drop (Suc sp) src) @ drop (Suc dp + n) ?dst)"
    using Suc by simp
  moreover have "take (Suc dp) ?dst = take dp dst @ [src ! sp]"
    using Suc.prems by (simp add: take_Suc_conv_app_nth)
  moreover have "take (Suc n) (drop sp src) = src ! sp # take n (drop (Suc sp) src)"
    using Suc.prems Cons_nth_drop_Suc [of sp src] by (metis Suc_leD add_Suc_right le_imp_less_Suc
        less_le_trans le_add1 take_Suc_Cons)
  ultimately show ?case using Suc.prems by simp
qed simp

lemma array_fill_spec:
  "dp + n \<le> length dst \<Longrightarrow>
   array_fill dst dp ch n = Inr (take dp dst @ replicate n ch @ drop (dp + n) dst)"
proof (induction n arbitrary: dst dp)
  case (Suc n)
  have "take (Suc dp) (dst[dp := ch]) = take dp dst @ [ch]"
    using Suc.prems by (simp add: take_Suc_conv_app_nth)
  with Suc show ?case by simp
qed simp

lemma set_size_ok:
  "N < npos \<Longrightarrow> length d = Suc N \<Longrightarrow> n \<le> N \<Longrightarrow> fs_ok N (set_size d n) (take n d)"
  by (auto simp: fs_ok_def set_size_def fs_inv_def toStdString_def)

lemma set_size_prefix:
  assumes "N < npos" "length (xs @ ys) = Suc N" "n = length xs" "n \<le> N"
  shows "fs_ok N (set_size (xs @ ys) n) xs"
  using set_size_ok [of N "xs @ ys" n] assms by simp

lemma nth_map_snoc: "i \<le> N \<Longrightarrow> (map f [0..<N] @ [z]) ! i = (if i < N then f i else z)"
  by (auto simp: nth_append)

lemma ctor_range_ok:
  assumes "N < npos" "pos \<le> sz" "sz \<le> length that" "sz < npos"
    "min (sz - pos) count \<le> K" "K \<le> N"
  shows "fs_ok N (ctor_range N that sz K pos count) (take count (subrange pos sz that))"
proof -
  let ?n = "min (sz - pos) count" and ?xs = "take count (subrange pos sz that)"
  let ?f = "\<lambda>i. if i < sz - pos \<and> i < count then that ! (i + pos) else 0"
  have "traverse (\<lambda>i. if i < size_sub sz pos \<and> i < count then rd that (i + pos) else Inr 0) [0..<K] =
      Inr (map ?f [0..<K])"
    using assms by (intro traverse_Inr) auto
  moreover have len: "length ?xs = ?n"
    using assms by (simp add: subrange_def min.commute)
  moreover have "fs_ok N (Inr \<lparr>fs_data = map ?f [0..<K] @ replicate (Suc N - K) 0,
      fs_size = length ?xs\<rparr>) ?xs"
  proof (rule fs_okI)
    fix i assume "i < length ?xs"
    with len assms show "(map ?f [0..<K] @ replicate (Suc N - K) 0) ! i = ?xs ! i"
      by (auto simp: nth_append subrange_def add.commute)
  next
    show "(map ?f [0..<K] @ replicate (Suc N - K) 0) ! length ?xs = 0"
      unfolding len using assms by (auto simp: nth_append)
  qed (use assms len in auto)
  ultimately show ?thesis using assms by (simp add: ctor_range_def)
qed

lemma ctor_concat_ok:
  assumes "N < npos" "left_size \<le> length left" "right_size \<le> length right"
    "left_size + right_size \<le> N"
  shows "fs_ok N (ctor_concat N left left_size right right_size)
    (take left_size left @ take right_size right)"
proof -
  let ?f = "\<lambda>i. if i < left_size then left ! i
    else if i < left_size + right_size then right ! (i - left_size) else 0"
  let ?xs = "take left_size left @ take right_size right"
  have "traverse (char_at_concat left left_size right right_size) [0..<N] = Inr (map ?f [0..<N])"
    using assms by (intro traverse_Inr) (auto simp: char_at_concat_def)
  moreover have "fs_ok N (Inr \<lparr>fs_data = map ?f [0..<N] @ [0], fs_size = length ?xs\<rparr>) ?xs"
    by (rule fs_okI) (use assms in \<open>auto simp: nth_map_snoc nth_append\<close>)
  moreover have "length ?xs = left_size + right_size" using assms by simp
  ultimately show ?thesis by (simp add: ctor_concat_def)
qed

text \<open>The replacing constructor returns a string whatever the capacity; the invariant needs the
  new length to fit.\<close>

lemma ctor_replace_Inr:
  assumes "left_pos + left_count \<le> left_size" "left_size \<le> length left"
    "right_pos + right_count \<le> length right"
  shows "ctor_replace N left left_size left_pos left_count right right_pos right_count =
    Inr \<lparr>fs_data = map (\<lambda>i. if i < left_pos then left ! i
           else if i < right_count + left_pos then right ! (i - left_pos + right_pos)
           else if i < left_size - left_count + right_count
                then left ! (i - right_count + left_count)
           else 0) [0..<N] @ [0],
         fs_size = left_size - left_count + right_count\<rparr>"
proof -
  have "traverse (char_at_replace left left_size left_pos left_count right right_pos right_count)
      [0..<N] = Inr (map (\<lambda>i. if i < left_pos then left ! i
           else if i < right_count + left_pos then right ! (i - left_pos + right_pos)
           else if i < left_size - left_count + right_count
                then left ! (i - right_count + left_count)
           else 0) [0..<N])"
    using assms by (intro traverse_Inr) (auto simp: char_at_replace_def)
  then show ?thesis by (simp add: ctor_replace_def)
qed

lemma ctor_replace_ok:
  assumes "N < npos" "left_pos + left_count \<le> left_size" "left_size \<le> length left"
    "right_pos + right_count \<le> length right" "left_size - left_count + right_count \<le> N"
  shows "fs_ok N (ctor_replace N left left_size left_pos left_count right right_pos right_count)
    (take left_pos left @ take right_count (drop right_pos right) @
     subrange (left_pos + left_count) left_size left)"
    (is "fs_ok N ?r ?xs")
proof -
  let ?f = "\<lambda>i. if i < left_pos then left ! i
           else if i < right_count + left_pos then right ! (i - left_pos + right_pos)
           else if i < left_size - left_count + right_count
                then left ! (i - right_count + left_count)
           else 0"
  have len: "length ?xs = left_size - left_count + right_count"
    using assms by (simp add: subrange_def)
  have "fs_ok N (Inr \<lparr>fs_data = map ?f [0..<N] @ [0], fs_size = length ?xs\<rparr>) ?xs"
  proof (rule fs_okI)
    fix i assume i: "i < length ?xs"
    then have iN: "i < N" "i < left_size - left_count + right_count"
      using assms unfolding len by simp_all
    have lens: "length (take left_pos left) = left_pos"
        "length (take right_count (drop right_pos right)) = right_count"
      using assms by simp_all
    have "?xs ! i = ?f i"
    proof (cases "i < left_pos + right_count")
      case True
      have "drop right_pos right ! (i - left_pos) = right ! (i - left_pos + right_pos)"
        using assms by (simp add: add.commute)
      with True iN show ?thesis unfolding nth_append lens by auto
    next
      case False
      then have "left_pos + left_count + (i - left_pos - right_count) = i - right_count + left_count"
        by simp
      moreover have "i - left_pos - right_count < left_size - (left_pos + left_count)"
        using iN False assms by simp
      moreover have "\<not> i - left_pos < right_count" "\<not> i < left_pos" "\<not> i < right_count + left_pos"
        using False by simp_all
      ultimately show ?thesis using iN(2) assms(3)
        unfolding nth_append lens subrange_def by simp
    qed
    then show "(map ?f [0..<N] @ [0]) ! i = ?xs ! i"
      using iN by (simp add: nth_map_snoc)
  next
    show "(map ?f [0..<N] @ [0]) ! length ?xs = 0"
      unfolding len using assms by (auto simp: nth_map_snoc)
  qed (use assms len in auto)
  then show ?thesis unfolding ctor_replace_Inr [OF assms(2-4)] len .
qed

section \<open>Building blocks of the members\<close>

lemma drop_toStdString: "drop pos (toStdString s) = subrange pos (fs_size s) (fs_data s)"
  by (simp add: toStdString_def subrange_def drop_take)

lemma take_toStdString: "n \<le> fs_size s \<Longrightarrow> take n (toStdString s) = take n (fs_data s)"
  by (simp add: toStdString_def min_absorb1)

lemma append_tail_ok:
  assumes "fs_inv N s" "fs_size s + n \<le> N" "length ys = n"
  shows "fs_ok N (set_size (take (fs_size s) (fs_data s) @ ys @ drop (fs_size s + n) (fs_data s))
     (fs_size s + n)) (toStdString s @ ys)"
  using set_size_prefix [of N "take (fs_size s) (fs_data s) @ ys"
      "drop (fs_size s + n) (fs_data s)" "fs_size s + n"] assms
  by (simp add: toStdString_def fs_inv_def)

lemma assign_all_ok:
  assumes "fs_inv N s" "n \<le> N" "length ys = n"
  shows "fs_ok N (set_size (ys @ drop n (fs_data s)) n) ys"
  using set_size_prefix [of N ys "drop n (fs_data s)" n, OF _ _ assms(3) [symmetric] assms(2)]
    assms by (simp add: fs_inv_def)

lemma fs_copy_loop_spec:
  assumes "fs_size s \<le> length (fs_data s)" "n = min count (fs_size s - pos)" "n \<le> length dest"
    "i \<le> n" "pos \<le> fs_size s"
  shows "fs_copy_loop s dest count pos i =
    Inr (take i dest @ subrange (i + pos) (n + pos) (fs_data s) @ drop n dest,
         if fs_size s - pos < count then fs_size s else count)"
  using assms
proof (induction "n - i" arbitrary: i dest)
  case 0
  from \<open>0 = n - i\<close> \<open>i \<le> n\<close> have i: "i = n" by linarith
  show ?case
  proof (cases "fs_size s - pos < count")
    case True
    with 0 i have "i < count" "i + pos = fs_size s" by auto
    with True i show ?thesis by (subst fs_copy_loop.simps) simp
  next
    case False
    with 0 i have "i = count" by auto
    with False i show ?thesis by (subst fs_copy_loop.simps) simp
  qed
next
  case (Suc k)
  then have i: "i < count" "i + pos < fs_size s" "i < n" "i < length dest" by auto
  let ?dest = "dest[i := fs_data s ! (i + pos)]"
  have "fs_copy_loop s dest count pos i = fs_copy_loop s ?dest count pos (i + 1)"
    using i Suc.prems(1) by (subst fs_copy_loop.simps) simp
  also have "\<dots> = Inr (take (i + 1) ?dest @ subrange (i + 1 + pos) (n + pos) (fs_data s) @
      drop n ?dest, if fs_size s - pos < count then fs_size s else count)"
  proof (rule Suc.hyps(1))
    show "k = n - (i + 1)" using Suc.hyps(2) by linarith
  qed (use Suc.prems i in simp_all)
  finally have "fs_copy_loop s dest count pos i = Inr (take (i + 1) ?dest @
      subrange (i + 1 + pos) (n + pos) (fs_data s) @ drop n ?dest,
      if fs_size s - pos < count then fs_size s else count)" .
  moreover have "take (i + 1) ?dest = take i dest @ [fs_data s ! (i + pos)]"
    using i(4) by (simp add: take_Suc_conv_app_nth)
  moreover have "fs_data s ! (i + pos) # subrange (i + 1 + pos) (n + pos) (fs_data s) =
      subrange (i + pos) (n + pos) (fs_data s)"
    using subrange_Cons [of "i + pos" "n + pos" "fs_data s"] i Suc.prems(1,2) by simp
  ultimately show ?case using i by simp
qed

lemma substr_spec_cases:
  obtains (ok) n where "pos \<le> length xs" "n \<le> length xs - pos"
      "substr_spec xs pos count = Inr (take n (drop pos xs))"
      "length xs < npos \<Longrightarrow> checkOverflowOrNpos count (length xs - pos) = Inr n"
  | (count) "pos \<le> length xs" "count \<noteq> npos" "length xs - pos < count"
      "substr_spec xs pos count = Inl Out_Of_Range"
      "checkOverflowOrNpos count (length xs - pos) = Inl Out_Of_Range"
  | (pos) "length xs < pos" "substr_spec xs pos count = Inl Out_Of_Range"
proof -
  consider "length xs < pos" | "pos \<le> length xs" "count = npos"
    | "pos \<le> length xs" "count \<noteq> npos" "count \<le> length xs - pos"
    | "pos \<le> length xs" "count \<noteq> npos" "length xs - pos < count" by linarith
  then show ?thesis
  proof cases
    case 2
    then show ?thesis using ok [of "length xs - pos"] by (simp add: substr_spec_def)
  next
    case 3
    then show ?thesis using ok [of count]
      by (simp add: substr_spec_def checkOverflowOrNpos_def)
  qed (use pos count in \<open>auto simp: substr_spec_def checkOverflowOrNpos_def\<close>)
qed

lemma fs_refines_cong: "spec = spec' \<Longrightarrow> fs_refines N r spec' \<Longrightarrow> fs_refines N r spec"
  by simp

lemma bounded_Inr [simp]: "length xs \<le> N \<Longrightarrow> bounded N xs = Inr xs"
  by (simp add: bounded_def)

lemma bounded_Inl [simp]: "N < length xs \<Longrightarrow> bounded N xs = Inl Out_Of_Range"
  by (simp add: bounded_def)

section \<open>Constructors\<close>

lemma ctor_substring_refines:
  assumes "fs_inv M that" "N < npos"
  shows "fs_refines N (ctor_substring N M that pos count)
     (andthen (substr_spec (toStdString that) pos count) (bounded N))"
proof -
  note inv = fs_invD [OF assms(1)]
  show ?thesis
  proof (cases rule: substr_spec_cases [of pos "toStdString that" count])
    case (ok n)
    show ?thesis
    proof (cases "n \<le> N")
      case True
      have "fs_ok N (ctor_range N (fs_data that) (fs_size that) (if M < N then M else N) pos n)
          (take n (subrange pos (fs_size that) (fs_data that)))"
        using True ok inv assms(2) by (intro ctor_range_ok) auto
      then show ?thesis using ok True inv assms(2)
        by (simp add: ctor_substring_def drop_toStdString subrange_def)
    next
      case False
      then show ?thesis using ok inv by (simp add: ctor_substring_def)
    qed
  qed (use inv in \<open>simp_all add: ctor_substring_def\<close>)
qed

lemma ctor_ptr_refines:
  assumes "N < npos" "count \<le> length that"
  shows "fs_refines N (ctor_ptr N that count) (bounded N (take count that))"
proof (cases "count \<le> N")
  case True
  then have "fs_ok N (ctor_range N that count N 0 npos) (take npos (subrange 0 count that))"
    using assms by (intro ctor_range_ok) auto
  with True assms show ?thesis by (simp add: ctor_ptr_def subrange_0)
qed (use assms in \<open>simp add: ctor_ptr_def\<close>)

lemma ctor_fill_refines:
  assumes "N < npos"
  shows "fs_refines N (ctor_fill N count ch) (bounded N (replicate count ch))"
proof (cases "count \<le> N")
  case True
  have "fs_ok N (Inr \<lparr>fs_data = map (\<lambda>i. if i < count then ch else 0) [0..<N] @ [0],
      fs_size = length (replicate count ch)\<rparr>) (replicate count ch)"
    by (rule fs_okI) (use True assms in \<open>auto simp: nth_map_snoc\<close>)
  with True show ?thesis by (simp add: ctor_fill_def ctor_fill_impl_def)
qed (simp add: ctor_fill_def)

lemma ctor_array_refines:
  assumes "length xs \<le> N" "N < npos"
  shows "fs_ok N (ctor_array N (xs @ [0])) xs"
proof -
  have "fs_ok N (ctor_range N (xs @ [0]) (length xs) (length xs) 0 npos)
      (take npos (subrange 0 (length xs) (xs @ [0])))"
    using assms by (intro ctor_range_ok) auto
  with assms show ?thesis by (simp add: ctor_array_def subrange_0)
qed

lemma ctor_default_ok: "N < npos \<Longrightarrow> fs_ok N (Inr (ctor_default N)) []"
  by (simp add: fs_ok_def ctor_default_def fs_inv_def toStdString_def)

section \<open>Assignment, appending, resizing\<close>

lemma fs_assign_op_refines:
  assumes "fs_inv N s" "fs_inv M that"
  shows "fs_refines N (fs_assign_op N s that) (bounded N (toStdString that))"
proof (cases "fs_size that \<le> N")
  case True
  have "fs_copy that (fs_data s) (fs_size that) =
      Inr (toStdString that @ drop (fs_size that) (fs_data s), fs_size that)"
    using True assms fs_copy_loop_spec [of that "fs_size that" "fs_size that" 0 "fs_data s" 0]
    by (simp add: fs_copy_def fs_copy_pos_def fs_inv_def subrange_0 toStdString_def)
  then show ?thesis
    using True assms(1) fs_invD(5) [OF assms(2)]
      assign_all_ok [of N s "fs_size that" "toStdString that"]
    by (simp add: fs_assign_op_def)
qed (use fs_invD(5) [OF assms(2)] in \<open>simp add: fs_assign_op_def\<close>)

lemma fs_assign_any_refines:
  assumes "fs_inv N s" "fs_inv M that"
  shows "fs_refines N (fs_assign_any N M s that) (bounded N (toStdString that))"
proof (cases "M = N")
  case True
  then have "bounded N (toStdString that) = Inr (toStdString that)"
    using fs_invD [OF assms(2)] by simp
  then show ?thesis using True assms(2) by (simp add: fs_assign_any_def fs_ok_def)
qed (use fs_assign_op_refines [OF assms] in \<open>simp add: fs_assign_any_def\<close>)

lemma fs_assign_ptr_refines:
  assumes "fs_inv N s" "count \<le> length that"
  shows "fs_refines N (fs_assign_ptr N s that count) (bounded N (take count that))"
  using assms assign_all_ok [of N s count "take count that"] fs_invD [OF assms(1)]
  by (cases "count \<le> N") (simp_all add: fs_assign_ptr_def array_copy_spec)

lemma fs_assign_fill_refines:
  assumes "fs_inv N s"
  shows "fs_refines N (fs_assign_fill N s count ch) (bounded N (replicate count ch))"
  using assms assign_all_ok [of N s count "replicate count ch"] fs_invD [OF assms(1)]
  by (cases "count \<le> N") (simp_all add: fs_assign_fill_def array_fill_spec)

lemma fs_assign_substring_refines:
  assumes "fs_inv N s" "fs_inv M that"
  shows "fs_refines N (fs_assign_substring N s that pos count)
     (andthen (substr_spec (toStdString that) pos count) (bounded N))"
proof (cases rule: substr_spec_cases [of pos "toStdString that" count])
  case (ok n)
  have "take n (drop pos (fs_data that)) = take n (drop pos (toStdString that))"
    using ok fs_invD [OF assms(2)] by (simp add: drop_toStdString subrange_def)
  then show ?thesis
    using fs_assign_ptr_refines [OF assms(1), of n "drop pos (fs_data that)"] ok
      fs_invD [OF assms(2)]
    by (simp add: fs_assign_substring_def)
qed (use fs_invD [OF assms(2)] in \<open>simp_all add: fs_assign_substring_def\<close>)

lemma fs_append_ptr_refines:
  assumes "fs_inv N s" "count \<le> length that"
  shows "fs_refines N (fs_append_ptr N s that count) (bounded N (toStdString s @ take count that))"
  using assms append_tail_ok [of N s count "take count that"] fs_invD [OF assms(1)]
  by (cases "fs_size s + count \<le> N") (simp_all add: fs_append_ptr_def array_copy_spec)

lemma fs_append_fill_refines:
  assumes "fs_inv N s"
  shows "fs_refines N (fs_append_fill N s count ch) (bounded N (toStdString s @ replicate count ch))"
  using append_tail_ok [of N s count "replicate count ch"] assms fs_invD [OF assms(1)]
  by (cases "fs_size s + count \<le> N") (simp_all add: fs_append_fill_def array_fill_spec)

lemma fs_append_substring_refines:
  assumes "fs_inv N s" "fs_inv M that"
  shows "fs_refines N (fs_append_substring N s that pos count)
     (andthen (substr_spec (toStdString that) pos count) (\<lambda>ys. bounded N (toStdString s @ ys)))"
proof (cases rule: substr_spec_cases [of pos "toStdString that" count])
  case (ok n)
  note inv = fs_invD [OF assms(1)] fs_invD [OF assms(2)]
  have "take n (drop pos (fs_data that)) = take n (drop pos (toStdString that))"
    using ok inv by (simp add: drop_toStdString subrange_def)
  then show ?thesis
    using append_tail_ok [OF assms(1), of n "take n (drop pos (toStdString that))"] ok inv
    by (cases "fs_size s + n \<le> N") (simp_all add: fs_append_substring_def array_copy_spec)
qed (use fs_invD [OF assms(2)] in \<open>simp_all add: fs_append_substring_def\<close>)

lemma fs_push_back_refines:
  assumes "fs_inv N s"
  shows "fs_refines N (fs_push_back N s ch) (bounded N (toStdString s @ [ch]))"
proof (cases "fs_size s < N")
  case True
  have "(fs_data s)[fs_size s := ch] =
      take (fs_size s) (fs_data s) @ [ch] @ drop (fs_size s + 1) (fs_data s)"
    using fs_invD [OF assms] True by (simp add: upd_conv_take_nth_drop)
  with True show ?thesis
    using append_tail_ok [OF assms, of 1 "[ch]"] fs_invD [OF assms]
    by (simp add: fs_push_back_def)
qed (use fs_invD [OF assms] in \<open>simp add: fs_push_back_def\<close>)

definition pop_spec :: "'c list \<Rightarrow> 'c list result" where
  "pop_spec xs = (if xs = [] then Inl Out_Of_Range else Inr (butlast xs))"

lemma fs_pop_back_refines:
  assumes "fs_inv N s"
  shows "fs_refines N (fs_pop_back s) (pop_spec (toStdString s))"
proof (cases "fs_size s = 0")
  case False
  then have "butlast (toStdString s) = take (fs_size s - 1) (fs_data s)" "toStdString s \<noteq> []"
    using fs_invD [OF assms] by (auto simp: toStdString_def butlast_take)
  with False show ?thesis
    using set_size_ok [of N "fs_data s" "fs_size s - 1"] fs_invD [OF assms]
    by (simp add: fs_pop_back_def pop_spec_def)
qed (simp add: fs_pop_back_def pop_spec_def toStdString_def)

definition resize_spec :: "nat \<Rightarrow> 'c list \<Rightarrow> nat \<Rightarrow> 'c \<Rightarrow> 'c list result" where
  "resize_spec N xs count ch = bounded N (take count xs @ replicate (count - length xs) ch)"

lemma fs_resize_refines:
  assumes "fs_inv N s"
  shows "fs_refines N (fs_resize N s count ch) (resize_spec N (toStdString s) count ch)"
proof -
  note inv = fs_invD [OF assms]
  consider "N < count" | "count \<le> N" "count = fs_size s" | "count < fs_size s"
    | "count \<le> N" "fs_size s < count" by linarith
  then show ?thesis
  proof cases
    case 1
    then show ?thesis using inv by (simp add: fs_resize_def resize_spec_def)
  next
    case 2
    then show ?thesis using inv assms by (simp add: fs_resize_def resize_spec_def fs_ok_def)
  next
    case 3
    then show ?thesis using inv set_size_ok [of N "fs_data s" count]
      by (simp add: fs_resize_def resize_spec_def take_toStdString)
  next
    case 4
    then show ?thesis
      using append_tail_ok [OF assms, of "count - fs_size s" "replicate (count - fs_size s) ch"] inv
      by (simp add: fs_resize_def resize_spec_def array_fill_spec)
  qed
qed

lemma fs_clear_refines: "fs_inv N s \<Longrightarrow> fs_ok N (fs_clear s) []"
  using set_size_ok [of N "fs_data s" 0] fs_invD [of N s] by (simp add: fs_clear_def)

section \<open>Concatenation, replacing, erasing\<close>

lemma plus_fs_fs_refines:
  assumes "fs_inv N a" "fs_inv M b" "N + M < npos"
  shows "fs_ok (N + M) (plus_fs_fs N M a b) (toStdString a @ toStdString b)"
  unfolding plus_fs_fs_def toStdString_def
  using fs_invD [OF assms(1)] fs_invD [OF assms(2)] assms(3) by (intro ctor_concat_ok) auto

lemma plus_array_fs_refines:
  assumes "fs_inv N b" "N + length xs < npos"
  shows "fs_ok (N + length xs) (plus_array_fs N (xs @ [0]) b) (xs @ toStdString b)"
  using ctor_concat_ok [of "N + length xs" "length xs" "xs @ [0]" "fs_size b" "fs_data b"]
    fs_invD [OF assms(1)] assms(2)
  by (simp add: plus_array_fs_def toStdString_def add.commute)

lemma plus_fs_array_refines:
  assumes "fs_inv N a" "N + length xs < npos"
  shows "fs_ok (N + length xs) (plus_fs_array N a (xs @ [0])) (toStdString a @ xs)"
  using ctor_concat_ok [of "N + length xs" "fs_size a" "fs_data a" "length xs" "xs @ [0]"]
    fs_invD [OF assms(1)] assms(2)
  by (simp add: plus_fs_array_def toStdString_def)

lemma plus_char_fs_refines:
  assumes "fs_inv N b" "N + 1 < npos"
  shows "fs_ok (N + 1) (plus_char_fs N a b) (a # toStdString b)"
  using ctor_concat_ok [of "N + 1" 1 "[a, 0]" "fs_size b" "fs_data b"] fs_invD [OF assms(1)] assms(2)
  by (simp add: plus_char_fs_def toStdString_def)

lemma plus_fs_char_refines:
  assumes "fs_inv N a" "N + 1 < npos"
  shows "fs_ok (N + 1) (plus_fs_char N a b) (toStdString a @ [b])"
  using ctor_concat_ok [of "N + 1" "fs_size a" "fs_data a" 1 "[b, 0]"] fs_invD [OF assms(1)] assms(2)
  by (simp add: plus_fs_char_def toStdString_def)

text \<open>The replaced string as a list, for checked position and count.\<close>

lemma ctor_replace_list:
  assumes "fs_inv N s" "P < npos" "pos \<le> fs_size s" "n \<le> fs_size s - pos"
    "right_pos + right_count \<le> length right" "fs_size s - n + right_count \<le> P"
  shows "fs_ok P (ctor_replace P (fs_data s) (fs_size s) pos n right right_pos right_count)
    (take pos (toStdString s) @ take right_count (drop right_pos right) @
     drop (pos + n) (toStdString s))"
  unfolding drop_toStdString take_toStdString [OF assms(3)]
  using assms fs_invD [OF assms(1)] by (intro ctor_replace_ok) auto

lemma replace_spec_ok:
  "pos \<le> length xs \<Longrightarrow> n \<le> length xs - pos \<Longrightarrow>
   substr_spec xs pos count = Inr (take n (drop pos xs)) \<Longrightarrow>
   replace_spec xs pos count ys = Inr (take pos xs @ ys @ drop (pos + n) xs)"
  by (simp add: replace_spec_def)

lemma replace_spec_Inl:
  "substr_spec xs pos count = Inl e \<Longrightarrow> replace_spec xs pos count ys = Inl e"
  by (simp add: replace_spec_def)

lemma substr_spec_length:
  "substr_spec xs pos count = Inr ys \<Longrightarrow> length ys \<le> length xs"
  by (auto simp: substr_spec_def split: if_splits)

lemma fs_creplace_substring_refines:
  assumes "fs_inv N s" "fs_inv M that" "N + M < npos"
  shows "fs_refines (N + M) (fs_creplace_substring N M s pos count that that_pos that_count)
     (andthen (substr_spec (toStdString that) that_pos that_count)
       (replace_spec (toStdString s) pos count))"
proof -
  note inv = fs_invD [OF assms(1)] and inv' = fs_invD [OF assms(2)]
  show ?thesis
  proof (cases rule: substr_spec_cases [of pos "toStdString s" count])
    case (ok n)
    note ok1 = ok
    show ?thesis
    proof (cases rule: substr_spec_cases [of that_pos "toStdString that" that_count])
      case (ok k)
      have "fs_ok (N + M) (ctor_replace (N + M) (fs_data s) (fs_size s) pos n (fs_data that) that_pos k)
        (take pos (toStdString s) @ take k (drop that_pos (fs_data that)) @
         drop (pos + n) (toStdString s))"
        using ok1 ok inv inv' assms(3) by (intro ctor_replace_list [OF assms(1)]) auto
      moreover have "take k (drop that_pos (fs_data that)) =
          take k (drop that_pos (toStdString that))"
        using ok inv' by (simp add: drop_toStdString subrange_def)
      ultimately show ?thesis using ok1 ok inv inv'
        by (simp add: fs_creplace_substring_def replace_spec_ok [OF ok1(1-3)])
    qed (use ok1 inv inv' in \<open>simp_all add: fs_creplace_substring_def\<close>)
  next
    case count
    then show ?thesis using inv inv'
      by (cases rule: substr_spec_cases [of that_pos "toStdString that" that_count])
         (simp_all add: fs_creplace_substring_def replace_spec_Inl)
  next
    case pos
    then show ?thesis using inv inv'
      by (cases rule: substr_spec_cases [of that_pos "toStdString that" that_count])
         (simp_all add: fs_creplace_substring_def replace_spec_Inl)
  qed
qed

lemma fs_replace_substring_refines:
  assumes "fs_inv N s" "fs_inv M that" "N + M < npos"
  shows "fs_refines N (fs_replace_substring N M s pos count that that_pos that_count)
     (andthen (andthen (substr_spec (toStdString that) that_pos that_count)
       (replace_spec (toStdString s) pos count)) (bounded N))"
    (is "fs_refines N _ (andthen ?spec _)")
proof (cases ?spec)
  case (Inl e)
  then show ?thesis using fs_creplace_substring_refines [OF assms, of pos count that_pos that_count]
    by (simp add: fs_replace_substring_def)
next
  case (Inr ys)
  then obtain r where r: "fs_creplace_substring N M s pos count that that_pos that_count = Inr r"
    "fs_inv (N + M) r" "toStdString r = ys"
    using fs_creplace_substring_refines [OF assms, of pos count that_pos that_count]
    by (auto simp: fs_ok_def)
  then show ?thesis using Inr fs_assign_any_refines [OF assms(1) r(2)]
    by (simp add: fs_replace_substring_def)
qed

text \<open>\<open>replace(pos, count, const Char*, that_count)\<close> has no capacity check of its own.\<close>

lemma fs_replace_ptr_result:
  assumes "fs_inv N s" "that_count \<le> length that"
  shows "fs_replace_ptr N s pos count that that_count = Inl Out_Of_Range \<and>
      replace_spec (toStdString s) pos count (take that_count that) = Inl Out_Of_Range \<or>
    (\<exists>r ys. fs_replace_ptr N s pos count that that_count = Inr r \<and> fs_size r = length ys \<and>
      replace_spec (toStdString s) pos count (take that_count that) = Inr ys \<and>
      (length ys \<le> N \<longrightarrow> fs_ok N (Inr r) ys))"
proof -
  note inv = fs_invD [OF assms(1)]
  show ?thesis
  proof (cases rule: substr_spec_cases [of pos "toStdString s" count])
    case (ok n)
    let ?ys = "take pos (toStdString s) @ take that_count that @ drop (pos + n) (toStdString s)"
    let ?c = "ctor_replace N (fs_data s) (fs_size s) pos n that 0 that_count"
    have "\<exists>r. ?c = Inr r \<and> fs_size r = fs_size s - n + that_count"
      using ok inv assms(2) by (subst ctor_replace_Inr) auto
    moreover have "length ?ys = fs_size s - n + that_count" using ok inv assms(2) by simp
    moreover have "fs_size s - n + that_count \<le> N \<Longrightarrow> fs_ok N ?c ?ys"
      using ctor_replace_list [OF assms(1), of N pos n 0 that_count that] ok inv assms(2) by simp
    moreover have "fs_replace_ptr N s pos count that that_count = ?c"
      using ok inv by (simp add: fs_replace_ptr_def)
    ultimately show ?thesis by (auto simp: replace_spec_ok [OF ok(1-3)])
  qed (use inv in \<open>simp_all add: fs_replace_ptr_def replace_spec_Inl\<close>)
qed

lemma fs_erase_refines:
  assumes "fs_inv N s"
  shows "fs_refines N (fs_erase N s pos count) (replace_spec (toStdString s) pos count [])"
proof -
  note inv = fs_invD [OF assms]
  show ?thesis
  proof (cases rule: substr_spec_cases [of pos "toStdString s" count])
    case (ok n)
    have "fs_ok N (ctor_replace N (fs_data s) (fs_size s) pos n [0] 0 0)
      (take pos (toStdString s) @ take 0 (drop 0 [0]) @ drop (pos + n) (toStdString s))"
      using ok inv by (intro ctor_replace_list [OF assms]) auto
    then show ?thesis using ok inv
      by (simp add: fs_erase_def fs_replace_ptr_def replace_spec_ok [OF ok(1-3)])
  qed (use inv in \<open>simp_all add: fs_erase_def replace_spec_Inl\<close>)
qed

section \<open>Swapping and copying out\<close>

lemma fs_swap_loop_spec:
  assumes "bound < length a" "bound < length b" "i \<le> Suc bound"
  shows "fs_swap_loop a b i bound =
    Inr (take i a @ subrange i (Suc bound) b @ drop (Suc bound) a,
         take i b @ subrange i (Suc bound) a @ drop (Suc bound) b)"
  using assms
proof (induction "Suc bound - i" arbitrary: i a b)
  case 0
  then have "i = Suc bound" by simp
  then show ?case by (subst fs_swap_loop.simps) simp
next
  case (Suc k)
  then have i: "i \<le> bound" "i < length a" "i < length b" by auto
  let ?a = "a[i := b ! i]" and ?b = "b[i := a ! i]"
  have "fs_swap_loop a b i bound = fs_swap_loop ?a ?b (Suc i) bound"
    using i by (subst fs_swap_loop.simps) simp
  moreover have "fs_swap_loop ?a ?b (Suc i) bound =
    Inr (take (Suc i) ?a @ subrange (Suc i) (Suc bound) ?b @ drop (Suc bound) ?a,
         take (Suc i) ?b @ subrange (Suc i) (Suc bound) ?a @ drop (Suc bound) ?b)"
  proof (rule Suc.hyps(1))
    show "k = Suc bound - Suc i" using Suc.hyps(2) by linarith
  qed (use Suc.prems i in simp_all)
  moreover have "take (Suc i) ?a = take i a @ [b ! i]" "take (Suc i) ?b = take i b @ [a ! i]"
    using i by (simp_all add: take_Suc_conv_app_nth)
  moreover have "subrange (Suc i) (Suc bound) ?a = subrange (Suc i) (Suc bound) a"
    "subrange (Suc i) (Suc bound) ?b = subrange (Suc i) (Suc bound) b"
    by (simp_all add: subrange_def)
  ultimately show ?case
    using i Suc.prems subrange_Cons [of i "Suc bound" a] subrange_Cons [of i "Suc bound" b] by simp
qed

lemma fs_swap_result:
  assumes "fs_inv N s" "fs_inv N that"
  obtains s' that' where "fs_swap s that = Inr (s', that')" "fs_inv N s'" "fs_inv N that'"
    "toStdString s' = toStdString that" "toStdString that' = toStdString s"
proof -
  let ?m = "max (fs_size s) (fs_size that)"
  note inv = fs_invD [OF assms(1)] and inv' = fs_invD [OF assms(2)]
  let ?a = "take (Suc ?m) (fs_data that) @ drop (Suc ?m) (fs_data s)"
  let ?b = "take (Suc ?m) (fs_data s) @ drop (Suc ?m) (fs_data that)"
  have swap: "fs_swap s that = Inr (\<lparr>fs_data = ?a, fs_size = fs_size that\<rparr>,
      \<lparr>fs_data = ?b, fs_size = fs_size s\<rparr>)"
    using fs_swap_loop_spec [of ?m "fs_data s" "fs_data that" 0] inv inv'
    by (simp add: fs_swap_def subrange_0)
  have "fs_inv N \<lparr>fs_data = ?a, fs_size = fs_size that\<rparr>"
    "fs_inv N \<lparr>fs_data = ?b, fs_size = fs_size s\<rparr>"
    using inv inv' by (simp_all add: fs_inv_def nth_append less_Suc_eq_le)
  then show ?thesis by (rule that [OF swap]) (use inv inv' in \<open>simp_all add: toStdString_def\<close>)
qed

section \<open>Comparing\<close>

text \<open>The characters an operand or a needle denotes, and when it is readable: a string within its
  array, a C string with a terminator, a count within its array.\<close>

fun operand_ok :: "'c::zero operand \<Rightarrow> bool" where
  "operand_ok (Op_fs s) \<longleftrightarrow> fs_size s \<le> length (fs_data s)"
| "operand_ok (Op_cstr a) \<longleftrightarrow> 0 \<in> set a"
| "operand_ok (Op_range a) \<longleftrightarrow> True"

fun operand_chars :: "'c::zero operand \<Rightarrow> 'c list" where
  "operand_chars (Op_fs s) = toStdString s"
| "operand_chars (Op_cstr a) = c_string a"
| "operand_chars (Op_range a) = a"

lemma operand_view_spec:
  assumes "operand_ok x"
  obtains a n where "operand_view x = Inr (a, n)" "n \<le> length a" "take n a = operand_chars x"
proof (cases x)
  case (Op_cstr a)
  with assms show ?thesis using length_c_string [of a]
    by (intro that [of a "length (c_string a)"]) (simp_all add: constexpr_strlen_spec take_c_string)
qed (use that assms in \<open>auto simp: toStdString_def\<close>)

lemma op_eq_spec:
  assumes "operand_ok x" "operand_ok y"
  shows "op_eq x y = Inr (operand_chars x = operand_chars y)"
proof -
  obtain a n where a: "operand_view x = Inr (a, n)" "n \<le> length a" "take n a = operand_chars x"
    using operand_view_spec [OF assms(1)] .
  obtain b m where b: "operand_view y = Inr (b, m)" "m \<le> length b" "take m b = operand_chars y"
    using operand_view_spec [OF assms(2)] .
  show ?thesis using a b by (simp add: op_eq_def detail_equal_spec)
qed

lemma op_lt_spec:
  assumes "operand_ok x" "operand_ok y"
  shows "op_lt x y = Inr ((operand_chars x, operand_chars y) \<in> lexord {(a, b). a < b})"
proof -
  obtain a n where a: "operand_view x = Inr (a, n)" "n \<le> length a" "take n a = operand_chars x"
    using operand_view_spec [OF assms(1)] .
  obtain b m where b: "operand_view y = Inr (b, m)" "m \<le> length b" "take m b = operand_chars y"
    using operand_view_spec [OF assms(2)] .
  show ?thesis using a b
    by (simp add: op_lt_def detail_compare_spec subrange_0 list_compare_lt_iff)
qed

lemma fs_compare_spec:
  assumes "fs_inv N s" "operand_ok x" "\<And>t. x = Op_fs t \<Longrightarrow> fs_size t < npos"
  shows "fs_compare s x = Inr (ordering_to_int (list_compare (toStdString s) (operand_chars x)))"
proof (cases x)
  case (Op_cstr a)
  then show ?thesis
    using assms(2) length_c_string [of a] fs_invD [OF assms(1)]
    by (simp add: fs_compare_ptr_def constexpr_strlen_spec detail_compare_spec subrange_0
        take_c_string toStdString_def)
qed (use assms fs_invD [OF assms(1)] in \<open>auto simp: fs_compare_ptr_def fs_compare_substring_def
      detail_compare_spec subrange_0 toStdString_def\<close>)

section \<open>Searching\<close>

fun needle_ok :: "'c::zero needle \<Rightarrow> bool" where
  "needle_ok (Needle_fs s) \<longleftrightarrow> fs_size s \<le> length (fs_data s)"
| "needle_ok (Needle_ptr a count) \<longleftrightarrow> count \<le> length a"
| "needle_ok (Needle_cstr a) \<longleftrightarrow> 0 \<in> set a"
| "needle_ok (Needle_char c) \<longleftrightarrow> True"

fun needle_chars :: "'c::zero needle \<Rightarrow> 'c list" where
  "needle_chars (Needle_fs s) = toStdString s"
| "needle_chars (Needle_ptr a count) = take count a"
| "needle_chars (Needle_cstr a) = c_string a"
| "needle_chars (Needle_char c) = [c]"

lemma needle_view_spec:
  assumes "needle_ok x"
  obtains a n where "needle_view x = Inr (a, n)" "n \<le> length a" "take n a = needle_chars x"
    "length (needle_chars x) = n"
proof (cases x)
  case (Needle_cstr a)
  with assms show ?thesis using length_c_string [of a]
    by (intro that [of a "length (c_string a)"]) (simp_all add: constexpr_strlen_spec take_c_string)
next
  case (Needle_char c)
  then show ?thesis using that [of "[c]" 1] by simp
qed (use that assms in \<open>auto simp: toStdString_def min_absorb2\<close>)

text \<open>The four equations of \<open>find\<close>, and those of \<open>rfind\<close>, are one computation on the view
  of the needle.\<close>

lemma fs_find_view:
  "fs_find s x pos = andthen (needle_view x) (\<lambda>(a, n).
     andthen (checkOverflow pos (fs_size s)) (\<lambda>p.
       if n \<le> fs_size s - p then detail_find (fs_data s) (fs_size s) a pos n else Inr npos))"
  by (cases x) (auto simp: andthen_assoc checkOverflow_def)

lemma fs_rfind_view:
  "fs_rfind s x pos = andthen (needle_view x) (\<lambda>(a, n).
     if n \<le> fs_size s
     then andthen (checkOverflow pos (fs_size s)) (\<lambda>p.
       detail_rfind (fs_data s) a (min p (fs_size s - n)) n)
     else Inr npos)"
  by (cases x) (auto simp: andthen_assoc checkOverflow_def)

definition occurs_at :: "'c list \<Rightarrow> 'c list \<Rightarrow> nat \<Rightarrow> bool" where
  "occurs_at xs ys p \<longleftrightarrow> take (length ys) (drop p xs) = ys"

lemma first_index_cong:
  "(\<And>q. lo \<le> q \<Longrightarrow> q < hi \<Longrightarrow> P q = Q q) \<Longrightarrow> first_index P lo hi = first_index Q lo hi"
  unfolding first_index_def by (subst filter_cong [of _ "[lo..<hi]" P Q]) auto

lemma last_index_cong: "(\<And>q. q < n \<Longrightarrow> P q = Q q) \<Longrightarrow> last_index P n = last_index Q n"
  by (induction n) auto

lemma match_at_occurs:
  assumes "fs_inv N s" "p + n \<le> fs_size s" "take n a = ys" "length ys = n"
  shows "match_at (fs_data s) a n p = occurs_at (toStdString s) ys p"
  using assms fs_invD [OF assms(1)]
  by (simp add: match_at_def occurs_at_def drop_toStdString subrange_def min_absorb1)

lemma fs_find_spec:
  assumes "fs_inv N s" "needle_ok x"
  shows "fs_find s x pos =
    (if pos \<le> fs_size s
     then Inr (first_index (occurs_at (toStdString s) (needle_chars x)) pos
                 (Suc (fs_size s) - length (needle_chars x)))
     else Inl Out_Of_Range)"
proof -
  note inv = fs_invD [OF assms(1)]
  obtain a n where x: "needle_view x = Inr (a, n)" "n \<le> length a" "take n a = needle_chars x"
    "length (needle_chars x) = n" using needle_view_spec [OF assms(2)] .
  have "first_index (match_at (fs_data s) a n) pos (Suc (fs_size s) - n) =
      first_index (occurs_at (toStdString s) (needle_chars x)) pos (Suc (fs_size s) - n)"
    by (rule first_index_cong, rule match_at_occurs [OF assms(1)]) (use x in auto)
  with x inv show ?thesis by (auto simp: fs_find_view detail_find_spec)
qed

lemma fs_rfind_spec:
  assumes "fs_inv N s" "needle_ok x"
  shows "fs_rfind s x pos =
    (if fs_size s < length (needle_chars x) then Inr npos
     else if pos \<le> fs_size s
     then Inr (last_index (occurs_at (toStdString s) (needle_chars x))
                 (Suc (min pos (fs_size s - length (needle_chars x)))))
     else Inl Out_Of_Range)"
proof -
  note inv = fs_invD [OF assms(1)]
  obtain a n where x: "needle_view x = Inr (a, n)" "n \<le> length a" "take n a = needle_chars x"
    "length (needle_chars x) = n" using needle_view_spec [OF assms(2)] .
  have "last_index (match_at (fs_data s) a n) (Suc (min pos (fs_size s - n))) =
      last_index (occurs_at (toStdString s) (needle_chars x)) (Suc (min pos (fs_size s - n)))"
    if "n \<le> fs_size s"
    by (rule last_index_cong, rule match_at_occurs [OF assms(1)]) (use x that in auto)
  with x inv show ?thesis
    by (cases "n \<le> fs_size s"; cases "pos \<le> fs_size s")
       (simp_all add: fs_rfind_view detail_rfind_spec del: last_index.simps)
qed

lemma nth_toStdString: "p < fs_size s \<Longrightarrow> toStdString s ! p = fs_data s ! p"
  by (simp add: toStdString_def)

lemma fs_find_first_spec:
  assumes "fs_inv N s" "needle_ok x"
  shows "fs_find_first_of s x pos =
      (if pos \<le> fs_size s
       then Inr (first_index (\<lambda>p. toStdString s ! p \<in> set (needle_chars x)) pos (fs_size s))
       else Inl Out_Of_Range)"
    and "fs_find_first_not_of s x pos =
      (if pos \<le> fs_size s
       then Inr (first_index (\<lambda>p. toStdString s ! p \<notin> set (needle_chars x)) pos (fs_size s))
       else Inl Out_Of_Range)"
proof -
  note inv = fs_invD [OF assms(1)]
  obtain a n where x: "needle_view x = Inr (a, n)" "n \<le> length a" "take n a = needle_chars x"
    using needle_view_spec [OF assms(2)] .
  have cong: "first_index (\<lambda>p. Q (fs_data s ! p)) pos (fs_size s) =
      first_index (\<lambda>p. Q (toStdString s ! p)) pos (fs_size s)" for Q
    by (rule first_index_cong) (simp add: nth_toStdString)
  show "fs_find_first_of s x pos =
      (if pos \<le> fs_size s
       then Inr (first_index (\<lambda>p. toStdString s ! p \<in> set (needle_chars x)) pos (fs_size s))
       else Inl Out_Of_Range)"
    using x inv cong [of "\<lambda>c. c \<in> set (needle_chars x)"]
    by (auto simp: fs_find_first_of_def detail_find_first_of_spec)
  show "fs_find_first_not_of s x pos =
      (if pos \<le> fs_size s
       then Inr (first_index (\<lambda>p. toStdString s ! p \<notin> set (needle_chars x)) pos (fs_size s))
       else Inl Out_Of_Range)"
    using x inv cong [of "\<lambda>c. c \<notin> set (needle_chars x)"]
    by (auto simp: fs_find_first_not_of_def detail_find_first_not_of_spec)
qed

lemma fs_find_last_spec:
  assumes "fs_inv N s" "needle_ok x"
  shows "fs_find_last_of s x pos =
      (if fs_size s = 0 then Inr npos
       else if pos \<le> fs_size s
       then Inr (last_index (\<lambda>p. toStdString s ! p \<in> set (needle_chars x))
              (Suc (min pos (fs_size s - 1))))
       else Inl Out_Of_Range)"
    and "fs_find_last_not_of s x pos =
      (if fs_size s = 0 then Inr npos
       else if pos \<le> fs_size s
       then Inr (last_index (\<lambda>p. toStdString s ! p \<notin> set (needle_chars x))
              (Suc (min pos (fs_size s - 1))))
       else Inl Out_Of_Range)"
proof -
  note inv = fs_invD [OF assms(1)]
  let ?k = "min pos (fs_size s - 1)"
  obtain a n where x: "needle_view x = Inr (a, n)" "n \<le> length a" "take n a = needle_chars x"
    using needle_view_spec [OF assms(2)] .
  have cong: "last_index (\<lambda>p. Q (fs_data s ! p)) (Suc ?k) =
      last_index (\<lambda>p. Q (toStdString s ! p)) (Suc ?k)" if "fs_size s \<noteq> 0" for Q
    by (rule last_index_cong) (use that in \<open>simp add: nth_toStdString\<close>)
  have k: "fs_size s \<noteq> 0 \<Longrightarrow> ?k < length (fs_data s)" using inv by simp
  show "fs_find_last_of s x pos =
      (if fs_size s = 0 then Inr npos
       else if pos \<le> fs_size s
       then Inr (last_index (\<lambda>p. toStdString s ! p \<in> set (needle_chars x)) (Suc ?k))
       else Inl Out_Of_Range)"
    using x k cong [of "\<lambda>c. c \<in> set (needle_chars x)"]
    by (simp add: fs_find_last_of_def detail_find_last_of_spec checkOverflow_def del: last_index.simps)
  show "fs_find_last_not_of s x pos =
      (if fs_size s = 0 then Inr npos
       else if pos \<le> fs_size s
       then Inr (last_index (\<lambda>p. toStdString s ! p \<notin> set (needle_chars x)) (Suc ?k))
       else Inl Out_Of_Range)"
    using x k cong [of "\<lambda>c. c \<notin> set (needle_chars x)"]
    by (simp add: fs_find_last_not_of_def detail_find_last_not_of_spec checkOverflow_def
        del: last_index.simps)
qed

end
