(* ===== verification/Folly_FixedString_Props.thy ===== *)
theory Folly_FixedString_Props
  imports Folly_FixedString_Correct
begin

text \<open>
  The properties of \<open>BasicFixedString\<close>.

  \<open>fs_op\<close> lists the mutating members, but for \<open>replace\<close> by a pointer and a count and the overloads
  that call it, which do not check the capacity; \<open>fs_step\<close> runs one on a string, \<open>list_step\<close> is its
  specification on lists of characters. The locale \<open>data_refinement\<close> is interpreted on them,
  which gives the theorem for every sequence of calls. The other properties are about
  construction, concatenation, copying, comparing and searching, and about the overload of
  \<open>replace\<close> that does not check the capacity.
\<close>

section \<open>The mutating members as operations\<close>

datatype 'c fs_op =
    Do_push_back 'c
  | Do_pop_back
  | Do_clear
  | Do_resize nat 'c
  | Do_append_fill nat 'c
  | Do_append_ptr "'c list" nat
  | Do_append_substring nat "'c fixed_string" nat nat
  | Do_assign nat "'c fixed_string"
  | Do_assign_fill nat 'c
  | Do_assign_ptr "'c list" nat
  | Do_assign_substring nat "'c fixed_string" nat nat
  | Do_erase nat nat
  | Do_replace_substring nat nat nat "'c fixed_string" nat nat
  | Do_assign_array "'c list"
  | Do_assign_op_array "'c list"
  | Do_assign_op_init_list "'c list"
  | Do_swap "'c fixed_string"
  | Do_append nat "'c fixed_string"
  | Do_append_cstr "'c list"
  | Do_plus_assign nat "'c addend"
  | Do_erase_all
  | Do_erase_at nat
  | Do_erase_range nat nat
  | Do_resize_zero nat
  | Do_replace nat nat nat "'c fixed_string" nat
  | Do_replace_ptrs nat nat nat "'c fixed_string"
  | Do_replace_fill nat nat nat 'c
  | Do_replace_ptrs_fill nat nat nat 'c

fun fs_step :: "nat \<Rightarrow> 'c::zero fs_op \<Rightarrow> 'c fixed_string \<Rightarrow> 'c fixed_string result" where
  "fs_step N (Do_push_back c) s = fs_push_back N s c"
| "fs_step N Do_pop_back s = fs_pop_back s"
| "fs_step N Do_clear s = fs_clear s"
| "fs_step N (Do_resize n c) s = fs_resize N s n c"
| "fs_step N (Do_append_fill n c) s = fs_append_fill N s n c"
| "fs_step N (Do_append_ptr a n) s = fs_append_ptr N s a n"
| "fs_step N (Do_append_substring M t pos n) s = fs_append_substring N s t pos n"
| "fs_step N (Do_assign M t) s = fs_assign N M s t"
| "fs_step N (Do_assign_fill n c) s = fs_assign_fill N s n c"
| "fs_step N (Do_assign_ptr a n) s = fs_assign_ptr N s a n"
| "fs_step N (Do_assign_substring M t pos n) s = fs_assign_substring N s t pos n"
| "fs_step N (Do_erase pos n) s = fs_erase N s pos n"
| "fs_step N (Do_replace_substring M pos n t tpos tn) s =
     fs_replace_substring N M s pos n t tpos tn"
| "fs_step N (Do_assign_array a) s = fs_assign_array N s a"
| "fs_step N (Do_assign_op_array a) s = fs_assign_op_array N s a"
| "fs_step N (Do_assign_op_init_list a) s = fs_assign_op_init_list N s a"
| "fs_step N (Do_swap t) s = andthen (fs_swap s t) (\<lambda>(s, t). Inr s)"
| "fs_step N (Do_append M t) s = fs_append N s t"
| "fs_step N (Do_append_cstr a) s = fs_append_cstr N s a"
| "fs_step N (Do_plus_assign M x) s = fs_plus_assign N s x"
| "fs_step N Do_erase_all s = fs_erase_all s"
| "fs_step N (Do_erase_at i) s = andthen (fs_erase_at N s i) (\<lambda>(s, i). Inr s)"
| "fs_step N (Do_erase_range i j) s = andthen (fs_erase_range N s i j) (\<lambda>(s, i). Inr s)"
| "fs_step N (Do_resize_zero n) s = fs_resize_zero N s n"
| "fs_step N (Do_replace M pos n t tpos) s = fs_replace N M s pos n t tpos"
| "fs_step N (Do_replace_ptrs M i j t) s = fs_replace_ptrs N M s i j t"
| "fs_step N (Do_replace_fill pos n tn c) s = fs_replace_fill N s pos n tn c"
| "fs_step N (Do_replace_ptrs_fill i j tn c) s = fs_replace_ptrs_fill N s i j tn c"

fun addend_chars :: "'c::zero addend \<Rightarrow> 'c list" where
  "addend_chars (Add_cstr a) = c_string a"
| "addend_chars (Add_fs t) = toStdString t"
| "addend_chars (Add_char c) = [c]"
| "addend_chars (Add_list a) = a"

fun addend_ok :: "nat \<Rightarrow> 'c::zero addend \<Rightarrow> bool" where
  "addend_ok M (Add_cstr a) \<longleftrightarrow> 0 \<in> set a"
| "addend_ok M (Add_fs t) \<longleftrightarrow> fs_inv M t"
| "addend_ok M _ \<longleftrightarrow> True"

text \<open>The array overloads terminate the program if the array does not end in a null character.\<close>

definition array_spec :: "'c::zero list \<Rightarrow> 'c list result" where
  "array_spec a = (if last a = 0 then Inr (butlast a) else Inl Terminate)"

fun list_step :: "nat \<Rightarrow> 'c::zero fs_op \<Rightarrow> 'c list \<Rightarrow> 'c list result" where
  "list_step N (Do_push_back c) xs = bounded N (xs @ [c])"
| "list_step N Do_pop_back xs = pop_spec xs"
| "list_step N Do_clear xs = Inr []"
| "list_step N (Do_resize n c) xs = resize_spec N xs n c"
| "list_step N (Do_append_fill n c) xs = bounded N (xs @ replicate n c)"
| "list_step N (Do_append_ptr a n) xs = bounded N (xs @ take n a)"
| "list_step N (Do_append_substring M t pos n) xs =
     andthen (substr_spec (toStdString t) pos n) (\<lambda>ys. bounded N (xs @ ys))"
| "list_step N (Do_assign M t) xs = bounded N (toStdString t)"
| "list_step N (Do_assign_fill n c) xs = bounded N (replicate n c)"
| "list_step N (Do_assign_ptr a n) xs = bounded N (take n a)"
| "list_step N (Do_assign_substring M t pos n) xs =
     andthen (substr_spec (toStdString t) pos n) (bounded N)"
| "list_step N (Do_erase pos n) xs = replace_spec xs pos n []"
| "list_step N (Do_replace_substring M pos n t tpos tn) xs =
     andthen (andthen (substr_spec (toStdString t) tpos tn) (replace_spec xs pos n)) (bounded N)"
| "list_step N (Do_assign_array a) xs = array_spec a"
| "list_step N (Do_assign_op_array a) xs = array_spec a"
| "list_step N (Do_assign_op_init_list a) xs = bounded N a"
| "list_step N (Do_swap t) xs = Inr (toStdString t)"
| "list_step N (Do_append M t) xs = bounded N (xs @ toStdString t)"
| "list_step N (Do_append_cstr a) xs = bounded N (xs @ c_string a)"
| "list_step N (Do_plus_assign M x) xs = bounded N (xs @ addend_chars x)"
| "list_step N Do_erase_all xs = Inr []"
| "list_step N (Do_erase_at i) xs = replace_spec xs i 1 []"
| "list_step N (Do_erase_range i j) xs = replace_spec xs i (j - i) []"
| "list_step N (Do_resize_zero n) xs = resize_spec N xs n 0"
| "list_step N (Do_replace M pos n t tpos) xs =
     andthen (andthen (substr_spec (toStdString t) tpos npos) (replace_spec xs pos n)) (bounded N)"
| "list_step N (Do_replace_ptrs M i j t) xs = andthen (replace_spec xs i (j - i) (toStdString t)) (bounded N)"
| "list_step N (Do_replace_fill pos n tn c) xs =
     andthen (andthen (bounded N (replicate tn c)) (replace_spec xs pos n)) (bounded N)"
| "list_step N (Do_replace_ptrs_fill i j tn c) xs =
     andthen (andthen (bounded N (replicate tn c)) (replace_spec xs i (j - i))) (bounded N)"

text \<open>
  A call is admissible if its argument is a valid string, a count is inside its array, a C string has
  its terminator, an array is not longer than its parameter type allows, and the pointers of a range
  are in order; the sum of two capacities is a size.
\<close>

fun op_ok :: "nat \<Rightarrow> 'c::zero fs_op \<Rightarrow> bool" where
  "op_ok N (Do_append_ptr a n) \<longleftrightarrow> n \<le> length a"
| "op_ok N (Do_assign_ptr a n) \<longleftrightarrow> n \<le> length a"
| "op_ok N (Do_append_substring M t pos n) \<longleftrightarrow> fs_inv M t"
| "op_ok N (Do_assign M t) \<longleftrightarrow> fs_inv M t"
| "op_ok N (Do_assign_substring M t pos n) \<longleftrightarrow> fs_inv M t"
| "op_ok N (Do_replace_substring M pos n t tpos tn) \<longleftrightarrow> fs_inv M t \<and> N + M < npos"
| "op_ok N (Do_assign_array a) \<longleftrightarrow> a \<noteq> [] \<and> length a \<le> Suc N"
| "op_ok N (Do_assign_op_array a) \<longleftrightarrow> a \<noteq> [] \<and> length a \<le> Suc N"
| "op_ok N (Do_swap t) \<longleftrightarrow> fs_inv N t"
| "op_ok N (Do_append M t) \<longleftrightarrow> fs_inv M t"
| "op_ok N (Do_append_cstr a) \<longleftrightarrow> 0 \<in> set a"
| "op_ok N (Do_plus_assign M x) \<longleftrightarrow> addend_ok M x"
| "op_ok N (Do_erase_range i j) \<longleftrightarrow> i \<le> j \<and> j < npos"
| "op_ok N (Do_replace M pos n t tpos) \<longleftrightarrow> fs_inv M t \<and> N + M < npos"
| "op_ok N (Do_replace_ptrs M i j t) \<longleftrightarrow> fs_inv M t \<and> N + M < npos \<and> i \<le> j \<and> j < npos"
| "op_ok N (Do_replace_fill pos n tn c) \<longleftrightarrow> N + N < npos"
| "op_ok N (Do_replace_ptrs_fill i j tn c) \<longleftrightarrow> N + N < npos \<and> i \<le> j \<and> j < npos"
| "op_ok N _ \<longleftrightarrow> True"

subsection \<open>The members that call others\<close>

lemma fs_refines_trans: "spec = spec' \<Longrightarrow> fs_refines N r spec \<Longrightarrow> fs_refines N r spec'"
  by simp

lemma checkNullTerminated_Inr: "a \<noteq> [] \<Longrightarrow> checkNullTerminated a = (if last a = 0 then Inr a else Inl Terminate)"
  by (simp add: checkNullTerminated_def last_conv_nth)

lemma fs_assign_array_refines:
  assumes "fs_inv N s" "a \<noteq> []" "length a \<le> Suc N"
  shows "fs_refines N (fs_assign_array N s a) (array_spec a)"
proof -
  have "take (length a - 1) a = butlast a" by (simp add: butlast_conv_take)
  then show ?thesis
    using assms fs_assign_ptr_refines [OF assms(1), of "length a - 1" a]
    by (simp add: fs_assign_array_def array_spec_def checkNullTerminated_Inr)
qed

lemma fs_assign_op_array_refines:
  "fs_inv N s \<Longrightarrow> a \<noteq> [] \<Longrightarrow> length a \<le> Suc N \<Longrightarrow> fs_refines N (fs_assign_op_array N s a) (array_spec a)"
  using fs_assign_array_refines [of N s a] by (simp add: fs_assign_array_def fs_assign_op_array_def)

lemma fs_assign_op_init_list_refines:
  "fs_inv N s \<Longrightarrow> fs_refines N (fs_assign_op_init_list N s a) (bounded N a)"
  using fs_assign_ptr_refines [of N s "length a" a] by (simp add: fs_assign_op_init_list_def fs_assign_ptr_def)

lemma fs_swap_refines:
  assumes "fs_inv N s" "fs_inv N t"
  shows "fs_ok N (andthen (fs_swap s t) (\<lambda>(s, t). Inr s)) (toStdString t)"
proof -
  obtain s' t' where "fs_swap s t = Inr (s', t')" "fs_inv N s'" "toStdString s' = toStdString t"
    using fs_swap_result [OF assms] by metis
  then show ?thesis by (simp add: fs_ok_def)
qed

lemma substr_spec_whole: "length xs \<le> n \<Longrightarrow> n = length xs \<or> n = npos \<Longrightarrow> substr_spec xs 0 n = Inr xs"
  by (auto simp: substr_spec_def)

lemma fs_append_refines:
  assumes "fs_inv N s" "fs_inv M t"
  shows "fs_refines N (fs_append N s t) (bounded N (toStdString s @ toStdString t))"
  using fs_append_substring_refines [OF assms, of 0 "fs_size t"] fs_invD(5) [OF assms(2)]
  by (simp add: fs_append_def substr_spec_whole)

lemma fs_append_cstr_refines:
  assumes "fs_inv N s" "0 \<in> set a"
  shows "fs_refines N (fs_append_cstr N s a) (bounded N (toStdString s @ c_string a))"
proof -
  have "take (length (c_string a)) a = c_string a"
    unfolding c_string_def by (metis takeWhile_eq_take)
  moreover have "length (c_string a) \<le> length a" by (simp add: c_string_def length_takeWhile_le)
  ultimately show ?thesis
    using fs_append_ptr_refines [OF assms(1), of "length (c_string a)" a] assms(2)
    by (simp add: fs_append_cstr_def constexpr_strlen_spec)
qed

lemma fs_plus_assign_refines:
  assumes "fs_inv N s" "addend_ok M x"
  shows "fs_refines N (fs_plus_assign N s x) (bounded N (toStdString s @ addend_chars x))"
proof (cases x)
  case (Add_fs t)
  then show ?thesis using fs_append_refines [of N s M t] assms by (simp add: fs_append_def)
next
  case (Add_list a)
  then show ?thesis using fs_append_ptr_refines [OF assms(1), of "length a" a] by simp
qed (use assms in \<open>simp_all add: fs_append_cstr_refines fs_push_back_refines\<close>)

lemma fs_refines_fst:
  "fs_refines N r spec \<Longrightarrow> fs_refines N (andthen (andthen r (\<lambda>s. Inr (s, i))) (\<lambda>(s, i). Inr s)) spec"
  by (cases spec) (auto simp: fs_ok_def)

lemma size_sub_range: "i \<le> j \<Longrightarrow> j < npos \<Longrightarrow> size_sub j i = j - i"
  by simp

lemma fs_replace_refines:
  assumes "fs_inv N s" "fs_inv M t" "N + M < npos"
  shows "fs_refines N (fs_replace N M s pos n t tpos)
    (andthen (andthen (substr_spec (toStdString t) tpos npos) (replace_spec (toStdString s) pos n)) (bounded N))"
proof -
  note t = fs_invD [OF assms(2)]
  have "substr_spec (toStdString t) tpos (size_sub (fs_size t) tpos) = substr_spec (toStdString t) tpos npos"
    using t by (auto simp: substr_spec_def)
  then show ?thesis using fs_replace_substring_refines [OF assms, of pos n tpos "size_sub (fs_size t) tpos"]
    by (simp add: fs_replace_def)
qed

lemma fs_replace_ptrs_refines:
  assumes "fs_inv N s" "fs_inv M t" "N + M < npos" "i \<le> j" "j < npos"
  shows "fs_refines N (fs_replace_ptrs N M s i j t)
    (andthen (replace_spec (toStdString s) i (j - i) (toStdString t)) (bounded N))"
  using fs_replace_substring_refines [OF assms(1-3), of i "j - i" 0 "fs_size t"] assms(4,5) fs_invD(5) [OF assms(2)]
  by (simp add: fs_replace_ptrs_def substr_spec_whole)

lemma fs_replace_fill_refines:
  assumes "fs_inv N s" "N + N < npos"
  shows "fs_refines N (fs_replace_fill N s pos n tn c)
    (andthen (andthen (bounded N (replicate tn c)) (replace_spec (toStdString s) pos n)) (bounded N))"
proof (cases "tn \<le> N")
  case True
  then obtain t where t: "ctor_fill N tn c = Inr t" "fs_inv N t" "toStdString t = replicate tn c"
    using ctor_fill_refines [of N tn c] assms(2) by (auto simp: fs_ok_def)
  have "substr_spec (replicate tn c) 0 npos = Inr (replicate tn c)" by (simp add: substr_spec_def)
  with fs_replace_refines [OF assms(1) t(2) assms(2), of pos n 0] t True show ?thesis
    by (simp add: fs_replace_fill_def)
next
  case False
  then have "ctor_fill N tn c = Inl Out_Of_Range" using ctor_fill_refines [of N tn c] assms(2) by simp
  then show ?thesis using False by (simp add: fs_replace_fill_def)
qed

lemma fs_replace_ptrs_fill_refines:
  "fs_inv N s \<Longrightarrow> N + N < npos \<Longrightarrow> i \<le> j \<Longrightarrow> j < npos \<Longrightarrow>
   fs_refines N (fs_replace_ptrs_fill N s i j tn c)
    (andthen (andthen (bounded N (replicate tn c)) (replace_spec (toStdString s) i (j - i))) (bounded N))"
  using fs_replace_fill_refines [of N s i "j - i" tn c]
  by (simp add: fs_replace_ptrs_fill_def fs_replace_fill_def)

lemmas fs_caller_refines =
  fs_assign_array_refines fs_assign_op_array_refines fs_assign_op_init_list_refines fs_swap_refines
  fs_append_refines fs_append_cstr_refines fs_plus_assign_refines fs_replace_refines
  fs_replace_ptrs_refines fs_replace_fill_refines fs_replace_ptrs_fill_refines

lemmas fs_member_refines =
  fs_push_back_refines fs_pop_back_refines fs_clear_refines fs_resize_refines
  fs_append_fill_refines fs_append_ptr_refines fs_append_substring_refines
  fs_assign_any_refines fs_assign_fill_refines fs_assign_ptr_refines fs_assign_substring_refines
  fs_erase_refines fs_replace_substring_refines

lemma fs_step_refines: "fs_inv N s \<Longrightarrow> op_ok N x \<Longrightarrow> fs_refines N (fs_step N x s) (list_step N x (toStdString s))"
  by (cases x) (simp_all add: fs_member_refines fs_caller_refines fs_assign_def fs_erase_all_def
    fs_resize_zero_def fs_erase_at_def fs_erase_range_def fs_refines_fst)

interpretation fixed_string: data_refinement "fs_inv N" toStdString "op_ok N" "fs_step N" "list_step N"
proof
  fix s :: "'a fixed_string" and x a
  assume "fs_inv N s" "op_ok N x" "list_step N x (toStdString s) = Inr a"
  then show "\<exists>t. fs_step N x s = Inr t \<and> fs_inv N t \<and> toStdString t = a"
    using fs_step_refines [of N s x] by (simp add: fs_ok_def)
next
  fix s :: "'a fixed_string" and x e
  assume "fs_inv N s" "op_ok N x" "list_step N x (toStdString s) = Inl e"
  then show "fs_step N x s = Inl e" using fs_step_refines [of N s x] by simp
qed

section \<open>Properties\<close>

text \<open>Two strings of capacity 4 and 3 for the witnesses: \<open>ab\<close> and \<open>abc\<close>.\<close>

definition ab4 :: "u8 fixed_string" where
  "ab4 = \<lparr>fs_data = [97, 98, 0, 0, 0], fs_size = 2\<rparr>"

definition abc3 :: "u8 fixed_string" where
  "abc3 = \<lparr>fs_data = [97, 98, 99, 0], fs_size = 3\<rparr>"

lemma ab4_inv: "fs_inv 4 ab4"
  by (simp add: fs_inv_def ab4_def npos_def)

lemma abc3_inv: "fs_inv 3 abc3"
  by (simp add: fs_inv_def abc3_def npos_def)

lemma ab4_chars: "toStdString ab4 = [97, 98]"
  by (simp add: toStdString_def ab4_def)

lemma abc3_chars: "toStdString abc3 = [97, 98, 99]"
  by (simp add: toStdString_def abc3_def)



text \<open>
  Each constructor returns a valid string with the requested characters, or throws
  \<open>std::out_of_range\<close>: the substring and converting constructors, the pointer-and-count, the
  repeated-character and the array constructor, and the default constructor.
\<close>

theorem fs_constructors_refine:
  assumes "N < npos" "fs_inv M that" "count' \<le> length a" "length xs \<le> N"
  shows "fs_refines N (ctor_substring N M that pos count)
       (andthen (substr_spec (toStdString that) pos count) (bounded N)) \<and>
     fs_refines N (ctor_convert N M that) (bounded N (toStdString that)) \<and>
     fs_refines N (ctor_ptr N a count') (bounded N (take count' a)) \<and>
     fs_refines N (ctor_fill N n ch) (bounded N (replicate n ch)) \<and>
     fs_refines N (ctor_init_list N a) (bounded N a) \<and>
     fs_ok N (ctor_array N (xs @ [0])) xs \<and>
     fs_ok N (Inr (ctor_default N)) []"
proof (intro conjI)
  have "fs_refines N (ctor_substring N M that 0 (fs_size that))
      (andthen (substr_spec (toStdString that) 0 (fs_size that)) (bounded N))"
    by (rule ctor_substring_refines [OF assms(2,1)])
  moreover have "substr_spec (toStdString that) 0 (fs_size that) = Inr (toStdString that)"
    using fs_invD [OF assms(2)] by (simp add: substr_spec_def)
  ultimately show "fs_refines N (ctor_convert N M that) (bounded N (toStdString that))"
    by (simp add: ctor_convert_def)
  show "fs_refines N (ctor_init_list N a) (bounded N a)"
    using ctor_ptr_refines [OF assms(1), of "length a" a] by (simp add: ctor_init_list_def)
qed (use assms in \<open>simp_all add: ctor_substring_refines ctor_ptr_refines ctor_fill_refines
    ctor_array_refines ctor_default_ok\<close>)

theorem fs_constructors_refine_witness:
  "fs_refines 2 (ctor_substring 2 3 abc3 1 2) (Inr [98, 99]) \<and>
   fs_refines 2 (ctor_substring 2 3 abc3 0 3) (Inl Out_Of_Range)"
  using fs_constructors_refine [OF _ abc3_inv, of 2 0 "[]" "[]" 1 2 0 0]
    fs_constructors_refine [OF _ abc3_inv, of 2 0 "[]" "[]" 0 3 0 0]
  by (auto simp: npos_def abc3_chars substr_spec_def)

text \<open>
  \<open>operator+\<close> in its five forms never fails and yields a valid string of the sum of the
  capacities whose characters are the concatenation; so do \<open>cappend\<close> and \<open>cpush_back\<close>.
\<close>

theorem fs_concat_refines:
  assumes "fs_inv N a" "fs_inv M b" "N + M < npos" "N + length xs < npos" "N + 1 < npos"
  shows "fs_ok (N + M) (plus_fs_fs N M a b) (toStdString a @ toStdString b) \<and>
     fs_ok (N + length xs) (plus_array_fs N (xs @ [0]) a) (xs @ toStdString a) \<and>
     fs_ok (N + length xs) (plus_fs_array N a (xs @ [0])) (toStdString a @ xs) \<and>
     fs_ok (N + 1) (plus_char_fs N ch a) (ch # toStdString a) \<and>
     fs_ok (N + 1) (plus_fs_char N a ch) (toStdString a @ [ch]) \<and>
     fs_ok (N + M) (fs_cappend N M a b) (toStdString a @ toStdString b) \<and>
     fs_ok (N + 1) (fs_cpush_back N a ch) (toStdString a @ [ch])"
  using plus_fs_fs_refines [OF assms(1-3)] plus_array_fs_refines [OF assms(1,4)]
    plus_fs_array_refines [OF assms(1,4)] plus_char_fs_refines [OF assms(1,5)]
    plus_fs_char_refines [OF assms(1,5)]
  by (simp add: fs_cappend_def fs_cpush_back_def fs_cappend_char_def)

theorem fs_concat_refines_witness:
  "fs_ok 7 (plus_fs_fs 4 3 ab4 abc3) [97, 98, 97, 98, 99]"
  using fs_concat_refines [OF ab4_inv abc3_inv, of "[]"] by (simp add: npos_def ab4_chars abc3_chars)

text \<open>
  \<open>creplace\<close> replaces a substring of one string by a substring of another in a string of
  the sum of the capacities; it throws exactly when a position or count is out of range.
\<close>

theorem fs_creplace_refines:
  assumes "fs_inv N s" "fs_inv M that" "N + M < npos"
  shows "fs_refines (N + M) (fs_creplace_substring N M s pos count that that_pos that_count)
     (andthen (substr_spec (toStdString that) that_pos that_count)
       (replace_spec (toStdString s) pos count))"
  using fs_creplace_substring_refines [OF assms] .

theorem fs_creplace_refines_witness:
  "fs_refines 7 (fs_creplace_substring 4 3 ab4 1 1 abc3 1 2) (Inr [97, 98, 99])"
  using fs_creplace_refines [OF ab4_inv abc3_inv, of 1 1 1 2]
  by (simp add: npos_def ab4_chars abc3_chars substr_spec_def replace_spec_def)

text \<open>
  C29. \<open>replace(pos, count, const Char* that, that_count)\<close> does not check the capacity: whenever
  position and count are in range it returns a string whose size is that of the replaced list,
  and this string satisfies the class invariant exactly when the list fits into \<open>N\<close>
  characters. The documented \<open>std::out_of_range\<close> for a result that is too long is not thrown.
\<close>

theorem fs_replace_ptr_unchecked:
  assumes "fs_inv N s" "that_count \<le> length that"
    "replace_spec (toStdString s) pos count (take that_count that) = Inr ys"
  shows "\<exists>r. fs_replace_ptr N s pos count that that_count = Inr r \<and> fs_size r = length ys \<and>
     (fs_inv N r \<longleftrightarrow> length ys \<le> N) \<and> (length ys \<le> N \<longrightarrow> toStdString r = ys)"
  using fs_replace_ptr_result [OF assms(1,2), of pos count] assms(3)
  by (auto simp: fs_ok_def fs_inv_def)

theorem fs_replace_ptr_unchecked_witness:
  "\<exists>r. fs_replace_ptr 3 abc3 1 0 [120, 121, 0] 2 = Inr r \<and> fs_size r = 5 \<and> \<not> fs_inv 3 r"
  using fs_replace_ptr_unchecked [OF abc3_inv, of 2 "[120, 121, 0]" 1 0 "[97, 120, 121, 98, 99]"]
  by (auto simp: abc3_chars replace_spec_def substr_spec_def npos_def)

text \<open>
  \<open>swap\<close> of two valid strings of the same capacity leaves two valid strings with exchanged
  characters.
\<close>

theorem fs_swap_exchanges:
  assumes "fs_inv N s" "fs_inv N that"
  shows "\<exists>s' that'. fs_swap s that = Inr (s', that') \<and> fs_inv N s' \<and> fs_inv N that' \<and>
     toStdString s' = toStdString that \<and> toStdString that' = toStdString s"
  using fs_swap_result [OF assms] by metis

theorem fs_swap_exchanges_witness:
  "\<exists>s' that'. fs_swap ab4 (ctor_default 4) = Inr (s', that') \<and> fs_inv 4 s' \<and> fs_inv 4 that' \<and>
     toStdString s' = [] \<and> toStdString that' = [97, 98]"
  using fs_swap_exchanges [OF ab4_inv, of "ctor_default 4"]
  by (simp add: ab4_chars) (simp add: fs_inv_def ctor_default_def npos_def toStdString_def)

text \<open>
  \<open>copy(dest, count, pos)\<close> writes the characters from \<open>pos\<close>, at most \<open>count\<close> of them,
  to \<open>dest\<close> and nothing after them. It returns \<open>count\<close> if it wrote that many and otherwise the
  size of the string, which is the number of characters written only for \<open>pos = 0\<close>.
\<close>

theorem fs_copy_pos_result:
  assumes "fs_inv N s" "pos \<le> fs_size s" "min count (fs_size s - pos) \<le> length dest"
  shows "fs_copy_pos s dest count pos =
    (let cs = take count (drop pos (toStdString s)) in
     Inr (cs @ drop (length cs) dest, if length cs < count then length cs + pos else count))"
proof -
  let ?n = "min count (fs_size s - pos)"
  have "take count (drop pos (toStdString s)) = subrange pos (?n + pos) (fs_data s)"
    by (simp add: toStdString_def subrange_def drop_take min.commute)
  moreover have "length (take count (drop pos (toStdString s))) = ?n"
    using fs_invD [OF assms(1)] by (simp add: min.commute)
  ultimately show ?thesis
    using fs_copy_loop_spec [of s ?n count pos dest 0] fs_invD [OF assms(1)] assms(2,3)
    by (auto simp: fs_copy_pos_def Let_def)
qed

theorem fs_copy_pos_result_witness:
  "fs_copy_pos abc3 [0, 0, 0, 0] 4 2 = Inr ([99, 0, 0, 0], 3)"
  using fs_copy_pos_result [OF abc3_inv, of 2 4 "[0, 0, 0, 0]"]
  unfolding abc3_chars by (simp add: abc3_def Let_def)

text \<open>
  The relational operators between strings, C strings and ranges decide equality and the
  lexicographic order of the characters, and \<open>compare\<close> returns -1, 0 or 1 accordingly.
\<close>

theorem fs_relational_lexicographic:
  assumes "operand_ok x" "operand_ok y" "fs_inv N s" "fs_inv M t"
  shows "op_eq x y = Inr (operand_chars x = operand_chars y) \<and>
    op_ne x y = Inr (operand_chars x \<noteq> operand_chars y) \<and>
    op_lt x y = Inr ((operand_chars x, operand_chars y) \<in> lexord {(a, b). a < b}) \<and>
    op_gt x y = Inr ((operand_chars y, operand_chars x) \<in> lexord {(a, b). a < b}) \<and>
    op_le x y = Inr ((operand_chars y, operand_chars x) \<notin> lexord {(a, b). a < b}) \<and>
    op_ge x y = Inr ((operand_chars x, operand_chars y) \<notin> lexord {(a, b). a < b}) \<and>
    fs_compare s (Op_fs t) = Inr (if toStdString s = toStdString t then 0
      else if (toStdString s, toStdString t) \<in> lexord {(a, b). a < b} then - 1 else 1)"
proof (intro conjI)
  have "fs_compare s (Op_fs t) =
      Inr (ordering_to_int (list_compare (toStdString s) (toStdString t)))"
    using fs_compare_spec [OF assms(3), of "Op_fs t"] fs_invD [OF assms(4)] by simp
  then show "fs_compare s (Op_fs t) = Inr (if toStdString s = toStdString t then 0
      else if (toStdString s, toStdString t) \<in> lexord {(a, b). a < b} then - 1 else 1)"
    by (cases "list_compare (toStdString s) (toStdString t)")
       (auto simp flip: list_compare_lt_iff list_compare_eq_iff)
qed (use assms in \<open>simp_all add: op_ne_def op_gt_def op_le_def op_ge_def op_eq_spec op_lt_spec\<close>)

theorem fs_relational_lexicographic_witness:
  "op_lt (Op_fs ab4) (Op_cstr [97, 99, 0]) = Inr True \<and> fs_compare abc3 (Op_fs ab4) = Inr 1"
  using fs_relational_lexicographic [OF _ _ abc3_inv ab4_inv, of "Op_fs ab4" "Op_cstr [97, 99, 0]"]
  by (simp add: ab4_chars abc3_chars c_string_def) (simp add: ab4_def)

text \<open>
  C28. \<open>find\<close> returns the least position at or after \<open>pos\<close> at which the needle occurs in the
  string and \<open>rfind\<close> the greatest one at or before \<open>pos\<close>; each returns \<open>npos\<close> exactly when
  there is none.
\<close>

theorem fs_find_extremal:
  assumes "fs_inv N s" "needle_ok x" "pos \<le> fs_size s"
  defines "xs \<equiv> toStdString s" and "ys \<equiv> needle_chars x"
  shows "(\<exists>r. fs_find s x pos = Inr r \<and>
      (r = npos \<and> (\<forall>q\<ge>pos. q + length ys \<le> length xs \<longrightarrow> \<not> occurs_at xs ys q) \<or>
       pos \<le> r \<and> r + length ys \<le> length xs \<and> occurs_at xs ys r \<and>
         (\<forall>q. pos \<le> q \<and> q < r \<longrightarrow> \<not> occurs_at xs ys q))) \<and>
    (\<exists>r. fs_rfind s x pos = Inr r \<and>
      (r = npos \<and> (\<forall>q\<le>pos. q + length ys \<le> length xs \<longrightarrow> \<not> occurs_at xs ys q) \<or>
       r \<le> pos \<and> r + length ys \<le> length xs \<and> occurs_at xs ys r \<and>
         (\<forall>q. r < q \<and> q \<le> pos \<and> q + length ys \<le> length xs \<longrightarrow> \<not> occurs_at xs ys q)))"
proof (intro conjI)
  have len: "length xs = fs_size s" using fs_invD [OF assms(1)] by (simp add: xs_def)
  let ?r = "first_index (occurs_at xs ys) pos (Suc (fs_size s) - length ys)"
  have "fs_find s x pos = Inr ?r"
    using assms(3) fs_find_spec [OF assms(1,2), of pos] by (simp add: xs_def ys_def)
  then show "\<exists>r. fs_find s x pos = Inr r \<and>
      (r = npos \<and> (\<forall>q\<ge>pos. q + length ys \<le> length xs \<longrightarrow> \<not> occurs_at xs ys q) \<or>
       pos \<le> r \<and> r + length ys \<le> length xs \<and> occurs_at xs ys r \<and>
         (\<forall>q. pos \<le> q \<and> q < r \<longrightarrow> \<not> occurs_at xs ys q))"
    by (cases rule: first_index_cases [of "occurs_at xs ys" pos "Suc (fs_size s) - length ys"])
       (auto simp: len)
  show "\<exists>r. fs_rfind s x pos = Inr r \<and>
      (r = npos \<and> (\<forall>q\<le>pos. q + length ys \<le> length xs \<longrightarrow> \<not> occurs_at xs ys q) \<or>
       r \<le> pos \<and> r + length ys \<le> length xs \<and> occurs_at xs ys r \<and>
         (\<forall>q. r < q \<and> q \<le> pos \<and> q + length ys \<le> length xs \<longrightarrow> \<not> occurs_at xs ys q))"
  proof (cases "fs_size s < length ys")
    case True
    then show ?thesis using fs_rfind_spec [OF assms(1,2), of pos] len by (simp add: ys_def)
  next
    case False
    let ?k = "Suc (min pos (fs_size s - length ys))"
    have "fs_rfind s x pos = Inr (last_index (occurs_at xs ys) ?k)"
      using False assms(3) fs_rfind_spec [OF assms(1,2), of pos]
      by (simp add: xs_def ys_def del: last_index.simps)
    with False show ?thesis
      by (cases rule: last_index_cases [of "occurs_at xs ys" ?k])
         (auto simp: len less_Suc_eq_le simp del: last_index.simps)
  qed
qed

theorem fs_find_extremal_witness:
  "(\<exists>r. fs_find abc3 (Needle_cstr [98, 99, 0]) 0 = Inr r \<and> r \<noteq> npos) \<and>
   (\<exists>r. fs_rfind abc3 (Needle_char 97) 3 = Inr r \<and> r \<noteq> npos)"
proof
  have "occurs_at [97, 98, 99] [98, 99 :: u8] 1" "occurs_at [97, 98, 99] [97 :: u8] 0"
    by (simp_all add: occurs_at_def)
  then show "\<exists>r. fs_find abc3 (Needle_cstr [98, 99, 0]) 0 = Inr r \<and> r \<noteq> npos"
    "\<exists>r. fs_rfind abc3 (Needle_char 97) 3 = Inr r \<and> r \<noteq> npos"
    using fs_find_extremal [OF abc3_inv, of "Needle_cstr [98, 99, 0]" 0]
      fs_find_extremal [OF abc3_inv, of "Needle_char 97" 3]
    by (auto simp: abc3_chars c_string_def npos_def) (auto simp: abc3_def)
qed

end
