(* ===== verification/Folly_Bits.thy ===== *)
theory Folly_Bits
  imports Prelude
begin

text \<open>
  The bit operations of \<open>folly/lang/Bits.h\<close>.

  An unsigned integer type is a word type; \<open>sizeof(T)\<close> is its length divided by 8. A type of
  at most 32 bits is computed with in 32 bits, as the integer promotions and the choice among
  the compiler builtins have it, and the others in 64. Memory is a list of bytes with a
  position; the byte order is little-endian, that of every target of the application, and
  \<open>Endian\<close> takes it as a parameter. A shift by at least the width of the promoted type and an
  access out of bounds are \<open>Undefined_Behaviour\<close>.
\<close>

section \<open>Definitions\<close>

subsection \<open>Bit positions and powers of two\<close>

definition builtin_ffs :: "'a::len word \<Rightarrow> nat" where
  "builtin_ffs w = (case filter (bit w) [0..<LENGTH('a)] of [] \<Rightarrow> 0 | n # _ \<Rightarrow> Suc n)"

definition builtin_popcount :: "'a::len word \<Rightarrow> nat" where
  "builtin_popcount w = length (filter (bit w) [0..<LENGTH('a)])"

definition findFirstSet :: "'a::len word \<Rightarrow> nat" where
  "findFirstSet v =
     (if LENGTH('a) \<le> 32 then builtin_ffs (ucast v :: u32) else builtin_ffs (ucast v :: u64))"

definition findLastSet :: "'a::len word \<Rightarrow> nat" where
  "findLastSet v =
     (if v \<noteq> 0
      then 1 + (if LENGTH('a) \<le> 32 then 31 XOR builtin_clz (ucast v :: u32)
                else 63 XOR builtin_clz (ucast v :: u64))
      else 0)"

definition popcount :: "'a::len word \<Rightarrow> nat" where
  "popcount v =
     (if LENGTH('a) \<le> 32 then builtin_popcount (ucast v :: u32)
      else builtin_popcount (ucast v :: u64))"

text \<open>\<open>T(1) << n\<close>, converted back to \<open>T\<close>.\<close>

definition shift_one :: "nat \<Rightarrow> 'a::len word result" where
  "shift_one n = (if n < max 32 LENGTH('a) then Inr (push_bit n 1) else Inl Undefined_Behaviour)"

definition nextPowTwo :: "'a::len word \<Rightarrow> 'a word result" where
  "nextPowTwo v = (if v \<noteq> 0 then shift_one (findLastSet (v - 1)) else Inr 1)"

definition prevPowTwo :: "'a::len word \<Rightarrow> 'a word result" where
  "prevPowTwo v = (if v \<noteq> 0 then shift_one (findLastSet v - 1) else Inr 0)"

definition isPowTwo :: "'a::len word \<Rightarrow> bool" where
  "isPowTwo v \<longleftrightarrow> v \<noteq> 0 \<and> v AND (v - 1) = 0"

subsection \<open>Byte order and memory\<close>

text \<open>The object representation of an integer on a little-endian machine, and its inverse.\<close>

definition le_bytes :: "'a::len word \<Rightarrow> u8 list" where
  "le_bytes w = map (\<lambda>i. ucast (drop_bit (8 * i) w)) [0..<LENGTH('a) div 8]"

fun of_le_bytes :: "u8 list \<Rightarrow> 'a::len word" where
  "of_le_bytes [] = 0"
| "of_le_bytes (b # bs) = ucast b OR push_bit 8 (of_le_bytes bs)"

definition byteswap_gen :: "'a::len word \<Rightarrow> 'a word" where
  "byteswap_gen v = of_le_bytes (rev (le_bytes v))"

definition endian_swap :: "'a::len word \<Rightarrow> 'a word" where
  "endian_swap x = byteswap_gen x"

definition endian_big :: "bool \<Rightarrow> 'a::len word \<Rightarrow> 'a word" where
  "endian_big kIsLittleEndian x = (if kIsLittleEndian then endian_swap x else x)"

definition endian_little :: "bool \<Rightarrow> 'a::len word \<Rightarrow> 'a word" where
  "endian_little kIsLittleEndian x = (if \<not> kIsLittleEndian then endian_swap x else x)"

definition loadUnaligned :: "u8 list \<Rightarrow> nat \<Rightarrow> 'a::len word result" where
  "loadUnaligned buf p =
     (if p + LENGTH('a) div 8 \<le> length buf
      then Inr (of_le_bytes (take (LENGTH('a) div 8) (drop p buf)))
      else Inl Undefined_Behaviour)"

definition storeUnaligned :: "u8 list \<Rightarrow> nat \<Rightarrow> 'a::len word \<Rightarrow> u8 list result" where
  "storeUnaligned buf p value =
     (if p + LENGTH('a) div 8 \<le> length buf
      then Inr (take p buf @ le_bytes value @ drop (p + LENGTH('a) div 8) buf)
      else Inl Undefined_Behaviour)"

text \<open>The three conditional loads: four bytes, two bytes, one byte, from the end of the range
  towards its start. A call with \<open>l\<close> not below the size of the type is excluded by
  \<open>assume\<close>.\<close>

definition partialLoadUnaligned :: "u8 list \<Rightarrow> nat \<Rightarrow> nat \<Rightarrow> 'a::len word result" where
  "partialLoadUnaligned buf p l =
     (if \<not> l < LENGTH('a) div 8 then Inl Undefined_Behaviour
      else
        andthen (if bit l 2
                 then andthen (loadUnaligned buf (p + (l - 4)) :: u32 result) (\<lambda>x.
                        Inr (push_bit ((l - 4) * 8) (ucast x), l - 4))
                 else Inr (0, l)) (\<lambda>(value, avail).
        andthen (if bit l 1
                 then andthen (loadUnaligned buf (p + (avail - 2)) :: u16 result) (\<lambda>x.
                        Inr (value OR push_bit ((avail - 2) * 8) (ucast x)))
                 else Inr value) (\<lambda>value.
        if bit l 0
        then andthen (loadUnaligned buf p :: u8 result) (\<lambda>x. Inr (value OR ucast x))
        else Inr value)))"

subsection \<open>Bit reversal\<close>

definition swap_groups :: "u64 \<Rightarrow> u64 \<Rightarrow> nat \<Rightarrow> 'a::len word \<Rightarrow> 'a word" where
  "swap_groups hi lo k m =
     ucast (drop_bit k (ucast m AND hi) OR push_bit k (ucast m AND lo) :: u64)"

definition bitReverse :: "'a::len word \<Rightarrow> 'a word" where
  "bitReverse n =
     (let m = swap_groups 0xAAAAAAAAAAAAAAAA 0x5555555555555555 1 n;
          m = swap_groups 0xCCCCCCCCCCCCCCCC 0x3333333333333333 2 m;
          m = swap_groups 0xF0F0F0F0F0F0F0F0 0x0F0F0F0F0F0F0F0F 4 m
      in endian_swap m)"

section \<open>Bit positions\<close>

lemma xor_low_ones:
  "c \<le> 31 \<Longrightarrow> 31 XOR c = 31 - (c::nat)" "d \<le> 63 \<Longrightarrow> 63 XOR d = 63 - (d::nat)"
proof -
  have "\<forall>c\<in>set [0..<32]. 31 XOR c = 31 - (c::nat)" by code_simp
  then show "c \<le> 31 \<Longrightarrow> 31 XOR c = 31 - (c::nat)" by simp
  have "\<forall>c\<in>set [0..<64]. 63 XOR c = 63 - (c::nat)" by code_simp
  then show "d \<le> 63 \<Longrightarrow> 63 XOR d = 63 - (d::nat)" by simp
qed

lemma unat_ucast_up: "LENGTH('a) \<le> LENGTH('b) \<Longrightarrow> unat (ucast v :: 'b::len word) = unat v"
  for v :: "'a::len word"
  by (metis bitlen_le_iff bitlen_unat_le le_trans mod_less unat_ucast_mod)

lemma ucast_up_nonzero: "LENGTH('a) \<le> LENGTH('b) \<Longrightarrow> v \<noteq> 0 \<Longrightarrow> (ucast v :: 'b::len word) \<noteq> 0"
  for v :: "'a::len word"
  by (metis unat_0 unat_eq_zero unat_ucast_up)

lemma clz_formula:
  fixes w :: "'a::len word"
  assumes "w \<noteq> 0"
  shows "1 + (LENGTH('a) - 1 - builtin_clz w) = bitlen (unat w)" "builtin_clz w \<le> LENGTH('a) - 1"
proof -
  have "bitlen (unat w) \<noteq> 0" using assms by (simp add: unat_eq_zero)
  then have "0 < bitlen (unat w)" by (rule neq0_conv [THEN iffD1])
  moreover have "builtin_clz w = LENGTH('a) - bitlen (unat w)" using assms by (simp add: builtin_clz_def)
  moreover note bitlen_unat_le [of w]
  ultimately show "1 + (LENGTH('a) - 1 - builtin_clz w) = bitlen (unat w)"
    "builtin_clz w \<le> LENGTH('a) - 1" by linarith+
qed

lemma findLastSet_bitlen:
  fixes v :: "'a::len word"
  assumes "LENGTH('a) \<le> 64"
  shows "findLastSet v = bitlen (unat v)"
proof (cases "v = 0")
  case False
  show ?thesis
  proof (cases "LENGTH('a) \<le> 32")
    case True
    then show ?thesis
      using False ucast_up_nonzero [of v, where 'b = 32] clz_formula [of "ucast v :: u32"] unat_ucast_up [of v, where 'b = 32]
      by (simp add: findLastSet_def xor_low_ones)
  next
    case long: False
    then show ?thesis
      using assms False ucast_up_nonzero [of v, where 'b = 64] clz_formula [of "ucast v :: u64"]
        unat_ucast_up [of v, where 'b = 64]
      by (simp add: findLastSet_def xor_low_ones)
  qed
qed (simp add: findLastSet_def)

lemma filter_bit_ucast:
  "LENGTH('a) \<le> LENGTH('b) \<Longrightarrow>
   filter (bit (ucast v :: 'b::len word)) [0..<LENGTH('b)] = filter (bit v) [0..<LENGTH('a)]"
  for v :: "'a::len word"
proof -
  assume le: "LENGTH('a) \<le> LENGTH('b)"
  then have "[0..<LENGTH('b)] = [0..<LENGTH('a)] @ [LENGTH('a)..<LENGTH('b)]"
    by (metis le_add_diff_inverse upt_add_eq_append zero_le)
  moreover have "filter (bit (ucast v :: 'b word)) [LENGTH('a)..<LENGTH('b)] = []"
    by (auto simp: filter_empty_conv bit_ucast_iff dest: bit_imp_le_length)
  moreover have "filter (bit (ucast v :: 'b word)) [0..<LENGTH('a)] = filter (bit v) [0..<LENGTH('a)]"
    using le by (intro filter_cong) (auto simp: bit_ucast_iff)
  ultimately show ?thesis by simp
qed

lemma findFirstSet_builtin: "LENGTH('a) \<le> 64 \<Longrightarrow> findFirstSet v = builtin_ffs v"
  for v :: "'a::len word"
  using filter_bit_ucast [of v, where 'b = 32] filter_bit_ucast [of v, where 'b = 64]
  by (simp add: findFirstSet_def builtin_ffs_def)

lemma popcount_card: "LENGTH('a) \<le> 64 \<Longrightarrow> popcount v = card {n. bit v n}"
  for v :: "'a::len word"
proof -
  assume "LENGTH('a) \<le> 64"
  then have "popcount v = length (filter (bit v) [0..<LENGTH('a)])"
    using filter_bit_ucast [of v, where 'b = 32] filter_bit_ucast [of v, where 'b = 64]
    by (simp add: popcount_def builtin_popcount_def)
  also have "\<dots> = card (set (filter (bit v) [0..<LENGTH('a)]))"
    by (subst distinct_card) auto
  also have "set (filter (bit v) [0..<LENGTH('a)]) = {n. bit v n}"
    by (auto dest: bit_imp_le_length)
  finally show ?thesis .
qed

text \<open>The first set bit: position 0 is reserved for the value 0.\<close>

lemma builtin_ffs_eq:
  assumes "bit v n" "\<And>m. m < n \<Longrightarrow> \<not> bit v m"
  shows "builtin_ffs v = Suc n"
proof -
  have n: "n < LENGTH('a)" using assms(1) by (rule bit_imp_le_length)
  then have "[0..<LENGTH('a)] = [0..<n] @ n # [Suc n..<LENGTH('a)]"
    by (metis le_add_diff_inverse less_imp_le_nat upt_add_eq_append upt_conv_Cons zero_le)
  moreover have "filter (bit v) [0..<n] = []" using assms(2) by (simp add: filter_empty_conv)
  ultimately show ?thesis using assms(1) by (simp add: builtin_ffs_def)
qed

section \<open>Powers of two\<close>

lemma unat_exp: "k < LENGTH('a) \<Longrightarrow> unat (2 ^ k :: 'a::len word) = 2 ^ k"
  using unat_of_nat_mod [of "2 ^ k", where 'a = 'a] by simp

lemma shift_one_exp: "k < LENGTH('a) \<Longrightarrow> shift_one k = Inr (2 ^ k :: 'a::len word)"
  by (simp add: shift_one_def push_bit_eq_mult)

lemma nextPowTwo_result:
  fixes v :: "'a::len word"
  assumes "LENGTH('a) \<le> 64" "unat v \<le> 2 ^ (LENGTH('a) - 1)"
  obtains k where "nextPowTwo v = Inr (2 ^ k)" "k < LENGTH('a)" "unat v \<le> 2 ^ k"
    "\<And>j. j < k \<Longrightarrow> 2 ^ j < unat v"
proof (cases "v = 0")
  case True
  then show ?thesis using that [of 0] by (simp add: nextPowTwo_def)
next
  case False
  then have pos: "0 < unat v" by (simp add: unat_gt_0)
  then have minus: "unat (v - 1) = unat v - 1" using False by (simp add: unat_minus_one)
  let ?k = "bitlen (unat v - 1)"
  have "unat v - 1 < 2 ^ (LENGTH('a) - 1)" using assms(2) pos by linarith
  then have "?k \<le> LENGTH('a) - 1" by (simp only: bitlen_le_iff)
  then have k: "?k < LENGTH('a)" using len_gt_0 [where 'a = 'a] by linarith
  show ?thesis
  proof (rule that [of ?k])
    show "nextPowTwo v = Inr (2 ^ ?k)"
      using False k by (simp add: nextPowTwo_def findLastSet_bitlen [OF assms(1)] minus shift_one_exp)
    show "unat v \<le> 2 ^ ?k" using less_exp_bitlen [of "unat v - 1"] pos by linarith
    fix j assume "j < ?k"
    then show "2 ^ j < unat v" using pos by (simp add: less_bitlen_iff)
  qed (rule k)
qed

lemma nextPowTwo_overflow:
  fixes v :: "'a::len word"
  assumes "LENGTH('a) \<le> 64" "32 \<le> LENGTH('a)" "2 ^ (LENGTH('a) - 1) < unat v"
  shows "nextPowTwo v = Inl Undefined_Behaviour"
proof -
  have "v \<noteq> 0" using assms(3) by auto
  then have minus: "unat (v - 1) = unat v - 1" by (simp add: unat_minus_one)
  have "2 ^ (LENGTH('a) - 1) \<le> unat v - 1" using assms(3) by linarith
  then have "LENGTH('a) - 1 < bitlen (unat v - 1)" by (simp only: less_bitlen_iff)
  with assms(2) \<open>v \<noteq> 0\<close> show ?thesis
    by (simp add: nextPowTwo_def findLastSet_bitlen [OF assms(1)] minus shift_one_def)
qed

lemma prevPowTwo_result:
  fixes v :: "'a::len word"
  assumes "LENGTH('a) \<le> 64" "v \<noteq> 0"
  obtains k where "prevPowTwo v = Inr (2 ^ k)" "k < LENGTH('a)" "2 ^ k \<le> unat v" "unat v < 2 ^ Suc k"
proof -
  have pos: "0 < unat v" using assms(2) by (simp add: unat_gt_0)
  let ?k = "bitlen (unat v) - 1"
  have nz: "bitlen (unat v) \<noteq> 0" using assms(2) by (simp add: unat_eq_zero)
  then have k: "?k < LENGTH('a)" using bitlen_unat_le [of v] by linarith
  show ?thesis
  proof (rule that [of ?k])
    show "prevPowTwo v = Inr (2 ^ ?k)"
      using assms(2) k by (simp add: prevPowTwo_def findLastSet_bitlen [OF assms(1)] shift_one_exp)
    show "2 ^ ?k \<le> unat v" using exp_bitlen_le [OF pos] .
    have "Suc ?k = bitlen (unat v)" using nz by linarith
    then show "unat v < 2 ^ Suc ?k" using less_exp_bitlen [of "unat v"] by (simp only:)
  qed (rule k)
qed

lemma and_minus_one_exp: "(2 ^ k :: 'a::len word) AND (2 ^ k - 1) = 0"
  by (rule bit_word_eqI) (auto simp: bit_simps simp flip: mask_eq_exp_minus_1)

text \<open>Clearing the lowest set bit of a word above its highest power of two leaves that power.\<close>

lemma and_minus_one_keeps_top:
  fixes v :: "'a::len word"
  assumes "2 ^ k < unat v" "unat v < 2 ^ Suc k"
  shows "v AND (v - 1) \<noteq> 0"
proof -
  have "v \<noteq> 0" using assms(1) by auto
  then have "unat (v - 1) = unat v - 1" by (simp add: unat_minus_one)
  moreover have "bit n k" if "2 ^ k \<le> n" "n < 2 ^ Suc k" for n :: nat
  proof -
    have "n div 2 ^ k = 1" using that by (intro div_nat_eqI) simp_all
    then show ?thesis by (simp add: bit_iff_odd)
  qed
  ultimately have "bit (unat v) k" "bit (unat (v - 1)) k" using assms by simp_all
  then have "bit (v AND (v - 1)) k" by (simp only: bit_unat bit_and_iff)
  then show ?thesis by (metis bit_0_eq bot_apply bot_bool_def)
qed

lemma isPowTwo_iff:
  fixes v :: "'a::len word"
  assumes "LENGTH('a) \<le> 64"
  shows "isPowTwo v \<longleftrightarrow> (\<exists>k<LENGTH('a). unat v = 2 ^ k)"
proof
  assume v: "isPowTwo v"
  then obtain k where k: "k < LENGTH('a)" "2 ^ k \<le> unat v" "unat v < 2 ^ Suc k"
    using prevPowTwo_result [OF assms, of v] by (auto simp: isPowTwo_def)
  moreover have "\<not> 2 ^ k < unat v"
    using and_minus_one_keeps_top [of k v] k(3) v unfolding isPowTwo_def by blast
  ultimately have "unat v = 2 ^ k" by linarith
  with k(1) show "\<exists>k<LENGTH('a). unat v = 2 ^ k" by blast
next
  assume "\<exists>k<LENGTH('a). unat v = 2 ^ k"
  then obtain k where k: "k < LENGTH('a)" "unat v = 2 ^ k" by blast
  then have "v = 2 ^ k" by (metis unat_exp word_unat_eq_iff)
  moreover have "v \<noteq> 0" using k(2) by auto
  ultimately show "isPowTwo v" by (simp add: isPowTwo_def and_minus_one_exp)
qed

section \<open>Bytes in memory\<close>

lemma length_le_bytes [simp, byte_simps]: "length (le_bytes (w :: 'a::len word)) = LENGTH('a) div 8"
  by (simp add: le_bytes_def)

lemma bit_of_le_bytes:
  "bit (of_le_bytes bs :: 'a::len word) n \<longleftrightarrow>
     n < LENGTH('a) \<and> n < 8 * length bs \<and> bit (bs ! (n div 8)) (n mod 8)"
proof (induction bs arbitrary: n)
  case (Cons b bs)
  show ?case
  proof (cases "n < 8")
    case True
    then show ?thesis by (auto simp: bit_simps)
  next
    case False
    then have "n div 8 = Suc ((n - 8) div 8)" "(n - 8) mod 8 = n mod 8"
      using le_div_geq [of 8 n] le_mod_geq [of 8 n] by simp_all
    moreover have "\<not> bit b n" using False by (auto dest: bit_imp_le_length)
    ultimately show ?thesis using False Cons.IH [of "n - 8"] by (auto simp: bit_simps)
  qed
qed simp

lemma bit_le_bytes:
  assumes "i < LENGTH('a) div 8"
  shows "bit (le_bytes (w :: 'a::len word) ! i) m \<longleftrightarrow> m < 8 \<and> bit w (8 * i + m)"
  using assms by (auto simp: le_bytes_def bit_simps)

lemma of_le_bytes_le_bytes: "8 dvd LENGTH('a) \<Longrightarrow> of_le_bytes (le_bytes w) = (w :: 'a::len word)"
  by (rule bit_word_eqI) (auto simp: bit_of_le_bytes bit_le_bytes less_mult_imp_div_less mult.commute)

lemma le_bytes_of_le_bytes:
  "length bs = LENGTH('a) div 8 \<Longrightarrow> le_bytes (of_le_bytes bs :: 'a::len word) = bs"
proof (rule nth_equalityI)
  fix i
  assume len: "length bs = LENGTH('a) div 8" and "i < length (le_bytes (of_le_bytes bs :: 'a word))"
  then have i: "i < length bs" by simp
  show "le_bytes (of_le_bytes bs :: 'a word) ! i = bs ! i"
  proof (rule bit_word_eqI)
    fix n assume "n < LENGTH(8)"
    with i len have "8 * i + n < 8 * length bs" "8 * i + n < LENGTH('a)" by simp_all
    with i len \<open>n < LENGTH(8)\<close>
    show "bit (le_bytes (of_le_bytes bs :: 'a word) ! i) n = bit (bs ! i) n"
      by (simp add: bit_le_bytes bit_of_le_bytes)
  qed
qed simp

lemma store_load:
  fixes w :: "'a::len word"
  assumes "8 dvd LENGTH('a)" "p + LENGTH('a) div 8 \<le> length buf"
  shows "andthen (storeUnaligned buf p w) (\<lambda>buf'. loadUnaligned buf' p) = Inr w"
  using assms by (simp add: storeUnaligned_def loadUnaligned_def of_le_bytes_le_bytes)

section \<open>Byte swapping and bit reversal\<close>

lemma le_bytes_swap: "le_bytes (endian_swap w) = rev (le_bytes w)"
  by (simp add: endian_swap_def byteswap_gen_def le_bytes_of_le_bytes)

lemma endian_swap_swap: "8 dvd LENGTH('a) \<Longrightarrow> endian_swap (endian_swap w) = (w :: 'a::len word)"
  by (metis le_bytes_swap of_le_bytes_le_bytes rev_rev_ident)

lemma bit_endian_swap:
  fixes w :: "'a::len word"
  assumes "8 dvd LENGTH('a)" "n < LENGTH('a)"
  shows "bit (endian_swap w) n = bit w (8 * (LENGTH('a) div 8 - 1 - n div 8) + n mod 8)"
proof -
  have i: "n div 8 < LENGTH('a) div 8" using assms by (auto elim!: dvdE)
  then have "bit (endian_swap w) n = bit (rev (le_bytes w) ! (n div 8)) (n mod 8)"
    using assms by (simp add: endian_swap_def byteswap_gen_def bit_of_le_bytes)
  also have "rev (le_bytes w) ! (n div 8) = le_bytes w ! (LENGTH('a) div 8 - 1 - n div 8)"
    using i by (simp add: rev_nth)
  also have "bit \<dots> (n mod 8) = bit w (8 * (LENGTH('a) div 8 - 1 - n div 8) + n mod 8)"
    using i by (subst bit_le_bytes) simp_all
  finally show ?thesis .
qed

lemma bit_group_masks:
  "bit (0xAAAAAAAAAAAAAAAA :: u64) n \<longleftrightarrow> n < 64 \<and> 1 \<le> n mod (2 * 1)"
  "bit (0x5555555555555555 :: u64) n \<longleftrightarrow> n < 64 \<and> n mod (2 * 1) < 1"
  "bit (0xCCCCCCCCCCCCCCCC :: u64) n \<longleftrightarrow> n < 64 \<and> 2 \<le> n mod (2 * 2)"
  "bit (0x3333333333333333 :: u64) n \<longleftrightarrow> n < 64 \<and> n mod (2 * 2) < 2"
  "bit (0xF0F0F0F0F0F0F0F0 :: u64) n \<longleftrightarrow> n < 64 \<and> 4 \<le> n mod (2 * 4)"
  "bit (0x0F0F0F0F0F0F0F0F :: u64) n \<longleftrightarrow> n < 64 \<and> n mod (2 * 4) < 4"
proof -
  have all: "(\<And>m. bit w m \<longleftrightarrow> m < 64 \<and> P m)" if "\<forall>m\<in>set [0..<64]. bit w m = P m" for w :: u64 and P
    using that bit_imp_le_length [of w] by auto
  show "bit (0xAAAAAAAAAAAAAAAA :: u64) n \<longleftrightarrow> n < 64 \<and> 1 \<le> n mod (2 * 1)" by (rule all) code_simp
  show "bit (0x5555555555555555 :: u64) n \<longleftrightarrow> n < 64 \<and> n mod (2 * 1) < 1" by (rule all) code_simp
  show "bit (0xCCCCCCCCCCCCCCCC :: u64) n \<longleftrightarrow> n < 64 \<and> 2 \<le> n mod (2 * 2)" by (rule all) code_simp
  show "bit (0x3333333333333333 :: u64) n \<longleftrightarrow> n < 64 \<and> n mod (2 * 2) < 2" by (rule all) code_simp
  show "bit (0xF0F0F0F0F0F0F0F0 :: u64) n \<longleftrightarrow> n < 64 \<and> 4 \<le> n mod (2 * 4)" by (rule all) code_simp
  show "bit (0x0F0F0F0F0F0F0F0F :: u64) n \<longleftrightarrow> n < 64 \<and> n mod (2 * 4) < 4" by (rule all) code_simp
qed

text \<open>One step exchanges neighbouring groups of \<open>k\<close> bits.\<close>

lemma bit_swap_groups:
  fixes m :: "'a::len word"
  assumes hi: "\<And>n. bit hi n \<longleftrightarrow> n < 64 \<and> k \<le> n mod (2 * k)"
    and lo: "\<And>n. bit lo n \<longleftrightarrow> n < 64 \<and> n mod (2 * k) < k"
    and k: "0 < k" "2 * k dvd LENGTH('a)" "LENGTH('a) \<le> 64" and n: "n < LENGTH('a)"
  shows "bit (swap_groups hi lo k m) n = bit m (if n mod (2 * k) < k then n + k else n - k)"
proof -
  have n64: "n < 64" using n k(3) by simp
  then have raw: "bit (swap_groups hi lo k m) n \<longleftrightarrow>
      bit m (n + k) \<and> n + k < 64 \<and> k \<le> (n + k) mod (2 * k) \<or>
      k \<le> n \<and> bit m (n - k) \<and> (n - k) mod (2 * k) < k"
    using n by (auto simp: swap_groups_def bit_simps hi lo add.commute)
  show ?thesis
  proof (cases "n mod (2 * k) < k")
    case True
    then have r: "(n + k) mod (2 * k) = n mod (2 * k) + k"
      by (metis add_less_cancel_right mod_add_left_eq mod_less mult_2)
    have "n + k < LENGTH('a)"
    proof -
      have "n div (2 * k) < LENGTH('a) div (2 * k)" using n k by (auto elim!: dvdE simp: less_mult_imp_div_less mult.commute)
      then have "2 * k * Suc (n div (2 * k)) \<le> LENGTH('a)"
        using k by (metis Suc_leI dvd_mult_div_cancel mult_le_mono2)
      moreover have "n = 2 * k * (n div (2 * k)) + n mod (2 * k)" by simp
      ultimately show ?thesis using True by (simp only: mult_Suc_right)
    qed
    moreover have "\<not> (k \<le> n \<and> (n - k) mod (2 * k) < k)"
    proof
      assume a: "k \<le> n \<and> (n - k) mod (2 * k) < k"
      then have "(n - k + k) mod (2 * k) = (n - k) mod (2 * k) + k"
        by (metis add_less_cancel_right mod_add_left_eq mod_less mult_2)
      with a True show False by simp
    qed
    ultimately show ?thesis unfolding raw using True r k(3) by auto
  next
    case False
    have le: "k \<le> n" using False by (metis leI le_trans mod_less_eq_dividend)
    have r: "(n - k) mod (2 * k) = n mod (2 * k) - k"
    proof -
      have "n - k = 2 * k * (n div (2 * k)) + (n mod (2 * k) - k)" using False by simp
      moreover have "n mod (2 * k) - k < 2 * k" using k(1) by (simp add: less_imp_diff_less)
      ultimately show ?thesis by (metis mod_less mod_mult_self4)
    qed
    have "n mod (2 * k) < 2 * k" using k(1) by simp
    then have "(n - k) mod (2 * k) < k" unfolding r using False by linarith
    moreover have "\<not> k \<le> (n + k) mod (2 * k)"
    proof -
      have "n + k = 2 * k * Suc (n div (2 * k)) + (n mod (2 * k) - k)" using False by simp
      then have "(n + k) mod (2 * k) = n mod (2 * k) - k"
        using k(1) by (metis less_imp_diff_less mod_less mod_less_divisor mod_mult_self4 mult_pos_pos zero_less_numeral)
      then show ?thesis using \<open>n mod (2 * k) < 2 * k\<close> by linarith
    qed
    ultimately show ?thesis unfolding raw using False le by simp
  qed
qed

lemma bit_bitReverse:
  fixes m :: "'a::len word"
  assumes "8 dvd LENGTH('a)" "LENGTH('a) \<le> 64" "n < LENGTH('a)"
  shows "bit (bitReverse m) n = bit m (LENGTH('a) - 1 - n)"
proof -
  have dvd: "2 * 1 dvd LENGTH('a)" "2 * 2 dvd LENGTH('a)" "2 * 4 dvd LENGTH('a)"
    using assms(1) by (auto elim!: dvdE)
  let ?a = "swap_groups 0xAAAAAAAAAAAAAAAA 0x5555555555555555 1 m"
  let ?b = "swap_groups 0xCCCCCCCCCCCCCCCC 0x3333333333333333 2 ?a"
  let ?c = "swap_groups 0xF0F0F0F0F0F0F0F0 0x0F0F0F0F0F0F0F0F 4 ?b"
  obtain q r where n: "n = 8 * q + r" "r < 8" by (metis div_mult_mod_eq mod_less_divisor mult.commute zero_less_numeral)
  obtain l where l: "LENGTH('a) = 8 * l" using assms(1) by (auto elim: dvdE)
  define j where "j = l - 1 - q"
  have lq: "q < l" using n l assms(3) by simp
  then have j: "8 * j + 7 < LENGTH('a)" unfolding j_def l by linarith
  note step = bit_swap_groups [OF _ _ _ _ assms(2)]
  have m: "(8 * j + x) mod 2 = x mod 2" "(8 * j + x) mod 4 = x mod 4" "(8 * j + x) mod 8 = x mod 8" for x
    by presburger+
  have a: "bit ?a (8 * j + x) = bit m (8 * j + (if x mod 2 = 0 then x + 1 else x - 1))" if "x < 8" for x
  proof -
    have "bit ?a (8 * j + x) =
        bit m (if (8 * j + x) mod (2 * 1) < 1 then 8 * j + x + 1 else 8 * j + x - 1)"
      by (rule step [OF bit_group_masks(1,2)]) (use dvd(1) j that in simp_all)
    also have "(if (8 * j + x) mod (2 * 1) < 1 then 8 * j + x + 1 else 8 * j + x - 1) =
        8 * j + (if x mod 2 = 0 then x + 1 else x - 1)"
      using m(1) [of x] by (cases "x = 0") auto
    finally show ?thesis .
  qed
  have b: "bit ?b (8 * j + x) = bit ?a (8 * j + (if x mod 4 < 2 then x + 2 else x - 2))" if "x < 8" for x
  proof -
    have "bit ?b (8 * j + x) =
        bit ?a (if (8 * j + x) mod (2 * 2) < 2 then 8 * j + x + 2 else 8 * j + x - 2)"
      by (rule step [OF bit_group_masks(3,4)]) (use dvd(2) j that in simp_all)
    also have "(if (8 * j + x) mod (2 * 2) < 2 then 8 * j + x + 2 else 8 * j + x - 2) =
        8 * j + (if x mod 4 < 2 then x + 2 else x - 2)"
      using m(2) [of x] mod_less_eq_dividend [of x 4] by auto
    finally show ?thesis .
  qed
  have c: "bit ?c (8 * j + x) = bit ?b (8 * j + (if x < 4 then x + 4 else x - 4))" if "x < 8" for x
  proof -
    have "bit ?c (8 * j + x) =
        bit ?b (if (8 * j + x) mod (2 * 4) < 4 then 8 * j + x + 4 else 8 * j + x - 4)"
      by (rule step [OF bit_group_masks(5,6)]) (use dvd(3) j that in simp_all)
    also have "(if (8 * j + x) mod (2 * 4) < 4 then 8 * j + x + 4 else 8 * j + x - 4) =
        8 * j + (if x < 4 then x + 4 else x - 4)"
      using m(3) [of x] that by auto
    finally show ?thesis .
  qed
  have rev: "bit ?c (8 * j + r) = bit m (8 * j + (7 - r))"
  proof -
    let ?p = "if r < 4 then r + 4 else r - 4"
    let ?q = "if ?p mod 4 < 2 then ?p + 2 else ?p - 2"
    from n(2) have "r \<in> set [0, 1, 2, 3, 4, 5, 6, 7]" by auto
    then have x: "?p < 8 \<and> ?q < 8 \<and> (if ?q mod 2 = 0 then ?q + 1 else ?q - 1) = 7 - r" by auto
    show ?thesis using a [of ?q] b [of ?p] c [of r] n(2) x by (simp only: simp_thms)
  qed
  have "bit (bitReverse m) n = bit ?c (8 * (LENGTH('a) div 8 - 1 - n div 8) + n mod 8)"
    unfolding bitReverse_def Let_def by (rule bit_endian_swap [OF assms(1,3)])
  also have "\<dots> = bit ?c (8 * j + r)" using n l by (simp add: j_def)
  also have "\<dots> = bit m (8 * j + (7 - r))" by (rule rev)
  also have "8 * j + (7 - r) = LENGTH('a) - 1 - n"
    using n lq unfolding l j_def by linarith
  finally show ?thesis .
qed

section \<open>Partial loads\<close>

lemma of_le_bytes_append:
  "(of_le_bytes (xs @ ys) :: 'a::len word) =
     of_le_bytes xs OR push_bit (8 * length xs) (of_le_bytes ys)"
  by (induction xs) (simp_all add: push_bit_or or.assoc add.commute)

lemma ucast_of_le_bytes:
  "8 * length bs \<le> LENGTH('b) \<Longrightarrow>
   (ucast (of_le_bytes bs :: 'b::len word) :: 'a::len word) = of_le_bytes bs"
  by (rule bit_word_eqI) (auto simp: bit_simps bit_of_le_bytes)

lemma load_bytes:
  "p + LENGTH('b) div 8 \<le> length buf \<Longrightarrow>
   andthen (loadUnaligned buf p :: 'b::len word result) f =
   f (of_le_bytes (take (LENGTH('b) div 8) (drop p buf)))"
  by (simp add: loadUnaligned_def)

lemma ucast_load:
  "8 * k \<le> LENGTH('b) \<Longrightarrow>
   (ucast (of_le_bytes (take k xs) :: 'b::len word) :: 'a::len word) = of_le_bytes (take k xs)"
  by (rule ucast_of_le_bytes) simp

lemma or_reverse: "x OR y OR z = z OR y OR x"
  for x y z :: "'a::len word"
  by (rule bit_word_eqI) (auto simp: bit_simps)

lemma take_split3: "l = a + b + c \<Longrightarrow> take l xs = take a xs @ take b (drop a xs) @ take c (drop (a + b) xs)"
  by (simp add: take_add)

lemma partialLoadUnaligned_spec:
  assumes "l < LENGTH('a) div 8" "LENGTH('a) \<le> 64" "p + l \<le> length buf"
  shows "partialLoadUnaligned buf p l = Inr (of_le_bytes (take l (drop p buf)) :: 'a::len word)"
proof -
  let ?d = "drop p buf"
  have len: "l \<le> length ?d" using assms(3) by simp
  have val: "of_le_bytes (take l ?d) = (of_le_bytes (take a ?d) OR
      push_bit (8 * a) (of_le_bytes (take b (drop a ?d))) OR
      push_bit (8 * (a + b)) (of_le_bytes (take c (drop (a + b) ?d))) :: 'a word)"
    if "l = a + b + c" for a b c
  proof -
    have "length (take a ?d) = a" "length (take b (drop a ?d)) = b" using that len by simp_all
    then show ?thesis
      unfolding take_split3 [OF that] of_le_bytes_append by (simp add: push_bit_or or.assoc distrib_left)
  qed
  have l8: "l < 8" using assms by linarith
  define a b c :: nat
    where abc: "a = of_bool (bit l 0)" "b = 2 * of_bool (bit l 1)" "c = 4 * of_bool (bit l 2)"
  have l: "l = a + b + c"
  proof -
    from l8 have "l \<in> set [0, 1, 2, 3, 4, 5, 6, 7]" by auto
    then show ?thesis by (auto simp: bit_numeral_rec bit_0 abc)
  qed
  let ?A = "of_le_bytes (take a ?d) :: 'a word"
  let ?B = "push_bit (8 * a) (of_le_bytes (take b (drop a ?d))) :: 'a word"
  let ?C = "push_bit (8 * (a + b)) (of_le_bytes (take c (drop (a + b) ?d))) :: 'a word"
  have four: "(if bit l 2 then andthen (loadUnaligned buf (p + (l - 4)) :: u32 result) (\<lambda>x.
        Inr (push_bit ((l - 4) * 8) (ucast x), l - 4)) else Inr (0, l)) = Inr (?C, a + b)"
  proof (cases "bit l 2")
    case True
    then have "c = 4" by (simp add: abc)
    with l assms(3) have "c = 4" "l - 4 = a + b" "p + (a + b) + 4 \<le> length buf" by simp_all
    with True ucast_load [of 4, where 'b = 32 and 'a = 'a] show ?thesis
      by (simp add: load_bytes drop_drop add.commute mult.commute)
  next
    case False
    then have "c = 0" by (simp add: abc)
    with False l show ?thesis by (simp only: if_False add_0_right take_0 of_le_bytes.simps push_bit_of_0)
  qed
  have two: "(if bit l 1 then andthen (loadUnaligned buf (p + (a + b - 2)) :: u16 result) (\<lambda>x.
        Inr (v OR push_bit ((a + b - 2) * 8) (ucast x))) else Inr v) = Inr (v OR ?B)" for v
  proof (cases "bit l 1")
    case True
    then have "b = 2" by (simp add: abc)
    with l assms(3) have "b = 2" "p + a + 2 \<le> length buf" by simp_all
    with True ucast_load [of 2, where 'b = 16 and 'a = 'a] show ?thesis
      by (simp add: load_bytes drop_drop add.commute mult.commute)
  qed (simp add: abc)
  have one: "(if bit l 0 then andthen (loadUnaligned buf p :: u8 result) (\<lambda>x.
        Inr (v OR ucast x)) else Inr v) = Inr (v OR ?A)" for v
  proof (cases "bit l 0")
    case True
    then have "a = 1" by (simp add: abc)
    with l assms(3) have "a = 1" "p + 1 \<le> length buf" by simp_all
    with True ucast_load [of 1, where 'b = 8 and 'a = 'a] show ?thesis
      by (simp add: load_bytes)
  qed (simp add: abc)
  have "partialLoadUnaligned buf p l = Inr (?C OR ?B OR ?A)"
    unfolding partialLoadUnaligned_def four using assms(1) by (simp only: andthen_Inr split_conv two one) (simp add: or.assoc)
  also have "?C OR ?B OR ?A = of_le_bytes (take l ?d)"
    using val [OF l] or_reverse [of ?C ?B ?A] by (rule trans [OF _ sym, rotated])
  finally show ?thesis .
qed

section \<open>Properties\<close>

text \<open>
  C31. For an integer type of at most 64 bits: \<open>findLastSet\<close> is 1 + floor(log2) of a non-zero
  value, computed from the count of leading zeros by the exclusive-or trick; \<open>findFirstSet\<close> is
  the 1-based position of the lowest set bit; both are 0 exactly at 0; \<open>popcount\<close> is the number
  of set bits.
\<close>

theorem bit_positions:
  fixes v :: "'a::len word"
  assumes "LENGTH('a) \<le> 64"
  shows "(findLastSet v = 0 \<longleftrightarrow> v = 0) \<and> (findFirstSet v = 0 \<longleftrightarrow> v = 0) \<and>
    (v \<noteq> 0 \<longrightarrow> 2 ^ (findLastSet v - 1) \<le> unat v \<and> unat v < 2 ^ findLastSet v) \<and>
    (v \<noteq> 0 \<longrightarrow> bit v (findFirstSet v - 1) \<and> (\<forall>m. m < findFirstSet v - 1 \<longrightarrow> \<not> bit v m)) \<and>
    popcount v = card {n. bit v n}"
proof (cases "v = 0")
  case True
  then show ?thesis using popcount_card [OF assms, of v]
    by (simp add: findLastSet_bitlen [OF assms] findFirstSet_builtin [OF assms] builtin_ffs_def)
next
  case False
  then have "\<exists>n. bit v n" using bit_eq_iff [of v 0] by auto
  then obtain n where n: "bit v n" "\<And>m. m < n \<Longrightarrow> \<not> bit v m"
    using exists_least_iff [of "bit v"] by blast
  then have "findFirstSet v = Suc n"
    using builtin_ffs_eq [of v n] by (simp add: findFirstSet_builtin [OF assms])
  moreover have "0 < unat v" using False by (simp add: unat_gt_0)
  ultimately show ?thesis
    using False n popcount_card [OF assms, of v] exp_bitlen_le [of "unat v"] less_exp_bitlen [of "unat v"]
    by (simp add: findLastSet_bitlen [OF assms])
qed

theorem bit_positions_witness:
  "2 ^ (findLastSet (40 :: u16) - 1) \<le> unat (40 :: u16) \<and> unat (40 :: u16) < 2 ^ findLastSet (40 :: u16) \<and>
   bit (40 :: u16) (findFirstSet (40 :: u16) - 1)"
  using bit_positions [of "40 :: u16"] by simp

text \<open>
  C26. \<open>nextPowTwo\<close> returns the least power of two that is not below its argument whenever that
  power is representable, and shifts by the full width of the type otherwise (for types of 32
  and 64 bits); \<open>prevPowTwo\<close> returns the greatest power of two that is not above its non-zero
  argument; \<open>isPowTwo\<close> recognises exactly the powers of two.
\<close>

theorem powers_of_two:
  fixes v :: "'a::len word"
  assumes "LENGTH('a) \<le> 64"
  shows "(unat v \<le> 2 ^ (LENGTH('a) - 1) \<longrightarrow>
      (\<exists>k<LENGTH('a). nextPowTwo v = Inr (2 ^ k) \<and> unat v \<le> 2 ^ k \<and> (\<forall>j<k. 2 ^ j < unat v))) \<and>
    (32 \<le> LENGTH('a) \<and> 2 ^ (LENGTH('a) - 1) < unat v \<longrightarrow> nextPowTwo v = Inl Undefined_Behaviour) \<and>
    (v \<noteq> 0 \<longrightarrow> (\<exists>k<LENGTH('a). prevPowTwo v = Inr (2 ^ k) \<and> 2 ^ k \<le> unat v \<and> unat v < 2 ^ Suc k)) \<and>
    (isPowTwo v \<longleftrightarrow> (\<exists>k<LENGTH('a). unat v = 2 ^ k))"
proof (intro conjI impI)
  assume "unat v \<le> 2 ^ (LENGTH('a) - 1)"
  then show "\<exists>k<LENGTH('a). nextPowTwo v = Inr (2 ^ k) \<and> unat v \<le> 2 ^ k \<and> (\<forall>j<k. 2 ^ j < unat v)"
    using nextPowTwo_result [OF assms, of v] by metis
next
  assume "32 \<le> LENGTH('a) \<and> 2 ^ (LENGTH('a) - 1) < unat v"
  then show "nextPowTwo v = Inl Undefined_Behaviour" using nextPowTwo_overflow [OF assms, of v] by simp
next
  assume "v \<noteq> 0"
  then show "\<exists>k<LENGTH('a). prevPowTwo v = Inr (2 ^ k) \<and> 2 ^ k \<le> unat v \<and> unat v < 2 ^ Suc k"
    using prevPowTwo_result [OF assms, of v] by metis
qed (rule isPowTwo_iff [OF assms])

theorem powers_of_two_witness:
  "(\<exists>k<32. nextPowTwo (5 :: u32) = Inr (2 ^ k) \<and> 5 \<le> (2 ^ k :: nat) \<and> (\<forall>j<k. 2 ^ j < (5 :: nat))) \<and>
   nextPowTwo (0x80000001 :: u32) = Inl Undefined_Behaviour"
  using powers_of_two [of "5 :: u32"] powers_of_two [of "0x80000001 :: u32"] by simp

text \<open>
  \<open>bitReverse\<close> reverses the bits of an integer of 8, 16, 32 or 64 bits: bit \<open>n\<close> of the
  result is bit \<open>width - 1 - n\<close> of the argument; it is therefore its own inverse.
\<close>

theorem bitReverse_reverses:
  fixes m :: "'a::len word"
  assumes "8 dvd LENGTH('a)" "LENGTH('a) \<le> 64"
  shows "(\<forall>n<LENGTH('a). bit (bitReverse m) n = bit m (LENGTH('a) - 1 - n)) \<and>
    bitReverse (bitReverse m) = m"
proof
  show "\<forall>n<LENGTH('a). bit (bitReverse m) n = bit m (LENGTH('a) - 1 - n)"
    using bit_bitReverse [OF assms] by blast
  show "bitReverse (bitReverse m) = m"
    by (rule bit_word_eqI) (simp add: bit_bitReverse [OF assms])
qed

theorem bitReverse_reverses_witness:
  "bitReverse (bitReverse (0x12345678 :: u32)) = 0x12345678"
  using bitReverse_reverses [of "0x12345678 :: u32"] by simp

text \<open>
  In memory: what \<open>storeUnaligned\<close> wrote, \<open>loadUnaligned\<close> reads back; \<open>Endian::big\<close> on a
  little-endian machine reverses the bytes and is its own inverse; \<open>partialLoadUnaligned\<close>
  assembles exactly the next \<open>l\<close> bytes, least significant first, without reading beyond them.
\<close>

theorem unaligned_access:
  fixes w :: "'a::len word"
  assumes "8 dvd LENGTH('a)" "LENGTH('a) \<le> 64" "p + LENGTH('a) div 8 \<le> length buf"
    "l < LENGTH('a) div 8" "q + l \<le> length buf"
  shows "andthen (storeUnaligned buf p w) (\<lambda>buf'. loadUnaligned buf' p) = Inr w \<and>
    le_bytes (endian_big True w) = rev (le_bytes w) \<and> endian_big True (endian_big True w) = w \<and>
    partialLoadUnaligned buf q l = Inr (of_le_bytes (take l (drop q buf)) :: 'a word)"
  using store_load [OF assms(1,3), of w] endian_swap_swap [OF assms(1), of w]
    partialLoadUnaligned_spec [OF assms(4,2,5)]
  by (simp add: endian_big_def le_bytes_swap)

theorem unaligned_access_witness:
  "partialLoadUnaligned [1, 2, 3, 4] 1 3 = Inr (0x040302 :: u32)"
  using unaligned_access [of 0 "[1, 2, 3, 4]" 3 1 "0 :: u32"] by simp

end
