(* ===== verification/Folly_GroupVarint.thy ===== *)
theory Folly_GroupVarint
  imports Folly_Bits
begin

text \<open>
  \<open>folly/GroupVarint.h\<close>, \<open>folly/detail/GroupVarintDetail.h\<close> and the tables of
  \<open>folly/GroupVarint.cpp\<close>: groups of four 32-bit or five 64-bit integers, each written in as
  few bytes as it needs, behind a header with the lengths.

  A buffer is a list of bytes with a position; the functions that move a pointer return the new
  position. The static members of \<open>GroupVarint<T>\<close> are collected in the record
  \<open>group_varint\<close>, the parameter of \<open>GroupVarintBase\<close>, \<open>GroupVarintEncoder\<close> and
  \<open>GroupVarintDecoder\<close>. The \<open>Output\<close> of the encoder is the list of bytes appended so far;
  the decoder's pointers are offsets into the buffer it currently reads, which is the data or
  its temporary array.
\<close>

section \<open>Definitions\<close>

subsection \<open>Tables\<close>

definition kMask32 :: "u32 list" where
  "kMask32 = [0xff, 0xffff, 0xffffff, 0xffffffff]"

definition kMask64 :: "u64 list" where
  "kMask64 = [0xff, 0xffff, 0xffffff, 0xffffffff, 0xffffffffff, 0xffffffffffff,
     0xffffffffffffff, 0xffffffffffffffff]"

definition get_d :: "nat \<Rightarrow> nat \<Rightarrow> nat" where
  "get_d index j = 1 + (drop_bit (2 * j) index AND 3)"

definition get_offset :: "nat \<Rightarrow> nat \<Rightarrow> nat" where
  "get_offset index j =
     (if j > 0 then get_d index 0 else 0) + (if j > 1 then get_d index 1 else 0) +
     (if j > 2 then get_d index 2 else 0) + (if j > 3 then get_d index 3 else 0) + 0"

definition table_length_item :: "nat \<Rightarrow> u8" where
  "table_length_item index = of_nat (1 + get_offset index 4)"

definition partial_item :: "nat \<Rightarrow> nat \<Rightarrow> nat \<Rightarrow> u32" where
  "partial_item d offset k = of_nat (push_bit (8 * k) (if k < d then offset + k else 0xff))"

definition item_impl :: "nat \<Rightarrow> nat \<Rightarrow> u32" where
  "item_impl d offset =
     partial_item d offset 0 OR partial_item d offset 1 OR
     partial_item d offset 2 OR partial_item d offset 3 OR 0"

definition table_sse_mask_item :: "nat \<Rightarrow> u32 list" where
  "table_sse_mask_item index =
     map (\<lambda>j. item_impl (get_d index j) (get_offset index j)) [0, 1, 2, 3]"

definition groupVarintLengths :: "u8 list" where
  "groupVarintLengths = map table_length_item [0..<256]"

definition groupVarintSSEMasks :: "u32 list list" where
  "groupVarintSSEMasks = map table_sse_mask_item [0..<256]"

subsection \<open>Groups of four 32-bit values\<close>

definition key32 :: "u32 \<Rightarrow> nat" where
  "key32 x = 3 - builtin_clz (x OR 1) div 8"

definition bkey32 :: "nat \<Rightarrow> nat \<Rightarrow> nat" where
  "bkey32 i x = drop_bit (2 * i) x AND 3"

definition size32 :: "u32 \<Rightarrow> u32 \<Rightarrow> u32 \<Rightarrow> u32 \<Rightarrow> nat" where
  "size32 a b c d = 1 + 4 + key32 a + key32 b + key32 c + key32 d"

definition size32_ptr :: "u32 list \<Rightarrow> nat result" where
  "size32_ptr p =
     andthen (rd p 0) (\<lambda>a. andthen (rd p 1) (\<lambda>b. andthen (rd p 2) (\<lambda>c. andthen (rd p 3) (\<lambda>d.
       Inr (size32 a b c d)))))"

fun partialSize_loop :: "('t \<Rightarrow> nat) \<Rightarrow> 't list \<Rightarrow> nat \<Rightarrow> nat \<Rightarrow> nat \<Rightarrow> nat result" where
  "partialSize_loop key p i 0 s = Inr s"
| "partialSize_loop key p i (Suc count) s =
     andthen (rd p i) (\<lambda>x. partialSize_loop key p (i + 1) count (s + key x))"

definition partialSize32 :: "u32 list \<Rightarrow> nat \<Rightarrow> nat result" where
  "partialSize32 p count = partialSize_loop key32 p 0 count (1 + count)"

definition partialCount32 :: "u8 list \<Rightarrow> nat \<Rightarrow> nat \<Rightarrow> nat result" where
  "partialCount32 buf p sz =
     andthen (rd buf p) (\<lambda>c.
       let v = unat c;
           s0 = 1 + (1 + bkey32 0 v);
           s1 = s0 + (1 + bkey32 1 v);
           s2 = s1 + (1 + bkey32 2 v);
           s3 = s2 + (1 + bkey32 3 v)
       in Inr (if s0 > sz then 0 else if s1 > sz then 1 else if s2 > sz then 2
               else if s3 > sz then 3 else 4))"

definition encodedSize32 :: "u8 list \<Rightarrow> nat \<Rightarrow> nat result" where
  "encodedSize32 buf p =
     andthen (rd buf p) (\<lambda>c.
       Inr (1 + 4 + bkey32 0 (unat c) + bkey32 1 (unat c) + bkey32 2 (unat c) + bkey32 3 (unat c)))"

definition encode32 :: "u8 list \<Rightarrow> nat \<Rightarrow> u32 \<Rightarrow> u32 \<Rightarrow> u32 \<Rightarrow> u32 \<Rightarrow> (u8 list \<times> nat) result" where
  "encode32 buf p a b c d =
     (let b0key = key32 a; b1key = key32 b; b2key = key32 c; b3key = key32 d in
      andthen (wr buf p (of_nat (push_bit 6 b3key OR push_bit 4 b2key OR push_bit 2 b1key OR b0key)))
        (\<lambda>buf. let p = p + 1 in
      andthen (storeUnaligned buf p a) (\<lambda>buf. let p = p + (b0key + 1) in
      andthen (storeUnaligned buf p b) (\<lambda>buf. let p = p + (b1key + 1) in
      andthen (storeUnaligned buf p c) (\<lambda>buf. let p = p + (b2key + 1) in
      andthen (storeUnaligned buf p d) (\<lambda>buf. let p = p + (b3key + 1) in
        Inr (buf, p)))))))"

definition encode32_ptr :: "u8 list \<Rightarrow> nat \<Rightarrow> u32 list \<Rightarrow> (u8 list \<times> nat) result" where
  "encode32_ptr buf p src =
     andthen (rd src 0) (\<lambda>a. andthen (rd src 1) (\<lambda>b. andthen (rd src 2) (\<lambda>c. andthen (rd src 3) (\<lambda>d.
       encode32 buf p a b c d))))"

text \<open>The four decoded values are returned in a list, in the order of the destinations.\<close>

definition decode_simple32 :: "u8 list \<Rightarrow> nat \<Rightarrow> (u32 list \<times> nat) result" where
  "decode_simple32 buf p =
     andthen (loadUnaligned buf p :: u8 result) (\<lambda>kb. let k = unat kb in
     andthen (rd groupVarintLengths k) (\<lambda>len. let ends = p + unat len; p = p + 1; k0 = bkey32 0 k in
     andthen (loadUnaligned buf p) (\<lambda>a. andthen (rd kMask32 k0) (\<lambda>m0.
       let p = p + (k0 + 1); k1 = bkey32 1 k in
     andthen (loadUnaligned buf p) (\<lambda>b. andthen (rd kMask32 k1) (\<lambda>m1.
       let p = p + (k1 + 1); k2 = bkey32 2 k in
     andthen (loadUnaligned buf p) (\<lambda>c. andthen (rd kMask32 k2) (\<lambda>m2.
       let p = p + (k2 + 1); k3 = bkey32 3 k in
     andthen (loadUnaligned buf p) (\<lambda>d. andthen (rd kMask32 k3) (\<lambda>m3.
       Inr ([a AND m0, b AND m1, c AND m2, d AND m3], ends)))))))))))"

text \<open>The SSSE3 path. \<open>mm_shuffle_epi8\<close> is the byte shuffle \<open>PSHUFB\<close>: a mask byte with its
  high bit set gives 0, any other selects the byte its low four bits name.\<close>

definition mm_shuffle_epi8 :: "u8 list \<Rightarrow> u8 list \<Rightarrow> u8 list" where
  "mm_shuffle_epi8 val m = map (\<lambda>b. if bit b 7 then 0 else val ! unat (b AND 15)) m"

definition mm_loadu_si128 :: "u8 list \<Rightarrow> nat \<Rightarrow> u8 list result" where
  "mm_loadu_si128 buf p =
     (if p + 16 \<le> length buf then Inr (take 16 (drop p buf)) else Inl Undefined_Behaviour)"

definition decode_sse32 :: "u8 list \<Rightarrow> nat \<Rightarrow> (u32 list \<times> nat) result" where
  "decode_sse32 buf p =
     andthen (rd buf p) (\<lambda>key.
     andthen (mm_loadu_si128 buf (p + 1)) (\<lambda>val.
     andthen (rd groupVarintSSEMasks (unat key)) (\<lambda>masks.
     andthen (rd groupVarintLengths (unat key)) (\<lambda>len.
       let r = mm_shuffle_epi8 val (concat (map le_bytes masks)) in
       Inr (map (\<lambda>i. of_le_bytes (take 4 (drop (4 * i) r))) [0, 1, 2, 3], p + unat len)))))"

definition decode32 :: "bool \<Rightarrow> u8 list \<Rightarrow> nat \<Rightarrow> (u32 list \<times> nat) result" where
  "decode32 sse buf p = (if sse then decode_sse32 buf p else decode_simple32 buf p)"

subsection \<open>Groups of five 64-bit values\<close>

definition key64 :: "u64 \<Rightarrow> nat" where
  "key64 x = 7 - builtin_clz (x OR 1) div 8"

definition bkey64 :: "nat \<Rightarrow> nat \<Rightarrow> nat" where
  "bkey64 i x = drop_bit (3 * i) x AND 7"

definition size64 :: "u64 \<Rightarrow> u64 \<Rightarrow> u64 \<Rightarrow> u64 \<Rightarrow> u64 \<Rightarrow> nat" where
  "size64 a b c d e = 2 + 5 + key64 a + key64 b + key64 c + key64 d + key64 e"

definition size64_ptr :: "u64 list \<Rightarrow> nat result" where
  "size64_ptr p =
     andthen (rd p 0) (\<lambda>a. andthen (rd p 1) (\<lambda>b. andthen (rd p 2) (\<lambda>c. andthen (rd p 3) (\<lambda>d.
     andthen (rd p 4) (\<lambda>e. Inr (size64 a b c d e))))))"

definition partialSize64 :: "u64 list \<Rightarrow> nat \<Rightarrow> nat result" where
  "partialSize64 p count = partialSize_loop key64 p 0 count (2 + count)"

definition partialCount64 :: "u8 list \<Rightarrow> nat \<Rightarrow> nat \<Rightarrow> nat result" where
  "partialCount64 buf p sz =
     andthen (loadUnaligned buf p :: u16 result) (\<lambda>h.
       let v = unat h;
           s0 = 2 + (1 + bkey64 0 v);
           s1 = s0 + (1 + bkey64 1 v);
           s2 = s1 + (1 + bkey64 2 v);
           s3 = s2 + (1 + bkey64 3 v);
           s4 = s3 + (1 + bkey64 4 v)
       in Inr (if s0 > sz then 0 else if s1 > sz then 1 else if s2 > sz then 2
               else if s3 > sz then 3 else if s4 > sz then 4 else 5))"

definition encodedSize64 :: "u8 list \<Rightarrow> nat \<Rightarrow> nat result" where
  "encodedSize64 buf p =
     andthen (loadUnaligned buf p :: u16 result) (\<lambda>n.
       Inr (2 + 5 + bkey64 0 (unat n) + bkey64 1 (unat n) + bkey64 2 (unat n) + bkey64 3 (unat n) +
            bkey64 4 (unat n)))"

definition encode64 ::
  "u8 list \<Rightarrow> nat \<Rightarrow> u64 \<Rightarrow> u64 \<Rightarrow> u64 \<Rightarrow> u64 \<Rightarrow> u64 \<Rightarrow> (u8 list \<times> nat) result" where
  "encode64 buf p a b c d e =
     (let b0key = key64 a; b1key = key64 b; b2key = key64 c; b3key = key64 d; b4key = key64 e in
      andthen (storeUnaligned buf p (of_nat (push_bit 12 b4key OR push_bit 9 b3key OR
          push_bit 6 b2key OR push_bit 3 b1key OR b0key) :: u16)) (\<lambda>buf. let p = p + 2 in
      andthen (storeUnaligned buf p a) (\<lambda>buf. let p = p + (b0key + 1) in
      andthen (storeUnaligned buf p b) (\<lambda>buf. let p = p + (b1key + 1) in
      andthen (storeUnaligned buf p c) (\<lambda>buf. let p = p + (b2key + 1) in
      andthen (storeUnaligned buf p d) (\<lambda>buf. let p = p + (b3key + 1) in
      andthen (storeUnaligned buf p e) (\<lambda>buf. let p = p + (b4key + 1) in
        Inr (buf, p))))))))"

definition encode64_ptr :: "u8 list \<Rightarrow> nat \<Rightarrow> u64 list \<Rightarrow> (u8 list \<times> nat) result" where
  "encode64_ptr buf p src =
     andthen (rd src 0) (\<lambda>a. andthen (rd src 1) (\<lambda>b. andthen (rd src 2) (\<lambda>c. andthen (rd src 3) (\<lambda>d.
     andthen (rd src 4) (\<lambda>e. encode64 buf p a b c d e)))))"

definition decode64 :: "u8 list \<Rightarrow> nat \<Rightarrow> (u64 list \<times> nat) result" where
  "decode64 buf p =
     andthen (loadUnaligned buf p :: u16 result) (\<lambda>kw. let k = unat kw; p = p + 2; k0 = bkey64 0 k in
     andthen (loadUnaligned buf p) (\<lambda>a. andthen (rd kMask64 k0) (\<lambda>m0.
       let p = p + (k0 + 1); k1 = bkey64 1 k in
     andthen (loadUnaligned buf p) (\<lambda>b. andthen (rd kMask64 k1) (\<lambda>m1.
       let p = p + (k1 + 1); k2 = bkey64 2 k in
     andthen (loadUnaligned buf p) (\<lambda>c. andthen (rd kMask64 k2) (\<lambda>m2.
       let p = p + (k2 + 1); k3 = bkey64 3 k in
     andthen (loadUnaligned buf p) (\<lambda>d. andthen (rd kMask64 k3) (\<lambda>m3.
       let p = p + (k3 + 1); k4 = bkey64 4 k in
     andthen (loadUnaligned buf p) (\<lambda>e. andthen (rd kMask64 k4) (\<lambda>m4.
       let p = p + (k4 + 1) in
       Inr ([a AND m0, b AND m1, c AND m2, d AND m3, e AND m4], p))))))))))))"

subsection \<open>The static interface and \<open>GroupVarintBase\<close>\<close>

record 't group_varint =
  kHeaderSize :: nat
  kGroupSize :: nat
  type_size :: nat
  gv_size :: "'t list \<Rightarrow> nat result"
  gv_partialSize :: "'t list \<Rightarrow> nat \<Rightarrow> nat result"
  gv_partialCount :: "u8 list \<Rightarrow> nat \<Rightarrow> nat \<Rightarrow> nat result"
  gv_encode :: "u8 list \<Rightarrow> nat \<Rightarrow> 't list \<Rightarrow> (u8 list \<times> nat) result"
  gv_decode :: "u8 list \<Rightarrow> nat \<Rightarrow> ('t list \<times> nat) result"

definition GroupVarint32 :: "bool \<Rightarrow> u32 group_varint" where
  "GroupVarint32 sse =
     \<lparr>kHeaderSize = 1, kGroupSize = 4, type_size = 4, gv_size = size32_ptr,
      gv_partialSize = partialSize32, gv_partialCount = partialCount32,
      gv_encode = encode32_ptr, gv_decode = decode32 sse\<rparr>"

definition GroupVarint64 :: "u64 group_varint" where
  "GroupVarint64 =
     \<lparr>kHeaderSize = 2, kGroupSize = 5, type_size = 8, gv_size = size64_ptr,
      gv_partialSize = partialSize64, gv_partialCount = partialCount64,
      gv_encode = encode64_ptr, gv_decode = decode64\<rparr>"

definition kMaxSize :: "'t group_varint \<Rightarrow> nat" where
  "kMaxSize B = kHeaderSize B + type_size B * kGroupSize B"

definition kFullGroupSize :: "'t group_varint \<Rightarrow> nat" where
  "kFullGroupSize B = kHeaderSize B + kGroupSize B * type_size B"

definition gv_maxSize :: "'t group_varint \<Rightarrow> nat \<Rightarrow> nat" where
  "gv_maxSize B n =
     (let total = n div kGroupSize B * kFullGroupSize B; n = n mod kGroupSize B in
      if n \<noteq> 0 then total + (kHeaderSize B + n * type_size B) else total)"

function totalSize_loop :: "'t group_varint \<Rightarrow> 't list \<Rightarrow> nat \<Rightarrow> nat \<Rightarrow> (nat \<times> 't list \<times> nat) result" where
  "totalSize_loop B p n sz =
     (if n \<ge> kGroupSize B \<and> kGroupSize B \<noteq> 0
      then andthen (gv_size B p) (\<lambda>s.
        totalSize_loop B (drop (kGroupSize B) p) (n - kGroupSize B) (sz + s))
      else Inr (sz, p, n))"
  by pat_completeness auto
termination
  by (relation "measure (\<lambda>(B, p, n, sz). n)") auto

declare totalSize_loop.simps [simp del]

definition gv_totalSize :: "'t group_varint \<Rightarrow> 't list \<Rightarrow> nat \<Rightarrow> nat result" where
  "gv_totalSize B p n =
     andthen (totalSize_loop B p n 0) (\<lambda>(sz, p, n).
       if n \<noteq> 0 then andthen (gv_partialSize B p n) (\<lambda>s. Inr (sz + s)) else Inr sz)"

subsection \<open>\<open>GroupVarintEncoder\<close>\<close>

text \<open>\<open>tmp\<close> and \<open>buf\<close> are the arrays of the class, \<open>out\<close> the bytes handed to the output.\<close>

record 't gv_encoder =
  enc_out :: "u8 list"
  enc_tmp :: "u8 list"
  enc_buf :: "'t list"
  enc_count :: nat

definition encoder_init :: "u8 list \<Rightarrow> 't list \<Rightarrow> u8 list \<Rightarrow> 't gv_encoder" where
  "encoder_init tmp buf out = \<lparr>enc_out = out, enc_tmp = tmp, enc_buf = buf, enc_count = 0\<rparr>"

definition encoder_add :: "'t group_varint \<Rightarrow> 't gv_encoder \<Rightarrow> 't \<Rightarrow> 't gv_encoder result" where
  "encoder_add B s val =
     andthen (wr (enc_buf s) (enc_count s) val) (\<lambda>buf.
       let s = s\<lparr>enc_buf := buf, enc_count := enc_count s + 1\<rparr> in
       if enc_count s = kGroupSize B
       then andthen (gv_encode B (enc_tmp s) 0 (enc_buf s)) (\<lambda>(tmp, p).
         Inr (s\<lparr>enc_tmp := tmp, enc_out := enc_out s @ take p tmp, enc_count := 0\<rparr>))
       else Inr s)"

fun clear_tail :: "'t::zero list \<Rightarrow> nat \<Rightarrow> nat \<Rightarrow> 't list result" where
  "clear_tail buf i 0 = Inr buf"
| "clear_tail buf i (Suc n) = andthen (wr buf i 0) (\<lambda>buf. clear_tail buf (i + 1) n)"

definition encoder_finish :: "'t::zero group_varint \<Rightarrow> 't gv_encoder \<Rightarrow> 't gv_encoder result" where
  "encoder_finish B s =
     (if enc_count s \<noteq> 0
      then andthen (clear_tail (enc_buf s) (enc_count s) (kGroupSize B - enc_count s)) (\<lambda>buf.
           andthen (gv_encode B (enc_tmp s) 0 buf) (\<lambda>(tmp, p).
           andthen (gv_partialSize B buf (enc_count s)) (\<lambda>n.
             if n \<le> length tmp
             then Inr (s\<lparr>enc_buf := buf, enc_tmp := tmp, enc_out := enc_out s @ take n tmp,
                         enc_count := 0\<rparr>)
             else Inl Undefined_Behaviour)))
      else Inr s)"

definition encoder_clear :: "'t gv_encoder \<Rightarrow> 't gv_encoder" where
  "encoder_clear s = s\<lparr>enc_count := 0\<rparr>"

subsection \<open>\<open>GroupVarintDecoder\<close>\<close>

text \<open>\<open>dec_mem\<close> is the array \<open>p_\<close>, \<open>end_\<close> and \<open>limit_\<close> point into: the data at first, the
  temporary array of \<open>2 * kMaxSize\<close> bytes once the rest of the data has been copied there.
  \<open>dec_len\<close> is the length of the data, the position of \<open>rrest_\<close>.\<close>

record 't gv_decoder =
  dec_mem :: "u8 list"
  dec_p :: nat
  dec_end :: nat
  dec_limit :: nat
  dec_tmp :: "u8 list"
  dec_buf :: "'t list"
  dec_pos :: nat
  dec_count :: nat
  dec_remaining :: nat
  dec_len :: nat

definition decoder_reset :: "'t gv_decoder \<Rightarrow> u8 list \<Rightarrow> nat \<Rightarrow> 't gv_decoder" where
  "decoder_reset s data maxCount =
     s\<lparr>dec_mem := data, dec_p := 0, dec_end := length data, dec_limit := length data,
       dec_pos := 0, dec_count := 0, dec_remaining := maxCount, dec_len := length data\<rparr>"

definition decoder_init :: "u8 list \<Rightarrow> 't list \<Rightarrow> u8 list \<Rightarrow> nat \<Rightarrow> 't gv_decoder" where
  "decoder_init tmp buf data maxCount =
     \<lparr>dec_mem = data, dec_p = 0, dec_end = length data, dec_limit = length data, dec_tmp = tmp,
      dec_buf = buf, dec_pos = 0, dec_count = 0, dec_remaining = maxCount, dec_len = length data\<rparr>"

text \<open>The copy into the temporary array, when fewer than \<open>kMaxSize\<close> bytes are readable.\<close>

definition decoder_stage :: "'t group_varint \<Rightarrow> 't gv_decoder \<Rightarrow> 't gv_decoder result" where
  "decoder_stage B s =
     (if dec_limit s - dec_p s < kMaxSize B
      then let rem = dec_end s - dec_p s in
        if rem \<le> length (dec_tmp s)
        then let tmp = take rem (drop (dec_p s) (dec_mem s)) @ drop rem (dec_tmp s) in
          Inr (s\<lparr>dec_tmp := tmp, dec_mem := tmp, dec_p := 0, dec_end := rem,
                 dec_limit := length tmp\<rparr>)
        else Inl Undefined_Behaviour
      else Inr s)"

definition decoder_refill :: "'t group_varint \<Rightarrow> 't gv_decoder \<Rightarrow> (bool \<times> 't gv_decoder) result" where
  "decoder_refill B s0 =
     andthen (decoder_stage B s0) (\<lambda>s.
     andthen (gv_decode B (dec_mem s) (dec_p s)) (\<lambda>(buf, n).
       let s = s\<lparr>dec_pos := 0, dec_buf := buf\<rparr> in
       if n \<le> dec_end s
       then if dec_remaining s \<ge> kGroupSize B
            then Inr (True, s\<lparr>dec_remaining := dec_remaining s - kGroupSize B,
                              dec_count := kGroupSize B, dec_p := n\<rparr>)
            else let count = dec_remaining s in
              andthen (gv_partialSize B buf count) (\<lambda>k.
                Inr (True, s\<lparr>dec_count := count, dec_remaining := 0, dec_p := dec_p s + k\<rparr>))
       else
         andthen (gv_partialCount B (dec_mem s) (dec_p s) (dec_end s - dec_p s)) (\<lambda>count.
         andthen (if dec_remaining s \<ge> count
                  then Inr (s\<lparr>dec_count := count, dec_remaining := dec_remaining s - count,
                              dec_p := dec_end s\<rparr>)
                  else andthen (gv_partialSize B buf (dec_remaining s)) (\<lambda>k.
                    Inr (s\<lparr>dec_count := dec_remaining s, dec_remaining := 0,
                           dec_p := dec_p s + k\<rparr>))) (\<lambda>s.
           Inr (dec_count s \<noteq> 0, s)))))"

definition decoder_next ::
  "'t group_varint \<Rightarrow> 't gv_decoder \<Rightarrow> ('t option \<times> 't gv_decoder) result" where
  "decoder_next B s =
     (if dec_pos s = dec_count s
      then if dec_end s - dec_p s = 0 \<or> dec_remaining s = 0 then Inr (None, s)
        else andthen (decoder_refill B s) (\<lambda>(ok, s).
          if \<not> ok then Inr (None, s)
          else andthen (rd (dec_buf s) (dec_pos s)) (\<lambda>v. Inr (Some v, s\<lparr>dec_pos := dec_pos s + 1\<rparr>)))
      else andthen (rd (dec_buf s) (dec_pos s)) (\<lambda>v. Inr (Some v, s\<lparr>dec_pos := dec_pos s + 1\<rparr>)))"

text \<open>\<open>rest\<close>: the offsets of the unread data, or the failed \<open>CHECK\<close>.\<close>

definition decoder_rest :: "'t gv_decoder \<Rightarrow> (nat \<times> nat) result" where
  "decoder_rest s =
     (if dec_pos s = dec_count s \<and> (dec_p s = dec_end s \<or> dec_remaining s = 0)
      then let sz = dec_end s - dec_p s in Inr (dec_len s - sz, dec_len s)
      else Inl Terminate)"

end
