(* ===== verification/Folly_GroupVarint_Correct.thy ===== *)
theory Folly_GroupVarint_Correct
  imports Folly_GroupVarint
begin

text \<open>
  Correctness of the group encoding.

  \<open>payload\<close> is the bytes of one value, \<open>group32\<close> and \<open>group64\<close> those of a group: header and
  payloads. The unrolled stores and loads are the recursive \<open>store_seq\<close> and \<open>load_seq\<close>; the
  shuffle of the SSSE3 path yields the same values. The locale \<open>group_format\<close> states what the
  streaming encoder and decoder need of a group format; it is interpreted on the 32-bit format,
  with and without SSSE3, and on the 64-bit one.
\<close>

section \<open>Bytes of one value\<close>

text \<open>\<open>payload k x\<close>: the \<open>k + 1\<close> low bytes of a value. A key of a type of \<open>w\<close> bytes counts the
  bytes above the first.\<close>

definition payload :: "nat \<Rightarrow> 'a::len word \<Rightarrow> u8 list" where
  "payload k x = take (Suc k) (le_bytes x)"

definition value_key :: "'a::len word \<Rightarrow> nat" where
  "value_key x = (bitlen (unat x) - 1) div 8"

lemma bitlen_or_1_word: "bitlen (unat (x OR 1)) = max 1 (bitlen (unat x))"
  for x :: "'a::len word"
proof -
  have "drop_bit 1 (x OR 1) = drop_bit 1 x"
    by (rule bit_word_eqI) (auto simp: bit_or_iff bit_drop_bit_eq bit_1_iff)
  then have "unat (x OR 1) div 2 = unat x div 2"
    using unat_drop_bit [of 1 "x OR 1"] unat_drop_bit [of 1 x] by (simp only: power_one_right)
  moreover have "0 < unat (x OR 1)" by (simp add: unat_gt_0)
  ultimately have "bitlen (unat (x OR 1)) = Suc (bitlen (unat x div 2))" by (simp add: bitlen_pos)
  then show ?thesis by (cases "unat x = 0") (simp_all add: bitlen_pos)
qed

lemma leading_zero_bytes:
  assumes "1 \<le> b" "b \<le> 8 * w"
  shows "(w - 1) - (8 * w - b) div 8 = (b - 1) div (8::nat)"
proof -
  obtain q r where b: "b - 1 = 8 * q + r" "r < 8"
    by (metis div_mult_mod_eq mod_less_divisor mult.commute zero_less_numeral)
  with assms have q: "q < w" by linarith
  then have "8 * w - b = 8 * (w - 1 - q) + (7 - r)" using assms b by (simp add: diff_mult_distrib2)
  then have "(8 * w - b) div 8 = w - 1 - q" using b(2) by simp
  moreover have "(b - 1) div 8 = q" using b by simp
  ultimately show ?thesis using q by simp
qed

lemma clz_or_1: "LENGTH('a) = 8 * w \<Longrightarrow> (w - 1) - builtin_clz (x OR 1) div 8 = value_key x"
  for x :: "'a::len word"
proof -
  assume w: "LENGTH('a) = 8 * w"
  let ?b = "max 1 (bitlen (unat x))"
  have "?b \<le> 8 * w" using bitlen_unat_le [of "x OR 1"] by (simp only: w bitlen_or_1_word)
  then have "(w - 1) - (8 * w - ?b) div 8 = (?b - 1) div 8" by (intro leading_zero_bytes) simp_all
  moreover have "builtin_clz (x OR 1) = 8 * w - ?b" by (simp only: builtin_clz_def w bitlen_or_1_word or_1_not_0 if_False)
  moreover have "?b - 1 = bitlen (unat x) - 1" by simp
  ultimately show ?thesis unfolding value_key_def by (simp only:)
qed

lemma key32_eq: "key32 x = value_key x"
  using clz_or_1 [of 4 x] by (simp add: key32_def)

lemma key64_eq: "key64 x = value_key x"
  using clz_or_1 [of 8 x] by (simp add: key64_def)

lemma value_key_bound: "LENGTH('a) = 8 * w \<Longrightarrow> value_key x < w"
  for x :: "'a::len word"
  using bitlen_unat_le [of x] len_gt_0 [where 'a = 'a] unfolding value_key_def by presburger

lemma value_key_bits: "bit x n \<Longrightarrow> n < 8 * Suc (value_key x)"
  for x :: "'a::len word"
proof -
  assume "bit x n"
  then have "bit (unat x) n" by (simp add: bit_unat)
  then have "2 ^ n \<le> unat x" by (metis bit_iff_odd div_less even_zero linorder_not_le)
  then have "n < bitlen (unat x)" by (simp add: less_bitlen_iff)
  then show ?thesis unfolding value_key_def by presburger
qed

lemma of_payload: "8 dvd LENGTH('a) \<Longrightarrow> of_le_bytes (payload (value_key x) x) = x"
  for x :: "'a::len word"
proof (rule bit_word_eqI)
  fix n assume "8 dvd LENGTH('a)" "n < LENGTH('a)"
  then have "n div 8 < LENGTH('a) div 8" by (auto elim!: dvdE)
  moreover from this have "n < 8 * (LENGTH('a) div 8)" by linarith
  moreover have "n < 8 * Suc k \<Longrightarrow> n div 8 < Suc k" for k by presburger
  ultimately show "bit (of_le_bytes (payload (value_key x) x) :: 'a word) n = bit x n"
    using \<open>n < LENGTH('a)\<close> value_key_bits [of x n]
    by (auto simp: bit_of_le_bytes payload_def bit_le_bytes min_def)
qed

lemma length_payload:
  "LENGTH('a) = 8 * w \<Longrightarrow> length (payload (value_key x) x) = Suc (value_key x)"
  for x :: "'a::len word"
  using value_key_bound [of w x] by (simp add: payload_def)

lemma load_masked:
  "length bs = LENGTH('a) div 8 \<Longrightarrow> 
   (of_le_bytes bs :: 'a::len word) AND mask (8 * k) = of_le_bytes (take k bs)"
  by (rule bit_word_eqI) (auto simp: bit_simps bit_of_le_bytes less_mult_imp_div_less mult.commute)

lemma kMask32_nth: "k < 4 \<Longrightarrow> kMask32 ! k = mask (8 * Suc k)"
proof -
  assume "k < 4"
  then have "k \<in> set [0, 1, 2, 3]" by auto
  then show ?thesis by (auto simp: kMask32_def mask_eq_exp_minus_1)
qed

lemma kMask64_nth: "k < 8 \<Longrightarrow> kMask64 ! k = mask (8 * Suc k)"
proof -
  assume "k < 8"
  then have "k \<in> set [0, 1, 2, 3, 4, 5, 6, 7]" by auto
  then show ?thesis by (auto simp: kMask64_def mask_eq_exp_minus_1)
qed

section \<open>Sequences of stores and loads\<close>

text \<open>The unrolled stores and loads of a group as recursive functions over its keys.\<close>

fun store_seq :: "u8 list \<Rightarrow> nat \<Rightarrow> 'a::len word list \<Rightarrow> (u8 list \<times> nat) result" where
  "store_seq buf p [] = Inr (buf, p)"
| "store_seq buf p (x # xs) =
     andthen (storeUnaligned buf p x) (\<lambda>buf. store_seq buf (p + (value_key x + 1)) xs)"

fun load_seq :: "'a::len word list \<Rightarrow> u8 list \<Rightarrow> nat \<Rightarrow> nat list \<Rightarrow> ('a word list \<times> nat) result" where
  "load_seq masks buf p [] = Inr ([], p)"
| "load_seq masks buf p (k # ks) =
     andthen (loadUnaligned buf p) (\<lambda>x. andthen (rd masks k) (\<lambda>m.
     andthen (load_seq masks buf (p + (k + 1)) ks) (\<lambda>(xs, e). Inr ((x AND m) # xs, e))))"

definition payloads :: "'a::len word list \<Rightarrow> u8 list" where
  "payloads xs = concat (map (\<lambda>x. payload (value_key x) x) xs)"

lemma payloads_simps [simp]:
  "payloads [] = []" "payloads (x # xs) = payload (value_key x) x @ payloads xs"
  by (simp_all add: payloads_def)

lemma payloads_append [simp]: "payloads (xs @ ys) = payloads xs @ payloads ys"
  by (simp add: payloads_def)

lemma length_payloads:
  "LENGTH('a) = 8 * w \<Longrightarrow> length (payloads (xs :: 'a::len word list)) = (\<Sum>x\<leftarrow>xs. Suc (value_key x))"
  by (induction xs) (simp_all add: length_payload [of w])

lemma length_payloads_le:
  "LENGTH('a) = 8 * w \<Longrightarrow> length (payloads (xs :: 'a::len word list)) \<le> w * length xs"
proof (induction xs)
  case (Cons x xs)
  then show ?case using length_payload [of w x] value_key_bound [of w x] by simp
qed simp

text \<open>Each store writes a full word; what it writes beyond its payload is overwritten by the next
  one. The memory in front of the position and beyond the maximal size is not touched.\<close>

lemma store_seq_spec:
  fixes xs :: "'a::len word list"
  assumes w: "LENGTH('a) = 8 * w"
  shows "length pre = p \<Longrightarrow> w * length xs \<le> length tail \<Longrightarrow>
    \<exists>tail'. store_seq (pre @ tail) p xs = Inr (pre @ payloads xs @ tail', p + length (payloads xs)) \<and>
      length (payloads xs @ tail') = length tail \<and>
      drop (w * length xs - length (payloads xs)) tail' = drop (w * length xs) tail"
proof (induction xs arbitrary: pre p tail)
  case (Cons x xs)
  let ?k = "Suc (value_key x)" and ?n = "length (payloads xs)"
  have k: "?k \<le> w" using value_key_bound [OF w, of x] by simp
  let ?pay = "payload (value_key x) x"
  let ?tail = "drop ?k (le_bytes x) @ drop w tail"
  have len: "length ?pay = ?k" by (rule length_payload [OF w])
  have wl: "w \<le> length tail" using Cons.prems(2) by simp
  have split: "le_bytes x = ?pay @ drop ?k (le_bytes x)" by (simp add: payload_def)
  have "storeUnaligned (pre @ tail) p x = Inr (pre @ le_bytes x @ drop w tail)"
    using Cons.prems(1) wl by (simp add: storeUnaligned_def w)
  then have store: "storeUnaligned (pre @ tail) p x = Inr ((pre @ ?pay) @ ?tail)"
    using split by simp
  have "w * length xs \<le> length ?tail" using Cons.prems(2) k by (simp add: w)
  then obtain tail' where t: "store_seq ((pre @ ?pay) @ ?tail) (p + ?k) xs =
      Inr ((pre @ ?pay) @ payloads xs @ tail', p + ?k + ?n)"
      "length (payloads xs @ tail') = length ?tail"
      "drop (w * length xs - ?n) tail' = drop (w * length xs) ?tail"
    using Cons.IH [of "pre @ ?pay" "p + ?k" ?tail] Cons.prems(1) len by auto
  have n: "?n \<le> w * length xs" by (rule length_payloads_le [OF w])
  have "drop (w * length (x # xs) - length (payloads (x # xs))) tail' =
      drop (w - ?k) (drop (w * length xs - ?n) tail')"
    using len k n by (simp add: algebra_simps)
  also have "\<dots> = drop (w * length xs) (drop (w - ?k) ?tail)"
    unfolding t(3) by (simp only: drop_drop add.commute)
  also have "drop (w - ?k) ?tail = drop w tail" by (simp add: w)
  also have "drop (w * length xs) (drop w tail) = drop (w * length (x # xs)) tail"
    by (simp add: add.commute)
  finally have "drop (w * length (x # xs) - length (payloads (x # xs))) tail' =
      drop (w * length (x # xs)) tail" .
  moreover have "length (payloads (x # xs) @ tail') = length tail"
    using t(2) len k wl by (simp add: w)
  moreover have "store_seq (pre @ tail) p (x # xs) =
      Inr (pre @ payloads (x # xs) @ tail', p + length (payloads (x # xs)))"
    using store t(1) len by (simp add: add.assoc)
  ultimately show ?case by blast
qed simp

fun loaded :: "u8 list \<Rightarrow> nat \<Rightarrow> nat list \<Rightarrow> 'a::len word list" where
  "loaded buf p [] = []"
| "loaded buf p (k # ks) = of_le_bytes (take (Suc k) (drop p buf)) # loaded buf (p + Suc k) ks"

text \<open>A load is inside the buffer if at each position a whole word can be read.\<close>

fun readable :: "nat \<Rightarrow> nat \<Rightarrow> nat \<Rightarrow> nat list \<Rightarrow> bool" where
  "readable w n p [] \<longleftrightarrow> True"
| "readable w n p (k # ks) \<longleftrightarrow> p + w \<le> n \<and> readable w n (p + Suc k) ks"

lemma load_seq_spec:
  fixes masks :: "'a::len word list"
  assumes "LENGTH('a) = 8 * w" "\<And>k. k < w \<Longrightarrow> masks ! k = mask (8 * Suc k)" "length masks = w"
  shows "readable w (length buf) p ks \<Longrightarrow> \<forall>k\<in>set ks. k < w \<Longrightarrow>
    load_seq masks buf p ks = Inr (loaded buf p ks, p + (\<Sum>k\<leftarrow>ks. Suc k))"
proof (induction ks arbitrary: p)
  case (Cons k ks)
  have "loadUnaligned buf p = Inr (of_le_bytes (take w (drop p buf)) :: 'a word)"
    using Cons.prems assms(1) by (simp add: loadUnaligned_def)
  moreover have "(of_le_bytes (take w (drop p buf)) :: 'a word) AND masks ! k =
      of_le_bytes (take (Suc k) (drop p buf))"
  proof -
    have "w \<le> length buf - p" using Cons.prems by auto
    then have "length (take w (drop p buf)) = LENGTH('a) div 8" using assms(1) by simp
    from load_masked [OF this, of "Suc k"] Cons.prems assms show ?thesis by (simp add: min_absorb1)
  qed
  ultimately show ?case using Cons assms(3) by simp
qed simp

lemma readable_max:
  "p + w * length ks \<le> n \<Longrightarrow> \<forall>k\<in>set ks. k < w \<Longrightarrow> readable w n p ks"
proof (induction ks arbitrary: p)
  case (Cons k ks)
  then have "p + Suc k + w * length ks \<le> n" by simp
  with Cons show ?case by simp
qed simp

lemma readable_slack:
  "p + (\<Sum>k\<leftarrow>ks. Suc k) + (w - 1) \<le> n \<Longrightarrow> \<forall>k\<in>set ks. k < w \<Longrightarrow> readable w n p ks"
proof (induction ks arbitrary: p)
  case (Cons k ks)
  then show ?case by (simp add: Cons.IH add.assoc)
qed simp

lemma take_append_split:
  assumes "take (length a + length b) xs = a @ b"
  shows "take (length a) xs = a" "take (length b) (drop (length a) xs) = b"
proof -
  have "take (length a) (take (length a + length b) xs) = take (length a) (a @ b)" using assms by simp
  then show "take (length a) xs = a" by simp
  have "drop (length a) (take (length a + length b) xs) = drop (length a) (a @ b)" using assms by simp
  then show "take (length b) (drop (length a) xs) = b" by (simp add: drop_take)
qed

lemma loaded_payloads:
  fixes xs :: "'a::len word list"
  assumes w: "LENGTH('a) = 8 * w"
  shows "take (length (payloads xs)) (drop p buf) = payloads xs \<Longrightarrow>
    loaded buf p (map value_key xs @ ks) = xs @ loaded buf (p + length (payloads xs)) ks"
proof (induction xs arbitrary: p)
  case (Cons x xs)
  let ?pay = "payload (value_key x) x"
  have len: "length ?pay = Suc (value_key x)" by (rule length_payload [OF w])
  note split = take_append_split [of ?pay "payloads xs" "drop p buf"]
  have "take (Suc (value_key x)) (drop p buf) = ?pay"
    using split(1) Cons.prems len by simp
  moreover have "take (length (payloads xs)) (drop (p + Suc (value_key x)) buf) = payloads xs"
    using split(2) Cons.prems len by (simp add: add.commute)
  ultimately show ?case
    using Cons.IH [of "p + Suc (value_key x)"] of_payload [of x] w len by (simp add: add.assoc)
qed simp

section \<open>Headers\<close>

fun pack :: "nat \<Rightarrow> nat list \<Rightarrow> nat" where
  "pack b [] = 0"
| "pack b (k # ks) = k + 2 ^ b * pack b ks"

lemma or_push_bit_nat: "x < 2 ^ n \<Longrightarrow> push_bit n y OR x = y * 2 ^ n + (x::nat)"
proof -
  assume x: "x < 2 ^ n"
  have "push_bit n y AND x = 0"
  proof (rule bit_eqI)
    fix m
    have "bit x m \<Longrightarrow> m < n"
      using x by (metis bit_take_bit_iff take_bit_nat_eq_self)
    then show "bit (push_bit n y AND x) m = bit 0 m" by (auto simp: bit_simps)
  qed
  then show ?thesis using disjunctive_add_eq_or [of "push_bit n y" x] by (simp add: push_bit_eq_mult)
qed

lemma header32_pack:
  assumes "k0 < 4" "k1 < 4" "k2 < 4" "k3 < (4::nat)"
  shows "push_bit 6 k3 OR push_bit 4 k2 OR push_bit 2 k1 OR k0 = pack 2 [k0, k1, k2, k3]"
proof -
  have "push_bit 2 k1 OR k0 = k1 * 4 + k0" using or_push_bit_nat [of k0 2 k1] assms by simp
  moreover have "push_bit 4 k2 OR (k1 * 4 + k0) = k2 * 16 + (k1 * 4 + k0)"
    using or_push_bit_nat [of "k1 * 4 + k0" 4 k2] assms by simp
  moreover have "push_bit 6 k3 OR (k2 * 16 + (k1 * 4 + k0)) = k3 * 64 + (k2 * 16 + (k1 * 4 + k0))"
    using or_push_bit_nat [of "k2 * 16 + (k1 * 4 + k0)" 6 k3] assms by simp
  ultimately show ?thesis by simp
qed

lemma header64_pack:
  assumes "k0 < 8" "k1 < 8" "k2 < 8" "k3 < 8" "k4 < (8::nat)"
  shows "push_bit 12 k4 OR push_bit 9 k3 OR push_bit 6 k2 OR push_bit 3 k1 OR k0 =
    pack 3 [k0, k1, k2, k3, k4]"
proof -
  have "push_bit 3 k1 OR k0 = k1 * 8 + k0" using or_push_bit_nat [of k0 3 k1] assms by simp
  moreover have "push_bit 6 k2 OR (k1 * 8 + k0) = k2 * 64 + (k1 * 8 + k0)"
    using or_push_bit_nat [of "k1 * 8 + k0" 6 k2] assms by simp
  moreover have "push_bit 9 k3 OR (k2 * 64 + (k1 * 8 + k0)) = k3 * 512 + (k2 * 64 + (k1 * 8 + k0))"
    using or_push_bit_nat [of "k2 * 64 + (k1 * 8 + k0)" 9 k3] assms by simp
  moreover have "push_bit 12 k4 OR (k3 * 512 + (k2 * 64 + (k1 * 8 + k0))) =
      k4 * 4096 + (k3 * 512 + (k2 * 64 + (k1 * 8 + k0)))"
    using or_push_bit_nat [of "k3 * 512 + (k2 * 64 + (k1 * 8 + k0))" 12 k4] assms by simp
  ultimately show ?thesis by simp
qed

lemma pack_bound: "\<forall>k\<in>set ks. k < 2 ^ b \<Longrightarrow> pack b ks < 2 ^ (b * length ks)"
proof (induction ks)
  case (Cons k ks)
  then have "pack b ks + 1 \<le> 2 ^ (b * length ks)" "k < 2 ^ b" by simp_all
  then have "2 ^ b * (pack b ks + 1) \<le> 2 ^ b * 2 ^ (b * length ks)" by (intro mult_le_mono2)
  with \<open>k < 2 ^ b\<close> show ?case by (simp add: power_add distrib_left)
qed simp

lemma pack_nth:
  "\<forall>k\<in>set ks. k < 2 ^ b \<Longrightarrow> i < length ks \<Longrightarrow> drop_bit (b * i) (pack b ks) mod 2 ^ b = ks ! i"
proof (induction ks arbitrary: i)
  case (Cons k ks)
  show ?case
  proof (cases i)
    case 0
    then show ?thesis using Cons.prems by simp
  next
    case (Suc j)
    have "pack b (k # ks) div 2 ^ b = pack b ks" using Cons.prems by simp
    then have "pack b (k # ks) div (2 ^ b * 2 ^ (b * j)) = pack b ks div 2 ^ (b * j)"
      by (simp only: div_mult2_eq)
    then show ?thesis using Cons Suc by (simp add: drop_bit_eq_div power_add)
  qed
qed simp

lemma and_3_mod: "x AND 3 = x mod (4::nat)"
  using take_bit_eq_mask [of 2 x] by (simp add: take_bit_eq_mod mask_eq_exp_minus_1)

lemma and_7_mod: "x AND 7 = x mod (8::nat)"
  using take_bit_eq_mask [of 3 x] by (simp add: take_bit_eq_mod mask_eq_exp_minus_1)

lemma bkey32_lt: "bkey32 i x < 4"
  by (simp add: bkey32_def and_3_mod)

lemma bkey64_lt: "bkey64 i x < 8"
  by (simp add: bkey64_def and_7_mod)

lemma bkey32_pack: "\<forall>k\<in>set ks. k < 4 \<Longrightarrow> i < length ks \<Longrightarrow> bkey32 i (pack 2 ks) = ks ! i"
  using pack_nth [of ks 2 i] by (simp add: bkey32_def and_3_mod)

lemma bkey64_pack: "\<forall>k\<in>set ks. k < 8 \<Longrightarrow> i < length ks \<Longrightarrow> bkey64 i (pack 3 ks) = ks ! i"
  using pack_nth [of ks 3 i] by (simp add: bkey64_def and_7_mod)

lemma value_key_lt: "value_key (x :: u32) < 4" "value_key (y :: u64) < 8"
  using value_key_bound [of 4 x] value_key_bound [of 8 y] by simp_all

section \<open>Groups\<close>

definition group32 :: "u32 list \<Rightarrow> u8 list" where
  "group32 xs = of_nat (pack 2 (map value_key xs)) # payloads xs"

definition group64 :: "u64 list \<Rightarrow> u8 list" where
  "group64 xs = le_bytes (of_nat (pack 3 (map value_key xs)) :: u16) @ payloads xs"

lemma unat_header32: "length xs = 4 \<Longrightarrow> unat (of_nat (pack 2 (map value_key xs)) :: u8) = pack 2 (map value_key xs)"
  for xs :: "u32 list"
  using pack_bound [of "map value_key xs" 2] value_key_lt by (simp add: unat_of_nat_mod)

lemma unat_header64: "length xs = 5 \<Longrightarrow> unat (of_nat (pack 3 (map value_key xs)) :: u16) = pack 3 (map value_key xs)"
  for xs :: "u64 list"
  using pack_bound [of "map value_key xs" 3] value_key_lt by (simp add: unat_of_nat_mod)

lemma length4E:
  assumes "length xs = 4" obtains a b c d where "xs = [a, b, c, d]"
  using assms by (auto simp: length_Suc_conv numeral_eq_Suc)

lemma length5E:
  assumes "length xs = 5" obtains a b c d e where "xs = [a, b, c, d, e]"
  using assms by (auto simp: length_Suc_conv numeral_eq_Suc)

lemma list4_nth: "length l = 4 \<Longrightarrow> l = [l ! 0, l ! 1, l ! 2, l ! 3]"
  by (erule length4E) simp

lemma list5_nth: "length l = 5 \<Longrightarrow> l = [l ! 0, l ! 1, l ! 2, l ! 3, l ! 4]"
  by (erule length5E) simp

lemma encode32_seq:
  "encode32 buf p a b c d =
     andthen (wr buf p (of_nat (pack 2 (map value_key [a, b, c, d])))) (\<lambda>buf.
       store_seq buf (p + 1) [a, b, c, d])"
  using header32_pack [of "value_key a" "value_key b" "value_key c" "value_key d"] value_key_lt
  by (simp add: encode32_def key32_eq Let_def)

lemma encode64_seq:
  "encode64 buf p a b c d e =
     andthen (storeUnaligned buf p (of_nat (pack 3 (map value_key [a, b, c, d, e])) :: u16)) (\<lambda>buf.
       store_seq buf (p + 2) [a, b, c, d, e])"
  using header64_pack [of "value_key a" "value_key b" "value_key c" "value_key d" "value_key e"]
    value_key_lt
  by (simp add: encode64_def key64_eq Let_def)

text \<open>Encoding a group: the buffer before the position is kept, the group is written at the
  position, at most \<open>kMaxSize\<close> bytes are touched.\<close>

lemma encode32_spec:
  assumes "length xs = 4" "length pre = p" "17 \<le> length tail"
  shows "\<exists>tail'. encode32_ptr (pre @ tail) p xs = Inr (pre @ group32 xs @ tail', p + length (group32 xs)) \<and>
    length (group32 xs @ tail') = length tail \<and>
    drop (17 - length (group32 xs)) tail' = drop 17 tail"
proof -
  obtain a b c d where xs: "xs = [a, b, c, d]" using assms(1) by (rule length4E)
  let ?h = "of_nat (pack 2 (map value_key xs)) :: u8"
  obtain t ts where t: "tail = t # ts" using assms(3) by (cases tail) auto
  have "wr (pre @ tail) p ?h = Inr ((pre @ [?h]) @ ts)"
    using assms(2) by (auto simp: t wr_def list_update_append)
  moreover obtain tail' where "store_seq ((pre @ [?h]) @ ts) (p + 1) xs =
      Inr ((pre @ [?h]) @ payloads xs @ tail', p + 1 + length (payloads xs))"
      "length (payloads xs @ tail') = length ts"
      "drop (16 - length (payloads xs)) tail' = drop 16 ts"
    using store_seq_spec [of 4 "pre @ [?h]" "p + 1" xs ts] assms t by auto
  moreover have "encode32_ptr (pre @ tail) p xs =
      andthen (wr (pre @ tail) p ?h) (\<lambda>buf. store_seq buf (p + 1) xs)"
    unfolding xs by (simp add: encode32_ptr_def encode32_seq)
  ultimately show ?thesis by (intro exI [of _ tail']) (simp add: group32_def t)
qed

lemma encode64_spec:
  assumes "length xs = 5" "length pre = p" "42 \<le> length tail"
  shows "\<exists>tail'. encode64_ptr (pre @ tail) p xs = Inr (pre @ group64 xs @ tail', p + length (group64 xs)) \<and>
    length (group64 xs @ tail') = length tail \<and>
    drop (42 - length (group64 xs)) tail' = drop 42 tail"
proof -
  obtain a b c d e where xs: "xs = [a, b, c, d, e]" using assms(1) by (rule length5E)
  let ?h = "of_nat (pack 3 (map value_key xs)) :: u16"
  let ?ts = "drop 2 tail"
  have "8 * length xs \<le> length ?ts" using assms(1,3) by simp
  from store_seq_spec [OF _ _ this, of "pre @ le_bytes ?h" "p + 2"] obtain tail' where
    t: "store_seq ((pre @ le_bytes ?h) @ ?ts) (p + 2) xs =
      Inr ((pre @ le_bytes ?h) @ payloads xs @ tail', p + 2 + length (payloads xs))"
      "length (payloads xs @ tail') = length ?ts"
      "drop (40 - length (payloads xs)) tail' = drop 40 ?ts"
    using assms(1,2) by auto
  have store: "storeUnaligned (pre @ tail) p ?h = Inr ((pre @ le_bytes ?h) @ ?ts)"
    using assms(2,3) by (simp add: storeUnaligned_def)
  moreover have "encode64_ptr (pre @ tail) p xs =
      andthen (storeUnaligned (pre @ tail) p ?h) (\<lambda>buf. store_seq buf (p + 2) xs)"
    unfolding xs by (simp add: encode64_ptr_def encode64_seq)
  ultimately show ?thesis using assms(3) t by (intro exI [of _ tail']) (simp add: group64_def)
qed

lemma length_groupVarintLengths [simp]: "length groupVarintLengths = 256"
  by (simp add: groupVarintLengths_def)

lemma groupVarintLengths_nth:
  assumes "k < 256"
  shows "unat (groupVarintLengths ! k) = 5 + bkey32 0 k + bkey32 1 k + bkey32 2 k + bkey32 3 k"
proof -
  have "1 + get_offset k 4 = 5 + bkey32 0 k + bkey32 1 k + bkey32 2 k + bkey32 3 k"
    by (simp add: get_offset_def get_d_def bkey32_def)
  moreover have "5 + bkey32 0 k + bkey32 1 k + bkey32 2 k + bkey32 3 k < 256" using bkey32_lt [of 0 k] bkey32_lt [of 1 k] bkey32_lt [of 2 k] bkey32_lt [of 3 k]
    by linarith
  moreover have "groupVarintLengths ! k = of_nat (1 + get_offset k 4)"
    using assms by (simp add: groupVarintLengths_def table_length_item_def)
  ultimately show ?thesis by (simp only: unat_of_nat_u8)
qed

lemma load_u8: "p < length buf \<Longrightarrow> (loadUnaligned buf p :: u8 result) = Inr (buf ! p)"
proof -
  assume p: "p < length buf"
  then have "take 1 (drop p buf) = [buf ! p]" by (simp add: take_Suc_conv_app_nth Cons_nth_drop_Suc [symmetric])
  with p show ?thesis by (simp add: loadUnaligned_def)
qed

lemma decode_simple32_spec:
  assumes "p < length buf" "k = unat (buf ! p)" "readable 4 (length buf) (p + 1) ks"
    "ks = [bkey32 0 k, bkey32 1 k, bkey32 2 k, bkey32 3 k]"
  shows "decode_simple32 buf p = Inr (loaded buf (p + 1) ks, p + 1 + (\<Sum>k\<leftarrow>ks. Suc k))"
proof -
  have k: "k < 256" using unsigned_less [of "buf ! p"] assms(2) by simp
  have "andthen (load_seq kMask32 buf (p + 1) ks) (\<lambda>(xs, e). Inr (xs, p + unat (groupVarintLengths ! k))) =
      decode_simple32 buf p"
    using assms(1,2) k
    by (simp add: decode_simple32_def load_u8 Let_def assms(4) andthen_assoc)
  moreover have "load_seq kMask32 buf (p + 1) ks = Inr (loaded buf (p + 1) ks, p + 1 + (\<Sum>k\<leftarrow>ks. Suc k))"
  proof (rule load_seq_spec [where w = 4])
    show "kMask32 ! i = mask (8 * Suc i)" if "i < 4" for i by (rule kMask32_nth [OF that])
  qed (use assms(3,4) bkey32_lt in \<open>auto simp: kMask32_def\<close>)
  moreover have "p + unat (groupVarintLengths ! k) = p + 1 + (\<Sum>k\<leftarrow>ks. Suc k)"
    using groupVarintLengths_nth [OF k] by (simp add: assms(4))
  ultimately show ?thesis by (simp only: andthen_Inr split_conv)
qed

lemma decode64_spec:
  assumes "(loadUnaligned buf p :: u16 result) = Inr h" "k = unat h" "readable 8 (length buf) (p + 2) ks"
    "ks = [bkey64 0 k, bkey64 1 k, bkey64 2 k, bkey64 3 k, bkey64 4 k]"
  shows "decode64 buf p = Inr (loaded buf (p + 2) ks, p + 2 + (\<Sum>k\<leftarrow>ks. Suc k))"
proof -
  have "load_seq kMask64 buf (p + 2) ks = decode64 buf p"
    using assms(1,2) by (simp add: decode64_def Let_def assms(4) andthen_assoc)
  moreover have "load_seq kMask64 buf (p + 2) ks = Inr (loaded buf (p + 2) ks, p + 2 + (\<Sum>k\<leftarrow>ks. Suc k))"
  proof (rule load_seq_spec [where w = 8])
    show "kMask64 ! i = mask (8 * Suc i)" if "i < 8" for i by (rule kMask64_nth [OF that])
  qed (use assms(3,4) bkey64_lt in \<open>auto simp: kMask64_def\<close>)
  ultimately show ?thesis by simp
qed

section \<open>The shuffle\<close>

definition mask_byte :: "nat \<Rightarrow> nat \<Rightarrow> nat \<Rightarrow> u8" where
  "mask_byte d offset k = (if k < d then of_nat (offset + k) else 0xff)"

lemma partial_item_byte:
  assumes "offset \<le> 12" "k < 4"
  shows "partial_item d offset k = push_bit (8 * k) (ucast (mask_byte d offset k))"
proof -
  have *: "(of_nat (push_bit n x) :: u32) = push_bit n (of_nat x)" for n and x :: nat
    by (simp add: push_bit_eq_mult)
  have "(of_nat x :: u32) = ucast (of_nat x :: u8)" if "x < 256" for x
    using that by (simp add: word_unat_eq_iff unat_ucast_mod unat_of_nat_mod)
  from this [of "offset + k"] this [of 255] assms show ?thesis
    by (simp add: partial_item_def mask_byte_def * del: of_nat_add)
qed

lemma item_impl_bytes:
  assumes "offset \<le> 12"
  shows "le_bytes (item_impl d offset) = map (mask_byte d offset) [0, 1, 2, 3]"
proof -
  have "item_impl d offset = of_le_bytes (map (mask_byte d offset) [0, 1, 2, 3])"
    using assms by (simp add: item_impl_def partial_item_byte push_bit_or)
  then have "le_bytes (item_impl d offset) =
      le_bytes (of_le_bytes (map (mask_byte d offset) [0, 1, 2, 3]) :: u32)" by (simp only:)
  also have "\<dots> = map (mask_byte d offset) [0, 1, 2, 3]" by (rule le_bytes_of_le_bytes) simp
  finally show ?thesis .
qed

lemma shuffle_byte:
  assumes "offset \<le> 12" "k < 4" "d \<le> 4"
  shows "(if bit (mask_byte d offset k) 7 then 0 else val ! unat (mask_byte d offset k AND 15)) =
    (if k < d then val ! (offset + k) else 0)"
proof (cases "k < d")
  case True
  let ?b = "of_nat (offset + k) :: u8"
  have u: "unat ?b = offset + k" "offset + k < 16" using assms by (simp_all add: unat_of_nat_mod del: of_nat_add)
  have "\<not> bit (unat ?b) 7" unfolding u using u(2) by (simp add: bit_iff_odd)
  then have "\<not> bit ?b 7" by (simp only: bit_unat) simp
  moreover have "unat (?b AND 15) = offset + k"
  proof -
    have "?b AND 15 = take_bit 4 ?b" by (simp add: take_bit_eq_mask mask_eq_exp_minus_1)
    then show ?thesis using u by (simp add: unat_take_bit)
  qed
  ultimately show ?thesis using True by (simp add: mask_byte_def del: of_nat_add)
qed (simp add: mask_byte_def)

lemma of_le_bytes_replicate_0 [simp]: "of_le_bytes (replicate n 0) = 0"
  by (induction n) simp_all

lemma shuffle_item:
  assumes "d \<le> 4" "offset \<le> 12" "length val = 16"
  shows "of_le_bytes (mm_shuffle_epi8 val (le_bytes (item_impl d offset))) =
    (of_le_bytes (take d (drop offset val)) :: u32)"
proof -
  have "mm_shuffle_epi8 val (le_bytes (item_impl d offset)) =
      map (\<lambda>k. if k < d then val ! (offset + k) else 0) [0, 1, 2, 3]"
    using assms shuffle_byte [OF assms(2) _ assms(1), of _ val]
    by (simp add: item_impl_bytes mm_shuffle_epi8_def)
  also have "\<dots> = take d (drop offset val) @ replicate (4 - d) 0"
  proof -
    have "[0, 1, 2, 3] = [0..<4::nat]" by (simp add: upt_rec numeral_eq_Suc)
    moreover have "length (take d (drop offset val)) = d" using assms by simp
    ultimately show ?thesis using assms by (intro nth_equalityI) (auto simp: nth_append)
  qed
  finally show ?thesis by (simp add: of_le_bytes_append)
qed

lemma decode_sse32_spec:
  assumes "p + 17 \<le> length buf" "k = unat (buf ! p)"
    "ks = [bkey32 0 k, bkey32 1 k, bkey32 2 k, bkey32 3 k]"
  shows "decode_sse32 buf p = Inr (loaded buf (p + 1) ks, p + 1 + (\<Sum>k\<leftarrow>ks. Suc k))"
proof -
  have k: "k < 256" using unsigned_less [of "buf ! p"] assms(2) by simp
  let ?val = "take 16 (drop (p + 1) buf)"
  have len: "length ?val = 16" using assms(1) by simp
  let ?d = "\<lambda>j. get_d k j" and ?o = "\<lambda>j. get_offset k j"
  have d: "?d j = Suc (bkey32 j k)" for j by (simp add: get_d_def bkey32_def)
  have o: "?o 0 = 0" "?o 1 = ?d 0" "?o 2 = ?d 0 + ?d 1" "?o 3 = ?d 0 + ?d 1 + ?d 2"
    by (simp_all add: get_offset_def)
  have dle: "?d j \<le> 4" for j using bkey32_lt [of j k] by (simp add: d)
  have ole: "?o j \<le> 12" if "j < 4" for j
    using that dle [of 0] dle [of 1] dle [of 2] by (auto simp: get_offset_def)
  define r where "r j = mm_shuffle_epi8 ?val (le_bytes (item_impl (?d j) (?o j)))" for j
  have lr: "length (r j) = 4" for j by (simp add: r_def mm_shuffle_epi8_def)
  have val: "of_le_bytes (r j) = (of_le_bytes (take (?d j) (drop (p + 1 + ?o j) buf)) :: u32)" if "j < 4" for j
  proof -
    have "?o j + ?d j \<le> 16" using ole [OF that] dle [of j] by linarith
    then have "take (?d j) (drop (?o j) ?val) = take (?d j) (drop (p + 1 + ?o j) buf)"
      by (simp add: drop_take min_absorb1 add.commute)
    then show ?thesis unfolding r_def using shuffle_item [OF dle [of j] ole [OF that] len] by simp
  qed
  have shuf: "mm_shuffle_epi8 ?val (concat (map le_bytes (groupVarintSSEMasks ! k))) =
      r 0 @ r 1 @ r 2 @ r 3"
    using k by (simp add: groupVarintSSEMasks_def table_sse_mask_item_def r_def mm_shuffle_epi8_def)
  have "decode_sse32 buf p = Inr (map (\<lambda>i. of_le_bytes (take 4 (drop (4 * i) (r 0 @ r 1 @ r 2 @ r 3)))) [0, 1, 2, 3],
      p + unat (groupVarintLengths ! k))"
    using assms(1,2) k shuf
    by (simp add: decode_sse32_def mm_loadu_si128_def Let_def groupVarintSSEMasks_def)
  also have "\<dots> = Inr (map (\<lambda>j. of_le_bytes (r j)) [0, 1, 2, 3], p + unat (groupVarintLengths ! k))"
    by (simp add: lr)
  also have "map (\<lambda>j. of_le_bytes (r j)) [0, 1, 2, 3] = (loaded buf (p + 1) ks :: u32 list)"
    using val [of 0] val [of 1] val [of 2] val [of 3] unfolding assms(3) o by (simp add: d add.assoc)
  also have "p + unat (groupVarintLengths ! k) = p + 1 + (\<Sum>k\<leftarrow>ks. Suc k)"
    using groupVarintLengths_nth [OF k] by (simp add: assms(3))
  finally show ?thesis .
qed

section \<open>The laws of a group\<close>

lemma load_u16_header:
  "take 2 (drop p buf) = le_bytes (h :: u16) \<Longrightarrow> loadUnaligned buf p = Inr h"
proof -
  assume a: "take 2 (drop p buf) = le_bytes h"
  from arg_cong [OF this, of length] have "p + 2 \<le> length buf" by (simp add: min_def split: if_splits)
  with a show ?thesis using of_le_bytes_le_bytes [of h] by (simp add: loadUnaligned_def)
qed

lemma take_header_split:
  "take (length h + n) ys = h @ zs \<Longrightarrow> length zs = n \<Longrightarrow>
   take (length h) ys = h \<and> take n (drop (length h) ys) = zs"
  using take_append_split [of h zs ys] by auto

lemma map_value_key_take:
  "xs = ys @ zs \<Longrightarrow> map value_key xs = map value_key ys @ map value_key zs"
  by simp

lemma decode32_prefix_readable:
  assumes "length xs = 4" "xs = ys @ zs" "p < length buf"
    "readable 4 (length buf) (p + 1) (map value_key xs)" "sse \<Longrightarrow> p + 17 \<le> length buf"
    "take (1 + length (payloads ys)) (drop p buf) = of_nat (pack 2 (map value_key xs)) # payloads ys"
  shows "\<exists>vs. decode32 sse buf p = Inr (ys @ vs, p + length (group32 xs)) \<and> length vs = length zs"
proof -
  let ?h = "of_nat (pack 2 (map value_key xs)) :: u8" and ?ks = "map value_key xs"
  define k where "k = unat (buf ! p)"
  have split: "take 1 (drop p buf) = [?h]" "take (length (payloads ys)) (drop (p + 1) buf) = payloads ys"
    using take_header_split [of "[?h]" "length (payloads ys)" "drop p buf" "payloads ys"] assms(6)
    by (simp_all add: add.commute)
  have "buf ! p = ?h"
    using split(1) assms(3) by (simp add: take_Suc_conv_app_nth)
  then have k: "k = pack 2 ?ks" using unat_header32 [OF assms(1)] by (simp add: k_def)
  have lt: "\<forall>k\<in>set ?ks. k < 4" using value_key_lt by auto
  have ks: "?ks = [bkey32 0 k, bkey32 1 k, bkey32 2 k, bkey32 3 k]"
  proof -
    have nth: "?ks ! i = bkey32 i k" if "i < 4" for i
      using bkey32_pack [OF lt, of i] that assms(1) k by simp
    have "?ks = [?ks ! 0, ?ks ! 1, ?ks ! 2, ?ks ! 3]" by (rule list4_nth) (simp add: assms(1))
    then show ?thesis using nth [of 0] nth [of 1] nth [of 2] nth [of 3] by simp
  qed
  have "decode32 sse buf p = Inr (loaded buf (p + 1) ?ks, p + 1 + (\<Sum>k\<leftarrow>?ks. Suc k))"
    using decode_simple32_spec [OF assms(3) k_def assms(4) ks] decode_sse32_spec [OF _ k_def ks] assms(5)
    by (simp add: decode32_def)
  moreover have "loaded buf (p + 1) ?ks = ys @ loaded buf (p + 1 + length (payloads ys)) (map value_key zs)"
    using loaded_payloads [of 4 ys "p + 1" buf "map value_key zs"] split(2) assms(2) by simp
  moreover have "p + 1 + (\<Sum>k\<leftarrow>?ks. Suc k) = p + length (group32 xs)"
    using length_payloads [of 4 xs] by (simp add: group32_def o_def)
  moreover have "length (loaded b q js :: u32 list) = length js" for b q js
    by (induction js arbitrary: q) simp_all
  ultimately show ?thesis by auto
qed

lemma decode32_prefix:
  assumes "length xs = 4" "xs = ys @ zs" "p + 17 \<le> length buf"
    "take (1 + length (payloads ys)) (drop p buf) = of_nat (pack 2 (map value_key xs)) # payloads ys"
  shows "\<exists>vs. decode32 sse buf p = Inr (ys @ vs, p + length (group32 xs)) \<and> length vs = length zs"
proof (rule decode32_prefix_readable [OF assms(1,2) _ _ _ assms(4)])
  show "readable 4 (length buf) (p + 1) (map value_key xs)"
    using assms(1,3) value_key_lt(1) by (intro readable_max) auto
qed (use assms(3) in simp_all)

text \<open>Decoding a whole group without SSSE3 needs three bytes behind it.\<close>

lemma decode_simple32_group:
  assumes "length xs = 4" "3 \<le> length rest"
  shows "decode_simple32 (pre @ group32 xs @ rest) (length pre) =
    Inr (xs, length pre + length (group32 xs))"
proof -
  let ?buf = "pre @ group32 xs @ rest"
  have len: "length (payloads xs) = (\<Sum>k\<leftarrow>map value_key xs. Suc k)"
    using length_payloads [of 4 xs] by (simp add: o_def)
  have "\<exists>vs. decode32 False ?buf (length pre) = Inr (xs @ vs, length pre + length (group32 xs)) \<and>
      length vs = length ([] :: u32 list)"
  proof (rule decode32_prefix_readable [OF assms(1)])
    show "readable 4 (length ?buf) (length pre + 1) (map value_key xs)"
      using assms(2) value_key_lt(1) len by (intro readable_slack) (auto simp: group32_def)
  qed (simp_all add: group32_def)
  then show ?thesis by (simp add: decode32_def)
qed

lemma decode64_prefix:
  assumes "length xs = 5" "xs = ys @ zs" "p + 42 \<le> length buf"
    "take (2 + length (payloads ys)) (drop p buf) =
       le_bytes (of_nat (pack 3 (map value_key xs)) :: u16) @ payloads ys"
  shows "\<exists>vs. decode64 buf p = Inr (ys @ vs, p + length (group64 xs)) \<and> length vs = length zs"
proof -
  let ?h = "of_nat (pack 3 (map value_key xs)) :: u16" and ?ks = "map value_key xs"
  define k where "k = unat ?h"
  have split: "take 2 (drop p buf) = le_bytes ?h" "take (length (payloads ys)) (drop (p + 2) buf) = payloads ys"
    using take_header_split [of "le_bytes ?h" "length (payloads ys)" "drop p buf" "payloads ys"] assms(4)
    by (simp_all add: add.commute)
  have load: "loadUnaligned buf p = Inr ?h" by (rule load_u16_header [OF split(1)])
  have k: "k = pack 3 ?ks" using unat_header64 [OF assms(1)] by (simp add: k_def)
  have lt: "\<forall>k\<in>set ?ks. k < 8" using value_key_lt by auto
  have ks: "?ks = [bkey64 0 k, bkey64 1 k, bkey64 2 k, bkey64 3 k, bkey64 4 k]"
  proof -
    have nth: "?ks ! i = bkey64 i k" if "i < 5" for i
      using bkey64_pack [OF lt, of i] that assms(1) k by simp
    have "?ks = [?ks ! 0, ?ks ! 1, ?ks ! 2, ?ks ! 3, ?ks ! 4]" by (rule list5_nth) (simp add: assms(1))
    then show ?thesis using nth [of 0] nth [of 1] nth [of 2] nth [of 3] nth [of 4] by simp
  qed
  have "readable 8 (length buf) (p + 2) ?ks" using assms(1,3) lt by (intro readable_max) auto
  then have "decode64 buf p = Inr (loaded buf (p + 2) ?ks, p + 2 + (\<Sum>k\<leftarrow>?ks. Suc k))"
    using decode64_spec [OF load k_def _ ks] ks by simp
  moreover have "loaded buf (p + 2) ?ks = ys @ loaded buf (p + 2 + length (payloads ys)) (map value_key zs)"
    using loaded_payloads [of 8 ys "p + 2" buf "map value_key zs"] split(2) assms(2) by simp
  moreover have "p + 2 + (\<Sum>k\<leftarrow>?ks. Suc k) = p + length (group64 xs)"
    using length_payloads [of 8 xs] by (simp add: group64_def o_def)
  moreover have "length (loaded b q js :: u64 list) = length js" for b q js
    by (induction js arbitrary: q) simp_all
  ultimately show ?thesis by auto
qed

end
