(* ===== verification/Folly_GroupVarint_Stream.thy ===== *)
theory Folly_GroupVarint_Stream
  imports Folly_GroupVarint_Correct
begin

text \<open>
  The streaming classes \<open>GroupVarintEncoder\<close> and \<open>GroupVarintDecoder\<close> and the size functions.

  \<open>gv_stream\<close> is the byte stream of a list of values: full groups, then the header of the last
  group padded with zeros and the bytes of its values. The locale \<open>group_format\<close> proves, for any
  format that satisfies its laws, that the encoder writes this stream, the decoder reads it back
  one value at a time, and the size functions predict it; the interpretations \<open>gv32\<close> and
  \<open>gv64\<close> are the two formats of the library.
\<close>

section \<open>Sizes of groups\<close>

lemma partialSize_loop_spec:
  "i + count \<le> length p \<Longrightarrow>
   partialSize_loop key p i count s = Inr (s + (\<Sum>x\<leftarrow>take count (drop i p). key x))"
proof (induction count arbitrary: i s)
  case (Suc count)
  then have i: "i < length p" by simp
  then have "drop i p = p ! i # drop (Suc i) p" by (rule Cons_nth_drop_Suc [symmetric])
  moreover have "partialSize_loop key p (i + 1) count (s + key (p ! i)) =
      Inr (s + key (p ! i) + (\<Sum>x\<leftarrow>take count (drop (i + 1) p). key x))"
    using Suc by simp
  ultimately show ?case using i by simp
qed simp

lemma sum_list_Suc: "(\<Sum>x\<leftarrow>xs. Suc (f x)) = length xs + (\<Sum>x\<leftarrow>xs. f x)"
  by (induction xs) simp_all

lemma partialSize32_spec:
  "n \<le> length xs \<Longrightarrow> partialSize32 xs n = Inr (1 + length (payloads (take n xs)))"
  using partialSize_loop_spec [of 0 n xs key32] length_payloads [of 4 "take n xs"]
  by (simp add: partialSize32_def key32_eq sum_list_Suc)

lemma partialSize64_spec:
  "n \<le> length xs \<Longrightarrow> partialSize64 xs n = Inr (2 + length (payloads (take n xs)))"
  using partialSize_loop_spec [of 0 n xs key64] length_payloads [of 8 "take n xs"]
  by (simp add: partialSize64_def key64_eq sum_list_Suc)

lemma size32_ptr_spec: "4 \<le> length xs \<Longrightarrow> size32_ptr xs = Inr (1 + length (payloads (take 4 xs)))"
proof -
  assume len: "4 \<le> length xs"
  then obtain a b c d where x: "take 4 xs = [a, b, c, d]" by (metis length4E length_take min_absorb2)
  have nth: "xs ! i = [a, b, c, d] ! i" if "i < 4" for i using nth_take [OF that, of xs] x by simp
  have "0 < length xs" using len by linarith
  then show ?thesis
    using length_payloads [of 4 "take 4 xs"] len nth [of 0] nth [of 1] nth [of 2] nth [of 3]
    by (simp add: size32_ptr_def size32_def key32_eq x)
qed

lemma size64_ptr_spec: "5 \<le> length xs \<Longrightarrow> size64_ptr xs = Inr (2 + length (payloads (take 5 xs)))"
proof -
  assume len: "5 \<le> length xs"
  then obtain a b c d e where x: "take 5 xs = [a, b, c, d, e]" by (metis length5E length_take min_absorb2)
  have nth: "xs ! i = [a, b, c, d, e] ! i" if "i < 5" for i using nth_take [OF that, of xs] x by simp
  have "0 < length xs" using len by linarith
  then show ?thesis
    using length_payloads [of 8 "take 5 xs"] len nth [of 0] nth [of 1] nth [of 2] nth [of 3] nth [of 4]
    by (simp add: size64_ptr_def size64_def key64_eq x)
qed

lemma partialCount32_spec:
  fixes xs :: "u32 list"
  assumes "length xs = 4" "p < length buf" "buf ! p = of_nat (pack 2 (map value_key xs))" "n \<le> 4"
  shows "partialCount32 buf p (1 + length (payloads (take n xs))) = Inr n"
proof -
  obtain a b c d where xs: "xs = [a, b, c, d]" using assms(1) by (rule length4E)
  let ?v = "pack 2 (map value_key xs)"
  have lt: "\<forall>k\<in>set (map value_key xs). k < 4" using value_key_lt by auto
  have b: "bkey32 i ?v = value_key (xs ! i)" if "i < 4" for i
    using bkey32_pack [OF lt, of i] that assms(1) by simp
  have v: "unat (buf ! p) = ?v" using assms(3) unat_header32 [OF assms(1)] by simp
  have len: "length (payload (value_key x) x) = Suc (value_key x)" for x :: u32
    using length_payload [of 4 x] by simp
  from assms(4) have "n \<in> set [0, 1, 2, 3, 4]" by auto
  then show ?thesis
    using b [of 0] b [of 1] b [of 2] b [of 3] assms(2) v
    by (auto simp: partialCount32_def Let_def xs len)
qed

lemma partialCount64_spec:
  fixes xs :: "u64 list"
  assumes "length xs = 5" "(loadUnaligned buf p :: u16 result) = Inr (of_nat (pack 3 (map value_key xs)))"
    "n \<le> 5"
  shows "partialCount64 buf p (2 + length (payloads (take n xs))) = Inr n"
proof -
  obtain a b c d e where xs: "xs = [a, b, c, d, e]" using assms(1) by (rule length5E)
  let ?v = "pack 3 (map value_key xs)"
  have lt: "\<forall>k\<in>set (map value_key xs). k < 8" using value_key_lt by auto
  have b: "bkey64 i ?v = value_key (xs ! i)" if "i < 5" for i
    using bkey64_pack [OF lt, of i] that assms(1) by simp
  note v = unat_header64 [OF assms(1)]
  have len: "length (payload (value_key x) x) = Suc (value_key x)" for x :: u64
    using length_payload [of 8 x] by simp
  from assms(3) have "n \<in> set [0, 1, 2, 3, 4, 5]" by auto
  then show ?thesis
    using b [of 0] b [of 1] b [of 2] b [of 3] b [of 4] assms(2) v
    by (auto simp: partialCount64_def Let_def xs len)
qed

section \<open>Streams of values\<close>

text \<open>What the streaming classes need of a group format \<open>B\<close>: the bytes \<open>hdr\<close> of the header of a
  full group, the bytes \<open>pay\<close> of one value, and that the static functions write, read and count
  them.\<close>

function gv_stream ::
  "nat \<Rightarrow> ('t::zero list \<Rightarrow> u8 list) \<Rightarrow> ('t \<Rightarrow> u8 list) \<Rightarrow> 't list \<Rightarrow> u8 list" where
  "gv_stream G hdr pay xs =
     (if xs = [] \<or> G = 0 then []
      else if length xs < G
      then hdr (xs @ replicate (G - length xs) 0) @ concat (map pay xs)
      else hdr (take G xs) @ concat (map pay (take G xs)) @ gv_stream G hdr pay (drop G xs))"
  by pat_completeness auto
termination
  by (relation "measure (\<lambda>(G, hdr, pay, xs). length xs)") auto

declare gv_stream.simps [simp del]

text \<open>Repeated calls of \<open>next\<close>, at most \<open>n\<close>, until one returns false.\<close>

fun decoder_drain ::
  "'t group_varint \<Rightarrow> nat \<Rightarrow> 't gv_decoder \<Rightarrow> ('t list \<times> 't gv_decoder) result" where
  "decoder_drain B 0 s = Inr ([], s)"
| "decoder_drain B (Suc n) s =
     andthen (decoder_next B s) (\<lambda>(r, s). case r of None \<Rightarrow> Inr ([], s)
       | Some v \<Rightarrow> andthen (decoder_drain B n s) (\<lambda>(vs, s). Inr (v # vs, s)))"

text \<open>The state of a decoder: values decoded and not yet returned, and the values whose encoding is
  still unread, of which at most \<open>dec_remaining\<close> will be returned.\<close>

definition decoder_view ::
  "'t group_varint \<Rightarrow> ('t list \<Rightarrow> u8 list) \<Rightarrow> 't gv_decoder \<Rightarrow> 't list \<Rightarrow> 't list \<Rightarrow> bool" where
  "decoder_view B stream s pend xs \<longleftrightarrow>
     dec_pos s \<le> dec_count s \<and> dec_count s \<le> length (dec_buf s) \<and>
     take (dec_count s - dec_pos s) (drop (dec_pos s) (dec_buf s)) = pend \<and>
     dec_p s \<le> dec_end s \<and> dec_end s \<le> dec_limit s \<and> dec_limit s = length (dec_mem s) \<and>
     length (dec_tmp s) = 2 * kMaxSize B \<and>
     (dec_remaining s = 0 \<or>
      take (dec_end s - dec_p s) (drop (dec_p s) (dec_mem s)) = stream xs)"

text \<open>The same with a whole group of maximal size readable at the position.\<close>

definition decoder_staged ::
  "'t group_varint \<Rightarrow> ('t list \<Rightarrow> u8 list) \<Rightarrow> 't gv_decoder \<Rightarrow> 't list \<Rightarrow> bool" where
  "decoder_staged B stream t xs \<longleftrightarrow>
     dec_p t + kMaxSize B \<le> length (dec_mem t) \<and>
     dec_p t \<le> dec_end t \<and> dec_end t \<le> dec_limit t \<and> dec_limit t = length (dec_mem t) \<and>
     length (dec_tmp t) = 2 * kMaxSize B \<and>
     take (dec_end t - dec_p t) (drop (dec_p t) (dec_mem t)) = stream xs"

definition encoder_ok :: "'t group_varint \<Rightarrow> 't gv_encoder \<Rightarrow> bool" where
  "encoder_ok B s \<longleftrightarrow> length (enc_tmp s) = kMaxSize B \<and> length (enc_buf s) = kGroupSize B \<and>
     enc_count s < kGroupSize B"

definition pending :: "'t gv_encoder \<Rightarrow> 't list" where
  "pending s = take (enc_count s) (enc_buf s)"

locale group_format =
  fixes B :: "'t::zero group_varint"
    and hdr :: "'t list \<Rightarrow> u8 list"
    and pay :: "'t \<Rightarrow> u8 list"
  assumes group_pos: "0 < kGroupSize B"
    and length_hdr: "length xs = kGroupSize B \<Longrightarrow> length (hdr xs) = kHeaderSize B"
    and length_pay: "0 < length (pay x)" "length (pay x) \<le> type_size B"
    and size_law: "kGroupSize B \<le> length xs \<Longrightarrow>
      gv_size B xs = Inr (kHeaderSize B + length (concat (map pay (take (kGroupSize B) xs))))"
    and partialSize_law: "n \<le> length xs \<Longrightarrow>
      gv_partialSize B xs n = Inr (kHeaderSize B + length (concat (map pay (take n xs))))"
    and partialCount_law: "length xs = kGroupSize B \<Longrightarrow> n \<le> kGroupSize B \<Longrightarrow>
      take (kHeaderSize B) (drop p buf) = hdr xs \<Longrightarrow>
      gv_partialCount B buf p (kHeaderSize B + length (concat (map pay (take n xs)))) = Inr n"
    and encode_law: "length xs = kGroupSize B \<Longrightarrow> length tmp = kMaxSize B \<Longrightarrow>
      \<exists>tail. gv_encode B tmp 0 xs =
          Inr (hdr xs @ concat (map pay xs) @ tail, length (hdr xs @ concat (map pay xs))) \<and>
        length (hdr xs @ concat (map pay xs) @ tail) = kMaxSize B"
    and decode_law: "length (ys @ zs) = kGroupSize B \<Longrightarrow> p + kMaxSize B \<le> length buf \<Longrightarrow>
      take (kHeaderSize B + length (concat (map pay ys))) (drop p buf) =
        hdr (ys @ zs) @ concat (map pay ys) \<Longrightarrow>
      \<exists>vs. gv_decode B buf p =
          Inr (ys @ vs, p + kHeaderSize B + length (concat (map pay (ys @ zs)))) \<and>
        length vs = length zs"
begin

abbreviation pays :: "'t list \<Rightarrow> u8 list" where
  "pays xs \<equiv> concat (map pay xs)"

abbreviation stream :: "'t list \<Rightarrow> u8 list" where
  "stream \<equiv> gv_stream (kGroupSize B) hdr pay"

lemma stream_Nil [simp]: "stream [] = []"
  by (simp add: gv_stream.simps)

lemma stream_partial:
  "xs \<noteq> [] \<Longrightarrow> length xs < kGroupSize B \<Longrightarrow>
   stream xs = hdr (xs @ replicate (kGroupSize B - length xs) 0) @ pays xs"
  using group_pos by (subst gv_stream.simps) simp

lemma stream_full:
  "length g = kGroupSize B \<Longrightarrow> stream (g @ xs) = hdr g @ pays g @ stream xs"
  using group_pos by (subst gv_stream.simps) auto

lemma length_pays_le: "length (pays xs) \<le> type_size B * length xs"
proof (induction xs)
  case (Cons x xs)
  then show ?case using length_pay(2) [of x] by simp
qed simp

lemma length_pays_pos: "xs \<noteq> [] \<Longrightarrow> 0 < length (pays xs)"
  using length_pay(1) by (cases xs) auto

lemma stream_eq_Nil: "stream xs = [] \<longleftrightarrow> xs = []"
proof
  assume e: "stream xs = []"
  show "xs = []"
  proof (rule ccontr)
    assume ne: "xs \<noteq> []"
    show False
    proof (cases "length xs < kGroupSize B")
      case True
      then show ?thesis using e stream_partial [OF ne True] length_pays_pos [OF ne] by simp
    next
      case False
      let ?g = "take (kGroupSize B) xs"
      have "?g \<noteq> []" using ne group_pos by simp
      then show ?thesis using e stream_full [of ?g "drop (kGroupSize B) xs"] False length_pays_pos [of ?g] by simp
    qed
  qed
qed simp

subsection \<open>Encoder\<close>

lemma encoder_add_ok:
  assumes "encoder_ok B s"
  shows "\<exists>s'. encoder_add B s v = Inr s' \<and> encoder_ok B s' \<and>
    (\<forall>xs. enc_out s' @ stream (pending s' @ xs) = enc_out s @ stream (pending s @ v # xs))"
proof -
  let ?buf = "(enc_buf s)[enc_count s := v]"
  have c: "enc_count s < length (enc_buf s)" using assms by (simp add: encoder_ok_def)
  have take_buf: "take (Suc (enc_count s)) ?buf = pending s @ [v]"
    using c by (simp add: pending_def take_Suc_conv_app_nth)
  show ?thesis
  proof (cases "enc_count s + 1 = kGroupSize B")
    case True
    have len: "length ?buf = kGroupSize B" using assms by (simp add: encoder_ok_def)
    with take_buf True have "?buf = pending s @ [v]" by simp
    note buf = this len
    obtain tail where e: "gv_encode B (enc_tmp s) 0 ?buf =
        Inr (hdr ?buf @ pays ?buf @ tail, length (hdr ?buf @ pays ?buf))"
        "length (hdr ?buf @ pays ?buf @ tail) = kMaxSize B"
      using encode_law [OF buf(2), of "enc_tmp s"] assms by (auto simp: encoder_ok_def)
    let ?s = "s\<lparr>enc_buf := ?buf, enc_count := 0, enc_tmp := hdr ?buf @ pays ?buf @ tail,
        enc_out := enc_out s @ hdr ?buf @ pays ?buf\<rparr>"
    have "encoder_add B s v = Inr ?s"
      using c True e(1) by (simp add: encoder_add_def Let_def)
    moreover have "encoder_ok B ?s" using e(2) buf(2) group_pos by (simp add: encoder_ok_def)
    moreover have "enc_out ?s @ stream (pending ?s @ xs) = enc_out s @ stream (pending s @ v # xs)" for xs
      using stream_full [OF buf(2), of xs] buf(1) by (simp add: pending_def)
    ultimately show ?thesis by blast
  next
    case False
    let ?s = "s\<lparr>enc_buf := ?buf, enc_count := enc_count s + 1\<rparr>"
    have "encoder_add B s v = Inr ?s" using c False by (simp add: encoder_add_def Let_def)
    moreover have "encoder_ok B ?s" using assms False by (simp add: encoder_ok_def)
    moreover have "pending ?s = pending s @ [v]" using take_buf by (simp add: pending_def)
    ultimately show ?thesis by auto
  qed
qed

lemma encoder_adds_ok:
  "encoder_ok B s \<Longrightarrow> \<exists>s'. run_ops (\<lambda>v s. encoder_add B s v) vs s = Inr s' \<and> encoder_ok B s' \<and>
    enc_out s' @ stream (pending s') = enc_out s @ stream (pending s @ vs)"
proof (induction vs arbitrary: s)
  case (Cons v vs)
  obtain s1 where s1: "encoder_add B s v = Inr s1" "encoder_ok B s1"
    "\<And>xs. enc_out s1 @ stream (pending s1 @ xs) = enc_out s @ stream (pending s @ v # xs)"
    using encoder_add_ok [OF Cons.prems, of v] by blast
  with Cons.IH [OF s1(2)] show ?case by auto
qed simp

lemma clear_tail_spec:
  "i + n \<le> length buf \<Longrightarrow> clear_tail buf i n = Inr (take i buf @ replicate n 0 @ drop (i + n) buf)"
  for buf :: "'t list"
proof (induction n arbitrary: buf i)
  case (Suc n)
  have "take (Suc i) (buf[i := 0]) = take i buf @ [0]"
    using Suc.prems by (simp add: take_Suc_conv_app_nth)
  with Suc show ?case by simp
qed simp

lemma encoder_finish_ok:
  assumes "encoder_ok B s"
  shows "\<exists>s'. encoder_finish B s = Inr s' \<and> encoder_ok B s' \<and> enc_count s' = 0 \<and>
    enc_out s' = enc_out s @ stream (pending s)"
proof (cases "enc_count s = 0")
  case True
  then show ?thesis using assms by (simp add: encoder_finish_def pending_def)
next
  case False
  let ?n = "kGroupSize B - enc_count s"
  let ?buf = "pending s @ replicate ?n 0"
  have c: "enc_count s < kGroupSize B" "length (enc_buf s) = kGroupSize B"
    using assms by (simp_all add: encoder_ok_def)
  then have clear: "clear_tail (enc_buf s) (enc_count s) ?n = Inr ?buf"
    by (subst clear_tail_spec) (simp_all add: pending_def)
  have len: "length (pending s) = enc_count s" "length ?buf = kGroupSize B"
    using c by (simp_all add: pending_def)
  obtain tail where e: "gv_encode B (enc_tmp s) 0 ?buf =
      Inr (hdr ?buf @ pays ?buf @ tail, length (hdr ?buf @ pays ?buf))"
      "length (hdr ?buf @ pays ?buf @ tail) = kMaxSize B"
    using encode_law [OF len(2), of "enc_tmp s"] assms by (auto simp: encoder_ok_def)
  let ?tmp = "hdr ?buf @ pays ?buf @ tail"
  have n: "gv_partialSize B ?buf (enc_count s) = Inr (length (hdr ?buf) + length (pays (pending s)))"
    using partialSize_law [of "enc_count s" ?buf] len length_hdr [OF len(2)] c by simp
  have "take (length (hdr ?buf) + length (pays (pending s))) ?tmp = hdr ?buf @ pays (pending s)"
    by simp
  moreover have "stream (pending s) = hdr ?buf @ pays (pending s)"
    using stream_partial [of "pending s"] len False c by fastforce
  ultimately have out: "take (length (hdr ?buf) + length (pays (pending s))) ?tmp = stream (pending s)"
    by simp
  let ?s = "s\<lparr>enc_buf := ?buf, enc_tmp := ?tmp, enc_out := enc_out s @ stream (pending s), enc_count := 0\<rparr>"
  have "encoder_finish B s = Inr ?s"
    using False clear e(1) n out by (simp add: encoder_finish_def)
  moreover have "encoder_ok B ?s" using e(2) len(2) group_pos by (simp add: encoder_ok_def)
  ultimately show ?thesis by (intro exI [of _ ?s]) simp
qed

lemma encoder_stream:
  assumes "length tmp = kMaxSize B" "length buf = kGroupSize B"
  shows "\<exists>s. andthen (run_ops (\<lambda>v s. encoder_add B s v) xs (encoder_init tmp buf out)) (encoder_finish B) =
    Inr s \<and> enc_out s = out @ stream xs \<and> enc_count s = 0"
proof -
  have "encoder_ok B (encoder_init tmp buf out)"
    using assms group_pos by (simp add: encoder_ok_def encoder_init_def)
  then obtain s where s: "run_ops (\<lambda>v s. encoder_add B s v) xs (encoder_init tmp buf out) = Inr s"
    "encoder_ok B s" "enc_out s @ stream (pending s) = out @ stream xs"
    using encoder_adds_ok [of "encoder_init tmp buf out" xs] by (auto simp: encoder_init_def pending_def)
  then show ?thesis using encoder_finish_ok [OF s(2)] by auto
qed

subsection \<open>Decoder\<close>

text \<open>After staging, a whole group of maximal size is readable at the position.\<close>

lemma decoder_stage_ok:
  assumes "decoder_view B stream s pend xs" "dec_remaining s \<noteq> 0"
  shows "\<exists>t. decoder_stage B s = Inr t \<and> decoder_staged B stream t xs \<and>
    dec_remaining t = dec_remaining s"
proof (cases "dec_limit s - dec_p s < kMaxSize B")
  case True
  let ?rem = "dec_end s - dec_p s"
  let ?tmp = "take ?rem (drop (dec_p s) (dec_mem s)) @ drop ?rem (dec_tmp s)"
  have v: "dec_p s \<le> dec_end s" "dec_end s \<le> dec_limit s" "dec_limit s = length (dec_mem s)"
    "length (dec_tmp s) = 2 * kMaxSize B"
    "take ?rem (drop (dec_p s) (dec_mem s)) = stream xs"
    using assms by (auto simp: decoder_view_def)
  have rem: "?rem \<le> length (dec_tmp s)" "?rem < kMaxSize B" using True v by linarith+
  have lt: "length (take ?rem (drop (dec_p s) (dec_mem s))) = ?rem" using v(1-3) by simp
  let ?t = "s\<lparr>dec_tmp := ?tmp, dec_mem := ?tmp, dec_p := 0, dec_end := ?rem, dec_limit := length ?tmp\<rparr>"
  have "decoder_stage B s = Inr ?t"
    using True rem by (simp add: decoder_stage_def Let_def)
  moreover have "length ?tmp = 2 * kMaxSize B" using lt rem v(4) by simp
  ultimately show ?thesis using rem v(5) lt by (intro exI [of _ ?t]) (auto simp: decoder_staged_def)
next
  case False
  then show ?thesis using assms
    by (intro exI [of _ s]) (auto simp: decoder_stage_def decoder_view_def decoder_staged_def)
qed

lemma staged_length:
  "decoder_staged B stream t xs \<Longrightarrow> dec_end t - dec_p t = length (stream xs)"
  unfolding decoder_staged_def by (metis diff_le_mono le_trans length_drop length_take min_absorb2)

lemma length_pays_take: "length (pays (take n xs)) \<le> length (pays xs)"
  by (metis append_take_drop_id concat_append le_add1 length_append map_append)

lemma staged_prefix:
  assumes "decoder_staged B stream t xs" "stream xs = ys @ zs"
  shows "take (length ys) (drop (dec_p t) (dec_mem t)) = ys"
    "take (dec_end t - (dec_p t + length ys)) (drop (dec_p t + length ys) (dec_mem t)) = zs"
    "dec_p t + length ys \<le> dec_end t"
proof -
  let ?m = "drop (dec_p t) (dec_mem t)" and ?n = "dec_end t - dec_p t"
  have m: "take ?n ?m = ys @ zs" using assms by (simp add: decoder_staged_def)
  have n: "?n = length ys + length zs" using staged_length [OF assms(1)] assms(2) by simp
  show "take (length ys) ?m = ys" using take_append_split(1) [of ys zs ?m] m n by simp
  show "take (dec_end t - (dec_p t + length ys)) (drop (dec_p t + length ys) (dec_mem t)) = zs"
  proof -
    have "dec_end t - (dec_p t + length ys) = length zs" using n by linarith
    then show ?thesis using take_append_split(2) [of ys zs ?m] m n by (simp add: add.commute)
  qed
  show "dec_p t + length ys \<le> dec_end t" using n assms(1) unfolding decoder_staged_def by linarith
qed

text \<open>A refill decodes the next values: a full group, or the rest of the stream.\<close>

lemma refill_full:
  assumes "decoder_stage B s = Inr t" "decoder_staged B stream t (g @ ys)" "length g = kGroupSize B"
    "dec_remaining t \<noteq> 0"
  shows "\<exists>t' zs. decoder_refill B s = Inr (True, t') \<and>
    decoder_view B stream t' (take (dec_remaining t) g) zs \<and>
    take (dec_remaining t') zs = take (dec_remaining t - kGroupSize B) ys"
proof -
  let ?n = "length (hdr g @ pays g)"
  note st = stream_full [OF assms(3), of ys]
  have hl: "length (hdr g) = kHeaderSize B" by (rule length_hdr [OF assms(3)])
  note pre = staged_prefix [OF assms(2), of "hdr g @ pays g" "stream ys"]
  have dec: "gv_decode B (dec_mem t) (dec_p t) = Inr (g, dec_p t + ?n)"
    using decode_law [of g "[]" "dec_p t" "dec_mem t"] assms(2,3) pre(1) st hl
    by (auto simp: add.assoc decoder_staged_def)
  have n: "dec_p t + ?n \<le> dec_end t" using pre(3) st by simp
  show ?thesis
  proof (cases "kGroupSize B \<le> dec_remaining t")
    case True
    let ?t = "t\<lparr>dec_pos := 0, dec_buf := g, dec_remaining := dec_remaining t - kGroupSize B,
        dec_count := kGroupSize B, dec_p := dec_p t + ?n\<rparr>"
    have "decoder_refill B s = Inr (True, ?t)"
      using assms(1) dec n True by (simp add: decoder_refill_def Let_def)
    moreover have "decoder_view B stream ?t g ys"
      using assms(2,3) n pre(2) st by (auto simp: decoder_view_def decoder_staged_def)
    ultimately show ?thesis using True assms(3) by (intro exI [of _ ?t] exI [of _ ys]) simp
  next
    case False
    let ?c = "dec_remaining t"
    let ?k = "kHeaderSize B + length (pays (take ?c g))"
    have ps: "gv_partialSize B g ?c = Inr ?k" using partialSize_law [of ?c g] False assms(3) by simp
    let ?t = "t\<lparr>dec_pos := 0, dec_buf := g, dec_count := ?c, dec_remaining := 0, dec_p := dec_p t + ?k\<rparr>"
    have "decoder_refill B s = Inr (True, ?t)"
      using assms(1) dec n False ps by (simp add: decoder_refill_def Let_def)
    moreover have "decoder_view B stream ?t (take ?c g) []"
      using assms(2,3) n False length_pays_take [of ?c g] hl
      by (auto simp: decoder_view_def decoder_staged_def)
    ultimately show ?thesis using False by (intro exI [of _ ?t] exI [of _ "[]"]) simp
  qed
qed

lemma refill_last:
  assumes "decoder_stage B s = Inr t" "decoder_staged B stream t xs" "length xs < kGroupSize B"
    "xs \<noteq> []" "dec_remaining t \<noteq> 0"
  shows "\<exists>t'. decoder_refill B s = Inr (True, t') \<and>
    decoder_view B stream t' (take (dec_remaining t) xs) []"
proof -
  let ?H = "kHeaderSize B" and ?zs = "replicate (kGroupSize B - length xs) 0 :: 't list"
  let ?c = "dec_remaining t" and ?sz = "dec_end t - dec_p t"
  have g: "length (xs @ ?zs) = kGroupSize B" using assms(3) by simp
  have st: "stream xs = hdr (xs @ ?zs) @ pays xs" by (rule stream_partial [OF assms(4,3)])
  have hl: "length (hdr (xs @ ?zs)) = ?H" by (rule length_hdr [OF g])
  have sz: "?sz = ?H + length (pays xs)" using staged_length [OF assms(2)] hl by (simp add: st)
  have pre: "take (?H + length (pays xs)) (drop (dec_p t) (dec_mem t)) = hdr (xs @ ?zs) @ pays xs"
    using staged_prefix(1) [OF assms(2), of "hdr (xs @ ?zs) @ pays xs" "[]"] hl by (simp add: st)
  obtain vs where dec: "gv_decode B (dec_mem t) (dec_p t) =
      Inr (xs @ vs, dec_p t + ?H + length (pays (xs @ ?zs)))"
    using decode_law [OF g _ pre] assms(2) by (auto simp: decoder_staged_def)
  have "0 < length (pays ?zs)" by (rule length_pays_pos) (use assms(3) in simp)
  then have n: "\<not> dec_p t + ?H + length (pays (xs @ ?zs)) \<le> dec_end t"
    using sz by (simp only: map_append concat_append length_append)
  have "take ?H (drop (dec_p t) (dec_mem t)) = hdr (xs @ ?zs)"
    using staged_prefix(1) [OF assms(2) st] hl by simp
  then have pc: "gv_partialCount B (dec_mem t) (dec_p t) ?sz = Inr (length xs)"
    using partialCount_law [OF g, of "length xs"] assms(3) sz by simp
  show ?thesis
  proof (cases "length xs \<le> ?c")
    case True
    let ?t = "t\<lparr>dec_pos := 0, dec_buf := xs @ vs, dec_count := length xs,
        dec_remaining := ?c - length xs, dec_p := dec_end t\<rparr>"
    have "decoder_refill B s = Inr (True, ?t)"
      using assms(1,4) dec n pc True by (simp add: decoder_refill_def Let_def)
    moreover have "decoder_view B stream ?t xs []"
      using assms(2) by (auto simp: decoder_view_def decoder_staged_def)
    ultimately show ?thesis using True by (intro exI [of _ ?t]) simp
  next
    case False
    let ?k = "?H + length (pays (take ?c xs))"
    have ps: "gv_partialSize B (xs @ vs) ?c = Inr ?k"
      using partialSize_law [of ?c "xs @ vs"] False by simp
    let ?t = "t\<lparr>dec_pos := 0, dec_buf := xs @ vs, dec_count := ?c, dec_remaining := 0, dec_p := dec_p t + ?k\<rparr>"
    have "decoder_refill B s = Inr (True, ?t)"
      using assms(1,5) dec n pc False ps by (simp add: decoder_refill_def Let_def)
    moreover have "decoder_view B stream ?t (take ?c xs) []"
      using assms(2) sz False length_pays_take [of ?c xs] by (auto simp: decoder_view_def decoder_staged_def)
    ultimately show ?thesis by blast
  qed
qed

lemma decoder_refill_ok:
  assumes "decoder_view B stream s [] xs" "dec_remaining s \<noteq> 0" "xs \<noteq> []"
  shows "\<exists>t g ys. decoder_refill B s = Inr (True, t) \<and> g \<noteq> [] \<and>
    decoder_view B stream t g ys \<and> g @ take (dec_remaining t) ys = take (dec_remaining s) xs"
proof -
  obtain t where t: "decoder_stage B s = Inr t" "decoder_staged B stream t xs"
    "dec_remaining t = dec_remaining s" using decoder_stage_ok [OF assms(1,2)] by blast
  show ?thesis
  proof (cases "length xs < kGroupSize B")
    case True
    obtain t' where "decoder_refill B s = Inr (True, t')"
      "decoder_view B stream t' (take (dec_remaining t) xs) []"
      using refill_last [OF t(1,2) True assms(3)] t(3) assms(2) by auto
    then show ?thesis using t(3) assms(2,3)
      by (intro exI [of _ t'] exI [of _ "take (dec_remaining t) xs"] exI [of _ "[]"]) simp
  next
    case False
    let ?g = "take (kGroupSize B) xs" and ?ys = "drop (kGroupSize B) xs"
    have g: "length ?g = kGroupSize B" using False by simp
    obtain t' zs where r: "decoder_refill B s = Inr (True, t')"
      "decoder_view B stream t' (take (dec_remaining t) ?g) zs"
      "take (dec_remaining t') zs = take (dec_remaining t - kGroupSize B) ?ys"
      using refill_full [OF t(1) _ g, of ?ys] t(2,3) assms(2) by auto
    have "take (dec_remaining t) ?g @ take (dec_remaining t - kGroupSize B) ?ys = take (dec_remaining t) xs"
      using g by (metis append_take_drop_id take_append)
    moreover have "take (dec_remaining t) ?g \<noteq> []" using assms(2,3) t(3) group_pos by simp
    ultimately show ?thesis using r t(3) by metis
  qed
qed

lemma decoder_next_Cons:
  assumes "decoder_view B stream s (v # pend) xs"
  shows "\<exists>t. decoder_next B s = Inr (Some v, t) \<and> decoder_view B stream t pend xs \<and>
    dec_remaining t = dec_remaining s"
proof -
  let ?t = "s\<lparr>dec_pos := dec_pos s + 1\<rparr>"
  have v: "take (dec_count s - dec_pos s) (drop (dec_pos s) (dec_buf s)) = v # pend"
    "dec_pos s \<le> dec_count s" "dec_count s \<le> length (dec_buf s)"
    using assms by (simp_all add: decoder_view_def)
  then have lt: "dec_pos s < dec_count s" by (cases "dec_pos s = dec_count s") auto
  with v have d: "drop (dec_pos s) (dec_buf s) = dec_buf s ! dec_pos s # drop (Suc (dec_pos s)) (dec_buf s)"
    by (intro Cons_nth_drop_Suc [symmetric]) simp
  have "dec_count s - dec_pos s = Suc (dec_count s - Suc (dec_pos s))" using lt by simp
  with v(1) d have nth: "dec_buf s ! dec_pos s = v"
    "take (dec_count s - Suc (dec_pos s)) (drop (Suc (dec_pos s)) (dec_buf s)) = pend" by simp_all
  then have "decoder_next B s = Inr (Some v, ?t)" using lt v(3) by (simp add: decoder_next_def)
  moreover have "decoder_view B stream ?t pend xs"
    using assms nth(2) lt by (auto simp: decoder_view_def)
  ultimately show ?thesis by (intro exI [of _ ?t]) simp
qed

lemma decoder_next_Nil:
  assumes "decoder_view B stream s [] xs" "dec_remaining s = 0 \<or> xs = []"
  shows "decoder_next B s = Inr (None, s)"
proof -
  have "dec_pos s = dec_count s"
    using assms(1) by (auto simp: decoder_view_def)
  moreover have "dec_end s - dec_p s = 0 \<or> dec_remaining s = 0"
    using assms by (auto simp: decoder_view_def)
  ultimately show ?thesis by (auto simp: decoder_next_def)
qed

lemma decoder_next_refill:
  assumes "decoder_view B stream s [] xs" "dec_remaining s \<noteq> 0" "xs \<noteq> []"
  shows "\<exists>t v pend ys. decoder_next B s = Inr (Some v, t) \<and> decoder_view B stream t pend ys \<and>
    v # pend @ take (dec_remaining t) ys = take (dec_remaining s) xs"
proof -
  obtain t g ys where t: "decoder_refill B s = Inr (True, t)" "g \<noteq> []" "decoder_view B stream t g ys"
    "g @ take (dec_remaining t) ys = take (dec_remaining s) xs"
    using decoder_refill_ok [OF assms] by blast
  obtain v pend where g: "g = v # pend" using t(2) by (cases g) auto
  obtain u where u: "decoder_next B t = Inr (Some v, u)" "decoder_view B stream u pend ys"
    "dec_remaining u = dec_remaining t" using decoder_next_Cons t(3) g by blast
  have pos: "dec_pos s = dec_count s" using assms(1) by (auto simp: decoder_view_def)
  have ne: "dec_end s - dec_p s \<noteq> 0"
    using assms stream_eq_Nil [of xs] by (auto simp: decoder_view_def)
  have "dec_pos t \<noteq> dec_count t" using t(3) g by (auto simp: decoder_view_def)
  then have "decoder_next B s = decoder_next B t"
    using pos ne assms(2) t(1) by (simp add: decoder_next_def)
  then show ?thesis using u g t(4) by auto
qed

lemma decoder_drain_ok:
  "decoder_view B stream s pend xs \<Longrightarrow> length (pend @ take (dec_remaining s) xs) < n \<Longrightarrow>
   \<exists>t. decoder_drain B n s = Inr (pend @ take (dec_remaining s) xs, t) \<and> decoder_next B t = Inr (None, t)"
proof (induction n arbitrary: s pend xs)
  case (Suc n)
  show ?case
  proof (cases pend)
    case (Cons v pend')
    obtain t where "decoder_next B s = Inr (Some v, t)" "decoder_view B stream t pend' xs"
      "dec_remaining t = dec_remaining s" using decoder_next_Cons Suc.prems(1) Cons by blast
    with Suc.IH [of t pend' xs] Suc.prems(2) Cons show ?thesis by auto
  next
    case Nil
    show ?thesis
    proof (cases "dec_remaining s = 0 \<or> xs = []")
      case True
      then show ?thesis using decoder_next_Nil [of s xs] Suc.prems(1) Nil by auto
    next
      case False
      obtain t v pend' ys where t: "decoder_next B s = Inr (Some v, t)" "decoder_view B stream t pend' ys"
        "v # pend' @ take (dec_remaining t) ys = take (dec_remaining s) xs"
        using decoder_next_refill [of s xs] Suc.prems(1) Nil False by auto
      have "length (pend' @ take (dec_remaining t) ys) < n"
        using Suc.prems(2) Nil arg_cong [OF t(3), of length] by simp
      from Suc.IH [OF t(2) this] t show ?thesis using Nil by auto
    qed
  qed
qed simp

lemma decoder_stream:
  assumes "length tmp = 2 * kMaxSize B" "length xs < n"
  shows "\<exists>t. decoder_drain B n (decoder_init tmp buf (stream xs) maxCount) = Inr (take maxCount xs, t) \<and>
    decoder_next B t = Inr (None, t)"
proof -
  have "decoder_view B stream (decoder_init tmp buf (stream xs) maxCount) [] xs"
    using assms(1) by (simp add: decoder_view_def decoder_init_def)
  from decoder_drain_ok [OF this, of n] assms(2) show ?thesis by (simp add: decoder_init_def)
qed

subsection \<open>Sizes\<close>

lemma totalSize_stream:
  "andthen (totalSize_loop B xs (length xs) sz) (\<lambda>(sz, p, n).
     if n \<noteq> 0 then andthen (gv_partialSize B p n) (\<lambda>s. Inr (sz + s)) else Inr sz) =
   Inr (sz + length (stream xs))"
proof (induction "length xs" arbitrary: xs sz rule: less_induct)
  case less
  let ?G = "kGroupSize B"
  show ?case
  proof (cases "length xs < ?G")
    case True
    have "stream xs = [] \<or> length (stream xs) = kHeaderSize B + length (pays xs)"
      using stream_partial [of xs] True length_hdr [of "xs @ replicate (?G - length xs) 0"] by (cases xs) auto
    with True show ?thesis using partialSize_law [of "length xs" xs] stream_eq_Nil [of xs]
      by (subst totalSize_loop.simps) auto
  next
    case False
    let ?g = "take ?G xs" and ?ys = "drop ?G xs"
    have g: "length ?g = ?G" using False by simp
    have "length (stream xs) = kHeaderSize B + length (pays ?g) + length (stream ?ys)"
      using stream_full [OF g, of ?ys] length_hdr [OF g] by simp
    moreover have "length ?ys < length xs" using False group_pos by simp
    ultimately show ?thesis using False group_pos size_law [of xs] less [of ?ys]
      by (subst totalSize_loop.simps) (simp add: add.assoc)
  qed
qed

lemma totalSize_eq: "gv_totalSize B xs (length xs) = Inr (length (stream xs))"
  using totalSize_stream [of xs 0] by (simp add: gv_totalSize_def)

lemma maxSize_add: "gv_maxSize B (kGroupSize B + n) = kFullGroupSize B + gv_maxSize B n"
  using group_pos by (simp add: gv_maxSize_def Let_def div_add_self1 add_mult_distrib)

lemma length_stream_le: "length (stream xs) \<le> gv_maxSize B (length xs)"
proof (induction "length xs" arbitrary: xs rule: less_induct)
  case less
  let ?G = "kGroupSize B"
  show ?case
  proof (cases "length xs < ?G")
    case True
    then show ?thesis
      using stream_partial [of xs] length_hdr [of "xs @ replicate (?G - length xs) 0"]
        length_pays_le [of xs]
      by (cases "xs = []") (simp_all add: gv_maxSize_def Let_def mult.commute)
  next
    case False
    let ?g = "take ?G xs" and ?ys = "drop ?G xs"
    have g: "length ?g = ?G" "length xs = ?G + length ?ys" using False by simp_all
    have "length (stream xs) = kHeaderSize B + length (pays ?g) + length (stream ?ys)"
      using stream_full [OF g(1), of ?ys] length_hdr [OF g(1)] by simp
    moreover have "length (pays ?g) \<le> ?G * type_size B"
      using length_pays_le [of ?g] g(1) by (simp add: mult.commute)
    moreover have "length (stream ?ys) \<le> gv_maxSize B (length ?ys)"
      using less [of ?ys] False group_pos by simp
    ultimately show ?thesis unfolding g(2) maxSize_add kFullGroupSize_def by linarith
  qed
qed

end

section \<open>The two formats\<close>

abbreviation hdr32 :: "u32 list \<Rightarrow> u8 list" where
  "hdr32 xs \<equiv> [of_nat (pack 2 (map value_key xs))]"

abbreviation hdr64 :: "u64 list \<Rightarrow> u8 list" where
  "hdr64 xs \<equiv> le_bytes (of_nat (pack 3 (map value_key xs)) :: u16)"

definition value_bytes :: "'a::len word \<Rightarrow> u8 list" where
  "value_bytes x = payload (value_key x) x"

lemma payloads_value_bytes: "concat (map value_bytes xs) = payloads xs"
  by (simp add: payloads_def value_bytes_def [abs_def])

lemma value_bytes_length:
  "length (value_bytes x) = Suc (value_key x)" "length (value_bytes y) = Suc (value_key y)"
  for x :: u32 and y :: u64
  using length_payload [of 4 x] length_payload [of 8 y] by (simp_all add: value_bytes_def)

lemmas group_varint_simps = GroupVarint32_def GroupVarint64_def kMaxSize_def payloads_value_bytes

interpretation gv32: group_format "GroupVarint32 sse" hdr32 value_bytes
proof
  fix xs ys zs :: "u32 list" and n p tmp buf and x :: u32
  show "0 < length (value_bytes x)" "length (value_bytes x) \<le> type_size (GroupVarint32 sse)"
    using value_key_lt(1) [of x] by (simp_all add: value_bytes_length group_varint_simps)
  show "gv_partialCount (GroupVarint32 sse) buf p
      (kHeaderSize (GroupVarint32 sse) + length (concat (map value_bytes (take n xs)))) = Inr n"
    if "length xs = kGroupSize (GroupVarint32 sse)" "n \<le> kGroupSize (GroupVarint32 sse)"
      "take (kHeaderSize (GroupVarint32 sse)) (drop p buf) = hdr32 xs"
  proof -
    have "p < length buf" using that(3) by (simp add: group_varint_simps) (metis drop_all leI list.distinct(1) take_Nil)
    moreover from this have "buf ! p = of_nat (pack 2 (map value_key xs))"
      using that(3) by (simp add: group_varint_simps take_Suc_conv_app_nth)
    ultimately show ?thesis using that partialCount32_spec [of xs p buf n]
      by (simp add: group_varint_simps)
  qed
  show "\<exists>tail. gv_encode (GroupVarint32 sse) tmp 0 xs = Inr (hdr32 xs @ concat (map value_bytes xs) @ tail,
      length (hdr32 xs @ concat (map value_bytes xs))) \<and>
      length (hdr32 xs @ concat (map value_bytes xs) @ tail) = kMaxSize (GroupVarint32 sse)"
    if "length xs = kGroupSize (GroupVarint32 sse)" "length tmp = kMaxSize (GroupVarint32 sse)"
    using encode32_spec [of xs "[]" 0 tmp] that by (auto simp: group_varint_simps group32_def)
  show "\<exists>vs. gv_decode (GroupVarint32 sse) buf p = Inr (ys @ vs,
      p + kHeaderSize (GroupVarint32 sse) + length (concat (map value_bytes (ys @ zs)))) \<and>
      length vs = length zs"
    if "length (ys @ zs) = kGroupSize (GroupVarint32 sse)" "p + kMaxSize (GroupVarint32 sse) \<le> length buf"
      "take (kHeaderSize (GroupVarint32 sse) + length (concat (map value_bytes ys))) (drop p buf) =
       hdr32 (ys @ zs) @ concat (map value_bytes ys)"
    using decode32_prefix [of "ys @ zs" ys zs p buf sse] that
    by (simp add: group_varint_simps group32_def)
qed (auto simp: group_varint_simps size32_ptr_spec partialSize32_spec)

interpretation gv64: group_format GroupVarint64 hdr64 value_bytes
proof
  fix xs ys zs :: "u64 list" and n p tmp buf and x :: u64
  show "0 < length (value_bytes x)" "length (value_bytes x) \<le> type_size GroupVarint64"
    using value_key_lt(2) [of x] by (simp_all add: value_bytes_length group_varint_simps)
  show "gv_partialCount GroupVarint64 buf p
      (kHeaderSize GroupVarint64 + length (concat (map value_bytes (take n xs)))) = Inr n"
    if "length xs = kGroupSize GroupVarint64" "n \<le> kGroupSize GroupVarint64"
      "take (kHeaderSize GroupVarint64) (drop p buf) = hdr64 xs"
    using that partialCount64_spec [of xs buf p n]
      load_u16_header [of p buf "of_nat (pack 3 (map value_key xs))"]
    by (simp add: group_varint_simps)
  show "\<exists>tail. gv_encode GroupVarint64 tmp 0 xs = Inr (hdr64 xs @ concat (map value_bytes xs) @ tail,
      length (hdr64 xs @ concat (map value_bytes xs))) \<and>
      length (hdr64 xs @ concat (map value_bytes xs) @ tail) = kMaxSize GroupVarint64"
    if "length xs = kGroupSize GroupVarint64" "length tmp = kMaxSize GroupVarint64"
    using encode64_spec [of xs "[]" 0 tmp] that by (auto simp: group_varint_simps group64_def)
  show "\<exists>vs. gv_decode GroupVarint64 buf p = Inr (ys @ vs,
      p + kHeaderSize GroupVarint64 + length (concat (map value_bytes (ys @ zs)))) \<and>
      length vs = length zs"
    if "length (ys @ zs) = kGroupSize GroupVarint64" "p + kMaxSize GroupVarint64 \<le> length buf"
      "take (kHeaderSize GroupVarint64 + length (concat (map value_bytes ys))) (drop p buf) =
       hdr64 (ys @ zs) @ concat (map value_bytes ys)"
    using decode64_prefix [of "ys @ zs" ys zs p buf] that
    by (simp add: group_varint_simps group64_def)
qed (auto simp: group_varint_simps size64_ptr_spec partialSize64_spec)

section \<open>Single groups as a codec\<close>

type_synonym quad = "u32 \<times> u32 \<times> u32 \<times> u32"

definition quad_bytes :: "quad \<Rightarrow> u8 list" where
  "quad_bytes q = (case q of (a, b, c, d) \<Rightarrow> group32 [a, b, c, d])"

definition quad_decode :: "u8 list \<Rightarrow> (quad \<times> nat) result" where
  "quad_decode bs =
     andthen (decode_simple32 bs 0) (\<lambda>(xs, n). Inr ((xs ! 0, xs ! 1, xs ! 2, xs ! 3), n))"

interpretation quads: codec quad_bytes quad_decode 3
proof
  fix rest :: "u8 list" and v :: quad
  assume "3 \<le> length rest"
  moreover obtain a b c d where "v = (a, b, c, d)" by (cases v)
  ultimately show "quad_decode (quad_bytes v @ rest) = Inr (v, length (quad_bytes v))"
    using decode_simple32_group [of "[a, b, c, d]" rest "[]"]
    by (simp add: quad_decode_def quad_bytes_def)
qed

section \<open>Properties\<close>

text \<open>
  C21. Streaming round trip, 32-bit: an encoder to which any values are added and which is then
  finished has appended bytes from which a decoder returns, call by call of \<open>next\<close>, exactly the
  first \<open>maxCount\<close> of those values and then false, with and without SSSE3, without an access
  outside its buffers. The encoder is left empty.
\<close>

theorem group_varint32_roundtrip:
  assumes "length etmp = kMaxSize (GroupVarint32 sse)" "length ebuf = 4"
    "length dtmp = 2 * kMaxSize (GroupVarint32 sse')" "length xs < n"
  shows "\<exists>e bytes. andthen (run_ops (\<lambda>v s. encoder_add (GroupVarint32 sse) s v) xs
        (encoder_init etmp ebuf out)) (encoder_finish (GroupVarint32 sse)) = Inr e \<and>
      enc_out e = out @ bytes \<and> enc_count e = 0 \<and>
      (\<exists>t. decoder_drain (GroupVarint32 sse') n (decoder_init dtmp dbuf bytes maxCount) =
          Inr (take maxCount xs, t) \<and> decoder_next (GroupVarint32 sse') t = Inr (None, t))"
proof -
  have "length ebuf = kGroupSize (GroupVarint32 sse)" using assms(2) by (simp add: GroupVarint32_def)
  from gv32.encoder_stream [OF assms(1) this, of xs out] gv32.decoder_stream [OF assms(3,4), of dbuf maxCount]
  show ?thesis by (auto simp: GroupVarint32_def)
qed

theorem group_varint32_roundtrip_witness:
  "\<exists>e bytes. andthen (run_ops (\<lambda>v s. encoder_add (GroupVarint32 False) s v) [1, 300, 70000, 5, 9]
        (encoder_init (replicate 17 0) [0, 0, 0, 0] [])) (encoder_finish (GroupVarint32 False)) = Inr e \<and>
      enc_out e = [] @ bytes \<and> enc_count e = 0 \<and>
      (\<exists>t. decoder_drain (GroupVarint32 True) 6 (decoder_init (replicate 34 7) [] bytes 100) =
          Inr (take 100 [1, 300, 70000, 5, 9], t) \<and> decoder_next (GroupVarint32 True) t = Inr (None, t))"
  by (rule group_varint32_roundtrip) (simp_all add: GroupVarint32_def kMaxSize_def)

text \<open>
  Streaming round trip, 64-bit: the same for groups of five 64-bit values.
\<close>

theorem group_varint64_roundtrip:
  assumes "length etmp = kMaxSize GroupVarint64" "length ebuf = 5"
    "length dtmp = 2 * kMaxSize GroupVarint64" "length xs < n"
  shows "\<exists>e bytes. andthen (run_ops (\<lambda>v s. encoder_add GroupVarint64 s v) xs
        (encoder_init etmp ebuf out)) (encoder_finish GroupVarint64) = Inr e \<and>
      enc_out e = out @ bytes \<and> enc_count e = 0 \<and>
      (\<exists>t. decoder_drain GroupVarint64 n (decoder_init dtmp dbuf bytes maxCount) =
          Inr (take maxCount xs, t) \<and> decoder_next GroupVarint64 t = Inr (None, t))"
proof -
  have "length ebuf = kGroupSize GroupVarint64" using assms(2) by (simp add: GroupVarint64_def)
  from gv64.encoder_stream [OF assms(1) this, of xs out] gv64.decoder_stream [OF assms(3,4), of dbuf maxCount]
  show ?thesis by auto
qed

theorem group_varint64_roundtrip_witness:
  "\<exists>e bytes. andthen (run_ops (\<lambda>v s. encoder_add GroupVarint64 s v) [1, 2 ^ 40]
        (encoder_init (replicate 42 0) [0, 0, 0, 0, 0] [])) (encoder_finish GroupVarint64) = Inr e \<and>
      enc_out e = [] @ bytes \<and> enc_count e = 0 \<and>
      (\<exists>t. decoder_drain GroupVarint64 3 (decoder_init (replicate 84 7) [] bytes 1) =
          Inr (take 1 [1, 2 ^ 40], t) \<and> decoder_next GroupVarint64 t = Inr (None, t))"
  by (rule group_varint64_roundtrip) (simp_all add: GroupVarint64_def kMaxSize_def)

text \<open>
  C22. The SSSE3 decoder, which shuffles sixteen bytes by a mask from a table, computes the same
  four values and the same end position as the portable decoder, for every header byte and every
  seventeen readable bytes.
\<close>

theorem decode_sse32_simple:
  assumes "p + 17 \<le> length buf"
  shows "decode_sse32 buf p = decode_simple32 buf p"
proof -
  let ?k = "unat (buf ! p)"
  let ?ks = "[bkey32 0 ?k, bkey32 1 ?k, bkey32 2 ?k, bkey32 3 ?k]"
  have "readable 4 (length buf) (p + 1) ?ks"
    using assms bkey32_lt by (intro readable_max) auto
  then show ?thesis
    using decode_sse32_spec [OF assms refl refl] decode_simple32_spec [OF _ refl _ refl, of p buf] assms
    by simp
qed

theorem decode_sse32_simple_witness:
  "decode_sse32 (replicate 17 228) 0 = decode_simple32 (replicate 17 228) 0"
  by (rule decode_sse32_simple) simp

text \<open>
  One group: \<open>encode\<close> writes inside the \<open>kMaxSize\<close> bytes at the position and advances it by
  the computed \<open>size\<close>, which \<open>encodedSize\<close> recovers from the header; a sequence of groups
  written one after the other is read back by the portable decoder if three more bytes follow.
\<close>

theorem group_varint32_groups:
  assumes "length pre = p" "17 \<le> length tail" "3 \<le> length rest"
  shows "(\<exists>tail'. encode32 (pre @ tail) p a b c d =
        Inr (pre @ quad_bytes (a, b, c, d) @ tail', p + size32 a b c d) \<and>
      length (quad_bytes (a, b, c, d)) = size32 a b c d \<and> size32 a b c d \<le> 17 \<and>
      drop (17 - size32 a b c d) tail' = drop 17 tail \<and>
      encodedSize32 (pre @ quad_bytes (a, b, c, d) @ tail') p = Inr (size32 a b c d)) \<and>
    decode_many quad_decode (length qs) (concat (map quad_bytes qs) @ rest) =
      Inr (qs, length (concat (map quad_bytes qs)))"
proof
  let ?xs = "[a, b, c, d]" and ?q = "quad_bytes (a, b, c, d)"
  obtain tail' where e: "encode32_ptr (pre @ tail) p ?xs = Inr (pre @ group32 ?xs @ tail', p + length (group32 ?xs))"
    "drop (17 - length (group32 ?xs)) tail' = drop 17 tail"
    using encode32_spec [of ?xs pre p tail] assms(1,2) by auto
  have q: "?q = group32 ?xs" by (simp add: quad_bytes_def)
  have size: "length ?q = size32 a b c d"
    using length_payloads [of 4 ?xs] by (simp add: q group32_def size32_def key32_eq)
  moreover have "size32 a b c d \<le> 17"
    using value_key_lt(1) [of a] value_key_lt(1) [of b] value_key_lt(1) [of c] value_key_lt(1) [of d]
    by (simp add: size32_def key32_eq)
  moreover have "encodedSize32 (pre @ ?q @ tail') p = Inr (size32 a b c d)"
  proof -
    let ?v = "pack 2 (map value_key ?xs)"
    have "bkey32 i ?v = map value_key ?xs ! i" if "i < 4" for i
      by (rule bkey32_pack) (use value_key_lt(1) that in auto)
    from this [of 0] this [of 1] this [of 2] this [of 3]
    show ?thesis using assms(1) unat_header32 [of ?xs]
      by (simp add: encodedSize32_def q group32_def rd_def nth_append size32_def key32_eq)
  qed
  moreover have "encode32_ptr (pre @ tail) p ?xs = encode32 (pre @ tail) p a b c d"
    by (simp add: encode32_ptr_def)
  ultimately show "\<exists>tail'. encode32 (pre @ tail) p a b c d = Inr (pre @ ?q @ tail', p + size32 a b c d) \<and>
      length ?q = size32 a b c d \<and> size32 a b c d \<le> 17 \<and>
      drop (17 - size32 a b c d) tail' = drop 17 tail \<and>
      encodedSize32 (pre @ ?q @ tail') p = Inr (size32 a b c d)"
    using e by (intro exI [of _ tail']) (simp add: q)
  show "decode_many quad_decode (length qs) (concat (map quad_bytes qs) @ rest) =
      Inr (qs, length (concat (map quad_bytes qs)))"
    by (rule quads.decode_many_concat [OF assms(3)])
qed

theorem group_varint32_groups_witness:
  "decode_many quad_decode (length [(1, 2, 3, 4), (0, 0, 70000, 9) :: quad])
     (concat (map quad_bytes [(1, 2, 3, 4), (0, 0, 70000, 9)]) @ [7, 7, 7]) =
     Inr ([(1, 2, 3, 4), (0, 0, 70000, 9)],
       length (concat (map quad_bytes [(1, 2, 3, 4), (0, 0, 70000, 9)])))"
  by (rule group_varint32_groups [THEN conjunct2, of "[]" 0 "replicate 17 0"]) simp_all

text \<open>
  \<open>totalSize\<close> is the length of the byte stream of the values and \<open>maxSize\<close> bounds it, for
  both formats.
\<close>

theorem group_varint_sizes:
  "gv_totalSize (GroupVarint32 sse) xs (length xs) = Inr (length (gv_stream 4 hdr32 value_bytes xs)) \<and>
   length (gv_stream 4 hdr32 value_bytes xs) \<le> gv_maxSize (GroupVarint32 sse) (length xs) \<and>
   gv_totalSize GroupVarint64 ys (length ys) = Inr (length (gv_stream 5 hdr64 value_bytes ys)) \<and>
   length (gv_stream 5 hdr64 value_bytes ys) \<le> gv_maxSize GroupVarint64 (length ys)"
  using gv32.totalSize_eq [of sse xs] gv32.length_stream_le [of sse xs]
    gv64.totalSize_eq [of ys] gv64.length_stream_le [of ys]
  by (simp add: GroupVarint32_def GroupVarint64_def)

end
