(* ===== verification/Folly_Hash.thy ===== *)
theory Folly_Hash
  imports Folly_Bits "HOL-Library.Multiset"
begin

text \<open>
  The hash functions of \<open>folly/hash/Hash.h\<close>: the Wang and Jenkins mixers with their inverses,
  FNV-1, FNV-1a, Hsieh's hash, the hashers of the integral and floating-point types, and the
  order-dependent and order-independent combiners.

  All arithmetic is on 32- and 64-bit words and wraps. A buffer is a list of bytes; a byte read as
  \<open>signed char\<close> is sign-extended. \<open>size_t\<close> has 8 bytes, except that \<open>hash_combine_generic\<close> takes
  its size as an argument because the code branches on it. A hasher that the caller supplies is a
  function argument; a floating-point number is given by its representation.
\<close>

section \<open>Definitions\<close>

definition twang_mix64 :: "u64 \<Rightarrow> u64" where
  "twang_mix64 key =
     (let key = NOT key + push_bit 21 key;
          key = key XOR drop_bit 24 key;
          key = key + push_bit 3 key + push_bit 8 key;
          key = key XOR drop_bit 14 key;
          key = key + push_bit 2 key + push_bit 4 key;
          key = key XOR drop_bit 28 key;
          key = key + push_bit 31 key
      in key)"

definition twang_unmix64 :: "u64 \<Rightarrow> u64" where
  "twang_unmix64 key =
     (let key = key * 4611686016279904257;
          key = key XOR (drop_bit 28 key XOR drop_bit 56 key);
          key = key * 14933078535860113213;
          key = key XOR (drop_bit 14 key XOR drop_bit 28 key XOR drop_bit 42 key XOR drop_bit 56 key);
          key = key * 15244667743933553977;
          key = key XOR (drop_bit 24 key XOR drop_bit 48 key);
          key = (key + 1) * 9223367638806167551
      in key)"

definition twang_32from64 :: "u64 \<Rightarrow> u32" where
  "twang_32from64 key =
     (let key = NOT key + push_bit 18 key;
          key = key XOR drop_bit 31 key;
          key = key * 21;
          key = key XOR drop_bit 11 key;
          key = key + push_bit 6 key;
          key = key XOR drop_bit 22 key
      in ucast key)"

definition jenkins_rev_mix32 :: "u32 \<Rightarrow> u32" where
  "jenkins_rev_mix32 key =
     (let key = key + push_bit 12 key;
          key = key XOR drop_bit 22 key;
          key = key + push_bit 4 key;
          key = key XOR drop_bit 9 key;
          key = key + push_bit 10 key;
          key = key XOR drop_bit 2 key;
          key = key + push_bit 7 key;
          key = key + push_bit 12 key
      in key)"

definition jenkins_rev_unmix32 :: "u32 \<Rightarrow> u32" where
  "jenkins_rev_unmix32 key =
     (let key = key * 2364026753;
          key = key XOR (drop_bit 2 key XOR drop_bit 4 key XOR drop_bit 6 key XOR drop_bit 8 key XOR
                  drop_bit 10 key XOR drop_bit 12 key XOR drop_bit 14 key XOR drop_bit 16 key XOR
                  drop_bit 18 key XOR drop_bit 20 key XOR drop_bit 22 key XOR drop_bit 24 key XOR
                  drop_bit 26 key XOR drop_bit 28 key XOR drop_bit 30 key);
          key = key * 3222273025;
          key = key XOR (drop_bit 9 key XOR drop_bit 18 key XOR drop_bit 27 key);
          key = key * 4042322161;
          key = key XOR drop_bit 22 key;
          key = key * 16773121
      in key)"

subsection \<open>FNV\<close>

definition FNV_32_HASH_START :: u32 where "FNV_32_HASH_START = 2166136261"
definition FNV_64_HASH_START :: u64 where "FNV_64_HASH_START = 14695981039346656037"
definition FNVA_64_HASH_START :: u64 where "FNVA_64_HASH_START = 14695981039346656037"

definition fnv32_step :: "u8 \<Rightarrow> u32 \<Rightarrow> u32" where
  "fnv32_step c hash =
     (let hash = hash + (push_bit 1 hash + push_bit 4 hash + push_bit 7 hash + push_bit 8 hash +
            push_bit 24 hash)
      in hash XOR scast c)"

definition fnv64_step :: "u8 \<Rightarrow> u64 \<Rightarrow> u64" where
  "fnv64_step c hash =
     (let hash = hash + (push_bit 1 hash + push_bit 4 hash + push_bit 5 hash + push_bit 7 hash +
            push_bit 8 hash + push_bit 40 hash)
      in hash XOR scast c)"

definition fnva64_step :: "u8 \<Rightarrow> u64 \<Rightarrow> u64" where
  "fnva64_step c hash =
     (let hash = hash XOR ucast c
      in hash + (push_bit 1 hash + push_bit 4 hash + push_bit 5 hash + push_bit 7 hash +
            push_bit 8 hash + push_bit 40 hash))"

text \<open>The loop over a buffer of \<open>n\<close> bytes and the loop up to a null byte.\<close>

fun hash_buf_loop :: "(u8 \<Rightarrow> 'h \<Rightarrow> 'h) \<Rightarrow> u8 list \<Rightarrow> nat \<Rightarrow> nat \<Rightarrow> 'h \<Rightarrow> 'h result" where
  "hash_buf_loop step buf i 0 hash = Inr hash"
| "hash_buf_loop step buf i (Suc n) hash =
     andthen (rd buf i) (\<lambda>c. hash_buf_loop step buf (i + 1) n (step c hash))"

function hash_cstr_loop :: "(u8 \<Rightarrow> 'h \<Rightarrow> 'h) \<Rightarrow> u8 list \<Rightarrow> nat \<Rightarrow> 'h \<Rightarrow> 'h result" where
  "hash_cstr_loop step buf i hash =
     andthen (rd buf i) (\<lambda>c. if c \<noteq> 0 then hash_cstr_loop step buf (i + 1) (step c hash) else Inr hash)"
  by pat_completeness auto
termination
  by (relation "measure (\<lambda>(step, buf, i, hash). length buf - i)") (auto simp: rd_eq_Inr_iff)

declare hash_cstr_loop.simps [simp del]

definition fnv32 :: "u8 list \<Rightarrow> u32 \<Rightarrow> u32 result" where
  "fnv32 buf hash = hash_cstr_loop fnv32_step buf 0 hash"

definition fnv32_buf :: "u8 list \<Rightarrow> nat \<Rightarrow> u32 \<Rightarrow> u32 result" where
  "fnv32_buf buf n hash = hash_buf_loop fnv32_step buf 0 n hash"

definition fnv32_str :: "u8 list \<Rightarrow> u32 \<Rightarrow> u32 result" where
  "fnv32_str str hash = fnv32_buf str (length str) hash"

definition fnv64 :: "u8 list \<Rightarrow> u64 \<Rightarrow> u64 result" where
  "fnv64 buf hash = hash_cstr_loop fnv64_step buf 0 hash"

definition fnv64_buf :: "u8 list \<Rightarrow> nat \<Rightarrow> u64 \<Rightarrow> u64 result" where
  "fnv64_buf buf n hash = hash_buf_loop fnv64_step buf 0 n hash"

definition fnv64_str :: "u8 list \<Rightarrow> u64 \<Rightarrow> u64 result" where
  "fnv64_str str hash = fnv64_buf str (length str) hash"

definition fnva64_buf :: "u8 list \<Rightarrow> nat \<Rightarrow> u64 \<Rightarrow> u64 result" where
  "fnva64_buf buf n hash = hash_buf_loop fnva64_step buf 0 n hash"

definition fnva64 :: "u8 list \<Rightarrow> u64 \<Rightarrow> u64 result" where
  "fnva64 str hash = fnva64_buf str (length str) hash"

subsection \<open>Hsieh's hash\<close>

definition get16bits :: "u8 list \<Rightarrow> nat \<Rightarrow> u32 result" where
  "get16bits buf s = andthen (loadUnaligned buf s :: u16 result) (\<lambda>x. Inr (ucast x))"

fun hsieh_loop :: "u8 list \<Rightarrow> nat \<Rightarrow> nat \<Rightarrow> u32 \<Rightarrow> (u32 \<times> nat) result" where
  "hsieh_loop buf s 0 hash = Inr (hash, s)"
| "hsieh_loop buf s (Suc len) hash =
     andthen (get16bits buf s) (\<lambda>a. andthen (get16bits buf (s + 2)) (\<lambda>b.
       let hash = hash + a;
           tmp = push_bit 11 b XOR hash;
           hash = push_bit 16 hash XOR tmp;
           hash = hash + drop_bit 11 hash
       in hsieh_loop buf (s + 4) len hash))"

definition hsieh_tail :: "u8 list \<Rightarrow> nat \<Rightarrow> nat \<Rightarrow> u32 \<Rightarrow> u32 result" where
  "hsieh_tail buf s rem hash =
     (if rem = 3 then
        andthen (get16bits buf s) (\<lambda>a. andthen (rd buf (s + 2)) (\<lambda>c.
          let hash = hash + a;
              hash = hash XOR push_bit 16 hash;
              hash = hash XOR push_bit 18 (ucast c)
          in Inr (hash + drop_bit 11 hash)))
      else if rem = 2 then
        andthen (get16bits buf s) (\<lambda>a.
          let hash = hash + a;
              hash = hash XOR push_bit 11 hash
          in Inr (hash + drop_bit 17 hash))
      else if rem = 1 then
        andthen (rd buf s) (\<lambda>c.
          let hash = hash + ucast c;
              hash = hash XOR push_bit 10 hash
          in Inr (hash + drop_bit 1 hash))
      else Inr hash)"

definition hsieh_avalanche :: "u32 \<Rightarrow> u32" where
  "hsieh_avalanche hash =
     (let hash = hash XOR push_bit 3 hash;
          hash = hash + drop_bit 5 hash;
          hash = hash XOR push_bit 4 hash;
          hash = hash + drop_bit 17 hash;
          hash = hash XOR push_bit 25 hash;
          hash = hash + drop_bit 6 hash
      in hash)"

text \<open>The buffer is not a null pointer.\<close>

definition hsieh_hash32_buf :: "u8 list \<Rightarrow> nat \<Rightarrow> u32 result" where
  "hsieh_hash32_buf buf len =
     (if len \<le> 0 then Inr 0
      else
        andthen (hsieh_loop buf 0 (drop_bit 2 len) (of_nat len)) (\<lambda>(hash, s).
        andthen (hsieh_tail buf s (len AND 3) hash) (\<lambda>hash. Inr (hsieh_avalanche hash))))"

definition hsieh_hash32_str :: "u8 list \<Rightarrow> u32 result" where
  "hsieh_hash32_str str = hsieh_hash32_buf str (length str)"

subsection \<open>Combining hashes\<close>

definition hash_128_to_64 :: "u64 \<Rightarrow> u64 \<Rightarrow> u64" where
  "hash_128_to_64 upper lower =
     (let kMul = 11376068507788127593;
          a = (lower XOR upper) * kMul;
          a = a XOR drop_bit 47 a;
          b = (upper XOR a) * kMul;
          b = b XOR drop_bit 47 b;
          b = b * kMul
      in b)"

definition commutative_hash_combine_value_generic ::
  "bool \<Rightarrow> ('v \<Rightarrow> u64) \<Rightarrow> u64 \<Rightarrow> 'v \<Rightarrow> u64" where
  "commutative_hash_combine_value_generic avalanching hasher seed value =
     (let x = hasher value;
          y = (if avalanching then x else twang_mix64 x)
      in 3860031 + (seed + y) * 2779 + (seed * y * 2))"

fun hash_range :: "('v \<Rightarrow> u64) \<Rightarrow> 'v list \<Rightarrow> u64 \<Rightarrow> u64" where
  "hash_range hasher [] hash = hash"
| "hash_range hasher (x # xs) hash = hash_range hasher xs (hash_128_to_64 hash (hasher x))"

fun commutative_hash_combine_range_generic ::
  "bool \<Rightarrow> ('v \<Rightarrow> u64) \<Rightarrow> u64 \<Rightarrow> 'v list \<Rightarrow> u64" where
  "commutative_hash_combine_range_generic avalanching hasher seed [] = seed"
| "commutative_hash_combine_range_generic avalanching hasher seed (x # xs) =
     commutative_hash_combine_range_generic avalanching hasher
       (commutative_hash_combine_value_generic avalanching hasher seed x) xs"

fun hash_combine_generic :: "nat \<Rightarrow> ('v \<Rightarrow> u64) \<Rightarrow> 'v list \<Rightarrow> u64" where
  "hash_combine_generic sizeof_size_t h [] = 0"
| "hash_combine_generic sizeof_size_t h (t # ts) =
     (let seed = h t
      in if ts = [] then seed
         else let remainder = hash_combine_generic sizeof_size_t h ts
              in if sizeof_size_t = 4 then ucast (twang_32from64 (push_bit 32 seed OR remainder))
                 else hash_128_to_64 seed remainder)"

subsection \<open>Integral and floating-point types\<close>

definition integral_hasher :: "nat \<Rightarrow> int \<Rightarrow> u64" where
  "integral_hasher sizeof_I i =
     (if sizeof_I \<le> 4 then ucast (jenkins_rev_mix32 (word_of_int i))
      else if sizeof_I \<le> 8 then twang_mix64 (word_of_int i)
      else let u = word_of_int i :: 128 word;
               hi = ucast (drop_bit (sizeof_I * 4) u);
               lo = ucast u
           in hash_128_to_64 hi lo)"

text \<open>
  The argument is the bit pattern of the number, zero-extended to 64 bits; \<open>f == F{}\<close> holds for
  the two patterns of zero, which differ in the sign bit only.
\<close>

definition float_hasher :: "nat \<Rightarrow> u64 \<Rightarrow> u64" where
  "float_hasher sizeof_F f =
     (if take_bit (8 * sizeof_F - 1) f = 0 then 0 else twang_mix64 f)"

definition hasher_bool :: "bool \<Rightarrow> u64" where
  "hasher_bool key = (if key then - 1 else 0)"

section \<open>Mixers\<close>

lemma mult_inverse: "y = x * a \<Longrightarrow> a * b = 1 \<Longrightarrow> y * b = x"
  for a b x y :: "'a::len word"
  by (simp add: mult.assoc)

lemma push_bit_times: "push_bit n x = x * 2 ^ n"
  for x :: "'a::len word"
  by (simp add: push_bit_eq_mult)

lemma unshift_64:
  "let y = x XOR drop_bit 24 x in y XOR (drop_bit 24 y XOR drop_bit 48 y) = x"
  "let y = x XOR drop_bit 14 x in
     y XOR (drop_bit 14 y XOR drop_bit 28 y XOR drop_bit 42 y XOR drop_bit 56 y) = x"
  "let y = x XOR drop_bit 28 x in y XOR (drop_bit 28 y XOR drop_bit 56 y) = x"
  for x :: u64
  by (simp_all add: Let_def) (rule bit_word_eqI, auto simp: bit_simps dest: bit_imp_le_length)+

lemma unshift_32:
  "let y = x XOR drop_bit 2 x in
     y XOR (drop_bit 2 y XOR drop_bit 4 y XOR drop_bit 6 y XOR drop_bit 8 y XOR
       drop_bit 10 y XOR drop_bit 12 y XOR drop_bit 14 y XOR drop_bit 16 y XOR
       drop_bit 18 y XOR drop_bit 20 y XOR drop_bit 22 y XOR drop_bit 24 y XOR
       drop_bit 26 y XOR drop_bit 28 y XOR drop_bit 30 y) = x"
  "let y = x XOR drop_bit 9 x in y XOR (drop_bit 9 y XOR drop_bit 18 y XOR drop_bit 27 y) = x"
  "let y = x XOR drop_bit 22 x in y XOR drop_bit 22 y = x"
  for x :: u32
proof -
  have step: "drop_bit n (x XOR drop_bit 2 x) = drop_bit n x XOR drop_bit (n + 2) x" for n
    by (simp add: drop_bit_xor)
  have high: "drop_bit 32 x = 0" by (rule bit_word_eqI) (auto simp: bit_simps dest: bit_imp_le_length)
  have cancel: "(a XOR b) XOR (b XOR c) = a XOR c" "(a XOR b) XOR (b XOR c XOR d) = a XOR (c XOR d)"
    for a b c d :: u32
    by (rule bit_word_eqI; auto simp: bit_simps)+
  show "let y = x XOR drop_bit 2 x in
     y XOR (drop_bit 2 y XOR drop_bit 4 y XOR drop_bit 6 y XOR drop_bit 8 y XOR
       drop_bit 10 y XOR drop_bit 12 y XOR drop_bit 14 y XOR drop_bit 16 y XOR
       drop_bit 18 y XOR drop_bit 20 y XOR drop_bit 22 y XOR drop_bit 24 y XOR
       drop_bit 26 y XOR drop_bit 28 y XOR drop_bit 30 y) = x"
    by (simp add: Let_def step high xor.assoc)
  show "let y = x XOR drop_bit 9 x in y XOR (drop_bit 9 y XOR drop_bit 18 y XOR drop_bit 27 y) = x"
    "let y = x XOR drop_bit 22 x in y XOR drop_bit 22 y = x"
    by (simp_all add: Let_def) (rule bit_word_eqI, auto simp: bit_simps dest: bit_imp_le_length)+
qed

lemma twang_unmix_mix: "twang_unmix64 (twang_mix64 key) = key"
proof -
  define a where "a = NOT key + push_bit 21 key"
  define b where "b = a XOR drop_bit 24 a"
  define c where "c = b + push_bit 3 b + push_bit 8 b"
  define d where "d = c XOR drop_bit 14 c"
  define e where "e = d + push_bit 2 d + push_bit 4 d"
  define f where "f = e XOR drop_bit 28 e"
  have mix: "twang_mix64 key = f + push_bit 31 f"
    by (simp add: twang_mix64_def Let_def a_def b_def c_def d_def e_def f_def)
  have f: "(f + push_bit 31 f) * 4611686016279904257 = f"
    by (rule mult_inverse [where a = 2147483649]) (simp add: push_bit_times algebra_simps, simp)
  have e: "f XOR (drop_bit 28 f XOR drop_bit 56 f) = e"
    using unshift_64(3) [of e] by (simp add: f_def Let_def)
  have d: "e * 14933078535860113213 = d"
    by (rule mult_inverse [where a = 21]) (simp add: e_def push_bit_times algebra_simps, simp)
  have c: "d XOR (drop_bit 14 d XOR drop_bit 28 d XOR drop_bit 42 d XOR drop_bit 56 d) = c"
    using unshift_64(2) [of c] by (simp add: d_def Let_def)
  have b: "c * 15244667743933553977 = b"
    by (rule mult_inverse [where a = 265]) (simp add: c_def push_bit_times algebra_simps, simp)
  have a: "b XOR (drop_bit 24 b XOR drop_bit 48 b) = a"
    using unshift_64(1) [of a] by (simp add: b_def Let_def)
  have key: "(a + 1) * 9223367638806167551 = key"
    by (rule mult_inverse [where a = 2097151])
      (simp add: a_def push_bit_times not_eq_complement algebra_simps, simp)
  show ?thesis unfolding mix twang_unmix64_def Let_def f e d c b a key ..
qed

lemma jenkins_unmix_mix: "jenkins_rev_unmix32 (jenkins_rev_mix32 key) = key"
proof -
  define a where "a = key + push_bit 12 key"
  define b where "b = a XOR drop_bit 22 a"
  define c where "c = b + push_bit 4 b"
  define d where "d = c XOR drop_bit 9 c"
  define e where "e = d + push_bit 10 d"
  define f where "f = e XOR drop_bit 2 e"
  define g where "g = f + push_bit 7 f"
  have mix: "jenkins_rev_mix32 key = g + push_bit 12 g"
    by (simp add: jenkins_rev_mix32_def Let_def a_def b_def c_def d_def e_def f_def g_def)
  have f: "(g + push_bit 12 g) * 2364026753 = f"
    by (rule mult_inverse [where a = 528513]) (simp add: g_def push_bit_times algebra_simps, simp)
  have e: "f XOR (drop_bit 2 f XOR drop_bit 4 f XOR drop_bit 6 f XOR drop_bit 8 f XOR
       drop_bit 10 f XOR drop_bit 12 f XOR drop_bit 14 f XOR drop_bit 16 f XOR
       drop_bit 18 f XOR drop_bit 20 f XOR drop_bit 22 f XOR drop_bit 24 f XOR
       drop_bit 26 f XOR drop_bit 28 f XOR drop_bit 30 f) = e"
    using unshift_32(1) [of e] by (simp add: f_def Let_def)
  have d: "e * 3222273025 = d"
    by (rule mult_inverse [where a = 1025]) (simp add: e_def push_bit_times algebra_simps, simp)
  have c: "d XOR (drop_bit 9 d XOR drop_bit 18 d XOR drop_bit 27 d) = c"
    using unshift_32(2) [of c] by (simp add: d_def Let_def)
  have b: "c * 4042322161 = b"
    by (rule mult_inverse [where a = 17]) (simp add: c_def push_bit_times algebra_simps, simp)
  have a: "b XOR drop_bit 22 b = a" using unshift_32(3) [of a] by (simp add: b_def Let_def)
  have key: "a * 16773121 = key"
    by (rule mult_inverse [where a = 4097]) (simp add: a_def push_bit_times algebra_simps, simp)
  show ?thesis unfolding mix jenkins_rev_unmix32_def Let_def f e d c b a key ..
qed

interpretation twang: reversible_mix twang_mix64 twang_unmix64
  by unfold_locales (rule twang_unmix_mix)

interpretation jenkins: reversible_mix jenkins_rev_mix32 jenkins_rev_unmix32
  by unfold_locales (rule jenkins_unmix_mix)

lemma xor_shift_47_involution: "let y = x XOR drop_bit 47 x in y XOR drop_bit 47 y = x"
  for x :: u64
  by (simp add: Let_def) (rule bit_word_eqI, auto simp: bit_simps dest: bit_imp_le_length)

lemma xor_cancel: "(x XOR y) XOR y = x" "y XOR (y XOR x) = x"
  for x y :: "'a::len word"
  by (rule bit_word_eqI, auto simp: bit_simps)+

definition unhash_128_to_64 :: "u64 \<Rightarrow> u64 \<Rightarrow> u64" where
  "unhash_128_to_64 upper hash =
     (let kInv = 15877131476434367193;
          b = hash * kInv;
          b = b XOR drop_bit 47 b;
          a = upper XOR (b * kInv);
          a = a XOR drop_bit 47 a
      in (a * kInv) XOR upper)"

lemma unhash_hash_128_to_64: "unhash_128_to_64 upper (hash_128_to_64 upper lower) = lower"
proof -
  have inv: "x * 11376068507788127593 * 15877131476434367193 = x" for x :: u64
    by (rule mult_inverse [OF refl]) simp
  have shift: "(x XOR drop_bit 47 x) XOR drop_bit 47 (x XOR drop_bit 47 x) = x" for x :: u64
    using xor_shift_47_involution [of x] by (simp add: Let_def)
  show ?thesis unfolding hash_128_to_64_def unhash_128_to_64_def Let_def inv shift xor_cancel ..
qed

interpretation hash128: reversible_mix "hash_128_to_64 upper" "unhash_128_to_64 upper"
  by unfold_locales (rule unhash_hash_128_to_64)

section \<open>Buffer hashes\<close>

lemma fnv_steps:
  "fnv32_step c hash = hash * 16777619 XOR scast c"
  "fnv64_step c hash' = hash' * 1099511628211 XOR scast c"
  "fnva64_step c hash' = (hash' XOR ucast c) * 1099511628211"
  by (simp_all add: fnv32_step_def fnv64_step_def fnva64_step_def Let_def push_bit_times algebra_simps)

lemma hash_buf_loop_fold:
  "i + n \<le> length buf \<Longrightarrow> hash_buf_loop step buf i n hash = Inr (fold step (take n (drop i buf)) hash)"
proof (induction n arbitrary: i hash)
  case (Suc n)
  then have "drop i buf = buf ! i # drop (Suc i) buf" by (simp add: Cons_nth_drop_Suc)
  with Suc show ?case by simp
qed simp

lemma hash_buf_loop_overrun:
  "i \<le> length buf \<Longrightarrow> length buf < i + n \<Longrightarrow> hash_buf_loop step buf i n hash = Inl Undefined_Behaviour"
proof (induction n arbitrary: i hash)
  case (Suc n)
  then show ?case by (cases "i < length buf") (auto simp: rd_def)
qed simp

lemma hash_cstr_loop_fold:
  "0 \<notin> set xs \<Longrightarrow> hash_cstr_loop step (pre @ xs @ 0 # rest) (length pre) hash = Inr (fold step xs hash)"
proof (induction xs arbitrary: pre hash)
  case Nil
  then show ?case by (subst hash_cstr_loop.simps) simp
next
  case (Cons x xs)
  then show ?case using Cons.IH [of "pre @ [x]"] by (subst hash_cstr_loop.simps) simp
qed

lemma get16bits_Inr:
  "s + 2 \<le> length buf \<Longrightarrow> get16bits buf s = Inr (ucast (of_le_bytes (take 2 (drop s buf)) :: u16))"
  by (simp add: get16bits_def loadUnaligned_def)

lemma get16bits_take: "s + 2 \<le> n \<Longrightarrow> n \<le> length buf \<Longrightarrow> get16bits (take n buf) s = get16bits buf s"
  by (simp add: get16bits_Inr drop_take min_def)

lemma hsieh_loop_take:
  "s + 4 * len \<le> n \<Longrightarrow> n \<le> length buf \<Longrightarrow> hsieh_loop (take n buf) s len hash = hsieh_loop buf s len hash"
proof (induction len arbitrary: s hash)
  case (Suc len)
  then show ?case by (simp add: get16bits_take get16bits_Inr [of _ buf] Let_def)
qed simp

lemma hsieh_loop_Inr:
  "s + 4 * len \<le> length buf \<Longrightarrow> \<exists>h. hsieh_loop buf s len hash = Inr (h, s + 4 * len)"
proof (induction len arbitrary: s hash)
  case (Suc len)
  then have "s + 4 + 4 * len \<le> length buf" by simp
  from Suc.IH [OF this] Suc.prems show ?case by (simp add: get16bits_Inr Let_def add.assoc)
qed simp

lemma hsieh_tail_take:
  assumes "s + rem \<le> n" "n \<le> length buf"
  shows "hsieh_tail (take n buf) s rem hash = hsieh_tail buf s rem hash"
proof -
  have "i < n \<Longrightarrow> rd (take n buf) i = rd buf i" for i using assms by (simp add: rd_def)
  with assms show ?thesis by (simp add: hsieh_tail_def get16bits_take)
qed

lemma hsieh_tail_Inr: "s + rem \<le> length buf \<Longrightarrow> \<exists>h. hsieh_tail buf s rem hash = Inr h"
  by (simp add: hsieh_tail_def get16bits_Inr Let_def)

lemma len_split: "4 * drop_bit 2 len + (len AND 3) = len" for len :: nat
proof -
  have "len AND 3 = len mod 4" using take_bit_eq_mask [of 2 len] by (simp add: take_bit_eq_mod mask_eq_exp_minus_1)
  then show ?thesis by (simp add: drop_bit_eq_div)
qed

lemma hsieh_hash32_buf_Inr:
  assumes "len \<le> length buf"
  shows "\<exists>h. hsieh_hash32_buf buf len = Inr h" "hsieh_hash32_buf (take len buf) len = hsieh_hash32_buf buf len"
proof -
  have fit: "4 * drop_bit 2 len + (len AND 3) \<le> length buf"
    "4 * drop_bit 2 len + (len AND 3) \<le> len" "0 + 4 * drop_bit 2 len \<le> len" "0 + 4 * drop_bit 2 len \<le> length buf"
    using assms len_split [of len] by linarith+
  obtain h where h: "hsieh_loop buf 0 (drop_bit 2 len) (of_nat len) = Inr (h, 4 * drop_bit 2 len)"
    using hsieh_loop_Inr [OF fit(4)] by auto
  show "\<exists>h. hsieh_hash32_buf buf len = Inr h"
    using hsieh_tail_Inr [OF fit(1), of h] by (auto simp: hsieh_hash32_buf_def h)
  show "hsieh_hash32_buf (take len buf) len = hsieh_hash32_buf buf len"
    using hsieh_loop_take [OF fit(3) assms] hsieh_tail_take [OF fit(2) assms]
    by (simp add: hsieh_hash32_buf_def h)
qed

section \<open>Combiners\<close>

lemma commutative_step_swap:
  "commutative_hash_combine_value_generic av h (commutative_hash_combine_value_generic av h seed x) y =
   commutative_hash_combine_value_generic av h (commutative_hash_combine_value_generic av h seed y) x"
proof -
  have "3860031 + ((3860031 + (s + a) * 2779 + (s * a * 2)) + b) * 2779 + ((3860031 + (s + a) * 2779 + (s * a * 2)) * b * 2) =
    3860031 + ((3860031 + (s + b) * 2779 + (s * b * 2)) + a) * 2779 + ((3860031 + (s + b) * 2779 + (s * b * 2)) * a * 2)"
    for s a b :: u64
    by (simp add: algebra_simps)
  then show ?thesis by (simp add: commutative_hash_combine_value_generic_def Let_def)
qed

lemma commutative_range_fold:
  "commutative_hash_combine_range_generic av h seed xs =
   fold (\<lambda>x s. commutative_hash_combine_value_generic av h s x) xs seed"
  by (induction xs arbitrary: seed) auto

lemma hash_range_append: "hash_range h (xs @ ys) hash = hash_range h ys (hash_range h xs hash)"
  by (induction xs arbitrary: hash) auto

lemma hash_buf_eq_str:
  assumes "n \<le> length buf"
  shows "fnv32_buf buf n h32 = fnv32_str (take n buf) h32" "fnv64_buf buf n h64 = fnv64_str (take n buf) h64"
    "fnva64_buf buf n h64 = fnva64 (take n buf) h64"
  using assms
  by (simp_all add: fnv32_buf_def fnv64_buf_def fnva64_buf_def fnv32_str_def fnv64_str_def fnva64_def
      hash_buf_loop_fold min_def)

lemma hash_str_fold:
  "fnv32_str xs h32 = Inr (fold fnv32_step xs h32)" "fnv64_str xs h64 = Inr (fold fnv64_step xs h64)"
  "fnva64 xs h64 = Inr (fold fnva64_step xs h64)"
  by (simp_all add: fnv32_buf_def fnv64_buf_def fnva64_buf_def fnv32_str_def fnv64_str_def fnva64_def
      hash_buf_loop_fold)

lemma hash_cstr_eq_str:
  assumes "0 \<notin> set xs"
  shows "fnv32 (xs @ 0 # rest) h32 = fnv32_str xs h32" "fnv64 (xs @ 0 # rest) h64 = fnv64_str xs h64"
  using hash_cstr_loop_fold [OF assms, of _ "[]"] by (simp_all add: fnv32_def fnv64_def hash_str_fold)

lemma word_of_int_inject_range:
  assumes "0 < n" "8 * n \<le> LENGTH('a)"
    and "i \<in> {- (2 ^ (8 * n - 1))..<2 ^ (8 * n - 1)}" "j \<in> {- (2 ^ (8 * n - 1))..<2 ^ (8 * n - 1)}"
  shows "(word_of_int i :: 'a::len word) = word_of_int j \<longleftrightarrow> i = j"
proof
  assume eq: "(word_of_int i :: 'a word) = word_of_int j"
  have "(2::int) ^ (8 * n - 1) \<le> 2 ^ (LENGTH('a) - 1)" using assms(1,2) by (intro power_increasing) auto
  with assms(3,4) have range: "- (2 ^ (LENGTH('a) - 1)) \<le> i" "i < 2 ^ (LENGTH('a) - 1)"
    "- (2 ^ (LENGTH('a) - 1)) \<le> j" "j < 2 ^ (LENGTH('a) - 1)"
    unfolding atLeastLessThan_iff by linarith+
  have "sint (word_of_int i :: 'a word) = i" "sint (word_of_int j :: 'a word) = j"
    using range by (simp_all add: signed_of_int signed_take_bit_int_eq_self)
  with eq show "i = j" by metis
qed simp

section \<open>Properties\<close>

text \<open>
  C32. No information is lost in mixing: \<open>twang_unmix64\<close> and \<open>jenkins_rev_unmix32\<close> invert their
  mixers on both sides, and with one half of the input fixed \<open>hash_128_to_64\<close> is a bijection of the
  other half.
\<close>

theorem mixers_bijective:
  "twang_unmix64 (twang_mix64 k64) = k64 \<and> twang_mix64 (twang_unmix64 k64) = k64 \<and>
   jenkins_rev_unmix32 (jenkins_rev_mix32 k32) = k32 \<and> jenkins_rev_mix32 (jenkins_rev_unmix32 k32) = k32 \<and>
   bij (hash_128_to_64 upper)"
  using twang.unmix_mix twang.mix_unmix jenkins.unmix_mix jenkins.mix_unmix hash128.mix_bij by blast

text \<open>
  \<open>commutative_hash_combine_range_generic\<close> does not depend on the order of the range, whatever
  the hasher and the seed: the constants of the accumulator make two successive steps commute in
  64-bit arithmetic.
\<close>

theorem commutative_hash_order_free:
  assumes "mset xs = mset ys"
  shows "commutative_hash_combine_range_generic avalanching hasher seed xs =
    commutative_hash_combine_range_generic avalanching hasher seed ys"
proof -
  let ?f = "\<lambda>x s. commutative_hash_combine_value_generic avalanching hasher s x"
  have "fold ?f xs = fold ?f ys"
    by (rule fold_multiset_equiv) (use assms in \<open>auto simp: fun_eq_iff commutative_step_swap\<close>)
  then show ?thesis by (simp add: commutative_range_fold)
qed

theorem commutative_hash_order_free_witness:
  "commutative_hash_combine_range_generic False of_nat 0 [1, 2, 3 :: nat] =
   commutative_hash_combine_range_generic False of_nat 0 [3, 1, 2]"
  by (rule commutative_hash_order_free) simp

text \<open>
  \<open>integral_hasher\<close> has no collisions on a signed type of at most 8 bytes: two numbers of the
  type have the same hash only if they are equal.
\<close>

theorem integral_hasher_collision_free:
  assumes "0 < n" "n \<le> 8"
    and "i \<in> {- (2 ^ (8 * n - 1))..<2 ^ (8 * n - 1)}" "j \<in> {- (2 ^ (8 * n - 1))..<2 ^ (8 * n - 1)}"
  shows "integral_hasher n i = integral_hasher n j \<longleftrightarrow> i = j"
proof (cases "n \<le> 4")
  case True
  have "(ucast a :: u64) = ucast b \<longleftrightarrow> a = b" for a b :: u32
    by transfer (simp add: take_bit_take_bit)
  with True show ?thesis
    using word_of_int_inject_range [of n i j, where 'a = 32] assms
    by (simp add: integral_hasher_def jenkins.mix_inject)
next
  case False
  then show ?thesis
    using word_of_int_inject_range [of n i j, where 'a = 64] assms
    by (simp add: integral_hasher_def twang.mix_inject)
qed

theorem integral_hasher_collision_free_witness: "integral_hasher 2 (- 7) \<noteq> integral_hasher 2 300"
  using integral_hasher_collision_free [of 2 "- 7" 300] by simp

text \<open>
  C33. The buffer hashes read nothing past the \<open>n\<close> bytes they are given and depend on nothing else;
  on a null-terminated string they stop at the terminator. FNV-1 and FNV-1a multiply by the FNV
  primes, so that a hash can be continued over the parts of a string.
\<close>

theorem buffer_hashes:
  assumes "n \<le> length buf" "0 \<notin> set str"
  shows "(\<exists>h. hsieh_hash32_buf buf n = Inr h) \<and> hsieh_hash32_buf (take n buf) n = hsieh_hash32_buf buf n \<and>
    fnv32_buf buf n h32 = fnv32_str (take n buf) h32 \<and> fnv64_buf buf n h64 = fnv64_str (take n buf) h64 \<and>
    fnva64_buf buf n h64 = fnva64 (take n buf) h64 \<and>
    fnv32 (str @ 0 # rest) h32 = fnv32_str str h32 \<and> fnv64 (str @ 0 # rest) h64 = fnv64_str str h64 \<and>
    fnv32_str (str @ more) h32 = andthen (fnv32_str str h32) (fnv32_str more) \<and>
    fnv64_str (str @ more) h64 = andthen (fnv64_str str h64) (fnv64_str more) \<and>
    fnva64 (str @ more) h64 = andthen (fnva64 str h64) (fnva64 more) \<and>
    fnv32_str str h32 = Inr (fold (\<lambda>c h. h * 16777619 XOR scast c) str h32) \<and>
    fnv64_str str h64 = Inr (fold (\<lambda>c h. h * 1099511628211 XOR scast c) str h64) \<and>
    fnva64 str h64 = Inr (fold (\<lambda>c h. (h XOR ucast c) * 1099511628211) str h64)"
proof -
  have steps: "fnv32_step = (\<lambda>c h. h * 16777619 XOR scast c)"
    "fnv64_step = (\<lambda>c h. h * 1099511628211 XOR scast c)"
    "fnva64_step = (\<lambda>c h. (h XOR ucast c) * 1099511628211)"
    by (simp_all add: fun_eq_iff fnv_steps)
  show ?thesis
    using hsieh_hash32_buf_Inr [OF assms(1)] hash_buf_eq_str [OF assms(1)] hash_cstr_eq_str [OF assms(2)]
    by (simp add: hash_str_fold flip: steps)
qed

theorem buffer_hashes_witness:
  "fnv32 [0x66, 0x6F, 0x6F, 0, 9] FNV_32_HASH_START = Inr 0x408F5E13 \<and>
   (\<exists>h. hsieh_hash32_buf [1, 2, 3, 4, 5, 6, 7, 8] 7 = Inr h)"
  using buffer_hashes [of 7 "[1, 2, 3, 4, 5, 6, 7, 8]" "[0x66, 0x6F, 0x6F]" FNV_32_HASH_START 0 "[9]" "[]"]
  by (simp add: FNV_32_HASH_START_def)

end
