(* ===== verification/Interleaving.thy ===== *)
theory Interleaving
  imports Prelude
begin

text \<open>
  Programs of several threads over one shared state.

  A component gives the atomic actions of one thread as a relation on the shared state and the
  thread's program point; \<open>interleave\<close> lets one thread of a list act at a time, which is the
  behaviour of operations on a single atomic object. The locale \<open>thread_invariant\<close> derives, from
  an invariant that every action of every thread keeps, that it holds in every reachable state.
  \<open>cnt\<close> counts the threads at a program point.
\<close>

inductive interleave ::
  "('s \<Rightarrow> 'p \<Rightarrow> 's \<Rightarrow> 'p \<Rightarrow> bool) \<Rightarrow> 's \<times> 'p list \<Rightarrow> 's \<times> 'p list \<Rightarrow> bool"
  for tstep where
  act: "i < length ts \<Longrightarrow> tstep s (ts ! i) s' p \<Longrightarrow> interleave tstep (s, ts) (s', ts[i := p])"

inductive_cases interleaveE: "interleave tstep (s, ts) x"

locale thread_invariant =
  fixes tstep :: "'s \<Rightarrow> 'p \<Rightarrow> 's \<Rightarrow> 'p \<Rightarrow> bool"
    and inv :: "'s \<Rightarrow> 'p list \<Rightarrow> bool"
  assumes inv_act: "inv s ts \<Longrightarrow> i < length ts \<Longrightarrow> tstep s (ts ! i) s' p \<Longrightarrow> inv s' (ts[i := p])"
begin

lemma inv_interleave: "interleave tstep (s, ts) (s', ts') \<Longrightarrow> inv s ts \<Longrightarrow> inv s' ts'"
  by (auto elim!: interleaveE intro: inv_act)

lemma inv_reachable:
  assumes "(interleave tstep)\<^sup>*\<^sup>* (s, ts) (s', ts')" "inv s ts"
  shows "inv s' ts'"
  using assms by (induction rule: rtranclp_induct2) (auto intro: inv_interleave)

end

lemma interleave_length: "(interleave tstep)\<^sup>*\<^sup>* (s, ts) (s', ts') \<Longrightarrow> length ts' = length ts"
  by (induction rule: rtranclp_induct2) (auto elim!: interleaveE)

text \<open>What one thread can do while the others wait.\<close>

definition alone :: "('s \<Rightarrow> 'p \<Rightarrow> 's \<Rightarrow> 'p \<Rightarrow> bool) \<Rightarrow> 's \<times> 'p \<Rightarrow> 's \<times> 'p \<Rightarrow> bool" where
  "alone tstep x y \<longleftrightarrow> tstep (fst x) (snd x) (fst y) (snd y)"

lemma alone_interleave:
  assumes "(alone tstep)\<^sup>*\<^sup>* (s, ts ! i) (s', p)" "i < length ts"
  shows "(interleave tstep)\<^sup>*\<^sup>* (s, ts) (s', ts[i := p])"
  using assms(1)
proof (induction rule: rtranclp_induct2)
  case (step s' p s'' q)
  then have "tstep s' (ts[i := p] ! i) s'' q" using assms(2) by (simp add: alone_def)
  then have "interleave tstep (s', ts[i := p]) (s'', ts[i := p, i := q])" using assms(2) by (intro act) auto
  with step.IH show ?case by simp
qed simp

lemma alone_step: "tstep s p s' p' \<Longrightarrow> (alone tstep)\<^sup>*\<^sup>* (s', p') y \<Longrightarrow> (alone tstep)\<^sup>*\<^sup>* (s, p) y"
  by (rule converse_rtranclp_into_rtranclp) (simp_all add: alone_def)

section \<open>Counting threads\<close>

definition cnt :: "('p \<Rightarrow> bool) \<Rightarrow> 'p list \<Rightarrow> nat" where
  "cnt P ts = length (filter P ts)"

lemma cnt_le_length: "cnt P ts \<le> length ts"
  by (simp add: cnt_def)

lemma cnt_Nil [simp]: "cnt P [] = 0"
  by (simp add: cnt_def)

lemma cnt_Cons [simp]: "cnt P (t # ts) = (if P t then Suc (cnt P ts) else cnt P ts)"
  by (simp add: cnt_def)

lemma cnt_replicate: "cnt P (replicate n t) = (if P t then n else 0)"
  by (simp add: cnt_def filter_replicate)

lemma cnt_update:
  "i < length ts \<Longrightarrow> cnt P (ts[i := t]) + of_bool (P (ts ! i)) = cnt P ts + of_bool (P t)"
proof (induction ts arbitrary: i)
  case (Cons a ts)
  then show ?case by (cases i) auto
qed simp

lemma cnt_eq_0_iff: "cnt P ts = 0 \<longleftrightarrow> (\<forall>i<length ts. \<not> P (ts ! i))"
  by (simp add: cnt_def filter_empty_conv all_set_conv_all_nth)

lemma cnt_pos: "i < length ts \<Longrightarrow> P (ts ! i) \<Longrightarrow> 0 < cnt P ts"
  using cnt_eq_0_iff by (metis gr0I)

lemma cnt_ge_2:
  assumes "i < length ts" "j < length ts" "i \<noteq> j" "P (ts ! i)" "P (ts ! j)"
  shows "2 \<le> cnt P ts"
proof -
  have "card {i, j} \<le> card {k. k < length ts \<and> P (ts ! k)}" using assms by (intro card_mono) auto
  then show ?thesis using assms(3) by (simp add: cnt_def length_filter_conv_card)
qed

lemma cnt_disjoint:
  "(\<And>t. \<not> (P t \<and> Q t)) \<Longrightarrow> cnt P ts + cnt Q ts = cnt (\<lambda>t. P t \<or> Q t) ts"
  by (induction ts) auto

lemma cnt_single:
  assumes "i < length ts" "\<forall>j<length ts. j \<noteq> i \<longrightarrow> \<not> P (ts ! j)"
  shows "cnt P ts = of_bool (P (ts ! i))"
proof -
  have "{k. k < length ts \<and> P (ts ! k)} = (if P (ts ! i) then {i} else {})" using assms by auto
  then show ?thesis by (simp add: cnt_def length_filter_conv_card)
qed

end
