(* ===== verification/Folly_RWSpinLock.thy ===== *)
theory Folly_RWSpinLock
  imports Interleaving
begin

text \<open>
  \<open>RWSpinLock\<close> of \<open>folly/synchronization/RWSpinLock.h\<close>: a reader/writer lock with upgrade in one
  32-bit atomic word.

  Each atomic access of a method is one function on the word; the program points \<open>rw_pc\<close> are the
  points between two accesses of a method and the modes in which a client holds the lock. A client
  is one holder of the lock (an object of class \<open>ReadHolder\<close>, \<open>UpgradedHolder\<close> or \<open>WriteHolder\<close>,
  or a thread between a call that acquires and the call that releases). \<open>rw_act\<close> is the relation of
  the accesses of one client, and any number of clients run interleaved. Since all accesses are to
  one atomic object, their order is total; the memory-order arguments, the spin counters and
  \<open>yield\<close>, which affect neither the word nor the program point, are left out.
\<close>

section \<open>The word\<close>

definition READER :: u32 where "READER = 4"
definition UPGRADED :: u32 where "UPGRADED = 2"
definition WRITER :: u32 where "WRITER = 1"

definition rw_init :: u32 where "rw_init = 0"

definition rw_try_lock :: "u32 \<Rightarrow> bool \<times> u32" where
  "rw_try_lock bits = (if bits = 0 then (True, WRITER) else (False, bits))"

definition rw_unlock :: "u32 \<Rightarrow> u32" where
  "rw_unlock bits = bits AND NOT (WRITER OR UPGRADED)"

text \<open>\<open>try_lock_shared\<close> adds a reader, and takes it back if the old value shows a writer or an
  upgraded holder.\<close>

definition rw_try_lock_shared_add :: "u32 \<Rightarrow> bool \<times> u32" where
  "rw_try_lock_shared_add bits = (bits AND (WRITER OR UPGRADED) = 0, bits + READER)"

definition rw_try_lock_shared_undo :: "u32 \<Rightarrow> u32" where
  "rw_try_lock_shared_undo bits = bits + - READER"

definition rw_unlock_shared :: "u32 \<Rightarrow> u32" where
  "rw_unlock_shared bits = bits + - READER"

definition rw_try_lock_upgrade :: "u32 \<Rightarrow> bool \<times> u32" where
  "rw_try_lock_upgrade bits = (bits AND (UPGRADED OR WRITER) = 0, bits OR UPGRADED)"

definition rw_unlock_upgrade :: "u32 \<Rightarrow> u32" where
  "rw_unlock_upgrade bits = bits + - UPGRADED"

definition rw_try_unlock_upgrade_and_lock :: "u32 \<Rightarrow> bool \<times> u32" where
  "rw_try_unlock_upgrade_and_lock bits = (if bits = UPGRADED then (True, WRITER) else (False, bits))"

definition rw_unlock_upgrade_and_lock_shared :: "u32 \<Rightarrow> u32" where
  "rw_unlock_upgrade_and_lock_shared bits = bits + (READER - UPGRADED)"

text \<open>The methods of two accesses: first the access below, then \<open>unlock\<close> or the clearing of the
  writer bit.\<close>

definition rw_unlock_and_lock_shared_add :: "u32 \<Rightarrow> u32" where
  "rw_unlock_and_lock_shared_add bits = bits + READER"

definition rw_unlock_and_lock_upgrade_set :: "u32 \<Rightarrow> u32" where
  "rw_unlock_and_lock_upgrade_set bits = bits OR UPGRADED"

definition rw_unlock_and_lock_upgrade_clear :: "u32 \<Rightarrow> u32" where
  "rw_unlock_and_lock_upgrade_clear bits = bits + - WRITER"

section \<open>Clients\<close>

text \<open>
  \<open>Spin_\<dots>\<close> is a client inside one of the loops of \<open>lock\<close>, \<open>lock_shared\<close>, \<open>lock_upgrade\<close> and
  \<open>unlock_upgrade_and_lock\<close>; \<open>Back_Off loop\<close> is inside \<open>try_lock_shared\<close> after the first access
  failed, called from the loop or not; \<open>Downgrade\<close> and \<open>Writer_To_Upgraded\<close> are inside
  \<open>unlock_and_lock_shared\<close> and \<open>unlock_and_lock_upgrade\<close>.
\<close>

datatype rw_pc =
    Idle
  | Spin_Lock
  | Spin_Shared
  | Back_Off bool
  | Spin_Upgrade
  | Spin_Promote
  | Shared
  | Upgraded
  | Writer
  | Downgrade
  | Writer_To_Upgraded

inductive rw_act :: "u32 \<Rightarrow> rw_pc \<Rightarrow> u32 \<Rightarrow> rw_pc \<Rightarrow> bool" where
  try_lock: "rw_try_lock b = (ok, b') \<Longrightarrow> rw_act b Idle b' (if ok then Writer else Idle)"
| lock_call: "rw_act b Idle b Spin_Lock"
| lock_spin: "rw_try_lock b = (ok, b') \<Longrightarrow> rw_act b Spin_Lock b' (if ok then Writer else Spin_Lock)"
| unlock: "rw_act b Writer (rw_unlock b) Idle"
| try_lock_shared:
    "rw_try_lock_shared_add b = (ok, b') \<Longrightarrow> rw_act b Idle b' (if ok then Shared else Back_Off False)"
| lock_shared_call: "rw_act b Idle b Spin_Shared"
| lock_shared_spin:
    "rw_try_lock_shared_add b = (ok, b') \<Longrightarrow>
     rw_act b Spin_Shared b' (if ok then Shared else Back_Off True)"
| back_off: "rw_act b (Back_Off spin) (rw_try_lock_shared_undo b) (if spin then Spin_Shared else Idle)"
| unlock_shared: "rw_act b Shared (rw_unlock_shared b) Idle"
| try_lock_upgrade:
    "rw_try_lock_upgrade b = (ok, b') \<Longrightarrow> rw_act b Idle b' (if ok then Upgraded else Idle)"
| lock_upgrade_call: "rw_act b Idle b Spin_Upgrade"
| lock_upgrade_spin:
    "rw_try_lock_upgrade b = (ok, b') \<Longrightarrow> rw_act b Spin_Upgrade b' (if ok then Upgraded else Spin_Upgrade)"
| unlock_upgrade: "rw_act b Upgraded (rw_unlock_upgrade b) Idle"
| try_promote:
    "rw_try_unlock_upgrade_and_lock b = (ok, b') \<Longrightarrow>
     rw_act b Upgraded b' (if ok then Writer else Upgraded)"
| promote_call: "rw_act b Upgraded b Spin_Promote"
| promote_spin:
    "rw_try_unlock_upgrade_and_lock b = (ok, b') \<Longrightarrow>
     rw_act b Spin_Promote b' (if ok then Writer else Spin_Promote)"
| unlock_upgrade_and_lock_shared: "rw_act b Upgraded (rw_unlock_upgrade_and_lock_shared b) Shared"
| unlock_and_lock_shared: "rw_act b Writer (rw_unlock_and_lock_shared_add b) Downgrade"
| downgrade: "rw_act b Downgrade (rw_unlock b) Shared"
| unlock_and_lock_upgrade: "rw_act b Writer (rw_unlock_and_lock_upgrade_set b) Writer_To_Upgraded"
| to_upgraded: "rw_act b Writer_To_Upgraded (rw_unlock_and_lock_upgrade_clear b) Upgraded"

inductive_cases rw_actE: "rw_act b p b' p'"

section \<open>What the word encodes\<close>

text \<open>\<open>rw_pack r u w\<close> is the word with \<open>r\<close> readers, the upgraded bit \<open>u\<close> and the writer bit \<open>w\<close>.\<close>

definition rw_pack :: "nat \<Rightarrow> bool \<Rightarrow> bool \<Rightarrow> u32" where
  "rw_pack r u w = of_nat (4 * r + 2 * of_bool u + of_bool w)"

lemma rw_pack_or: "rw_pack r u w = push_bit 2 (of_nat r) OR (2 * of_bool u + of_bool w)"
proof -
  have "\<not> bit (push_bit 2 (of_nat r) :: u32) n \<or> \<not> bit (2 * of_bool u + of_bool w :: u32) n" for n
  proof (cases "n < 2")
    case False
    then obtain k where "n = Suc (Suc k)" by (metis add_2_eq_Suc le_Suc_ex not_less)
    then show ?thesis by (cases u; cases w) (simp_all add: bit_numeral_rec)
  qed (auto simp: bit_simps)
  then have "push_bit 2 (of_nat r) + (2 * of_bool u + of_bool w) =
      (push_bit 2 (of_nat r) OR (2 * of_bool u + of_bool w) :: u32)"
    by (intro disjunctive_add) blast
  then show ?thesis by (simp add: rw_pack_def push_bit_eq_mult algebra_simps)
qed

lemma rw_pack_bits:
  "rw_pack r u w AND (WRITER OR UPGRADED) = 0 \<longleftrightarrow> \<not> u \<and> \<not> w"
  "rw_pack r u w AND (UPGRADED OR WRITER) = 0 \<longleftrightarrow> \<not> u \<and> \<not> w"
  "rw_pack r u w AND NOT (WRITER OR UPGRADED) = rw_pack r False False"
  "rw_pack r u w OR UPGRADED = rw_pack r True w"
proof -
  have mask: "(3 :: u32) = mask 2" by (simp add: mask_eq_exp_minus_1)
  have low: "push_bit 2 x AND (3 :: u32) = 0" for x
    unfolding mask by (rule bit_word_eqI) (auto simp: bit_simps)
  have high: "push_bit 2 x AND NOT (3 :: u32) = push_bit 2 x" for x
    unfolding mask by (rule bit_word_eqI) (auto simp: bit_simps)
  have three: "WRITER OR UPGRADED = 3" "UPGRADED OR WRITER = 3" by (simp_all add: WRITER_def UPGRADED_def)
  show "rw_pack r u w AND (WRITER OR UPGRADED) = 0 \<longleftrightarrow> \<not> u \<and> \<not> w"
    "rw_pack r u w AND (UPGRADED OR WRITER) = 0 \<longleftrightarrow> \<not> u \<and> \<not> w"
    unfolding three rw_pack_or bit.conj_disj_distrib2 low by (cases u; cases w; simp)+
  show "rw_pack r u w AND NOT (WRITER OR UPGRADED) = rw_pack r False False"
    unfolding three rw_pack_or bit.conj_disj_distrib2 high by (cases u; cases w; simp)
  show "rw_pack r u w OR UPGRADED = rw_pack r True w"
    unfolding rw_pack_or or.assoc UPGRADED_def by (cases u; cases w; simp)
qed

lemma rw_pack_arith:
  "rw_pack r u w + READER = rw_pack (Suc r) u w"
  "0 < r \<Longrightarrow> rw_pack r u w + - READER = rw_pack (r - 1) u w"
  "rw_pack r True w + - UPGRADED = rw_pack r False w"
  "rw_pack r True w + (READER - UPGRADED) = rw_pack (Suc r) False w"
  "rw_pack r u True + - WRITER = rw_pack r u False"
  "rw_pack 0 False True = WRITER" "rw_pack 0 True False = UPGRADED" "rw_pack 0 False False = 0"
  by (simp_all add: rw_pack_def READER_def UPGRADED_def WRITER_def of_nat_diff)

lemma rw_pack_eq_iff:
  assumes "r < 2 ^ 30" "r' < 2 ^ 30"
  shows "rw_pack r u w = rw_pack r' u' w' \<longleftrightarrow> r = r' \<and> u = u' \<and> w = w'"
proof
  assume eq: "rw_pack r u w = rw_pack r' u' w'"
  have "4 * r + 2 * of_bool u + of_bool w < 2 ^ 32" "4 * r' + 2 * of_bool u' + of_bool w' < 2 ^ 32"
    using assms by (auto simp: of_bool_def)
  with eq have "4 * r + 2 * of_bool u + of_bool w = 4 * r' + 2 * of_bool u' + of_bool w'"
    using of_nat_word_inject [where 'a = 32] by (simp add: rw_pack_def del: of_nat_add of_nat_mult)
  then show "r = r' \<and> u = u' \<and> w = w'" by (cases u; cases w; cases u'; cases w'; simp; presburger)
qed simp

lemma rw_pack_zero:
  assumes "r < 2 ^ 30"
  shows "rw_pack r u w = 0 \<longleftrightarrow> r = 0 \<and> \<not> u \<and> \<not> w" "rw_pack r u w = UPGRADED \<longleftrightarrow> r = 0 \<and> u \<and> \<not> w"
  using rw_pack_eq_iff [OF assms, of 0 u w False False] rw_pack_eq_iff [OF assms, of 0 u w True False]
  by (simp_all add: rw_pack_arith)

lemma rw_ops_pack:
  "rw_unlock (rw_pack r u w) = rw_pack r False False"
  "rw_try_lock_shared_add (rw_pack r u w) = (\<not> u \<and> \<not> w, rw_pack (Suc r) u w)"
  "0 < r \<Longrightarrow> rw_try_lock_shared_undo (rw_pack r u w) = rw_pack (r - 1) u w"
  "0 < r \<Longrightarrow> rw_unlock_shared (rw_pack r u w) = rw_pack (r - 1) u w"
  "rw_try_lock_upgrade (rw_pack r u w) = (\<not> u \<and> \<not> w, rw_pack r True w)"
  "rw_unlock_upgrade (rw_pack r True w) = rw_pack r False w"
  "rw_unlock_upgrade_and_lock_shared (rw_pack r True w) = rw_pack (Suc r) False w"
  "rw_unlock_and_lock_shared_add (rw_pack r u w) = rw_pack (Suc r) u w"
  "rw_unlock_and_lock_upgrade_set (rw_pack r u w) = rw_pack r True w"
  "rw_unlock_and_lock_upgrade_clear (rw_pack r u True) = rw_pack r u False"
  unfolding rw_unlock_def rw_try_lock_shared_add_def rw_try_lock_shared_undo_def rw_unlock_shared_def
    rw_try_lock_upgrade_def rw_unlock_upgrade_def rw_unlock_upgrade_and_lock_shared_def
    rw_unlock_and_lock_shared_add_def rw_unlock_and_lock_upgrade_set_def
    rw_unlock_and_lock_upgrade_clear_def
  by (simp_all only: rw_pack_bits rw_pack_arith)

lemma rw_cas_pack:
  assumes "r < 2 ^ 30"
  shows "rw_try_lock (rw_pack r u w) =
      (r = 0 \<and> \<not> u \<and> \<not> w, if r = 0 \<and> \<not> u \<and> \<not> w then rw_pack 0 False True else rw_pack r u w)"
    "rw_try_unlock_upgrade_and_lock (rw_pack r u w) =
      (r = 0 \<and> u \<and> \<not> w, if r = 0 \<and> u \<and> \<not> w then rw_pack 0 False True else rw_pack r u w)"
  using rw_pack_zero [OF assms] by (simp_all add: rw_try_lock_def rw_try_unlock_upgrade_and_lock_def rw_pack_arith(6))

section \<open>The invariant\<close>

definition writing :: "rw_pc \<Rightarrow> bool" where
  "writing p \<longleftrightarrow> p \<in> {Writer, Downgrade, Writer_To_Upgraded}"

definition upgrading :: "rw_pc \<Rightarrow> bool" where
  "upgrading p \<longleftrightarrow> p \<in> {Upgraded, Spin_Promote}"

definition counted :: "rw_pc \<Rightarrow> bool" where
  "counted p \<longleftrightarrow> p \<in> {Shared, Back_Off True, Back_Off False, Downgrade}"

definition reading :: "rw_pc \<Rightarrow> bool" where
  "reading p \<longleftrightarrow> p = Shared"

definition converting :: "rw_pc \<Rightarrow> bool" where
  "converting p \<longleftrightarrow> p = Writer_To_Upgraded"

text \<open>
  At most one client writes or is upgraded; a writer excludes readers; the word counts the readers
  that hold the lock or are about to back off; the writer bit is set exactly when a client writes;
  the upgraded bit is set exactly when a client is upgraded, except that during a write a failed
  \<open>try_lock_upgrade\<close> may have set it.
\<close>

definition rw_inv :: "u32 \<Rightarrow> rw_pc list \<Rightarrow> bool" where
  "rw_inv b ts \<longleftrightarrow>
     length ts < 2 ^ 30 \<and> cnt writing ts + cnt upgrading ts \<le> 1 \<and>
     (cnt writing ts = 1 \<longrightarrow> cnt reading ts = 0) \<and>
     (\<exists>u. b = rw_pack (cnt counted ts) u (cnt writing ts = 1) \<and>
        (cnt writing ts = 0 \<longrightarrow> (u \<longleftrightarrow> cnt upgrading ts = 1)) \<and> (cnt converting ts = 1 \<longrightarrow> u))"

lemmas rw_modes = writing_def upgrading_def counted_def reading_def converting_def

lemma converting_le_writing: "cnt converting ts \<le> cnt writing ts"
  by (induction ts) (auto simp: rw_modes)

lemma reading_le_counted: "cnt reading ts \<le> cnt counted ts"
  by (induction ts) (auto simp: rw_modes)

lemma rw_inv_init: "n < 2 ^ 30 \<Longrightarrow> rw_inv rw_init (replicate n Idle)"
  by (auto simp: rw_inv_def cnt_replicate rw_modes rw_pack_arith rw_init_def intro!: exI [of _ False])

lemma rw_inv_act:
  assumes inv: "rw_inv b ts" and i: "i < length ts" and act: "rw_act b (ts ! i) b' p"
  shows "rw_inv b' (ts[i := p])"
proof -
  obtain u where b: "b = rw_pack (cnt counted ts) u (cnt writing ts = 1)"
    and u: "cnt writing ts = 0 \<longrightarrow> (u \<longleftrightarrow> cnt upgrading ts = 1)" "cnt converting ts = 1 \<longrightarrow> u"
    and lim: "length ts < 2 ^ 30" "cnt writing ts + cnt upgrading ts \<le> 1"
      "cnt writing ts = 1 \<longrightarrow> cnt reading ts = 0"
    using inv unfolding rw_inv_def by (elim conjE exE) (rule that)
  have r: "cnt counted ts < 2 ^ 30" using cnt_le_length lim(1) by (rule le_less_trans)
  note upd = cnt_update [OF i, of writing p] cnt_update [OF i, of upgrading p] cnt_update [OF i, of counted p]
    cnt_update [OF i, of reading p] cnt_update [OF i, of converting p]
  have pos: "writing (ts ! i) \<Longrightarrow> cnt writing ts \<noteq> 0" "upgrading (ts ! i) \<Longrightarrow> cnt upgrading ts \<noteq> 0"
    "counted (ts ! i) \<Longrightarrow> 0 < cnt counted ts"
    using cnt_pos [OF i] by blast+
  have dec: "counted (ts ! i) \<Longrightarrow> \<not> counted p \<Longrightarrow> cnt counted ts - Suc 0 = cnt counted (ts[i := p])"
    using upd(3) by simp
  note le = converting_le_writing [of ts] converting_le_writing [of "ts[i := p]"] reading_le_counted [of ts]
  consider "cnt writing ts = 0" "cnt upgrading ts = 0" | "cnt writing ts = 1" "cnt upgrading ts = 0"
    | "cnt writing ts = 0" "cnt upgrading ts = 1" using lim(2) by linarith
  then show ?thesis
  proof cases
    case 1
    from act show ?thesis
      by (cases rule: rw_act.cases; cases u; use upd pos dec le r lim(1,3) u 1 in
        \<open>simp add: b rw_ops_pack rw_cas_pack rw_modes rw_inv_def ex_bool_eq split: if_splits\<close>)
  next
    case 2
    from act show ?thesis
      by (cases rule: rw_act.cases; cases u; use upd pos dec le r lim(1,3) u 2 in
        \<open>simp add: b rw_ops_pack rw_cas_pack rw_modes rw_inv_def ex_bool_eq split: if_splits\<close>)
  next
    case 3
    from act show ?thesis
      by (cases rule: rw_act.cases; cases u; use upd pos dec le r lim(1,3) u 3 in
        \<open>simp add: b rw_ops_pack rw_cas_pack rw_modes rw_inv_def ex_bool_eq split: if_splits\<close>)
  qed
qed

interpretation rw: thread_invariant rw_act rw_inv
  by unfold_locales (rule rw_inv_act)

lemma rw_reachable_inv:
  "n < 2 ^ 30 \<Longrightarrow> (interleave rw_act)\<^sup>*\<^sup>* (rw_init, replicate n Idle) (b, ts) \<Longrightarrow> rw_inv b ts"
  using rw.inv_reachable rw_inv_init by blast

section \<open>Progress\<close>

definition quiet :: "rw_pc \<Rightarrow> bool" where
  "quiet p \<longleftrightarrow> \<not> counted p \<and> \<not> writing p \<and> \<not> upgrading p"

lemma release_alone:
  assumes "p \<noteq> Spin_Promote"
  shows "\<exists>b' q. (alone rw_act)\<^sup>*\<^sup>* (b, p) (b', q) \<and> quiet q"
proof -
  note acts = unlock unlock_shared unlock_upgrade back_off downgrade to_upgraded
  have one: "rw_act b p b' q \<Longrightarrow> quiet q \<Longrightarrow> ?thesis" for b' q using alone_step [of rw_act b p b' q] by blast
  have two: "rw_act b p b' q \<Longrightarrow> rw_act b' q b'' q' \<Longrightarrow> quiet q' \<Longrightarrow> ?thesis" for b' q b'' q'
    using alone_step [of rw_act b p b' q] alone_step [of rw_act b' q b'' q'] by blast
  show ?thesis
  proof (cases p)
    case (Back_Off spin)
    then show ?thesis using one [of "rw_try_lock_shared_undo b"] back_off [of b spin]
      by (auto simp: quiet_def rw_modes)
  next
    case Shared
    then show ?thesis using one [OF _, of _ Idle] unlock_shared by (auto simp: quiet_def rw_modes)
  next
    case Upgraded
    then show ?thesis using one [OF _, of _ Idle] unlock_upgrade by (auto simp: quiet_def rw_modes)
  next
    case Writer
    then show ?thesis using one [OF _, of _ Idle] unlock by (auto simp: quiet_def rw_modes)
  next
    case Downgrade
    then show ?thesis using two [OF _ unlock_shared] downgrade by (auto simp: quiet_def rw_modes)
  next
    case Writer_To_Upgraded
    then show ?thesis using two [OF _ unlock_upgrade] to_upgraded by (auto simp: quiet_def rw_modes)
  qed (use assms in \<open>auto simp: quiet_def rw_modes\<close>)
qed

lemma others_release:
  "\<exists>b' ts'. (interleave rw_act)\<^sup>*\<^sup>* (b, ts) (b', ts') \<and> (i < length ts \<longrightarrow> ts' ! i = ts ! i) \<and>
     (\<forall>j<length ts. j \<noteq> i \<longrightarrow> quiet (ts' ! j) \<or> ts' ! j = Spin_Promote)"
proof (induction "card {j. j < length ts \<and> j \<noteq> i \<and> \<not> quiet (ts ! j) \<and> ts ! j \<noteq> Spin_Promote}"
    arbitrary: b ts)
  case 0
  then show ?case by auto
next
  case (Suc n)
  let ?bad = "\<lambda>ts. {j. j < length ts \<and> j \<noteq> i \<and> \<not> quiet (ts ! j) \<and> ts ! j \<noteq> Spin_Promote}"
  from Suc.hyps(2) have "?bad ts \<noteq> {}" by (metis card.empty nat.distinct(1))
  then obtain j where j: "j < length ts" "j \<noteq> i" "\<not> quiet (ts ! j)" "ts ! j \<noteq> Spin_Promote" by blast
  obtain b' q where q: "(alone rw_act)\<^sup>*\<^sup>* (b, ts ! j) (b', q)" "quiet q"
    using release_alone [OF j(4)] by blast
  have "?bad (ts[j := q]) = ?bad ts - {j}" using j q(2) by (auto simp: nth_list_update)
  then have "n = card (?bad (ts[j := q]))" using Suc.hyps(2) j by simp
  from Suc.hyps(1) [OF this, of b'] alone_interleave [OF q(1) j(1)] j(1,2) show ?case
    by (auto intro: rtranclp_trans)
qed

lemma rw_inv_word:
  assumes "rw_inv b ts" "cnt writing ts = 0"
  shows "b = rw_pack (cnt counted ts) (cnt upgrading ts = 1) False"
  using assms unfolding rw_inv_def by auto

text \<open>The mode that a waiting client asks for.\<close>

fun rw_wanted :: "rw_pc \<Rightarrow> rw_pc option" where
  "rw_wanted Spin_Lock = Some Writer"
| "rw_wanted Spin_Promote = Some Writer"
| "rw_wanted Spin_Shared = Some Shared"
| "rw_wanted Spin_Upgrade = Some Upgraded"
| "rw_wanted (Back_Off True) = Some Shared"
| "rw_wanted p = None"

lemma rw_wanted_cases:
  assumes "rw_wanted p = Some g" "p \<noteq> Back_Off True"
  shows "p = Spin_Lock \<and> g = Writer \<or> p = Spin_Promote \<and> g = Writer \<or>
    p = Spin_Shared \<and> g = Shared \<or> p = Spin_Upgrade \<and> g = Upgraded"
  using assms by (cases p rule: rw_wanted.cases) auto

lemma rw_grant:
  assumes inv: "rw_inv b ts" and i: "i < length ts" and others: "\<forall>j<length ts. j \<noteq> i \<longrightarrow> quiet (ts ! j)"
    and wanted: "rw_wanted (ts ! i) = Some g" "ts ! i \<noteq> Back_Off True"
  shows "\<exists>b'. rw_act b (ts ! i) b' g"
proof -
  have n: "cnt P ts = of_bool (P (ts ! i))" if "P \<in> {counted, writing, upgrading}" for P
    using that others by (intro cnt_single [OF i]) (auto simp: quiet_def)
  note n = n [of counted] n [of writing] n [of upgrading]
  from rw_wanted_cases [OF wanted] show ?thesis
  proof (elim disjE conjE)
    assume p: "ts ! i = Spin_Lock" "g = Writer"
    then have "b = rw_pack 0 False False" using n rw_inv_word [OF inv] by (simp add: rw_modes)
    then show ?thesis using lock_spin [of b True] p by (auto simp: rw_cas_pack)
  next
    assume p: "ts ! i = Spin_Promote" "g = Writer"
    then have "b = rw_pack 0 True False" using n rw_inv_word [OF inv] by (simp add: rw_modes)
    then show ?thesis using promote_spin [of b True] p by (auto simp: rw_cas_pack)
  next
    assume p: "ts ! i = Spin_Shared" "g = Shared"
    then have "b = rw_pack 0 False False" using n rw_inv_word [OF inv] by (simp add: rw_modes)
    then show ?thesis using lock_shared_spin [of b True] p by (auto simp: rw_ops_pack)
  next
    assume p: "ts ! i = Spin_Upgrade" "g = Upgraded"
    then have "b = rw_pack 0 False False" using n rw_inv_word [OF inv] by (simp add: rw_modes)
    then show ?thesis using lock_upgrade_spin [of b True] p by (auto simp: rw_ops_pack)
  qed
qed

lemma promoter_finishes:
  assumes inv: "rw_inv b ts" and ij: "i < length ts" "j < length ts" "j \<noteq> i" "ts ! j = Spin_Promote"
    and others: "\<forall>k<length ts. k \<noteq> i \<longrightarrow> quiet (ts ! k) \<or> ts ! k = Spin_Promote"
    and wanted: "rw_wanted (ts ! i) = Some g" "ts ! i \<noteq> Back_Off True"
  shows "\<exists>b'. (interleave rw_act)\<^sup>*\<^sup>* (b, ts) (b', ts[j := Idle])"
    and "\<forall>k<length ts. k \<noteq> i \<longrightarrow> quiet (ts[j := Idle] ! k)"
proof -
  have up: "upgrading (ts ! j)" using ij(4) by (simp add: rw_modes)
  have lim: "cnt writing ts + cnt upgrading ts \<le> 1" using inv unfolding rw_inv_def by blast
  have U: "cnt upgrading ts = 1" "cnt writing ts = 0" using cnt_pos [OF ij(2), of upgrading, OF up] lim by linarith+
  have single: "\<not> upgrading (ts ! k)" if "k < length ts" "k \<noteq> j" for k
    using cnt_ge_2 [of k ts j upgrading] that ij up U by auto
  have "\<not> counted (ts ! k)" if "k < length ts" for k
    using others [rule_format, OF that] rw_wanted_cases [OF wanted] by (cases "k = i") (auto simp: quiet_def rw_modes)
  then have "cnt counted ts = 0" by (simp add: cnt_eq_0_iff)
  with rw_inv_word [OF inv U(2)] U(1) have b: "b = rw_pack 0 True False" by simp
  have "(alone rw_act)\<^sup>*\<^sup>* (b, ts ! j) (rw_unlock (rw_pack 0 False True), Idle)"
  proof -
    have "rw_act b (ts ! j) (rw_pack 0 False True) Writer"
      using promote_spin [of b True "rw_pack 0 False True"] ij(4) by (simp add: b rw_cas_pack)
    from alone_step [of rw_act, OF this] alone_step [of rw_act, OF unlock] show ?thesis by blast
  qed
  from alone_interleave [OF this ij(2)] show "\<exists>b'. (interleave rw_act)\<^sup>*\<^sup>* (b, ts) (b', ts[j := Idle])" by blast
  show "\<forall>k<length ts. k \<noteq> i \<longrightarrow> quiet (ts[j := Idle] ! k)"
  proof (intro allI impI)
    fix k assume k: "k < length ts" "k \<noteq> i"
    show "quiet (ts[j := Idle] ! k)"
      using others [rule_format, OF k] single [of k] k ij(2)
      by (cases "k = j") (auto simp: rw_modes quiet_def)
  qed
qed

lemma rw_can_finish_spin:
  assumes inv: "rw_inv b ts" and i: "i < length ts"
    and wanted: "rw_wanted (ts ! i) = Some g" "ts ! i \<noteq> Back_Off True"
  shows "\<exists>b' ts'. (interleave rw_act)\<^sup>*\<^sup>* (b, ts) (b', ts') \<and> ts' ! i = g"
proof -
  obtain b1 ts1 where r1: "(interleave rw_act)\<^sup>*\<^sup>* (b, ts) (b1, ts1)" "ts1 ! i = ts ! i"
    and q1: "\<forall>j<length ts. j \<noteq> i \<longrightarrow> quiet (ts1 ! j) \<or> ts1 ! j = Spin_Promote"
    using others_release [of b ts i] i by blast
  have len1: "length ts1 = length ts" using interleave_length [OF r1(1)] .
  have inv1: "rw_inv b1 ts1" using rw.inv_reachable [OF r1(1) inv] .
  have "\<exists>b2 ts2. (interleave rw_act)\<^sup>*\<^sup>* (b1, ts1) (b2, ts2) \<and> ts2 ! i = ts ! i \<and>
    (\<forall>j<length ts. j \<noteq> i \<longrightarrow> quiet (ts2 ! j))"
  proof (cases "\<exists>j<length ts. j \<noteq> i \<and> ts1 ! j = Spin_Promote")
    case True
    then obtain j where j: "j < length ts" "j \<noteq> i" "ts1 ! j = Spin_Promote" by blast
    with promoter_finishes [OF inv1, of i j g] i q1 wanted r1(2) len1 show ?thesis
      by (metis nth_list_update_neq)
  qed (use q1 r1(2) in blast)
  then obtain b2 ts2 where r2: "(interleave rw_act)\<^sup>*\<^sup>* (b1, ts1) (b2, ts2)" "ts2 ! i = ts ! i"
    and q2: "\<forall>j<length ts. j \<noteq> i \<longrightarrow> quiet (ts2 ! j)" by blast
  have len2: "length ts2 = length ts" using interleave_length [OF r2(1)] len1 by simp
  obtain b3 where "rw_act b2 (ts2 ! i) b3 g"
    using rw_grant [OF rw.inv_reachable [OF r2(1) inv1], of i g] i q2 wanted r2(2) len2 by auto
  then have "interleave rw_act (b2, ts2) (b3, ts2[i := g])" using i len2 by (intro act) auto
  with r1(1) r2(1) have "(interleave rw_act)\<^sup>*\<^sup>* (b, ts) (b3, ts2[i := g])" by simp
  then show ?thesis using i len2 by (metis nth_list_update_eq)
qed

lemma rw_can_finish:
  assumes inv: "rw_inv b ts" and i: "i < length ts" and wanted: "rw_wanted (ts ! i) = Some g"
  shows "\<exists>b' ts'. (interleave rw_act)\<^sup>*\<^sup>* (b, ts) (b', ts') \<and> ts' ! i = g"
proof (cases "ts ! i = Back_Off True")
  case True
  with wanted have g: "g = Shared" by simp
  let ?b = "rw_try_lock_shared_undo b" and ?ts = "ts[i := Spin_Shared]"
  have s: "interleave rw_act (b, ts) (?b, ?ts)" using back_off [of b True] True i by (auto intro: act)
  obtain b' ts' where "(interleave rw_act)\<^sup>*\<^sup>* (?b, ?ts) (b', ts')" "ts' ! i = g"
    using rw_can_finish_spin [OF rw.inv_interleave [OF s inv], of i g] i g by auto
  with s have "(interleave rw_act)\<^sup>*\<^sup>* (b, ts) (b', ts')" by (intro converse_rtranclp_into_rtranclp [of "interleave rw_act", OF s])
  with \<open>ts' ! i = g\<close> show ?thesis by blast
qed (use rw_can_finish_spin [OF inv i wanted] in blast)

section \<open>Properties\<close>

text \<open>
  C3. Mutual exclusion. In every state that fewer than \<open>2 ^ 30\<close> clients can reach by any
  interleaving of the accesses of their calls: while one client writes (downgrading and conversion
  to an upgraded lock included), no other client reads, writes or is upgraded; while one is upgraded,
  no other writes or is upgraded. The word is 0 exactly when no client holds the lock or is inside
  a call that has changed it.
\<close>

theorem rw_mutual_exclusion:
  assumes "n < 2 ^ 30" "(interleave rw_act)\<^sup>*\<^sup>* (rw_init, replicate n Idle) (b, ts)" "i < n" "j < n" "i \<noteq> j"
  shows "(writing (ts ! i) \<longrightarrow> \<not> reading (ts ! j) \<and> \<not> writing (ts ! j) \<and> \<not> upgrading (ts ! j)) \<and>
    (upgrading (ts ! i) \<longrightarrow> \<not> writing (ts ! j) \<and> \<not> upgrading (ts ! j)) \<and>
    (b = 0 \<longleftrightarrow> (\<forall>k<n. \<not> counted (ts ! k) \<and> \<not> writing (ts ! k) \<and> \<not> upgrading (ts ! k)))"
proof -
  have inv: "rw_inv b ts" using rw_reachable_inv assms(1,2) by blast
  have len: "length ts = n" using interleave_length [OF assms(2)] by simp
  have lim: "cnt writing ts + cnt upgrading ts \<le> 1" "cnt writing ts = 1 \<longrightarrow> cnt reading ts = 0"
    using inv unfolding rw_inv_def by blast+
  have two: "2 \<le> cnt (\<lambda>p. writing p \<or> upgrading p) ts"
    if "writing (ts ! i) \<or> upgrading (ts ! i)" "writing (ts ! j) \<or> upgrading (ts ! j)"
    using cnt_ge_2 [of i ts j "\<lambda>p. writing p \<or> upgrading p"] assms(3-5) len that by simp
  have "cnt writing ts + cnt upgrading ts = cnt (\<lambda>p. writing p \<or> upgrading p) ts"
    by (rule cnt_disjoint) (auto simp: rw_modes)
  with two lim have excl: "\<not> ((writing (ts ! i) \<or> upgrading (ts ! i)) \<and> (writing (ts ! j) \<or> upgrading (ts ! j)))"
    by linarith
  have read: "\<not> reading (ts ! j)" if "writing (ts ! i)"
    using cnt_pos [of i ts writing] cnt_pos [of j ts reading] that assms(3,4) len lim by auto
  have r: "cnt counted ts < 2 ^ 30" using cnt_le_length [of counted ts] assms(1) len by simp
  obtain u where u: "b = rw_pack (cnt counted ts) u (cnt writing ts = 1)"
    "cnt writing ts = 0 \<longrightarrow> (u \<longleftrightarrow> cnt upgrading ts = 1)"
    using inv unfolding rw_inv_def by (elim conjE exE) (rule that)
  have "b = 0 \<longleftrightarrow> cnt counted ts = 0 \<and> cnt writing ts = 0 \<and> cnt upgrading ts = 0"
  proof -
    have "cnt writing ts = 0 \<and> cnt upgrading ts = 0 \<or> cnt writing ts = 0 \<and> cnt upgrading ts = 1 \<or>
      cnt writing ts = 1 \<and> cnt upgrading ts = 0" using lim(1) by linarith
    with u(2) show ?thesis unfolding u(1) rw_pack_zero(1) [OF r] by (elim disjE conjE) simp_all
  qed
  with excl read show ?thesis by (auto simp: cnt_eq_0_iff len)
qed

theorem rw_mutual_exclusion_witness:
  "\<not> reading ([Writer, Idle] ! 1) \<and> \<not> writing ([Writer, Idle] ! 1) \<and>
   (interleave rw_act)\<^sup>*\<^sup>* (rw_init, replicate 2 Idle) (WRITER, [Writer, Idle])"
proof -
  have "rw_act rw_init Idle WRITER Writer"
    using try_lock [of rw_init True WRITER] by (simp add: rw_try_lock_def rw_init_def)
  then have "interleave rw_act (rw_init, replicate 2 Idle) (WRITER, (replicate 2 Idle)[0 := Writer])"
    by (intro act) simp_all
  then have run: "(interleave rw_act)\<^sup>*\<^sup>* (rw_init, replicate 2 Idle) (WRITER, [Writer, Idle])"
    by (simp add: numeral_2_eq_2)
  show ?thesis using rw_mutual_exclusion [OF _ run, of 0 1, THEN conjunct1] run by (simp add: writing_def)
qed

text \<open>
  C34. No deadlock. From every reachable state, a client that waits in one of the locking loops can
  still be granted the mode it asks for: the other clients only have to finish their calls and
  release what they hold, whatever calls are in progress, the promotion of an upgraded lock
  included.
\<close>

theorem rw_waiter_can_finish:
  assumes "n < 2 ^ 30" "(interleave rw_act)\<^sup>*\<^sup>* (rw_init, replicate n Idle) (b, ts)" "i < n"
    and "rw_wanted (ts ! i) = Some g"
  shows "\<exists>b' ts'. (interleave rw_act)\<^sup>*\<^sup>* (b, ts) (b', ts') \<and> ts' ! i = g"
proof -
  have "length ts = n" using interleave_length [OF assms(2)] by simp
  then show ?thesis using rw_can_finish [OF rw_reachable_inv [OF assms(1,2)]] assms(3,4) by simp
qed

theorem rw_waiter_can_finish_witness:
  "\<exists>b' ts'. (interleave rw_act)\<^sup>*\<^sup>* (rw_init, [Spin_Lock, Idle]) (b', ts') \<and> ts' ! 0 = Writer"
proof -
  have "interleave rw_act (rw_init, replicate 2 Idle) (rw_init, (replicate 2 Idle)[0 := Spin_Lock])"
    by (rule act) (simp_all add: lock_call)
  then have run: "(interleave rw_act)\<^sup>*\<^sup>* (rw_init, replicate 2 Idle) (rw_init, [Spin_Lock, Idle])"
    by (simp add: numeral_2_eq_2)
  show ?thesis by (rule rw_waiter_can_finish [OF _ run]) simp_all
qed

end
