(* ===== verification/Folly_RWTicketSpinLock.thy ===== *)
theory Folly_RWTicketSpinLock
  imports Interleaving
begin

text \<open>
  \<open>RWTicketSpinLockT\<close> of \<open>folly/synchronization/RWSpinLock.h\<close>: a reader/writer lock of three
  counters that are read and compared as one word.

  The counters have the type of the template's \<open>QuarterInt\<close> and wrap. \<open>sse\<close> selects the variant of
  \<open>try_lock_shared\<close> that the preprocessor selects: with SSE2 the new ticket is computed from the
  expected one, without (the branch of mobile builds) from the loaded one. As in the theory of
  \<open>RWSpinLock\<close>, a program point stands between two accesses to the shared ticket, and a client is one
  holder. The plain loads and stores of \<open>load_acquire\<close> and \<open>store_release\<close> are taken to be atomic,
  as the code assumes of x86.
\<close>

section \<open>The ticket\<close>

record 'w ticket =
  tk_write :: 'w
  tk_read :: 'w
  tk_users :: 'w

definition tk_init :: "('a::len) word ticket" where
  "tk_init = \<lparr>tk_write = 0, tk_read = 0, tk_users = 0\<rparr>"

definition compare_and_swap :: "'t \<Rightarrow> 't \<Rightarrow> 't \<Rightarrow> bool \<times> 't" where
  "compare_and_swap cur old new = (if cur = old then (True, new) else (False, cur))"

text \<open>\<open>try_lock\<close> up to its compare-and-swap: the expected and the new ticket, unless the lock is
  taken.\<close>

definition tk_try_lock_load :: "('a::len) word ticket \<Rightarrow> ('a word ticket \<times> 'a word ticket) option" where
  "tk_try_lock_load t =
     (if tk_users t \<noteq> tk_write t then None else Some (t, t\<lparr>tk_users := tk_users t + 1\<rparr>))"

definition tk_write_lock_aggressive :: "('a::len) word ticket \<Rightarrow> 'a word \<times> 'a word ticket" where
  "tk_write_lock_aggressive t = (tk_users t, t\<lparr>tk_users := tk_users t + 1\<rparr>)"

definition tk_unlock_and_lock_shared :: "('a::len) word ticket \<Rightarrow> 'a word ticket" where
  "tk_unlock_and_lock_shared t = t\<lparr>tk_read := tk_read t + 1\<rparr>"

text \<open>\<open>unlock\<close> loads the ticket, advances two counters of the copy and stores these two.\<close>

definition tk_unlock_load :: "('a::len) word ticket \<Rightarrow> 'a word ticket" where
  "tk_unlock_load t = t\<lparr>tk_read := tk_read t + 1, tk_write := tk_write t + 1\<rparr>"

definition tk_unlock_store :: "('a::len) word ticket \<Rightarrow> 'a word ticket \<Rightarrow> 'a word ticket" where
  "tk_unlock_store t' t = t\<lparr>tk_write := tk_write t', tk_read := tk_read t'\<rparr>"

definition tk_try_lock_shared_load ::
  "bool \<Rightarrow> ('a::len) word ticket \<Rightarrow> 'a word ticket \<times> 'a word ticket" where
  "tk_try_lock_shared_load sse t =
     (let old = t\<lparr>tk_users := tk_read t\<rparr>;
          base = (if sse then old else t)
      in (old, base\<lparr>tk_read := tk_read base + 1, tk_users := tk_users base + 1\<rparr>))"

definition tk_unlock_shared :: "('a::len) word ticket \<Rightarrow> 'a word ticket" where
  "tk_unlock_shared t = t\<lparr>tk_write := tk_write t + 1\<rparr>"

section \<open>Clients\<close>

text \<open>
  \<open>TTry_Lock old new spin\<close> and \<open>TTry_Shared old new spin\<close> are before the compare-and-swap of
  \<open>try_lock\<close> and \<open>try_lock_shared\<close>, called from \<open>writeLockNice\<close> or \<open>lock_shared\<close> if \<open>spin\<close>;
  \<open>TWait val\<close> is in the loop of \<open>writeLockAggressive\<close>; \<open>TUnlock t\<close> is before the store of
  \<open>unlock\<close>.
\<close>

datatype 'w tk_pc =
    TIdle
  | TSpin_Lock
  | TSpin_Shared
  | TTry_Lock "'w ticket" "'w ticket" bool
  | TTry_Shared "'w ticket" "'w ticket" bool
  | TWait 'w
  | TWriter
  | TUnlock "'w ticket"
  | TReader

inductive tk_act ::
  "bool \<Rightarrow> ('a::len) word ticket \<Rightarrow> 'a word tk_pc \<Rightarrow> 'a word ticket \<Rightarrow> 'a word tk_pc \<Rightarrow> bool"
  for sse where
  lock_nice_call: "tk_act sse t TIdle t TSpin_Lock"
| lock_shared_call: "tk_act sse t TIdle t TSpin_Shared"
| lock_aggressive: "tk_write_lock_aggressive t = (val, t') \<Longrightarrow> tk_act sse t TIdle t' (TWait val)"
| lock_wait: "tk_act sse t (TWait val) t (if val = tk_write t then TWriter else TWait val)"
| try_lock_load: "tk_try_lock_load t = Some (old, new) \<Longrightarrow> tk_act sse t TIdle t (TTry_Lock old new False)"
| lock_nice_load:
    "tk_try_lock_load t = Some (old, new) \<Longrightarrow> tk_act sse t TSpin_Lock t (TTry_Lock old new True)"
| try_lock_swap:
    "compare_and_swap t old new = (ok, t') \<Longrightarrow>
     tk_act sse t (TTry_Lock old new spin) t' (if ok then TWriter else if spin then TSpin_Lock else TIdle)"
| unlock_load: "tk_act sse t TWriter t (TUnlock (tk_unlock_load t))"
| unlock_store: "tk_act sse t (TUnlock t') (tk_unlock_store t' t) TIdle"
| unlock_and_lock_shared: "tk_act sse t TWriter (tk_unlock_and_lock_shared t) TReader"
| try_lock_shared_load:
    "tk_try_lock_shared_load sse t = (old, new) \<Longrightarrow> tk_act sse t TIdle t (TTry_Shared old new False)"
| lock_shared_load:
    "tk_try_lock_shared_load sse t = (old, new) \<Longrightarrow> tk_act sse t TSpin_Shared t (TTry_Shared old new True)"
| try_lock_shared_swap:
    "compare_and_swap t old new = (ok, t') \<Longrightarrow>
     tk_act sse t (TTry_Shared old new spin) t' (if ok then TReader else if spin then TSpin_Shared else TIdle)"
| unlock_shared: "tk_act sse t TReader (tk_unlock_shared t) TIdle"

section \<open>The invariant\<close>

text \<open>Clients with a write ticket, and the distance of the ticket from the one served.\<close>

fun tk_ticketed :: "'w tk_pc \<Rightarrow> bool" where
  "tk_ticketed (TWait val) \<longleftrightarrow> True"
| "tk_ticketed TWriter \<longleftrightarrow> True"
| "tk_ticketed (TUnlock t) \<longleftrightarrow> True"
| "tk_ticketed p \<longleftrightarrow> False"

fun tk_writing :: "'w tk_pc \<Rightarrow> bool" where
  "tk_writing TWriter \<longleftrightarrow> True"
| "tk_writing (TUnlock t) \<longleftrightarrow> True"
| "tk_writing p \<longleftrightarrow> False"

fun tk_dist :: "('a::len) word \<Rightarrow> 'a word tk_pc \<Rightarrow> nat" where
  "tk_dist r (TWait val) = unat (val - r)"
| "tk_dist r p = 0"

text \<open>What the copies that a client holds between two accesses say.\<close>

fun tk_copy_ok :: "nat \<Rightarrow> bool \<Rightarrow> ('a::len) word ticket \<Rightarrow> 'a word tk_pc \<Rightarrow> bool" where
  "tk_copy_ok lim blocked t (TTry_Lock old new spin) \<longleftrightarrow>
     tk_users old = tk_write old \<and> new = old\<lparr>tk_users := tk_users old + 1\<rparr>"
| "tk_copy_ok lim blocked t (TTry_Shared old new spin) \<longleftrightarrow>
     tk_users old = tk_read old \<and>
     (blocked \<or> (\<exists>k\<le>lim. new = old\<lparr>tk_read := tk_read old + 1, tk_users := tk_read old + 1 + of_nat k\<rparr>))"
| "tk_copy_ok lim blocked t (TUnlock t') \<longleftrightarrow> tk_write t' = tk_write t + 1 \<and> tk_read t' = tk_read t + 1"
| "tk_copy_ok lim blocked t p \<longleftrightarrow> True"

text \<open>
  \<open>ph\<close> is the number of write tickets that nobody has, which is 0 in the SSE variant. Tickets are
  served in order: the \<open>m\<close> tickets in use are at the distances \<open>ph, \<dots>, ph + m - 1\<close> without
  repetition.
\<close>

definition tickets_ok :: "nat \<Rightarrow> nat \<Rightarrow> ('a::len) word \<Rightarrow> 'a word tk_pc list \<Rightarrow> bool" where
  "tickets_ok ph m r ts \<longleftrightarrow>
     (\<forall>i<length ts. tk_ticketed (ts ! i) \<longrightarrow> ph \<le> tk_dist r (ts ! i) \<and> tk_dist r (ts ! i) < m + ph) \<and>
     (\<forall>i<length ts. \<forall>j<length ts. tk_ticketed (ts ! i) \<and> tk_ticketed (ts ! j) \<and>
        tk_dist r (ts ! i) = tk_dist r (ts ! j) \<longrightarrow> i = j)"

abbreviation tk_tickets :: "'w tk_pc list \<Rightarrow> nat" where
  "tk_tickets ts \<equiv> cnt tk_ticketed ts"

abbreviation tk_readers :: "'w tk_pc list \<Rightarrow> nat" where
  "tk_readers ts \<equiv> cnt (\<lambda>p. p = TReader) ts"

definition copies_ok :: "nat \<Rightarrow> bool \<Rightarrow> ('a::len) word ticket \<Rightarrow> 'a word tk_pc list \<Rightarrow> bool" where
  "copies_ok lim blocked t ts \<longleftrightarrow> (\<forall>i<length ts. tk_copy_ok lim blocked t (ts ! i))"

definition tk_inv_at :: "nat \<Rightarrow> nat \<Rightarrow> ('a::len) word ticket \<Rightarrow> 'a word tk_pc list \<Rightarrow> bool" where
  "tk_inv_at lim ph t ts \<longleftrightarrow>
     length ts + lim < 2 ^ LENGTH('a) \<and> ph \<le> lim \<and>
     tk_users t = tk_read t + of_nat (tk_tickets ts + ph) \<and>
     tk_read t = tk_write t + of_nat (tk_readers ts) \<and>
     copies_ok lim (0 < ph) t ts \<and> tickets_ok ph (tk_tickets ts) (tk_read t) ts \<and>
     (0 < cnt tk_writing ts \<longrightarrow> tk_readers ts = 0)"

text \<open>The bound on \<open>ph\<close>: the tickets in use when a reader of the other variant took its copy.\<close>

definition tk_inv :: "bool \<Rightarrow> nat \<Rightarrow> ('a::len) word ticket \<Rightarrow> 'a word tk_pc list \<Rightarrow> bool" where
  "tk_inv sse n t ts \<longleftrightarrow> length ts = n \<and> (\<exists>ph. tk_inv_at (if sse then 0 else n) ph t ts)"

lemma tk_inv_init:
  assumes "(if sse then n else 2 * n) < 2 ^ LENGTH('a)"
  shows "tk_inv sse n (tk_init :: 'a::len word ticket) (replicate n TIdle)"
proof -
  have "tk_inv_at (if sse then 0 else n) 0 (tk_init :: 'a word ticket) (replicate n TIdle)"
    using assms by (simp add: tk_inv_at_def tk_init_def cnt_replicate copies_ok_def tickets_ok_def split: if_splits)
  then show ?thesis unfolding tk_inv_def by auto
qed

lemma tickets_same:
  assumes "tickets_ok ph m r ts" "i < length ts"
    and "tk_ticketed p = tk_ticketed (ts ! i)" "tk_dist r p = tk_dist r (ts ! i)"
  shows "tickets_ok ph m r (ts[i := p])"
proof -
  have "tk_ticketed (ts[i := p] ! j) = tk_ticketed (ts ! j)" "tk_dist r (ts[i := p] ! j) = tk_dist r (ts ! j)" for j
    using assms(2-4) by (cases "j = i"; simp)+
  with assms(1) show ?thesis by (simp add: tickets_ok_def)
qed

lemma tickets_add:
  assumes ok: "tickets_ok ph m r ts" and i: "i < length ts" "\<not> tk_ticketed (ts ! i)"
    and p: "tk_dist r p = m + ph"
  shows "tickets_ok ph (Suc m) r (ts[i := p])"
  unfolding tickets_ok_def
proof (intro conjI allI impI)
  fix j assume j: "j < length (ts[i := p])" "tk_ticketed (ts[i := p] ! j)"
  then show "ph \<le> tk_dist r (ts[i := p] ! j)" "tk_dist r (ts[i := p] ! j) < Suc m + ph"
    using ok p by (cases "j = i"; force simp: tickets_ok_def)+
next
  fix j k
  assume jk: "j < length (ts[i := p])" "k < length (ts[i := p])"
    "tk_ticketed (ts[i := p] ! j) \<and> tk_ticketed (ts[i := p] ! k) \<and>
     tk_dist r (ts[i := p] ! j) = tk_dist r (ts[i := p] ! k)"
  have old: "tk_dist r (ts ! l) < m + ph" if "l < length ts" "tk_ticketed (ts ! l)" for l
    using ok that by (simp add: tickets_ok_def)
  show "j = k"
    using jk ok p i old [of j] old [of k] unfolding tickets_ok_def
    by (cases "j = i"; cases "k = i") (auto simp: nth_list_update)
qed

lemma unat_minus_Suc:
  assumes "x \<noteq> (r :: 'a::len word)"
  shows "unat (x - (r + 1)) = unat (x - r) - 1"
proof -
  have "x - r \<noteq> 0" using assms by simp
  then have "unat (x - r - 1) = unat (x - r) - 1" by (simp add: unat_minus_one)
  then show ?thesis by (simp add: diff_diff_eq)
qed

lemma tickets_leave:
  assumes ok: "tickets_ok 0 m r ts" and i: "i < length ts" "tk_writing (ts ! i)" "\<not> tk_ticketed p"
  shows "tickets_ok 0 (m - 1) (r + 1) (ts[i := p])"
proof -
  have zero: "tk_ticketed (ts ! i)" "tk_dist r (ts ! i) = 0" using i(2) by (cases "ts ! i"; simp)+
  have one: "\<exists>v. ts ! j = TWait v \<and> v \<noteq> r" if "j < length ts" "tk_ticketed (ts ! j)" "j \<noteq> i" for j
  proof -
    have "tk_dist r (ts ! j) \<noteq> 0" using ok zero i(1) that unfolding tickets_ok_def by metis
    then show ?thesis by (cases "ts ! j") auto
  qed
  have dist: "tk_dist (r + 1) (ts ! j) = tk_dist r (ts ! j) - 1 \<and> 0 < tk_dist r (ts ! j)"
    if "j < length ts" "tk_ticketed (ts ! j)" "j \<noteq> i" for j
    using one [OF that] by (auto simp: unat_minus_Suc unat_gt_0)
  show ?thesis
    unfolding tickets_ok_def
  proof (intro conjI allI impI)
    fix j assume j: "j < length (ts[i := p])" "tk_ticketed (ts[i := p] ! j)"
    then have "j \<noteq> i" using i by auto
    moreover from this have "tk_dist r (ts ! j) < m" using ok j unfolding tickets_ok_def by simp
    ultimately show "0 \<le> tk_dist (r + 1) (ts[i := p] ! j)" "tk_dist (r + 1) (ts[i := p] ! j) < m - 1 + 0"
      using dist [of j] j by auto
  next
    fix j k
    assume jk: "j < length (ts[i := p])" "k < length (ts[i := p])"
      "tk_ticketed (ts[i := p] ! j) \<and> tk_ticketed (ts[i := p] ! k) \<and>
       tk_dist (r + 1) (ts[i := p] ! j) = tk_dist (r + 1) (ts[i := p] ! k)"
    then have ne: "j \<noteq> i" "k \<noteq> i" using i by auto
    with jk dist [of j] dist [of k] have "tk_dist r (ts ! j) = tk_dist r (ts ! k)" by auto
    with ok jk ne show "j = k" unfolding tickets_ok_def by simp
  qed
qed

lemma tickets_readers_le: "tk_tickets ts + tk_readers ts \<le> length ts"
proof -
  have "tk_tickets ts + tk_readers ts = cnt (\<lambda>p. tk_ticketed p \<or> p = TReader) ts"
    by (rule cnt_disjoint) auto
  then show ?thesis using cnt_le_length by simp
qed

lemma writing_le_tickets: "cnt tk_writing ts \<le> tk_tickets ts"
proof (induction ts)
  case (Cons p ts)
  then show ?case by (cases p) auto
qed simp

lemma writing_served:
  assumes "tickets_ok ph m r ts" "i < length ts" "tk_writing (ts ! i)"
  shows "ph = 0" "tk_ticketed (ts ! i)" "tk_dist r (ts ! i) = 0"
proof -
  show t: "tk_ticketed (ts ! i)" "tk_dist r (ts ! i) = 0" using assms(3) by (cases "ts ! i"; simp)+
  show "ph = 0" using assms(1,2) t unfolding tickets_ok_def by (metis le_zero_eq)
qed

lemma of_nat_eq_0_small: "n < 2 ^ LENGTH('a) \<Longrightarrow> (of_nat n :: 'a::len word) = 0 \<longleftrightarrow> n = 0"
  using of_nat_word_inject [of n 0, where 'a = 'a] by simp

text \<open>The lock is free for a writer, or for a reader, exactly when the counters agree.\<close>

lemma tk_free:
  assumes "tk_inv_at lim ph t ts"
  shows "tk_users t = tk_write t \<longleftrightarrow> tk_tickets ts = 0 \<and> tk_readers ts = 0 \<and> ph = 0"
    "tk_users t = tk_read t \<longleftrightarrow> tk_tickets ts = 0 \<and> ph = 0"
    "tk_read t = tk_write t \<longleftrightarrow> tk_readers ts = 0"
proof -
  have lim: "length ts + lim < 2 ^ LENGTH('a)" "ph \<le> lim"
    and u: "tk_users t = tk_read t + of_nat (tk_tickets ts + ph)" "tk_read t = tk_write t + of_nat (tk_readers ts)"
    using assms unfolding tk_inv_at_def by blast+
  have small: "tk_tickets ts + ph + tk_readers ts < 2 ^ LENGTH('a)" "tk_tickets ts + ph < 2 ^ LENGTH('a)"
    "tk_readers ts < 2 ^ LENGTH('a)"
    using lim tickets_readers_le [of ts] by linarith+
  have "tk_users t = tk_write t + of_nat (tk_tickets ts + ph + tk_readers ts)"
    unfolding u by (simp add: algebra_simps)
  then show "tk_users t = tk_write t \<longleftrightarrow> tk_tickets ts = 0 \<and> tk_readers ts = 0 \<and> ph = 0"
    using of_nat_eq_0_small [OF small(1)] by (auto simp del: of_nat_add)
  show "tk_users t = tk_read t \<longleftrightarrow> tk_tickets ts = 0 \<and> ph = 0"
    using of_nat_eq_0_small [OF small(2)] unfolding u(1) by (simp del: of_nat_add)
  show "tk_read t = tk_write t \<longleftrightarrow> tk_readers ts = 0"
    using of_nat_eq_0_small [OF small(3)] u(2) by simp
qed

lemma copies_update:
  assumes "copies_ok lim bl t ts" "tk_copy_ok lim bl' t' p"
    and "\<And>j. j < length ts \<Longrightarrow> j \<noteq> i \<Longrightarrow> tk_copy_ok lim bl t (ts ! j) \<Longrightarrow> tk_copy_ok lim bl' t' (ts ! j)"
  shows "copies_ok lim bl' t' (ts[i := p])"
  unfolding copies_ok_def
proof (intro allI impI)
  fix j assume "j < length (ts[i := p])"
  then show "tk_copy_ok lim bl' t' (ts[i := p] ! j)"
    using assms unfolding copies_ok_def by (cases "j = i") auto
qed

text \<open>A copy stays valid when the ticket changes, except that the copy of \<open>unlock\<close> needs the two
  counters that it will overwrite.\<close>

lemma copy_mono:
  assumes "tk_copy_ok lim bl t p" "bl \<longrightarrow> bl'"
    and "tk_writing p \<Longrightarrow> tk_write t' = tk_write t \<and> tk_read t' = tk_read t"
  shows "tk_copy_ok lim bl' t' p"
  using assms by (cases p) auto

lemma tk_inv_neutral:
  assumes inv: "tk_inv_at lim ph t ts" and i: "i < length ts"
    and same: "tk_ticketed p = tk_ticketed (ts ! i)" "p = TReader \<longleftrightarrow> ts ! i = TReader"
      "tk_dist (tk_read t) p = tk_dist (tk_read t) (ts ! i)"
    and writing: "tk_writing p \<Longrightarrow> tk_writing (ts ! i) \<or> tk_readers ts = 0"
    and copy: "tk_copy_ok lim (0 < ph) t p"
  shows "tk_inv_at lim ph t (ts[i := p])"
proof -
  have n: "tk_tickets (ts[i := p]) = tk_tickets ts" "tk_readers (ts[i := p]) = tk_readers ts"
    using cnt_update [OF i, of tk_ticketed p] cnt_update [OF i, of "\<lambda>p. p = TReader" p] same by simp_all
  have "cnt tk_writing (ts[i := p]) \<le> cnt tk_writing ts \<or> tk_readers ts = 0"
    using cnt_update [OF i, of tk_writing p] writing by (cases "tk_writing p"; cases "tk_writing (ts ! i)") auto
  moreover have "tickets_ok ph (tk_tickets ts) (tk_read t) (ts[i := p])" "copies_ok lim (0 < ph) t (ts[i := p])"
    using inv tickets_same [OF _ i same(1,3)] copies_update [OF _ copy] unfolding tk_inv_at_def by blast+
  ultimately show ?thesis using inv by (simp only: tk_inv_at_def n length_list_update) auto
qed

lemma unat_minus_of_nat:
  assumes "0 < n" "n < 2 ^ LENGTH('a)"
  shows "unat (- of_nat n :: 'a::len word) = 2 ^ LENGTH('a) - n"
proof -
  have "(- of_nat n :: 'a word) = of_nat (2 ^ LENGTH('a) - n)"
    using assms by (simp add: of_nat_diff)
  then show ?thesis using assms by (simp add: unsigned_of_nat take_bit_nat_eq_self del: of_nat_diff)
qed

lemma served_no_readers:
  assumes inv: "tk_inv_at lim ph t ts" and i: "i < length ts" "ts ! i = TWait (tk_write t)"
  shows "tk_readers ts = 0"
proof (rule ccontr)
  assume R: "tk_readers ts \<noteq> 0"
  have ok: "tickets_ok ph (tk_tickets ts) (tk_read t) ts" and lim: "length ts + lim < 2 ^ LENGTH('a)" "ph \<le> lim"
    and r: "tk_read t = tk_write t + of_nat (tk_readers ts)"
    using inv unfolding tk_inv_at_def by blast+
  have "unat (tk_write t - tk_read t) < tk_tickets ts + ph" 
    using ok [unfolded tickets_ok_def, THEN conjunct1, rule_format, OF i(1)] i(2) by simp
  moreover have "tk_readers ts < 2 ^ LENGTH('a)" using lim tickets_readers_le [of ts] by linarith
  then have "unat (tk_write t - tk_read t) = 2 ^ LENGTH('a) - tk_readers ts"
    using R unfolding r by (simp add: unat_minus_of_nat)
  ultimately show False using lim tickets_readers_le [of ts] by linarith
qed

lemma tk_inv_leave:
  assumes inv: "tk_inv_at lim ph t ts" and i: "i < length ts" "tk_writing (ts ! i)"
    and p: "p = TIdle \<and> tk_write t' = tk_write t + 1 \<or> p = TReader \<and> tk_write t' = tk_write t"
    and t': "tk_read t' = tk_read t + 1" "tk_users t' = tk_users t"
  shows "tk_inv_at lim ph t' (ts[i := p])"
proof -
  have ok: "tickets_ok ph (tk_tickets ts) (tk_read t) ts" "copies_ok lim (0 < ph) t ts"
    "length ts + lim < 2 ^ LENGTH('a)" "ph \<le> lim" "tk_users t = tk_read t + of_nat (tk_tickets ts + ph)"
    and r: "tk_read t = tk_write t + of_nat (tk_readers ts)" "0 < cnt tk_writing ts \<longrightarrow> tk_readers ts = 0"
    using inv unfolding tk_inv_at_def by blast+
  note served = writing_served [OF ok(1) i]
  have "\<not> tk_ticketed p" "\<not> tk_writing p" "ts ! i \<noteq> TReader" using p i(2) by auto
  have R: "tk_readers ts = 0" using r(2) cnt_pos [of i ts tk_writing] i by simp
  obtain m where m: "tk_tickets ts = Suc m" using cnt_pos [of i ts tk_ticketed] served i by (metis gr0_conv_Suc)
  have n: "tk_tickets (ts[i := p]) = m" "tk_readers (ts[i := p]) = of_bool (p = TReader)"
    using cnt_update [OF i(1), of tk_ticketed p] cnt_update [OF i(1), of "\<lambda>p. p = TReader" p]
      served \<open>\<not> tk_ticketed p\<close> m R \<open>ts ! i \<noteq> TReader\<close> by auto
  have alone: "\<not> tk_writing (ts ! j)" if "j < length ts" "j \<noteq> i" for j
    using that writing_served [OF ok(1) that(1)] served i ok(1) unfolding tickets_ok_def by metis
  then have w: "cnt tk_writing (ts[i := p]) = 0"
    using \<open>\<not> tk_writing p\<close> i(1) by (simp add: cnt_eq_0_iff nth_list_update)
  have c: "copies_ok lim (0 < ph) t' (ts[i := p])"
    by (rule copies_update [OF ok(2)]) (use p alone in \<open>auto elim: copy_mono\<close>)
  have tk: "tickets_ok ph m (tk_read t') (ts[i := p])"
    using tickets_leave [OF _ i \<open>\<not> tk_ticketed p\<close>, of "Suc m" "tk_read t"] ok(1) served(1) m t'(1) by simp
  show ?thesis
    using ok(3-5) c tk r(1) R p t' unfolding tk_inv_at_def n w m
    by (auto simp: served(1) algebra_simps)
qed

lemma tk_inv_aggressive:
  assumes inv: "tk_inv_at lim ph t ts" and i: "i < length ts" "ts ! i = TIdle"
  shows "tk_inv_at lim ph (t\<lparr>tk_users := tk_users t + 1\<rparr>) (ts[i := TWait (tk_users t)])"
proof -
  have ok: "tickets_ok ph (tk_tickets ts) (tk_read t) ts" "copies_ok lim (0 < ph) t ts"
    "length ts + lim < 2 ^ LENGTH('a)" "ph \<le> lim" "tk_users t = tk_read t + of_nat (tk_tickets ts + ph)"
    using inv unfolding tk_inv_at_def by blast+
  let ?p = "TWait (tk_users t)"
  have n: "tk_tickets (ts[i := ?p]) = Suc (tk_tickets ts)" "tk_readers (ts[i := ?p]) = tk_readers ts"
    "cnt tk_writing (ts[i := ?p]) = cnt tk_writing ts"
    using cnt_update [OF i(1), of tk_ticketed ?p] cnt_update [OF i(1), of "\<lambda>p. p = TReader" ?p]
      cnt_update [OF i(1), of tk_writing ?p] i(2) by simp_all
  have "tk_tickets ts + ph < 2 ^ LENGTH('a)" using ok(3,4) tickets_readers_le [of ts] by linarith
  then have "tk_dist (tk_read t) ?p = tk_tickets ts + ph"
    unfolding tk_dist.simps ok(5) by (simp add: unsigned_of_nat take_bit_nat_eq_self del: of_nat_add)
  then have "tickets_ok ph (Suc (tk_tickets ts)) (tk_read t) (ts[i := ?p])"
    using tickets_add [OF ok(1) i(1)] i(2) by simp
  moreover have "copies_ok lim (0 < ph) (t\<lparr>tk_users := tk_users t + 1\<rparr>) (ts[i := ?p])"
    by (rule copies_update [OF ok(2)]) (auto elim: copy_mono)
  ultimately show ?thesis using inv unfolding tk_inv_at_def n by (simp add: algebra_simps)
qed

lemma tk_inv_nice:
  assumes inv: "tk_inv_at lim ph t ts" and i: "i < length ts" "ts ! i = TTry_Lock old new spin"
    and free: "tk_users t = tk_write t"
  shows "tk_inv_at lim ph (t\<lparr>tk_users := tk_users t + 1\<rparr>) (ts[i := TWriter])"
proof -
  have ok: "tickets_ok ph (tk_tickets ts) (tk_read t) ts" "copies_ok lim (0 < ph) t ts"
    using inv unfolding tk_inv_at_def by blast+
  have z: "tk_tickets ts = 0" "tk_readers ts = 0" "ph = 0" using tk_free(1) [OF inv] free by auto
  have n: "tk_tickets (ts[i := TWriter]) = 1" "tk_readers (ts[i := TWriter]) = 0"
    using cnt_update [OF i(1), of tk_ticketed TWriter] cnt_update [OF i(1), of "\<lambda>p. p = TReader" TWriter] i(2) z
    by simp_all
  have "tickets_ok 0 (Suc 0) (tk_read t) (ts[i := TWriter])"
    using tickets_add [OF ok(1) i(1), of TWriter] i(2) z by simp
  moreover have "copies_ok lim False (t\<lparr>tk_users := tk_users t + 1\<rparr>) (ts[i := TWriter])"
    by (rule copies_update [OF ok(2)]) (auto elim: copy_mono simp: z)
  ultimately show ?thesis using inv unfolding tk_inv_at_def n z by simp
qed

lemma tk_inv_shared:
  assumes inv: "tk_inv_at lim ph t ts" and i: "i < length ts" "ts ! i = TTry_Shared t new spin"
  shows "\<exists>ph. tk_inv_at lim ph new (ts[i := TReader])"
proof -
  have ok: "tickets_ok ph (tk_tickets ts) (tk_read t) ts" "copies_ok lim (0 < ph) t ts"
    using inv unfolding tk_inv_at_def by blast+
  have copy: "tk_copy_ok lim (0 < ph) t (TTry_Shared t new spin)" using ok(2) i unfolding copies_ok_def by metis
  then have z: "tk_tickets ts = 0" "ph = 0" using tk_free(2) [OF inv] by auto
  with copy obtain k where k: "k \<le> lim"
    "new = t\<lparr>tk_read := tk_read t + 1, tk_users := tk_read t + 1 + of_nat k\<rparr>" by auto
  have w: "cnt tk_writing ts = 0" using writing_le_tickets [of ts] z by simp
  have n: "tk_tickets (ts[i := TReader]) = 0" "tk_readers (ts[i := TReader]) = Suc (tk_readers ts)"
    "cnt tk_writing (ts[i := TReader]) = 0"
    using cnt_update [OF i(1), of tk_ticketed TReader] cnt_update [OF i(1), of "\<lambda>p. p = TReader" TReader]
      cnt_update [OF i(1), of tk_writing TReader] i(2) z w by simp_all
  have "tickets_ok k 0 r (ts[i := TReader])" for r
    using n(1) by (auto simp: tickets_ok_def cnt_eq_0_iff)
  moreover have "copies_ok lim (0 < k) new (ts[i := TReader])"
    by (rule copies_update [OF ok(2)]) (use w in \<open>auto elim!: copy_mono simp: z cnt_eq_0_iff\<close>)
  ultimately have "tk_inv_at lim k new (ts[i := TReader])"
    using inv k unfolding tk_inv_at_def n by (simp add: algebra_simps)
  then show ?thesis by blast
qed

lemma tk_inv_unlock_shared:
  assumes inv: "tk_inv_at lim ph t ts" and i: "i < length ts" "ts ! i = TReader"
  shows "tk_inv_at lim ph (tk_unlock_shared t) (ts[i := TIdle])"
proof -
  have ok: "tickets_ok ph (tk_tickets ts) (tk_read t) ts" "copies_ok lim (0 < ph) t ts"
    "0 < cnt tk_writing ts \<longrightarrow> tk_readers ts = 0"
    using inv unfolding tk_inv_at_def by blast+
  have "0 < tk_readers ts" using cnt_pos [of i ts "\<lambda>p. p = TReader"] i by simp
  with ok(3) have w: "cnt tk_writing ts = 0" by simp
  have n: "tk_tickets (ts[i := TIdle]) = tk_tickets ts" "tk_readers ts = Suc (tk_readers (ts[i := TIdle]))"
    "cnt tk_writing (ts[i := TIdle]) = 0"
    using cnt_update [OF i(1), of tk_ticketed TIdle] cnt_update [OF i(1), of "\<lambda>p. p = TReader" TIdle]
      cnt_update [OF i(1), of tk_writing TIdle] i(2) w by simp_all
  have "tickets_ok ph (tk_tickets ts) (tk_read t) (ts[i := TIdle])"
    by (rule tickets_same [OF ok(1) i(1)]) (simp_all add: i(2))
  moreover have "copies_ok lim (0 < ph) (tk_unlock_shared t) (ts[i := TIdle])"
    by (rule copies_update [OF ok(2)]) (use w in \<open>auto elim!: copy_mono simp: cnt_eq_0_iff\<close>)
  ultimately show ?thesis
    using inv unfolding tk_inv_at_def n(1,3) by (simp add: n(2) tk_unlock_shared_def algebra_simps)
qed

lemma tk_shared_load_ok:
  assumes inv: "tk_inv_at lim ph t ts" and lim: "lim = (if sse then 0 else length ts)"
    and load: "tk_try_lock_shared_load sse t = (old, new)"
  shows "tk_copy_ok lim (0 < ph) t (TTry_Shared old new spin)"
proof (cases "0 < ph \<or> sse")
  case False
  have "tk_users t = tk_read t + of_nat (tk_tickets ts)"
    using inv False unfolding tk_inv_at_def by auto
  moreover have "tk_tickets ts \<le> lim" using cnt_le_length lim False by auto
  ultimately show ?thesis
    using load False by (auto simp: tk_try_lock_shared_load_def Let_def algebra_simps
        intro!: exI [of _ "tk_tickets ts"])
next
  case True
  then show ?thesis using load by (auto simp: tk_try_lock_shared_load_def Let_def intro!: exI [of _ 0])
qed

lemma tk_inv_at_act:
  assumes inv: "tk_inv_at lim ph t ts" and lim: "lim = (if sse then 0 else length ts)"
    and i: "i < length ts" and act: "tk_act sse t (ts ! i) t' p"
  shows "\<exists>ph. tk_inv_at lim ph t' (ts[i := p])"
proof -
  note neutral = tk_inv_neutral [OF inv i]
  have copy: "tk_copy_ok lim (0 < ph) t (ts ! i)" and ok: "tickets_ok ph (tk_tickets ts) (tk_read t) ts"
    using inv i unfolding tk_inv_at_def copies_ok_def by blast+
  have R: "tk_readers ts = 0" if "tk_writing (ts ! i)"
    using inv cnt_pos [of i ts tk_writing] that i unfolding tk_inv_at_def by simp
  from act show ?thesis
  proof cases
    case lock_nice_call
    then show ?thesis using neutral [of TSpin_Lock] by auto
  next
    case lock_shared_call
    then show ?thesis using neutral [of TSpin_Shared] by auto
  next
    case (lock_aggressive val)
    then show ?thesis using tk_inv_aggressive [OF inv i] by (auto simp: tk_write_lock_aggressive_def)
  next
    case (lock_wait val)
    show ?thesis
    proof (cases "val = tk_write t")
      case True
      have "tk_readers ts = 0" "tk_read t = tk_write t"
        using served_no_readers [OF inv i] tk_free(3) [OF inv] lock_wait True by simp_all
      then show ?thesis using neutral [of TWriter] lock_wait True by auto
    qed (use neutral [of "TWait val"] lock_wait in auto)
  next
    case (try_lock_load old new)
    then show ?thesis using neutral [of "TTry_Lock old new False"]
      by (auto simp: tk_try_lock_load_def split: if_splits)
  next
    case (lock_nice_load old new)
    then show ?thesis using neutral [of "TTry_Lock old new True"]
      by (auto simp: tk_try_lock_load_def split: if_splits)
  next
    case (try_lock_swap old new ok spin)
    then show ?thesis
      using neutral [of p] copy tk_inv_nice [OF inv i, of old new spin]
      by (auto simp: compare_and_swap_def split: if_splits)
  next
    case unlock_load
    then show ?thesis using neutral [of p] by (auto simp: tk_unlock_load_def)
  next
    case (unlock_store t'')
    then show ?thesis using tk_inv_leave [OF inv i, of TIdle t'] copy by (auto simp: tk_unlock_store_def)
  next
    case unlock_and_lock_shared
    then show ?thesis using tk_inv_leave [OF inv i, of TReader t'] by (auto simp: tk_unlock_and_lock_shared_def)
  next
    case (try_lock_shared_load old new)
    then show ?thesis using neutral [of p] tk_shared_load_ok [OF inv lim, of old new] by auto
  next
    case (lock_shared_load old new)
    then show ?thesis using neutral [of p] tk_shared_load_ok [OF inv lim, of old new] by auto
  next
    case (try_lock_shared_swap old new ok spin)
    then show ?thesis
      using neutral [of p] tk_inv_shared [OF inv i, of new spin]
      by (auto simp: compare_and_swap_def split: if_splits)
  next
    case unlock_shared
    then show ?thesis using tk_inv_unlock_shared [OF inv i] by auto
  qed
qed

lemma tk_inv_act:
  assumes inv: "tk_inv sse n t ts" and i: "i < length ts" and act: "tk_act sse t (ts ! i) t' p"
  shows "tk_inv sse n t' (ts[i := p])"
proof -
  obtain ph where n: "n = length ts" and "tk_inv_at (if sse then 0 else length ts) ph t ts"
    using inv unfolding tk_inv_def by auto
  from tk_inv_at_act [OF this(2) refl i act] show ?thesis unfolding tk_inv_def n by simp
qed

interpretation tk: thread_invariant "tk_act sse" "tk_inv sse n"
  by unfold_locales (rule tk_inv_act)

section \<open>A reader that was overtaken\<close>

text \<open>The ticket after \<open>k\<close> writers have come and gone.\<close>

definition tk_round :: "nat \<Rightarrow> ('a::len) word ticket" where
  "tk_round k = \<lparr>tk_write = of_nat k, tk_read = of_nat k, tk_users = of_nat k\<rparr>"

lemma writer_round: "(alone (tk_act sse))\<^sup>*\<^sup>* (tk_round k, TIdle) (tk_round (Suc k), TIdle)"
proof -
  let ?t = "tk_round k :: 'a word ticket"
  let ?u = "?t\<lparr>tk_users := tk_users ?t + 1\<rparr>"
  have a: "tk_act sse ?t TIdle ?t (TTry_Lock ?t ?u False)"
    by (rule try_lock_load) (simp add: tk_try_lock_load_def tk_round_def)
  have b: "tk_act sse ?t (TTry_Lock ?t ?u False) ?u TWriter"
    using try_lock_swap [of ?t ?t ?u True ?u sse False] by (simp add: compare_and_swap_def)
  have c: "tk_act sse ?u TWriter ?u (TUnlock (tk_unlock_load ?u))" by (rule unlock_load)
  have d: "tk_act sse ?u (TUnlock (tk_unlock_load ?u)) (tk_round (Suc k)) TIdle"
    using unlock_store [of sse ?u "tk_unlock_load ?u"]
    by (simp add: tk_unlock_load_def tk_unlock_store_def tk_round_def algebra_simps)
  note step = alone_step [of "tk_act sse"]
  show ?thesis by (rule step [OF a step [OF b step [OF c step [OF d rtranclp.rtrancl_refl]]]])
qed

lemma writer_rounds: "(alone (tk_act sse))\<^sup>*\<^sup>* (tk_round k, TIdle) (tk_round (k + m), TIdle)"
proof (induction m)
  case (Suc m)
  from rtranclp_trans [OF this writer_round] show ?case by simp
qed simp

fun tk_shut_out :: "('a::len) word tk_pc \<Rightarrow> bool" where
  "tk_shut_out (TTry_Shared old new spin) \<longleftrightarrow> tk_users old = 1"
| "tk_shut_out (TWait val) \<longleftrightarrow> (\<exists>k\<le>1. val = of_nat (2 + k))"
| "tk_shut_out p \<longleftrightarrow> p \<in> {TIdle, TSpin_Lock, TSpin_Shared}"

definition tk_stuck :: "('a::len) word ticket \<Rightarrow> 'a word tk_pc list \<Rightarrow> bool" where
  "tk_stuck t ts \<longleftrightarrow>
     length ts = 2 \<and> tk_write t = 1 \<and> tk_read t = 1 \<and> tk_users t = of_nat (2 + tk_tickets ts) \<and>
     (\<forall>i<length ts. tk_shut_out (ts ! i))"

lemma small_words:
  assumes "3 \<le> LENGTH('a::len)" "k \<le> 4"
  shows "(of_nat k :: 'a word) = 1 \<longleftrightarrow> k = 1"
proof -
  have "(2::nat) ^ 3 \<le> 2 ^ LENGTH('a)" using assms(1) by (intro power_increasing) auto
  then have "k < 2 ^ LENGTH('a)" "1 < (2::nat) ^ LENGTH('a)" using assms(2) by simp_all
  then show ?thesis using of_nat_word_inject [of k 1, where 'a = 'a] by simp
qed

lemma tk_stuck_act:
  assumes w: "3 \<le> LENGTH('a::len)"
    and st: "tk_stuck (t :: 'a word ticket) ts" and i: "i < length ts" and act: "tk_act sse t (ts ! i) t' p"
  shows "tk_stuck t' (ts[i := p])"
proof -
  have len: "length ts = 2" and tw: "tk_write t = 1" "tk_read t = 1"
    and u: "tk_users t = of_nat (2 + tk_tickets ts)"
    and pcs: "\<forall>i<length ts. tk_shut_out (ts ! i)"
    using st unfolding tk_stuck_def by blast+
  note pc = pcs [rule_format, OF i]
  have T: "tk_tickets ts \<le> 2" using cnt_le_length [of tk_ticketed ts] len by simp
  have u1: "tk_users t \<noteq> 1" unfolding u using small_words [OF w, of "2 + tk_tickets ts"] T by simp
  have v1: "(of_nat (2 + k) :: 'a word) \<noteq> 1" if "k \<le> 1" for k using small_words [OF w, of "2 + k"] that by simp
  note upd = cnt_update [OF i, of tk_ticketed p]
  have moved: ?thesis
    if "t' = t\<lparr>tk_users := of_nat (2 + tk_tickets (ts[i := p]))\<rparr>" "tk_shut_out p"
    using that pcs len tw i unfolding tk_stuck_def by (simp add: nth_list_update)
  have same: ?thesis if "t' = t" "tk_ticketed p = tk_ticketed (ts ! i)" "tk_shut_out p"
    by (rule moved) (use that upd u in auto)
  from act show ?thesis
  proof cases
    case (lock_aggressive val)
    have "tk_tickets ts \<le> 1"
      using upd lock_aggressive cnt_le_length [of tk_ticketed "ts[i := p]"] len by simp
    then have "tk_shut_out (TWait (tk_users t))" by (auto simp: u intro!: exI [of _ "tk_tickets ts"])
    then show ?thesis
      using lock_aggressive upd u by (intro moved) (auto simp: tk_write_lock_aggressive_def algebra_simps)
  next
    case (try_lock_shared_swap old new ok spin)
    then show ?thesis using same pc u1 by (auto simp: compare_and_swap_def split: if_splits)
  next
    case (lock_wait val)
    then have "val \<noteq> 1" using pc v1 by auto
    then have "p = ts ! i" using lock_wait tw by simp
    then show ?thesis using same pc lock_wait(2) by simp
  qed (use same pc u1 tw in \<open>auto simp: tk_try_lock_load_def tk_try_lock_shared_load_def Let_def split: if_splits\<close>)
qed

text \<open>
  The run: client 0 holds the lock for writing while client 1 loads the ticket in
  \<open>try_lock_shared\<close>; client 0 unlocks, and locks and unlocks until the counters have wrapped; then
  the compare-and-swap of client 1 succeeds and client 1 releases the lock.
\<close>

lemma overtaken_run:
  "\<exists>t :: ('a::len) word ticket. (interleave (tk_act False))\<^sup>*\<^sup>* (tk_init, [TIdle, TIdle]) (t, [TIdle, TIdle]) \<and>
     tk_write t = 1 \<and> tk_read t = 1 \<and> tk_users t = 2"
proof -
  let ?o = "tk_round 0 :: 'a word ticket"
  let ?u = "?o\<lparr>tk_users := tk_users ?o + 1\<rparr>"
  let ?n = "?o\<lparr>tk_read := 1, tk_users := 2\<rparr>"
  let ?R = "(interleave (tk_act False))\<^sup>*\<^sup>*" and ?s = "TTry_Shared ?o ?n False"
  note step = alone_step [of "tk_act False"]
  have lift: "(alone (tk_act False))\<^sup>*\<^sup>* (s, x) (s', x') \<Longrightarrow> ?R (s, [x, y]) (s', [x', y])"
    "(alone (tk_act False))\<^sup>*\<^sup>* (s, y) (s', y') \<Longrightarrow> ?R (s, [x, y]) (s', [x, y'])"
    for s s' :: "'a word ticket" and x x' y y'
    using alone_interleave [of "tk_act False" s "[x, y]" 0 s' x'] alone_interleave [of "tk_act False" s "[x, y]" 1 s' y']
    by simp_all
  have a: "tk_act False ?o TIdle ?o (TTry_Lock ?o ?u False)"
    by (rule try_lock_load) (simp add: tk_try_lock_load_def tk_round_def)
  have b: "tk_act False ?o (TTry_Lock ?o ?u False) ?u TWriter"
    using try_lock_swap [of ?o ?o ?u True ?u False False] by (simp add: compare_and_swap_def)
  have c: "tk_act False ?u TIdle ?u ?s"
    by (rule try_lock_shared_load) (simp add: tk_try_lock_shared_load_def tk_round_def Let_def)
  have d: "tk_act False ?u TWriter ?u (TUnlock (tk_unlock_load ?u))" by (rule unlock_load)
  have e: "tk_act False ?u (TUnlock (tk_unlock_load ?u)) (tk_round 1) TIdle"
    using unlock_store [of False ?u "tk_unlock_load ?u"]
    by (simp add: tk_unlock_load_def tk_unlock_store_def tk_round_def algebra_simps)
  have f: "tk_act False ?o ?s ?n TReader"
    using try_lock_shared_swap [of ?o ?o ?n True ?n False False] by (simp add: compare_and_swap_def)
  have g: "tk_act False ?n TReader (tk_unlock_shared ?n) TIdle" by (rule unlock_shared)
  have wrap: "tk_round (2 ^ LENGTH('a)) = ?o" by (simp add: tk_round_def)
  have "?R (?o, [TIdle, TIdle]) (?u, [TWriter, TIdle])"
    using lift(1) [OF step [OF a step [OF b rtranclp.rtrancl_refl]]]
    by simp
  also have "?R (?u, [TWriter, TIdle]) (?u, [TWriter, ?s])"
    using lift(2) [OF step [OF c rtranclp.rtrancl_refl]]
    by simp
  also have "?R (?u, [TWriter, ?s]) (tk_round 1, [TIdle, ?s])"
    using lift(1) [OF step [OF d step [OF e rtranclp.rtrancl_refl]]]
    by simp
  also have "?R (tk_round 1, [TIdle, ?s]) (?o, [TIdle, ?s])"
    using lift(1) [OF writer_rounds [of False 1 "2 ^ LENGTH('a) - 1"]]
    by (simp add: wrap)
  also have "?R (?o, [TIdle, ?s]) (tk_unlock_shared ?n, [TIdle, TIdle])"
    using lift(2) [OF step [OF f step [OF g rtranclp.rtrancl_refl]]]
    by simp
  finally have "?R (?o, [TIdle, TIdle]) (tk_unlock_shared ?n, [TIdle, TIdle])" .
  moreover have "?o = tk_init" by (simp add: tk_round_def tk_init_def)
  ultimately show ?thesis
    by (intro exI [of _ "tk_unlock_shared ?n"]) (simp add: tk_unlock_shared_def tk_round_def tk_init_def)
qed

section \<open>Properties\<close>

text \<open>
  C18. Mutual exclusion and order of service. In every state that \<open>n\<close> clients can reach: while one
  client writes, no other writes or reads; and a client that waits in \<open>writeLockAggressive\<close> has a
  ticket of its own, so that it is served before every client that takes a ticket later. The
  counters must be able to count the clients, twice as many without SSE2.
\<close>

theorem ticket_mutual_exclusion:
  fixes t :: "'a::len word ticket"
  assumes "(if sse then n else 2 * n) < 2 ^ LENGTH('a)"
    and "(interleave (tk_act sse))\<^sup>*\<^sup>* (tk_init, replicate n TIdle) (t, ts)" "i < n" "j < n" "i \<noteq> j"
  shows "(tk_writing (ts ! i) \<longrightarrow> \<not> tk_writing (ts ! j) \<and> ts ! j \<noteq> TReader) \<and>
    (ts ! i = TWait v \<longrightarrow> ts ! j \<noteq> TWait v \<and> v \<noteq> tk_users t)"
proof -
  have "tk_inv sse n t ts" using tk.inv_reachable [OF assms(2)] tk_inv_init [OF assms(1)] by blast
  then obtain ph where len: "length ts = n" and inv: "tk_inv_at (if sse then 0 else n) ph t ts"
    unfolding tk_inv_def by blast
  have ok: "tickets_ok ph (tk_tickets ts) (tk_read t) ts" and r: "0 < cnt tk_writing ts \<longrightarrow> tk_readers ts = 0"
    and lim: "length ts + (if sse then 0 else n) < 2 ^ LENGTH('a)" "ph \<le> (if sse then 0 else n)"
      "tk_users t = tk_read t + of_nat (tk_tickets ts + ph)"
    using inv unfolding tk_inv_at_def by blast+
  note inj = ok [unfolded tickets_ok_def, THEN conjunct2, rule_format]
  have i: "i < length ts" and j: "j < length ts" using assms(3,4) len by simp_all
  have "\<not> tk_writing (ts ! j)" if "tk_writing (ts ! i)"
    using inj [OF i j] writing_served [OF ok i] writing_served [OF ok j] that assms(5) by auto
  moreover have "ts ! j \<noteq> TReader" if "tk_writing (ts ! i)"
    using r cnt_pos [of i ts tk_writing] cnt_pos [of j ts "\<lambda>p. p = TReader"] that i j by auto
  moreover have "ts ! j \<noteq> TWait v" if "ts ! i = TWait v"
    using inj [OF i j] that assms(5) by auto
  moreover have "v \<noteq> tk_users t" if v: "ts ! i = TWait v"
  proof
    assume eq: "v = tk_users t"
    have "tk_tickets ts + ph < 2 ^ LENGTH('a)" using lim(1,2) cnt_le_length [of tk_ticketed ts] by linarith
    then have "tk_dist (tk_read t) (ts ! i) = tk_tickets ts + ph"
      unfolding v eq lim(3) by (simp add: unsigned_of_nat take_bit_nat_eq_self del: of_nat_add)
    then show False using ok [unfolded tickets_ok_def, THEN conjunct1, rule_format, OF i] v by simp
  qed
  ultimately show ?thesis by blast
qed

theorem ticket_mutual_exclusion_witness:
  "[TWriter, TIdle] ! 1 \<noteq> (TReader :: 8 word tk_pc) \<and>
   (interleave (tk_act True))\<^sup>*\<^sup>* (tk_init :: 8 word ticket, replicate 2 TIdle)
     (\<lparr>tk_write = 0, tk_read = 0, tk_users = 1\<rparr>, [TWriter, TIdle])"
proof -
  let ?t = "tk_init :: 8 word ticket" and ?u = "\<lparr>tk_write = 0, tk_read = 0, tk_users = 1\<rparr> :: 8 word ticket"
  have "tk_act True ?t TIdle ?t (TTry_Lock ?t ?u False)"
    by (rule try_lock_load) (simp add: tk_try_lock_load_def tk_init_def)
  moreover have "tk_act True ?t (TTry_Lock ?t ?u False) ?u TWriter"
    using try_lock_swap [of ?t ?t ?u True ?u True False] by (simp add: compare_and_swap_def)
  ultimately have "(alone (tk_act True))\<^sup>*\<^sup>* (?t, replicate 2 TIdle ! 0) (?u, TWriter)"
    using alone_step [of "tk_act True" ?t TIdle] alone_step [of "tk_act True" ?t "TTry_Lock ?t ?u False"] by simp
  from alone_interleave [OF this]
  have run: "(interleave (tk_act True))\<^sup>*\<^sup>* (?t, replicate 2 TIdle) (?u, [TWriter, TIdle])"
    by (simp add: numeral_2_eq_2)
  show ?thesis using ticket_mutual_exclusion [OF _ run, of 0 1] run by simp
qed

text \<open>
  C27. Without SSE2 a reader can destroy the lock. \<open>try_lock_shared\<close> computes the new ticket from the
  loaded one, not from the expected one. If writers that were active at the load have wrapped the
  counters by the time of the compare-and-swap (256 turns for the 32-bit lock), the swap succeeds
  and counts a user too many: two clients suffice to reach a state in which both are idle and
  neither can ever lock again, for reading or writing, by any call.
\<close>

theorem ticket_reader_overtaken:
  assumes "3 \<le> LENGTH('a::len)"
  shows "\<exists>t :: 'a word ticket. (interleave (tk_act False))\<^sup>*\<^sup>* (tk_init, [TIdle, TIdle]) (t, [TIdle, TIdle]) \<and>
    (\<forall>t' ts'. (interleave (tk_act False))\<^sup>*\<^sup>* (t, [TIdle, TIdle]) (t', ts') \<longrightarrow>
       ts' ! 0 \<noteq> TReader \<and> \<not> tk_writing (ts' ! 0) \<and> ts' ! 1 \<noteq> TReader \<and> \<not> tk_writing (ts' ! 1))"
proof -
  have stuck: "thread_invariant (tk_act False) (tk_stuck :: 'a word ticket \<Rightarrow> _)"
    by unfold_locales (rule tk_stuck_act [OF assms])
  obtain t :: "'a word ticket" where run: "(interleave (tk_act False))\<^sup>*\<^sup>* (tk_init, [TIdle, TIdle]) (t, [TIdle, TIdle])"
    and t: "tk_write t = 1" "tk_read t = 1" "tk_users t = 2" using overtaken_run by blast
  have "tk_stuck t [TIdle, TIdle]" using t by (auto simp: tk_stuck_def less_Suc_eq)
  then have later: "tk_stuck t' ts'" if "(interleave (tk_act False))\<^sup>*\<^sup>* (t, [TIdle, TIdle]) (t', ts')" for t' ts'
    using thread_invariant.inv_reachable [OF stuck that] by blast
  have out: "p \<noteq> TReader \<and> \<not> tk_writing p" if "tk_shut_out p" for p :: "'a word tk_pc"
    using that by (cases p) auto
  have idle: "ts' ! 0 \<noteq> TReader \<and> \<not> tk_writing (ts' ! 0) \<and> ts' ! 1 \<noteq> TReader \<and> \<not> tk_writing (ts' ! 1)"
    if "tk_stuck t' ts'" for t' :: "'a word ticket" and ts'
  proof -
    have "tk_shut_out (ts' ! 0)" "tk_shut_out (ts' ! 1)" using that by (simp_all add: tk_stuck_def)
    then show ?thesis using out by blast
  qed
  show ?thesis using run later idle by (intro exI [of _ t]) blast
qed

theorem ticket_reader_overtaken_witness:
  "\<exists>t :: 8 word ticket. (interleave (tk_act False))\<^sup>*\<^sup>* (tk_init, [TIdle, TIdle]) (t, [TIdle, TIdle]) \<and>
    (\<forall>t' ts'. (interleave (tk_act False))\<^sup>*\<^sup>* (t, [TIdle, TIdle]) (t', ts') \<longrightarrow>
       ts' ! 0 \<noteq> TReader \<and> \<not> tk_writing (ts' ! 0) \<and> ts' ! 1 \<noteq> TReader \<and> \<not> tk_writing (ts' ! 1))"
  by (rule ticket_reader_overtaken) simp

end
