(* ===== verification/Folly_RWHolders.thy ===== *)
theory Folly_RWHolders
  imports Prelude "HOL-Library.Multiset"
begin

text \<open>
  The scoped holders of \<open>folly/synchronization/RWSpinLock.h\<close>: \<open>ReadHolder\<close>, \<open>UpgradedHolder\<close> and
  \<open>WriteHolder\<close> of \<open>RWSpinLock\<close>, and the two holder classes of the ticket lock.

  A holder is its member \<open>lock_\<close>, a pointer that may be null; locks are numbers. A member function
  returns the new pointers of the holders it changes and the list of the calls it makes on locks, in
  order. The locking calls are those whose effect on the lock word the theories of the two locks
  give; here a call that locks is taken to return once it is granted.
\<close>

section \<open>Calls\<close>

datatype lock_call =
    Lock nat
  | Unlock nat
  | Lock_Shared nat
  | Unlock_Shared nat
  | Lock_Upgrade nat
  | Unlock_Upgrade nat
  | Unlock_Upgrade_And_Lock nat
  | Unlock_Upgrade_And_Lock_Shared nat
  | Unlock_And_Lock_Shared nat
  | Unlock_And_Lock_Upgrade nat
  | Ticket_Lock nat
  | Ticket_Unlock nat
  | Ticket_Lock_Shared nat
  | Ticket_Unlock_Shared nat
  | Ticket_Unlock_And_Lock_Shared nat

definition if_lock :: "nat option \<Rightarrow> (nat \<Rightarrow> lock_call) \<Rightarrow> lock_call list" where
  "if_lock lock f = (case lock of None \<Rightarrow> [] | Some l \<Rightarrow> [f l])"

section \<open>ReadHolder\<close>

definition ReadHolder_ptr :: "nat option \<Rightarrow> nat option \<times> lock_call list" where
  "ReadHolder_ptr lock = (lock, if_lock lock Lock_Shared)"

definition ReadHolder_ref :: "nat \<Rightarrow> nat option \<times> lock_call list" where
  "ReadHolder_ref lock = (Some lock, [Lock_Shared lock])"

text \<open>The functions of two holders return the pointers of this holder and of the other one.\<close>

definition ReadHolder_move :: "nat option \<Rightarrow> (nat option \<times> nat option) \<times> lock_call list" where
  "ReadHolder_move other = ((other, None), [])"

definition ReadHolder_upgraded :: "nat option \<Rightarrow> (nat option \<times> nat option) \<times> lock_call list" where
  "ReadHolder_upgraded upgraded = ((upgraded, None), if_lock upgraded Unlock_Upgrade_And_Lock_Shared)"

definition ReadHolder_writer :: "nat option \<Rightarrow> (nat option \<times> nat option) \<times> lock_call list" where
  "ReadHolder_writer writer = ((writer, None), if_lock writer Unlock_And_Lock_Shared)"

definition ReadHolder_assign :: "nat option \<Rightarrow> nat option \<Rightarrow> (nat option \<times> nat option) \<times> lock_call list" where
  "ReadHolder_assign this other = ((other, this), [])"

definition ReadHolder_destroy :: "nat option \<Rightarrow> lock_call list" where
  "ReadHolder_destroy this = if_lock this Unlock_Shared"

definition ReadHolder_reset :: "nat option \<Rightarrow> nat option \<Rightarrow> nat option \<times> lock_call list" where
  "ReadHolder_reset this lock =
     (if lock = this then (this, [])
      else (lock, if_lock this Unlock_Shared @ if_lock lock Lock_Shared))"

definition ReadHolder_swap :: "nat option \<Rightarrow> nat option \<Rightarrow> (nat option \<times> nat option) \<times> lock_call list" where
  "ReadHolder_swap this other = ((other, this), [])"

section \<open>UpgradedHolder\<close>

definition UpgradedHolder_ptr :: "nat option \<Rightarrow> nat option \<times> lock_call list" where
  "UpgradedHolder_ptr lock = (lock, if_lock lock Lock_Upgrade)"

definition UpgradedHolder_ref :: "nat \<Rightarrow> nat option \<times> lock_call list" where
  "UpgradedHolder_ref lock = (Some lock, [Lock_Upgrade lock])"

definition UpgradedHolder_writer :: "nat option \<Rightarrow> (nat option \<times> nat option) \<times> lock_call list" where
  "UpgradedHolder_writer writer = ((writer, None), if_lock writer Unlock_And_Lock_Upgrade)"

definition UpgradedHolder_move :: "nat option \<Rightarrow> (nat option \<times> nat option) \<times> lock_call list" where
  "UpgradedHolder_move other = ((other, None), [])"

definition UpgradedHolder_assign ::
  "nat option \<Rightarrow> nat option \<Rightarrow> (nat option \<times> nat option) \<times> lock_call list" where
  "UpgradedHolder_assign this other = ((other, this), [])"

definition UpgradedHolder_destroy :: "nat option \<Rightarrow> lock_call list" where
  "UpgradedHolder_destroy this = if_lock this Unlock_Upgrade"

definition UpgradedHolder_reset :: "nat option \<Rightarrow> nat option \<Rightarrow> nat option \<times> lock_call list" where
  "UpgradedHolder_reset this lock =
     (if lock = this then (this, [])
      else (lock, if_lock this Unlock_Upgrade @ if_lock lock Lock_Upgrade))"

definition UpgradedHolder_swap ::
  "nat option \<Rightarrow> nat option \<Rightarrow> (nat option \<times> nat option) \<times> lock_call list" where
  "UpgradedHolder_swap this other = ((other, this), [])"

section \<open>WriteHolder\<close>

definition WriteHolder_ptr :: "nat option \<Rightarrow> nat option \<times> lock_call list" where
  "WriteHolder_ptr lock = (lock, if_lock lock Lock)"

definition WriteHolder_ref :: "nat \<Rightarrow> nat option \<times> lock_call list" where
  "WriteHolder_ref lock = (Some lock, [Lock lock])"

definition WriteHolder_upgraded :: "nat option \<Rightarrow> (nat option \<times> nat option) \<times> lock_call list" where
  "WriteHolder_upgraded upgraded = ((upgraded, None), if_lock upgraded Unlock_Upgrade_And_Lock)"

definition WriteHolder_move :: "nat option \<Rightarrow> (nat option \<times> nat option) \<times> lock_call list" where
  "WriteHolder_move other = ((other, None), [])"

definition WriteHolder_assign :: "nat option \<Rightarrow> nat option \<Rightarrow> (nat option \<times> nat option) \<times> lock_call list" where
  "WriteHolder_assign this other = ((other, this), [])"

definition WriteHolder_destroy :: "nat option \<Rightarrow> lock_call list" where
  "WriteHolder_destroy this = if_lock this Unlock"

definition WriteHolder_reset :: "nat option \<Rightarrow> nat option \<Rightarrow> nat option \<times> lock_call list" where
  "WriteHolder_reset this lock =
     (if lock = this then (this, [])
      else (lock, if_lock this Unlock @ if_lock lock Lock))"

definition WriteHolder_swap :: "nat option \<Rightarrow> nat option \<Rightarrow> (nat option \<times> nat option) \<times> lock_call list" where
  "WriteHolder_swap this other = ((other, this), [])"

section \<open>The holders of the ticket lock\<close>

definition Ticket_ReadHolder_ptr :: "nat option \<Rightarrow> nat option \<times> lock_call list" where
  "Ticket_ReadHolder_ptr lock = (lock, if_lock lock Ticket_Lock_Shared)"

definition Ticket_ReadHolder_ref :: "nat \<Rightarrow> nat option \<times> lock_call list" where
  "Ticket_ReadHolder_ref lock = (Some lock, if_lock (Some lock) Ticket_Lock_Shared)"

definition Ticket_ReadHolder_writer :: "nat option \<Rightarrow> (nat option \<times> nat option) \<times> lock_call list" where
  "Ticket_ReadHolder_writer writer = ((writer, None), if_lock writer Ticket_Unlock_And_Lock_Shared)"

definition Ticket_ReadHolder_destroy :: "nat option \<Rightarrow> lock_call list" where
  "Ticket_ReadHolder_destroy this = if_lock this Ticket_Unlock_Shared"

definition Ticket_ReadHolder_reset :: "nat option \<Rightarrow> nat option \<Rightarrow> nat option \<times> lock_call list" where
  "Ticket_ReadHolder_reset this lock =
     (lock, if_lock this Ticket_Unlock_Shared @ if_lock lock Ticket_Lock_Shared)"

definition Ticket_ReadHolder_swap ::
  "nat option \<Rightarrow> nat option \<Rightarrow> (nat option \<times> nat option) \<times> lock_call list" where
  "Ticket_ReadHolder_swap this other = ((other, this), [])"

definition Ticket_WriteHolder_ptr :: "nat option \<Rightarrow> nat option \<times> lock_call list" where
  "Ticket_WriteHolder_ptr lock = (lock, if_lock lock Ticket_Lock)"

definition Ticket_WriteHolder_ref :: "nat \<Rightarrow> nat option \<times> lock_call list" where
  "Ticket_WriteHolder_ref lock = (Some lock, if_lock (Some lock) Ticket_Lock)"

definition Ticket_WriteHolder_destroy :: "nat option \<Rightarrow> lock_call list" where
  "Ticket_WriteHolder_destroy this = if_lock this Ticket_Unlock"

definition Ticket_WriteHolder_reset :: "nat option \<Rightarrow> nat option \<Rightarrow> nat option \<times> lock_call list" where
  "Ticket_WriteHolder_reset this lock =
     (if lock = this then (this, [])
      else (lock, if_lock this Ticket_Unlock @ if_lock lock Ticket_Lock))"

definition Ticket_WriteHolder_swap ::
  "nat option \<Rightarrow> nat option \<Rightarrow> (nat option \<times> nat option) \<times> lock_call list" where
  "Ticket_WriteHolder_swap this other = ((other, this), [])"

section \<open>Programs over holders\<close>

datatype holder_class = Read_Holder | Upgraded_Holder | Write_Holder | Ticket_Read_Holder | Ticket_Write_Holder

type_synonym holder = "holder_class \<times> nat option"

fun construct :: "holder_class \<Rightarrow> nat option \<Rightarrow> nat option \<times> lock_call list" where
  "construct Read_Holder = ReadHolder_ptr"
| "construct Upgraded_Holder = UpgradedHolder_ptr"
| "construct Write_Holder = WriteHolder_ptr"
| "construct Ticket_Read_Holder = Ticket_ReadHolder_ptr"
| "construct Ticket_Write_Holder = Ticket_WriteHolder_ptr"

fun construct_ref :: "holder_class \<Rightarrow> nat \<Rightarrow> nat option \<times> lock_call list" where
  "construct_ref Read_Holder = ReadHolder_ref"
| "construct_ref Upgraded_Holder = UpgradedHolder_ref"
| "construct_ref Write_Holder = WriteHolder_ref"
| "construct_ref Ticket_Read_Holder = Ticket_ReadHolder_ref"
| "construct_ref Ticket_Write_Holder = Ticket_WriteHolder_ref"

text \<open>The constructors that take another holder: new class, class of the argument.\<close>

fun construct_from ::
  "holder_class \<Rightarrow> holder_class \<Rightarrow> (nat option \<Rightarrow> (nat option \<times> nat option) \<times> lock_call list) option" where
  "construct_from Read_Holder Read_Holder = Some ReadHolder_move"
| "construct_from Read_Holder Upgraded_Holder = Some ReadHolder_upgraded"
| "construct_from Read_Holder Write_Holder = Some ReadHolder_writer"
| "construct_from Upgraded_Holder Upgraded_Holder = Some UpgradedHolder_move"
| "construct_from Upgraded_Holder Write_Holder = Some UpgradedHolder_writer"
| "construct_from Write_Holder Write_Holder = Some WriteHolder_move"
| "construct_from Write_Holder Upgraded_Holder = Some WriteHolder_upgraded"
| "construct_from Ticket_Read_Holder Ticket_Write_Holder = Some Ticket_ReadHolder_writer"
| "construct_from c d = None"

fun assign_from ::
  "holder_class \<Rightarrow> (nat option \<Rightarrow> nat option \<Rightarrow> (nat option \<times> nat option) \<times> lock_call list) option" where
  "assign_from Read_Holder = Some ReadHolder_assign"
| "assign_from Upgraded_Holder = Some UpgradedHolder_assign"
| "assign_from Write_Holder = Some WriteHolder_assign"
| "assign_from c = None"

fun swap_with ::
  "holder_class \<Rightarrow> nat option \<Rightarrow> nat option \<Rightarrow> (nat option \<times> nat option) \<times> lock_call list" where
  "swap_with Read_Holder = ReadHolder_swap"
| "swap_with Upgraded_Holder = UpgradedHolder_swap"
| "swap_with Write_Holder = WriteHolder_swap"
| "swap_with Ticket_Read_Holder = Ticket_ReadHolder_swap"
| "swap_with Ticket_Write_Holder = Ticket_WriteHolder_swap"

fun reset_to :: "holder_class \<Rightarrow> nat option \<Rightarrow> nat option \<Rightarrow> nat option \<times> lock_call list" where
  "reset_to Read_Holder = ReadHolder_reset"
| "reset_to Upgraded_Holder = UpgradedHolder_reset"
| "reset_to Write_Holder = WriteHolder_reset"
| "reset_to Ticket_Read_Holder = Ticket_ReadHolder_reset"
| "reset_to Ticket_Write_Holder = Ticket_WriteHolder_reset"

fun destroy :: "holder_class \<Rightarrow> nat option \<Rightarrow> lock_call list" where
  "destroy Read_Holder = ReadHolder_destroy"
| "destroy Upgraded_Holder = UpgradedHolder_destroy"
| "destroy Write_Holder = WriteHolder_destroy"
| "destroy Ticket_Read_Holder = Ticket_ReadHolder_destroy"
| "destroy Ticket_Write_Holder = Ticket_WriteHolder_destroy"

text \<open>
  A program is a sequence of operations on holder objects, numbered in the order of their
  construction; \<open>None\<close> in the list of holders is an object that has been destroyed. An operation on
  a missing object or on objects of the wrong classes is not a C++ program and gives \<open>None\<close>.
\<close>

datatype holder_op =
    Construct holder_class "nat option"
  | Construct_Ref holder_class nat
  | Construct_From holder_class nat
  | Assign nat nat
  | Swap nat nat
  | Reset nat "nat option"
  | Destroy nat

definition object :: "holder option list \<Rightarrow> nat \<Rightarrow> holder option" where
  "object hs i = (if i < length hs then hs ! i else None)"

fun holder_exec :: "holder_op \<Rightarrow> holder option list \<Rightarrow> (holder option list \<times> lock_call list) option" where
  "holder_exec (Construct c lock) hs = (let (p, calls) = construct c lock in Some (hs @ [Some (c, p)], calls))"
| "holder_exec (Construct_Ref c l) hs = (let (p, calls) = construct_ref c l in Some (hs @ [Some (c, p)], calls))"
| "holder_exec (Construct_From c i) hs =
     (case object hs i of None \<Rightarrow> None
      | Some (d, q) \<Rightarrow> (case construct_from c d of None \<Rightarrow> None
          | Some f \<Rightarrow> (let ((p, q'), calls) = f q in Some (hs[i := Some (d, q')] @ [Some (c, p)], calls))))"
| "holder_exec (Assign i j) hs =
     (case (object hs i, object hs j) of
        (Some (c, p), Some (d, q)) \<Rightarrow>
          (if c \<noteq> d then None
           else case assign_from c of None \<Rightarrow> None
             | Some f \<Rightarrow> (let ((p', q'), calls) = f p q in Some (hs[i := Some (c, p'), j := Some (d, q')], calls)))
      | _ \<Rightarrow> None)"
| "holder_exec (Swap i j) hs =
     (case (object hs i, object hs j) of
        (Some (c, p), Some (d, q)) \<Rightarrow>
          (if c \<noteq> d then None
           else let ((p', q'), calls) = swap_with c p q in Some (hs[i := Some (c, p'), j := Some (d, q')], calls))
      | _ \<Rightarrow> None)"
| "holder_exec (Reset i lock) hs =
     (case object hs i of None \<Rightarrow> None
      | Some (c, p) \<Rightarrow> (let (p', calls) = reset_to c p lock in Some (hs[i := Some (c, p')], calls)))"
| "holder_exec (Destroy i) hs =
     (case object hs i of None \<Rightarrow> None
      | Some (c, p) \<Rightarrow> Some (hs[i := None], destroy c p))"

fun holder_run :: "holder_op list \<Rightarrow> holder option list \<Rightarrow> (holder option list \<times> lock_call list) option" where
  "holder_run [] hs = Some (hs, [])"
| "holder_run (x # xs) hs =
     (case holder_exec x hs of None \<Rightarrow> None
      | Some (hs', calls) \<Rightarrow> (case holder_run xs hs' of None \<Rightarrow> None
          | Some (hs'', calls') \<Rightarrow> Some (hs'', calls @ calls')))"

section \<open>What the calls acquire and release\<close>

text \<open>
  The ledger of a program is the multiset of the modes in which it holds locks, named by the class of
  holder. A call needs one entry, or none, and adds one, or none; without the entry it needs, the
  call is an error of the program.
\<close>

fun call_effect :: "lock_call \<Rightarrow> (holder_class \<times> nat) multiset \<times> (holder_class \<times> nat) multiset" where
  "call_effect (Lock l) = ({#}, {#(Write_Holder, l)#})"
| "call_effect (Unlock l) = ({#(Write_Holder, l)#}, {#})"
| "call_effect (Lock_Shared l) = ({#}, {#(Read_Holder, l)#})"
| "call_effect (Unlock_Shared l) = ({#(Read_Holder, l)#}, {#})"
| "call_effect (Lock_Upgrade l) = ({#}, {#(Upgraded_Holder, l)#})"
| "call_effect (Unlock_Upgrade l) = ({#(Upgraded_Holder, l)#}, {#})"
| "call_effect (Unlock_Upgrade_And_Lock l) = ({#(Upgraded_Holder, l)#}, {#(Write_Holder, l)#})"
| "call_effect (Unlock_Upgrade_And_Lock_Shared l) = ({#(Upgraded_Holder, l)#}, {#(Read_Holder, l)#})"
| "call_effect (Unlock_And_Lock_Shared l) = ({#(Write_Holder, l)#}, {#(Read_Holder, l)#})"
| "call_effect (Unlock_And_Lock_Upgrade l) = ({#(Write_Holder, l)#}, {#(Upgraded_Holder, l)#})"
| "call_effect (Ticket_Lock l) = ({#}, {#(Ticket_Write_Holder, l)#})"
| "call_effect (Ticket_Unlock l) = ({#(Ticket_Write_Holder, l)#}, {#})"
| "call_effect (Ticket_Lock_Shared l) = ({#}, {#(Ticket_Read_Holder, l)#})"
| "call_effect (Ticket_Unlock_Shared l) = ({#(Ticket_Read_Holder, l)#}, {#})"
| "call_effect (Ticket_Unlock_And_Lock_Shared l) = ({#(Ticket_Write_Holder, l)#}, {#(Ticket_Read_Holder, l)#})"

fun ledger :: "lock_call list \<Rightarrow> (holder_class \<times> nat) multiset \<Rightarrow> (holder_class \<times> nat) multiset option" where
  "ledger [] M = Some M"
| "ledger (x # xs) M =
     (let (needs, adds) = call_effect x
      in if needs \<subseteq># M then ledger xs (M - needs + adds) else None)"

fun own :: "holder option \<Rightarrow> (holder_class \<times> nat) multiset" where
  "own (Some (c, Some l)) = {#(c, l)#}"
| "own h = {#}"

definition held :: "holder option list \<Rightarrow> (holder_class \<times> nat) multiset" where
  "held hs = sum_list (map own hs)"

lemma held_simps [simp]: "held [] = {#}" "held (h # hs) = own h + held hs" "held (hs @ hs') = held hs + held hs'"
  by (simp_all add: held_def)

lemma held_update: "i < length hs \<Longrightarrow> held (hs[i := h]) + own (hs ! i) = held hs + own h"
proof (induction hs arbitrary: i)
  case (Cons a hs)
  then show ?case by (cases i) (auto simp: ac_simps)
qed simp

lemma held_split:
  assumes "i < length hs"
  shows "held hs = held (hs[i := None]) + own (hs ! i)" "held (hs[i := h]) = held (hs[i := None]) + own h"
  using held_update [OF assms, of None] held_update [of i "hs[i := None]" h] assms by simp_all

lemma ledger_append: "ledger (xs @ ys) M = (case ledger xs M of None \<Rightarrow> None | Some M' \<Rightarrow> ledger ys M')"
  by (induction xs arbitrary: M) (auto simp: Let_def split: prod.splits)

lemmas holder_member_defs =
  ReadHolder_ptr_def ReadHolder_ref_def ReadHolder_move_def ReadHolder_upgraded_def ReadHolder_writer_def
  ReadHolder_assign_def ReadHolder_destroy_def ReadHolder_reset_def ReadHolder_swap_def
  UpgradedHolder_ptr_def UpgradedHolder_ref_def UpgradedHolder_writer_def UpgradedHolder_move_def
  UpgradedHolder_assign_def UpgradedHolder_destroy_def UpgradedHolder_reset_def UpgradedHolder_swap_def
  WriteHolder_ptr_def WriteHolder_ref_def WriteHolder_upgraded_def WriteHolder_move_def
  WriteHolder_assign_def WriteHolder_destroy_def WriteHolder_reset_def WriteHolder_swap_def
  Ticket_ReadHolder_ptr_def Ticket_ReadHolder_ref_def Ticket_ReadHolder_writer_def
  Ticket_ReadHolder_destroy_def Ticket_ReadHolder_reset_def Ticket_ReadHolder_swap_def
  Ticket_WriteHolder_ptr_def Ticket_WriteHolder_ref_def Ticket_WriteHolder_destroy_def
  Ticket_WriteHolder_reset_def Ticket_WriteHolder_swap_def

lemma construct_ledger:
  "construct c lock = (p, calls) \<Longrightarrow> ledger calls M = Some (M + own (Some (c, p)))"
  "construct_ref c l = (p, calls) \<Longrightarrow> ledger calls M = Some (M + own (Some (c, p)))"
  by (cases c; cases lock; auto simp: holder_member_defs if_lock_def)
    (cases c; auto simp: holder_member_defs if_lock_def)

lemma destroy_ledger: "ledger (destroy c p) (M + own (Some (c, p))) = Some M"
  by (cases c; cases p; simp add: holder_member_defs if_lock_def)

lemma reset_ledger:
  "reset_to c p lock = (p', calls) \<Longrightarrow>
   ledger calls (M + own (Some (c, p))) = Some (M + own (Some (c, p')))"
  by (cases c; cases p; cases lock; auto simp: holder_member_defs if_lock_def split: if_splits)

lemma construct_from_ledger:
  "construct_from c d = Some f \<Longrightarrow> f q = ((p, q'), calls) \<Longrightarrow>
   ledger calls (M + own (Some (d, q))) = Some (M + own (Some (d, q')) + own (Some (c, p)))"
  by (cases c; cases d; cases q; auto simp: holder_member_defs if_lock_def)

lemma exchange:
  "assign_from c = Some f \<Longrightarrow> f p q = ((q, p), [])"
  "swap_with c p q = ((q, p), [])"
  by (cases c; auto simp: holder_member_defs)+

lemma held_exchange:
  assumes "i < length hs" "j < length hs" "hs ! i = Some (c, p)" "hs ! j = Some (c, q)"
  shows "held (hs[i := Some (c, q), j := Some (c, p)]) = held hs"
proof (cases "i = j")
  case True
  then show ?thesis using assms by (metis list_update_id list_update_overwrite option.inject prod.inject)
next
  case False
  then show ?thesis
    using held_update [of i hs "Some (c, q)"] held_update [of j "hs[i := Some (c, q)]" "Some (c, p)"] assms
    by (simp add: ac_simps)
qed

lemma object_Some_iff: "object hs i = Some h \<longleftrightarrow> i < length hs \<and> hs ! i = Some h"
  by (auto simp: object_def)

lemma holder_exec_ledger:
  assumes "holder_exec x hs = Some (hs', calls)"
  shows "ledger calls (held hs) = Some (held hs')"
proof (cases x)
  case (Construct c lock)
  with assms show ?thesis using construct_ledger(1) by (auto split: prod.splits)
next
  case (Construct_Ref c l)
  with assms show ?thesis using construct_ledger(2) by (auto split: prod.splits)
next
  case (Construct_From c i)
  with assms obtain d q f p q' where o: "i < length hs" "hs ! i = Some (d, q)" "construct_from c d = Some f"
    "f q = ((p, q'), calls)" and hs': "hs' = hs[i := Some (d, q')] @ [Some (c, p)]"
    by (auto simp: object_Some_iff split: option.splits prod.splits)
  show ?thesis
    using construct_from_ledger [OF o(3,4), of "held (hs[i := None])"] held_split(1) [OF o(1)]
      held_split(2) [OF o(1), of "Some (d, q')"] o(2) hs' by simp
next
  case (Assign i j)
  with assms obtain c p q f p' q' where o: "i < length hs" "j < length hs" "hs ! i = Some (c, p)" "hs ! j = Some (c, q)"
    and f: "assign_from c = Some f" "f p q = ((p', q'), calls)" "hs' = hs[i := Some (c, p'), j := Some (c, q')]"
    by (auto simp: object_Some_iff split: option.splits prod.splits if_splits)
  show ?thesis using held_exchange [OF o] exchange(1) [OF f(1), of p q] f(2,3) by simp
next
  case (Swap i j)
  with assms obtain c p q p' q' where o: "i < length hs" "j < length hs" "hs ! i = Some (c, p)" "hs ! j = Some (c, q)"
    and f: "swap_with c p q = ((p', q'), calls)" "hs' = hs[i := Some (c, p'), j := Some (c, q')]"
    by (auto simp: object_Some_iff split: option.splits prod.splits if_splits)
  show ?thesis using held_exchange [OF o] exchange(2) [of c p q] f by simp
next
  case (Reset i lock)
  with assms obtain c p p' where o: "i < length hs" "hs ! i = Some (c, p)" "reset_to c p lock = (p', calls)"
    and hs': "hs' = hs[i := Some (c, p')]"
    by (auto simp: object_Some_iff split: option.splits prod.splits)
  show ?thesis using reset_ledger [OF o(3), of "held (hs[i := None])"] held_split(1) [OF o(1)]
      held_split(2) [OF o(1), of "Some (c, p')"] o(2) hs' by simp
next
  case (Destroy i)
  with assms obtain c p where o: "i < length hs" "hs ! i = Some (c, p)" "hs' = hs[i := None]" "calls = destroy c p"
    by (auto simp: object_Some_iff split: option.splits)
  show ?thesis using destroy_ledger [of c p "held hs'"] held_split(1) [OF o(1)] o by simp
qed

lemma holder_run_ledger: "holder_run xs hs = Some (hs', calls) \<Longrightarrow> ledger calls (held hs) = Some (held hs')"
proof (induction xs arbitrary: hs calls)
  case (Cons x xs)
  then obtain hs1 calls1 calls2 where x: "holder_exec x hs = Some (hs1, calls1)"
    and xs: "holder_run xs hs1 = Some (hs', calls2)" "calls = calls1 @ calls2"
    by (auto split: option.splits)
  show ?case using holder_exec_ledger [OF x] Cons.IH [OF xs(1)] by (simp add: xs(2) ledger_append)
qed simp

text \<open>
  C24. Scoped locking. Whatever holders a program constructs, moves, converts, assigns, swaps, resets
  and destroys: every call that releases or converts a lock is made in the mode in which the program
  holds that lock at that moment, the locks held are at every end exactly those in the members
  \<open>lock_\<close> of the holders, and when all holders are destroyed nothing is held.
\<close>

theorem holders_balanced:
  assumes "holder_run xs [] = Some (hs, calls)"
  shows "ledger calls {#} = Some (held hs) \<and> (set hs \<subseteq> {None} \<longrightarrow> ledger calls {#} = Some {#})"
proof -
  have "held hs = {#}" if "set hs \<subseteq> {None}" using that by (induction hs) auto
  then show ?thesis using holder_run_ledger [OF assms] by auto
qed

theorem holders_balanced_witness:
  "ledger [Lock_Upgrade 7, Unlock_Upgrade_And_Lock 7, Unlock_And_Lock_Shared 7, Unlock_Shared 7, Lock_Shared 8,
     Unlock_Shared 8] {#} = Some {#}"
  using holders_balanced [of "[Construct Upgraded_Holder (Some 7), Construct_From Write_Holder 0,
      Construct_From Read_Holder 1, Reset 2 (Some 8), Destroy 2, Destroy 0, Destroy 1]"]
  by (simp add: holder_member_defs if_lock_def object_def)

end
