(* ===== verification/Folly_Escape.thy ===== *)
theory Folly_Escape
  imports Prelude
begin

text \<open>
  Escaping and hexadecimal output of \<open>folly/String-inl.h\<close> with the tables of \<open>folly/String.cpp\<close>.

  A string is the list of its bytes; characters are written as their ASCII codes. A pointer into the
  input is an index. The loops that copy runs of regular characters keep the two indices \<open>p\<close> and
  \<open>lst\<close> (\<open>last\<close>) of the code; \<open>reserve\<close>, which has no effect on the contents, is left out. A thrown
  \<open>std::invalid_argument\<close> is a left value that carries its message.
\<close>

section \<open>Tables\<close>

definition make_array_with :: "nat \<Rightarrow> (nat \<Rightarrow> 'a) \<Rightarrow> 'a list" where
  "make_array_with n item = map item [0..<n]"

definition c_escape_item :: "nat \<Rightarrow> u8" where
  "c_escape_item index =
     (if index = 0x22 then 0x22
      else if index = 0x5C then 0x5C
      else if index = 0x3F then 0x3F
      else if index = 10 then 0x6E
      else if index = 13 then 0x72
      else if index = 9 then 0x74
      else if index < 32 \<or> index > 126 then 0x4F
      else 0x50)"

definition c_unescape_item :: "nat \<Rightarrow> u8" where
  "c_unescape_item index =
     (if index = 0x27 then 0x27
      else if index = 0x3F then 0x3F
      else if index = 0x5C then 0x5C
      else if index = 0x22 then 0x22
      else if index = 0x61 then 7
      else if index = 0x62 then 8
      else if index = 0x66 then 12
      else if index = 0x6E then 10
      else if index = 0x72 then 13
      else if index = 0x74 then 9
      else if index = 0x76 then 11
      else if index \<ge> 0x30 \<and> index \<le> 0x37 then 0x4F
      else if index = 0x78 then 0x58
      else 0x49)"

definition hex_item :: "nat \<Rightarrow> u8" where
  "hex_item index =
     (if index \<ge> 0x30 \<and> index \<le> 0x39 then of_nat (index - 0x30)
      else if index \<ge> 0x61 \<and> index \<le> 0x66 then of_nat (index - 0x61 + 10)
      else if index \<ge> 0x41 \<and> index \<le> 0x46 then of_nat (index - 0x41 + 10)
      else 16)"

definition uri_escape_item :: "nat \<Rightarrow> u8" where
  "uri_escape_item index =
     (if index \<ge> 0x30 \<and> index \<le> 0x39 then 0
      else if index \<ge> 0x41 \<and> index \<le> 0x5A then 0
      else if index \<ge> 0x61 \<and> index \<le> 0x7A then 0
      else if index = 0x2D then 0
      else if index = 0x5F then 0
      else if index = 0x2E then 0
      else if index = 0x7E then 0
      else if index = 0x2F then 2
      else if index = 0x20 then 3
      else 4)"

definition cEscapeTable :: "u8 list" where "cEscapeTable = make_array_with 256 c_escape_item"
definition cUnescapeTable :: "u8 list" where "cUnescapeTable = make_array_with 256 c_unescape_item"
definition hexTable :: "u8 list" where "hexTable = make_array_with 256 hex_item"
definition uriEscapeTable :: "u8 list" where "uriEscapeTable = make_array_with 256 uri_escape_item"

text \<open>\<open>hexValues\<close>, the sixteen digits.\<close>

definition hexValues :: "u8 list" where
  "hexValues = [0x30, 0x31, 0x32, 0x33, 0x34, 0x35, 0x36, 0x37, 0x38, 0x39, 0x61, 0x62, 0x63, 0x64, 0x65, 0x66]"

definition piece :: "'a list \<Rightarrow> nat \<Rightarrow> nat \<Rightarrow> 'a list" where
  "piece str i j = take (j - i) (drop i str)"

section \<open>C escapes\<close>

function cEscape_loop :: "u8 list \<Rightarrow> nat \<Rightarrow> nat \<Rightarrow> u8 list \<Rightarrow> u8 list" where
  "cEscape_loop str p lst out =
     (if p < length str then
        let v = str ! p;
            e = cEscapeTable ! unat v
        in if e = 0x50 then cEscape_loop str (p + 1) lst out
           else if e = 0x4F then
             let esc = [0x5C, 0x30 + (drop_bit 6 v AND 7), 0x30 + (drop_bit 3 v AND 7), 0x30 + (v AND 7)]
             in cEscape_loop str (p + 1) (p + 1) (out @ piece str lst p @ esc)
           else cEscape_loop str (p + 1) (p + 1) (out @ piece str lst p @ [0x5C, e])
      else out @ piece str lst p)"
  by pat_completeness auto
termination by (relation "measure (\<lambda>(str, p, lst, out). length str - p)") auto

definition cEscape :: "u8 list \<Rightarrow> u8 list \<Rightarrow> u8 list" where
  "cEscape str out = cEscape_loop str 0 0 out"

text \<open>The octal digits, at most \<open>n\<close>, and the hexadecimal digits after a backslash: the value and the
  index behind them.\<close>

fun octal_loop :: "u8 list \<Rightarrow> nat \<Rightarrow> nat \<Rightarrow> u8 \<Rightarrow> u8 \<times> nat" where
  "octal_loop str 0 p val = (val, p)"
| "octal_loop str (Suc n) p val =
     (if p < length str \<and> 0x30 \<le> str ! p \<and> str ! p \<le> 0x37
      then octal_loop str n (p + 1) (push_bit 3 val OR (str ! p - 0x30))
      else (val, p))"

function hex_loop :: "u8 list \<Rightarrow> nat \<Rightarrow> u8 \<Rightarrow> u8 \<times> nat" where
  "hex_loop str p val =
     (if p < length str \<and> hexTable ! unat (str ! p) < 16
      then hex_loop str (p + 1) (push_bit 4 val OR hexTable ! unat (str ! p))
      else (val, p))"
  by pat_completeness auto
termination by (relation "measure (\<lambda>(str, p, val). length str - p)") auto

declare hex_loop.simps [simp del]

lemma octal_loop_mono: "octal_loop str n p val = (val', p') \<Longrightarrow> p \<le> p'"
  by (induction str n p val rule: octal_loop.induct) (auto split: if_splits dest: Suc_leD)

lemma hex_loop_mono: "hex_loop str p val = (val', p') \<Longrightarrow> p \<le> p'"
proof (induction str p val rule: hex_loop.induct)
  case (1 str p val)
  then show ?case by (subst (asm) (2) hex_loop.simps) (auto split: if_splits dest: Suc_leD)
qed

function cUnescape_loop :: "bool \<Rightarrow> u8 list \<Rightarrow> nat \<Rightarrow> nat \<Rightarrow> u8 list \<Rightarrow> u8 list result" where
  "cUnescape_loop strict str p lst out =
     (if p < length str then
        if str ! p \<noteq> 0x5C then cUnescape_loop strict str (p + 1) lst out
        else
          let out = out @ piece str lst p;
              p = p + 1
          in if p = length str then
               if strict then Inl (Invalid_Argument ''incomplete escape sequence'')
               else cUnescape_loop strict str p p (out @ [0x5C])
             else
               let e = cUnescapeTable ! unat (str ! p)
               in if e = 0x4F then
                    let (val, p') = octal_loop str 3 p 0
                    in cUnescape_loop strict str p' p' (out @ [val])
                  else if e = 0x58 then
                    let p = p + 1
                    in if p = length str then
                         if strict then Inl (Invalid_Argument ''incomplete hex escape sequence'')
                         else cUnescape_loop strict str p p (out @ [0x5C, 0x78])
                       else
                         let (val, p') = hex_loop str p 0
                         in cUnescape_loop strict str p' p' (out @ [val])
                  else if e = 0x49 then
                    if strict then Inl (Invalid_Argument ''invalid escape sequence'')
                    else cUnescape_loop strict str (p + 1) (p + 1) (out @ [0x5C, str ! p])
                  else cUnescape_loop strict str (p + 1) (p + 1) (out @ [e])
      else Inr (out @ piece str lst p))"
  by pat_completeness auto
termination
  by (relation "measure (\<lambda>(strict, str, p, lst, out). length str - p)")
    (auto dest!: octal_loop_mono hex_loop_mono simp: eq_commute [of "(_, _)"])

declare cEscape_loop.simps [simp del] cUnescape_loop.simps [simp del]

definition cUnescape :: "u8 list \<Rightarrow> u8 list \<Rightarrow> bool \<Rightarrow> u8 list result" where
  "cUnescape str out strict = cUnescape_loop strict str 0 0 out"

section \<open>URI escapes\<close>

datatype uri_mode = URI_ALL | URI_QUERY | URI_PATH

fun mode_value :: "uri_mode \<Rightarrow> u8" where
  "mode_value URI_ALL = 0"
| "mode_value URI_QUERY = 1"
| "mode_value URI_PATH = 2"

function uriEscape_loop :: "uri_mode \<Rightarrow> u8 list \<Rightarrow> nat \<Rightarrow> nat \<Rightarrow> u8 list \<Rightarrow> u8 list" where
  "uriEscape_loop mode str p lst out =
     (if p < length str then
        let v = str ! p;
            discriminator = uriEscapeTable ! unat v
        in if discriminator \<le> mode_value mode then uriEscape_loop mode str (p + 1) lst out
           else if mode = URI_QUERY \<and> discriminator = 3 then
             uriEscape_loop mode str (p + 1) (p + 1) (out @ piece str lst p @ [0x2B])
           else
             let esc = [0x25, hexValues ! unat (drop_bit 4 v), hexValues ! unat (v AND 0x0F)]
             in uriEscape_loop mode str (p + 1) (p + 1) (out @ piece str lst p @ esc)
      else out @ piece str lst p)"
  by pat_completeness auto
termination by (relation "measure (\<lambda>(mode, str, p, lst, out). length str - p)") auto

definition uriEscape :: "u8 list \<Rightarrow> u8 list \<Rightarrow> uri_mode \<Rightarrow> u8 list" where
  "uriEscape str out mode = uriEscape_loop mode str 0 0 out"

function uriUnescape_loop :: "uri_mode \<Rightarrow> u8 list \<Rightarrow> nat \<Rightarrow> nat \<Rightarrow> u8 list \<Rightarrow> u8 list result" where
  "uriUnescape_loop mode str p lst out =
     (if p < length str then
        if str ! p = 0x25 then
          if length str - p < 3 then Inl (Invalid_Argument ''incomplete percent encode sequence'')
          else
            let h1 = hexTable ! unat (str ! (p + 1));
                h2 = hexTable ! unat (str ! (p + 2))
            in if h1 = 16 \<or> h2 = 16 then Inl (Invalid_Argument ''invalid percent encode sequence'')
               else uriUnescape_loop mode str (p + 3) (p + 3) (out @ piece str lst p @ [push_bit 4 h1 OR h2])
        else if str ! p = 0x2B \<and> mode = URI_QUERY then
          uriUnescape_loop mode str (p + 1) (p + 1) (out @ piece str lst p @ [0x20])
        else uriUnescape_loop mode str (p + 1) lst out
      else Inr (out @ piece str lst p))"
  by pat_completeness auto
termination by (relation "measure (\<lambda>(mode, str, p, lst, out). length str - p)") auto

declare uriEscape_loop.simps [simp del] uriUnescape_loop.simps [simp del]

definition uriUnescape :: "u8 list \<Rightarrow> u8 list \<Rightarrow> uri_mode \<Rightarrow> u8 list result" where
  "uriUnescape str out mode = uriUnescape_loop mode str 0 0 out"

section \<open>Display of binary strings\<close>

definition unprintable :: "u8 \<Rightarrow> bool" where
  "unprintable c \<longleftrightarrow> c < 0x20 \<or> c > 0x7E \<or> c = 0x5C"

definition backslashify_char :: "bool \<Rightarrow> u8 \<Rightarrow> u8 list" where
  "backslashify_char hex_style c =
     (if unprintable c then
        let hex = [0x78, hexValues ! unat (drop_bit 4 c AND 0xF), hexValues ! unat (c AND 0xF)]
        in 0x5C #
          (if hex_style then hex
           else if c = 13 then [0x72]
           else if c = 10 then [0x6E]
           else if c = 9 then [0x74]
           else if c = 7 then [0x61]
           else if c = 8 then [0x62]
           else if c = 0 then [0x30]
           else if c = 0x5C then [0x5C]
           else hex)
      else [c])"

fun backslashify_loop :: "bool \<Rightarrow> u8 list \<Rightarrow> u8 list \<Rightarrow> u8 list" where
  "backslashify_loop hex_style [] output = output"
| "backslashify_loop hex_style (c # cs) output =
     backslashify_loop hex_style cs (output @ backslashify_char hex_style c)"

definition backslashify :: "u8 list \<Rightarrow> bool \<Rightarrow> u8 list" where
  "backslashify input hex_style = backslashify_loop hex_style input []"

text \<open>\<open>hexlify\<close> reads each byte as \<open>char\<close>, which may be signed, into an \<open>int\<close>.\<close>

fun hexlify_loop :: "u8 list \<Rightarrow> u8 list \<Rightarrow> nat \<Rightarrow> u8 list" where
  "hexlify_loop [] output j = output"
| "hexlify_loop (c # cs) output j =
     (let ch = scast c :: u32
      in hexlify_loop cs
           (output[j := hexValues ! unat (drop_bit 4 ch AND 0xF), j + 1 := hexValues ! unat (ch AND 0xF)]) (j + 2))"

definition hexlify :: "u8 list \<Rightarrow> u8 list \<Rightarrow> bool \<Rightarrow> bool \<times> u8 list" where
  "hexlify input output append_output =
     (let output = (if append_output then output else []);
          j = length output;
          output = output @ replicate (2 * length input) 0
      in (True, hexlify_loop input output j))"

text \<open>\<open>unhexlify\<close> resizes its output first: it keeps a prefix or is extended with null characters,
  and all characters that remain are overwritten unless a digit is invalid.\<close>

fun unhexlify_loop :: "u8 list \<Rightarrow> u8 list \<Rightarrow> nat \<Rightarrow> bool \<times> u8 list" where
  "unhexlify_loop (a # b # cs) output j =
     (let highBits = hexTable ! unat a;
          lowBits = hexTable ! unat b
      in if (highBits OR lowBits) AND 0x10 \<noteq> 0 then (False, output)
         else unhexlify_loop cs (output[j := push_bit 4 highBits + lowBits]) (j + 1))"
| "unhexlify_loop cs output j = (True, output)"

definition unhexlify :: "u8 list \<Rightarrow> u8 list \<Rightarrow> bool \<times> u8 list" where
  "unhexlify input output =
     (if length input mod 2 \<noteq> 0 then (False, output)
      else
        let n = length input div 2;
            output = take n output @ replicate (n - length output) 0
        in unhexlify_loop input output 0)"

fun humanify_counts :: "u8 list \<Rightarrow> nat \<Rightarrow> nat \<Rightarrow> nat \<times> nat" where
  "humanify_counts [] numUnprintable numPrintablePrefix = (numUnprintable, numPrintablePrefix)"
| "humanify_counts (c # cs) numUnprintable numPrintablePrefix =
     (let numUnprintable = (if unprintable c then numUnprintable + 1 else numUnprintable);
          numPrintablePrefix = (if numUnprintable = 0 then numPrintablePrefix + 1 else numPrintablePrefix)
      in humanify_counts cs numUnprintable numPrintablePrefix)"

definition humanify :: "u8 list \<Rightarrow> u8 list" where
  "humanify input =
     (let (numUnprintable, numPrintablePrefix) = humanify_counts input 0 0
      in if numUnprintable = 0 then input
         else if 5 * numUnprintable \<ge> 3 * length input then
           if 5 * numPrintablePrefix \<ge> length input then backslashify input False
           else snd (hexlify input [0x30, 0x78] True)
         else backslashify input False)"

section \<open>Hexadecimal dumps\<close>

fun hex_dump_bytes :: "u8 list \<Rightarrow> nat \<Rightarrow> u8 list" where
  "hex_dump_bytes [] i = []"
| "hex_dump_bytes (c # cs) i =
     (if i = 8 then [0x20] else []) @
     [0x20, hexValues ! unat (drop_bit 4 c AND 0xF), hexValues ! unat (c AND 0xF)] @ hex_dump_bytes cs (i + 1)"

text \<open>One line and the number of bytes that it shows.\<close>

definition hexDumpLine :: "u8 list \<Rightarrow> nat \<Rightarrow> u8 list \<times> nat" where
  "hexDumpLine ptr offset =
     (let n = min (length ptr - offset) 16;
          p = take n (drop offset ptr);
          digit = (\<lambda>k. hexValues ! unat ((drop_bit k (of_nat offset) :: u64) AND 0xF));
          line = [digit 28, digit 24, digit 20, digit 16, digit 12, digit 8, digit 4, digit 0, 0x20];
          line = line @ hex_dump_bytes p 0;
          line = line @ replicate (3 * (16 - n) + (if n \<le> 8 then 1 else 0)) 0x20;
          line = line @ [0x20, 0x20, 0x7C];
          line = line @ map (\<lambda>c. if c \<ge> 32 \<and> c \<le> 126 then c else 0x2E) p;
          line = line @ replicate (16 - n) 0x20;
          line = line @ [0x7C]
      in (line, n))"

function hexDump_loop :: "u8 list \<Rightarrow> nat \<Rightarrow> u8 list list \<Rightarrow> u8 list list" where
  "hexDump_loop ptr offset out =
     (if offset < length ptr then
        let (line, n) = hexDumpLine ptr offset
        in hexDump_loop ptr (offset + n) (out @ [line])
      else out)"
  by pat_completeness auto
termination
  by (relation "measure (\<lambda>(ptr, offset, out). length ptr - offset)") (auto simp: hexDumpLine_def Let_def)

declare hexDump_loop.simps [simp del]

definition hexDump :: "u8 list \<Rightarrow> u8 list list" where
  "hexDump ptr = hexDump_loop ptr 0 []"

section \<open>Table entries\<close>

lemma make_array_nth: "i < n \<Longrightarrow> make_array_with n item ! i = item i"
  by (simp add: make_array_with_def)

lemma unat_u8: "unat (v :: u8) < 256"
proof -
  have "unat v < 2 ^ LENGTH(8)" by (rule unsigned_less)
  then show ?thesis by simp
qed

lemma table_lookup:
  "cEscapeTable ! unat (v :: u8) = c_escape_item (unat v)" "cUnescapeTable ! unat v = c_unescape_item (unat v)"
  "hexTable ! unat v = hex_item (unat v)" "uriEscapeTable ! unat v = uri_escape_item (unat v)"
  using unat_u8 [of v]
  by (simp_all add: cEscapeTable_def cUnescapeTable_def hexTable_def uriEscapeTable_def make_array_nth)

lemma unat_u8_eq_iff: "unat (v :: u8) = n \<longleftrightarrow> n < 256 \<and> v = of_nat n"
  using unat_u8 [of v] by (auto simp: unsigned_of_nat take_bit_nat_eq_self)

section \<open>Runs of regular characters\<close>

lemma piece_empty [simp]: "piece str i i = []"
  by (simp add: piece_def)

lemma piece_Suc: "i \<le> p \<Longrightarrow> p < length str \<Longrightarrow> piece str i (Suc p) = piece str i p @ [str ! p]"
  by (simp add: piece_def Suc_diff_le take_Suc_conv_app_nth)

lemma drop_Cons_nth: "p < length str \<Longrightarrow> drop p str = str ! p # drop (Suc p) str"
  by (simp add: Cons_nth_drop_Suc)

section \<open>C escapes of single characters\<close>

definition c_escaped :: "u8 \<Rightarrow> u8 list" where
  "c_escaped v =
     (let e = c_escape_item (unat v)
      in if e = 0x50 then [v]
         else if e = 0x4F then [0x5C, 0x30 + (drop_bit 6 v AND 7), 0x30 + (drop_bit 3 v AND 7), 0x30 + (v AND 7)]
         else [0x5C, e])"

lemma cEscape_loop_step:
  assumes "p < length str"
  shows "cEscape_loop str p lst out =
    (if c_escape_item (unat (str ! p)) = 0x50 then cEscape_loop str (Suc p) lst out
     else cEscape_loop str (Suc p) (Suc p) (out @ piece str lst p @ c_escaped (str ! p)))"
  using assms by (subst cEscape_loop.simps) (simp add: Let_def table_lookup c_escaped_def)

lemma cEscape_loop_spec:
  "lst \<le> p \<Longrightarrow> p \<le> length str \<Longrightarrow>
   cEscape_loop str p lst out = out @ piece str lst p @ concat (map c_escaped (drop p str))"
proof (induction "length str - p" arbitrary: p lst out)
  case 0
  then show ?case by (subst cEscape_loop.simps) simp
next
  case (Suc n)
  then have p: "p < length str" by simp
  have regular: "c_escaped (str ! p) = [str ! p]" if "c_escape_item (unat (str ! p)) = 0x50"
    using that by (simp add: c_escaped_def)
  from Suc.hyps(1) [of "Suc p"] Suc.hyps(2) Suc.prems(1) p show ?case
    by (simp add: cEscape_loop_step drop_Cons_nth piece_Suc regular)
qed

lemma cEscape_concat: "cEscape str out = out @ concat (map c_escaped str)"
  by (simp add: cEscape_def cEscape_loop_spec)

lemma and_7: "unat (x AND 7 :: u8) \<le> 7" "unat (0x30 + (x AND 7) :: u8) = 0x30 + unat (x AND 7)"
    "0x30 \<le> 0x30 + (x AND 7)" "0x30 + (x AND 7) \<le> 0x37"
proof -
  have "x AND 7 \<le> (7 :: u8)" by (rule word_and_le1)
  then show le: "unat (x AND 7 :: u8) \<le> 7" by (simp add: word_le_nat_alt)
  then show sum: "unat (0x30 + (x AND 7) :: u8) = 0x30 + unat (x AND 7)"
    by (simp add: unat_word_ariths)
  show "0x30 \<le> 0x30 + (x AND 7)" "0x30 + (x AND 7) \<le> 0x37"
    using le by (simp_all add: word_le_nat_alt sum)
qed

lemma octal_mask:
  "push_bit 3 (push_bit 3 (push_bit 3 0 OR (drop_bit 6 v AND mask 3)) OR (drop_bit 3 v AND mask 3)) OR (v AND mask 3) = v"
  for v :: u8
proof (rule bit_word_eqI)
  fix n assume "n < LENGTH(8)"
  then show "bit (push_bit 3 (push_bit 3 (push_bit 3 0 OR (drop_bit 6 v AND mask 3)) OR (drop_bit 3 v AND mask 3)) OR
      (v AND mask 3)) n = bit v n"
    by (cases "6 \<le> n"; cases "3 \<le> n") (simp_all add: bit_simps, auto)
qed

lemma octal_digits: "push_bit 3 (push_bit 3 (push_bit 3 0 OR (drop_bit 6 v AND 7)) OR (drop_bit 3 v AND 7)) OR (v AND 7) = v"
  for v :: u8
proof -
  have "(7 :: u8) = mask 3" by (simp add: mask_eq_exp_minus_1)
  then show ?thesis by (metis octal_mask)
qed

text \<open>What one step of \<open>cUnescape_loop\<close> does at a regular character and at the escapes that
  \<open>cEscape\<close> writes.\<close>

lemma cUnescape_regular:
  "p < length str \<Longrightarrow> str ! p \<noteq> 0x5C \<Longrightarrow>
   cUnescape_loop strict str p lst out = cUnescape_loop strict str (Suc p) lst out"
  by (subst cUnescape_loop.simps) simp

lemma cUnescape_simple:
  assumes "Suc p < length str" "str ! p = 0x5C" "c_unescape_item (unat (str ! Suc p)) = e"
    and "e \<notin> {0x4F, 0x58, 0x49}"
  shows "cUnescape_loop strict str p lst out =
    cUnescape_loop strict str (Suc (Suc p)) (Suc (Suc p)) (out @ piece str lst p @ [e])"
  using assms by (subst cUnescape_loop.simps) (simp add: Let_def table_lookup)

lemma c_unescape_octal: "0x30 \<le> n \<Longrightarrow> n \<le> 0x37 \<Longrightarrow> c_unescape_item n = 0x4F"
  by (simp add: c_unescape_item_def)

lemma cUnescape_octal:
  fixes v :: u8
  assumes "p + 3 < length str" "str ! p = 0x5C" "str ! (p + 1) = 0x30 + (drop_bit 6 v AND 7)"
    "str ! (p + 2) = 0x30 + (drop_bit 3 v AND 7)" "str ! (p + 3) = 0x30 + (v AND 7)"
  shows "cUnescape_loop strict str p lst out = cUnescape_loop strict str (p + 4) (p + 4) (out @ piece str lst p @ [v])"
proof -
  have digits: "str ! Suc p = 0x30 + (drop_bit 6 v AND 7)" "str ! Suc (Suc p) = 0x30 + (drop_bit 3 v AND 7)"
    "str ! Suc (Suc (Suc p)) = 0x30 + (v AND 7)"
    using assms by (simp_all add: numeral_eq_Suc)
  have e: "c_unescape_item (unat (str ! Suc p)) = 0x4F"
    unfolding digits by (rule c_unescape_octal) (use and_7 in simp_all)
  have "octal_loop str 3 (Suc p) 0 = (v, p + 4)"
    using assms(1) octal_digits [of v] by (simp add: numeral_3_eq_3 digits and_7 numeral_eq_Suc)
  then show ?thesis using assms(1,2) e by (subst cUnescape_loop.simps) (simp add: Let_def table_lookup)
qed

lemma c_escape_special:
  assumes "c_escape_item (unat v) = e" "e \<noteq> 0x50" "e \<noteq> 0x4F"
  shows "c_unescape_item (unat e) = v" "v \<notin> {0x4F, 0x58, 0x49}"
proof -
  have v: "v = of_nat (unat v)" by simp
  from assms have "(unat v, e) \<in> {(0x22, 0x22), (0x5C, 0x5C), (0x3F, 0x3F), (10, 0x6E), (13, 0x72), (9, 0x74)}"
    by (auto simp: c_escape_item_def split: if_splits)
  then have "v = 0x22 \<and> e = 0x22 \<or> v = 0x5C \<and> e = 0x5C \<or> v = 0x3F \<and> e = 0x3F \<or> v = 10 \<and> e = 0x6E \<or>
    v = 13 \<and> e = 0x72 \<or> v = 9 \<and> e = 0x74"
    by (auto simp: unat_u8_eq_iff)
  then show "c_unescape_item (unat e) = v" "v \<notin> {0x4F, 0x58, 0x49}"
    by (auto simp: c_unescape_item_def)
qed

lemma c_escape_printable: "c_escape_item (unat v) = 0x50 \<Longrightarrow> v \<noteq> 0x5C" for v :: u8
  by (auto simp: c_escape_item_def)

lemma cUnescape_escaped:
  assumes "lst \<le> length pre"
  shows "\<exists>l o'. cUnescape_loop strict (pre @ c_escaped v @ rest) (length pre) lst out =
      cUnescape_loop strict (pre @ c_escaped v @ rest) (length pre + length (c_escaped v)) l o' \<and>
    l \<le> length pre + length (c_escaped v) \<and>
    o' @ piece (pre @ c_escaped v) l (length pre + length (c_escaped v)) = out @ piece pre lst (length pre) @ [v]"
proof -
  let ?e = "c_escape_item (unat v)" and ?s = "pre @ c_escaped v @ rest"
  have run: "piece ?s lst (length pre) = piece pre lst (length pre)" by (simp add: piece_def)
  consider "?e = 0x50" | "?e = 0x4F" | "?e \<noteq> 0x50" "?e \<noteq> 0x4F" by blast
  then show ?thesis
  proof cases
    case 1
    then have c: "c_escaped v = [v]" by (simp add: c_escaped_def)
    show ?thesis
      using cUnescape_regular [of "length pre" ?s strict lst out] c_escape_printable [OF 1] assms
      by (intro exI [of _ lst] exI [of _ out]) (simp add: c nth_append piece_Suc, simp add: piece_def)
  next
    case 2
    then have c: "c_escaped v = [0x5C, 0x30 + (drop_bit 6 v AND 7), 0x30 + (drop_bit 3 v AND 7), 0x30 + (v AND 7)]"
      by (simp add: c_escaped_def)
    have four: "length pre + 4 = Suc (Suc (Suc (Suc (length pre))))" by simp
    show ?thesis
      using cUnescape_octal [of "length pre" ?s v strict lst out] run
      by (intro exI [of _ "length pre + 4"] exI [of _ "out @ piece pre lst (length pre) @ [v]"])
        (simp add: c nth_append four)
  next
    case 3
    then have c: "c_escaped v = [0x5C, ?e]" by (simp add: c_escaped_def)
    show ?thesis
      using cUnescape_simple [of "length pre" ?s v strict lst out] c_escape_special [OF refl 3] run
      by (intro exI [of _ "length pre + 2"] exI [of _ "out @ piece pre lst (length pre) @ [v]"])
        (simp add: c nth_append)
  qed
qed

lemma cUnescape_cEscape_loop:
  "lst \<le> length pre \<Longrightarrow>
   cUnescape_loop strict (pre @ concat (map c_escaped str)) (length pre) lst out =
   Inr (out @ piece pre lst (length pre) @ str)"
proof (induction str arbitrary: pre lst out)
  case Nil
  then show ?case by (subst cUnescape_loop.simps) simp
next
  case (Cons v str)
  let ?rest = "concat (map c_escaped str)"
  obtain l o' where step: "cUnescape_loop strict (pre @ c_escaped v @ ?rest) (length pre) lst out =
      cUnescape_loop strict (pre @ c_escaped v @ ?rest) (length pre + length (c_escaped v)) l o'"
    and l: "l \<le> length pre + length (c_escaped v)"
    and out: "o' @ piece (pre @ c_escaped v) l (length pre + length (c_escaped v)) =
      out @ piece pre lst (length pre) @ [v]"
    using cUnescape_escaped [OF Cons.prems, of strict v ?rest out] by blast
  have "cUnescape_loop strict ((pre @ c_escaped v) @ ?rest) (length (pre @ c_escaped v)) l o' =
      Inr (o' @ piece (pre @ c_escaped v) l (length (pre @ c_escaped v)) @ str)"
    by (rule Cons.IH) (simp add: l)
  with step out show ?case by (metis append.assoc append_Cons append_Nil concat.simps(2) length_append list.simps(9))
qed

lemma cUnescape_cEscape: "cUnescape (cEscape str []) out strict = Inr (out @ str)"
  using cUnescape_cEscape_loop [of 0 "[]" strict str out] by (simp add: cUnescape_def cEscape_concat piece_def)

lemma c_escaped_printable: "c \<in> set (c_escaped v) \<Longrightarrow> 0x20 \<le> c \<and> c \<le> 0x7E"
proof -
  assume c: "c \<in> set (c_escaped v)"
  have octal: "0x20 \<le> 0x30 + (x AND 7) \<and> 0x30 + (x AND 7) \<le> 0x7E" for x :: u8
    using and_7(1) [of x] by (simp add: word_le_nat_alt and_7(2))
  consider "c_escape_item (unat v) = 0x50" | "c_escape_item (unat v) = 0x4F" |
    "c_escape_item (unat v) \<noteq> 0x50" "c_escape_item (unat v) \<noteq> 0x4F" by blast
  then show ?thesis
  proof cases
    case 1
    then have "c = v" "32 \<le> unat v" "unat v \<le> 126"
      using c by (auto simp: c_escaped_def c_escape_item_def split: if_splits)
    then show ?thesis by (simp add: word_le_nat_alt)
  next
    case 2
    then show ?thesis using c octal by (auto simp: c_escaped_def)
  next
    case 3
    then show ?thesis using c by (auto simp: c_escaped_def c_escape_item_def split: if_splits)
  qed
qed

section \<open>Strict and lenient unescaping\<close>

lemma digits_ahead:
  "octal_loop str n (Suc p) val = (val', p') \<Longrightarrow> p < p'"
  "hex_loop str (Suc (Suc p)) val = (val', p') \<Longrightarrow> p < p'"
  by (auto dest!: octal_loop_mono hex_loop_mono)

lemma cUnescape_lenient: "\<exists>r. cUnescape_loop False str p lst out = Inr r"
proof (induction "length str - p" arbitrary: p lst out rule: less_induct)
  case less
  have IH: "\<exists>r. cUnescape_loop False str p' l o' = Inr r" if "p < p'" "p < length str" for p' l o'
    using less [of p' l o'] that by simp
  show ?case
    using IH by (subst cUnescape_loop.simps) (auto simp: Let_def split: prod.splits dest: digits_ahead)
qed

lemma cUnescape_strict: "cUnescape_loop True str p lst out = Inr r \<Longrightarrow> cUnescape_loop False str p lst out = Inr r"
proof (induction "length str - p" arbitrary: p lst out rule: less_induct)
  case less
  have IH: "cUnescape_loop False str p' l o' = Inr r"
    if "cUnescape_loop True str p' l o' = Inr r" "p < p'" "p < length str" for p' l o'
    using less.hyps [of p' l o'] that by simp
  show ?case
    using less.prems IH
    by (subst cUnescape_loop.simps, subst (asm) (1) cUnescape_loop.simps)
      (auto simp: Let_def split: prod.splits if_splits dest: digits_ahead)
qed

section \<open>URI escapes of single characters\<close>

definition uri_escaped :: "uri_mode \<Rightarrow> u8 \<Rightarrow> u8 list" where
  "uri_escaped mode v =
     (let d = uri_escape_item (unat v)
      in if d \<le> mode_value mode then [v]
         else if mode = URI_QUERY \<and> d = 3 then [0x2B]
         else [0x25, hexValues ! unat (drop_bit 4 v), hexValues ! unat (v AND 0x0F)])"

lemma uriEscape_loop_step:
  assumes "p < length str"
  shows "uriEscape_loop mode str p lst out =
    (if uri_escape_item (unat (str ! p)) \<le> mode_value mode then uriEscape_loop mode str (Suc p) lst out
     else uriEscape_loop mode str (Suc p) (Suc p) (out @ piece str lst p @ uri_escaped mode (str ! p)))"
  using assms by (subst uriEscape_loop.simps) (auto simp: Let_def table_lookup uri_escaped_def)

lemma uriEscape_loop_spec:
  "lst \<le> p \<Longrightarrow> p \<le> length str \<Longrightarrow>
   uriEscape_loop mode str p lst out = out @ piece str lst p @ concat (map (uri_escaped mode) (drop p str))"
proof (induction "length str - p" arbitrary: p lst out)
  case 0
  then show ?case by (subst uriEscape_loop.simps) simp
next
  case (Suc n)
  then have p: "p < length str" by simp
  have regular: "uri_escaped mode (str ! p) = [str ! p]" if "uri_escape_item (unat (str ! p)) \<le> mode_value mode"
    using that by (simp add: uri_escaped_def)
  from Suc.hyps(1) [of "Suc p"] Suc.hyps(2) Suc.prems(1) p show ?case
    by (simp add: uriEscape_loop_step drop_Cons_nth piece_Suc regular)
qed

lemma uriEscape_concat: "uriEscape str out mode = out @ concat (map (uri_escaped mode) str)"
  by (simp add: uriEscape_def uriEscape_loop_spec piece_def)

text \<open>The inverse as a function on the rest of the input.\<close>

fun uri_decode :: "uri_mode \<Rightarrow> u8 list \<Rightarrow> u8 list result" where
  "uri_decode mode [] = Inr []"
| "uri_decode mode (c # cs) =
     (if c = 0x25 then
        (case cs of
           a # b # ds \<Rightarrow>
             (if hex_item (unat a) = 16 \<or> hex_item (unat b) = 16
              then Inl (Invalid_Argument ''invalid percent encode sequence'')
              else andthen (uri_decode mode ds)
                     (\<lambda>r. Inr ((push_bit 4 (hex_item (unat a)) OR hex_item (unat b)) # r)))
         | _ \<Rightarrow> Inl (Invalid_Argument ''incomplete percent encode sequence''))
      else andthen (uri_decode mode cs) (\<lambda>r. Inr ((if c = 0x2B \<and> mode = URI_QUERY then 0x20 else c) # r)))"

lemma drop_3:
  assumes "3 \<le> length str - p"
  shows "drop p str = str ! p # str ! Suc p # str ! Suc (Suc p) # drop (p + 3) str"
  using assms by (simp add: drop_Cons_nth numeral_3_eq_3)

lemma drop_short:
  assumes "p < length str" "length str - p < 3"
  shows "drop p str = [str ! p] \<or> drop p str = [str ! p, str ! Suc p]"
  using assms by (cases "Suc p < length str") (simp_all add: drop_Cons_nth)

lemma uriUnescape_loop_spec:
  "lst \<le> p \<Longrightarrow> p \<le> length str \<Longrightarrow>
   uriUnescape_loop mode str p lst out =
   andthen (uri_decode mode (drop p str)) (\<lambda>r. Inr (out @ piece str lst p @ r))"
proof (induction "length str - p" arbitrary: p lst out rule: less_induct)
  case less
  show ?case
  proof (cases "p < length str")
    case False
    with less.prems show ?thesis by (subst uriUnescape_loop.simps) simp
  next
    case p: True
    show ?thesis
    proof (cases "str ! p = 0x25")
      case True
      show ?thesis
      proof (cases "length str - p < 3")
        case short: True
        from drop_short [OF p short] True p short show ?thesis
          by (subst uriUnescape_loop.simps) auto
      next
        case False
        then have "3 \<le> length str - p" by simp
        from drop_3 [OF this] less.hyps [of "p + 3"] True False p show ?thesis
          by (subst uriUnescape_loop.simps) (auto simp: Let_def table_lookup andthen_assoc)
      qed
    next
      case False
      with less.hyps [of "Suc p"] less.prems p show ?thesis
        by (subst uriUnescape_loop.simps) (auto simp: drop_Cons_nth [OF p] andthen_assoc piece_Suc)
    qed
  qed
qed

lemma uriUnescape_decode: "uriUnescape str out mode = andthen (uri_decode mode str) (\<lambda>r. Inr (out @ r))"
  by (simp add: uriUnescape_def uriUnescape_loop_spec piece_def)

lemma hex_values:
  assumes "k < 16"
  shows "hex_item (unat (hexValues ! k)) = of_nat k" "(of_nat k :: u8) \<noteq> 16"
    "0x30 \<le> hexValues ! k" "hexValues ! k \<le> 0x66"
proof -
  have "\<forall>k\<in>set [0..<16]. hex_item (unat (hexValues ! k)) = of_nat k \<and> (of_nat k :: u8) \<noteq> 16 \<and>
      0x30 \<le> hexValues ! k \<and> hexValues ! k \<le> 0x66"
    by (simp add: upt_rec hexValues_def hex_item_def)
  with assms show "hex_item (unat (hexValues ! k)) = of_nat k" "(of_nat k :: u8) \<noteq> 16"
    "0x30 \<le> hexValues ! k" "hexValues ! k \<le> 0x66" by auto
qed

lemma nibbles:
  fixes v :: u8
  shows "unat (drop_bit 4 v) < 16" "unat (v AND 0x0F) < 16" "push_bit 4 (drop_bit 4 v) OR (v AND 0x0F) = v"
proof -
  show "unat (drop_bit 4 v) < 16" using unat_u8 [of v] unfolding unat_drop_bit_eq by (simp add: drop_bit_eq_div)
  have "v AND 0x0F \<le> 0x0F" by (rule word_and_le1)
  then show "unat (v AND 0x0F) < 16" by (simp add: word_le_nat_alt)
  have m: "(0x0F :: u8) = mask 4" by (simp add: mask_eq_exp_minus_1)
  show "push_bit 4 (drop_bit 4 v) OR (v AND 0x0F) = v"
    unfolding m by (rule bit_word_eqI) (auto simp: bit_simps)
qed

lemma hex_pair:
  "hex_item (unat (hexValues ! unat (drop_bit 4 v))) = drop_bit 4 v"
  "hex_item (unat (hexValues ! unat (v AND 0x0F))) = v AND 0x0F"
  "drop_bit 4 v \<noteq> 16" "v AND 0x0F \<noteq> 16"
  for v :: u8
  using hex_values [OF nibbles(1) [of v]] hex_values [OF nibbles(2) [of v]] by simp_all

lemma uri_decode_escaped:
  "uri_decode mode (uri_escaped mode v @ rest) = andthen (uri_decode mode rest) (\<lambda>r. Inr (v # r))"
proof -
  let ?d = "uri_escape_item (unat v)"
  have percent: "uri_escape_item 0x25 = 4" "uri_escape_item 0x2B = 4" by (simp_all add: uri_escape_item_def)
  have space: "v = 0x20" if "?d = 3"
    using that by (auto simp: uri_escape_item_def unat_u8_eq_iff split: if_splits)
  consider "?d \<le> mode_value mode" | "\<not> ?d \<le> mode_value mode" "mode = URI_QUERY" "?d = 3"
    | "\<not> ?d \<le> mode_value mode" "\<not> (mode = URI_QUERY \<and> ?d = 3)" by blast
  then show ?thesis
  proof cases
    case 1
    moreover have "\<not> (4 :: u8) \<le> mode_value mode" by (cases mode) (simp_all add: word_le_nat_alt)
    ultimately have "v \<noteq> 0x25" "v \<noteq> 0x2B" using percent by fastforce+
    with 1 show ?thesis by (simp add: uri_escaped_def)
  next
    case 2
    then show ?thesis using space by (simp add: uri_escaped_def)
  next
    case 3
    then show ?thesis by (auto simp: uri_escaped_def Let_def hex_pair nibbles(3))
  qed
qed

lemma uriUnescape_uriEscape: "uriUnescape (uriEscape str [] mode) out mode = Inr (out @ str)"
proof -
  have "uri_decode mode (concat (map (uri_escaped mode) str)) = Inr str"
    by (induction str) (simp_all add: uri_decode_escaped)
  then show ?thesis by (simp add: uriEscape_concat uriUnescape_decode)
qed

text \<open>When \<open>uriUnescape\<close> returns: a percent sign is not itself a digit, so that the condition needs
  no scan from the left.\<close>

definition uri_well_formed :: "u8 list \<Rightarrow> bool" where
  "uri_well_formed str \<longleftrightarrow> (\<forall>i<length str. str ! i = 0x25 \<longrightarrow>
     i + 2 < length str \<and> hex_item (unat (str ! (i + 1))) \<noteq> 16 \<and> hex_item (unat (str ! (i + 2))) \<noteq> 16)"

lemma uri_well_formed_Cons:
  "c \<noteq> 0x25 \<Longrightarrow> uri_well_formed (c # cs) \<longleftrightarrow> uri_well_formed cs"
proof
  assume c: "c \<noteq> 0x25"
  { assume *: "uri_well_formed (c # cs)"
    show "uri_well_formed cs"
      unfolding uri_well_formed_def
    proof (intro allI impI)
      fix i assume "i < length cs" "cs ! i = 0x25"
      with *[unfolded uri_well_formed_def, rule_format, of "Suc i"]
      show "i + 2 < length cs \<and> hex_item (unat (cs ! (i + 1))) \<noteq> 16 \<and> hex_item (unat (cs ! (i + 2))) \<noteq> 16" by simp
    qed }
  { assume *: "uri_well_formed cs"
    show "uri_well_formed (c # cs)"
      unfolding uri_well_formed_def
    proof (intro allI impI)
      fix i assume "i < length (c # cs)" "(c # cs) ! i = 0x25"
      with c *[unfolded uri_well_formed_def, rule_format, of "i - 1"]
      show "i + 2 < length (c # cs) \<and> hex_item (unat ((c # cs) ! (i + 1))) \<noteq> 16 \<and>
          hex_item (unat ((c # cs) ! (i + 2))) \<noteq> 16" by (cases i) simp_all
    qed }
qed

lemma percent_no_digit: "hex_item (unat c) \<noteq> 16 \<Longrightarrow> c \<noteq> 0x25" for c :: u8
  by (auto simp: hex_item_def)

lemma uri_well_formed_percent:
  "uri_well_formed (0x25 # cs) \<longleftrightarrow>
   (\<exists>a b ds. cs = a # b # ds \<and> hex_item (unat a) \<noteq> 16 \<and> hex_item (unat b) \<noteq> 16 \<and> uri_well_formed ds)"
proof
  assume wf: "uri_well_formed (0x25 # cs)"
  then obtain a b ds where cs: "cs = a # b # ds" "hex_item (unat a) \<noteq> 16" "hex_item (unat b) \<noteq> 16"
    unfolding uri_well_formed_def by (cases cs rule: remdups_adj.cases) force+
  have "uri_well_formed ds"
    unfolding uri_well_formed_def
  proof (intro allI impI)
    fix i assume "i < length ds" "ds ! i = 0x25"
    with wf [unfolded uri_well_formed_def, rule_format, of "i + 3"]
    show "i + 2 < length ds \<and> hex_item (unat (ds ! (i + 1))) \<noteq> 16 \<and> hex_item (unat (ds ! (i + 2))) \<noteq> 16"
      by (simp add: cs numeral_3_eq_3)
  qed
  with cs show "\<exists>a b ds. cs = a # b # ds \<and> hex_item (unat a) \<noteq> 16 \<and> hex_item (unat b) \<noteq> 16 \<and> uri_well_formed ds"
    by blast
next
  assume "\<exists>a b ds. cs = a # b # ds \<and> hex_item (unat a) \<noteq> 16 \<and> hex_item (unat b) \<noteq> 16 \<and> uri_well_formed ds"
  then obtain a b ds where cs: "cs = a # b # ds" "hex_item (unat a) \<noteq> 16" "hex_item (unat b) \<noteq> 16" "uri_well_formed ds"
    by blast
  then have tail: "uri_well_formed cs" using percent_no_digit by (simp add: uri_well_formed_Cons)
  show "uri_well_formed (0x25 # cs)"
    unfolding uri_well_formed_def
  proof (intro allI impI)
    fix i assume "i < length (0x25 # cs)" "(0x25 # cs) ! i = 0x25"
    with cs tail [unfolded uri_well_formed_def, rule_format, of "i - 1"]
    show "i + 2 < length (0x25 # cs) \<and> hex_item (unat ((0x25 # cs) ! (i + 1))) \<noteq> 16 \<and>
        hex_item (unat ((0x25 # cs) ! (i + 2))) \<noteq> 16" by (cases i) simp_all
  qed
qed

lemma uri_decode_Inr_iff: "(\<exists>r. uri_decode mode str = Inr r) \<longleftrightarrow> uri_well_formed str"
proof (induction mode str rule: uri_decode.induct)
  case (1 mode)
  then show ?case by (simp add: uri_well_formed_def)
next
  case (2 mode c cs)
  show ?case
  proof (cases "c = 0x25")
    case True
    then show ?thesis
      using 2 by (auto simp: uri_well_formed_percent andthen_eq_Inr_iff split: list.splits)
  next
    case False
    then show ?thesis using 2 by (auto simp: uri_well_formed_Cons andthen_eq_Inr_iff)
  qed
qed

section \<open>Hexadecimal strings\<close>

lemma nibble_words:
  "drop_bit 4 (scast c :: u32) AND 0xF = ucast (drop_bit 4 c)" "(scast c :: u32) AND 0xF = ucast (c AND 0xF)"
  for c :: u8
proof -
  have m: "(0xF :: u32) = mask 4" "(0xF :: u8) = mask 4" by (simp_all add: mask_eq_exp_minus_1)
  show "drop_bit 4 (scast c :: u32) AND 0xF = ucast (drop_bit 4 c)"
    unfolding m
  proof (rule bit_word_eqI)
    fix n
    show "bit (drop_bit 4 (scast c :: u32) AND mask 4) n = bit (ucast (drop_bit 4 c) :: u32) n"
      by (cases "n = 3") (auto simp: bit_simps bit_signed_iff min_def dest: bit_imp_le_length)
  qed
  show "(scast c :: u32) AND 0xF = ucast (c AND 0xF)"
    unfolding m by (rule bit_word_eqI) (auto simp: bit_simps bit_signed_iff min_def)
qed

lemma unat_ucast_u8: "unat (ucast x :: u32) = unat (x :: u8)"
  using unat_u8 [of x] by (simp add: unsigned_ucast_eq take_bit_nat_eq_self)

lemma hexlify_loop_spec:
  "j + 2 * length cs \<le> length dst \<Longrightarrow>
   hexlify_loop cs dst j =
     take j dst @ concat (map (\<lambda>c. [hexValues ! unat (drop_bit 4 c), hexValues ! unat (c AND 0xF)]) cs) @
     drop (j + 2 * length cs) dst"
proof (induction cs dst j rule: hexlify_loop.induct)
  case (1 dst j)
  then show ?case by simp
next
  case (2 c cs dst j)
  let ?h = "hexValues ! unat (drop_bit 4 c)" and ?l = "hexValues ! unat (c AND 0xF)"
  have digits: "hexValues ! unat (drop_bit 4 (scast c :: u32) AND 0xF) = ?h" "hexValues ! unat ((scast c :: u32) AND 0xF) = ?l"
    by (simp_all add: nibble_words unat_ucast_u8)
  have "take (j + 2) (dst[j := ?h, j + 1 := ?l]) = take j dst @ [?h, ?l]"
    using 2(2) by (simp add: take_Suc_conv_app_nth)
  moreover have "drop (j + 2 + 2 * length cs) (dst[j := ?h, j + 1 := ?l]) = drop (j + 2 + 2 * length cs) dst"
    by simp
  ultimately show ?case using 2(1) [OF refl] 2(2) by (simp add: digits Let_def)
qed

lemma hexlify_spec:
  "hexlify input dst append_output =
     (True, (if append_output then dst else []) @
       concat (map (\<lambda>c. [hexValues ! unat (drop_bit 4 c), hexValues ! unat (c AND 0xF)]) input))"
  by (simp add: hexlify_def Let_def hexlify_loop_spec)

lemma unhexlify_loop_hexlified:
  "j + length cs = length dst \<Longrightarrow>
   unhexlify_loop (concat (map (\<lambda>c. [hexValues ! unat (drop_bit 4 c), hexValues ! unat (c AND 0xF)]) cs)) dst j =
     (True, take j dst @ cs)"
proof (induction cs arbitrary: dst j)
  case (Cons c cs)
  have no16: "(drop_bit 4 c OR (c AND 0xF)) AND 0x10 = 0"
  proof -
    have m: "(0xF :: u8) = mask 4" by (simp add: mask_eq_exp_minus_1)
    have e: "bit (0x10 :: int) n \<longleftrightarrow> n = 4" for n
    proof -
      have "(0x10 :: int) = 2 ^ 4" by simp
      then show ?thesis by (simp only: bit_exp_iff) auto
    qed
    show ?thesis unfolding m by (rule bit_word_eqI) (auto simp: bit_simps e dest: bit_imp_le_length)
  qed
  have "\<not> bit (push_bit 4 (drop_bit 4 c)) n \<or> \<not> bit (c AND 0xF) n" for n
  proof -
    have m: "(0xF :: u8) = mask 4" by (simp add: mask_eq_exp_minus_1)
    show ?thesis unfolding m by (auto simp: bit_simps)
  qed
  then have sum: "push_bit 4 (drop_bit 4 c) + (c AND 0xF) = c"
    using disjunctive_add [of "push_bit 4 (drop_bit 4 c)" "c AND 0xF"] nibbles(3) [of c] by simp
  show ?case using Cons by (simp add: Let_def table_lookup hex_pair no16 sum take_Suc_conv_app_nth)
qed simp

lemma unhexlify_hexlify: "unhexlify (snd (hexlify input [] False)) dst = (True, input)"
proof -
  let ?h = "concat (map (\<lambda>c. [hexValues ! unat (drop_bit 4 c), hexValues ! unat (c AND 0xF)]) input)"
  have "length ?h = 2 * length input" by (induction input) simp_all
  then show ?thesis by (simp add: unhexlify_def hexlify_spec unhexlify_loop_hexlified)
qed

lemma hex_16: "hex_item n = 16 \<or> hex_item n < 16"
proof (cases "n < 0x67")
  case True
  then have "n \<in> set [0..<0x67]" by simp
  moreover have "\<forall>n\<in>set [0..<0x67]. hex_item n = 16 \<or> hex_item n < 16" by code_simp
  ultimately show ?thesis by blast
qed (simp add: hex_item_def)

lemma digits_valid: "(hex_item a OR hex_item b) AND 0x10 = 0 \<longleftrightarrow> hex_item a \<noteq> 16 \<and> hex_item b \<noteq> 16"
proof -
  have bit4: "bit (hex_item n) 4 \<longleftrightarrow> hex_item n = 16" for n
  proof (cases "hex_item n = 16")
    case False
    then have "unat (hex_item n) < 16" using hex_16 [of n] by (simp add: word_less_nat_alt)
    then have "\<not> bit (unat (hex_item n)) 4" by (simp add: bit_iff_odd)
    then show ?thesis using False by (simp add: bit_unsigned_iff)
  qed simp
  have "(hex_item a OR hex_item b) AND 0x10 = 0 \<longleftrightarrow> \<not> bit (hex_item a OR hex_item b) 4"
  proof -
    have e: "(0x10 :: u8) = 2 ^ 4" by simp
    show ?thesis unfolding e by (simp only: bit_iff_and_push_bit_not_eq_0 [of _ 4]) (simp add: push_bit_eq_mult)
  qed
  then show ?thesis by (simp add: bit_or_iff bit4)
qed

lemma unhexlify_loop_True_iff:
  "even (length input) \<Longrightarrow>
   fst (unhexlify_loop input dst j) \<longleftrightarrow> (\<forall>c\<in>set input. hex_item (unat c) \<noteq> 16)"
proof (induction input dst j rule: unhexlify_loop.induct)
  case (1 a b cs dst j)
  then show ?case by (auto simp: Let_def table_lookup digits_valid)
qed auto

lemma unhexlify_True_iff:
  "fst (unhexlify input dst) \<longleftrightarrow> even (length input) \<and> (\<forall>c\<in>set input. hex_item (unat c) \<noteq> 16)"
  by (auto simp: unhexlify_def Let_def unhexlify_loop_True_iff even_iff_mod_2_eq_zero)

lemma cUnescape_loop_error: "cUnescape_loop True str p lst out = Inl e \<Longrightarrow> \<exists>m. e = Invalid_Argument m"
proof (induction "length str - p" arbitrary: p lst out rule: less_induct)
  case less
  have IH: "\<exists>m. e = Invalid_Argument m"
    if "cUnescape_loop True str p' l o' = Inl e" "p < p'" "p < length str" for p' l o'
    using less.hyps [of p' l o'] that by simp
  show ?case
    using less.prems IH
    by (subst (asm) (1) cUnescape_loop.simps)
      (auto simp: Let_def split: prod.splits if_splits dest: digits_ahead)
qed

lemma uri_decode_error: "uri_decode mode str = Inl e \<Longrightarrow> \<exists>m. e = Invalid_Argument m"
proof (induction mode str rule: uri_decode.induct)
  case (2 mode c cs)
  show ?case
  proof (cases "c = 0x25")
    case True
    consider "cs = []" | a where "cs = [a]" | a b ds where "cs = a # b # ds" by (cases cs rule: remdups_adj.cases)
    then show ?thesis
    proof cases
      case 3
      show ?thesis
      proof (cases "hex_item (unat a) = 16 \<or> hex_item (unat b) = 16")
        case False
        with 2(3) True 3 have "uri_decode mode ds = Inl e" by (simp add: andthen_eq_Inl_iff)
        then show ?thesis using 2(1) True 3 False by blast
      qed (use 2(3) True 3 in auto)
    qed (use 2(3) True in auto)
  next
    case False
    with 2(3) have "uri_decode mode cs = Inl e" by (simp add: andthen_eq_Inl_iff)
    then show ?thesis using 2(2) False by blast
  qed
qed simp

section \<open>Lines of a dump\<close>

lemma length_hex_dump_bytes:
  "i \<le> 8 \<Longrightarrow> length (hex_dump_bytes cs i) = 3 * length cs + (if 8 < i + length cs then 1 else 0)"
  "8 < i \<Longrightarrow> length (hex_dump_bytes cs i) = 3 * length cs"
  by (induction cs arbitrary: i) auto

lemma hexDumpLine_spec:
  "length (fst (hexDumpLine ptr offset)) = 78" "snd (hexDumpLine ptr offset) = min (length ptr - offset) 16"
  by (auto simp: hexDumpLine_def Let_def length_hex_dump_bytes)

lemma hex_dump_bytes_nth:
  assumes "j < length cs"
  shows "hex_dump_bytes cs i ! (3 * j + 1 + (if i \<le> 8 \<and> 8 \<le> i + j then 1 else 0)) =
      hexValues ! unat (drop_bit 4 (cs ! j) AND 0xF)"
    "hex_dump_bytes cs i ! (3 * j + 2 + (if i \<le> 8 \<and> 8 \<le> i + j then 1 else 0)) =
      hexValues ! unat (cs ! j AND 0xF)"
  using assms
proof (induction cs arbitrary: i j)
  case (Cons c cs)
  {
    case 1
    show ?case
    proof (cases j)
      case (Suc k)
      then show ?thesis using Cons.IH(1) [of k "i + 1"] 1
        by (cases "i = 8"; cases "i < 8"; cases "8 \<le> i + Suc k") (auto simp: numeral_eq_Suc)
    qed auto
  next
    case 2
    show ?case
    proof (cases j)
      case (Suc k)
      then show ?thesis using Cons.IH(2) [of k "i + 1"] 2
        by (cases "i = 8"; cases "i < 8"; cases "8 \<le> i + Suc k") (auto simp: numeral_eq_Suc)
    qed auto
  }
qed simp_all

text \<open>Where the byte \<open>k\<close> of a line stands: its two digits, and its character.\<close>

definition shown_at :: "u8 list \<Rightarrow> nat \<Rightarrow> u8 \<Rightarrow> bool" where
  "shown_at line k c \<longleftrightarrow>
     (let col = 10 + 3 * k + (if 8 \<le> k then 1 else 0)
      in line ! col = hexValues ! unat (drop_bit 4 c AND 0xF) \<and> line ! (col + 1) = hexValues ! unat (c AND 0xF) \<and>
         line ! (61 + k) = (if c \<ge> 32 \<and> c \<le> 126 then c else 0x2E))"

lemma hexDumpLine_shows:
  assumes "offset + k < length ptr" "k < 16"
  shows "shown_at (fst (hexDumpLine ptr offset)) k (ptr ! (offset + k))"
proof -
  define n where "n = min (length ptr - offset) 16"
  define p where "p = take n (drop offset ptr)"
  define addr where "addr = map (\<lambda>k. hexValues ! unat ((drop_bit k (of_nat offset) :: u64) AND 0xF)) [28, 24, 20, 16, 12, 8, 4, 0]
    @ [0x20]"
  define pad where "pad = replicate (3 * (16 - n) + (if n \<le> 8 then 1 else 0)) (0x20 :: u8) @ [0x20, 0x20, 0x7C]"
  define chars where "chars = map (\<lambda>c. if c \<ge> 32 \<and> c \<le> 126 then c else 0x2E :: u8) p"
  have line: "fst (hexDumpLine ptr offset) =
      addr @ hex_dump_bytes p 0 @ pad @ chars @ replicate (16 - n) 0x20 @ [0x7C]"
    by (simp add: hexDumpLine_def Let_def n_def p_def addr_def pad_def chars_def)
  have n: "k < n" "n \<le> 16" "length p = n" using assms by (auto simp: n_def p_def)
  have pk: "p ! k = ptr ! (offset + k)" using n assms by (simp add: p_def)
  have len: "length addr = 9" "length (hex_dump_bytes p 0) + length pad = 52"
    using n by (simp_all add: addr_def pad_def length_hex_dump_bytes)
  have bytes: "length (hex_dump_bytes p 0) = 3 * n + (if 8 < n then 1 else 0)"
    using n by (simp add: length_hex_dump_bytes)
  have "(addr @ hex_dump_bytes p 0 @ pad @ chars @ rest) ! (9 + m) = hex_dump_bytes p 0 ! m"
    if "m < length (hex_dump_bytes p 0)" for m rest
    using that len(1) by (simp add: nth_append)
  moreover have "3 * k + 2 + (if 8 \<le> k then 1 else 0) < length (hex_dump_bytes p 0)"
    using n(1) unfolding bytes by auto
  moreover have "(addr @ hex_dump_bytes p 0 @ pad @ chars @ rest) ! (61 + k) = chars ! k" for rest
  proof -
    have "length (addr @ hex_dump_bytes p 0 @ pad) = 61" using len by simp
    then have "((addr @ hex_dump_bytes p 0 @ pad) @ chars @ rest) ! (61 + k) = (chars @ rest) ! k"
      by (metis nth_append_length_plus)
    then show ?thesis using n by (simp add: nth_append chars_def)
  qed
  ultimately show ?thesis
    using hex_dump_bytes_nth [of k p 0] n pk
    by (simp add: shown_at_def Let_def line chars_def add.assoc [symmetric] numeral_eq_Suc)
qed

lemma line_count:
  "16 * q < n \<longleftrightarrow> q < (n + 15) div 16" "i < n \<Longrightarrow> i div 16 < (n + 15) div 16" for n q :: nat
proof -
  have "q < (n + 15) div 16 \<longleftrightarrow> (q + 1) * 16 \<le> n + 15" for q :: nat
    using less_eq_div_iff_mult_less_eq [of 16 "q + 1" "n + 15"] by (simp add: Suc_le_eq del: mult_Suc)
  moreover have "16 * q < n \<longleftrightarrow> (q + 1) * 16 \<le> n + 15" for q :: nat by arith
  ultimately have iff: "16 * q < n \<longleftrightarrow> q < (n + 15) div 16" for q by simp
  then show "16 * q < n \<longleftrightarrow> q < (n + 15) div 16" .
  assume "i < n"
  moreover have "16 * (i div 16) \<le> i" by simp
  ultimately have "16 * (i div 16) < n" by linarith
  then show "i div 16 < (n + 15) div 16" by (simp only: iff)
qed

lemma hexDump_loop_lines:
  "hexDump_loop ptr (16 * q) out = out @ map (\<lambda>i. fst (hexDumpLine ptr (16 * i))) [q..<(length ptr + 15) div 16]"
proof (induction "(length ptr + 15) div 16 - q" arbitrary: q out)
  case 0
  then have "\<not> 16 * q < length ptr" by (simp add: line_count(1))
  then show ?case using 0 by (subst hexDump_loop.simps) simp
next
  case (Suc m)
  then have q: "16 * q < length ptr" "q < (length ptr + 15) div 16" by (simp_all add: line_count(1))
  obtain line n where l: "hexDumpLine ptr (16 * q) = (line, n)" by fastforce
  have n: "n = min (length ptr - 16 * q) 16"
    using hexDumpLine_spec(2) [of ptr "16 * q"] by (simp add: l)
  have step: "hexDump_loop ptr (16 * q) out = hexDump_loop ptr (16 * q + n) (out @ [line])"
    using q(1) by (subst hexDump_loop.simps) (simp add: l)
  also have "\<dots> = hexDump_loop ptr (16 * Suc q) (out @ [line])"
  proof (cases "n = 16")
    case False
    then have "\<not> 16 * q + n < length ptr" "\<not> 16 * Suc q < length ptr" using n q(1) by auto
    then show ?thesis by (subst (1 2) hexDump_loop.simps) simp
  qed (simp add: add.commute)
  also have "\<dots> = out @ line # map (\<lambda>i. fst (hexDumpLine ptr (16 * i))) [Suc q..<(length ptr + 15) div 16]"
    using Suc.hyps(1) [of "Suc q" "out @ [line]"] Suc.hyps(2) by (simp del: mult_Suc mult_Suc_right)
  also have "\<dots> = out @ map (\<lambda>i. fst (hexDumpLine ptr (16 * i))) [q..<(length ptr + 15) div 16]"
    using q(2) l by (simp add: upt_conv_Cons)
  finally show ?case .
qed

lemma hexDump_map: "hexDump ptr = map (\<lambda>i. fst (hexDumpLine ptr (16 * i))) [0..<(length ptr + 15) div 16]"
  using hexDump_loop_lines [of ptr 0 "[]"] by (simp add: hexDump_def)

section \<open>Properties\<close>

text \<open>
  C17. Round trips: \<open>cUnescape\<close>, strict or not, gives back every string that \<open>cEscape\<close> escaped;
  \<open>uriUnescape\<close> gives back every string that \<open>uriEscape\<close> escaped in the same mode; \<open>unhexlify\<close>
  gives back every string that \<open>hexlify\<close> wrote, whatever its output held before. \<open>cEscape\<close> writes
  printable ASCII only.
\<close>

theorem escapes_roundtrip:
  "cUnescape (cEscape str []) out strict = Inr (out @ str) \<and> (\<forall>c\<in>set (cEscape str []). 0x20 \<le> c \<and> c \<le> 0x7E) \<and>
   uriUnescape (uriEscape str [] mode) out mode = Inr (out @ str) \<and>
   unhexlify (snd (hexlify str [] False)) dst = (True, str)"
  using cUnescape_cEscape uriUnescape_uriEscape unhexlify_hexlify c_escaped_printable
  by (auto simp: cEscape_concat)

theorem escapes_roundtrip_witness:
  "cEscape [0x41, 0x0A, 0xFF] [] = [0x41, 0x5C, 0x6E, 0x5C, 0x33, 0x37, 0x37] \<and>
   cUnescape (cEscape [0x41, 0x0A, 0xFF] []) [] True = Inr [0x41, 0x0A, 0xFF]"
  using escapes_roundtrip [of "[0x41, 0x0A, 0xFF]" "[]" True URI_ALL "[]"]
  by (simp add: cEscape_concat c_escaped_def c_escape_item_def drop_bit_eq_div)

text \<open>
  Errors. \<open>uriUnescape\<close> returns exactly if every percent sign is followed by two hexadecimal
  digits, and throws \<open>std::invalid_argument\<close> otherwise. \<open>cUnescape\<close> that is not strict never throws;
  a strict one throws \<open>std::invalid_argument\<close> or agrees with it. \<open>unhexlify\<close> succeeds exactly on an
  even number of hexadecimal digits.
\<close>

theorem unescape_errors:
  "((\<exists>r. uriUnescape str out mode = Inr r) \<longleftrightarrow> uri_well_formed str) \<and>
   (\<exists>m r. uriUnescape str out mode \<in> {Inl (Invalid_Argument m), Inr r}) \<and>
   (\<exists>m r. cUnescape str out False = Inr r \<and> cUnescape str out True \<in> {Inl (Invalid_Argument m), Inr r}) \<and>
   (fst (unhexlify str dst) \<longleftrightarrow> even (length str) \<and> (\<forall>c\<in>set str. hex_item (unat c) \<noteq> 16))"
proof -
  obtain r where r: "cUnescape str out False = Inr r" unfolding cUnescape_def using cUnescape_lenient by blast
  have "\<exists>m. cUnescape str out True \<in> {Inl (Invalid_Argument m), Inr r}"
    using cUnescape_strict [of str 0 0 out] cUnescape_loop_error [of str 0 0 out] r unfolding cUnescape_def
    by (cases "cUnescape_loop True str 0 0 out") auto
  moreover have "\<exists>m r. uriUnescape str out mode \<in> {Inl (Invalid_Argument m), Inr r}"
    using uri_decode_error [of mode str] by (cases "uri_decode mode str") (auto simp: uriUnescape_decode)
  moreover have "(\<exists>r. uriUnescape str out mode = Inr r) \<longleftrightarrow> uri_well_formed str"
    using uri_decode_Inr_iff [of mode str] by (auto simp: uriUnescape_decode andthen_eq_Inr_iff)
  ultimately show ?thesis using unhexlify_True_iff [of str dst] r by blast
qed

theorem unescape_errors_witness:
  "uriUnescape [0x25, 0x34] [] URI_ALL = Inl (Invalid_Argument ''incomplete percent encode sequence'') \<and>
   \<not> fst (unhexlify [0x34, 0x67] [])"
  using unescape_errors [of "[0x25, 0x34]" "[]" URI_ALL "[]"] unescape_errors [of "[0x34, 0x67]" "[]" URI_ALL "[]"]
  by (simp add: uriUnescape_decode hex_item_def)

text \<open>
  \<open>hexDump\<close> ends and shows all bytes: it writes one line for every sixteen bytes, the last one
  possibly incomplete, every line has the 78 characters of its layout, and each byte of the memory
  stands in its line at its column, as two hexadecimal digits and as a character.
\<close>

theorem hexDump_lines:
  "length (hexDump ptr) = (length ptr + 15) div 16 \<and> (\<forall>l\<in>set (hexDump ptr). length l = 78) \<and>
   (\<forall>i<length ptr. shown_at (hexDump ptr ! (i div 16)) (i mod 16) (ptr ! i))"
proof -
  have "shown_at (hexDump ptr ! (i div 16)) (i mod 16) (ptr ! i)" if "i < length ptr" for i
  proof -
    have "i div 16 < (length ptr + 15) div 16" using that by (rule line_count(2))
    moreover have "shown_at (fst (hexDumpLine ptr (16 * (i div 16)))) (i mod 16) (ptr ! (16 * (i div 16) + i mod 16))"
      by (rule hexDumpLine_shows) (use that in simp_all)
    ultimately show ?thesis by (simp add: hexDump_map)
  qed
  then show ?thesis by (auto simp: hexDump_map hexDumpLine_spec)
qed

theorem hexDump_lines_witness:
  "map length (hexDump (replicate 17 7)) = [78, 78] \<and> shown_at (hexDump (replicate 17 7) ! 1) 0 7"
proof -
  note lines = hexDump_lines [of "replicate 17 7"]
  from lines have two: "length (hexDump (replicate 17 7)) = 2" by simp
  then obtain a b where ab: "hexDump (replicate 17 7) = [a, b]" by (auto simp: length_Suc_conv numeral_2_eq_2)
  from lines [THEN conjunct2, THEN conjunct2, rule_format, of 16]
  have "shown_at (hexDump (replicate 17 7) ! 1) 0 7" by (simp del: One_nat_def)
  then show ?thesis using lines ab by (simp del: One_nat_def)
qed

end
