(* ===== verification/Folly_ToLower.thy ===== *)
theory Folly_ToLower
  imports Folly_Bits
begin

text \<open>
  \<open>toLowerAscii\<close> of \<open>folly/String.cpp\<close>, which converts one, four or eight characters at a time.

  The string is a range of bytes in memory: \<open>buf\<close> are the bytes from the pointer on and \<open>addr\<close> is
  the address of the pointer. Reading or writing four or eight bytes through a cast pointer is
  undefined behaviour unless the address is a multiple of their number.
\<close>

section \<open>Definitions\<close>

definition toLowerAscii8 :: "u8 \<Rightarrow> u8" where
  "toLowerAscii8 c =
     (let rotated = c AND 0x7F;
          rotated = rotated + 0x25;
          rotated = rotated AND 0x7F;
          rotated = rotated + 0x1A;
          rotated = rotated AND NOT c;
          rotated = drop_bit 2 rotated;
          rotated = rotated AND 0x20
      in c + rotated)"

definition toLowerAscii32 :: "u32 \<Rightarrow> u32" where
  "toLowerAscii32 c =
     (let rotated = c AND 0x7F7F7F7F;
          rotated = rotated + 0x25252525;
          rotated = rotated AND 0x7F7F7F7F;
          rotated = rotated + 0x1A1A1A1A;
          rotated = rotated AND NOT c;
          rotated = drop_bit 2 rotated;
          rotated = rotated AND 0x20202020
      in c + rotated)"

definition toLowerAscii64 :: "u64 \<Rightarrow> u64" where
  "toLowerAscii64 c =
     (let rotated = c AND 0x7F7F7F7F7F7F7F7F;
          rotated = rotated + 0x2525252525252525;
          rotated = rotated AND 0x7F7F7F7F7F7F7F7F;
          rotated = rotated + 0x1A1A1A1A1A1A1A1A;
          rotated = rotated AND NOT c;
          rotated = drop_bit 2 rotated;
          rotated = rotated AND 0x2020202020202020
      in c + rotated)"

text \<open>\<open>f(*(T*)(str + offset))\<close>, where \<open>f\<close> changes its argument in place.\<close>

definition at_word :: "nat \<Rightarrow> ('a::len word \<Rightarrow> 'a word) \<Rightarrow> u8 list \<Rightarrow> nat \<Rightarrow> u8 list result" where
  "at_word addr f buf offset =
     (if (addr + offset) mod (LENGTH('a) div 8) \<noteq> 0 then Inl Undefined_Behaviour
      else andthen (loadUnaligned buf offset) (\<lambda>c. storeUnaligned buf offset (f c)))"

definition at_byte :: "u8 list \<Rightarrow> nat \<Rightarrow> u8 list result" where
  "at_byte buf offset = andthen (rd buf offset) (\<lambda>c. wr buf offset (toLowerAscii8 c))"

text \<open>The loops: characters up to offset \<open>n\<close>, groups of eight, groups of four.\<close>

function lower_bytes :: "u8 list \<Rightarrow> nat \<Rightarrow> nat \<Rightarrow> (u8 list \<times> nat) result" where
  "lower_bytes buf offset n =
     (if offset < n then andthen (at_byte buf offset) (\<lambda>buf. lower_bytes buf (offset + 1) n)
      else Inr (buf, offset))"
  by pat_completeness auto
termination by (relation "measure (\<lambda>(buf, offset, n). n - offset)") auto

function lower_words64 :: "nat \<Rightarrow> u8 list \<Rightarrow> nat \<Rightarrow> nat \<Rightarrow> (u8 list \<times> nat) result" where
  "lower_words64 addr buf offset len =
     (if offset + 8 \<le> len
      then andthen (at_word addr toLowerAscii64 buf offset) (\<lambda>buf. lower_words64 addr buf (offset + 8) len)
      else Inr (buf, offset))"
  by pat_completeness auto
termination by (relation "measure (\<lambda>(addr, buf, offset, len). len - offset)") auto

function lower_words32 :: "nat \<Rightarrow> u8 list \<Rightarrow> nat \<Rightarrow> nat \<Rightarrow> (u8 list \<times> nat) result" where
  "lower_words32 addr buf offset len =
     (if offset + 4 \<le> len
      then andthen (at_word addr toLowerAscii32 buf offset) (\<lambda>buf. lower_words32 addr buf (offset + 4) len)
      else Inr (buf, offset))"
  by pat_completeness auto
termination by (relation "measure (\<lambda>(addr, buf, offset, len). len - offset)") auto

declare lower_bytes.simps [simp del] lower_words64.simps [simp del] lower_words32.simps [simp del]

definition toLowerAscii :: "nat \<Rightarrow> u8 list \<Rightarrow> nat \<Rightarrow> u8 list result" where
  "toLowerAscii addr buf len =
     (let n = addr AND 3;
          n = min n len
      in andthen (if n \<noteq> 0 then lower_bytes buf 0 (min (4 - n) len) else Inr (buf, 0)) (\<lambda>(buf, offset).
         let n = (addr + offset) AND 7
         in andthen (if n \<noteq> 0 \<and> offset + 4 \<le> len
                     then andthen (at_word addr toLowerAscii32 buf offset) (\<lambda>buf. Inr (buf, offset + 4))
                     else Inr (buf, offset)) (\<lambda>(buf, offset).
            andthen (lower_words64 addr buf offset len) (\<lambda>(buf, offset).
            andthen (lower_words32 addr buf offset len) (\<lambda>(buf, offset).
            andthen (lower_bytes buf offset len) (\<lambda>(buf, offset). Inr buf))))))"

section \<open>Operations on all bytes of a word at once\<close>

lemma of_le_bytes_Cons_nat: "(of_le_bytes (b # bs) :: 'a::len word) = of_nat (unat b) + 256 * of_le_bytes bs"
proof -
  have "\<not> bit (ucast b :: 'a word) n \<or> \<not> bit (push_bit 8 (of_le_bytes bs) :: 'a word) n" for n
    by (auto simp: bit_simps dest: bit_imp_le_length)
  then have "(ucast b :: 'a word) + push_bit 8 (of_le_bytes bs) = ucast b OR push_bit 8 (of_le_bytes bs)"
    by (intro disjunctive_add) blast
  moreover have "push_bit 8 (of_le_bytes bs :: 'a word) = 256 * of_le_bytes bs"
    by (simp add: push_bit_eq_mult mult.commute)
  moreover have "(ucast b :: 'a word) = of_nat (unat b)" by simp
  ultimately show ?thesis by (simp only: of_le_bytes.simps)
qed

lemma add_lanes:
  "(\<And>c. c \<in> set bs \<Longrightarrow> unat (f c) + unat (g c) < 256) \<Longrightarrow>
   (of_le_bytes (map f bs) :: 'a::len word) + of_le_bytes (map g bs) = of_le_bytes (map (\<lambda>c. f c + g c) bs)"
proof (induction bs)
  case (Cons c bs)
  have "unat (f c + g c) = unat (f c) + unat (g c)" using Cons.prems [of c] by (simp add: unat_word_ariths)
  then have "(of_nat (unat (f c + g c)) :: 'a word) = of_nat (unat (f c)) + of_nat (unat (g c))" by simp
  moreover have "(of_le_bytes (map (\<lambda>c. f c + g c) bs) :: 'a word) = of_le_bytes (map f bs) + of_le_bytes (map g bs)"
    using Cons by simp
  ultimately show ?case
    by (simp add: of_le_bytes_Cons_nat algebra_simps del: of_le_bytes.simps of_nat_unat ucast_id)
qed simp

lemma bit_lanes:
  assumes "LENGTH('a) = 8 * length bs" "n < LENGTH('a)"
  shows "bit (of_le_bytes (map f bs) :: 'a::len word) n \<longleftrightarrow> bit (f (bs ! (n div 8))) (n mod 8)"
  using assms by (simp add: bit_of_le_bytes less_mult_imp_div_less mult.commute)

lemma bitwise_lanes:
  assumes "LENGTH('a) = 8 * length bs"
  shows "of_le_bytes (map f bs) AND of_le_bytes (map g bs) = (of_le_bytes (map (\<lambda>c. f c AND g c) bs) :: 'a::len word)"
    "of_le_bytes (map f bs) AND NOT (of_le_bytes (map g bs)) =
      (of_le_bytes (map (\<lambda>c. f c AND NOT (g c)) bs) :: 'a word)"
  by (rule bit_word_eqI; simp add: bit_lanes [OF assms] bit_and_iff bit_not_iff)+

lemma bit_32: "bit (0x20 :: u8) m \<longleftrightarrow> m = 5"
proof -
  have "(0x20 :: u8) = 2 ^ 5" by simp
  then show ?thesis by (simp only: bit_exp_iff) auto
qed

lemma shift_lanes:
  assumes "LENGTH('a) = 8 * length bs"
  shows "drop_bit 2 (of_le_bytes (map f bs)) AND of_le_bytes (map (\<lambda>c. 0x20) bs) =
    (of_le_bytes (map (\<lambda>c. drop_bit 2 (f c) AND 0x20) bs) :: 'a::len word)"
proof (rule bit_word_eqI)
  fix n assume n: "n < LENGTH('a)"
  show "bit (drop_bit 2 (of_le_bytes (map f bs)) AND of_le_bytes (map (\<lambda>c. 0x20) bs) :: 'a word) n =
    bit (of_le_bytes (map (\<lambda>c. drop_bit 2 (f c) AND 0x20) bs) :: 'a word) n"
  proof (cases "n mod 8 = 5")
    case True
    then obtain q where q: "n = 8 * q + 5" by (metis mult_div_mod_eq)
    with n assms have "8 * q + 5 < 8 * length bs" by simp
    then have "q < length bs" by presburger
    then have "2 + n < LENGTH('a)" "(2 + n) div 8 = n div 8" "(2 + n) mod 8 = 7"
      using q assms by simp_all
    then show ?thesis using n True by (simp only: bit_and_iff bit_drop_bit_eq bit_lanes [OF assms] bit_32 o_def) simp
  next
    case False
    then show ?thesis using n by (simp only: bit_and_iff bit_lanes [OF assms] bit_32 simp_thms)
  qed
qed

section \<open>The wide versions\<close>

definition lower :: "u8 \<Rightarrow> u8" where
  "lower c = (if 0x41 \<le> c \<and> c \<le> 0x5A then c + 0x20 else c)"

lemma unat_u8_lt: "unat (w :: u8) < 256"
proof -
  have "unat w < 2 ^ LENGTH(8)" by (rule unsigned_less)
  then show ?thesis by simp
qed

lemma odd_div_128: "n < 256 \<Longrightarrow> odd (n div 128) \<longleftrightarrow> 128 \<le> n" for n :: nat
proof (cases "128 \<le> n")
  case True
  moreover assume "n < 256"
  ultimately have "n div 128 = 1" by (intro div_nat_eqI) simp_all
  with True show ?thesis by simp
qed simp

lemma rotated_range: "n < 128 \<Longrightarrow> 128 \<le> (n mod 128 + 37) mod 128 + 26 \<longleftrightarrow> 65 \<le> n \<and> n \<le> 90" for n :: nat
proof -
  assume n: "n < 128"
  have "(n + 37) mod 128 = (if n + 37 < 128 then n + 37 else n + 37 - 128)"
    using n by (simp add: le_mod_geq)
  then show ?thesis using n by (cases "n < 91") auto
qed

lemma bit_7: "bit (w :: u8) 7 \<longleftrightarrow> 128 \<le> unat w"
proof -
  have "bit w 7 \<longleftrightarrow> bit (unat w) 7" by (simp add: bit_unsigned_iff)
  also have "\<dots> \<longleftrightarrow> odd (unat w div 128)" by (simp add: bit_iff_odd)
  also have "\<dots> \<longleftrightarrow> 128 \<le> unat w" by (rule odd_div_128 [OF unat_u8_lt])
  finally show ?thesis .
qed

lemma shifted_bit_7: "drop_bit 2 w AND 0x20 = (if bit w 7 then 0x20 else 0 :: u8)"
proof (rule bit_word_eqI)
  fix n assume "n < LENGTH(8)"
  have "bit (if P then 0x20 else 0 :: u8) n \<longleftrightarrow> P \<and> n = 5" for P by (simp only: bit_32 split: if_split) simp
  then show "bit (drop_bit 2 w AND 0x20) n = bit (if bit w 7 then 0x20 else 0 :: u8) n"
    by (cases "n = 5") (simp_all only: bit_and_iff bit_drop_bit_eq bit_32 o_def, simp_all)
qed

lemma unat_and_7F: "unat (w AND 0x7F :: u8) = unat w mod 128"
proof -
  have "(0x7F :: u8) = mask 7" by (simp add: mask_eq_exp_minus_1)
  then have "w AND 0x7F = take_bit 7 w" by (simp only: take_bit_eq_mask)
  then have "unat (w AND 0x7F) = take_bit 7 (unat w)" by (simp only: unsigned_take_bit_eq)
  then show ?thesis by (simp add: take_bit_eq_mod)
qed

lemma rotated_stage:
  "unat ((((c AND 0x7F) + 0x25) AND 0x7F) + 0x1A :: u8) = (unat c mod 128 + 37) mod 128 + 26"
  "unat (c AND 0x7F :: u8) + 37 < 256" "unat (((c AND 0x7F) + 0x25) AND 0x7F :: u8) + 26 < 256"
proof -
  have x: "unat (c AND 0x7F) < 128" by (simp add: unat_and_7F)
  then show "unat (c AND 0x7F :: u8) + 37 < 256" by simp
  have y: "unat (((c AND 0x7F) + 0x25) AND 0x7F) = (unat c mod 128 + 37) mod 128"
    using x by (simp add: unat_and_7F unat_word_ariths)
  then show "unat (((c AND 0x7F) + 0x25) AND 0x7F :: u8) + 26 < 256" by simp
  then show "unat ((((c AND 0x7F) + 0x25) AND 0x7F) + 0x1A :: u8) = (unat c mod 128 + 37) mod 128 + 26"
    using y by (simp add: unat_word_ariths)
qed

lemma toLowerAscii8_lower: "toLowerAscii8 c = lower c"
proof -
  let ?r = "(((c AND 0x7F) + 0x25) AND 0x7F) + 0x1A"
  have "bit (?r AND NOT c) 7 \<longleftrightarrow> 65 \<le> unat c \<and> unat c \<le> 90"
  proof (cases "128 \<le> unat c")
    case True
    then have "bit c 7" by (simp add: bit_7)
    then have "\<not> bit (?r AND NOT c) 7" by (simp only: bit_and_iff bit_not_iff) simp
    then show ?thesis using True by simp
  next
    case False
    then have "\<not> bit c 7" by (simp add: bit_7)
    then have "bit (?r AND NOT c) 7 \<longleftrightarrow> bit ?r 7" by (simp only: bit_and_iff bit_not_iff) simp
    also have "\<dots> \<longleftrightarrow> 128 \<le> (unat c mod 128 + 37) mod 128 + 26" by (simp only: bit_7 rotated_stage(1))
    also have "\<dots> \<longleftrightarrow> 65 \<le> unat c \<and> unat c \<le> 90" by (rule rotated_range) (use False in simp)
    finally show ?thesis .
  qed
  then show ?thesis
    by (simp add: toLowerAscii8_def Let_def shifted_bit_7 lower_def word_le_nat_alt)
qed

lemma toLowerAscii8_stages:
  "toLowerAscii8 c = c + (drop_bit 2 (((((c AND 0x7F) + 0x25) AND 0x7F) + 0x1A) AND NOT c) AND 0x20)"
  by (simp add: toLowerAscii8_def Let_def)

lemma last_stage_fits:
  "unat c + unat (drop_bit 2 (((((c AND 0x7F) + 0x25) AND 0x7F) + 0x1A) AND NOT c) AND 0x20 :: u8) < 256"
proof -
  let ?b = "drop_bit 2 (((((c AND 0x7F) + 0x25) AND 0x7F) + 0x1A) AND NOT c) AND 0x20"
  have "?b = (if 0x41 \<le> c \<and> c \<le> 0x5A then 0x20 else 0)"
  proof -
    have "c + ?b = c + (if 0x41 \<le> c \<and> c \<le> 0x5A then 0x20 else 0)"
      using toLowerAscii8_lower [of c] by (simp add: toLowerAscii8_stages lower_def)
    then show ?thesis by (simp only: add_left_cancel)
  qed
  then show ?thesis using unat_u8_lt [of c] by (simp add: word_le_nat_alt)
qed

text \<open>The computation of the wide versions on all bytes, with constants that repeat one byte.\<close>

lemma wide_lower:
  fixes bs :: "u8 list"
  assumes len: "LENGTH('a) = 8 * length bs"
  defines "k \<equiv> \<lambda>v. of_le_bytes (map (\<lambda>c. v) bs) :: 'a::len word"
  defines "w \<equiv> of_le_bytes bs :: 'a word"
  shows "w + (drop_bit 2 (((((w AND k 0x7F) + k 0x25) AND k 0x7F) + k 0x1A) AND NOT w) AND k 0x20) =
    of_le_bytes (map toLowerAscii8 bs)"
proof -
  have w: "w = of_le_bytes (map (\<lambda>c. c) bs)" by (simp add: w_def)
  have 1: "w AND k 0x7F = of_le_bytes (map (\<lambda>c. c AND 0x7F) bs)"
    unfolding w k_def by (rule bitwise_lanes(1) [OF len])
  have 2: "(w AND k 0x7F) + k 0x25 = of_le_bytes (map (\<lambda>c. (c AND 0x7F) + 0x25) bs)"
    unfolding 1 unfolding k_def by (rule add_lanes) (use rotated_stage(2) in simp)
  have 3: "((w AND k 0x7F) + k 0x25) AND k 0x7F = of_le_bytes (map (\<lambda>c. ((c AND 0x7F) + 0x25) AND 0x7F) bs)"
    unfolding 2 unfolding k_def by (rule bitwise_lanes(1) [OF len])
  have 4: "(((w AND k 0x7F) + k 0x25) AND k 0x7F) + k 0x1A =
      of_le_bytes (map (\<lambda>c. (((c AND 0x7F) + 0x25) AND 0x7F) + 0x1A) bs)"
    unfolding 3 unfolding k_def by (rule add_lanes) (use rotated_stage(3) in simp)
  have 5: "((((w AND k 0x7F) + k 0x25) AND k 0x7F) + k 0x1A) AND NOT w =
      of_le_bytes (map (\<lambda>c. ((((c AND 0x7F) + 0x25) AND 0x7F) + 0x1A) AND NOT c) bs)"
    unfolding 4 unfolding w by (rule bitwise_lanes(2) [OF len])
  have 6: "drop_bit 2 (((((w AND k 0x7F) + k 0x25) AND k 0x7F) + k 0x1A) AND NOT w) AND k 0x20 =
      of_le_bytes (map (\<lambda>c. drop_bit 2 (((((c AND 0x7F) + 0x25) AND 0x7F) + 0x1A) AND NOT c) AND 0x20) bs)"
    unfolding 5 unfolding k_def by (rule shift_lanes [OF len])
  have stages: "toLowerAscii8 =
      (\<lambda>c. c + (drop_bit 2 (((((c AND 0x7F) + 0x25) AND 0x7F) + 0x1A) AND NOT c) AND 0x20))"
    by (rule ext) (rule toLowerAscii8_stages)
  show ?thesis
    unfolding 6 unfolding w stages by (rule add_lanes) (rule last_stage_fits)
qed

lemma toLowerAscii32_lanes:
  "length bs = 4 \<Longrightarrow> toLowerAscii32 (of_le_bytes bs) = of_le_bytes (map toLowerAscii8 bs)"
proof -
  assume len: "length bs = 4"
  then obtain a b c d where "bs = [a, b, c, d]" by (auto simp: numeral_eq_Suc length_Suc_conv)
  then have k: "(of_le_bytes (map (\<lambda>c. 0x7F) bs) :: u32) = 0x7F7F7F7F"
    "(of_le_bytes (map (\<lambda>c. 0x25) bs) :: u32) = 0x25252525"
    "(of_le_bytes (map (\<lambda>c. 0x1A) bs) :: u32) = 0x1A1A1A1A"
    "(of_le_bytes (map (\<lambda>c. 0x20) bs) :: u32) = 0x20202020"
    by (simp_all add: of_le_bytes_Cons_nat del: of_le_bytes.simps(2))
  show ?thesis using wide_lower [where 'a = 32, of bs] len
    by (simp only: toLowerAscii32_def Let_def k len) simp
qed

lemma toLowerAscii64_lanes:
  "length bs = 8 \<Longrightarrow> toLowerAscii64 (of_le_bytes bs) = of_le_bytes (map toLowerAscii8 bs)"
proof -
  assume len: "length bs = 8"
  then obtain a b c d e f g h where "bs = [a, b, c, d, e, f, g, h]"
    by (auto simp: numeral_eq_Suc length_Suc_conv)
  then have k: "(of_le_bytes (map (\<lambda>c. 0x7F) bs) :: u64) = 0x7F7F7F7F7F7F7F7F"
    "(of_le_bytes (map (\<lambda>c. 0x25) bs) :: u64) = 0x2525252525252525"
    "(of_le_bytes (map (\<lambda>c. 0x1A) bs) :: u64) = 0x1A1A1A1A1A1A1A1A"
    "(of_le_bytes (map (\<lambda>c. 0x20) bs) :: u64) = 0x2020202020202020"
    by (simp_all add: of_le_bytes_Cons_nat del: of_le_bytes.simps(2))
  show ?thesis using wide_lower [where 'a = 64, of bs] len
    by (simp only: toLowerAscii64_def Let_def k len) simp
qed

section \<open>The loops\<close>

text \<open>The buffer once the characters before an offset have been converted.\<close>

definition lowered :: "u8 list \<Rightarrow> nat \<Rightarrow> u8 list" where
  "lowered buf offset = map lower (take offset buf) @ drop offset buf"

lemma length_lowered [simp]: "length (lowered buf offset) = length buf"
  by (simp add: lowered_def)

lemma lowered_0 [simp]: "lowered buf 0 = buf"
  by (simp add: lowered_def)

lemma take_lowered: "offset \<le> length buf \<Longrightarrow> take offset (lowered buf offset) = map lower (take offset buf)"
  by (simp add: lowered_def)

lemma drop_lowered: "offset \<le> length buf \<Longrightarrow> drop (offset + k) (lowered buf offset) = drop (offset + k) buf"
  by (simp add: lowered_def add.commute)

lemma lowered_add:
  "offset + k \<le> length buf \<Longrightarrow> lowered buf (offset + k) =
   take offset (lowered buf offset) @ map toLowerAscii8 (take k (drop offset buf)) @
   drop (offset + k) (lowered buf offset)"
  by (simp add: take_lowered drop_lowered) (simp add: lowered_def take_add toLowerAscii8_lower)

lemma at_byte_lowered:
  assumes "offset < length buf"
  shows "at_byte (lowered buf offset) offset = Inr (lowered buf (offset + 1))"
proof -
  have "(lowered buf offset)[offset := lower (buf ! offset)] = lowered buf (offset + 1)"
    using assms by (simp add: lowered_def list_update_append take_Suc_conv_app_nth Cons_nth_drop_Suc [symmetric])
  moreover have "lowered buf offset ! offset = buf ! offset"
    using assms by (simp add: lowered_def nth_append)
  ultimately show ?thesis using assms by (simp add: at_byte_def rd_def wr_def toLowerAscii8_lower)
qed

lemma at_word_lowered:
  assumes lanes: "\<And>bs. length bs = k \<Longrightarrow> f (of_le_bytes bs) = of_le_bytes (map toLowerAscii8 bs)"
    and width: "LENGTH('a) = 8 * k"
    and bounds: "(addr + offset) mod k = 0" "offset + k \<le> length buf"
  shows "at_word addr (f :: 'a::len word \<Rightarrow> 'a word) (lowered buf offset) offset = Inr (lowered buf (offset + k))"
proof -
  let ?bs = "take k (drop offset buf)"
  have len: "length ?bs = k" using bounds by simp
  have "take k (drop offset (lowered buf offset)) = ?bs"
    using drop_lowered [of offset buf 0] bounds by simp
  moreover have "le_bytes (of_le_bytes (map toLowerAscii8 ?bs) :: 'a word) = map toLowerAscii8 ?bs"
    using len width by (simp add: le_bytes_of_le_bytes)
  ultimately show ?thesis
    using bounds width lanes [OF len]
    by (simp add: at_word_def loadUnaligned_def storeUnaligned_def lowered_add)
qed

lemma lower_bytes_lowered:
  "offset \<le> n \<Longrightarrow> n \<le> length buf \<Longrightarrow> lower_bytes (lowered buf offset) offset n = Inr (lowered buf n, n)"
proof (induction "n - offset" arbitrary: offset)
  case 0
  then show ?case by (subst lower_bytes.simps) simp
next
  case (Suc m)
  then have "lower_bytes (lowered buf (offset + 1)) (offset + 1) n = Inr (lowered buf n, n)" by simp
  then show ?case using Suc.hyps(2) Suc.prems
    by (subst lower_bytes.simps) (simp add: at_byte_lowered)
qed

lemma lower_words64_lowered:
  "(offset + 4 \<le> len \<longrightarrow> (addr + offset) mod 8 = 0) \<Longrightarrow> offset \<le> len \<Longrightarrow> len \<le> length buf \<Longrightarrow>
   \<exists>m. lower_words64 addr (lowered buf offset) offset len = Inr (lowered buf m, m) \<and> offset \<le> m \<and> m \<le> len \<and>
     (m + 4 \<le> len \<longrightarrow> (addr + m) mod 8 = 0)"
proof (induction "len - offset" arbitrary: offset rule: less_induct)
  case less
  show ?case
  proof (cases "offset + 8 \<le> len")
    case True
    have "at_word addr toLowerAscii64 (lowered buf offset) offset = Inr (lowered buf (offset + 8))"
      by (rule at_word_lowered [OF toLowerAscii64_lanes]) (use less.prems True in simp_all)
    moreover have "(addr + (offset + 8)) mod 8 = 0" using less.prems(1) True by presburger
    note less.hyps [OF _ impI [OF this] True less.prems(3)]
    then obtain m where "lower_words64 addr (lowered buf (offset + 8)) (offset + 8) len = Inr (lowered buf m, m)"
      "offset + 8 \<le> m" "m \<le> len" "m + 4 \<le> len \<longrightarrow> (addr + m) mod 8 = 0"
      using True by (elim meta_impE exE conjE) simp_all
    ultimately show ?thesis using True
      by (subst lower_words64.simps) (auto intro!: exI [of _ m])
  next
    case False
    then show ?thesis using less.prems by (subst lower_words64.simps) auto
  qed
qed

lemma lower_words32_lowered:
  "(offset + 4 \<le> len \<longrightarrow> (addr + offset) mod 4 = 0) \<Longrightarrow> offset \<le> len \<Longrightarrow> len \<le> length buf \<Longrightarrow>
   \<exists>m. lower_words32 addr (lowered buf offset) offset len = Inr (lowered buf m, m) \<and> offset \<le> m \<and> m \<le> len"
proof (induction "len - offset" arbitrary: offset rule: less_induct)
  case less
  show ?case
  proof (cases "offset + 4 \<le> len")
    case True
    have "at_word addr toLowerAscii32 (lowered buf offset) offset = Inr (lowered buf (offset + 4))"
      by (rule at_word_lowered [OF toLowerAscii32_lanes]) (use less.prems True in simp_all)
    moreover have "(addr + (offset + 4)) mod 4 = 0" using less.prems(1) True by presburger
    note less.hyps [OF _ impI [OF this] True less.prems(3)]
    then obtain m where "lower_words32 addr (lowered buf (offset + 4)) (offset + 4) len = Inr (lowered buf m, m)"
      "offset + 4 \<le> m" "m \<le> len"
      using True by (elim meta_impE exE conjE) simp_all
    ultimately show ?thesis using True
      by (subst lower_words32.simps) (auto intro!: exI [of _ m])
  next
    case False
    then show ?thesis using less.prems by (subst lower_words32.simps) auto
  qed
qed

section \<open>The whole conversion\<close>

text \<open>Where the bytes converted one by one at the front end.\<close>

lemma front_end:
  fixes a len :: nat
  assumes n_def: "n = min (a mod 4) len" and e_def: "e = (if n \<noteq> 0 then min (4 - n) len else 0)"
  shows "e \<le> len" "e + 4 \<le> len \<longrightarrow> (a + e) mod 4 = 0"
proof -
  show "e \<le> len" by (simp add: e_def)
  have "e = len \<or> (a + e) mod 4 = 0"
  proof (cases "a mod 4 = 0 \<or> len = 0")
    case True
    then show ?thesis by (auto simp: e_def n_def)
  next
    case False
    then have n0: "n \<noteq> 0" by (simp add: n_def)
    have a4: "a mod 4 < 4" by simp
    show ?thesis
    proof (cases "a mod 4 \<le> len")
      case True
      then have "e = min (4 - a mod 4) len" using n0 by (simp add: e_def n_def)
      moreover have "(a + (4 - a mod 4)) mod 4 = 0" by presburger
      ultimately show ?thesis by (simp add: min_def)
    next
      case f: False
      then have "n = len" by (simp add: n_def)
      moreover from f a4 have "len < 3" by linarith
      ultimately show ?thesis using n0 by (auto simp: e_def)
    qed
  qed
  then show "e + 4 \<le> len \<longrightarrow> (a + e) mod 4 = 0" by (elim disjE) simp_all
qed

lemma and_masks: "n AND 3 = n mod 4" "n AND 7 = n mod 8" for n :: nat
  using take_bit_eq_mask [of 2 n] take_bit_eq_mask [of 3 n]
  by (simp_all add: take_bit_eq_mod mask_eq_exp_minus_1)

lemma mod_8_4: "n mod 8 = 0 \<Longrightarrow> n mod 4 = 0" for n :: nat
  by presburger

text \<open>The four or no bytes converted to reach a multiple of eight.\<close>

lemma to_eight:
  assumes "offset + 4 \<le> len \<longrightarrow> (a + offset) mod 4 = 0" "offset \<le> len" "len \<le> length buf"
  shows "\<exists>m. (if (a + offset) AND 7 \<noteq> 0 \<and> offset + 4 \<le> len
      then andthen (at_word a toLowerAscii32 (lowered buf offset) offset) (\<lambda>buf. Inr (buf, offset + 4))
      else Inr (lowered buf offset, offset)) = Inr (lowered buf m, m) \<and> m \<le> len \<and>
    (m + 4 \<le> len \<longrightarrow> (a + m) mod 8 = 0)"
proof (cases "(a + offset) AND 7 \<noteq> 0 \<and> offset + 4 \<le> len")
  case True
  have "at_word a toLowerAscii32 (lowered buf offset) offset = Inr (lowered buf (offset + 4))"
    by (rule at_word_lowered [OF toLowerAscii32_lanes]) (use assms True in simp_all)
  moreover have "(a + (offset + 4)) mod 8 = 0"
    using assms(1) True unfolding and_masks by presburger
  ultimately show ?thesis using True by (auto intro!: exI [of _ "offset + 4"])
next
  case False
  then show ?thesis using assms(2) by (auto simp: and_masks intro!: exI [of _ offset])
qed

text \<open>
  C25. \<open>toLowerAscii\<close> at any address and for any length inside the buffer: every cast access is at a
  multiple of its size, no access leaves the range, the loops end, and the result is the string
  with each of \<open>A\<close> to \<open>Z\<close> replaced by its lower case letter and every other byte, those with the
  high bit set included, left as it is. The bytes after the range are untouched.
\<close>

theorem toLowerAscii_equivalent:
  assumes "len \<le> length buf"
  shows "toLowerAscii addr buf len =
    Inr (map (\<lambda>c. if 0x41 \<le> c \<and> c \<le> 0x5A then c + 0x20 else c) (take len buf) @ drop len buf)"
proof -
  define n where "n = min (addr mod 4) len"
  define e where "e = (if n \<noteq> 0 then min (4 - n) len else 0)"
  note e = front_end [OF n_def e_def]
  have "(if n \<noteq> 0 then lower_bytes buf 0 (min (4 - n) len) else Inr (buf, 0)) = Inr (lowered buf e, e)"
    using lower_bytes_lowered [of 0 "min (4 - n) len" buf] assms by (simp add: e_def)
  moreover from to_eight [OF e(2) e(1) assms] obtain m where m: "m \<le> len"
    "m + 4 \<le> len \<longrightarrow> (addr + m) mod 8 = 0"
    "(if (addr + e) AND 7 \<noteq> 0 \<and> e + 4 \<le> len
      then andthen (at_word addr toLowerAscii32 (lowered buf e) e) (\<lambda>buf. Inr (buf, e + 4))
      else Inr (lowered buf e, e)) = Inr (lowered buf m, m)"
    by (elim exE conjE) (rule that)
  moreover from lower_words64_lowered [OF m(2) m(1) assms] obtain m2 where m2:
    "lower_words64 addr (lowered buf m) m len = Inr (lowered buf m2, m2)" "m2 \<le> len"
    "m2 + 4 \<le> len \<longrightarrow> (addr + m2) mod 8 = 0"
    by (elim exE conjE) (rule that)
  moreover have "m2 + 4 \<le> len \<longrightarrow> (addr + m2) mod 4 = 0"
    by (intro impI mod_8_4) (rule m2(3) [THEN mp])
  from lower_words32_lowered [OF this m2(2) assms] obtain m3 where
    "lower_words32 addr (lowered buf m2) m2 len = Inr (lowered buf m3, m3)" "m3 \<le> len"
    by (elim exE conjE) (rule that)
  ultimately have "toLowerAscii addr buf len = Inr (lowered buf len)"
    using lower_bytes_lowered [of m3 len buf, OF _ assms]
    by (simp only: toLowerAscii_def Let_def and_masks(1) n_def [symmetric] andthen_Inr prod.case)
  moreover have "lower = (\<lambda>c. if 0x41 \<le> c \<and> c \<le> 0x5A then c + 0x20 else c)"
    by (rule ext) (simp add: lower_def)
  ultimately show ?thesis by (simp add: lowered_def)
qed

theorem toLowerAscii_equivalent_witness:
  "toLowerAscii 4099 [0x48, 0x69, 0x21, 0x5A, 0xC1, 0x5B, 0x40, 0x41, 0x42, 0x43] 9 =
     Inr [0x68, 0x69, 0x21, 0x7A, 0xC1, 0x5B, 0x40, 0x61, 0x62, 0x43]"
  by (subst toLowerAscii_equivalent) simp_all

end
