(* ===== verification/Folly_Range_Search.thy ===== *)
theory Folly_Range_Search
  imports Folly_ToLower
begin

text \<open>
  The search functions of \<open>folly/Range.h\<close>: \<open>qfind\<close>, which compares the last element of the needle
  first and shifts by the distance of its previous occurrence, and the searches for one element.

  A range is the list of its elements and an iterator is an index into it, so that every checked access
  stays inside the range. \<open>std::string::npos\<close> is \<open>None\<close>.
\<close>

section \<open>Definitions\<close>

definition AsciiCaseSensitive :: "u8 \<Rightarrow> u8 \<Rightarrow> bool" where
  "AsciiCaseSensitive lhs rhs \<longleftrightarrow> lhs = rhs"

definition AsciiCaseInsensitive :: "u8 \<Rightarrow> u8 \<Rightarrow> bool" where
  "AsciiCaseInsensitive lhs rhs =
     (let k = lhs XOR rhs
      in if k = 0 then True
         else if k \<noteq> 32 then False
         else let k = lhs OR rhs in 0x61 \<le> k \<and> k \<le> 0x7A)"

text \<open>The inner loops of \<open>qfind\<close>: advance to where the last element of the needle matches,\<close>

function qfind_last :: "('a \<Rightarrow> 'a \<Rightarrow> bool) \<Rightarrow> 'a list \<Rightarrow> nat \<Rightarrow> 'a \<Rightarrow> nat \<Rightarrow> nat \<Rightarrow> nat option result" where
  "qfind_last eq haystack nsize_1 lastNeedle iEnd i =
     andthen (rd haystack (i + nsize_1)) (\<lambda>x.
       if \<not> eq x lastNeedle then
         let i = i + 1
         in if i = iEnd then Inr None else qfind_last eq haystack nsize_1 lastNeedle iEnd i
       else Inr (Some i))"
  by pat_completeness auto
termination
  by (relation "measure (\<lambda>(eq, haystack, nsize_1, lastNeedle, iEnd, i). length haystack - i)")
    (auto simp: rd_eq_Inr_iff)

text \<open>compare element by element,\<close>

function qfind_compare :: "('a \<Rightarrow> 'a \<Rightarrow> bool) \<Rightarrow> 'a list \<Rightarrow> 'a list \<Rightarrow> nat \<Rightarrow> nat \<Rightarrow> bool result" where
  "qfind_compare eq haystack needle i j =
     andthen (rd haystack (i + j)) (\<lambda>x. andthen (rd needle j) (\<lambda>y.
       if \<not> eq x y then Inr False
       else let j = j + 1
            in if j = length needle then Inr True else qfind_compare eq haystack needle i j))"
  by pat_completeness auto
termination
  by (relation "measure (\<lambda>(eq, haystack, needle, i, j). length needle - j)") (auto simp: rd_eq_Inr_iff)

text \<open>and compute the distance to shift by.\<close>

function qfind_skip :: "('a \<Rightarrow> 'a \<Rightarrow> bool) \<Rightarrow> 'a list \<Rightarrow> nat \<Rightarrow> 'a \<Rightarrow> nat \<Rightarrow> nat result" where
  "qfind_skip eq needle nsize_1 lastNeedle skip =
     (if skip \<le> nsize_1
      then andthen (rd needle (nsize_1 - skip)) (\<lambda>x.
        if \<not> eq x lastNeedle then qfind_skip eq needle nsize_1 lastNeedle (skip + 1) else Inr skip)
      else Inr skip)"
  by pat_completeness auto
termination
  by (relation "measure (\<lambda>(eq, needle, nsize_1, lastNeedle, skip). Suc nsize_1 - skip)") auto

declare qfind_last.simps [simp del] qfind_compare.simps [simp del] qfind_skip.simps [simp del]

lemma qfind_last_mono: "qfind_last eq h k l iEnd i = Inr (Some i') \<Longrightarrow> i \<le> i'"
proof (induction eq h k l iEnd i rule: qfind_last.induct)
  case (1 eq h k l iEnd i)
  then show ?case
    by (subst (asm) (2) qfind_last.simps) (fastforce simp: andthen_eq_Inr_iff Let_def split: if_splits)
qed

lemma qfind_skip_mono: "qfind_skip eq n k l s = Inr s' \<Longrightarrow> s \<le> s'"
proof (induction eq n k l s rule: qfind_skip.induct)
  case (1 eq n k l s)
  then show ?case
    by (subst (asm) (2) qfind_skip.simps) (fastforce simp: andthen_eq_Inr_iff split: if_splits)
qed

function qfind_loop ::
  "('a \<Rightarrow> 'a \<Rightarrow> bool) \<Rightarrow> 'a list \<Rightarrow> 'a list \<Rightarrow> nat \<Rightarrow> 'a \<Rightarrow> nat \<Rightarrow> nat \<Rightarrow> nat \<Rightarrow> nat option result" where
  "qfind_loop eq haystack needle nsize_1 lastNeedle iEnd i skip =
     (if i < iEnd then
        andthen (qfind_last eq haystack nsize_1 lastNeedle iEnd i) (\<lambda>r. case r of
          None \<Rightarrow> Inr None
        | Some i \<Rightarrow>
            andthen (qfind_compare eq haystack needle i 0) (\<lambda>found.
            if found then Inr (Some i)
            else andthen (if skip = 0 then qfind_skip eq needle nsize_1 lastNeedle 1 else Inr skip) (\<lambda>skip.
                   qfind_loop eq haystack needle nsize_1 lastNeedle iEnd (i + skip) skip)))
      else Inr None)"
  by pat_completeness auto
termination
  by (relation "measure (\<lambda>(eq, haystack, needle, nsize_1, lastNeedle, iEnd, i, skip). iEnd - i)")
    (auto dest!: qfind_last_mono qfind_skip_mono split: if_splits)

declare qfind_loop.simps [simp del]

definition qfind :: "('a \<Rightarrow> 'a \<Rightarrow> bool) \<Rightarrow> 'a list \<Rightarrow> 'a list \<Rightarrow> nat option result" where
  "qfind eq haystack needle =
     (let nsize = length needle
      in if length haystack < nsize then Inr None
         else if nsize = 0 then Inr (Some 0)
         else let nsize_1 = nsize - 1
              in andthen (rd needle nsize_1) (\<lambda>lastNeedle.
                   qfind_loop eq haystack needle nsize_1 lastNeedle (length haystack - nsize_1) 0 0))"

text \<open>\<open>std::find\<close> and \<open>memchr\<close>, \<open>std::find_first_of\<close>, and the loop of \<open>rfind\<close>.\<close>

definition qfind_char :: "'a list \<Rightarrow> 'a \<Rightarrow> nat option" where
  "qfind_char haystack needle = find (\<lambda>i. haystack ! i = needle) [0..<length haystack]"

definition qfind_first_of :: "('a \<Rightarrow> 'a \<Rightarrow> bool) \<Rightarrow> 'a list \<Rightarrow> 'a list \<Rightarrow> nat option" where
  "qfind_first_of eq haystack needles =
     find (\<lambda>i. list_ex (eq (haystack ! i)) needles) [0..<length haystack]"

fun rfind_loop :: "'a list \<Rightarrow> 'a \<Rightarrow> nat \<Rightarrow> nat option result" where
  "rfind_loop haystack needle 0 = Inr None"
| "rfind_loop haystack needle (Suc i) =
     andthen (rd haystack i) (\<lambda>x. if x = needle then Inr (Some i) else rfind_loop haystack needle i)"

definition rfind_char :: "'a list \<Rightarrow> 'a \<Rightarrow> nat option result" where
  "rfind_char haystack needle = rfind_loop haystack needle (length haystack)"

section \<open>Occurrences\<close>

definition match_at :: "('a \<Rightarrow> 'a \<Rightarrow> bool) \<Rightarrow> 'a list \<Rightarrow> 'a list \<Rightarrow> nat \<Rightarrow> bool" where
  "match_at eq haystack needle i \<longleftrightarrow>
     i + length needle \<le> length haystack \<and> (\<forall>j<length needle. eq (haystack ! (i + j)) (needle ! j))"

definition first_match :: "('a \<Rightarrow> 'a \<Rightarrow> bool) \<Rightarrow> 'a list \<Rightarrow> 'a list \<Rightarrow> nat option" where
  "first_match eq haystack needle = find (match_at eq haystack needle) [0..<Suc (length haystack)]"

lemma find_upt_Some_iff: "find P [0..<n] = Some i \<longleftrightarrow> i < n \<and> P i \<and> (\<forall>j<i. \<not> P j)"
  by (auto simp: find_Some_iff)

lemma find_upt_None_iff: "find P [0..<n] = None \<longleftrightarrow> (\<forall>i<n. \<not> P i)"
  by (auto simp: find_None_iff)

lemma match_at_bound: "match_at eq h n i \<Longrightarrow> i < Suc (length h)"
  by (simp add: match_at_def)

lemma first_match_Some_iff:
  "first_match eq h n = Some i \<longleftrightarrow> match_at eq h n i \<and> (\<forall>j<i. \<not> match_at eq h n j)"
  using match_at_bound [of eq h n i] by (auto simp: first_match_def find_upt_Some_iff simp del: upt_Suc)

lemma first_match_None_iff: "first_match eq h n = None \<longleftrightarrow> (\<forall>i. \<not> match_at eq h n i)"
  using match_at_bound [of eq h n] by (auto simp: first_match_def find_upt_None_iff simp del: upt_Suc)

lemma all_from: "(\<forall>x::nat. i \<le> x \<longrightarrow> P x) \<longleftrightarrow> P i \<and> (\<forall>x. i + 1 \<le> x \<longrightarrow> P x)"
  by (metis Suc_eq_plus1 Suc_leD Suc_leI le_neq_implies_less order_refl)

section \<open>Correctness of \<open>qfind\<close> for any equivalence of elements\<close>

text \<open>The interface of a comparator: \<open>qfind\<close> is right only if it is an equivalence relation.\<close>

locale comparator =
  fixes eq :: "'a \<Rightarrow> 'a \<Rightarrow> bool"
  assumes refl: "eq x x"
    and sym: "eq x y \<Longrightarrow> eq y x"
    and trans: "eq x y \<Longrightarrow> eq y z \<Longrightarrow> eq x z"
begin

lemma qfind_last_spec:
  "i < iEnd \<Longrightarrow> iEnd + k \<le> length h \<Longrightarrow>
   \<exists>r. qfind_last eq h k l iEnd i = Inr r \<and>
     (case r of None \<Rightarrow> \<forall>i'. i \<le> i' \<longrightarrow> i' < iEnd \<longrightarrow> \<not> eq (h ! (i' + k)) l
      | Some m \<Rightarrow> i \<le> m \<and> m < iEnd \<and> eq (h ! (m + k)) l \<and> (\<forall>i'. i \<le> i' \<longrightarrow> i' < m \<longrightarrow> \<not> eq (h ! (i' + k)) l))"
proof (induction "iEnd - i" arbitrary: i rule: less_induct)
  case less
  show ?case
  proof (cases "eq (h ! (i + k)) l")
    case True
    then show ?thesis using less.prems by (subst qfind_last.simps) simp
  next
    case miss: False
    show ?thesis
    proof (cases "i + 1 = iEnd")
      case True
      then have "\<forall>i'. i \<le> i' \<longrightarrow> i' < iEnd \<longrightarrow> \<not> eq (h ! (i' + k)) l"
        using miss by (subst all_from) simp
      then show ?thesis using miss less.prems True by (subst qfind_last.simps) simp
    next
      case False
      then obtain r where r: "qfind_last eq h k l iEnd (i + 1) = Inr r"
        "case r of None \<Rightarrow> \<forall>i'. i + 1 \<le> i' \<longrightarrow> i' < iEnd \<longrightarrow> \<not> eq (h ! (i' + k)) l
         | Some m \<Rightarrow> i + 1 \<le> m \<and> m < iEnd \<and> eq (h ! (m + k)) l \<and>
             (\<forall>i'. i + 1 \<le> i' \<longrightarrow> i' < m \<longrightarrow> \<not> eq (h ! (i' + k)) l)"
        using less.hyps [of "i + 1", OF diff_less_mono2 _ less.prems(2)] less.prems(1) by auto
      then have "case r of None \<Rightarrow> \<forall>i'. i \<le> i' \<longrightarrow> i' < iEnd \<longrightarrow> \<not> eq (h ! (i' + k)) l
         | Some m \<Rightarrow> i \<le> m \<and> m < iEnd \<and> eq (h ! (m + k)) l \<and> (\<forall>i'. i \<le> i' \<longrightarrow> i' < m \<longrightarrow> \<not> eq (h ! (i' + k)) l)"
        using miss by (subst (1 2) all_from) (simp split: option.splits)
      then show ?thesis using miss False less.prems r(1)
        by (subst qfind_last.simps) simp
    qed
  qed
qed

lemma qfind_compare_spec:
  "j < length n \<Longrightarrow> i + length n \<le> length h \<Longrightarrow>
   qfind_compare eq h n i j = Inr (\<forall>j'. j \<le> j' \<longrightarrow> j' < length n \<longrightarrow> eq (h ! (i + j')) (n ! j'))"
proof (induction "length n - j" arbitrary: j rule: less_induct)
  case less
  show ?case
  proof (cases "eq (h ! (i + j)) (n ! j)")
    case False
    then show ?thesis using less.prems by (subst qfind_compare.simps) auto
  next
    case hit: True
    show ?thesis
    proof (cases "j + 1 = length n")
      case True
      then have "\<forall>j'. j \<le> j' \<longrightarrow> j' < length n \<longrightarrow> eq (h ! (i + j')) (n ! j')"
        using hit by (subst all_from) simp
      then show ?thesis using hit less.prems True by (subst qfind_compare.simps) simp
    next
      case False
      have "(\<forall>j'. j \<le> j' \<longrightarrow> j' < length n \<longrightarrow> eq (h ! (i + j')) (n ! j')) \<longleftrightarrow>
          (\<forall>j'. j + 1 \<le> j' \<longrightarrow> j' < length n \<longrightarrow> eq (h ! (i + j')) (n ! j'))"
        using hit by (subst all_from) simp
      then show ?thesis using less.hyps [of "j + 1", OF diff_less_mono2 _ less.prems(2)] hit False less.prems
        by (subst qfind_compare.simps) simp
    qed
  qed
qed

text \<open>\<open>skip\<close> is the least distance at which the last element occurs before its end.\<close>

definition skip_ok :: "'a list \<Rightarrow> nat \<Rightarrow> 'a \<Rightarrow> nat \<Rightarrow> bool" where
  "skip_ok n k l s \<longleftrightarrow> 0 < s \<and> s \<le> k + 1 \<and> (\<forall>d. 0 < d \<longrightarrow> d < s \<longrightarrow> \<not> eq (n ! (k - d)) l)"

lemma qfind_skip_spec:
  "k < length n \<Longrightarrow> skip_ok n k l s \<Longrightarrow> \<exists>s'. qfind_skip eq n k l s = Inr s' \<and> skip_ok n k l s'"
proof (induction "Suc k - s" arbitrary: s rule: less_induct)
  case less
  show ?case
  proof (cases "s \<le> k \<and> \<not> eq (n ! (k - s)) l")
    case True
    then have "skip_ok n k l (s + 1)"
      using less.prems(2) by (auto simp: skip_ok_def less_Suc_eq)
    moreover from this have "s \<le> k" by (simp add: skip_ok_def)
    ultimately obtain s' where "qfind_skip eq n k l (s + 1) = Inr s'" "skip_ok n k l s'"
      using less.hyps [of "s + 1", OF diff_less_mono2 less.prems(1)] by auto
    then show ?thesis using less.prems(1) True by (subst qfind_skip.simps) simp
  next
    case False
    then show ?thesis using less.prems by (subst qfind_skip.simps) auto
  qed
qed

text \<open>No match starts between a position where the last element matches and the next one tried.\<close>

lemma skip_safe:
  assumes "skip_ok n k l s" "length n = k + 1" "n ! k = l"
    and hit: "eq (h ! (i + k)) l" and between: "i < i'" "i' < i + s"
  shows "\<not> match_at eq h n i'"
proof
  assume m: "match_at eq h n i'"
  define d where "d = i' - i"
  have d: "0 < d" "d < s" "d \<le> k" using between assms(1) by (auto simp: d_def skip_ok_def)
  then have "k - d < length n" using assms(2) by simp
  then have "eq (h ! (i' + (k - d))) (n ! (k - d))" using m unfolding match_at_def by blast
  moreover have "i' + (k - d) = i + k" using d between by (simp add: d_def)
  ultimately have "eq (n ! (k - d)) l" using hit sym trans by metis
  then show False using assms(1) d by (simp add: skip_ok_def)
qed

lemma qfind_loop_spec:
  assumes n: "length n = k + 1" "n ! k = l" and h: "iEnd + k = length h"
  shows "skip = 0 \<or> skip_ok n k l skip \<Longrightarrow> \<forall>i'<i. \<not> match_at eq h n i' \<Longrightarrow>
    qfind_loop eq h n k l iEnd i skip = Inr (first_match eq h n)"
proof (induction "iEnd - i" arbitrary: i skip rule: less_induct)
  case less
  have none: "\<not> match_at eq h n i'" if "\<not> i' < iEnd" for i'
    using that n(1) h by (simp add: match_at_def)
  show ?case
  proof (cases "i < iEnd")
    case False
    then have "first_match eq h n = None"
      using less.prems(2) none by (meson first_match_None_iff less_le_trans not_le_imp_less)
    with False show ?thesis by (subst qfind_loop.simps) simp
  next
    case i: True
    from qfind_last_spec [OF i, of k h l] h obtain r where r: "qfind_last eq h k l iEnd i = Inr r"
      "case r of None \<Rightarrow> \<forall>i'. i \<le> i' \<longrightarrow> i' < iEnd \<longrightarrow> \<not> eq (h ! (i' + k)) l
       | Some m \<Rightarrow> i \<le> m \<and> m < iEnd \<and> eq (h ! (m + k)) l \<and> (\<forall>i'. i \<le> i' \<longrightarrow> i' < m \<longrightarrow> \<not> eq (h ! (i' + k)) l)"
      by auto
    have by_last: "\<not> match_at eq h n i'" if "\<not> eq (h ! (i' + k)) l" for i'
      using that n by (auto simp: match_at_def)
    show ?thesis
    proof (cases r)
      case None
      then have "first_match eq h n = None"
        using r(2) less.prems(2) none by_last unfolding first_match_None_iff None option.case by (metis not_le)
      then show ?thesis using i r(1) None by (subst qfind_loop.simps) simp
    next
      case (Some m)
      then have m: "i \<le> m" "m < iEnd" "eq (h ! (m + k)) l"
        and before: "\<forall>i'<m. \<not> match_at eq h n i'"
        using r(2) less.prems(2) by_last unfolding Some option.case by (simp, simp, simp, metis not_le)
      have cmp: "qfind_compare eq h n m 0 = Inr (match_at eq h n m)"
        using qfind_compare_spec [of 0 n m h] n(1) h m(2) by (simp add: match_at_def)
      show ?thesis
      proof (cases "match_at eq h n m")
        case True
        then have "first_match eq h n = Some m" using before by (simp add: first_match_Some_iff)
        then show ?thesis using i r(1) Some cmp True by (subst qfind_loop.simps) simp
      next
        case False
        have "skip_ok n k l 1" by (simp add: skip_ok_def)
        then obtain s where s: "(if skip = 0 then qfind_skip eq n k l 1 else Inr skip) = Inr s" "skip_ok n k l s"
          using qfind_skip_spec [of k n l 1] n(1) less.prems(1) by (cases "skip = 0") auto
        have "\<not> match_at eq h n i'" if "i' < m + s" for i'
          using that before False skip_safe [OF s(2) n m(3), of i'] by (metis linorder_cases)
        moreover have "iEnd - (m + s) < iEnd - i" using s(2) m(1) i by (auto simp: skip_ok_def intro: diff_less_mono2)
        ultimately have "qfind_loop eq h n k l iEnd (m + s) s = Inr (first_match eq h n)"
          using less.hyps s(2) by blast
        then show ?thesis using i r(1) Some cmp False s(1) by (subst qfind_loop.simps) simp
      qed
    qed
  qed
qed

lemma qfind_first_match: "qfind eq h n = Inr (first_match eq h n)"
proof -
  consider "length h < length n" | "n = []" | "n \<noteq> []" "length n \<le> length h" by fastforce
  then show ?thesis
  proof cases
    case 1
    then have "first_match eq h n = None" by (simp add: first_match_None_iff match_at_def)
    with 1 show ?thesis by (simp add: qfind_def)
  next
    case 2
    then have "first_match eq h n = Some 0" by (simp add: first_match_Some_iff match_at_def)
    with 2 show ?thesis by (simp add: qfind_def)
  next
    case 3
    then have len: "length n = (length n - 1) + 1" by (cases n) auto
    have "qfind_loop eq h n (length n - 1) (n ! (length n - 1)) (length h - (length n - 1)) 0 0 =
        Inr (first_match eq h n)"
      by (rule qfind_loop_spec [OF len]) (use 3 in auto)
    then show ?thesis using 3 by (simp add: qfind_def Let_def rd_def)
  qed
qed

end

text \<open>Searching for one element.\<close>

lemma qfind_char_first: "qfind_char h c = first_match (=) h [c]"
proof (cases "qfind_char h c")
  case None
  then have "first_match (=) h [c] = None"
    by (auto simp: qfind_char_def find_upt_None_iff first_match_None_iff match_at_def Suc_le_eq)
  with None show ?thesis by simp
next
  case (Some i)
  then have "first_match (=) h [c] = Some i"
    by (auto simp: qfind_char_def find_upt_Some_iff first_match_Some_iff match_at_def Suc_le_eq)
  with Some show ?thesis by simp
qed

lemma rfind_loop_spec:
  "k \<le> length h \<Longrightarrow> rfind_loop h c k = Inr (find (\<lambda>i. h ! i = c) (rev [0..<k]))"
  by (induction k) auto

lemma rfind_char_spec: "rfind_char h c = Inr (find (\<lambda>i. h ! i = c) (rev [0..<length h]))"
  by (simp add: rfind_char_def rfind_loop_spec)

section \<open>The two comparators\<close>

lemma bit_5_div: "bit (c :: u8) 5 \<longleftrightarrow> odd (unat c div 32)"
proof -
  have "bit c 5 \<longleftrightarrow> bit (unat c) 5" by (simp add: bit_unsigned_iff)
  then show ?thesis by (simp add: bit_iff_odd)
qed

lemma flip_bit_5:
  "(c XOR 32 :: u8) = (if bit c 5 then c - 32 else c + 32)" "c OR 32 = (if bit c 5 then c else c + 32)"
proof -
  have b: "bit (32 :: u8) n \<longleftrightarrow> n = 5" for n using bit_32 [of n] by simp
  have or: "c OR 32 = (if bit c 5 then c else c + 32)" for c :: u8
  proof (cases "bit c 5")
    case True
    then have "c OR 32 = c" by (intro bit_word_eqI) (auto simp only: bit_or_iff b)
    with True show ?thesis by simp
  next
    case False
    then have "c + 32 = c OR 32" by (intro disjunctive_add) (auto simp only: b)
    with False show ?thesis by simp
  qed
  then show "c OR 32 = (if bit c 5 then c else c + 32)" .
  show "c XOR 32 = (if bit c 5 then c - 32 else c + 32)"
  proof (cases "bit c 5")
    case False
    then have "c XOR 32 = c OR 32" by (intro bit_word_eqI) (auto simp only: bit_or_iff bit_xor_iff b)
    with False or show ?thesis by simp
  next
    case True
    then have "\<not> bit (c XOR 32) 5" by (simp only: bit_xor_iff b) simp
    with or [of "c XOR 32"] have "(c XOR 32) OR 32 = (c XOR 32) + 32" by simp
    moreover have "(c XOR 32) OR 32 = c"
      using True by (intro bit_word_eqI) (auto simp only: bit_or_iff bit_xor_iff b)
    ultimately show ?thesis using True by (simp add: eq_diff_eq)
  qed
qed

lemma letter_bit_5:
  "0x41 \<le> c \<Longrightarrow> c \<le> 0x5A \<Longrightarrow> \<not> bit (c :: u8) 5" "0x61 \<le> c \<Longrightarrow> c \<le> 0x7A \<Longrightarrow> bit (c :: u8) 5"
proof -
  assume "0x41 \<le> c" "c \<le> 0x5A"
  then have "unat c div 32 = 2" by (intro div_nat_eqI) (simp_all add: word_le_nat_alt)
  then show "\<not> bit c 5" by (simp add: bit_5_div)
next
  assume "0x61 \<le> c" "c \<le> 0x7A"
  then have "unat c div 32 = 3" by (intro div_nat_eqI) (simp_all add: word_le_nat_alt)
  then show "bit c 5" by (simp add: bit_5_div)
qed

lemma AsciiCaseInsensitive_cases:
  "AsciiCaseInsensitive a b \<longleftrightarrow> a = b \<or> b = a XOR 32 \<and> 0x61 \<le> a OR 32 \<and> a OR 32 \<le> 0x7A"
proof -
  have xor: "a XOR b = 32 \<longleftrightarrow> b = a XOR 32" by (metis xor.assoc xor_self_eq xor.left_neutral)
  have or: "a OR (a XOR 32) = a OR 32"
    by (rule bit_word_eqI) (auto simp only: bit_or_iff bit_xor_iff)
  have eq: "a XOR b = 0 \<longleftrightarrow> a = b" by (metis xor.assoc xor_self_eq xor.left_neutral xor.right_neutral)
  show ?thesis unfolding AsciiCaseInsensitive_def Let_def eq using xor or by auto
qed

lemma AsciiCaseInsensitive_lower: "AsciiCaseInsensitive a b \<longleftrightarrow> lower a = lower b"
proof
  assume "AsciiCaseInsensitive a b"
  then consider "a = b" | "b = a XOR 32" "0x61 \<le> a OR 32" "a OR 32 \<le> 0x7A"
    unfolding AsciiCaseInsensitive_cases by blast
  then show "lower a = lower b"
  proof cases
    case 2
    then show ?thesis
    proof (cases "bit a 5")
      case True
      with 2 have "b = a - 32" "0x61 \<le> a" "a \<le> 0x7A" by (simp_all add: flip_bit_5)
      then show ?thesis by (auto simp: lower_def word_le_nat_alt unat_sub_if')
    next
      case False
      with 2 have "b = a + 32" "0x61 \<le> a + 32" "a + 32 \<le> 0x7A" by (simp_all add: flip_bit_5)
      moreover have "\<not> 0xE0 \<le> a"
      proof
        assume "0xE0 \<le> a"
        then have "unat a div 32 = 7"
          using unat_u8_lt [of a] by (intro div_nat_eqI) (simp_all add: word_le_nat_alt)
        with False show False by (simp add: bit_5_div)
      qed
      ultimately show ?thesis by (auto simp: lower_def word_le_nat_alt unat_word_ariths)
    qed
  qed simp
next
  assume eq: "lower a = lower b"
  let ?up = "\<lambda>c :: u8. 0x41 \<le> c \<and> c \<le> 0x5A"
  have letter: "AsciiCaseInsensitive c (c + 0x20)" "AsciiCaseInsensitive (c + 0x20) c" if up: "?up c" for c
  proof -
    have range: "0x61 \<le> c + 0x20" "c + 0x20 \<le> 0x7A" using up by (auto simp: word_le_nat_alt unat_word_ariths)
    then show "AsciiCaseInsensitive c (c + 0x20)" "AsciiCaseInsensitive (c + 0x20) c"
      using letter_bit_5(1) [of c] letter_bit_5(2) [of "c + 0x20"] up
      by (simp_all add: AsciiCaseInsensitive_cases flip_bit_5)
  qed
  show "AsciiCaseInsensitive a b"
  proof (cases "?up a"; cases "?up b")
    assume "?up a" "?up b"
    with eq have "a = b" by (simp add: lower_def)
    then show ?thesis by (simp add: AsciiCaseInsensitive_cases)
  next
    assume "?up a" "\<not> ?up b"
    with eq have "b = a + 0x20" by (auto simp: lower_def split: if_splits)
    then show ?thesis using letter(1) \<open>?up a\<close> by simp
  next
    assume "\<not> ?up a" "?up b"
    with eq have "a = b + 0x20" by (auto simp: lower_def split: if_splits)
    then show ?thesis using letter(2) \<open>?up b\<close> by simp
  next
    assume "\<not> ?up a" "\<not> ?up b"
    with eq have "a = b" by (auto simp: lower_def split: if_splits)
    then show ?thesis by (simp add: AsciiCaseInsensitive_cases)
  qed
qed

interpretation exact: comparator "(=) :: 'a \<Rightarrow> 'a \<Rightarrow> bool"
  by unfold_locales auto

interpretation caseless: comparator AsciiCaseInsensitive
  by unfold_locales (auto simp: AsciiCaseInsensitive_lower)

section \<open>Property\<close>

lemma qfind_results:
  "qfind (=) haystack needle = Inr (first_match (=) haystack needle)"
  "qfind AsciiCaseInsensitive chars word = Inr (first_match (=) (map toLowerAscii8 chars) (map toLowerAscii8 word))"
  "qfind (=) haystack [c] = Inr (qfind_char haystack c)"
  "rfind_char haystack c = Inr (find (\<lambda>i. haystack ! i = c) (rev [0..<length haystack]))"
proof -
  have "match_at AsciiCaseInsensitive chars word = match_at (=) (map toLowerAscii8 chars) (map toLowerAscii8 word)"
    by (rule ext) (auto simp: match_at_def AsciiCaseInsensitive_lower toLowerAscii8_lower)
  then show "qfind AsciiCaseInsensitive chars word =
      Inr (first_match (=) (map toLowerAscii8 chars) (map toLowerAscii8 word))"
    by (simp add: caseless.qfind_first_match first_match_def)
qed (simp_all add: exact.qfind_first_match qfind_char_first rfind_char_spec)

text \<open>
  C10. \<open>qfind\<close> with the equality of elements, and with \<open>AsciiCaseInsensitive\<close>, stays inside both
  ranges, ends, and returns the first position where the needle occurs, or \<open>npos\<close> if it does not.
  \<open>AsciiCaseInsensitive\<close> compares characters as \<open>toLowerAscii\<close> converts them. The searches for one
  element return its first and its last position.
\<close>

theorem qfind_first_occurrence:
  "qfind (=) haystack needle = Inr (first_match (=) haystack needle) \<and>
   qfind AsciiCaseInsensitive chars word = Inr (first_match (=) (map toLowerAscii8 chars) (map toLowerAscii8 word)) \<and>
   qfind (=) haystack [c] = Inr (qfind_char haystack c) \<and>
   rfind_char haystack c = Inr (find (\<lambda>i. haystack ! i = c) (rev [0..<length haystack]))"
  by (intro conjI qfind_results)

end
