(* ===== verification/Folly_ByteSearch.thy ===== *)
theory Folly_ByteSearch
  imports Folly_Range_Search
begin

text \<open>
  \<open>qfind_first_of\<close> for bytes: the set of bytes of \<open>folly/container/SparseByteSet.h\<close>, the portable
  searches of \<open>folly/detail/RangeCommon.h\<close> and \<open>RangeCommon.cpp\<close>, and the SSE4.2 search of
  \<open>folly/detail/RangeSse42.cpp\<close>.

  The SSE4.2 search loads sixteen bytes at a time and may read beyond its strings. Memory is a function
  \<open>mem\<close> from addresses to bytes, \<open>mapped\<close> says which pages of 4096 bytes can be read, and a string is
  the address and the number of its bytes. A load from a page that is not mapped, and an aligned load
  from an address that is not a multiple of 16, is \<open>Undefined_Behaviour\<close>. The comparison instruction
  \<open>pcmpestri\<close> is modelled after its documentation for the mode the code uses.
\<close>

section \<open>\<open>SparseByteSet\<close>\<close>

record sparse_byte_set =
  sbs_size :: u16
  sbs_sparse :: "u8 list"
  sbs_dense :: "u8 list"

definition kCapacity :: nat where "kCapacity = 256"

text \<open>The constructor leaves the two arrays uninitialised: they hold any bytes.\<close>

definition sbs_new :: "u8 list \<Rightarrow> u8 list \<Rightarrow> sparse_byte_set" where
  "sbs_new sparse dense = \<lparr>sbs_size = 0, sbs_sparse = sparse, sbs_dense = dense\<rparr>"

definition sbs_contains :: "sparse_byte_set \<Rightarrow> u8 \<Rightarrow> bool result" where
  "sbs_contains s i =
     andthen (rd (sbs_sparse s) (unat i)) (\<lambda>x.
       if unat x < unat (sbs_size s) then andthen (rd (sbs_dense s) (unat x)) (\<lambda>d. Inr (d = i)) else Inr False)"

definition sbs_add :: "sparse_byte_set \<Rightarrow> u8 \<Rightarrow> (bool \<times> sparse_byte_set) result" where
  "sbs_add s i =
     andthen (sbs_contains s i) (\<lambda>found.
       let r = \<not> found
       in if r then
            andthen (wr (sbs_dense s) (unat (sbs_size s)) i) (\<lambda>dense.
            andthen (wr (sbs_sparse s) (unat i) (ucast (sbs_size s))) (\<lambda>sparse.
              Inr (r, s\<lparr>sbs_dense := dense, sbs_sparse := sparse, sbs_size := sbs_size s + 1\<rparr>)))
          else Inr (r, s))"

section \<open>Portable searches\<close>

text \<open>
  Both searches with a set add every needle and then look for the first byte of the haystack that the
  set contains. \<open>std::bitset<256>\<close> is a list of 256 truth values.
\<close>

fun add_needles :: "('s \<Rightarrow> u8 \<Rightarrow> 's result) \<Rightarrow> 's \<Rightarrow> u8 list \<Rightarrow> 's result" where
  "add_needles add s [] = Inr s"
| "add_needles add s (needle # needles) = andthen (add s needle) (\<lambda>s. add_needles add s needles)"

function scan_haystack :: "('s \<Rightarrow> u8 \<Rightarrow> bool result) \<Rightarrow> 's \<Rightarrow> u8 list \<Rightarrow> nat \<Rightarrow> nat option result" where
  "scan_haystack contains s haystack index =
     (if index < length haystack
      then andthen (contains s (haystack ! index)) (\<lambda>found.
             if found then Inr (Some index) else scan_haystack contains s haystack (index + 1))
      else Inr None)"
  by pat_completeness auto
termination by (relation "measure (\<lambda>(contains, s, haystack, index). length haystack - index)") auto

declare scan_haystack.simps [simp del]

definition bitset_add :: "bool list \<Rightarrow> u8 \<Rightarrow> bool list result" where
  "bitset_add s needle = wr s (unat needle) True"

definition bitset_test :: "bool list \<Rightarrow> u8 \<Rightarrow> bool result" where
  "bitset_test s c = rd s (unat c)"

definition qfind_first_byte_of_bitset :: "u8 list \<Rightarrow> u8 list \<Rightarrow> nat option result" where
  "qfind_first_byte_of_bitset haystack needles =
     andthen (add_needles bitset_add (replicate 256 False) needles) (\<lambda>s. scan_haystack bitset_test s haystack 0)"

definition byteset_add :: "sparse_byte_set \<Rightarrow> u8 \<Rightarrow> sparse_byte_set result" where
  "byteset_add s needle = andthen (sbs_add s needle) (\<lambda>(r, s). Inr s)"

definition qfind_first_byte_of_byteset ::
  "u8 list \<Rightarrow> u8 list \<Rightarrow> u8 list \<Rightarrow> u8 list \<Rightarrow> nat option result" where
  "qfind_first_byte_of_byteset sparse dense haystack needles =
     andthen (add_needles byteset_add (sbs_new sparse dense) needles) (\<lambda>s. scan_haystack sbs_contains s haystack 0)"

definition qfind_first_byte_of_std :: "u8 list \<Rightarrow> u8 list \<Rightarrow> nat option" where
  "qfind_first_byte_of_std haystack needles = qfind_first_of (=) haystack needles"

definition qfind_first_byte_of_nosse ::
  "u8 list \<Rightarrow> u8 list \<Rightarrow> u8 list \<Rightarrow> u8 list \<Rightarrow> nat option result" where
  "qfind_first_byte_of_nosse sparse dense haystack needles =
     (if needles = [] \<or> haystack = [] then Inr None
      else if (length needles \<ge> 4 \<and> length haystack \<le> 10) \<or>
              (length needles \<ge> 16 \<and> length haystack \<le> 64) \<or> length needles \<ge> 32
      then qfind_first_byte_of_byteset sparse dense haystack needles
      else Inr (qfind_first_byte_of_std haystack needles))"

section \<open>Memory and instructions\<close>

record machine =
  mem :: "nat \<Rightarrow> u8"
  mapped :: "nat \<Rightarrow> bool"
  stack_sparse :: "u8 list"
  stack_dense :: "u8 list"

record piece_lite =
  sp_data :: nat
  sp_size :: nat

definition bytes_at :: "machine \<Rightarrow> nat \<Rightarrow> nat \<Rightarrow> u8 list" where
  "bytes_at M a n = map (\<lambda>k. mem M (a + k)) [0..<n]"

definition contents :: "machine \<Rightarrow> piece_lite \<Rightarrow> u8 list" where
  "contents M s = bytes_at M (sp_data s) (sp_size s)"

definition page_for :: "nat \<Rightarrow> nat" where "page_for addr = addr div 4096"

definition mm_loadu :: "machine \<Rightarrow> nat \<Rightarrow> u8 list result" where
  "mm_loadu M a =
     (if list_all (\<lambda>k. mapped M (page_for (a + k))) [0..<16] then Inr (bytes_at M a 16)
      else Inl Undefined_Behaviour)"

definition mm_load :: "machine \<Rightarrow> nat \<Rightarrow> u8 list result" where
  "mm_load M a = (if a mod 16 = 0 then mm_loadu M a else Inl Undefined_Behaviour)"

text \<open>The least index of \<open>b\<close> whose byte is one of \<open>a\<close>, or 16; lengths saturate at 16.\<close>

definition mm_cmpestri :: "u8 list \<Rightarrow> int \<Rightarrow> u8 list \<Rightarrow> int \<Rightarrow> nat" where
  "mm_cmpestri a la b lb =
     (case find (\<lambda>i. b ! i \<in> set (take (min (nat \<bar>la\<bar>) 16) a)) [0..<min (nat \<bar>lb\<bar>) 16] of
        None \<Rightarrow> 16 | Some i \<Rightarrow> i)"

text \<open>The conversion \<open>int(size_t)\<close>.\<close>

definition int_of_size :: "nat \<Rightarrow> int" where
  "int_of_size n = sint (of_nat n :: u32)"

section \<open>The SSE4.2 search\<close>

definition nextAlignedIndex :: "nat \<Rightarrow> nat" where
  "nextAlignedIndex arr =
     (let firstPossible = int arr + 1
      in nat (1 + ((firstPossible + 15) AND NOT 0xF) - firstPossible))"

definition nosse :: "machine \<Rightarrow> piece_lite \<Rightarrow> piece_lite \<Rightarrow> nat option result" where
  "nosse M haystack needles =
     qfind_first_byte_of_nosse (stack_sparse M) (stack_dense M) (contents M haystack) (contents M needles)"

function needles16_loop :: "machine \<Rightarrow> piece_lite \<Rightarrow> piece_lite \<Rightarrow> u8 list \<Rightarrow> nat \<Rightarrow> nat option result" where
  "needles16_loop M haystack needles arr2 i =
     (if i < sp_size haystack then
        andthen (mm_load M (sp_data haystack + i)) (\<lambda>arr1.
          let index = mm_cmpestri arr2 (int_of_size (sp_size needles)) arr1 (int_of_size (sp_size haystack - i))
          in if index < 16 then Inr (Some (i + index))
             else needles16_loop M haystack needles arr2 (i + 16))
      else Inr None)"
  by pat_completeness auto
termination by (relation "measure (\<lambda>(M, haystack, needles, arr2, i). sp_size haystack - i)") auto

definition qfind_first_byte_of_needles16 :: "machine \<Rightarrow> piece_lite \<Rightarrow> piece_lite \<Rightarrow> nat option result" where
  "qfind_first_byte_of_needles16 M haystack needles =
     (if (sp_size needles \<le> 2 \<and> sp_size haystack \<ge> 256) \<or>
         (sp_size haystack < 16 \<and>
          page_for (sp_data haystack + sp_size haystack - 1) \<noteq> page_for (sp_data haystack + 15)) \<or>
         page_for (sp_data needles + sp_size needles - 1) \<noteq> page_for (sp_data needles + 15)
      then nosse M haystack needles
      else
        andthen (mm_loadu M (sp_data needles)) (\<lambda>arr2.
        andthen (mm_loadu M (sp_data haystack)) (\<lambda>arr1.
          let index = mm_cmpestri arr2 (int_of_size (sp_size needles)) arr1 (int_of_size (sp_size haystack))
          in if index < 16 then Inr (Some index)
             else needles16_loop M haystack needles arr2 (nextAlignedIndex (sp_data haystack)))))"

function scan_needles ::
  "machine \<Rightarrow> piece_lite \<Rightarrow> piece_lite \<Rightarrow> nat \<Rightarrow> u8 list \<Rightarrow> nat \<Rightarrow> nat \<Rightarrow> nat result" where
  "scan_needles M haystack needles blockStartIdx arr1 j b =
     (if j < sp_size needles then
        andthen (mm_load M (sp_data needles + j)) (\<lambda>arr2.
          let index = mm_cmpestri arr2 (int_of_size (sp_size needles - j)) arr1
                        (int_of_size (sp_size haystack - blockStartIdx))
          in scan_needles M haystack needles blockStartIdx arr1 (j + 16) (min index b))
      else Inr b)"
  by pat_completeness auto
termination
  by (relation "measure (\<lambda>(M, haystack, needles, blockStartIdx, arr1, j, b). sp_size needles - j)") auto

definition scanHaystackBlock ::
  "bool \<Rightarrow> machine \<Rightarrow> piece_lite \<Rightarrow> piece_lite \<Rightarrow> nat \<Rightarrow> nat option result" where
  "scanHaystackBlock aligned M haystack needles blockStartIdx =
     andthen (if aligned then mm_load M (sp_data haystack + blockStartIdx)
              else mm_loadu M (sp_data haystack + blockStartIdx)) (\<lambda>arr1.
     andthen (mm_loadu M (sp_data needles)) (\<lambda>arr2.
       let b = mm_cmpestri arr2 16 arr1 (int_of_size (sp_size haystack - blockStartIdx))
       in andthen (scan_needles M haystack needles blockStartIdx arr1 (nextAlignedIndex (sp_data needles)) b) (\<lambda>b.
            if b < 16 then Inr (Some (blockStartIdx + b)) else Inr None)))"

function sse42_loop :: "machine \<Rightarrow> piece_lite \<Rightarrow> piece_lite \<Rightarrow> nat \<Rightarrow> nat option result" where
  "sse42_loop M haystack needles i =
     (if i < sp_size haystack then
        andthen (scanHaystackBlock True M haystack needles i) (\<lambda>ret.
          if ret \<noteq> None then Inr ret else sse42_loop M haystack needles (i + 16))
      else Inr None)"
  by pat_completeness auto
termination by (relation "measure (\<lambda>(M, haystack, needles, i). sp_size haystack - i)") auto

declare needles16_loop.simps [simp del] scan_needles.simps [simp del] sse42_loop.simps [simp del]

text \<open>\<open>built\<close> says whether the compiler targets SSE4.2; otherwise the file forwards to the portable search.\<close>

definition qfind_first_byte_of_sse42 :: "bool \<Rightarrow> machine \<Rightarrow> piece_lite \<Rightarrow> piece_lite \<Rightarrow> nat option result" where
  "qfind_first_byte_of_sse42 built M haystack needles =
     (if \<not> built then nosse M haystack needles
      else if sp_size needles = 0 \<or> sp_size haystack = 0 then Inr None
      else if sp_size needles \<le> 16 then qfind_first_byte_of_needles16 M haystack needles
      else if sp_size haystack < 16 \<and>
              page_for (sp_data haystack + sp_size haystack - 1) \<noteq> page_for (sp_data haystack + 16)
      then (if sp_size haystack \<le> 2
            then Inr (qfind_first_byte_of_std (contents M haystack) (contents M needles))
            else qfind_first_byte_of_byteset (stack_sparse M) (stack_dense M) (contents M haystack) (contents M needles))
      else andthen (scanHaystackBlock False M haystack needles 0) (\<lambda>ret.
             if ret \<noteq> None then Inr ret
             else sse42_loop M haystack needles (nextAlignedIndex (sp_data haystack))))"

definition qfind_first_byte_of :: "bool \<Rightarrow> bool \<Rightarrow> machine \<Rightarrow> piece_lite \<Rightarrow> piece_lite \<Rightarrow> nat option result" where
  "qfind_first_byte_of cpu built M haystack needles =
     (if cpu then qfind_first_byte_of_sse42 built M haystack needles else nosse M haystack needles)"

section \<open>Sets of bytes\<close>

text \<open>
  The interface the searches use: after \<open>add\<close>, \<open>contains\<close> answers for the old elements and the new
  one. It is provided by \<open>SparseByteSet\<close> and by \<open>std::bitset\<close>.
\<close>

locale byte_set =
  fixes inv :: "'s \<Rightarrow> bool" and elems :: "'s \<Rightarrow> u8 set"
    and add :: "'s \<Rightarrow> u8 \<Rightarrow> 's result" and contains :: "'s \<Rightarrow> u8 \<Rightarrow> bool result"
  assumes contains_Inr: "inv s \<Longrightarrow> contains s c = Inr (c \<in> elems s)"
    and add_Inr: "inv s \<Longrightarrow> \<exists>s'. add s c = Inr s' \<and> inv s' \<and> elems s' = insert c (elems s)"
begin

lemma add_needles_Inr:
  "inv s \<Longrightarrow> \<exists>s'. add_needles add s needles = Inr s' \<and> inv s' \<and> elems s' = elems s \<union> set needles"
proof (induction needles arbitrary: s)
  case (Cons c cs)
  from add_Inr [OF Cons.prems, of c] obtain s1 where "add s c = Inr s1" "inv s1" "elems s1 = insert c (elems s)" by blast
  with Cons.IH [of s1] show ?case by auto
qed simp

lemma scan_haystack_Inr:
  "inv s \<Longrightarrow> scan_haystack contains s h i = Inr (find (\<lambda>k. h ! k \<in> elems s) [i..<length h])"
proof (induction "length h - i" arbitrary: i)
  case 0
  then show ?case by (subst scan_haystack.simps) simp
next
  case (Suc d)
  then show ?case by (subst scan_haystack.simps) (simp add: contains_Inr upt_rec [of i])
qed

lemma search_Inr:
  assumes "inv s" "elems s = {}"
  shows "andthen (add_needles add s needles) (\<lambda>s. scan_haystack contains s h 0) =
    Inr (find (\<lambda>k. h ! k \<in> set needles) [0..<length h])"
proof -
  from add_needles_Inr [OF assms(1), of needles] obtain s' where
    "add_needles add s needles = Inr s'" "inv s'" "elems s' = set needles"
    using assms(2) by auto
  then show ?thesis by (simp add: scan_haystack_Inr)
qed

end

interpretation bitset: byte_set "\<lambda>s. length s = 256" "\<lambda>s. {c. s ! unat c}" bitset_add bitset_test
proof unfold_locales
  fix s :: "bool list" and c :: u8
  assume len: "length s = 256"
  then show "bitset_test s c = Inr (c \<in> {c. s ! unat c})"
    using unat_u8_lt [of c] by (simp add: bitset_test_def rd_def)
  have "{d. s[unat c := True] ! unat d} = insert c {d. s ! unat d}"
    using len unat_u8_lt [of c] by (auto simp: nth_list_update word_unat_eq_iff split: if_splits)
  then show "\<exists>s'. bitset_add s c = Inr s' \<and> length s' = 256 \<and> {d. s' ! unat d} = insert c {c. s ! unat c}"
    using len unat_u8_lt [of c] by (simp add: bitset_add_def wr_def)
qed

text \<open>The first \<open>size\<close> entries of \<open>dense\<close> are the elements, and \<open>sparse\<close> holds their positions.\<close>

definition sbs_inv :: "sparse_byte_set \<Rightarrow> bool" where
  "sbs_inv s \<longleftrightarrow> length (sbs_sparse s) = kCapacity \<and> length (sbs_dense s) = kCapacity \<and>
     unat (sbs_size s) \<le> kCapacity \<and> distinct (take (unat (sbs_size s)) (sbs_dense s)) \<and>
     (\<forall>j<unat (sbs_size s). sbs_sparse s ! unat (sbs_dense s ! j) = of_nat j)"

definition sbs_elems :: "sparse_byte_set \<Rightarrow> u8 set" where
  "sbs_elems s = set (take (unat (sbs_size s)) (sbs_dense s))"

lemma sbs_new_inv: "length sparse = 256 \<Longrightarrow> length dense = 256 \<Longrightarrow> sbs_inv (sbs_new sparse dense)"
  "sbs_elems (sbs_new sparse dense) = {}"
  by (simp_all add: sbs_inv_def sbs_elems_def sbs_new_def kCapacity_def)

lemma sbs_elems_iff: "sbs_inv s \<Longrightarrow> c \<in> sbs_elems s \<longleftrightarrow> (\<exists>j<unat (sbs_size s). sbs_dense s ! j = c)"
  by (auto simp: sbs_inv_def sbs_elems_def in_set_conv_nth)

lemma sbs_contains_Inr:
  assumes inv: "sbs_inv s"
  shows "sbs_contains s c = Inr (c \<in> sbs_elems s)"
proof -
  let ?x = "unat (sbs_sparse s ! unat c)"
  have len: "length (sbs_sparse s) = 256" "length (sbs_dense s) = 256"
    using inv by (auto simp: sbs_inv_def kCapacity_def)
  have "c \<in> sbs_elems s \<longleftrightarrow> ?x < unat (sbs_size s) \<and> sbs_dense s ! ?x = c"
  proof
    assume "c \<in> sbs_elems s"
    then obtain j where j: "j < unat (sbs_size s)" "sbs_dense s ! j = c" using sbs_elems_iff [OF inv] by auto
    then have "sbs_sparse s ! unat c = of_nat j" "j < 256" using inv by (auto simp: sbs_inv_def kCapacity_def)
    then have "?x = j" by (simp add: unat_of_nat_u8)
    with j show "?x < unat (sbs_size s) \<and> sbs_dense s ! ?x = c" by simp
  next
    assume "?x < unat (sbs_size s) \<and> sbs_dense s ! ?x = c"
    then show "c \<in> sbs_elems s" using sbs_elems_iff [OF inv] by auto
  qed
  then show ?thesis using len unat_u8_lt [of c] unat_u8_lt [of "sbs_sparse s ! unat c"]
    by (simp add: sbs_contains_def)
qed

text \<open>A set that lacks a byte has room for it.\<close>

lemma sbs_room:
  assumes inv: "sbs_inv s" and new: "c \<notin> sbs_elems s"
  shows "unat (sbs_size s) < 256"
proof -
  have "card (sbs_elems s) = unat (sbs_size s)"
    using inv by (simp add: sbs_inv_def sbs_elems_def kCapacity_def distinct_card)
  then have "Suc (unat (sbs_size s)) = card (insert c (sbs_elems s))"
    using new by (simp add: sbs_elems_def)
  also have "\<dots> \<le> card (UNIV :: u8 set)" by (rule card_mono) simp_all
  also have "\<dots> = 256" by (simp add: card_word)
  finally show ?thesis by simp
qed

lemma sbs_add_Inr:
  assumes inv: "sbs_inv s"
  shows "\<exists>s'. sbs_add s c = Inr (c \<notin> sbs_elems s, s') \<and> sbs_inv s' \<and> sbs_elems s' = insert c (sbs_elems s)"
proof (cases "c \<in> sbs_elems s")
  case True
  then show ?thesis using inv by (auto simp: sbs_add_def sbs_contains_Inr)
next
  case False
  define n where "n = unat (sbs_size s)"
  have n: "n < 256" using sbs_room [OF inv False] by (simp add: n_def)
  have len: "length (sbs_sparse s) = 256" "length (sbs_dense s) = 256"
    using inv by (auto simp: sbs_inv_def kCapacity_def)
  have size: "unat (sbs_size s + 1) = Suc n" "(ucast (sbs_size s) :: u8) = of_nat n"
    using n by (simp_all add: n_def unat_word_ariths)
  define s' where "s' = s\<lparr>sbs_dense := (sbs_dense s)[n := c], sbs_sparse := (sbs_sparse s)[unat c := of_nat n],
    sbs_size := sbs_size s + 1\<rparr>"
  have add: "sbs_add s c = Inr (True, s')"
    using False inv len n unat_u8_lt [of c] size(2)
    by (simp add: sbs_add_def sbs_contains_Inr s'_def n_def [symmetric] wr_def)
  have take: "take (Suc n) ((sbs_dense s)[n := c]) = take n (sbs_dense s) @ [c]"
    using n len by (simp add: take_Suc_conv_app_nth)
  have "sbs_dense s ! j \<noteq> c" if "j < n" for j
    using False that sbs_elems_iff [OF inv] by (auto simp: n_def)
  then have other: "unat (sbs_dense s ! j) \<noteq> unat c" if "j < n" for j using that by (simp add: word_unat_eq_iff)
  have "sbs_sparse s' ! unat (sbs_dense s' ! j) = of_nat j" if "j < Suc n" for j
  proof (cases "j = n")
    case True
    then show ?thesis using n len unat_u8_lt [of c] by (simp add: s'_def)
  next
    case False
    then have j: "j < n" using that by simp
    then have "sbs_sparse s ! unat (sbs_dense s ! j) = of_nat j" using inv by (simp add: sbs_inv_def n_def)
    then show ?thesis using other [OF j] j by (simp add: s'_def)
  qed
  moreover have "distinct (take (Suc n) (sbs_dense s'))"
    using False inv take by (simp add: s'_def sbs_inv_def sbs_elems_def n_def [symmetric])
  ultimately have "sbs_inv s'"
    using len n size(1) by (simp add: sbs_inv_def kCapacity_def) (simp add: s'_def size)
  moreover have "sbs_elems s' = insert c (sbs_elems s)"
    using take by (simp add: sbs_elems_def s'_def size n_def [symmetric])
  ultimately show ?thesis using add False by simp
qed

interpretation byteset: byte_set sbs_inv sbs_elems byteset_add sbs_contains
proof unfold_locales
  fix s c
  assume inv: "sbs_inv s"
  then show "sbs_contains s c = Inr (c \<in> sbs_elems s)" by (rule sbs_contains_Inr)
  from sbs_add_Inr [OF inv, of c]
  show "\<exists>s'. byteset_add s c = Inr s' \<and> sbs_inv s' \<and> sbs_elems s' = insert c (sbs_elems s)"
    by (auto simp: byteset_add_def)
qed

section \<open>The portable searches\<close>

lemma find_cong_upt: "(\<And>i. i < n \<Longrightarrow> P i = Q i) \<Longrightarrow> find P [0..<n] = find Q [0..<n]"
  by (rule find_cong) auto

lemma std_spec: "qfind_first_byte_of_std h ns = find (\<lambda>k. h ! k \<in> set ns) [0..<length h]"
  by (simp add: qfind_first_byte_of_std_def qfind_first_of_def list_ex_iff)

lemma bitset_spec: "qfind_first_byte_of_bitset h ns = Inr (find (\<lambda>k. h ! k \<in> set ns) [0..<length h])"
  unfolding qfind_first_byte_of_bitset_def
  by (rule bitset.search_Inr) (use unat_u8_lt in auto)

lemma byteset_spec:
  "length sparse = 256 \<Longrightarrow> length dense = 256 \<Longrightarrow>
   qfind_first_byte_of_byteset sparse dense h ns = Inr (find (\<lambda>k. h ! k \<in> set ns) [0..<length h])"
  unfolding qfind_first_byte_of_byteset_def by (rule byteset.search_Inr) (simp_all add: sbs_new_inv)

lemma nosse_spec:
  assumes "length sparse = 256" "length dense = 256"
  shows "qfind_first_byte_of_nosse sparse dense h ns = Inr (find (\<lambda>k. h ! k \<in> set ns) [0..<length h])"
  using assms by (auto simp: qfind_first_byte_of_nosse_def byteset_spec std_spec find_None_iff eq_commute [of None])

section \<open>Blocks of sixteen bytes\<close>

lemma find_append_cases: "find P (xs @ ys) = (case find P xs of None \<Rightarrow> find P ys | Some x \<Rightarrow> Some x)"
  by (induction xs) auto

lemma find_upt_split:
  assumes "i \<le> m" "m \<le> n"
  shows "find P [i..<n] = (case find P [i..<m] of None \<Rightarrow> find P [m..<n] | Some x \<Rightarrow> Some x)"
proof -
  have "[i..<n] = [i..<m] @ [m..<n]" using assms by (metis le_Suc_ex upt_add_eq_append)
  then show ?thesis by (simp only: find_append_cases)
qed

lemma find_upt_shift: "find P [i..<i + w] = map_option ((+) i) (find (\<lambda>k. P (i + k)) [0..<w])"
  by (induction w) (simp_all add: find_append_cases split: option.splits)

text \<open>The least index below \<open>w\<close> of a byte in \<open>S\<close>, or 16.\<close>

definition first_in :: "u8 set \<Rightarrow> (nat \<Rightarrow> u8) \<Rightarrow> nat \<Rightarrow> nat" where
  "first_in S f w = (case find (\<lambda>i. f i \<in> S) [0..<w] of None \<Rightarrow> 16 | Some i \<Rightarrow> i)"

lemma first_in_ge: "w \<le> 16 \<Longrightarrow> r \<le> 16 \<Longrightarrow> r \<le> first_in S f w \<longleftrightarrow> (\<forall>i<min r w. f i \<notin> S)"
  by (auto simp: first_in_def find_upt_Some_iff find_upt_None_iff split: option.splits)
    (meson leI less_le_trans)

lemma first_in_le: "w \<le> 16 \<Longrightarrow> first_in S f w \<le> 16"
  by (auto simp: first_in_def find_upt_Some_iff split: option.splits)

lemma first_in_Un: "w \<le> 16 \<Longrightarrow> first_in (S \<union> T) f w = min (first_in S f w) (first_in T f w)"
proof (rule antisym)
  assume w: "w \<le> 16"
  note le = first_in_le [OF w]
  have ge: "r \<le> first_in (S \<union> T) f w \<longleftrightarrow> r \<le> first_in S f w \<and> r \<le> first_in T f w" if "r \<le> 16" for r
    using that w by (auto simp: first_in_ge)
  show "first_in (S \<union> T) f w \<le> min (first_in S f w) (first_in T f w)" using ge [of "first_in (S \<union> T) f w", OF le] by simp
  show "min (first_in S f w) (first_in T f w) \<le> first_in (S \<union> T) f w"
    by (subst ge) (use le in \<open>auto simp: min_def\<close>)
qed

lemma first_in_empty [simp]: "first_in {} f w = 16"
proof -
  have "find (\<lambda>i. f i \<in> {}) [0..<w] = None" by (simp add: find_None_iff)
  then show ?thesis by (simp add: first_in_def)
qed

text \<open>What the instruction computes on a block of the memory.\<close>

lemma cmpestri_spec:
  assumes "w = min (nat \<bar>lb\<bar>) 16"
  shows "mm_cmpestri a la (bytes_at M p 16) lb = first_in (set (take (min (nat \<bar>la\<bar>) 16) a)) (\<lambda>k. mem M (p + k)) w"
proof -
  have "find (\<lambda>i. bytes_at M p 16 ! i \<in> S) [0..<w] = find (\<lambda>i. mem M (p + i) \<in> S) [0..<w]" for S
    by (rule find_cong_upt) (use assms in \<open>simp add: bytes_at_def\<close>)
  then show ?thesis by (simp add: mm_cmpestri_def first_in_def assms)
qed

lemma first_in_find:
  assumes "w \<le> 16"
  shows "(if first_in S (\<lambda>k. f (p + k)) w < 16 then Some (p + first_in S (\<lambda>k. f (p + k)) w) else None) =
    find (\<lambda>k. f k \<in> S) [p..<p + w]"
proof (cases "find (\<lambda>k. f (p + k) \<in> S) [0..<w]")
  case (Some k)
  then have "k < 16" using assms by (auto simp: find_upt_Some_iff)
  with Some show ?thesis unfolding find_upt_shift [of _ p w] by (simp add: first_in_def)
qed (simp add: first_in_def find_upt_shift [of _ p w])

lemma small_int_of_size: "n < 2 ^ 31 \<Longrightarrow> int_of_size n = int n"
  by (simp add: int_of_size_def signed_of_nat signed_take_bit_int_eq_self)

section \<open>Reading around a string\<close>

definition readable :: "machine \<Rightarrow> piece_lite \<Rightarrow> bool" where
  "readable M s \<longleftrightarrow> (\<forall>k < sp_size s. mapped M (page_for (sp_data s + k)))"

lemma page_between: "a \<le> x \<Longrightarrow> x \<le> b \<Longrightarrow> page_for a = page_for b \<Longrightarrow> page_for x = page_for a"
  using div_le_mono [of a x 4096] div_le_mono [of x b 4096] by (simp add: page_for_def)

lemma aligned_page: "a mod 16 = 0 \<Longrightarrow> k < 16 \<Longrightarrow> page_for (a + k) = page_for a"
proof -
  assume a: "a mod 16 = 0" and "k < 16"
  then have "(a + k) div 16 = a div 16" by auto
  moreover have "x div 4096 = x div 16 div 256" for x :: nat by (simp add: div_mult2_eq [symmetric])
  ultimately show ?thesis by (simp add: page_for_def)
qed

lemma mm_loadu_Inr: "(\<And>k. k < 16 \<Longrightarrow> mapped M (page_for (a + k))) \<Longrightarrow> mm_loadu M a = Inr (bytes_at M a 16)"
  by (simp add: mm_loadu_def list_all_iff)

lemma mm_load_Inr:
  "readable M s \<Longrightarrow> i < sp_size s \<Longrightarrow> (sp_data s + i) mod 16 = 0 \<Longrightarrow>
   mm_load M (sp_data s + i) = Inr (bytes_at M (sp_data s + i) 16)"
  unfolding mm_load_def by (simp add: mm_loadu_Inr aligned_page readable_def)

lemma mm_loadu_string:
  assumes s: "readable M s" "0 < sp_size s"
    and page: "sp_size s < 16 \<Longrightarrow> page_for (sp_data s + sp_size s - 1) = page_for (sp_data s + 15)"
  shows "mm_loadu M (sp_data s) = Inr (bytes_at M (sp_data s) 16)"
proof (rule mm_loadu_Inr)
  fix k :: nat assume k: "k < 16"
  show "mapped M (page_for (sp_data s + k))"
  proof (cases "k < sp_size s")
    case True
    then show ?thesis using s by (simp add: readable_def)
  next
    case False
    then have "page_for (sp_data s + k) = page_for (sp_data s + sp_size s - 1)" (is "_ = page_for ?l")
      using k s(2) page by (intro page_between [of "sp_data s + sp_size s - 1" _ "sp_data s + 15"]) simp_all
    moreover have "?l = sp_data s + (sp_size s - 1)" using s(2) by simp
    then have "mapped M (page_for ?l)" using s unfolding readable_def by (metis diff_less zero_less_one)
    ultimately show ?thesis by simp
  qed
qed

lemma nextAlignedIndex_spec: "0 < nextAlignedIndex a" "nextAlignedIndex a \<le> 16" "(a + nextAlignedIndex a) mod 16 = 0"
proof -
  have clear: "x AND NOT 0xF = x - x mod 16" for x :: int
  proof -
    have "(x AND 0xF) + (x AND NOT 0xF) = (x AND 0xF) OR (x AND NOT 0xF)"
      by (rule disjunctive_add) (simp only: bit_and_iff bit_not_iff, blast)
    also have "\<dots> = x" by (rule bit_eqI) (simp only: bit_or_iff bit_and_iff bit_not_iff, blast)
    finally have "x = (x AND 0xF) + (x AND NOT 0xF)" by simp
    moreover have "x AND 0xF = x mod 16"
      using take_bit_eq_mask [of 4 x] by (simp add: take_bit_eq_mod mask_eq_exp_minus_1)
    ultimately show ?thesis by linarith
  qed
  have int: "int (nextAlignedIndex a) = 16 - int a mod 16"
    using pos_mod_bound [of 16 "int a"] unfolding nextAlignedIndex_def Let_def clear
    by (simp add: add.commute [of _ 16])
  have "int a mod 16 = int (a mod 16)" by (simp add: zmod_int)
  then have nat: "nextAlignedIndex a = 16 - a mod 16" using int by linarith
  have m: "a mod 16 < 16" by simp
  from m show "0 < nextAlignedIndex a" unfolding nat by linarith
  from m show "nextAlignedIndex a \<le> 16" unfolding nat by linarith
  have "(a + nextAlignedIndex a) mod 16 = (a mod 16 + (16 - a mod 16)) mod 16"
    unfolding nat by (simp only: mod_add_left_eq)
  also have "a mod 16 + (16 - a mod 16) = 16" using m by simp
  finally show "(a + nextAlignedIndex a) mod 16 = 0" by simp
qed

section \<open>The SSE4.2 search\<close>

text \<open>The first byte of the haystack from \<open>i\<close> on that is a needle.\<close>

definition first_needle :: "machine \<Rightarrow> piece_lite \<Rightarrow> piece_lite \<Rightarrow> nat \<Rightarrow> nat \<Rightarrow> nat option" where
  "first_needle M h ns i n = find (\<lambda>k. mem M (sp_data h + k) \<in> set (contents M ns)) [i..<n]"

lemma nth_contents: "k < sp_size s \<Longrightarrow> contents M s ! k = mem M (sp_data s + k)"
  by (simp add: contents_def bytes_at_def)

lemma length_contents [simp]: "length (contents M s) = sp_size s"
  by (simp add: contents_def bytes_at_def)

lemma contents_search:
  "find (\<lambda>k. contents M h ! k \<in> set (contents M ns)) [0..<sp_size h] = first_needle M h ns 0 (sp_size h)"
  unfolding first_needle_def by (rule find_cong_upt) (simp add: nth_contents)

lemma take_upt_min: "take n [0..<m] = [0..<min n m]"
  by (cases "n \<le> m") (simp_all add: min_def)

lemma take_bytes_at: "take n (bytes_at M a m) = bytes_at M a (min n m)"
  by (simp add: bytes_at_def take_map take_upt_min)

text \<open>One block: the search continues behind it if it holds no needle.\<close>

lemma block_step:
  assumes "w = min (sp_size h - i) 16" "S = set (contents M ns)" "i < sp_size h"
    and r: "r = first_in S (\<lambda>k. mem M (sp_data h + i + k)) w"
    and j: "i < j" "j \<le> i + 16"
  shows "(if r < 16 then Some (i + r) else first_needle M h ns j (sp_size h)) = first_needle M h ns i (sp_size h)"
proof -
  have block: "(if r < 16 then Some (i + r) else None) = first_needle M h ns i (i + w)"
    using first_in_find [of w S "\<lambda>k. mem M (sp_data h + k)" i] assms(1)
    unfolding first_needle_def r assms(2) add.assoc by simp
  have w: "i + w \<le> sp_size h" using assms(1,3) by simp
  then have split: "first_needle M h ns i (sp_size h) =
      (case first_needle M h ns i (i + w) of None \<Rightarrow> first_needle M h ns (i + w) (sp_size h) | Some x \<Rightarrow> Some x)"
    unfolding first_needle_def by (rule find_upt_split [rotated]) simp
  show ?thesis
  proof (cases "r < 16")
    case True
    then have "first_needle M h ns i (i + w) = Some (i + r)" using block by simp
    then show ?thesis using split True by simp
  next
    case False
    then have none: "first_needle M h ns i (i + w) = None" using block by simp
    show ?thesis
    proof (cases "j \<le> sp_size h")
      case j_in: True
      have "first_needle M h ns i j = None"
        using none j j_in assms(1) unfolding first_needle_def by (auto simp: find_None_iff)
      moreover have "first_needle M h ns i (sp_size h) =
          (case first_needle M h ns i j of None \<Rightarrow> first_needle M h ns j (sp_size h) | Some x \<Rightarrow> Some x)"
        unfolding first_needle_def by (rule find_upt_split) (use j j_in in simp_all)
      ultimately show ?thesis using False by simp
    next
      case j_out: False
      then have "i + w = sp_size h" using assms(1,3) j by simp
      then show ?thesis using False none j_out by (simp add: first_needle_def)
    qed
  qed
qed

text \<open>The strings whose sizes the conversions to \<open>int\<close> keep.\<close>

definition small_string :: "machine \<Rightarrow> piece_lite \<Rightarrow> bool" where
  "small_string M s \<longleftrightarrow> readable M s \<and> sp_size s < 2 ^ 31"

lemma window: "n < 2 ^ 31 \<Longrightarrow> min (nat \<bar>int_of_size n\<bar>) 16 = min n 16"
  by (simp add: small_int_of_size)

lemma next_block: "(p + i) mod 16 = 0 \<Longrightarrow> (p + (i + 16)) mod 16 = 0" for p i :: nat
proof -
  assume "(p + i) mod 16 = 0"
  moreover have "p + (i + 16) = p + i + 16" by simp
  ultimately show "(p + (i + 16)) mod 16 = 0" by (simp only: mod_add_self2)
qed

lemma needles16_loop_spec:
  assumes h: "small_string M h" and S: "set (take (min (nat \<bar>int_of_size (sp_size ns)\<bar>) 16) arr2) = set (contents M ns)"
  shows "(sp_data h + i) mod 16 = 0 \<Longrightarrow> needles16_loop M h ns arr2 i = Inr (first_needle M h ns i (sp_size h))"
proof (induction "sp_size h - i" arbitrary: i rule: less_induct)
  case less
  show ?case
  proof (cases "i < sp_size h")
    case False
    then show ?thesis by (subst needles16_loop.simps) (simp add: first_needle_def)
  next
    case True
    have load: "mm_load M (sp_data h + i) = Inr (bytes_at M (sp_data h + i) 16)"
      using mm_load_Inr h True less.prems by (simp add: small_string_def)
    define r where "r = mm_cmpestri arr2 (int_of_size (sp_size ns)) (bytes_at M (sp_data h + i) 16)
      (int_of_size (sp_size h - i))"
    have lb: "min (sp_size h - i) 16 = min (nat \<bar>int_of_size (sp_size h - i)\<bar>) 16"
      by (rule window [symmetric]) (use h in \<open>auto simp: small_string_def\<close>)
    have "r = first_in (set (contents M ns)) (\<lambda>k. mem M (sp_data h + i + k)) (min (sp_size h - i) 16)"
      unfolding r_def cmpestri_spec [OF lb] S ..
    note step = block_step [OF refl refl True this, of "i + 16"]
    have "sp_size h - (i + 16) < sp_size h - i" using True by simp
    moreover have "(sp_data h + (i + 16)) mod 16 = 0" by (rule next_block [OF less.prems])
    ultimately have "needles16_loop M h ns arr2 (i + 16) = Inr (first_needle M h ns (i + 16) (sp_size h))"
      by (rule less.hyps)
    then have "needles16_loop M h ns arr2 i =
        (if r < 16 then Inr (Some (i + r)) else Inr (first_needle M h ns (i + 16) (sp_size h)))"
      by (subst needles16_loop.simps) (simp only: True if_True load andthen_Inr Let_def r_def [symmetric])
    also have "\<dots> = Inr (first_needle M h ns i (sp_size h))"
    proof -
      have "(if r < 16 then Some (i + r) else first_needle M h ns (i + 16) (sp_size h)) =
          first_needle M h ns i (sp_size h)" by (rule step) simp_all
      then show ?thesis by (simp split: if_splits)
    qed
    finally show ?thesis .
  qed
qed

lemma nosse_first_needle:
  "length (stack_sparse M) = 256 \<Longrightarrow> length (stack_dense M) = 256 \<Longrightarrow>
   nosse M h ns = Inr (first_needle M h ns 0 (sp_size h))"
  by (simp add: nosse_def nosse_spec contents_search)

lemma needles16_spec:
  assumes stack: "length (stack_sparse M) = 256" "length (stack_dense M) = 256"
    and h: "small_string M h" "0 < sp_size h" and ns: "small_string M ns" "0 < sp_size ns" "sp_size ns \<le> 16"
  shows "qfind_first_byte_of_needles16 M h ns = Inr (first_needle M h ns 0 (sp_size h))"
proof -
  let ?bail = "(sp_size ns \<le> 2 \<and> sp_size h \<ge> 256) \<or>
    (sp_size h < 16 \<and> page_for (sp_data h + sp_size h - 1) \<noteq> page_for (sp_data h + 15)) \<or>
    page_for (sp_data ns + sp_size ns - 1) \<noteq> page_for (sp_data ns + 15)"
  show ?thesis
  proof (cases ?bail)
    case True
    then have "qfind_first_byte_of_needles16 M h ns = nosse M h ns"
      unfolding qfind_first_byte_of_needles16_def by (rule if_P)
    then show ?thesis using nosse_first_needle [OF stack] by simp
  next
    case False
    define arr2 where "arr2 = bytes_at M (sp_data ns) 16"
    have loads: "mm_loadu M (sp_data ns) = Inr arr2" "mm_loadu M (sp_data h) = Inr (bytes_at M (sp_data h) 16)"
      unfolding arr2_def using mm_loadu_string h ns False by (auto simp: small_string_def)
    have S: "set (take (min (nat \<bar>int_of_size (sp_size ns)\<bar>) 16) arr2) = set (contents M ns)"
      using ns by (subst window) (simp_all add: small_string_def arr2_def take_bytes_at contents_def)
    define r where "r = mm_cmpestri arr2 (int_of_size (sp_size ns)) (bytes_at M (sp_data h) 16) (int_of_size (sp_size h))"
    have lb: "min (sp_size h - 0) 16 = min (nat \<bar>int_of_size (sp_size h)\<bar>) 16"
      using h by (subst window) (simp_all add: small_string_def)
    have "r = first_in (set (contents M ns)) (\<lambda>k. mem M (sp_data h + 0 + k)) (min (sp_size h - 0) 16)"
      unfolding r_def cmpestri_spec [OF lb] S by simp
    note step = block_step [OF refl refl h(2) this, of "nextAlignedIndex (sp_data h)"]
    have loop: "needles16_loop M h ns arr2 (nextAlignedIndex (sp_data h)) =
        Inr (first_needle M h ns (nextAlignedIndex (sp_data h)) (sp_size h))"
      by (rule needles16_loop_spec [OF h(1) S nextAlignedIndex_spec(3)])
    have "qfind_first_byte_of_needles16 M h ns =
        (if r < 16 then Inr (Some r) else needles16_loop M h ns arr2 (nextAlignedIndex (sp_data h)))"
      unfolding qfind_first_byte_of_needles16_def using False loads
      by (simp only: if_False loads andthen_Inr Let_def r_def)
    also have "\<dots> = Inr (if r < 16 then Some (0 + r) else first_needle M h ns (nextAlignedIndex (sp_data h)) (sp_size h))"
      by (simp add: loop)
    also have "\<dots> = Inr (first_needle M h ns 0 (sp_size h))"
      using step nextAlignedIndex_spec [of "sp_data h"] by simp
    finally show ?thesis .
  qed
qed

text \<open>A block of the haystack against all blocks of the needles.\<close>

lemma drop_bytes_at: "drop k (bytes_at M a n) = bytes_at M (a + k) (n - k)"
proof -
  have "[0..<n] ! (k + i) = k + i" if "i < n - k" for i using that by (subst nth_upt) simp_all
  then show ?thesis by (intro nth_equalityI) (simp_all add: bytes_at_def add.assoc)
qed

lemma drop_blocks: "set (drop j xs) = set (take 16 (drop j xs)) \<union> set (drop (j + 16) xs)"
proof -
  have "drop j xs = take 16 (drop j xs) @ drop (j + 16) xs"
    by (metis append_take_drop_id drop_drop add.commute)
  then show ?thesis by (metis set_append)
qed

lemma needle_block:
  assumes "sp_size ns - j < 2 ^ 31"
  shows "set (take (min (nat \<bar>int_of_size (sp_size ns - j)\<bar>) 16) (bytes_at M (sp_data ns + j) 16)) =
    set (take 16 (drop j (contents M ns)))"
proof -
  have "take (min (sp_size ns - j) 16) (bytes_at M (sp_data ns + j) 16) = take 16 (drop j (contents M ns))"
    by (simp add: take_bytes_at contents_def drop_bytes_at min.commute)
  then show ?thesis by (simp only: window [OF assms])
qed

lemma scan_needles_spec:
  assumes ns: "small_string M ns" and h: "small_string M h"
    and w: "w = min (sp_size h - i) 16" and f: "f = (\<lambda>k. mem M (sp_data h + i + k))"
  shows "(sp_data ns + j) mod 16 = 0 \<Longrightarrow> b \<le> 16 \<Longrightarrow>
    scan_needles M h ns i (bytes_at M (sp_data h + i) 16) j b = Inr (min b (first_in (set (drop j (contents M ns))) f w))"
proof (induction "sp_size ns - j" arbitrary: j b rule: less_induct)
  case less
  have w16: "w \<le> 16" by (simp add: w)
  show ?case
  proof (cases "j < sp_size ns")
    case False
    then have "set (drop j (contents M ns)) = {}" by simp
    then show ?thesis using False less.prems(2) by (subst scan_needles.simps) simp
  next
    case True
    have load: "mm_load M (sp_data ns + j) = Inr (bytes_at M (sp_data ns + j) 16)"
      using mm_load_Inr ns True less.prems(1) by (simp add: small_string_def)
    define r where "r = mm_cmpestri (bytes_at M (sp_data ns + j) 16) (int_of_size (sp_size ns - j))
      (bytes_at M (sp_data h + i) 16) (int_of_size (sp_size h - i))"
    have lb: "w = min (nat \<bar>int_of_size (sp_size h - i)\<bar>) 16"
      unfolding w by (rule window [symmetric]) (use h in \<open>auto simp: small_string_def\<close>)
    have "sp_size ns - j < 2 ^ 31" using ns by (auto simp: small_string_def)
    then have r: "r = first_in (set (take 16 (drop j (contents M ns)))) f w"
      unfolding r_def cmpestri_spec [OF lb] f by (simp only: needle_block)
    have dec: "sp_size ns - (j + 16) < sp_size ns - j" using True by simp
    have all: "min r (first_in (set (drop (j + 16) (contents M ns))) f w) =
        first_in (set (drop j (contents M ns))) f w"
      unfolding r drop_blocks [of j] first_in_Un [OF w16] ..
    from less.hyps [OF dec next_block [OF less.prems(1)], of "min r b"] less.prems(2)
    have "scan_needles M h ns i (bytes_at M (sp_data h + i) 16) (j + 16) (min r b) =
        Inr (min b (first_in (set (drop j (contents M ns))) f w))"
      unfolding all [symmetric] by (simp add: min.assoc min.left_commute)
    moreover have "scan_needles M h ns i (bytes_at M (sp_data h + i) 16) j b =
        scan_needles M h ns i (bytes_at M (sp_data h + i) 16) (j + 16) (min r b)"
      by (subst scan_needles.simps) (simp only: True if_True load andthen_Inr Let_def r_def [symmetric])
    ultimately show ?thesis by simp
  qed
qed

lemma scanHaystackBlock_spec:
  assumes h: "small_string M h" and ns: "small_string M ns" "16 < sp_size ns"
    and w: "w = min (sp_size h - i) 16"
    and load: "(if al then mm_load M (sp_data h + i) else mm_loadu M (sp_data h + i)) =
      Inr (bytes_at M (sp_data h + i) 16)"
  defines "r \<equiv> first_in (set (contents M ns)) (\<lambda>k. mem M (sp_data h + i + k)) w"
  shows "scanHaystackBlock al M h ns i = Inr (if r < 16 then Some (i + r) else None)"
proof -
  define f where "f = (\<lambda>k. mem M (sp_data h + i + k))"
  have w16: "w \<le> 16" by (simp add: w)
  have load2: "mm_loadu M (sp_data ns) = Inr (bytes_at M (sp_data ns) 16)"
    by (rule mm_loadu_Inr) (use ns in \<open>auto simp: small_string_def readable_def\<close>)
  define b where "b = mm_cmpestri (bytes_at M (sp_data ns) 16) 16 (bytes_at M (sp_data h + i) 16)
    (int_of_size (sp_size h - i))"
  have lb: "w = min (nat \<bar>int_of_size (sp_size h - i)\<bar>) 16"
    unfolding w by (rule window [symmetric]) (use h in \<open>auto simp: small_string_def\<close>)
  have "take (min (nat \<bar>16 :: int\<bar>) 16) (bytes_at M (sp_data ns) 16) = take 16 (contents M ns)"
    using ns(2) by (simp add: take_bytes_at contents_def)
  then have b: "b = first_in (set (take 16 (contents M ns))) f w"
    unfolding b_def cmpestri_spec [OF lb] f_def by (simp only:)
  define j where "j = nextAlignedIndex (sp_data ns)"
  have j: "j \<le> 16" "(sp_data ns + j) mod 16 = 0" unfolding j_def by (rule nextAlignedIndex_spec)+
  have "set (contents M ns) = set (take 16 (contents M ns)) \<union> set (drop j (contents M ns))"
  proof
    show "set (contents M ns) \<subseteq> set (take 16 (contents M ns)) \<union> set (drop j (contents M ns))"
      using set_drop_subset_set_drop [OF j(1), of "contents M ns"]
      by (metis append_take_drop_id set_append Un_mono order_refl)
  qed (auto dest: in_set_takeD in_set_dropD)
  then have all: "min b (first_in (set (drop j (contents M ns))) f w) = r"
    unfolding r_def f_def [symmetric] b by (metis first_in_Un [OF w16])
  have "scan_needles M h ns i (bytes_at M (sp_data h + i) 16) j b = Inr r"
  proof -
    have "b \<le> 16" unfolding b by (rule first_in_le [OF w16])
    from scan_needles_spec [OF ns(1) h w f_def j(2) this] show ?thesis unfolding all .
  qed
  then show ?thesis
    unfolding scanHaystackBlock_def load load2 andthen_Inr Let_def b_def [symmetric] j_def [symmetric] by simp
qed

lemma sse42_loop_spec:
  assumes h: "small_string M h" and ns: "small_string M ns" "16 < sp_size ns"
  shows "(sp_data h + i) mod 16 = 0 \<Longrightarrow> sse42_loop M h ns i = Inr (first_needle M h ns i (sp_size h))"
proof (induction "sp_size h - i" arbitrary: i rule: less_induct)
  case less
  show ?case
  proof (cases "i < sp_size h")
    case False
    then show ?thesis by (subst sse42_loop.simps) (simp add: first_needle_def)
  next
    case True
    have load: "(if True then mm_load M (sp_data h + i) else mm_loadu M (sp_data h + i)) =
        Inr (bytes_at M (sp_data h + i) 16)"
      using mm_load_Inr h True less.prems by (simp add: small_string_def)
    define r where "r = first_in (set (contents M ns)) (\<lambda>k. mem M (sp_data h + i + k)) (min (sp_size h - i) 16)"
    have block: "scanHaystackBlock True M h ns i = Inr (if r < 16 then Some (i + r) else None)"
      unfolding r_def by (rule scanHaystackBlock_spec [OF h ns refl load])
    have "sp_size h - (i + 16) < sp_size h - i" using True by simp
    from less.hyps [OF this next_block [OF less.prems]]
    have rest: "sse42_loop M h ns (i + 16) = Inr (first_needle M h ns (i + 16) (sp_size h))" .
    have "(if r < 16 then Some (i + r) else first_needle M h ns (i + 16) (sp_size h)) =
        first_needle M h ns i (sp_size h)"
      by (rule block_step [OF refl refl True r_def]) simp_all
    then show ?thesis
      by (subst sse42_loop.simps) (simp add: True block rest split: if_splits)
  qed
qed

lemma sse42_spec:
  assumes stack: "length (stack_sparse M) = 256" "length (stack_dense M) = 256"
    and h: "small_string M h" and ns: "small_string M ns"
  shows "qfind_first_byte_of_sse42 built M h ns = Inr (first_needle M h ns 0 (sp_size h))"
proof -
  consider "\<not> built" | "built" "sp_size ns = 0 \<or> sp_size h = 0" | "built" "0 < sp_size ns" "0 < sp_size h" "sp_size ns \<le> 16"
    | "built" "0 < sp_size h" "16 < sp_size ns" by linarith
  then show ?thesis
  proof cases
    case 1
    then show ?thesis using nosse_first_needle [OF stack] by (simp add: qfind_first_byte_of_sse42_def)
  next
    case 2
    then have "first_needle M h ns 0 (sp_size h) = None"
      by (auto simp: first_needle_def contents_def bytes_at_def find_None_iff)
    with 2 show ?thesis by (simp add: qfind_first_byte_of_sse42_def)
  next
    case 3
    then show ?thesis using needles16_spec [OF stack h _ ns] by (simp add: qfind_first_byte_of_sse42_def)
  next
    case 4
    let ?apart = "sp_size h < 16 \<and> page_for (sp_data h + sp_size h - 1) \<noteq> page_for (sp_data h + 16)"
    show ?thesis
    proof (cases ?apart)
      case True
      then show ?thesis using 4 stack
        by (simp add: qfind_first_byte_of_sse42_def std_spec byteset_spec contents_search)
    next
      case False
      have page: "page_for (sp_data h + sp_size h - 1) = page_for (sp_data h + 15)" if "sp_size h < 16"
        by (rule page_between [symmetric, of _ _ "sp_data h + 16"]) (use that False 4 in simp_all)
      have "mm_loadu M (sp_data h) = Inr (bytes_at M (sp_data h) 16)"
        by (rule mm_loadu_string) (use h 4 page in \<open>simp_all add: small_string_def\<close>)
      then have load: "(if False then mm_load M (sp_data h + 0) else mm_loadu M (sp_data h + 0)) =
          Inr (bytes_at M (sp_data h + 0) 16)" by simp
      define r where "r = first_in (set (contents M ns)) (\<lambda>k. mem M (sp_data h + 0 + k)) (min (sp_size h - 0) 16)"
      have block: "scanHaystackBlock False M h ns 0 = Inr (if r < 16 then Some (0 + r) else None)"
        unfolding r_def by (rule scanHaystackBlock_spec [OF h ns 4(3) refl load])
      define j where "j = nextAlignedIndex (sp_data h)"
      have j: "0 < j" "j \<le> 0 + 16" "(sp_data h + j) mod 16 = 0"
        using nextAlignedIndex_spec [of "sp_data h"] by (simp_all add: j_def)
      have step: "(if r < 16 then Some (0 + r) else first_needle M h ns j (sp_size h)) =
          first_needle M h ns 0 (sp_size h)"
        by (rule block_step [OF refl refl 4(2) r_def j(1,2)])
      have "qfind_first_byte_of_sse42 built M h ns =
          (if r < 16 then Inr (Some (0 + r)) else sse42_loop M h ns j)"
      proof -
        have c: "\<not> (sp_size ns = 0 \<or> sp_size h = 0)" "\<not> sp_size ns \<le> 16" using 4 by simp_all
        show ?thesis
          unfolding qfind_first_byte_of_sse42_def block j_def [symmetric]
          using 4(1) c False by (cases "r < 16") (simp_all only: if_False if_True simp_thms andthen_Inr option.simps)
      qed
      also have "\<dots> = Inr (first_needle M h ns 0 (sp_size h))"
        unfolding sse42_loop_spec [OF h ns 4(3) j(3)] step [symmetric] by simp
      finally show ?thesis .
    qed
  qed
qed

section \<open>Strings of four gigabytes\<close>

text \<open>
  The conversion of the remaining size to \<open>int\<close> loses its high bits. It never exceeds the size, so the
  search reports no byte beyond the string, but a size of \<open>2 ^ 32\<close> becomes 0 and the first block is
  not compared at all.
\<close>

lemma int_of_size_le: "nat \<bar>int_of_size n\<bar> \<le> n"
proof (cases "n < 2 ^ 31")
  case False
  have "- (2 ^ 31) \<le> int_of_size n" "int_of_size n < 2 ^ 31"
    using sint_ge [of "of_nat n :: u32"] sint_lt [of "of_nat n :: u32"] by (simp_all add: int_of_size_def)
  then have "nat \<bar>int_of_size n\<bar> \<le> 2 ^ 31" by auto
  with False show ?thesis by linarith
qed (simp add: small_int_of_size)

lemma no_needle_block:
  assumes "\<And>k. k < sp_size h - i \<Longrightarrow> mem M (sp_data h + i + k) \<notin> set a" "nat \<bar>lb\<bar> \<le> sp_size h - i"
  shows "mm_cmpestri a la (bytes_at M (sp_data h + i) 16) lb = 16"
proof -
  have "find (\<lambda>k. mem M (sp_data h + i + k) \<in> set (take (min (nat \<bar>la\<bar>) 16) a)) [0..<min (nat \<bar>lb\<bar>) 16] = None"
    using assms by (auto simp: find_None_iff dest!: in_set_takeD)
  then show ?thesis unfolding cmpestri_spec [OF refl] first_in_def by simp
qed

lemma needles16_loop_none:
  assumes "readable M h" "\<And>k. 0 < k \<Longrightarrow> k < sp_size h \<Longrightarrow> mem M (sp_data h + k) \<notin> set arr2"
  shows "0 < i \<Longrightarrow> (sp_data h + i) mod 16 = 0 \<Longrightarrow> needles16_loop M h ns arr2 i = Inr None"
proof (induction "sp_size h - i" arbitrary: i rule: less_induct)
  case less
  show ?case
  proof (cases "i < sp_size h")
    case True
    have load: "mm_load M (sp_data h + i) = Inr (bytes_at M (sp_data h + i) 16)"
      using mm_load_Inr assms(1) True less.prems(2) by simp
    have miss: "mm_cmpestri arr2 la (bytes_at M (sp_data h + i) 16) (int_of_size (sp_size h - i)) = 16" for la
      by (rule no_needle_block) (use assms(2) less.prems(1) int_of_size_le in \<open>auto simp: add.assoc\<close>)
    have "sp_size h - (i + 16) < sp_size h - i" "0 < i + 16" using True by simp_all
    from less.hyps [OF this next_block [OF less.prems(2)]]
    show ?thesis by (subst needles16_loop.simps) (simp add: True load miss)
  qed (subst needles16_loop.simps, simp)
qed

lemma four_gigabytes_missed:
  assumes h: "readable M h" "sp_size h = 2 ^ 32" and ns: "readable M ns" "2 < sp_size ns" "sp_size ns \<le> 16"
    and page: "page_for (sp_data ns + sp_size ns - 1) = page_for (sp_data ns + 15)"
    and found: "mem M (sp_data h) \<in> set (contents M ns)"
    and only: "\<And>k. 0 < k \<Longrightarrow> k < sp_size h \<Longrightarrow> mem M (sp_data h + k) \<notin> set (bytes_at M (sp_data ns) 16)"
  shows "find (\<lambda>k. mem M (sp_data h + k) \<in> set (contents M ns)) [0..<sp_size h] = Some 0 \<and>
    qfind_first_byte_of True True M h ns = Inr None"
proof -
  have loads: "mm_loadu M (sp_data ns) = Inr (bytes_at M (sp_data ns) 16)"
    "mm_loadu M (sp_data h) = Inr (bytes_at M (sp_data h) 16)"
    using mm_loadu_string h ns page by auto
  have "int_of_size (2 ^ 32) = 0" by (simp add: int_of_size_def)
  then have miss: "mm_cmpestri a la b (int_of_size (sp_size h)) = 16" for a la b
    unfolding h(2) mm_cmpestri_def by simp
  have loop: "needles16_loop M h ns (bytes_at M (sp_data ns) 16) (nextAlignedIndex (sp_data h)) = Inr None"
    by (rule needles16_loop_none [OF h(1) only]) (use nextAlignedIndex_spec in auto)
  have bail: "\<not> ((sp_size ns \<le> 2 \<and> sp_size h \<ge> 256) \<or>
      (sp_size h < 16 \<and> page_for (sp_data h + sp_size h - 1) \<noteq> page_for (sp_data h + 15)) \<or>
      page_for (sp_data ns + sp_size ns - 1) \<noteq> page_for (sp_data ns + 15))"
    using page ns(2) h(2) by simp
  have "qfind_first_byte_of_needles16 M h ns = Inr None"
    unfolding qfind_first_byte_of_needles16_def if_not_P [OF bail] loads andthen_Inr Let_def miss loop by simp
  moreover have "sp_size h \<noteq> 0" "sp_size ns \<noteq> 0" using h(2) ns(2) by simp_all
  ultimately have "qfind_first_byte_of True True M h ns = Inr None"
    using ns(3) by (simp add: qfind_first_byte_of_def qfind_first_byte_of_sse42_def)
  moreover have "find (\<lambda>k. mem M (sp_data h + k) \<in> set (contents M ns)) [0..<sp_size h] = Some 0"
    unfolding find_upt_Some_iff using found \<open>sp_size h \<noteq> 0\<close> by simp
  ultimately show ?thesis by blast
qed

section \<open>Properties\<close>

lemma byte_search_results:
  assumes "small_string M haystack" "small_string M needles"
    and "length (stack_sparse M) = 256" "length (stack_dense M) = 256"
  shows "qfind_first_byte_of cpu built M haystack needles =
      Inr (find (\<lambda>k. mem M (sp_data haystack + k) \<in> set (contents M needles)) [0..<sp_size haystack])"
    "qfind_first_byte_of_bitset h ns = Inr (find (\<lambda>k. h ! k \<in> set ns) [0..<length h])"
    "qfind_first_byte_of_byteset (stack_sparse M) (stack_dense M) h ns = qfind_first_byte_of_bitset h ns"
    "qfind_first_byte_of_bitset h ns = Inr (qfind_first_of (=) h ns)"
  using assms sse42_spec [OF assms(3,4,1,2), of built] nosse_first_needle [OF assms(3,4), of haystack needles]
  by (simp_all add: qfind_first_byte_of_def first_needle_def bitset_spec byteset_spec
      std_spec [unfolded qfind_first_byte_of_std_def])

text \<open>
  C9. Every variant of the search for the first byte of a set finds it: with \<open>std::bitset\<close> and with
  \<open>SparseByteSet\<close> on uninitialised arrays, for strings of any length; and the dispatching function, on
  a processor with or without SSE4.2, in a build for it or not, for a haystack and needles shorter than
  \<open>2 ^ 31\<close> bytes that lie on pages that can be read (\<open>small_string\<close>). The loads beyond the ends of such
  strings stay on pages that can be read. The bound is needed: the SSE4.2 code passes sizes to
  \<open>pcmpestri\<close> as an \<open>int\<close>, and in a haystack of \<open>2 ^ 32\<close> bytes it can miss the byte
  (\<open>four_gigabytes_missed\<close>).
\<close>

theorem first_byte_of_variants:
  assumes "small_string M haystack" "small_string M needles"
    and "length (stack_sparse M) = 256" "length (stack_dense M) = 256"
  shows "qfind_first_byte_of cpu built M haystack needles =
      Inr (find (\<lambda>k. mem M (sp_data haystack + k) \<in> set (contents M needles)) [0..<sp_size haystack]) \<and>
    qfind_first_byte_of_bitset h ns = Inr (find (\<lambda>k. h ! k \<in> set ns) [0..<length h]) \<and>
    qfind_first_byte_of_byteset (stack_sparse M) (stack_dense M) h ns = qfind_first_byte_of_bitset h ns \<and>
    qfind_first_byte_of_bitset h ns = Inr (qfind_first_of (=) h ns)"
  by (intro conjI byte_search_results [OF assms])

theorem first_byte_of_variants_witness:
  "qfind_first_byte_of True True
     \<lparr>mem = (\<lambda>a. of_nat a), mapped = (\<lambda>p. p = 1), stack_sparse = replicate 256 7, stack_dense = replicate 256 9\<rparr>
     \<lparr>sp_data = 8180, sp_size = 12\<rparr> \<lparr>sp_data = 8191, sp_size = 1\<rparr> = Inr (Some 11)"
proof -
  let ?M = "\<lparr>mem = (\<lambda>a. of_nat a), mapped = (\<lambda>p. p = 1), stack_sparse = replicate 256 7, stack_dense = replicate 256 9\<rparr>"
  let ?h = "\<lparr>sp_data = 8180, sp_size = 12\<rparr>" and ?n = "\<lparr>sp_data = 8191, sp_size = 1\<rparr>"
  have "(8180 + k) div 4096 = 1" if "k < 12" for k :: nat using that by (intro div_nat_eqI) simp_all
  then have "small_string ?M ?h" "small_string ?M ?n"
    by (simp_all add: small_string_def readable_def page_for_def)
  from first_byte_of_variants [OF this, of True True, THEN conjunct1]
  show ?thesis by (simp add: contents_def bytes_at_def upt_rec)
qed

end
