(* ===== verification/Folly_Range.thy ===== *)
theory Folly_Range
  imports Folly_Range_Search Folly_FixedString_Base "HOL-Library.Sublist"
begin

text \<open>
  The class \<open>Range\<close> of \<open>folly/Range.h\<close> for bytes (\<open>StringPiece\<close>, \<open>MutableStringPiece\<close>).

  A range is a pair of pointers, kept as indices into the memory \<open>m\<close> they point into. Operations that
  only move the pointers change the record; \<open>replaceAt\<close> and \<open>replaceAll\<close> change the memory. A range
  that is an argument is given by its elements. The \<open>assert\<close>s are preconditions: a call that violates
  one is \<open>Undefined_Behaviour\<close>. A default argument \<open>npos\<close>, and \<open>std::string::npos\<close> as a result, is
  \<open>None\<close>.
\<close>

section \<open>Construction and size\<close>

record rng =
  rng_b :: nat
  rng_e :: nat

definition range_elems :: "'a list \<Rightarrow> rng \<Rightarrow> 'a list" where
  "range_elems m r = take (rng_e r - rng_b r) (drop (rng_b r) m)"

definition range_ptrs :: "nat \<Rightarrow> nat \<Rightarrow> rng" where
  "range_ptrs start e = \<lparr>rng_b = start, rng_e = e\<rparr>"

definition range_ptr_size :: "nat \<Rightarrow> nat \<Rightarrow> rng" where
  "range_ptr_size start n = \<lparr>rng_b = start, rng_e = start + n\<rparr>"

definition range_cstr :: "u8 list \<Rightarrow> nat \<Rightarrow> rng result" where
  "range_cstr m str = andthen (constexpr_strlen (drop str m)) (\<lambda>n. Inr \<lparr>rng_b = str, rng_e = str + n\<rparr>)"

definition range_string :: "nat \<Rightarrow> nat \<Rightarrow> rng" where
  "range_string str_data str_size = \<lparr>rng_b = str_data, rng_e = str_data + str_size\<rparr>"

definition range_string_from :: "nat \<Rightarrow> nat \<Rightarrow> nat \<Rightarrow> rng result" where
  "range_string_from str_data str_size startFrom =
     (if startFrom > str_size then Inl Out_Of_Range
      else Inr \<lparr>rng_b = str_data + startFrom, rng_e = str_data + str_size\<rparr>)"

definition range_string_sub :: "nat \<Rightarrow> nat \<Rightarrow> nat \<Rightarrow> nat \<Rightarrow> rng result" where
  "range_string_sub str_data str_size startFrom n =
     (if startFrom > str_size then Inl Out_Of_Range
      else let b = str_data + startFrom
           in if str_size - startFrom < n then Inr \<lparr>rng_b = b, rng_e = str_data + str_size\<rparr>
              else Inr \<lparr>rng_b = b, rng_e = b + n\<rparr>)"

definition range_size :: "rng \<Rightarrow> nat" where
  "range_size r = rng_e r - rng_b r"

definition range_empty :: "rng \<Rightarrow> bool" where
  "range_empty r \<longleftrightarrow> rng_b r = rng_e r"

definition range_clear :: "rng \<Rightarrow> rng" where
  "range_clear r = \<lparr>rng_b = 0, rng_e = 0\<rparr>"

definition range_assign :: "rng \<Rightarrow> nat \<Rightarrow> nat \<Rightarrow> rng" where
  "range_assign r start e = r\<lparr>rng_b := start, rng_e := e\<rparr>"

definition range_reset :: "rng \<Rightarrow> nat \<Rightarrow> nat \<Rightarrow> rng" where
  "range_reset r start n = r\<lparr>rng_b := start, rng_e := start + n\<rparr>"

definition range_swap :: "rng \<Rightarrow> rng \<Rightarrow> rng \<times> rng" where
  "range_swap this rhs = (rhs, this)"

section \<open>Elements\<close>

definition range_front :: "'a list \<Rightarrow> rng \<Rightarrow> 'a result" where
  "range_front m r = (if rng_b r < rng_e r then rd m (rng_b r) else Inl Undefined_Behaviour)"

definition range_back :: "'a list \<Rightarrow> rng \<Rightarrow> 'a result" where
  "range_back m r = (if rng_b r < rng_e r then rd m (rng_e r - 1) else Inl Undefined_Behaviour)"

definition range_index :: "'a list \<Rightarrow> rng \<Rightarrow> nat \<Rightarrow> 'a result" where
  "range_index m r i = (if i < range_size r then rd m (rng_b r + i) else Inl Undefined_Behaviour)"

definition range_at :: "'a list \<Rightarrow> rng \<Rightarrow> nat \<Rightarrow> 'a result" where
  "range_at m r i = (if i \<ge> range_size r then Inl Out_Of_Range else rd m (rng_b r + i))"

section \<open>Comparison\<close>

text \<open>\<open>std::char_traits<char>::compare\<close> compares unsigned characters; only the sign of its result counts.\<close>

fun traits_compare :: "u8 list \<Rightarrow> u8 list \<Rightarrow> nat \<Rightarrow> int" where
  "traits_compare (x # xs) (y # ys) (Suc n) =
     (if x < y then -1 else if y < x then 1 else traits_compare xs ys n)"
| "traits_compare _ _ _ = 0"

definition range_compare :: "u8 list \<Rightarrow> u8 list \<Rightarrow> int" where
  "range_compare this other =
     (let tsize = length this;
          osize = length other;
          r = traits_compare this other (min tsize osize)
      in if r = 0 \<and> tsize \<noteq> osize
         then 2 * uint (drop_bit 63 (of_nat osize - of_nat tsize :: u64)) - 1
         else r)"

definition range_eq :: "u8 list \<Rightarrow> u8 list \<Rightarrow> bool" where
  "range_eq lhs rhs \<longleftrightarrow> length lhs = length rhs \<and> range_compare lhs rhs = 0"

definition range_ne :: "u8 list \<Rightarrow> u8 list \<Rightarrow> bool" where "range_ne lhs rhs \<longleftrightarrow> \<not> range_eq lhs rhs"
definition range_lt :: "u8 list \<Rightarrow> u8 list \<Rightarrow> bool" where "range_lt lhs rhs \<longleftrightarrow> range_compare lhs rhs < 0"
definition range_le :: "u8 list \<Rightarrow> u8 list \<Rightarrow> bool" where "range_le lhs rhs \<longleftrightarrow> range_compare lhs rhs \<le> 0"
definition range_gt :: "u8 list \<Rightarrow> u8 list \<Rightarrow> bool" where "range_gt lhs rhs \<longleftrightarrow> range_compare lhs rhs > 0"
definition range_ge :: "u8 list \<Rightarrow> u8 list \<Rightarrow> bool" where "range_ge lhs rhs \<longleftrightarrow> range_compare lhs rhs \<ge> 0"

text \<open>The Bernstein hash; \<open>char\<close> is signed and is extended to 32 bits.\<close>

fun range_hash_loop :: "u8 list \<Rightarrow> u32 \<Rightarrow> u32" where
  "range_hash_loop [] hash = hash"
| "range_hash_loop (c # cs) hash = range_hash_loop cs ((push_bit 5 hash + hash) + scast c)"

definition range_hash :: "u8 list \<Rightarrow> u32" where
  "range_hash this = range_hash_loop this 5381"

section \<open>Moving the ends\<close>

definition range_advance :: "rng \<Rightarrow> nat \<Rightarrow> rng result" where
  "range_advance r n = (if n > range_size r then Inl Out_Of_Range else Inr (r\<lparr>rng_b := rng_b r + n\<rparr>))"

definition range_subtract :: "rng \<Rightarrow> nat \<Rightarrow> rng result" where
  "range_subtract r n = (if n > range_size r then Inl Out_Of_Range else Inr (r\<lparr>rng_e := rng_e r - n\<rparr>))"

definition clamp :: "nat option \<Rightarrow> nat \<Rightarrow> nat" where
  "clamp n k = (case n of None \<Rightarrow> k | Some n \<Rightarrow> min n k)"

definition range_subpiece :: "rng \<Rightarrow> nat \<Rightarrow> nat option \<Rightarrow> rng result" where
  "range_subpiece r first n =
     (if first > range_size r then Inl Out_Of_Range
      else Inr (range_ptr_size (rng_b r + first) (clamp n (range_size r - first))))"

definition range_uncheckedAdvance :: "rng \<Rightarrow> nat \<Rightarrow> rng result" where
  "range_uncheckedAdvance r n =
     (if n \<le> range_size r then Inr (r\<lparr>rng_b := rng_b r + n\<rparr>) else Inl Undefined_Behaviour)"

definition range_uncheckedSubtract :: "rng \<Rightarrow> nat \<Rightarrow> rng result" where
  "range_uncheckedSubtract r n =
     (if n \<le> range_size r then Inr (r\<lparr>rng_e := rng_e r - n\<rparr>) else Inl Undefined_Behaviour)"

definition range_uncheckedSubpiece :: "rng \<Rightarrow> nat \<Rightarrow> nat option \<Rightarrow> rng result" where
  "range_uncheckedSubpiece r first n =
     (if first \<le> range_size r
      then Inr (range_ptr_size (rng_b r + first) (clamp n (range_size r - first)))
      else Inl Undefined_Behaviour)"

definition range_pop_front :: "rng \<Rightarrow> rng result" where
  "range_pop_front r =
     (if rng_b r < rng_e r then Inr (r\<lparr>rng_b := rng_b r + 1\<rparr>) else Inl Undefined_Behaviour)"

definition range_pop_back :: "rng \<Rightarrow> rng result" where
  "range_pop_back r =
     (if rng_b r < rng_e r then Inr (r\<lparr>rng_e := rng_e r - 1\<rparr>) else Inl Undefined_Behaviour)"

text \<open>\<open>Range(const Range& other, size_type first, size_type length)\<close>.\<close>

definition range_of_range :: "rng \<Rightarrow> nat \<Rightarrow> nat option \<Rightarrow> rng result" where
  "range_of_range other first n = range_subpiece other first n"

definition range_erase :: "rng \<Rightarrow> nat \<Rightarrow> nat \<Rightarrow> rng result" where
  "range_erase r b e =
     (if b = rng_b r then Inr (r\<lparr>rng_b := e\<rparr>)
      else if e = rng_e r then Inr (r\<lparr>rng_e := b\<rparr>)
      else Inl Out_Of_Range)"

section \<open>Searching\<close>

definition range_find :: "'a list \<Rightarrow> rng \<Rightarrow> 'a list \<Rightarrow> nat option result" where
  "range_find m r str = qfind (=) (range_elems m r) str"

definition range_find_pos :: "'a list \<Rightarrow> rng \<Rightarrow> 'a list \<Rightarrow> nat \<Rightarrow> nat option result" where
  "range_find_pos m r str pos =
     (if pos > range_size r then Inr None
      else andthen (range_subpiece r pos None) (\<lambda>s.
           andthen (qfind (=) (range_elems m s) str) (\<lambda>ret. Inr (map_option (\<lambda>ret. ret + pos) ret))))"

definition range_find_ptr :: "'a list \<Rightarrow> rng \<Rightarrow> nat \<Rightarrow> nat \<Rightarrow> nat \<Rightarrow> nat option result" where
  "range_find_ptr m r s pos n =
     (if pos > range_size r then Inr None
      else andthen (if pos \<noteq> 0 then range_subpiece r pos None else Inr r) (\<lambda>forFinding.
           andthen (qfind (=) (range_elems m forFinding) (range_elems m (range_ptr_size s n))) (\<lambda>ret.
             Inr (map_option (\<lambda>ret. ret + pos) ret))))"

definition range_find_cstr :: "u8 list \<Rightarrow> rng \<Rightarrow> nat \<Rightarrow> nat \<Rightarrow> nat option result" where
  "range_find_cstr m r s pos =
     (if pos > range_size r then Inr None
      else andthen (range_subpiece r pos None) (\<lambda>sub.
           andthen (range_cstr m s) (\<lambda>needle.
           andthen (qfind (=) (range_elems m sub) (range_elems m needle)) (\<lambda>ret.
             Inr (map_option (\<lambda>ret. ret + pos) ret)))))"

definition range_find_c :: "'a list \<Rightarrow> rng \<Rightarrow> 'a \<Rightarrow> nat option" where
  "range_find_c m r c = qfind_char (range_elems m r) c"

definition range_rfind_c :: "'a list \<Rightarrow> rng \<Rightarrow> 'a \<Rightarrow> nat option result" where
  "range_rfind_c m r c = rfind_char (range_elems m r) c"

definition range_find_c_pos :: "'a list \<Rightarrow> rng \<Rightarrow> 'a \<Rightarrow> nat \<Rightarrow> nat option result" where
  "range_find_c_pos m r c pos =
     (if pos > range_size r then Inr None
      else andthen (range_subpiece r pos None) (\<lambda>s.
           Inr (map_option (\<lambda>ret. ret + pos) (qfind_char (range_elems m s) c))))"

definition range_find_first_of :: "'a list \<Rightarrow> rng \<Rightarrow> 'a list \<Rightarrow> nat option" where
  "range_find_first_of m r needles = qfind_first_of (=) (range_elems m r) needles"

definition range_find_first_of_pos :: "'a list \<Rightarrow> rng \<Rightarrow> 'a list \<Rightarrow> nat \<Rightarrow> nat option result" where
  "range_find_first_of_pos m r needles pos =
     (if pos > range_size r then Inr None
      else andthen (range_subpiece r pos None) (\<lambda>s.
           Inr (map_option (\<lambda>ret. ret + pos) (qfind_first_of (=) (range_elems m s) needles))))"

definition range_contains :: "'a list \<Rightarrow> rng \<Rightarrow> 'a list \<Rightarrow> bool result" where
  "range_contains m r other = andthen (range_find m r other) (\<lambda>ret. Inr (ret \<noteq> None))"

definition range_contains_c :: "'a list \<Rightarrow> rng \<Rightarrow> 'a \<Rightarrow> bool" where
  "range_contains_c m r other \<longleftrightarrow> range_find_c m r other \<noteq> None"

section \<open>Prefixes and suffixes\<close>

definition range_startsWith :: "u8 list \<Rightarrow> rng \<Rightarrow> u8 list \<Rightarrow> bool result" where
  "range_startsWith m r other =
     (if range_size r \<ge> length other
      then andthen (range_subpiece r 0 (Some (length other))) (\<lambda>s. Inr (range_eq (range_elems m s) other))
      else Inr False)"

definition range_startsWith_c :: "u8 list \<Rightarrow> rng \<Rightarrow> u8 \<Rightarrow> bool result" where
  "range_startsWith_c m r c =
     (if \<not> range_empty r then andthen (range_front m r) (\<lambda>x. Inr (x = c)) else Inr False)"

definition range_startsWith_eq :: "'a list \<Rightarrow> rng \<Rightarrow> 'a list \<Rightarrow> ('a \<Rightarrow> 'a \<Rightarrow> bool) \<Rightarrow> bool result" where
  "range_startsWith_eq m r other eq =
     (if range_size r < length other then Inr False
      else andthen (range_subpiece r 0 (Some (length other))) (\<lambda>trunc.
             Inr (list_all2 eq (range_elems m trunc) other)))"

definition range_endsWith :: "u8 list \<Rightarrow> rng \<Rightarrow> u8 list \<Rightarrow> bool result" where
  "range_endsWith m r other =
     (if range_size r \<ge> length other
      then andthen (range_subpiece r (range_size r - length other) None) (\<lambda>s. Inr (range_eq (range_elems m s) other))
      else Inr False)"

definition range_endsWith_c :: "u8 list \<Rightarrow> rng \<Rightarrow> u8 \<Rightarrow> bool result" where
  "range_endsWith_c m r c =
     (if \<not> range_empty r then andthen (range_back m r) (\<lambda>x. Inr (x = c)) else Inr False)"

definition range_endsWith_eq :: "'a list \<Rightarrow> rng \<Rightarrow> 'a list \<Rightarrow> ('a \<Rightarrow> 'a \<Rightarrow> bool) \<Rightarrow> bool result" where
  "range_endsWith_eq m r other eq =
     (if range_size r < length other then Inr False
      else andthen (range_subpiece r (range_size r - length other) None) (\<lambda>trunc.
             Inr (list_all2 eq (range_elems m trunc) other)))"

definition range_equals :: "'a list \<Rightarrow> rng \<Rightarrow> 'a list \<Rightarrow> ('a \<Rightarrow> 'a \<Rightarrow> bool) \<Rightarrow> bool" where
  "range_equals m r other eq \<longleftrightarrow> range_size r = length other \<and> list_all2 eq (range_elems m r) other"

definition range_removePrefix :: "u8 list \<Rightarrow> rng \<Rightarrow> u8 list \<Rightarrow> (bool \<times> rng) result" where
  "range_removePrefix m r pre =
     andthen (range_startsWith m r pre) (\<lambda>x.
       if x then Inr (True, r\<lparr>rng_b := rng_b r + length pre\<rparr>) else Inr (False, r))"

definition range_removePrefix_c :: "u8 list \<Rightarrow> rng \<Rightarrow> u8 \<Rightarrow> (bool \<times> rng) result" where
  "range_removePrefix_c m r pre =
     andthen (range_startsWith_c m r pre) (\<lambda>x. if x then Inr (True, r\<lparr>rng_b := rng_b r + 1\<rparr>) else Inr (False, r))"

definition range_removeSuffix :: "u8 list \<Rightarrow> rng \<Rightarrow> u8 list \<Rightarrow> (bool \<times> rng) result" where
  "range_removeSuffix m r suff =
     andthen (range_endsWith m r suff) (\<lambda>x.
       if x then Inr (True, r\<lparr>rng_e := rng_e r - length suff\<rparr>) else Inr (False, r))"

definition range_removeSuffix_c :: "u8 list \<Rightarrow> rng \<Rightarrow> u8 \<Rightarrow> (bool \<times> rng) result" where
  "range_removeSuffix_c m r suff =
     andthen (range_endsWith_c m r suff) (\<lambda>x. if x then Inr (True, r\<lparr>rng_e := rng_e r - 1\<rparr>) else Inr (False, r))"

section \<open>Splitting and replacing\<close>

text \<open>The piece before the delimiter and the rest. \<open>std::find\<close> returns the end if there is none.\<close>

definition range_split_step_c :: "'a list \<Rightarrow> rng \<Rightarrow> 'a \<Rightarrow> rng \<times> rng" where
  "range_split_step_c m r delimiter =
     (let i = (case qfind_char (range_elems m r) delimiter of None \<Rightarrow> rng_e r | Some k \<Rightarrow> rng_b r + k);
          res = range_ptrs (rng_b r) i
      in (res, r\<lparr>rng_b := (if i = rng_e r then rng_e r else i + 1)\<rparr>))"

definition range_split_step :: "'a list \<Rightarrow> rng \<Rightarrow> 'a list \<Rightarrow> (rng \<times> rng) result" where
  "range_split_step m r delimiter =
     andthen (range_find m r delimiter) (\<lambda>i.
       let res = range_ptr_size (rng_b r) (case i of None \<Rightarrow> range_size r | Some i \<Rightarrow> i)
       in Inr (res, r\<lparr>rng_b := (if rng_e res = rng_e r then rng_e r else rng_e res + length delimiter)\<rparr>))"

text \<open>The sum of two \<open>size_t\<close> wraps around; \<open>std::copy\<close> writes element by element.\<close>

definition range_replaceAt :: "'a list \<Rightarrow> rng \<Rightarrow> nat \<Rightarrow> 'a list \<Rightarrow> (bool \<times> 'a list) result" where
  "range_replaceAt m r pos replacement =
     (if range_size r < (pos + length replacement) mod 2 ^ 64 then Inr (False, m)
      else if rng_b r + pos + length replacement \<le> length m
      then Inr (True, take (rng_b r + pos) m @ replacement @ drop (rng_b r + pos + length replacement) m)
      else Inl Undefined_Behaviour)"

function range_replaceAll_loop ::
  "'a list \<Rightarrow> rng \<Rightarrow> 'a list \<Rightarrow> 'a list \<Rightarrow> nat \<Rightarrow> nat \<Rightarrow> (nat \<times> 'a list) result" where
  "range_replaceAll_loop m r source dest pos num_replaced =
     (if source = [] then Inr (num_replaced, m)
      else andthen (range_find_pos m r source pos) (\<lambda>found. case found of
        None \<Rightarrow> Inr (num_replaced, m)
      | Some found \<Rightarrow>
          andthen (range_replaceAt m r found dest) (\<lambda>(_, m).
            range_replaceAll_loop m r source dest (pos + length source) (num_replaced + 1))))"
  by pat_completeness auto
termination
  by (relation "measure (\<lambda>(m, r, source, dest, pos, num_replaced). Suc (range_size r) - pos)")
    (auto simp: range_find_pos_def simp flip: length_greater_0_conv split: if_splits)

declare range_replaceAll_loop.simps [simp del]

text \<open>The loop is entered with a source that is not empty.\<close>

definition range_replaceAll :: "'a list \<Rightarrow> rng \<Rightarrow> 'a list \<Rightarrow> 'a list \<Rightarrow> (nat \<times> 'a list) result" where
  "range_replaceAll m r source dest =
     (if length source \<noteq> length dest
      then Inl (Invalid_Argument ''replacement must have the same size as source'')
      else if dest = [] then Inr (0, m)
      else range_replaceAll_loop m r source dest 0 0)"

section \<open>Comparison and predicates\<close>

lemma traits_compare_sign:
  "traits_compare xs ys (min (length xs) (length ys)) \<in> {-1, 0, 1}"
  "traits_compare xs ys (min (length xs) (length ys)) = 0 \<longleftrightarrow> prefix xs ys \<or> prefix ys xs"
  "traits_compare xs ys (min (length xs) (length ys)) < 0 \<longleftrightarrow>
    list_compare xs ys = ord_lt \<and> \<not> prefix xs ys \<and> \<not> prefix ys xs"
  by (induction xs ys rule: list_compare.induct) auto

lemma list_compare_prefix:
  "prefix xs ys \<Longrightarrow> list_compare xs ys = (if xs = ys then ord_eq else ord_lt)"
  "prefix ys xs \<Longrightarrow> list_compare xs ys = (if xs = ys then ord_eq else ord_gt)"
  by (induction xs ys rule: list_compare.induct) auto

lemma size_difference_sign:
  assumes "m < 2 ^ 63" "n < 2 ^ 63" "m \<noteq> n"
  shows "2 * uint (drop_bit 63 (of_nat n - of_nat m :: u64)) - 1 = (if m < n then -1 else 1)"
proof (cases "m < n")
  case True
  then have diff: "(of_nat n - of_nat m :: u64) = of_nat (n - m)" by (simp add: of_nat_diff)
  have "unat (of_nat n - of_nat m :: u64) = n - m"
    unfolding diff unat_of_nat_mod using assms by simp
  then have "unat (drop_bit 63 (of_nat n - of_nat m :: u64)) = 0"
    using assms True by (simp only: unat_drop_bit) simp
  then have "uint (drop_bit 63 (of_nat n - of_nat m :: u64)) = 0" by (simp only: uint_nat of_nat_0)
  with True show ?thesis by simp
next
  case False
  then have less: "n < m" using assms(3) by simp
  then have "(of_nat n - of_nat m :: u64) = - of_nat (m - n)" by (simp add: of_nat_diff)
  also have "\<dots> = of_nat (2 ^ 64 - (m - n))"
    using assms less by (simp add: of_nat_diff)
  finally have diff: "(of_nat n - of_nat m :: u64) = of_nat (2 ^ 64 - (m - n))" .
  have "unat (of_nat n - of_nat m :: u64) = 2 ^ 64 - (m - n)"
    unfolding diff unat_of_nat_mod using less by simp
  moreover have "(2 ^ 64 - (m - n)) div 2 ^ 63 = 1"
    using assms less by (intro div_nat_eqI) simp_all
  ultimately have "unat (drop_bit 63 (of_nat n - of_nat m :: u64)) = 1" by (simp only: unat_drop_bit)
  then have "uint (drop_bit 63 (of_nat n - of_nat m :: u64)) = 1" by (simp only: uint_nat of_nat_1)
  with False show ?thesis by simp
qed

lemma range_compare_spec:
  assumes "length xs < 2 ^ 63" "length ys < 2 ^ 63"
  shows "range_compare xs ys = (case list_compare xs ys of ord_lt \<Rightarrow> -1 | ord_eq \<Rightarrow> 0 | ord_gt \<Rightarrow> 1)"
proof -
  let ?t = "traits_compare xs ys (min (length xs) (length ys))"
  note sign = size_difference_sign [OF assms]
  consider zs where "ys = xs @ zs" | zs where "xs = ys @ zs" | "\<not> prefix xs ys" "\<not> prefix ys xs"
    by (auto simp: prefix_def)
  then show ?thesis
  proof cases
    case (1 zs)
    then have t: "?t = 0" using traits_compare_sign(2) [of xs ys] by simp
    show ?thesis
    proof (cases "zs = []")
      case False
      then have "length xs < length ys" using 1 by simp
      then have "range_compare xs ys = -1" using sign unfolding range_compare_def Let_def t by simp
      moreover have "list_compare xs ys = ord_lt" using list_compare_prefix(1) [of xs ys] 1 False by simp
      ultimately show ?thesis by simp
    qed (use 1 t in \<open>simp add: range_compare_def list_compare_prefix\<close>)
  next
    case (2 zs)
    then have t: "?t = 0" using traits_compare_sign(2) [of xs ys] by simp
    show ?thesis
    proof (cases "zs = []")
      case False
      then have "length ys < length xs" using 2 by simp
      then have "range_compare xs ys = 1" using sign unfolding range_compare_def Let_def t by simp
      moreover have "list_compare xs ys = ord_gt" using list_compare_prefix(2) [of ys xs] 2 False by simp
      ultimately show ?thesis by simp
    qed (use 2 t in \<open>simp add: range_compare_def list_compare_prefix\<close>)
  next
    case 3
    then have t: "?t \<noteq> 0" "list_compare xs ys \<noteq> ord_eq" by (auto simp: traits_compare_sign list_compare_eq_iff)
    then have "range_compare xs ys = ?t" by (simp add: range_compare_def Let_def)
    moreover have "?t \<in> {-1, 1}" "?t < 0 \<longleftrightarrow> list_compare xs ys = ord_lt"
      using 3 t traits_compare_sign(1,3) [of xs ys] by simp_all
    ultimately show ?thesis using t(2) by (cases "list_compare xs ys") auto
  qed
qed

lemma range_eq_iff: "range_eq xs ys \<longleftrightarrow> xs = ys"
proof -
  have "length xs = length ys \<Longrightarrow> prefix xs ys \<or> prefix ys xs \<longleftrightarrow> xs = ys"
    by (metis prefix_length_prefix prefix_order.eq_iff order_refl prefix_order.refl)
  then show ?thesis using traits_compare_sign(2) [of xs ys] by (auto simp: range_eq_def range_compare_def Let_def)
qed

section \<open>Views\<close>

definition range_ok :: "'a list \<Rightarrow> rng \<Rightarrow> bool" where
  "range_ok m r \<longleftrightarrow> rng_b r \<le> rng_e r \<and> rng_e r \<le> length m"

lemma length_range_elems [simp]: "range_ok m r \<Longrightarrow> length (range_elems m r) = range_size r"
  by (auto simp: range_ok_def range_elems_def range_size_def)

lemma nth_range_elems: "range_ok m r \<Longrightarrow> i < range_size r \<Longrightarrow> range_elems m r ! i = m ! (rng_b r + i)"
  by (simp add: range_ok_def range_elems_def range_size_def)

text \<open>A range between the ends of another one.\<close>

lemma narrow_elems:
  assumes "range_ok m r" "rng_b r \<le> rng_b s" "rng_b s \<le> rng_e s" "rng_e s \<le> rng_e r"
  shows "range_ok m s"
    "range_elems m s = take (rng_e s - rng_b s) (drop (rng_b s - rng_b r) (range_elems m r))"
  using assms by (simp_all add: range_ok_def range_elems_def take_drop drop_drop min_def)

lemma narrow_ptr:
  assumes "range_ok m r" "k + n \<le> range_size r"
  shows "range_elems m (range_ptr_size (rng_b r + k) n) = take n (drop k (range_elems m r))"
    "range_ok m (range_ptr_size (rng_b r + k) n)"
proof -
  let ?s = "range_ptr_size (rng_b r + k) n"
  have s: "rng_b r \<le> rng_b ?s" "rng_b ?s \<le> rng_e ?s" "rng_e ?s \<le> rng_e r"
    "rng_e ?s - rng_b ?s = n" "rng_b ?s - rng_b r = k"
    using assms by (auto simp: range_ptr_size_def range_size_def range_ok_def)
  show "range_elems m ?s = take n (drop k (range_elems m r))"
    using narrow_elems(2) [OF assms(1) s(1-3)] unfolding s(4,5) .
  show "range_ok m ?s" by (rule narrow_elems(1) [OF assms(1) s(1-3)])
qed

lemma range_front_hd: "range_ok m r \<Longrightarrow> \<not> range_empty r \<Longrightarrow> range_front m r = Inr (hd (range_elems m r))"
  by (simp add: range_front_def range_ok_def range_empty_def range_elems_def rd_def hd_drop_conv_nth)

lemma range_back_last:
  assumes ok: "range_ok m r" and ne: "\<not> range_empty r"
  shows "range_back m r = Inr (last (range_elems m r))"
proof -
  have "range_elems m r \<noteq> []"
    using ok ne by (auto simp: range_empty_def range_ok_def range_elems_def)
  then have "last (range_elems m r) = range_elems m r ! (range_size r - 1)"
    using ok by (simp add: last_conv_nth)
  also have "\<dots> = m ! (rng_b r + (range_size r - 1))"
  proof (rule nth_range_elems [OF ok])
    have "rng_b r < rng_e r" using ok ne by (simp add: range_ok_def range_empty_def)
    then show "range_size r - 1 < range_size r" by (simp add: range_size_def)
  qed
  also have "rng_b r + (range_size r - 1) = rng_e r - 1"
    using ok ne by (simp add: range_ok_def range_empty_def range_size_def)
  finally have "last (range_elems m r) = m ! (rng_e r - 1)" .
  moreover have "rng_b r < rng_e r" "rng_e r - 1 < length m" using ok ne by (auto simp: range_ok_def range_empty_def)
  ultimately show ?thesis by (simp add: range_back_def rd_def)
qed

lemma range_startsWith_iff:
  assumes ok: "range_ok m r"
  shows "range_startsWith m r p = Inr (prefix p (range_elems m r))"
proof (cases "length p \<le> range_size r")
  case True
  then have "range_elems m (range_ptr_size (rng_b r + 0) (length p)) = take (length p) (range_elems m r)"
    using narrow_ptr(1) [OF ok, of 0 "length p"] by simp
  moreover have "take (length p) xs = p \<longleftrightarrow> prefix p xs" for xs by (metis prefix_def append_eq_conv_conj)
  ultimately show ?thesis using True
    by (simp add: range_startsWith_def range_subpiece_def clamp_def range_eq_iff)
next
  case False
  then show ?thesis using ok prefix_length_le [of p "range_elems m r"] by (auto simp: range_startsWith_def)
qed

lemma range_endsWith_iff:
  assumes ok: "range_ok m r"
  shows "range_endsWith m r p = Inr (suffix p (range_elems m r))"
proof (cases "length p \<le> range_size r")
  case True
  define k where "k = range_size r - length p"
  have "range_elems m (range_ptr_size (rng_b r + k) (length p)) = take (length p) (drop k (range_elems m r))"
    using True by (intro narrow_ptr(1) [OF ok]) (simp add: k_def)
  then have "range_elems m (range_ptr_size (rng_b r + k) (length p)) = drop k (range_elems m r)"
    using ok True by (simp add: k_def)
  moreover have "drop (length xs - length p) xs = p \<longleftrightarrow> suffix p xs" for xs
    by (auto simp: suffix_def intro: exI [of _ "take (length xs - length p) xs"])
      (metis append_take_drop_id)
  from this [of "range_elems m r"] have "drop k (range_elems m r) = p \<longleftrightarrow> suffix p (range_elems m r)"
    using ok by (simp add: k_def)
  moreover have "\<not> k > range_size r" "range_size r - k = length p" using True by (simp_all add: k_def)
  ultimately show ?thesis using True ok
    by (simp add: range_endsWith_def range_subpiece_def clamp_def range_eq_iff k_def [symmetric])
next
  case False
  then show ?thesis using ok suffix_length_le [of p "range_elems m r"] by (auto simp: range_endsWith_def)
qed

section \<open>Refinement of lists\<close>

text \<open>
  The members that move the ends of a range, with what they return: nothing, a truth value, or a piece.
  \<open>subpiece\<close> is followed by the assignment of its result.
\<close>

datatype range_op =
    Op_advance nat
  | Op_subtract nat
  | Op_subpiece nat "nat option"
  | Op_pop_front
  | Op_pop_back
  | Op_removePrefix "u8 list"
  | Op_removePrefix_c u8
  | Op_removeSuffix "u8 list"
  | Op_removeSuffix_c u8
  | Op_split_step "u8 list"
  | Op_split_step_c u8

datatype range_out = No_Out | Flag bool | Piece "u8 list"

fun range_exec :: "u8 list \<Rightarrow> range_op \<Rightarrow> rng \<Rightarrow> (rng \<times> range_out) result" where
  "range_exec m (Op_advance n) r = andthen (range_advance r n) (\<lambda>r. Inr (r, No_Out))"
| "range_exec m (Op_subtract n) r = andthen (range_subtract r n) (\<lambda>r. Inr (r, No_Out))"
| "range_exec m (Op_subpiece first n) r = andthen (range_subpiece r first n) (\<lambda>r. Inr (r, No_Out))"
| "range_exec m Op_pop_front r = andthen (range_pop_front r) (\<lambda>r. Inr (r, No_Out))"
| "range_exec m Op_pop_back r = andthen (range_pop_back r) (\<lambda>r. Inr (r, No_Out))"
| "range_exec m (Op_removePrefix p) r = andthen (range_removePrefix m r p) (\<lambda>(x, r). Inr (r, Flag x))"
| "range_exec m (Op_removePrefix_c c) r = andthen (range_removePrefix_c m r c) (\<lambda>(x, r). Inr (r, Flag x))"
| "range_exec m (Op_removeSuffix p) r = andthen (range_removeSuffix m r p) (\<lambda>(x, r). Inr (r, Flag x))"
| "range_exec m (Op_removeSuffix_c c) r = andthen (range_removeSuffix_c m r c) (\<lambda>(x, r). Inr (r, Flag x))"
| "range_exec m (Op_split_step d) r = andthen (range_split_step m r d) (\<lambda>(p, r). Inr (r, Piece (range_elems m p)))"
| "range_exec m (Op_split_step_c c) r = (case range_split_step_c m r c of (p, r) \<Rightarrow> Inr (r, Piece (range_elems m p)))"

text \<open>The same operations on lists.\<close>

fun list_exec :: "range_op \<Rightarrow> u8 list \<Rightarrow> (u8 list \<times> range_out) result" where
  "list_exec (Op_advance n) xs = (if n > length xs then Inl Out_Of_Range else Inr (drop n xs, No_Out))"
| "list_exec (Op_subtract n) xs =
     (if n > length xs then Inl Out_Of_Range else Inr (take (length xs - n) xs, No_Out))"
| "list_exec (Op_subpiece first n) xs =
     (if first > length xs then Inl Out_Of_Range
      else Inr (case n of None \<Rightarrow> drop first xs | Some n \<Rightarrow> take n (drop first xs), No_Out))"
| "list_exec Op_pop_front xs = (if xs = [] then Inl Undefined_Behaviour else Inr (tl xs, No_Out))"
| "list_exec Op_pop_back xs = (if xs = [] then Inl Undefined_Behaviour else Inr (butlast xs, No_Out))"
| "list_exec (Op_removePrefix p) xs =
     Inr (if prefix p xs then (drop (length p) xs, Flag True) else (xs, Flag False))"
| "list_exec (Op_removePrefix_c c) xs =
     Inr (if prefix [c] xs then (tl xs, Flag True) else (xs, Flag False))"
| "list_exec (Op_removeSuffix p) xs =
     Inr (if suffix p xs then (take (length xs - length p) xs, Flag True) else (xs, Flag False))"
| "list_exec (Op_removeSuffix_c c) xs =
     Inr (if suffix [c] xs then (butlast xs, Flag True) else (xs, Flag False))"
| "list_exec (Op_split_step d) xs =
     Inr (case first_match (=) xs d of None \<Rightarrow> ([], Piece xs) | Some i \<Rightarrow> (drop (i + length d) xs, Piece (take i xs)))"
| "list_exec (Op_split_step_c c) xs = Inr (drop (Suc (length (takeWhile (\<lambda>x. x \<noteq> c) xs))) xs, Piece (takeWhile (\<lambda>x. x \<noteq> c) xs))"

fun range_run :: "u8 list \<Rightarrow> range_op list \<Rightarrow> rng \<Rightarrow> (rng \<times> range_out list) result" where
  "range_run m [] r = Inr (r, [])"
| "range_run m (op # ops) r =
     andthen (range_exec m op r) (\<lambda>(r, x). andthen (range_run m ops r) (\<lambda>(r, xs). Inr (r, x # xs)))"

fun list_run :: "range_op list \<Rightarrow> u8 list \<Rightarrow> (u8 list \<times> range_out list) result" where
  "list_run [] xs = Inr (xs, [])"
| "list_run (op # ops) xs =
     andthen (list_exec op xs) (\<lambda>(xs, y). andthen (list_run ops xs) (\<lambda>(xs, ys). Inr (xs, y # ys)))"

text \<open>One operation: the same outcome on the elements, and a range inside the old one.\<close>

definition range_refines ::
  "u8 list \<Rightarrow> rng \<Rightarrow> (rng \<times> 'o) result \<Rightarrow> (u8 list \<times> 'o) result \<Rightarrow> bool" where
  "range_refines m r res spec =
     (case res of
        Inl e \<Rightarrow> spec = Inl e
      | Inr (s, x) \<Rightarrow> rng_b r \<le> rng_b s \<and> rng_b s \<le> rng_e s \<and> rng_e s \<le> rng_e r \<and> spec = Inr (range_elems m s, x))"

lemma range_refinesI:
  assumes "range_ok m r" "k + n \<le> range_size r" "rng_b s = rng_b r + k" "rng_e s = rng_b r + k + n"
    and "xs = take n (drop k (range_elems m r))"
  shows "range_refines m r (Inr (s, x)) (Inr (xs, x))"
proof -
  have "s = range_ptr_size (rng_b r + k) n" using assms(3,4) by (simp add: range_ptr_size_def)
  then have "range_elems m s = take n (drop k (range_elems m r))" using narrow_ptr(1) [OF assms(1,2)] by simp
  then show ?thesis using assms by (auto simp: range_refines_def range_ok_def range_size_def)
qed

lemma takeWhile_find:
  "(case qfind_char xs c of None \<Rightarrow> length xs | Some k \<Rightarrow> k) = length (takeWhile (\<lambda>x. x \<noteq> c) xs)"
proof (cases "qfind_char xs c")
  case None
  then have "\<forall>x\<in>set xs. x \<noteq> c" by (auto simp: qfind_char_def find_upt_None_iff in_set_conv_nth)
  then have "takeWhile (\<lambda>x. x \<noteq> c) xs = xs" by (simp only: takeWhile_eq_all_conv)
  then show ?thesis using None by (simp only: option.case)
next
  case (Some k)
  then have k: "k < length xs" "xs ! k = c" "\<forall>j<k. xs ! j \<noteq> c" by (auto simp: qfind_char_def find_upt_Some_iff)
  then have "takeWhile (\<lambda>x. x \<noteq> c) xs = take k xs" by (intro takeWhile_eq_take_P_nth) auto
  then show ?thesis using k by (simp add: Some)
qed

lemma range_refines_Inl: "range_refines m r (Inl e) (Inl e)"
  by (simp add: range_refines_def)

lemma range_refines_same: "range_ok m r \<Longrightarrow> range_refines m r (Inr (r, x)) (Inr (range_elems m r, x))"
  by (simp add: range_refines_def range_ok_def)

text \<open>Dropping \<open>k\<close> elements at the front or at the back.\<close>

lemma range_refines_front:
  assumes ok: "range_ok m r" and k: "k \<le> range_size r"
  shows "range_refines m r (Inr (r\<lparr>rng_b := rng_b r + k\<rparr>, x)) (Inr (drop k (range_elems m r), x))"
  by (rule range_refinesI [OF ok, of k "range_size r - k"])
    (use assms in \<open>auto simp: range_ok_def range_size_def length_range_elems [OF ok]\<close>)

lemma range_refines_back:
  assumes ok: "range_ok m r" and k: "k \<le> range_size r"
  shows "range_refines m r (Inr (r\<lparr>rng_e := rng_e r - k\<rparr>, x)) (Inr (take (range_size r - k) (range_elems m r), x))"
  by (rule range_refinesI [OF ok, of 0 "range_size r - k"])
    (use assms in \<open>auto simp: range_ok_def range_size_def\<close>)

lemma range_nonempty: "range_ok m r \<Longrightarrow> \<not> range_empty r \<longleftrightarrow> range_elems m r \<noteq> []"
  "range_ok m r \<Longrightarrow> rng_b r < rng_e r \<longleftrightarrow> range_elems m r \<noteq> []"
  "range_ok m r \<Longrightarrow> range_elems m r \<noteq> [] \<Longrightarrow> 1 \<le> range_size r"
  by (auto simp: range_empty_def range_ok_def range_elems_def range_size_def)

lemma prefix_one: "prefix [c] xs \<longleftrightarrow> xs \<noteq> [] \<and> hd xs = c" "suffix [c] xs \<longleftrightarrow> xs \<noteq> [] \<and> last xs = c"
proof -
  show "prefix [c] xs \<longleftrightarrow> xs \<noteq> [] \<and> hd xs = c" by (cases xs) auto
  show "suffix [c] xs \<longleftrightarrow> xs \<noteq> [] \<and> last xs = c"
    by (cases xs rule: rev_cases) (auto simp: suffix_def)
qed

lemma range_split_step_refines:
  assumes ok: "range_ok m r"
  shows "range_refines m r (range_exec m (Op_split_step d) r) (list_exec (Op_split_step d) (range_elems m r))"
proof -
  let ?xs = "range_elems m r"
  have find: "range_find m r d = Inr (first_match (=) ?xs d)"
    by (simp add: range_find_def exact.qfind_first_match)
  have len: "length ?xs = rng_e r - rng_b r" "rng_b r \<le> rng_e r" using ok by (simp_all add: range_size_def range_ok_def)
  show ?thesis
  proof (cases "first_match (=) ?xs d")
    case None
    have "range_elems m (range_ptr_size (rng_b r) (range_size r)) = ?xs"
      using narrow_ptr(1) [OF ok, of 0 "range_size r"] ok by simp
    moreover have "rng_e (range_ptr_size (rng_b r) (range_size r)) = rng_e r"
      using len by (simp add: range_ptr_size_def range_size_def)
    moreover have "range_refines m r (Inr (r\<lparr>rng_b := rng_b r + range_size r\<rparr>, Piece ?xs)) (Inr (drop (range_size r) ?xs, Piece ?xs))"
      by (rule range_refines_front [OF ok order_refl])
    moreover have "rng_b r + range_size r = rng_e r" using len by (simp add: range_size_def)
    ultimately show ?thesis using ok by (simp add: range_split_step_def find None Let_def)
  next
    case (Some i)
    then have match: "i + length d \<le> range_size r"
      using ok by (simp add: first_match_Some_iff Folly_Range_Search.match_at_def)
    have piece: "range_elems m (range_ptr_size (rng_b r) i) = take i ?xs"
      using narrow_ptr(1) [OF ok, of 0 i] match by simp
    have rest: "(if rng_b r + i = rng_e r then rng_e r else rng_b r + i + length d) = rng_b r + (i + length d)"
      using match len by (auto simp: range_size_def)
    have "range_refines m r (Inr (r\<lparr>rng_b := rng_b r + (i + length d)\<rparr>, Piece (take i ?xs)))
        (Inr (drop (i + length d) ?xs, Piece (take i ?xs)))"
      by (rule range_refines_front [OF ok match])
    moreover have "rng_e (range_ptr_size (rng_b r) i) = rng_b r + i" by (simp add: range_ptr_size_def)
    then have "range_exec m (Op_split_step d) r =
        Inr (r\<lparr>rng_b := rng_b r + (i + length d)\<rparr>, Piece (take i ?xs))"
      by (simp only: range_exec.simps range_split_step_def find Some andthen_Inr Let_def option.case prod.case piece rest)
    ultimately show ?thesis by (simp add: Some)
  qed
qed

lemma range_split_step_c_refines:
  assumes ok: "range_ok m r"
  shows "range_refines m r (range_exec m (Op_split_step_c c) r) (list_exec (Op_split_step_c c) (range_elems m r))"
proof -
  let ?xs = "range_elems m r"
  let ?t = "takeWhile (\<lambda>x. x \<noteq> c) ?xs"
  have len: "length ?xs = rng_e r - rng_b r" "rng_b r \<le> rng_e r" using ok by (simp_all add: range_size_def range_ok_def)
  have t: "length ?t \<le> length ?xs" by (rule length_takeWhile_le)
  define i where "i = (case qfind_char ?xs c of None \<Rightarrow> rng_e r | Some k \<Rightarrow> rng_b r + k)"
  have i: "i = rng_b r + length ?t"
    using len takeWhile_find [of ?xs c] by (auto simp: i_def split: option.splits)
  have piece: "range_elems m (range_ptrs (rng_b r) i) = ?t"
    using narrow_ptr(1) [OF ok, of 0 "length ?t"] t ok i
    by (simp add: range_ptrs_def range_ptr_size_def takeWhile_eq_take [symmetric])
  have exec: "range_exec m (Op_split_step_c c) r =
      Inr (r\<lparr>rng_b := (if i = rng_e r then rng_e r else i + 1)\<rparr>, Piece ?t)"
    using piece by (simp add: range_split_step_c_def i_def [symmetric] Let_def)
  show ?thesis
  proof (cases "length ?t = length ?xs")
    case True
    then have "(if i = rng_e r then rng_e r else i + 1) = rng_b r + range_size r"
      using len i by (simp add: range_size_def)
    moreover have "drop (Suc (length ?t)) ?xs = drop (range_size r) ?xs"
      using True ok by (metis drop_all le_SucI length_range_elems order_refl)
    ultimately show ?thesis
      unfolding exec using range_refines_front [OF ok order_refl, of "Piece ?t"] by simp
  next
    case False
    then have "(if i = rng_e r then rng_e r else i + 1) = rng_b r + Suc (length ?t)"
      using len i t by (auto simp: le_less)
    moreover have "Suc (length ?t) \<le> range_size r" using False t ok by simp
    ultimately show ?thesis
      unfolding exec using range_refines_front [OF ok, of "Suc (length ?t)" "Piece ?t"] by simp
  qed
qed

lemma range_exec_refines:
  assumes ok: "range_ok m r"
  shows "range_refines m r (range_exec m op r) (list_exec op (range_elems m r))"
proof (cases op)
  case (Op_subpiece first n)
  show ?thesis
  proof (cases "first \<le> range_size r")
    case True
    have "range_refines m r (Inr (range_ptr_size (rng_b r + first) (clamp n (range_size r - first)), No_Out))
        (Inr (take (clamp n (range_size r - first)) (drop first (range_elems m r)), No_Out))"
      by (rule range_refinesI [OF ok, of first "clamp n (range_size r - first)"])
        (use True in \<open>auto simp: range_ptr_size_def clamp_def split: option.splits\<close>)
    moreover have "take (clamp n (range_size r - first)) (drop first (range_elems m r)) =
        (case n of None \<Rightarrow> drop first (range_elems m r) | Some n \<Rightarrow> take n (drop first (range_elems m r)))"
      using ok by (auto simp: clamp_def min_def split: option.splits)
    ultimately show ?thesis using True ok Op_subpiece by (simp add: range_subpiece_def)
  qed (use ok Op_subpiece in \<open>simp add: range_subpiece_def range_refines_Inl\<close>)
next
  case (Op_removePrefix p)
  then show ?thesis using ok range_refines_front [OF ok, of "length p" "Flag True"] range_refines_same [OF ok, of "Flag False"]
    prefix_length_le [of p "range_elems m r"]
    by (auto simp: range_removePrefix_def range_startsWith_iff)
next
  case (Op_removePrefix_c c)
  then show ?thesis using ok range_nonempty(3) [OF ok] range_refines_front [OF ok, of 1 "Flag True"] range_refines_same [OF ok, of "Flag False"]
    by (auto simp: range_removePrefix_c_def range_startsWith_c_def range_front_hd range_nonempty prefix_one drop_Suc)
next
  case (Op_removeSuffix p)
  then show ?thesis using ok range_refines_back [OF ok, of "length p" "Flag True"] range_refines_same [OF ok, of "Flag False"]
    suffix_length_le [of p "range_elems m r"]
    by (auto simp: range_removeSuffix_def range_endsWith_iff)
next
  case (Op_removeSuffix_c c)
  then show ?thesis using ok range_nonempty(3) [OF ok] range_refines_back [OF ok, of 1 "Flag True"] range_refines_same [OF ok, of "Flag False"]
    by (auto simp: range_removeSuffix_c_def range_endsWith_c_def range_back_last range_nonempty prefix_one butlast_conv_take)
next
  case Op_pop_front
  then show ?thesis using ok range_nonempty(3) [OF ok] range_refines_front [OF ok, of 1 No_Out]
    by (auto simp: range_pop_front_def range_nonempty range_refines_Inl drop_Suc)
next
  case Op_pop_back
  then show ?thesis using ok range_nonempty(3) [OF ok] range_refines_back [OF ok, of 1 No_Out]
    by (auto simp: range_pop_back_def range_nonempty range_refines_Inl butlast_conv_take)
next
  case (Op_advance n)
  then show ?thesis using ok range_refines_front [OF ok, of n No_Out] by (simp add: range_advance_def range_refines_Inl)
next
  case (Op_subtract n)
  then show ?thesis using ok range_refines_back [OF ok, of n No_Out] by (simp add: range_subtract_def range_refines_Inl)
next
  case (Op_split_step d)
  then show ?thesis using range_split_step_refines [OF ok] by simp
next
  case (Op_split_step_c c)
  then show ?thesis using range_split_step_c_refines [OF ok] by simp
qed

section \<open>Replacement\<close>

lemma append_take_drop: "b \<le> e \<Longrightarrow> take b m @ take (e - b) (drop b m) @ drop e m = m"
  by (metis append_take_drop_id drop_drop le_add_diff_inverse2)

text \<open>What \<open>replaceAt\<close> writes if the sum of its arguments does not wrap around.\<close>

lemma range_replaceAt_fits:
  assumes ok: "range_ok m r" and fits: "pos + length repl \<le> range_size r" "range_size r < 2 ^ 64"
  shows "\<exists>m'. range_replaceAt m r pos repl = Inr (True, m') \<and> length m' = length m \<and>
    take (rng_b r) m' = take (rng_b r) m \<and> drop (rng_e r) m' = drop (rng_e r) m \<and>
    range_elems m' r = take pos (range_elems m r) @ repl @ drop (pos + length repl) (range_elems m r)"
proof -
  define b e where "b = rng_b r" and "e = rng_e r"
  have be: "b \<le> e" "e \<le> length m" "range_size r = e - b" using ok by (auto simp: range_ok_def b_def e_def range_size_def)
  define xs where "xs = range_elems m r"
  obtain us ws where m: "m = us @ xs @ ws" "length us = b" "length xs = e - b"
    using be by (intro that [of "take b m" "drop e m"])
      (simp_all add: xs_def range_elems_def b_def [symmetric] e_def [symmetric] append_take_drop [symmetric])
  define ys where "ys = take pos xs @ repl @ drop (pos + length repl) xs"
  have ys: "length ys = length xs" using fits be m(3) by (simp add: ys_def)
  have "range_replaceAt m r pos repl = Inr (True, us @ ys @ ws)"
    using fits be m by (simp add: range_replaceAt_def b_def [symmetric] ys_def)
  moreover have "length (us @ ys @ ws) = length m" "take b (us @ ys @ ws) = take b m" "drop e (us @ ys @ ws) = drop e m"
    using m be ys by simp_all
  moreover have "range_elems (us @ ys @ ws) r = ys"
    using m be ys by (simp add: range_elems_def b_def [symmetric] e_def [symmetric])
  ultimately show ?thesis unfolding b_def e_def ys_def xs_def by blast
qed

text \<open>The search from a position on.\<close>

lemma range_find_pos_Inr:
  assumes ok: "range_ok m r"
  shows "range_find_pos m r d pos =
    Inr (if pos > range_size r then None else map_option (\<lambda>i. i + pos) (first_match (=) (drop pos (range_elems m r)) d))"
proof (cases "pos \<le> range_size r")
  case True
  then have "range_elems m (range_ptr_size (rng_b r + pos) (range_size r - pos)) = drop pos (range_elems m r)"
    using narrow_ptr(1) [OF ok, of pos "range_size r - pos"] ok by simp
  then show ?thesis using True
    by (simp add: range_find_pos_def range_subpiece_def clamp_def exact.qfind_first_match)
qed (simp add: range_find_pos_def)

lemma first_match_drop:
  assumes "first_match (=) (drop pos xs) d = Some i" "pos \<le> length xs"
  shows "pos + i + length d \<le> length xs"
proof -
  have m: "Folly_Range_Search.match_at (=) (drop pos xs) d i" using assms(1) by (simp add: first_match_Some_iff)
  then have "i + length d \<le> length (drop pos xs)" unfolding Folly_Range_Search.match_at_def by blast
  then show "pos + i + length d \<le> length xs" using assms(2) unfolding length_drop by linarith
qed

text \<open>Writing inside the range: the memory around it stays.\<close>

lemma range_replaceAt_inside:
  assumes ok: "range_ok m r" and fits: "pos + length repl \<le> range_size r" "range_size r < 2 ^ 64"
  shows "range_replaceAt m r pos repl =
    Inr (True, take (rng_b r) m @ (take pos (range_elems m r) @ repl @ drop (pos + length repl) (range_elems m r)) @ drop (rng_e r) m)"
proof -
  obtain m' where m': "range_replaceAt m r pos repl = Inr (True, m')" "length m' = length m"
    "take (rng_b r) m' = take (rng_b r) m" "drop (rng_e r) m' = drop (rng_e r) m"
    "range_elems m' r = take pos (range_elems m r) @ repl @ drop (pos + length repl) (range_elems m r)"
    using range_replaceAt_fits [OF assms] by blast
  have "m' = take (rng_b r) m' @ range_elems m' r @ drop (rng_e r) m'"
    using ok by (simp add: range_ok_def range_elems_def append_take_drop)
  then show ?thesis using m' by simp
qed

lemma put_back:
  assumes "range_ok m r" "length ys = range_size r"
  shows "range_ok (take (rng_b r) m @ ys @ drop (rng_e r) m) r"
    "range_elems (take (rng_b r) m @ ys @ drop (rng_e r) m) r = ys"
    "take (rng_b r) (take (rng_b r) m @ ys @ drop (rng_e r) m) = take (rng_b r) m"
    "drop (rng_e r) (take (rng_b r) m @ ys @ drop (rng_e r) m) = drop (rng_e r) m"
  using assms by (simp_all add: range_ok_def range_size_def range_elems_def)

lemma put_same: "range_ok m r \<Longrightarrow> take (rng_b r) m @ range_elems m r @ drop (rng_e r) m = m"
  by (simp add: range_ok_def range_elems_def append_take_drop)

lemma andthen_weak_cong: "m = m' \<Longrightarrow> andthen m f = andthen m' f"
  by simp

lemma match_at_code:
  "Folly_Range_Search.match_at eq h n i \<longleftrightarrow> i + length n \<le> length h \<and> list_all2 eq (take (length n) (drop i h)) n"
  by (auto simp: Folly_Range_Search.match_at_def list_all2_conv_all_nth)

text \<open>
  The position advances by the length of the source from its old value and not from the occurrence
  found. An occurrence behind it is found and counted again, and a replacement can complete another
  occurrence across its start: \<open>"xxxaab"\<close> becomes \<open>"xxxbaa"\<close> with two replacements, where replacing
  the only occurrence of \<open>"ab"\<close> gives \<open>"xxxaba"\<close>, and the one \<open>'a'\<close> of \<open>"bba"\<close> counts three times.
\<close>

lemma replaceAll_rescans:
  "range_replaceAll [0x78, 0x78, 0x78, 0x61, 0x61, 0x62 :: u8] \<lparr>rng_b = 0, rng_e = 6\<rparr> [0x61, 0x62] [0x62, 0x61] =
     Inr (2, [0x78, 0x78, 0x78, 0x62, 0x61, 0x61])"
  "range_replaceAll [0x62, 0x62, 0x61 :: u8] \<lparr>rng_b = 0, rng_e = 3\<rparr> [0x61] [0x61] = Inr (3, [0x62, 0x62, 0x61])"
  by (simp_all add: range_replaceAll_def range_replaceAll_loop.simps range_find_pos_Inr range_ok_def range_size_def
      range_elems_def range_replaceAt_def first_match_def match_at_code upt_rec cong: andthen_weak_cong)

text \<open>
  What the code does on lists: search the whole text from \<open>pos\<close> on, overwrite the occurrence, advance
  \<open>pos\<close> by the length of the source. And what its comment promises: go over the text once, replacing
  each occurrence and going on behind it.
\<close>

definition occurs_at :: "'a list \<Rightarrow> 'a list \<Rightarrow> nat \<Rightarrow> bool" where
  "occurs_at source xs i \<longleftrightarrow> take (length source) (drop i xs) = source"

function replace_from :: "'a list \<Rightarrow> 'a list \<Rightarrow> nat \<Rightarrow> 'a list \<Rightarrow> nat \<times> 'a list" where
  "replace_from source dest pos xs =
     (if source = [] \<or> length source \<noteq> length dest then (0, xs)
      else case find (occurs_at source xs) [pos..<length xs] of
        None \<Rightarrow> (0, xs)
      | Some i \<Rightarrow>
          map_prod Suc id (replace_from source dest (pos + length source) (take i xs @ dest @ drop (i + length source) xs)))"
  by pat_completeness auto
termination
proof (relation "measure (\<lambda>(source, dest, pos, xs). length xs + length source - pos)")
  fix source dest xs :: "'a list" and pos i
  assume a: "\<not> (source = [] \<or> length source \<noteq> length dest)" "find (occurs_at source xs) [pos..<length xs] = Some i"
  then have i: "pos \<le> i" "i < length xs" "occurs_at source xs i" by (auto simp: find_Some_iff)
  then have "length (take (length source) (drop i xs)) = length source" by (simp add: occurs_at_def)
  then have "i + length source \<le> length xs" using i(2) by simp
  then show "((source, dest, pos + length source, take i xs @ dest @ drop (i + length source) xs), source, dest, pos, xs)
      \<in> measure (\<lambda>(source, dest, pos, xs). length xs + length source - pos)"
    using a(1) i by (cases source) auto
qed simp

declare replace_from.simps [simp del]

function replace_each :: "'a list \<Rightarrow> 'a list \<Rightarrow> 'a list \<Rightarrow> nat \<times> 'a list" where
  "replace_each source dest xs =
     (if source = [] \<or> xs = [] then (0, xs)
      else if occurs_at source xs 0 then map_prod Suc ((@) dest) (replace_each source dest (drop (length source) xs))
      else map_prod id ((#) (hd xs)) (replace_each source dest (tl xs)))"
  by pat_completeness auto
termination by (relation "measure (\<lambda>(source, dest, xs). length xs)") auto

declare replace_each.simps [simp del]

lemma occurs_at_bound: "occurs_at source xs i \<Longrightarrow> source \<noteq> [] \<Longrightarrow> i + length source \<le> length xs"
  by (rule ccontr) (auto simp: occurs_at_def dest: arg_cong [of _ _ length])

lemma occurs_at_match: "occurs_at source xs i \<and> i + length source \<le> length xs \<longleftrightarrow> Folly_Range_Search.match_at (=) xs source i"
  by (auto simp: occurs_at_def match_at_code list_all2_eq [symmetric])

text \<open>The search of the code finds the position \<open>find\<close> finds.\<close>

lemma range_find_pos_occurs:
  assumes ok: "range_ok m r" and src: "source \<noteq> []"
  shows "range_find_pos m r source pos = Inr (find (occurs_at source (range_elems m r)) [pos..<range_size r])"
proof -
  let ?xs = "range_elems m r"
  have len: "length ?xs = range_size r" using ok by (auto simp: range_elems_def range_size_def range_ok_def)
  have shift: "Folly_Range_Search.match_at (=) (drop pos ?xs) source i \<longleftrightarrow> occurs_at source ?xs (pos + i)"
    if "pos \<le> range_size r" for i
    using occurs_at_bound [OF _ src, of ?xs "pos + i"] that len
    by (auto simp: occurs_at_match [symmetric] occurs_at_def add.commute)
  have "(if pos > range_size r then None else map_option (\<lambda>i. i + pos) (first_match (=) (drop pos ?xs) source)) =
      find (occurs_at source ?xs) [pos..<range_size r]"
  proof (cases "pos \<le> range_size r \<and> first_match (=) (drop pos ?xs) source \<noteq> None")
    case True
    then obtain i where i: "first_match (=) (drop pos ?xs) source = Some i" by blast
    have pos: "pos \<le> range_size r" using True ..
    have at: "occurs_at source ?xs (pos + i)" "\<forall>j<i. \<not> occurs_at source ?xs (pos + j)"
      using i shift [OF pos] by (auto simp: first_match_Some_iff)
    have "pos + i < range_size r" using occurs_at_bound [OF at(1) src] len src by (cases source) auto
    then have "find (occurs_at source ?xs) [pos..<range_size r] = Some (pos + i)"
      using at by (auto simp: find_Some_iff intro!: exI [of _ i])
    then show ?thesis using pos i by (simp add: add.commute)
  next
    case False
    have "\<not> occurs_at source ?xs j" if "j \<in> set [pos..<range_size r]" for j
      using False that shift [of "j - pos"] by (auto simp: first_match_None_iff)
    then have "find (occurs_at source ?xs) [pos..<range_size r] = None" by (simp add: find_None_iff)
    then show ?thesis using False by auto
  qed
  then show ?thesis unfolding range_find_pos_Inr [OF ok] by simp
qed

lemma replaceAll_loop_from:
  "length source = length dest \<Longrightarrow> source \<noteq> [] \<Longrightarrow> range_size r < 2 ^ 64 \<Longrightarrow> range_ok m r \<Longrightarrow>
    range_replaceAll_loop m r source dest pos num =
      (case replace_from source dest pos (range_elems m r) of
        (n, ys) \<Rightarrow> Inr (num + n, take (rng_b r) m @ ys @ drop (rng_e r) m)) \<and>
    length (snd (replace_from source dest pos (range_elems m r))) = range_size r"
proof (induction source dest pos "range_elems m r" arbitrary: m num rule: replace_from.induct)
  case (1 source dest pos m num)
  let ?xs = "range_elems m r" and ?k = "length source"
  note ok = "1.prems"(4)
  have len: "length ?xs = range_size r" using ok by (auto simp: range_elems_def range_size_def range_ok_def)
  show ?case
  proof (cases "find (occurs_at source ?xs) [pos..<length ?xs]")
    case None
    then have "replace_from source dest pos ?xs = (0, ?xs)" by (subst replace_from.simps) simp
    moreover have "range_replaceAll_loop m r source dest pos num = Inr (num, m)"
      using None "1.prems"(2) len by (subst range_replaceAll_loop.simps) (simp add: range_find_pos_occurs [OF ok])
    ultimately show ?thesis using put_same [OF ok] len by simp
  next
    case (Some i)
    define ys where "ys = take i ?xs @ dest @ drop (i + ?k) ?xs"
    define m' where "m' = take (rng_b r) m @ ys @ drop (rng_e r) m"
    have i: "i + ?k \<le> range_size r"
      using Some occurs_at_bound [of source ?xs i] "1.prems"(2) len by (auto simp: find_Some_iff)
    have ys: "length ys = range_size r" using i len "1.prems"(1) by (simp add: ys_def)
    note put = put_back [OF ok ys, folded m'_def]
    have step: "range_replaceAll_loop m r source dest pos num = range_replaceAll_loop m' r source dest (pos + ?k) (num + 1)"
      using Some "1.prems" i len range_replaceAt_inside [OF ok, of i dest]
      by (subst range_replaceAll_loop.simps) (simp add: range_find_pos_occurs [OF ok] m'_def ys_def)
    have from_step: "replace_from source dest pos ?xs = map_prod Suc id (replace_from source dest (pos + ?k) ys)"
      using Some "1.prems"(1,2) by (subst replace_from.simps) (simp add: ys_def)
    have "\<not> (source = [] \<or> ?k \<noteq> length dest)" using "1.prems"(1,2) by simp
    from "1.hyps" [OF this Some, folded ys_def, OF put(2) [symmetric] "1.prems"(1-3) put(1), of "num + 1"]
    show ?thesis unfolding step from_step put by (auto split: prod.splits)
  qed
qed

text \<open>If source and destination share no element, no occurrence overlaps a text that was written.\<close>

lemma occurs_at_set:
  assumes "occurs_at source xs i" "i \<le> j" "j < i + length source" "j < length xs"
  shows "xs ! j \<in> set source"
proof -
  have "take (length source) (drop i xs) ! (j - i) = xs ! j" using assms(2-4) by simp
  then have "xs ! j = source ! (j - i)" using assms(1) by (simp add: occurs_at_def)
  moreover have "j - i < length source" using assms(2,3) by simp
  ultimately show ?thesis by simp
qed

lemma occurs_at_append: "occurs_at source (us @ vs) (length us + i) \<longleftrightarrow> occurs_at source vs i"
  by (simp add: occurs_at_def)

lemma occurs_at_take:
  assumes "i + length source \<le> f"
  shows "occurs_at source (take f xs @ zs) i \<Longrightarrow> f \<le> length xs \<Longrightarrow> occurs_at source xs i"
  using assms by (simp add: occurs_at_def take_drop min_def)

lemma replace_each_none: "source \<noteq> [] \<Longrightarrow> (\<And>i. i < length xs \<Longrightarrow> \<not> occurs_at source xs i) \<Longrightarrow> replace_each source dest xs = (0, xs)"
proof (induction xs)
  case (Cons x xs)
  have "\<not> occurs_at source xs i" if "i < length xs" for i
    using Cons.prems(2) [of "Suc i"] that by (simp add: occurs_at_def)
  with Cons.IH Cons.prems show ?case by (subst replace_each.simps) simp
qed (simp add: replace_each.simps)

lemma replace_each_some:
  "source \<noteq> [] \<Longrightarrow> j < length xs \<Longrightarrow> occurs_at source xs j \<Longrightarrow> (\<And>i. i < j \<Longrightarrow> \<not> occurs_at source xs i) \<Longrightarrow>
    replace_each source dest xs = map_prod Suc (\<lambda>ys. take j xs @ dest @ ys) (replace_each source dest (drop (j + length source) xs))"
proof (induction j arbitrary: xs)
  case 0
  then show ?case by (subst replace_each.simps) (auto simp: map_prod_def split: prod.splits)
next
  case (Suc j)
  then obtain x xs' where xs: "xs = x # xs'" by (cases xs) auto
  have "\<not> occurs_at source xs' i" if "i < j" for i
    using Suc.prems(4) [of "Suc i"] that by (simp add: occurs_at_def xs)
  with Suc.IH [of xs'] Suc.prems(1-3)
  have "replace_each source dest xs' = map_prod Suc (\<lambda>ys. take j xs' @ dest @ ys) (replace_each source dest (drop (j + length source) xs'))"
    by (simp add: xs occurs_at_def)
  moreover have "\<not> occurs_at source xs 0" using Suc.prems(4) [of 0] by simp
  ultimately show ?case using Suc.prems(1) unfolding xs
    by (subst replace_each.simps) (simp add: prod.map_comp comp_def)
qed

lemma find_from_Some:
  assumes "find P [p..<n] = Some i"
  shows "p \<le> i" "i < n" "P i" "\<And>j. p \<le> j \<Longrightarrow> j < i \<Longrightarrow> \<not> P j"
proof -
  obtain k where k: "k < n - p" "P (p + k)" "i = p + k" "\<And>j. j < k \<Longrightarrow> \<not> P (p + j)"
    using assms by (auto simp: find_Some_iff)
  then show "p \<le> i" "i < n" "P i" by simp_all
  show "\<not> P j" if "p \<le> j" "j < i" for j
    using k(3) k(4) [of "j - p"] that by simp
qed

lemma replace_from_each:
  assumes src: "source \<noteq> []" "length source = length dest" and disjoint: "set source \<inter> set dest = {}"
  shows "pos \<le> length us \<Longrightarrow> (\<And>i. pos \<le> i \<Longrightarrow> i < length us \<Longrightarrow> \<not> occurs_at source (us @ vs) i) \<Longrightarrow>
    replace_from source dest pos (us @ vs) = map_prod id ((@) us) (replace_each source dest vs)"
proof (induction "length vs" arbitrary: us vs pos rule: less_induct)
  case less
  let ?k = "length source"
  have k: "0 < ?k" using src(1) by simp
  show ?case
  proof (cases "find (occurs_at source (us @ vs)) [pos..<length (us @ vs)]")
    case None
    then have "\<not> occurs_at source vs i" if "i < length vs" for i
      using that less.prems(1) occurs_at_append [of source us vs i] by (auto simp: find_None_iff)
    then show ?thesis using None by (subst replace_from.simps) (simp add: replace_each_none [OF src(1)])
  next
    case (Some f)
    note f = find_from_Some [OF Some]
    note before = f(4)
    have "length us \<le> f" using less.prems(2) [OF f(1)] f(3) by (rule_tac ccontr) simp
    then obtain j where j: "f = length us + j" using le_Suc_ex by blast
    have at: "occurs_at source vs j" "j < length vs" using f by (simp_all add: j occurs_at_append)
    have bound: "j + ?k \<le> length vs" using occurs_at_bound [OF at(1) src(1)] .
    define us' vs' where "us' = us @ take j vs @ dest" and "vs' = drop (j + ?k) vs"
    have new: "take f (us @ vs) @ dest @ drop (f + ?k) (us @ vs) = us' @ vs'"
      by (simp add: j us'_def vs'_def)
    have len: "length us' = f + ?k" using at(2) src(2) by (simp add: us'_def j)
    have "\<not> occurs_at source (us' @ vs') i" if i: "pos + ?k \<le> i" "i < length us'" for i
    proof
      assume occ: "occurs_at source (us' @ vs') i"
      show False
      proof (cases "i + ?k \<le> f")
        case True
        from occurs_at_take [OF True, of "us @ vs" "dest @ drop (f + ?k) (us @ vs)"] occ
        have "occurs_at source (us @ vs) i" using new f(2) by simp
        then show False using before [of i] i(1) True k by simp
      next
        case False
        define q where "q = max i f"
        have q: "i \<le> q" "q < i + ?k" "f \<le> q" "q < f + ?k" "q < length us'"
          using False i(2) k by (auto simp: q_def len)
        have "(us' @ vs') ! q \<in> set source" by (rule occurs_at_set [OF occ q(1,2)]) (use q(5) in simp)
        moreover have q_dest: "q - f < length dest" using q(3,4) src(2) by linarith
        have "length (us @ take j vs) = f" using at(2) by (simp add: j)
        then have "((us @ take j vs) @ dest @ vs') ! q = dest ! (q - f)"
          using q(3) q_dest by (simp only: nth_append not_less [symmetric] if_False if_True)
        then have "(us' @ vs') ! q = dest ! (q - f)" by (simp add: us'_def)
        ultimately have "(us' @ vs') ! q \<in> set source" "(us' @ vs') ! q \<in> set dest" using q_dest by simp_all
        then show False using disjoint by blast
      qed
    qed
    then have "replace_from source dest (pos + ?k) (us' @ vs') = map_prod id ((@) us') (replace_each source dest vs')"
      by (intro less.hyps) (use f(1) k bound len at(2) in \<open>simp_all add: vs'_def del: length_greater_0_conv\<close>)
    moreover have "replace_each source dest vs = map_prod Suc (\<lambda>ys. take j vs @ dest @ ys) (replace_each source dest vs')"
      unfolding vs'_def
      proof (rule replace_each_some [OF src(1) at(2,1)])
      show "\<not> occurs_at source vs i" if "i < j" for i
        using before [of "length us + i"] that less.prems(1) by (simp add: j occurs_at_append)
    qed
    moreover have "replace_from source dest pos (us @ vs) = map_prod Suc id (replace_from source dest (pos + ?k) (us' @ vs'))"
      unfolding new [symmetric] using Some src by (subst replace_from.simps) (simp del: take_append drop_append)
    ultimately show ?thesis by (simp add: prod.map_comp comp_def us'_def)
  qed
qed

section \<open>Properties\<close>

lemma range_run_refines:
  "range_ok m r \<Longrightarrow> range_refines m r (range_run m ops r) (list_run ops (range_elems m r))"
proof (induction ops arbitrary: r)
  case Nil
  then show ?case by (simp add: range_refines_same)
next
  case (Cons op ops)
  note step = range_exec_refines [OF Cons.prems, of op]
  show ?case
  proof (cases "range_exec m op r")
    case (Inl e)
    then show ?thesis using step by (simp add: range_refines_def)
  next
    case (Inr p)
    then obtain s x where s: "range_exec m op r = Inr (s, x)" by (cases p) auto
    then have inside: "rng_b r \<le> rng_b s" "rng_b s \<le> rng_e s" "rng_e s \<le> rng_e r"
      "list_exec op (range_elems m r) = Inr (range_elems m s, x)"
      using step by (simp_all add: range_refines_def)
    then have "range_refines m s (range_run m ops s) (list_run ops (range_elems m s))"
      using Cons.prems by (intro Cons.IH) (simp add: range_ok_def)
    then show ?thesis using s inside
      by (cases "range_run m ops s") (auto simp: range_refines_def)
  qed
qed

text \<open>
  C19. Every sequence of the members that move the ends of a range, \<open>split_step\<close> included, behaves as the
  same sequence on the list of its elements: it fails with the same error at the same place, or returns
  the same values and a range whose elements are the resulting list. The range never grows.
\<close>

theorem range_ops_refine:
  assumes "range_ok m r"
  shows "case range_run m ops r of
      Inl e \<Rightarrow> list_run ops (range_elems m r) = Inl e
    | Inr (s, outs) \<Rightarrow> range_ok m s \<and> rng_b r \<le> rng_b s \<and> rng_e s \<le> rng_e r \<and>
        list_run ops (range_elems m r) = Inr (range_elems m s, outs)"
  using range_run_refines [OF assms, of ops] assms
  by (auto simp: range_refines_def range_ok_def split: sum.splits prod.splits)

theorem range_ops_refine_witness:
  "list_run [Op_advance 1, Op_split_step_c 5, Op_advance 9] [3, 4, 5, 6 :: u8] = Inl Out_Of_Range \<and>
   range_run [7, 3, 4, 5, 6, 7] [Op_advance 1, Op_split_step_c 5, Op_advance 9] \<lparr>rng_b = 1, rng_e = 5\<rparr> = Inl Out_Of_Range"
proof -
  let ?ops = "[Op_advance 1, Op_split_step_c 5, Op_advance 9]"
  have spec: "list_run ?ops [3, 4, 5, 6 :: u8] = Inl Out_Of_Range" by simp
  have "range_ok [7, 3, 4, 5, 6, 7 :: u8] \<lparr>rng_b = 1, rng_e = 5\<rparr>" by (simp add: range_ok_def)
  from range_ops_refine [OF this, of ?ops] spec show ?thesis
    by (simp add: range_elems_def split: sum.splits prod.splits)
qed

lemma range_query_results:
  assumes ok: "range_ok m r" and small: "range_size r < 2 ^ 63" "length other < 2 ^ 63"
  defines "xs \<equiv> range_elems m r"
  shows "range_startsWith m r other = Inr (prefix other xs)" "range_endsWith m r other = Inr (suffix other xs)"
    "range_contains m r other = Inr (sublist other xs)"
    "range_find_pos m r other pos = Inr (if pos > length xs then None
       else map_option (\<lambda>i. i + pos) (first_match (=) (drop pos xs) other))"
    "range_eq xs other \<longleftrightarrow> xs = other"
    "range_lt xs other \<longleftrightarrow> (xs, other) \<in> lexord {(a, b). a < b}"
    "range_gt xs other \<longleftrightarrow> range_lt other xs" "range_le xs other \<longleftrightarrow> \<not> range_gt xs other"
    "range_ge xs other \<longleftrightarrow> \<not> range_lt xs other" "range_ne xs other \<longleftrightarrow> \<not> range_eq xs other"
proof -
  have len: "length xs < 2 ^ 63" using ok small by (simp add: xs_def)
  note compare = range_compare_spec [OF len small(2)] range_compare_spec [OF small(2) len]
  have lt: "range_lt xs other \<longleftrightarrow> list_compare xs other = ord_lt" "range_gt xs other \<longleftrightarrow> list_compare xs other = ord_gt"
    "range_lt other xs \<longleftrightarrow> list_compare other xs = ord_lt"
    by (simp_all add: range_lt_def range_gt_def compare split: ordering.splits)
  then show "range_lt xs other \<longleftrightarrow> (xs, other) \<in> lexord {(a, b). a < b}" "range_gt xs other \<longleftrightarrow> range_lt other xs"
    by (simp_all add: list_compare_lt_iff list_compare_gt_iff)
  show "range_le xs other \<longleftrightarrow> \<not> range_gt xs other" "range_ge xs other \<longleftrightarrow> \<not> range_lt xs other"
    by (auto simp: range_le_def range_gt_def range_ge_def range_lt_def)
  have "(\<exists>i. Folly_Range_Search.match_at (=) xs other i) \<longleftrightarrow> sublist other xs"
  proof
    assume "\<exists>i. Folly_Range_Search.match_at (=) xs other i"
    then obtain i where "take (length other) (drop i xs) = other" by (auto simp: match_at_code list_all2_eq [symmetric])
    then show "sublist other xs" by (metis sublist_def append_take_drop_id)
  next
    assume "sublist other xs"
    then obtain us ws where "xs = us @ other @ ws" by (auto simp: sublist_def)
    then have "Folly_Range_Search.match_at (=) xs other (length us)" by (simp add: match_at_code list_all2_eq [symmetric])
    then show "\<exists>i. Folly_Range_Search.match_at (=) xs other i" ..
  qed
  then have "first_match (=) xs other \<noteq> None \<longleftrightarrow> sublist other xs"
    by (simp add: first_match_None_iff)
  then show "range_contains m r other = Inr (sublist other xs)"
    by (simp add: range_contains_def range_find_def exact.qfind_first_match xs_def)
  show "range_find_pos m r other pos = Inr (if pos > length xs then None
       else map_option (\<lambda>i. i + pos) (first_match (=) (drop pos xs) other))"
    using ok by (simp add: range_find_pos_Inr xs_def)
qed (simp_all add: range_startsWith_iff [OF ok] range_endsWith_iff [OF ok] range_eq_iff range_ne_def xs_def)

text \<open>
  C35. The members that look at a range: \<open>startsWith\<close> and \<open>endsWith\<close> recognise prefixes and suffixes,
  \<open>contains\<close> and \<open>find\<close> with a position find the first occurrence from there on, and the operators
  decide equality and the lexicographic order of unsigned bytes.
\<close>

theorem range_queries:
  assumes "range_ok m r" "range_size r < 2 ^ 63" "length other < 2 ^ 63" and xs: "xs = range_elems m r"
  shows "range_startsWith m r other = Inr (prefix other xs) \<and> range_endsWith m r other = Inr (suffix other xs) \<and>
    range_contains m r other = Inr (sublist other xs) \<and>
    range_find_pos m r other pos = Inr (if pos > length xs then None
       else map_option (\<lambda>i. i + pos) (first_match (=) (drop pos xs) other)) \<and>
    range_eq xs other = (xs = other) \<and> range_lt xs other = ((xs, other) \<in> lexord {(a, b). a < b}) \<and>
    range_gt xs other = range_lt other xs \<and> range_le xs other = (\<not> range_gt xs other) \<and>
    range_ge xs other = (\<not> range_lt xs other) \<and> range_ne xs other = (\<not> range_eq xs other)"
  unfolding xs by (intro conjI range_query_results [OF assms(1-3)])

theorem range_queries_witness:
  "range_startsWith [9, 1, 2, 3] \<lparr>rng_b = 1, rng_e = 4\<rparr> [1, 2] = Inr True \<and> range_lt [1, 2, 3] [1, 0x80]"
proof -
  have ok: "range_ok [9, 1, 2, 3 :: u8] \<lparr>rng_b = 1, rng_e = 4\<rparr>" by (simp add: range_ok_def)
  have e: "range_elems [9, 1, 2, 3 :: u8] \<lparr>rng_b = 1, rng_e = 4\<rparr> = [1, 2, 3]" by (simp add: range_elems_def)
  show ?thesis
    using range_queries [OF ok _ _ e [symmetric], of "[1, 2]"] range_queries [OF ok _ _ e [symmetric], of "[1, 0x80]"]
    by (simp add: range_size_def)
qed

text \<open>
  C11. \<open>replaceAt\<close>, if the sum of its arguments does not wrap around, succeeds exactly if the
  replacement fits; it then overwrites the elements from \<open>pos\<close> on and nothing else, and otherwise
  changes nothing. \<open>replaceAll\<close> throws \<open>std::invalid_argument\<close> exactly if the lengths differ;
  otherwise the range holds, and the count is, the result of repeatedly replacing the first occurrence
  from a position on that advances by the length of the source, and the memory around the range is
  unchanged. If source and destination have no element in common, this is the sequential replacement
  the comment promises; without that condition it is not (\<open>replaceAll_rescans\<close>).
\<close>

theorem range_replaceAll_outcome:
  assumes ok: "range_ok m r" and small: "range_size r < 2 ^ 64"
    and nowrap: "pos + length repl < 2 ^ 64" and xs: "xs = range_elems m r"
  shows "range_replaceAt m r pos repl =
      (if pos + length repl \<le> range_size r
       then Inr (True, take (rng_b r) m @ (take pos xs @ repl @ drop (pos + length repl) xs) @ drop (rng_e r) m)
       else Inr (False, m)) \<and>
    range_replaceAll m r source dest =
      (if length source \<noteq> length dest then Inl (Invalid_Argument ''replacement must have the same size as source'')
       else case replace_from source dest 0 xs of (n, ys) \<Rightarrow> Inr (n, take (rng_b r) m @ ys @ drop (rng_e r) m)) \<and>
    length (snd (replace_from source dest 0 xs)) = length xs \<and>
    (length source = length dest \<and> set source \<inter> set dest = {} \<longrightarrow>
      replace_from source dest 0 xs = replace_each source dest xs)"
proof -
  have len: "length xs = range_size r" using ok by (auto simp: xs range_elems_def range_size_def range_ok_def)
  have "replace_from source dest 0 xs = (0, xs)" if "\<not> (source \<noteq> [] \<and> length source = length dest)"
    using that by (subst replace_from.simps) auto
  moreover have "replace_from source dest 0 xs = replace_each source dest xs" if "length source = length dest" "set source \<inter> set dest = {}"
  proof (cases "source = []")
    case False
    from replace_from_each [OF False that, of 0 "[]" xs] show ?thesis by (simp add: map_prod_def)
  qed (subst replace_from.simps, subst replace_each.simps, simp)
  ultimately show ?thesis
    using replaceAll_loop_from [of source dest r m 0 0, folded xs] range_replaceAt_inside [OF ok, of pos repl] ok small nowrap len put_same [OF ok]
    by (cases "source \<noteq> [] \<and> length source = length dest")
      (auto simp: range_replaceAll_def range_replaceAt_def xs split: prod.splits)
qed

theorem range_replaceAll_outcome_witness:
  "range_replaceAll [9, 1, 2, 1, 2, 9 :: u8] \<lparr>rng_b = 1, rng_e = 5\<rparr> [1, 2] [3, 4] = Inr (2, [9, 3, 4, 3, 4, 9])"
proof -
  have ok: "range_ok [9, 1, 2, 1, 2, 9 :: u8] \<lparr>rng_b = 1, rng_e = 5\<rparr>" by (simp add: range_ok_def)
  have "replace_each [1, 2 :: u8] [3, 4] [1, 2, 1, 2] = (2, [3, 4, 3, 4])"
    by (simp add: replace_each.simps occurs_at_def)
  with range_replaceAll_outcome [OF ok, of 0 "[]" "[1, 2, 1, 2]" "[1, 2]" "[3, 4]"] show ?thesis
    by (simp add: range_size_def range_elems_def)
qed

end
