(* ===== verification/Folly_Split.thy ===== *)
theory Folly_Split
  imports Folly_Range
begin

text \<open>
  Splitting, joining and trimming of \<open>folly/String-inl.h\<close> and \<open>folly/String.cpp\<close>, on top of \<open>Range\<close>.

  A string is the list of its bytes; the output type of \<open>split\<close> is a string type, so that
  \<open>to<OutStringT>\<close> copies the bytes. \<open>Delim\<close> is a character or a string. An output of the fixed-size
  \<open>split\<close> is a string variable or \<open>std::ignore\<close>.
\<close>

section \<open>Definitions\<close>

datatype delim = Char_Delim u8 | Piece_Delim "u8 list"

fun delimSize :: "delim \<Rightarrow> nat" where
  "delimSize (Char_Delim c) = 1"
| "delimSize (Piece_Delim s) = length s"

text \<open>\<open>s\<close> is the memory from the pointer on.\<close>

fun atDelim :: "u8 list \<Rightarrow> delim \<Rightarrow> bool result" where
  "atDelim s (Char_Delim c) = andthen (rd s 0) (\<lambda>x. Inr (x = c))"
| "atDelim s (Piece_Delim sp) =
     (if length sp \<le> length s then Inr (take (length sp) s = sp) else Inl Undefined_Behaviour)"

fun delimFront :: "delim \<Rightarrow> u8 result" where
  "delimFront (Char_Delim c) = Inl Terminate"
| "delimFront (Piece_Delim s) = rd s 0"

fun is_piece :: "delim \<Rightarrow> bool" where
  "is_piece (Char_Delim c) = False"
| "is_piece (Piece_Delim s) = True"

text \<open>\<open>to<OutStringT>(sp.subpiece(first, n))\<close>.\<close>

definition piece_of :: "u8 list \<Rightarrow> nat \<Rightarrow> nat \<Rightarrow> u8 list result" where
  "piece_of sp first n =
     andthen (range_subpiece (range_ptr_size 0 (length sp)) first (Some n)) (\<lambda>r. Inr (range_elems sp r))"

definition emit :: "bool \<Rightarrow> u8 list \<Rightarrow> nat \<Rightarrow> nat \<Rightarrow> u8 list list \<Rightarrow> u8 list list result" where
  "emit ignoreEmpty sp tokenStartPos tokenSize out =
     (if \<not> ignoreEmpty \<or> tokenSize > 0
      then andthen (piece_of sp tokenStartPos tokenSize) (\<lambda>t. Inr (out @ [t]))
      else Inr out)"

function internalSplit_loop ::
  "delim \<Rightarrow> u8 list \<Rightarrow> bool \<Rightarrow> nat \<Rightarrow> nat \<Rightarrow> nat \<Rightarrow> u8 list list \<Rightarrow> (nat \<times> u8 list list) result" where
  "internalSplit_loop d sp ignoreEmpty i tokenStartPos tokenSize out =
     (if i \<le> length sp - delimSize d then
        andthen (atDelim (drop i sp) d) (\<lambda>at.
          if at then
            andthen (emit ignoreEmpty sp tokenStartPos tokenSize out) (\<lambda>out.
              internalSplit_loop d sp ignoreEmpty (i + (delimSize d - 1) + 1) (i + delimSize d) 0 out)
          else internalSplit_loop d sp ignoreEmpty (i + 1) tokenStartPos (tokenSize + 1) out)
      else Inr (tokenStartPos, out))"
  by pat_completeness auto
termination
  by (relation "measure (\<lambda>(d, sp, ignoreEmpty, i, tokenStartPos, tokenSize, out). Suc (length sp) - i)") auto

declare internalSplit_loop.simps [simp del]

function internalSplit :: "delim \<Rightarrow> u8 list \<Rightarrow> u8 list list \<Rightarrow> bool \<Rightarrow> u8 list list result" where
  "internalSplit d sp out ignoreEmpty =
     (let strSize = length sp;
          dSize = delimSize d
      in if dSize > strSize \<or> dSize = 0 then
           (if \<not> ignoreEmpty \<or> strSize > 0 then Inr (out @ [sp]) else Inr out)
         else if is_piece d \<and> dSize = 1 then
           andthen (delimFront d) (\<lambda>c. internalSplit (Char_Delim c) sp out ignoreEmpty)
         else
           andthen (internalSplit_loop d sp ignoreEmpty 0 0 0 out) (\<lambda>(tokenStartPos, out).
             emit ignoreEmpty sp tokenStartPos (strSize - tokenStartPos) out))"
  by pat_completeness auto
termination
  by (relation "measure (\<lambda>(d, sp, out, ignoreEmpty). if is_piece d then 1 else 0)") auto

declare internalSplit.simps [simp del]

definition split_vector :: "delim \<Rightarrow> u8 list \<Rightarrow> u8 list list \<Rightarrow> bool \<Rightarrow> u8 list list result" where
  "split_vector delimiter input out ignoreEmpty = internalSplit delimiter input out ignoreEmpty"

datatype output_var = Ignored | Var "u8 list"

fun toOrIgnore :: "u8 list \<Rightarrow> output_var \<Rightarrow> output_var" where
  "toOrIgnore input Ignored = Ignored"
| "toOrIgnore input (Var v) = Var input"

fun find_delim :: "u8 list \<Rightarrow> delim \<Rightarrow> nat option result" where
  "find_delim input (Char_Delim c) = Inr (qfind_char input c)"
| "find_delim input (Piece_Delim s) = qfind (=) input s"

text \<open>The variables after the call are returned with its result.\<close>

fun splitFixed :: "bool \<Rightarrow> delim \<Rightarrow> u8 list \<Rightarrow> output_var list \<Rightarrow> (bool \<times> output_var list) result" where
  "splitFixed exact d input [] = Inr (True, [])"
| "splitFixed exact d input [out] =
     andthen (if exact then find_delim input d else Inr None) (\<lambda>k.
       if k \<noteq> None then Inr (False, [out]) else Inr (True, [toOrIgnore input out]))"
| "splitFixed exact d input (outHead # out # outs) =
     andthen (find_delim input d) (\<lambda>r. case r of
       None \<Rightarrow> Inr (False, outHead # out # outs)
     | Some k \<Rightarrow>
         andthen (splitFixed exact d (drop (k + delimSize d) input) (out # outs)) (\<lambda>(ok, outTail).
           if ok then Inr (True, toOrIgnore (take k input) outHead # outTail)
           else Inr (False, outHead # outTail)))"

fun delim_chars :: "delim \<Rightarrow> u8 list" where
  "delim_chars (Char_Delim c) = [c]"
| "delim_chars (Piece_Delim s) = s"

fun internalJoinAppend_loop :: "u8 list \<Rightarrow> u8 list list \<Rightarrow> u8 list \<Rightarrow> u8 list" where
  "internalJoinAppend_loop delimiter [] out = out"
| "internalJoinAppend_loop delimiter (t # ts) out = internalJoinAppend_loop delimiter ts (out @ delimiter @ t)"

fun internalJoinAppend :: "delim \<Rightarrow> u8 list list \<Rightarrow> u8 list \<Rightarrow> u8 list result" where
  "internalJoinAppend d [] out = Inl Undefined_Behaviour"
| "internalJoinAppend d (t # ts) out =
     (if is_piece d \<and> delimSize d = 1
      then andthen (delimFront d) (\<lambda>c. Inr (internalJoinAppend_loop [c] ts (out @ t)))
      else Inr (internalJoinAppend_loop (delim_chars d) ts (out @ t)))"

definition join :: "delim \<Rightarrow> u8 list list \<Rightarrow> u8 list \<Rightarrow> u8 list result" where
  "join d ts out = (if ts = [] then Inr [] else internalJoinAppend d ts [])"

definition is_oddspace :: "u8 \<Rightarrow> bool" where
  "is_oddspace c \<longleftrightarrow> c = 0x0A \<or> c = 0x09 \<or> c = 0x0D"

fun pop_front_spaces :: "u8 list \<Rightarrow> u8 list" where
  "pop_front_spaces sp = (case sp of [] \<Rightarrow> [] | c # cs \<Rightarrow> if c = 0x20 then pop_front_spaces cs else sp)"

declare pop_front_spaces.simps [simp del]

lemma length_pop_front_spaces: "length (pop_front_spaces sp) \<le> length sp"
  by (induction sp) (subst pop_front_spaces.simps, simp)+

function ltrimWhitespace :: "u8 list \<Rightarrow> u8 list" where
  "ltrimWhitespace sp =
     (let sp = pop_front_spaces sp
      in if sp \<noteq> [] \<and> is_oddspace (hd sp) then ltrimWhitespace (tl sp) else sp)"
  by pat_completeness auto
termination
proof (relation "measure length")
  fix sp x assume "x = pop_front_spaces sp" "x \<noteq> [] \<and> is_oddspace (hd x)"
  then show "(tl x, sp) \<in> measure length" using length_pop_front_spaces [of sp] by (cases "pop_front_spaces sp") auto
qed simp

function pop_back_spaces :: "u8 list \<Rightarrow> u8 list" where
  "pop_back_spaces sp = (if sp \<noteq> [] \<and> last sp = 0x20 then pop_back_spaces (butlast sp) else sp)"
  by pat_completeness auto
termination by (relation "measure length") auto

declare ltrimWhitespace.simps [simp del] pop_back_spaces.simps [simp del]

lemma length_pop_back_spaces: "length (pop_back_spaces sp) \<le> length sp"
proof (induction sp rule: pop_back_spaces.induct)
  case (1 sp)
  then show ?case by (subst pop_back_spaces.simps) (auto intro: order_trans)
qed

function rtrimWhitespace :: "u8 list \<Rightarrow> u8 list" where
  "rtrimWhitespace sp =
     (let sp = pop_back_spaces sp
      in if sp \<noteq> [] \<and> is_oddspace (last sp) then rtrimWhitespace (butlast sp) else sp)"
  by pat_completeness auto
termination
proof (relation "measure length")
  fix sp x assume "x = pop_back_spaces sp" "x \<noteq> [] \<and> is_oddspace (last x)"
  then show "(butlast x, sp) \<in> measure length" using length_pop_back_spaces [of sp] by (cases "pop_back_spaces sp") auto
qed simp

declare rtrimWhitespace.simps [simp del]

definition trimWhitespace :: "u8 list \<Rightarrow> u8 list" where
  "trimWhitespace sp = ltrimWhitespace (rtrimWhitespace sp)"

text \<open>\<open>std::find_if\<close> for a character that is neither a space nor a tab: its index, or the size.\<close>

definition needle_of :: "u8 list \<Rightarrow> nat" where
  "needle_of piece = length (takeWhile (\<lambda>c. \<not> (c \<noteq> 0x20 \<and> c \<noteq> 0x09)) piece)"

text \<open>\<open>None\<close> is the sentinel \<open>std::numeric_limits<size_t>::max()\<close>.\<close>

fun margin_loop :: "u8 list list \<Rightarrow> nat option \<Rightarrow> nat \<Rightarrow> nat option \<times> nat" where
  "margin_loop [] indent max_length = (indent, max_length)"
| "margin_loop (piece # pieces) indent max_length =
     (let needle = needle_of piece
      in if needle \<noteq> length piece
         then margin_loop pieces (Some (case indent of None \<Rightarrow> needle | Some i \<Rightarrow> min i needle)) max_length
         else margin_loop pieces indent (max (length piece) max_length))"

definition stripLeftMargin :: "u8 list \<Rightarrow> u8 list result" where
  "stripLeftMargin s =
     andthen (split_vector (Piece_Delim [0x0A]) s [] False) (\<lambda>pieces.
     andthen (rd pieces (length pieces - 1)) (\<lambda>piece.
       let pieces = (if needle_of piece = length piece then pieces[length pieces - 1 := []] else pieces)
       in andthen (rd pieces 0) (\<lambda>piece.
            let piecer = (if needle_of piece = length piece then tl pieces else pieces);
                (indent, max_length) = margin_loop piecer None 0;
                indent = (case indent of None \<Rightarrow> max_length | Some i \<Rightarrow> i);
                piecer = map (\<lambda>piece. if length piece < indent then [] else drop indent piece) piecer
            in join (Piece_Delim [0x0A]) piecer [])))"

section \<open>The tokens of a string\<close>

text \<open>The reference: cut at the first delimiter, and go on behind it.\<close>

function tokens :: "u8 list \<Rightarrow> u8 list \<Rightarrow> u8 list list" where
  "tokens d xs =
     (if d = [] then [xs]
      else case first_match (=) xs d of None \<Rightarrow> [xs] | Some i \<Rightarrow> take i xs # tokens d (drop (i + length d) xs))"
  by pat_completeness auto
termination
  by (relation "measure (\<lambda>(d, xs). length xs)")
    (auto simp: first_match_Some_iff Folly_Range_Search.match_at_def simp flip: length_greater_0_conv)

declare tokens.simps [simp del]

fun join_list :: "u8 list \<Rightarrow> u8 list list \<Rightarrow> u8 list" where
  "join_list d [] = []"
| "join_list d [t] = t"
| "join_list d (t # u # us) = t @ d @ join_list d (u # us)"

lemma tokens_not_Nil [simp]: "tokens d xs \<noteq> []"
  by (subst tokens.simps) (simp split: option.split)

lemma match_take: "Folly_Range_Search.match_at (=) xs d i \<longleftrightarrow> i + length d \<le> length xs \<and> take (length d) (drop i xs) = d"
  by (simp add: match_at_code list_all2_eq [symmetric])

lemma join_tokens: "join_list d (tokens d xs) = xs"
proof (induction d xs rule: tokens.induct)
  case (1 d xs)
  show ?case
  proof (cases "d = [] \<or> first_match (=) xs d = None")
    case True
    then show ?thesis by (subst tokens.simps) auto
  next
    case False
    then obtain i where i: "first_match (=) xs d = Some i" "d \<noteq> []" by auto
    then have "xs = take i xs @ d @ drop (i + length d) xs"
      by (metis append_take_drop_id drop_drop first_match_Some_iff match_take add.commute)
    moreover have "join_list d (t # tokens d ys) = t @ d @ join_list d (tokens d ys)" for t ys
      by (cases "tokens d ys") simp_all
    ultimately show ?thesis using 1 i by (subst tokens.simps) simp
  qed
qed

section \<open>\<open>internalSplit\<close>\<close>

lemma piece_of_Inr: "first \<le> length sp \<Longrightarrow> piece_of sp first n = Inr (take n (drop first sp))"
proof -
  assume first: "first \<le> length sp"
  have ok: "range_ok sp (range_ptr_size 0 (length sp))" by (simp add: range_ok_def range_ptr_size_def)
  have "range_elems sp (range_ptr_size (0 + first) (min n (length sp - first))) =
      take (min n (length sp - first)) (drop first (range_elems sp (range_ptr_size 0 (length sp))))"
    using narrow_ptr(1) [OF ok, of first "min n (length sp - first)"] first
    by (simp add: range_ptr_size_def range_size_def)
  moreover have "take (min n (length sp - first)) (drop first sp) = take n (drop first sp)"
    by (cases "n \<le> length sp - first") (simp_all add: min_def)
  ultimately have "range_elems sp (range_ptr_size first (min n (length sp - first))) = take n (drop first sp)"
    by (simp add: range_elems_def range_ptr_size_def)
  then show ?thesis using first
    by (simp add: piece_of_def range_subpiece_def clamp_def) (simp add: range_ptr_size_def range_size_def)
qed

lemma emit_Inr:
  "start + n \<le> length sp \<Longrightarrow>
   emit ign sp start n out = Inr (out @ filter (\<lambda>t. \<not> ign \<or> t \<noteq> []) [take n (drop start sp)])"
  by (auto simp: emit_def piece_of_Inr)

lemma atDelim_Inr:
  "i + delimSize d \<le> length sp \<Longrightarrow> 0 < delimSize d \<Longrightarrow>
   atDelim (drop i sp) d = Inr (Folly_Range_Search.match_at (=) sp (delim_chars d) i)"
proof (cases d)
  case (Char_Delim c)
  assume "i + delimSize d \<le> length sp"
  then have i: "i < length sp" using Char_Delim by simp
  then have "take 1 (drop i sp) = [sp ! i]" by (simp add: take_Suc_conv_app_nth)
  then show ?thesis using i Char_Delim by (auto simp: match_take rd_def)
qed (auto simp: match_take)

lemma match_drop:
  "d \<noteq> [] \<Longrightarrow> Folly_Range_Search.match_at eq (drop s xs) d k \<longleftrightarrow> Folly_Range_Search.match_at eq xs d (s + k)"
  by (cases d) (auto simp: Folly_Range_Search.match_at_def add.assoc)

text \<open>
  The loop at position \<open>i\<close> of a token that starts at \<open>start\<close>, when no delimiter begins between them,
  followed by the last token: the tokens from \<open>start\<close> on.
\<close>

lemma internalSplit_loop_spec:
  assumes d: "0 < delimSize d" "delimSize d \<le> length sp"
    and "start \<le> i" "start \<le> length sp" "\<And>p. start \<le> p \<Longrightarrow> p < i \<Longrightarrow> \<not> Folly_Range_Search.match_at (=) sp (delim_chars d) p"
  shows "andthen (internalSplit_loop d sp ign i start (i - start) out)
      (\<lambda>(start, out). emit ign sp start (length sp - start) out) =
    Inr (out @ filter (\<lambda>t. \<not> ign \<or> t \<noteq> []) (tokens (delim_chars d) (drop start sp)))"
  using assms(3-5)
proof (induction "Suc (length sp) - i" arbitrary: i start out rule: less_induct)
  case less
  let ?d = "delim_chars d"
  have len: "length ?d = delimSize d" by (cases d) simp_all
  have ne: "?d \<noteq> []" using d(1) len by auto
  show ?case
  proof (cases "i \<le> length sp - delimSize d")
    case False
    have "\<not> Folly_Range_Search.match_at (=) (drop start sp) ?d k" for k
    proof (cases "start + k < i")
      case True
      then show ?thesis using less.prems(3) [of "start + k"] ne by (simp add: match_drop)
    next
      case late: False
      then have "length sp < start + k + length ?d" using False d(2) len by linarith
      then have "\<not> Folly_Range_Search.match_at (=) sp ?d (start + k)"
        by (auto simp: Folly_Range_Search.match_at_def)
      then show ?thesis by (simp only: match_drop [OF ne] not_False_eq_True)
    qed
    then have "first_match (=) (drop start sp) ?d = None" by (simp add: first_match_None_iff)
    then have "tokens ?d (drop start sp) = [drop start sp]" using ne by (subst tokens.simps) simp
    then show ?thesis using False less.prems(2)
      by (subst internalSplit_loop.simps) (simp add: emit_Inr)
  next
    case True
    then have fit: "i + delimSize d \<le> length sp" using d by simp
    show ?thesis
    proof (cases "Folly_Range_Search.match_at (=) sp ?d i")
      case at: True
      have "first_match (=) (drop start sp) ?d = Some (i - start)"
        using at less.prems ne by (auto simp: first_match_Some_iff match_drop)
      then have tok: "tokens ?d (drop start sp) = take (i - start) (drop start sp) # tokens ?d (drop (i + delimSize d) sp)"
        using ne len less.prems(1) by (subst tokens.simps) (simp add: add.commute)
      have emit: "emit ign sp start (i - start) out =
          Inr (out @ filter (\<lambda>t. \<not> ign \<or> t \<noteq> []) [take (i - start) (drop start sp)])"
        by (rule emit_Inr) (use less.prems fit in simp)
      have next_i: "i + (delimSize d - 1) + 1 = i + delimSize d" using d(1) by simp
      have "andthen (internalSplit_loop d sp ign (i + delimSize d) (i + delimSize d) 0 out')
          (\<lambda>(start, out). emit ign sp start (length sp - start) out) =
          Inr (out' @ filter (\<lambda>t. \<not> ign \<or> t \<noteq> []) (tokens ?d (drop (i + delimSize d) sp)))" for out'
        using less.hyps [of "i + delimSize d" "i + delimSize d" out'] d(1) fit by simp
      moreover have "internalSplit_loop d sp ign i start (i - start) out =
          internalSplit_loop d sp ign (i + delimSize d) (i + delimSize d) 0
            (out @ filter (\<lambda>t. \<not> ign \<or> t \<noteq> []) [take (i - start) (drop start sp)])"
        using True at fit d(1) emit by (subst internalSplit_loop.simps) (simp add: atDelim_Inr next_i del: filter.simps)
      ultimately show ?thesis unfolding tok by simp
    next
      case False
      have "\<not> Folly_Range_Search.match_at (=) sp ?d p" if "start \<le> p" "p < i + 1" for p
        using that False less.prems(3) [of p] by (cases "p = i") auto
      moreover have "Suc (length sp) - (i + 1) < Suc (length sp) - i" using fit d(1) by simp
      ultimately have "andthen (internalSplit_loop d sp ign (i + 1) start (i + 1 - start) out)
          (\<lambda>(start, out). emit ign sp start (length sp - start) out) =
          Inr (out @ filter (\<lambda>t. \<not> ign \<or> t \<noteq> []) (tokens ?d (drop start sp)))"
        using less.hyps [of "i + 1" start out] less.prems(1,2) by simp
      moreover have "internalSplit_loop d sp ign i start (i - start) out =
          internalSplit_loop d sp ign (i + 1) start (i + 1 - start) out"
        using True False fit d(1) less.prems(1) by (subst internalSplit_loop.simps) (simp add: atDelim_Inr Suc_diff_le)
      ultimately show ?thesis by simp
    qed
  qed
qed

lemma internalSplit_tokens:
  "internalSplit d sp out ign = Inr (out @ filter (\<lambda>t. \<not> ign \<or> t \<noteq> []) (tokens (delim_chars d) sp))"
proof (induction d sp out ign rule: internalSplit.induct)
  case (1 d sp out ign)
  have len: "length (delim_chars d) = delimSize d" by (cases d) simp_all
  consider "delimSize d > length sp \<or> delimSize d = 0" | "0 < delimSize d" "delimSize d \<le> length sp" "is_piece d \<and> delimSize d = 1"
    | "0 < delimSize d" "delimSize d \<le> length sp" "\<not> (is_piece d \<and> delimSize d = 1)" by linarith
  then show ?case
  proof cases
    case 1
    then have "delim_chars d = [] \<or> first_match (=) sp (delim_chars d) = None"
      using len by (auto simp: first_match_None_iff Folly_Range_Search.match_at_def simp flip: length_0_conv)
    then have "tokens (delim_chars d) sp = [sp]" by (subst tokens.simps) auto
    with 1 show ?thesis by (subst internalSplit.simps) auto
  next
    case 2
    then have "sp \<noteq> []" by auto
    from 2 obtain c where c: "d = Piece_Delim [c]" by (cases d) (auto simp: length_Suc_conv)
    then have "delimFront d = Inr c" by (simp add: rd_def)
    then show ?thesis using 1 [of "length sp" "delimSize d" c] 2 \<open>sp \<noteq> []\<close> unfolding c by (subst internalSplit.simps) (simp add: Let_def rd_def Suc_le_eq)
  next
    case 3
    then show ?thesis using internalSplit_loop_spec [of d sp 0 0 ign out]
      by (subst internalSplit.simps) auto
  qed
qed

section \<open>Joining\<close>

lemma join_loop_list: "internalJoinAppend_loop d ts out = out @ concat (map ((@) d) ts)"
  by (induction ts arbitrary: out) auto

lemma join_list_concat: "join_list d (t # ts) = t @ concat (map ((@) d) ts)"
  by (induction ts arbitrary: t) auto

lemma join_spec: "join d ts out = Inr (join_list (delim_chars d) ts)"
proof (cases ts)
  case (Cons t us)
  show ?thesis
  proof (cases "is_piece d \<and> delimSize d = 1")
    case True
    then obtain c where "d = Piece_Delim [c]" by (cases d) (auto simp: length_Suc_conv)
    then show ?thesis using Cons by (simp add: join_def join_loop_list join_list_concat rd_def)
  next
    case False
    then show ?thesis using Cons by (auto simp: join_def join_loop_list join_list_concat)
  qed
qed (simp add: join_def)

text \<open>Tokens without the character are recovered from their join.\<close>

lemma first_match_char: "first_match (=) xs [c] = qfind_char xs c"
  by (simp add: qfind_char_first)

lemma tokens_char_append:
  assumes "c \<notin> set t"
  shows "tokens [c] (t @ c # xs) = t # tokens [c] xs" "tokens [c] t = [t]"
proof -
  have "qfind_char (t @ c # xs) c = Some (length t)"
    unfolding qfind_char_def find_upt_Some_iff using assms by (auto simp: nth_append in_set_conv_nth)
  then show "tokens [c] (t @ c # xs) = t # tokens [c] xs"
    by (subst tokens.simps) (simp add: first_match_char)
  have "qfind_char t c = None" using assms by (auto simp: qfind_char_def find_upt_None_iff in_set_conv_nth)
  then show "tokens [c] t = [t]" by (subst tokens.simps) (simp add: first_match_char)
qed

lemma tokens_join:
  "ts \<noteq> [] \<Longrightarrow> \<forall>t\<in>set ts. c \<notin> set t \<Longrightarrow> tokens [c] (join_list [c] ts) = ts"
  by (induction "[c]" ts rule: join_list.induct) (simp_all add: tokens_char_append)

section \<open>Splitting into variables\<close>

lemma find_delim_first: "find_delim xs d = Inr (first_match (=) xs (delim_chars d))"
  by (cases d) (simp_all add: exact.qfind_first_match qfind_char_first)

text \<open>The last variable takes all remaining fields.\<close>

definition fields :: "u8 list \<Rightarrow> u8 list list \<Rightarrow> nat \<Rightarrow> u8 list list" where
  "fields d ts n = take (n - 1) ts @ [join_list d (drop (n - 1) ts)]"

lemma splitFixed_spec:
  assumes "delim_chars d \<noteq> []" "outs \<noteq> []"
  shows "splitFixed exact d xs outs =
    (let ts = tokens (delim_chars d) xs
     in Inr (if (if exact then length ts = length outs else length outs \<le> length ts)
             then (True, map2 toOrIgnore (fields (delim_chars d) ts (length outs)) outs) else (False, outs)))"
  using assms
proof (induction exact d xs outs rule: splitFixed.induct)
  case (2 exact d xs out)
  have "length (tokens (delim_chars d) xs) = 1 \<longleftrightarrow> first_match (=) xs (delim_chars d) = None"
    using 2(1) by (subst tokens.simps) (simp split: option.split)
  moreover have "fields (delim_chars d) (tokens (delim_chars d) xs) 1 = [xs]" by (simp add: fields_def join_tokens)
  moreover have "1 \<le> length (tokens (delim_chars d) xs)" by (simp add: Suc_le_eq)
  ultimately show ?case by (simp add: find_delim_first Let_def)
next
  case (3 exact d xs out1 out2 outs)
  have len: "length (delim_chars d) = delimSize d" by (cases d) simp_all
  show ?case
  proof (cases "first_match (=) xs (delim_chars d)")
    case None
    then have "tokens (delim_chars d) xs = [xs]" by (subst tokens.simps) simp
    then show ?thesis using None by (simp add: find_delim_first Let_def)
  next
    case (Some i)
    define ys where "ys = drop (i + delimSize d) xs"
    have tok: "tokens (delim_chars d) xs = take i xs # tokens (delim_chars d) ys"
      using 3(2) Some len by (subst tokens.simps) (simp add: ys_def)
    have IH: "splitFixed exact d ys (out2 # outs) =
      (let ts = tokens (delim_chars d) ys
       in Inr (if (if exact then length ts = length (out2 # outs) else length (out2 # outs) \<le> length ts)
             then (True, map2 toOrIgnore (fields (delim_chars d) ts (length (out2 # outs))) (out2 # outs))
             else (False, out2 # outs)))"
      unfolding ys_def by (rule 3(1)) (use 3(2) Some find_delim_first in simp_all)
    have "fields (delim_chars d) (take i xs # tokens (delim_chars d) ys) (length (out1 # out2 # outs)) =
        take i xs # fields (delim_chars d) (tokens (delim_chars d) ys) (length (out2 # outs))"
      by (simp add: fields_def)
    then show ?thesis using Some IH
      by (simp add: find_delim_first ys_def [symmetric] tok Let_def del: splitFixed.simps(2)) 
  qed
qed simp

section \<open>Trimming\<close>

definition is_space :: "u8 \<Rightarrow> bool" where
  "is_space c \<longleftrightarrow> c = 0x20 \<or> is_oddspace c"

lemma pop_front_spaces_dropWhile: "pop_front_spaces sp = dropWhile ((=) 0x20) sp"
  by (induction sp) (subst pop_front_spaces.simps, auto)+

lemma dropWhile_step:
  "(\<And>x. Q x \<Longrightarrow> P x) \<Longrightarrow> dropWhile P (dropWhile Q xs) = dropWhile P xs"
  by (induction xs) auto

lemma ltrimWhitespace_dropWhile: "ltrimWhitespace sp = dropWhile is_space sp"
proof (induction sp rule: ltrimWhitespace.induct)
  case (1 sp)
  define ys where "ys = dropWhile ((=) 0x20) sp"
  have sp: "dropWhile is_space sp = dropWhile is_space ys"
    unfolding ys_def by (rule dropWhile_step [symmetric]) (simp add: is_space_def)
  have hd: "ys \<noteq> [] \<Longrightarrow> hd ys \<noteq> 0x20" unfolding ys_def using hd_dropWhile [of "(=) 0x20" sp] by metis
  show ?case
  proof (cases "ys \<noteq> [] \<and> is_oddspace (hd ys)")
    case True
    then have "ltrimWhitespace sp = dropWhile is_space (tl ys)"
      using 1 [of ys] by (subst ltrimWhitespace.simps) (simp add: pop_front_spaces_dropWhile ys_def [symmetric] Let_def)
    then show ?thesis unfolding sp using True by (cases ys) (simp_all add: is_space_def)
  next
    case False
    then have "ltrimWhitespace sp = ys"
      by (subst ltrimWhitespace.simps) (auto simp: pop_front_spaces_dropWhile ys_def [symmetric] Let_def)
    then show ?thesis unfolding sp using False hd by (cases ys) (auto simp: is_space_def)
  qed
qed

lemma pop_back_spaces_rev: "pop_back_spaces sp = rev (pop_front_spaces (rev sp))"
proof (induction sp rule: pop_back_spaces.induct)
  case (1 sp)
  then show ?case
    by (cases sp rule: rev_cases) (subst pop_back_spaces.simps, subst pop_front_spaces.simps, auto)+
qed

lemma rtrimWhitespace_rev: "rtrimWhitespace sp = rev (ltrimWhitespace (rev sp))"
proof (induction sp rule: rtrimWhitespace.induct)
  case (1 sp)
  define ys where "ys = pop_front_spaces (rev sp)"
  have pop: "pop_back_spaces sp = rev ys" by (simp add: ys_def pop_back_spaces_rev)
  show ?case
  proof (cases "ys \<noteq> [] \<and> is_oddspace (hd ys)")
    case True
    then have "rtrimWhitespace sp = rev (ltrimWhitespace (tl ys))"
      using 1 [of "rev ys"] by (subst rtrimWhitespace.simps) (simp add: pop Let_def last_rev butlast_rev)
    then show ?thesis using True by (subst ltrimWhitespace.simps) (simp add: ys_def [symmetric] Let_def)
  next
    case False
    then show ?thesis
      by (subst rtrimWhitespace.simps, subst ltrimWhitespace.simps) (auto simp: pop ys_def [symmetric] Let_def last_rev)
  qed
qed

lemma rtrimWhitespace_dropWhile: "rtrimWhitespace sp = rev (dropWhile is_space (rev sp))"
  by (simp add: rtrimWhitespace_rev ltrimWhitespace_dropWhile)

lemma trim_parts:
  "\<exists>a b. sp = a @ trimWhitespace sp @ b \<and> list_all is_space a \<and> list_all is_space b"
proof -
  define ys where "ys = rtrimWhitespace sp"
  have "rev sp = takeWhile is_space (rev sp) @ dropWhile is_space (rev sp)" by simp
  then have "sp = ys @ rev (takeWhile is_space (rev sp))"
    unfolding ys_def rtrimWhitespace_dropWhile by (metis rev_append rev_rev_ident)
  moreover have "ys = takeWhile is_space ys @ trimWhitespace sp"
    by (simp add: trimWhitespace_def ltrimWhitespace_dropWhile ys_def [symmetric])
  moreover have "list_all is_space (takeWhile is_space ys)" "list_all is_space (rev (takeWhile is_space (rev sp)))"
    by (auto simp: list_all_iff dest: set_takeWhileD)
  ultimately show ?thesis by (metis append_assoc)
qed

lemma last_dropWhile: "dropWhile P xs \<noteq> [] \<Longrightarrow> last (dropWhile P xs) = last xs"
  by (metis last_appendR takeWhile_dropWhile_id)

lemma trim_ends:
  assumes "trimWhitespace sp \<noteq> []"
  shows "\<not> is_space (hd (trimWhitespace sp))" "\<not> is_space (last (trimWhitespace sp))"
proof -
  define ys where "ys = rtrimWhitespace sp"
  have t: "trimWhitespace sp = dropWhile is_space ys"
    by (simp add: trimWhitespace_def ltrimWhitespace_dropWhile ys_def)
  show "\<not> is_space (hd (trimWhitespace sp))" using assms unfolding t by (rule hd_dropWhile)
  have "dropWhile is_space (rev sp) \<noteq> []"
    using assms unfolding t ys_def rtrimWhitespace_dropWhile by (metis dropWhile.simps(1) rev.simps(1))
  then have "\<not> is_space (last ys)"
    unfolding ys_def rtrimWhitespace_dropWhile by (simp add: last_rev hd_dropWhile)
  then show "\<not> is_space (last (trimWhitespace sp))" using assms last_dropWhile [of is_space ys] by (simp add: t)
qed

section \<open>\<open>stripLeftMargin\<close>\<close>

definition blank :: "u8 \<Rightarrow> bool" where
  "blank c \<longleftrightarrow> c = 0x20 \<or> c = 0x09"

lemma needle_of_blank: "needle_of l = length (takeWhile blank l)"
  by (auto simp: needle_of_def blank_def [abs_def] intro!: arg_cong [where f = length] takeWhile_cong)

lemma needle_of_le: "needle_of l \<le> length l"
  by (simp add: needle_of_blank length_takeWhile_le)

lemma needle_end: "needle_of l = length l \<longleftrightarrow> list_all blank l"
proof -
  have "length (takeWhile blank l) = length l \<longleftrightarrow> takeWhile blank l = l"
    by (metis append_self_conv length_append length_0_conv add_cancel_right_right takeWhile_dropWhile_id)
  then show ?thesis by (simp add: needle_of_blank list_all_iff)
qed

text \<open>The lines that are kept: the last one is emptied when it is blank, then the first one removed.\<close>

definition kept_lines :: "u8 list list \<Rightarrow> u8 list list" where
  "kept_lines ls =
     (let ls = (if list_all blank (last ls) then butlast ls @ [[]] else ls)
      in if list_all blank (hd ls) then tl ls else ls)"

lemma margin_loop_spec:
  "margin_loop ls indent m =
    (fold (\<lambda>l i. if list_all blank l then i else Some (case i of None \<Rightarrow> needle_of l | Some k \<Rightarrow> min k (needle_of l))) ls indent,
     fold (\<lambda>l m. if list_all blank l then max (length l) m else m) ls m)"
  by (induction ls arbitrary: indent m) (simp_all add: needle_end Let_def)

text \<open>The indentation that is removed: that of the least indented line, or the longest line if all are blank.\<close>

definition is_margin :: "u8 list list \<Rightarrow> nat \<Rightarrow> bool" where
  "is_margin ls n \<longleftrightarrow>
     (if list_all (list_all blank) ls then list_all (\<lambda>l. length l \<le> n) ls
      else list_ex (\<lambda>l. \<not> list_all blank l \<and> n = needle_of l) ls \<and>
        list_all (\<lambda>l. \<not> list_all blank l \<longrightarrow> n \<le> needle_of l) ls)"

lemma margin_min:
  "fold (\<lambda>l i. if list_all blank l then i else Some (case i of None \<Rightarrow> needle_of l | Some k \<Rightarrow> min k (needle_of l))) ls i =
   (let ns = map needle_of (filter (\<lambda>l. \<not> list_all blank l) ls)
    in case i of None \<Rightarrow> (if ns = [] then None else Some (Min (set ns))) | Some k \<Rightarrow> Some (Min (set (k # ns))))"
proof (induction ls arbitrary: i)
  case (Cons l ls)
  show ?case
    by (cases i; cases "filter (\<lambda>l. \<not> list_all blank l) ls") (auto simp: Cons.IH Let_def min.assoc min.left_commute Min_insert)
qed (simp split: option.split)

lemma fold_max_ge:
  "m \<le> fold (\<lambda>l m. if list_all blank l then max (length l) m else m) ls m"
proof (induction ls arbitrary: m)
  case (Cons x xs)
  show ?case
    using order_trans [OF _ Cons [of "if list_all blank x then max (length x) m else m"], of m] by simp
qed simp

lemma fold_max_length:
  "l \<in> set ls \<Longrightarrow> list_all blank l \<Longrightarrow> length l \<le> fold (\<lambda>l m. if list_all blank l then max (length l) m else m) ls m"
proof (induction ls arbitrary: m)
  case (Cons x xs)
  show ?case
  proof (cases "l = x")
    case True
    then show ?thesis using Cons.prems(2) order_trans [OF _ fold_max_ge [of "max (length x) m" xs], of "length x"] by simp
  qed (use Cons in simp)
qed simp

lemma margin_ok:
  assumes "margin_loop ls None 0 = (i, m)"
  shows "is_margin ls (case i of None \<Rightarrow> m | Some i \<Rightarrow> i)"
proof (cases "filter (\<lambda>l. \<not> list_all blank l) ls")
  case Nil
  then have all: "list_all (list_all blank) ls" by (auto simp: filter_empty_conv list_all_iff)
  then have "length l \<le> m" if "l \<in> set ls" for l
    using fold_max_length [OF that, of 0] assms that by (simp add: margin_loop_spec list_all_iff)
  moreover have "i = None" using assms Nil by (simp add: margin_loop_spec margin_min)
  ultimately show ?thesis using all by (simp add: is_margin_def list_all_iff)
next
  case (Cons x xs)
  define ns where "ns = map needle_of (filter (\<lambda>l. \<not> list_all blank l) ls)"
  have i: "i = Some (Min (set ns))" and ns: "ns \<noteq> []"
    using assms Cons by (auto simp: margin_loop_spec margin_min ns_def)
  have "\<not> list_all (list_all blank) ls"
    using Cons by (metis (no_types, lifting) filter_False list.distinct(1) list_all_iff)
  moreover have "Min (set ns) \<in> set ns" using ns by simp
  moreover have "\<And>n. n \<in> set ns \<Longrightarrow> Min (set ns) \<le> n" by simp
  ultimately show ?thesis unfolding i is_margin_def
    by (auto simp: ns_def list_all_iff list_ex_iff)
qed

lemma stripLeftMargin_spec:
  "\<exists>n. is_margin (kept_lines (tokens [0x0A] s)) n \<and>
     stripLeftMargin s = Inr (join_list [0x0A] (map (drop n) (kept_lines (tokens [0x0A] s))))"
proof -
  define ls where "ls = tokens [0x0A] s"
  have ls: "ls \<noteq> []" by (simp add: ls_def)
  define ls1 where "ls1 = (if list_all blank (last ls) then butlast ls @ [[]] else ls)"
  have ls1: "ls1 \<noteq> []" using ls by (simp add: ls1_def)
  define ls2 where "ls2 = kept_lines ls"
  have ls2: "ls2 = (if list_all blank (hd ls1) then tl ls1 else ls1)" by (simp add: ls2_def kept_lines_def ls1_def Let_def)
  obtain i m where im: "margin_loop ls2 None 0 = (i, m)" by fastforce
  define n where "n = (case i of None \<Rightarrow> m | Some i \<Rightarrow> i)"
  have f1: "split_vector (Piece_Delim [0x0A]) s [] False = Inr ls"
    by (simp add: split_vector_def internalSplit_tokens ls_def)
  have f2: "rd ls (length ls - 1) = Inr (last ls)" using ls by (simp add: rd_def last_conv_nth)
  have f3: "(if needle_of (last ls) = length (last ls) then ls[length ls - 1 := []] else ls) = ls1"
    using ls by (cases ls rule: rev_cases) (simp_all add: ls1_def needle_end)
  have f4: "rd ls1 0 = Inr (hd ls1)" using ls1 by (simp add: rd_def hd_conv_nth)
  have f5: "(if needle_of (hd ls1) = length (hd ls1) then tl ls1 else ls1) = ls2" by (simp add: ls2 needle_end)
  have "stripLeftMargin s =
      Inr (join_list [0x0A] (map (\<lambda>l. if length l < n then [] else drop n l) ls2))"
    unfolding stripLeftMargin_def f1 andthen_Inr Let_def f2 f3 f4 f5 im prod.case n_def [symmetric] join_spec delim_chars.simps ..
  also have "(\<lambda>l. if length l < n then [] else drop n l) = drop n" by (auto intro!: ext)
  finally have "stripLeftMargin s = Inr (join_list [0x0A] (map (drop n) ls2))" .
  moreover have "is_margin ls2 n" unfolding n_def using im by (rule margin_ok)
  ultimately show ?thesis unfolding ls2_def ls_def by blast
qed

lemma is_margin_take:
  assumes "is_margin ls n" "l \<in> set ls"
  shows "list_all blank (take n l)"
proof (cases "list_all blank l")
  case True
  then show ?thesis by (auto simp: list_all_iff dest: in_set_takeD)
next
  case False
  then have "\<not> list_all (list_all blank) ls" using assms(2) unfolding list_all_iff [of _ ls] by blast
  then have "n \<le> length (takeWhile blank l)"
    using assms False by (simp only: is_margin_def if_False list_all_iff [of _ ls] needle_of_blank) blast
  then have "take n l = take n (takeWhile blank l)" by (metis append_take_drop_id take_append takeWhile_dropWhile_id take_all_iff append_Nil2 diff_is_0_eq take_0)
  then show ?thesis by (auto simp: list_all_iff dest!: in_set_takeD set_takeWhileD)
qed

definition trimmed :: "u8 list \<Rightarrow> bool" where
  "trimmed t = (case t of [] \<Rightarrow> True | c # cs \<Rightarrow> \<not> is_space c \<and> \<not> is_space (last t))"

lemma trimmed_trim: "trimmed (trimWhitespace sp)"
  using trim_ends [of sp] by (cases "trimWhitespace sp") (simp_all add: trimmed_def)

section \<open>Properties\<close>

text \<open>
  C20. \<open>split\<close> appends the tokens of its input to the vector, the reference being to cut at the first
  delimiter and go on behind it, without the empty ones if asked; it never reads outside the input.
  Joining the tokens with the delimiter gives the input back, for every delimiter and input; and
  splitting a join of strings without the character gives these strings back.
\<close>

theorem split_join:
  assumes "ts \<noteq> []" "list_all (\<lambda>t. c \<notin> set t) ts"
  shows "split_vector d s out ign = Inr (out @ filter (\<lambda>t. \<not> ign \<or> t \<noteq> []) (tokens (delim_chars d) s)) \<and>
    andthen (split_vector d s [] False) (\<lambda>ts. join d ts str) = Inr s \<and>
    andthen (join (Char_Delim c) ts str) (\<lambda>s. split_vector (Char_Delim c) s [] False) = Inr ts"
  using assms
  by (simp_all add: split_vector_def internalSplit_tokens join_spec join_tokens tokens_join list_all_iff)

theorem split_join_witness:
  "andthen (join (Char_Delim 0x2C) [[0x61], [], [0x62, 0x63]] []) (\<lambda>s. split_vector (Char_Delim 0x2C) s [] False) =
   Inr [[0x61], [], [0x62, 0x63]]"
  by (rule split_join [THEN conjunct2, THEN conjunct2]) simp_all

text \<open>
  \<open>split\<close> into a fixed number of outputs, for a delimiter that is not empty: it succeeds exactly
  when the number of tokens is that of the outputs, or at least that without \<open>exact\<close>; then every
  output other than \<open>std::ignore\<close> has its field, the last one the rest of the input with its
  delimiters. Otherwise it returns false and no output has changed.
\<close>

theorem splitFixed_fields:
  assumes "delim_chars d \<noteq> []" "outs \<noteq> []" "ts = tokens (delim_chars d) s"
    and "k = length outs - 1" "fs = take k ts @ [join_list (delim_chars d) (drop k ts)]"
  shows "splitFixed exact d s outs =
    Inr (if (if exact then length ts = length outs else length outs \<le> length ts)
         then (True, map2 toOrIgnore fs outs) else (False, outs))"
  using splitFixed_spec [OF assms(1,2), of exact s] unfolding assms(3-5) by (simp add: fields_def Let_def)

theorem splitFixed_fields_witness:
  "splitFixed False (Char_Delim 0x3A) [0x61, 0x3A, 0x62, 0x3A, 0x63] [Var [], Var []] =
     Inr (True, [Var [0x61], Var [0x62, 0x3A, 0x63]])"
  using splitFixed_fields [OF _ _ refl refl refl, of "Char_Delim 0x3A" "[Var [], Var []]" False "[0x61, 0x3A, 0x62, 0x3A, 0x63]"]
  by (simp add: tokens_char_append(1) [of "0x3A" "[0x61]" "[0x62, 0x3A, 0x63]", simplified]
    tokens_char_append(1) [of "0x3A" "[0x62]" "[0x63]", simplified] tokens_char_append(2) [of "0x3A" "[0x63]", simplified])

text \<open>
  \<open>trimWhitespace\<close> removes only spaces, tabs, newlines and carriage returns from the two ends, and
  all of them: what is left neither begins nor ends with one.
\<close>

theorem trimWhitespace_trims:
  "(\<exists>a b. sp = a @ trimWhitespace sp @ b \<and> list_all is_space a \<and> list_all is_space b) \<and>
   trimmed (trimWhitespace sp) \<and> ltrimWhitespace sp = dropWhile is_space sp \<and>
   rtrimWhitespace sp = rev (dropWhile is_space (rev sp))"
  by (intro conjI trim_parts trimmed_trim ltrimWhitespace_dropWhile rtrimWhitespace_dropWhile)

text \<open>
  \<open>stripLeftMargin\<close> empties the last line if it is blank, removes the first line if it is then
  blank, and removes the same number of characters from every line that is left: the indentation of
  the least indented line that is not blank. Only spaces and tabs are removed. The emptied last line
  is joined like the others, so the result still ends with a newline, and of several blank lines at the
  front only one is removed.
\<close>

theorem stripLeftMargin_lines:
  "\<exists>n. is_margin (kept_lines (tokens [0x0A] s)) n \<and>
     stripLeftMargin s = Inr (join_list [0x0A] (map (drop n) (kept_lines (tokens [0x0A] s)))) \<and>
     list_all (\<lambda>l. list_all blank (take n l)) (kept_lines (tokens [0x0A] s))"
  using stripLeftMargin_spec [of s] is_margin_take unfolding list_all_iff [of _ "kept_lines ls" for ls] by blast

end
