(* ===== verification/Folly_PCQueue.thy ===== *)
theory Folly_PCQueue
  imports Prelude
begin

text \<open>
  \<open>folly/ProducerConsumerQueue.h\<close>: a bounded queue for one producer and one consumer thread.

  A slot of the buffer is raw memory, holds an object, or an object that has been moved from;
  constructing, moving and destroying objects is checked. The two threads are program points, and
  every access to the index of the other thread is one step. A thread's own index is written by
  itself only, so its load is part of the step that follows. \<open>q_hist\<close> is not in the code: it records
  the outcome of every operation at the moment it takes effect, to compare the queue with a bounded
  FIFO list.
\<close>

section \<open>The buffer\<close>

datatype 'a slot = Raw | Live 'a | Moved

datatype 'a event = Write 'a bool | Read "'a option"

record 'a pcq =
  q_size :: u32
  q_records :: "'a slot list"
  q_readIndex :: u32
  q_writeIndex :: u32
  q_hist :: "'a event list"

definition construct_at :: "'a slot list \<Rightarrow> u32 \<Rightarrow> 'a \<Rightarrow> 'a slot list result" where
  "construct_at xs i v =
     andthen (rd xs (unat i)) (\<lambda>x. case x of Raw \<Rightarrow> wr xs (unat i) (Live v) | _ \<Rightarrow> Inl Undefined_Behaviour)"

definition move_from :: "'a slot list \<Rightarrow> u32 \<Rightarrow> ('a \<times> 'a slot list) result" where
  "move_from xs i =
     andthen (rd xs (unat i)) (\<lambda>x. case x of
       Live v \<Rightarrow> andthen (wr xs (unat i) Moved) (\<lambda>xs. Inr (v, xs)) | _ \<Rightarrow> Inl Undefined_Behaviour)"

definition destroy_at :: "'a slot list \<Rightarrow> u32 \<Rightarrow> 'a slot list result" where
  "destroy_at xs i =
     andthen (rd xs (unat i)) (\<lambda>x. if x = Raw then Inl Undefined_Behaviour else wr xs (unat i) Raw)"

definition deref :: "'a slot list \<Rightarrow> u32 \<Rightarrow> 'a result" where
  "deref xs i = andthen (rd xs (unat i)) (\<lambda>x. case x of Live v \<Rightarrow> Inr v | _ \<Rightarrow> Inl Undefined_Behaviour)"

definition pcq_new :: "u32 \<Rightarrow> 'a pcq result" where
  "pcq_new sz =
     (if sz \<ge> 2
      then Inr \<lparr>q_size = sz, q_records = replicate (unat sz) Raw, q_readIndex = 0, q_writeIndex = 0, q_hist = []\<rparr>
      else Inl Terminate)"

definition next_index :: "'a pcq \<Rightarrow> u32 \<Rightarrow> u32" where
  "next_index q i = (let n = i + 1 in if n = q_size q then 0 else n)"

text \<open>The destructor; \<open>n\<close> bounds the iterations, and a further one would touch a slot a second time.\<close>

fun pcq_delete_loop :: "'a pcq \<Rightarrow> nat \<Rightarrow> u32 \<Rightarrow> 'a slot list \<Rightarrow> 'a slot list result" where
  "pcq_delete_loop q 0 i xs = (if i = q_writeIndex q then Inr xs else Inl Undefined_Behaviour)"
| "pcq_delete_loop q (Suc n) i xs =
     (if i = q_writeIndex q then Inr xs
      else andthen (destroy_at xs i) (\<lambda>xs. pcq_delete_loop q n (next_index q i) xs))"

definition pcq_delete :: "'a pcq \<Rightarrow> 'a slot list result" where
  "pcq_delete q = pcq_delete_loop q (length (q_records q)) (q_readIndex q) (q_records q)"

section \<open>Operations\<close>

text \<open>\<open>write\<close>: the check, the construction and the store of the index.\<close>

definition pcq_write_check :: "'a pcq \<Rightarrow> (u32 \<times> u32) option" where
  "pcq_write_check q =
     (let currentWrite = q_writeIndex q;
          nextRecord = next_index q currentWrite
      in if nextRecord \<noteq> q_readIndex q then Some (currentWrite, nextRecord) else None)"

definition pcq_construct :: "'a pcq \<Rightarrow> u32 \<Rightarrow> 'a \<Rightarrow> 'a pcq result" where
  "pcq_construct q i v = andthen (construct_at (q_records q) i v) (\<lambda>xs. Inr (q\<lparr>q_records := xs\<rparr>))"

definition pcq_publish :: "'a pcq \<Rightarrow> u32 \<Rightarrow> 'a event \<Rightarrow> 'a pcq" where
  "pcq_publish q nextRecord e = q\<lparr>q_writeIndex := nextRecord, q_hist := q_hist q @ [e]\<rparr>"

text \<open>\<open>read\<close>, \<open>frontPtr\<close> and \<open>popFront\<close>.\<close>

definition pcq_read_check :: "'a pcq \<Rightarrow> u32 option" where
  "pcq_read_check q =
     (let currentRead = q_readIndex q
      in if currentRead = q_writeIndex q then None else Some currentRead)"

definition pcq_move :: "'a pcq \<Rightarrow> u32 \<Rightarrow> ('a \<times> 'a pcq) result" where
  "pcq_move q i = andthen (move_from (q_records q) i) (\<lambda>(v, xs). Inr (v, q\<lparr>q_records := xs\<rparr>))"

definition pcq_destroy :: "'a pcq \<Rightarrow> u32 \<Rightarrow> 'a pcq result" where
  "pcq_destroy q i = andthen (destroy_at (q_records q) i) (\<lambda>xs. Inr (q\<lparr>q_records := xs\<rparr>))"

definition pcq_consume :: "'a pcq \<Rightarrow> u32 \<Rightarrow> 'a event \<Rightarrow> 'a pcq" where
  "pcq_consume q nextRecord e = q\<lparr>q_readIndex := nextRecord, q_hist := q_hist q @ [e]\<rparr>"

definition pcq_isEmpty :: "'a pcq \<Rightarrow> bool" where
  "pcq_isEmpty q \<longleftrightarrow> q_readIndex q = q_writeIndex q"

definition pcq_isFull :: "'a pcq \<Rightarrow> bool" where
  "pcq_isFull q \<longleftrightarrow> \<not> next_index q (q_writeIndex q) \<noteq> q_readIndex q"

text \<open>The difference is an \<open>int\<close>, to which an unsigned size is added modulo \<open>2 ^ 32\<close>.\<close>

definition pcq_sizeGuess :: "'a pcq \<Rightarrow> u64" where
  "pcq_sizeGuess q =
     (let ret = q_writeIndex q - q_readIndex q;
          ret = (if sint ret < 0 then ret + q_size q else ret)
      in scast ret)"

definition pcq_capacity :: "'a pcq \<Rightarrow> u32" where
  "pcq_capacity q = q_size q - 1"

section \<open>Two threads\<close>

text \<open>
  The program points. \<open>P_Full\<close> and \<open>C_Empty\<close> are after a failed operation, \<open>P_Size\<close> and \<open>C_Size\<close> after
  \<open>sizeGuess\<close> has returned, \<open>C_Front i\<close> after \<open>frontPtr\<close> has returned the slot \<open>i\<close>, which the consumer
  may use and pop. \<open>C_Destroy\<close> and \<open>C_Store\<close> carry the value taken.
\<close>

datatype 'a producer =
    P_Idle
  | P_Construct u32 u32 'a
  | P_Store u32 'a
  | P_Size u64
  | P_Error

datatype 'a consumer =
    C_Idle
  | C_Move u32
  | C_Destroy u32 'a bool
  | C_Store u32 'a
  | C_Front u32
  | C_Size u64
  | C_Error

inductive p_act :: "'a pcq \<Rightarrow> 'a producer \<Rightarrow> 'a pcq \<Rightarrow> 'a producer \<Rightarrow> bool" where
  write_ok: "pcq_write_check q = Some (i, j) \<Longrightarrow> p_act q P_Idle q (P_Construct i j v)"
| write_full: "pcq_write_check q = None \<Longrightarrow> p_act q P_Idle (q\<lparr>q_hist := q_hist q @ [Write v False]\<rparr>) P_Idle"
| write_construct: "pcq_construct q i v = Inr q' \<Longrightarrow> p_act q (P_Construct i j v) q' (P_Store j v)"
| write_error: "pcq_construct q i v = Inl e \<Longrightarrow> p_act q (P_Construct i j v) q P_Error"
| write_store: "p_act q (P_Store j v) (pcq_publish q j (Write v True)) P_Idle"
| p_size: "p_act q P_Idle q (P_Size (pcq_sizeGuess q))"
| p_size_return: "p_act q (P_Size n) q P_Idle"

inductive c_act :: "'a pcq \<Rightarrow> 'a consumer \<Rightarrow> 'a pcq \<Rightarrow> 'a consumer \<Rightarrow> bool" where
  read_ok: "pcq_read_check q = Some i \<Longrightarrow> c_act q C_Idle q (C_Move i)"
| read_empty: "pcq_read_check q = None \<Longrightarrow> c_act q C_Idle (q\<lparr>q_hist := q_hist q @ [Read None]\<rparr>) C_Idle"
| read_move: "pcq_move q i = Inr (v, q') \<Longrightarrow> c_act q (C_Move i) q' (C_Destroy i v True)"
| read_error: "pcq_move q i = Inl e \<Longrightarrow> c_act q (C_Move i) q C_Error"
| destroy: "pcq_destroy q i = Inr q' \<Longrightarrow> c_act q (C_Destroy i v b) q' (C_Store (next_index q i) v)"
| destroy_error: "pcq_destroy q i = Inl e \<Longrightarrow> c_act q (C_Destroy i v b) q C_Error"
| read_store: "c_act q (C_Store j v) (pcq_consume q j (Read (Some v))) C_Idle"
| front_ok: "pcq_read_check q = Some i \<Longrightarrow> c_act q C_Idle q (C_Front i)"
| front_empty: "pcq_read_check q = None \<Longrightarrow> c_act q C_Idle (q\<lparr>q_hist := q_hist q @ [Read None]\<rparr>) C_Idle"
| front_drop: "c_act q (C_Front i) q C_Idle"
| pop_front: "deref (q_records q) i = Inr v \<Longrightarrow> c_act q (C_Front i) q (C_Destroy i v False)"
| front_error: "deref (q_records q) i = Inl e \<Longrightarrow> c_act q (C_Front i) q C_Error"
| c_size: "c_act q C_Idle q (C_Size (pcq_sizeGuess q))"
| c_size_return: "c_act q (C_Size n) q C_Idle"

inductive pcq_step :: "'a pcq \<times> 'a producer \<times> 'a consumer \<Rightarrow> 'a pcq \<times> 'a producer \<times> 'a consumer \<Rightarrow> bool" where
  producer: "p_act q p q' p' \<Longrightarrow> pcq_step (q, p, c) (q', p', c)"
| consumer: "c_act q c q' c' \<Longrightarrow> pcq_step (q, p, c) (q', p, c')"

inductive_cases p_actE: "p_act q p q' p'"
inductive_cases c_actE: "c_act q c q' c'"
inductive_cases pcq_stepE: "pcq_step (q, p, c) x"

section \<open>The bounded queue\<close>

text \<open>The list that a sequence of outcomes leaves, if each outcome is right for capacity \<open>n\<close>.\<close>

fun fifo_step :: "nat \<Rightarrow> 'a event \<Rightarrow> 'a list \<Rightarrow> 'a list option" where
  "fifo_step n (Write v True) xs = (if length xs < n then Some (xs @ [v]) else None)"
| "fifo_step n (Write v False) xs = (if length xs = n then Some xs else None)"
| "fifo_step n (Read (Some v)) xs = (case xs of x # ys \<Rightarrow> if x = v then Some ys else None | [] \<Rightarrow> None)"
| "fifo_step n (Read None) xs = (if xs = [] then Some xs else None)"

fun fifo_run :: "nat \<Rightarrow> 'a event list \<Rightarrow> 'a list \<Rightarrow> 'a list option" where
  "fifo_run n [] xs = Some xs"
| "fifo_run n (e # es) xs = Option.bind (fifo_step n e xs) (fifo_run n es)"

lemma fifo_run_append: "fifo_run n (es @ fs) xs = Option.bind (fifo_run n es xs) (fifo_run n fs)"
proof (induction es arbitrary: xs)
  case (Cons e es)
  then show ?case by (cases "fifo_step n e xs") simp_all
qed simp

lemma fifo_run_snoc: "fifo_run n es xs = Some ys \<Longrightarrow> fifo_run n (es @ [e]) xs = fifo_step n e ys"
  by (cases "fifo_step n e ys") (simp_all add: fifo_run_append)

section \<open>The invariant\<close>

text \<open>What the first slot and the slot behind the last element hold.\<close>

fun front_slot :: "'a consumer \<Rightarrow> 'a \<Rightarrow> 'a slot" where
  "front_slot (C_Destroy i v b) x = (if b then Moved else Live x)"
| "front_slot (C_Store j v) x = Raw"
| "front_slot c x = Live x"

fun back_slot :: "'a producer \<Rightarrow> 'a slot" where
  "back_slot (P_Store j v) = Live v"
| "back_slot p = Raw"

definition expected :: "'a producer \<Rightarrow> 'a consumer \<Rightarrow> 'a list \<Rightarrow> nat \<Rightarrow> 'a slot" where
  "expected p c xs k =
     (if k < length xs then (if k = 0 then front_slot c (xs ! 0) else Live (xs ! k))
      else if k = length xs then back_slot p else Raw)"

fun producer_ok :: "'a pcq \<Rightarrow> 'a list \<Rightarrow> 'a producer \<Rightarrow> bool" where
  "producer_ok q xs (P_Construct i j v) \<longleftrightarrow>
     i = q_writeIndex q \<and> j = next_index q i \<and> Suc (length xs) < unat (q_size q)"
| "producer_ok q xs (P_Store j v) \<longleftrightarrow> j = next_index q (q_writeIndex q) \<and> Suc (length xs) < unat (q_size q)"
| "producer_ok q xs (P_Size n) \<longleftrightarrow> (q_size q \<le> 0x80000000 \<longrightarrow> length xs \<le> unat n \<and> unat n < unat (q_size q))"
| "producer_ok q xs P_Idle \<longleftrightarrow> True"
| "producer_ok q xs P_Error \<longleftrightarrow> False"

fun consumer_ok :: "'a pcq \<Rightarrow> 'a list \<Rightarrow> 'a consumer \<Rightarrow> bool" where
  "consumer_ok q xs (C_Move i) \<longleftrightarrow> i = q_readIndex q \<and> xs \<noteq> []"
| "consumer_ok q xs (C_Front i) \<longleftrightarrow> i = q_readIndex q \<and> xs \<noteq> []"
| "consumer_ok q xs (C_Destroy i v b) \<longleftrightarrow> i = q_readIndex q \<and> (\<exists>ys. xs = v # ys)"
| "consumer_ok q xs (C_Store j v) \<longleftrightarrow> j = next_index q (q_readIndex q) \<and> (\<exists>ys. xs = v # ys)"
| "consumer_ok q xs (C_Size n) \<longleftrightarrow> (q_size q \<le> 0x80000000 \<longrightarrow> unat n \<le> length xs)"
| "consumer_ok q xs C_Idle \<longleftrightarrow> True"
| "consumer_ok q xs C_Error \<longleftrightarrow> False"

definition buffer_ok :: "'a pcq \<Rightarrow> 'a producer \<Rightarrow> 'a consumer \<Rightarrow> 'a list \<Rightarrow> bool" where
  "buffer_ok q p c xs \<longleftrightarrow>
     (let n = unat (q_size q); r = unat (q_readIndex q)
      in length xs < n \<and> length (q_records q) = n \<and> r < n \<and>
         unat (q_writeIndex q) = (r + length xs) mod n \<and>
         (\<forall>k<n. q_records q ! ((r + k) mod n) = expected p c xs k))"

definition pcq_inv :: "'a pcq \<Rightarrow> 'a producer \<Rightarrow> 'a consumer \<Rightarrow> 'a list \<Rightarrow> bool" where
  "pcq_inv q p c xs \<longleftrightarrow>
     2 \<le> unat (q_size q) \<and> buffer_ok q p c xs \<and> producer_ok q xs p \<and> consumer_ok q xs c \<and>
     fifo_run (unat (q_size q) - 1) (q_hist q) [] = Some xs"

section \<open>Indices\<close>

lemma slot_mod: "(r :: nat) < n \<Longrightarrow> k < n \<Longrightarrow> (r + k) mod n = (if r + k < n then r + k else r + k - n)"
  by (simp add: le_mod_geq)

lemma slot_inj: "(r :: nat) < n \<Longrightarrow> k < n \<Longrightarrow> l < n \<Longrightarrow> (r + k) mod n = (r + l) mod n \<longleftrightarrow> k = l"
  by (auto simp: slot_mod split: if_splits)

lemma slot_next: "(r :: nat) < n \<Longrightarrow> k < n \<Longrightarrow> (Suc r mod n + k) mod n = (r + (if Suc k < n then Suc k else 0)) mod n"
proof (cases "Suc k = n")
  case True
  then have "Suc r + k = r + n" by simp
  then show ?thesis using True by (simp only: mod_add_left_eq mod_add_self2) simp
next
  case False
  moreover assume "k < n"
  ultimately have "Suc k < n" by simp
  then show ?thesis by (simp add: mod_add_left_eq)
qed

lemma slot_empty: "(r :: nat) < n \<Longrightarrow> l < n \<Longrightarrow> r = (r + l) mod n \<longleftrightarrow> l = 0"
  using slot_inj [of r n 0 l] by auto

lemma slot_full: "(r :: nat) < n \<Longrightarrow> l < n \<Longrightarrow> Suc ((r + l) mod n) mod n = r \<longleftrightarrow> Suc l = n"
  by (simp add: mod_Suc slot_mod split: if_splits) linarith

lemma unat_next_index:
  assumes "unat i < unat (q_size q)"
  shows "unat (next_index q i) = Suc (unat i) mod unat (q_size q)"
proof -
  have "unat (q_size q) < 2 ^ 32" using unsigned_less [of "q_size q"] by simp
  then have i: "unat (i + 1) = Suc (unat i)" using assms by (simp add: unat_word_ariths)
  then have "i + 1 = q_size q \<longleftrightarrow> Suc (unat i) = unat (q_size q)" by (metis word_unat_eq_iff)
  then show ?thesis using i assms by (auto simp: next_index_def Let_def)
qed

section \<open>The buffer under the operations\<close>

lemma buffer_slot:
  assumes "buffer_ok q p c xs" "k < unat (q_size q)"
    and "\<And>l. l < unat (q_size q) \<Longrightarrow> l \<noteq> k \<Longrightarrow> expected p' c' xs l = expected p c xs l"
    and "expected p' c' xs k = x"
  shows "buffer_ok (q\<lparr>q_records := (q_records q)[(unat (q_readIndex q) + k) mod unat (q_size q) := x]\<rparr>) p' c' xs"
proof -
  let ?n = "unat (q_size q)" and ?r = "unat (q_readIndex q)"
  have b: "length xs < ?n" "length (q_records q) = ?n" "?r < ?n" "unat (q_writeIndex q) = (?r + length xs) mod ?n"
    "\<And>l. l < ?n \<Longrightarrow> q_records q ! ((?r + l) mod ?n) = expected p c xs l"
    using assms(1) by (simp_all add: buffer_ok_def Let_def)
  have "(q_records q)[(?r + k) mod ?n := x] ! ((?r + l) mod ?n) = expected p' c' xs l" if "l < ?n" for l
    using b assms(2-4) that by (cases "l = k") (simp_all add: slot_inj)
  with b show ?thesis by (simp add: buffer_ok_def Let_def)
qed

lemma buffer_publish:
  assumes "buffer_ok q (P_Store j v) c xs" "Suc (length xs) < unat (q_size q)" "j = next_index q (q_writeIndex q)"
    and "consumer_ok q xs c"
  shows "buffer_ok (pcq_publish q j e) P_Idle c (xs @ [v])"
proof -
  let ?n = "unat (q_size q)" and ?r = "unat (q_readIndex q)"
  have b: "length (q_records q) = ?n" "?r < ?n" "unat (q_writeIndex q) = (?r + length xs) mod ?n"
    "\<And>l. l < ?n \<Longrightarrow> q_records q ! ((?r + l) mod ?n) = expected (P_Store j v) c xs l"
    using assms(1) by (simp_all add: buffer_ok_def Let_def)
  have "expected (P_Store j v) c xs l = expected P_Idle c (xs @ [v]) l" for l
    using assms(4) by (cases c; cases xs) (auto simp: expected_def nth_append nth_Cons' less_Suc_eq)
  moreover have "unat j = (?r + length (xs @ [v])) mod ?n"
    using b(2,3) assms(2) by (simp add: assms(3) unat_next_index mod_Suc_eq)
  ultimately show ?thesis using b assms(2) by (simp add: buffer_ok_def Let_def pcq_publish_def)
qed

lemma buffer_consume:
  assumes "buffer_ok q p (C_Store j v) (x # ys)" "j = next_index q (q_readIndex q)"
  shows "buffer_ok (pcq_consume q j e) p C_Idle ys"
proof -
  let ?n = "unat (q_size q)" and ?r = "unat (q_readIndex q)"
  have b: "Suc (length ys) < ?n" "length (q_records q) = ?n" "?r < ?n" "unat (q_writeIndex q) = (?r + Suc (length ys)) mod ?n"
    "\<And>l. l < ?n \<Longrightarrow> q_records q ! ((?r + l) mod ?n) = expected p (C_Store j v) (x # ys) l"
    using assms(1) by (simp_all add: buffer_ok_def Let_def)
  have j: "unat j = Suc ?r mod ?n" using b(3) by (simp add: assms(2) unat_next_index)
  have "q_records q ! ((Suc ?r mod ?n + k) mod ?n) = expected p C_Idle ys k" if k: "k < ?n" for k
  proof (cases "Suc k < ?n")
    case True
    then have "q_records q ! ((Suc ?r mod ?n + k) mod ?n) = expected p (C_Store j v) (x # ys) (Suc k)"
      using b(5) [of "Suc k"] b(3) k by (simp add: slot_next)
    also have "\<dots> = expected p C_Idle ys k" by (auto simp: expected_def)
    finally show ?thesis .
  next
    case False
    then have "q_records q ! ((Suc ?r mod ?n + k) mod ?n) = expected p (C_Store j v) (x # ys) 0"
      using b(5) [of 0] b(3) k by (simp add: slot_next)
    then show ?thesis using False k b(1) by (simp add: expected_def)
  qed
  moreover have "(Suc ?r mod ?n + length ys) mod ?n = (?r + Suc (length ys)) mod ?n"
    using b(1,3) by (simp add: slot_next)
  ultimately show ?thesis using b j by (simp add: buffer_ok_def Let_def pcq_consume_def)
qed

text \<open>The checks are right at the moment they are made.\<close>

lemma buffer_checks:
  assumes "buffer_ok q p c xs"
  shows "pcq_isEmpty q \<longleftrightarrow> xs = []" "pcq_isFull q \<longleftrightarrow> Suc (length xs) = unat (q_size q)"
    "pcq_read_check q = (if xs = [] then None else Some (q_readIndex q))"
    "pcq_write_check q = (if Suc (length xs) = unat (q_size q) then None else Some (q_writeIndex q, next_index q (q_writeIndex q)))"
proof -
  let ?n = "unat (q_size q)" and ?r = "unat (q_readIndex q)"
  have b: "length xs < ?n" "?r < ?n" "unat (q_writeIndex q) = (?r + length xs) mod ?n"
    using assms by (simp_all add: buffer_ok_def Let_def)
  have empty: "q_readIndex q = q_writeIndex q \<longleftrightarrow> xs = []"
    using slot_empty [OF b(2,1)] by (simp add: word_unat_eq_iff b(3))
  have full: "next_index q (q_writeIndex q) = q_readIndex q \<longleftrightarrow> Suc (length xs) = ?n"
    using slot_full [OF b(2,1)] b by (simp add: word_unat_eq_iff [of "next_index q (q_writeIndex q)"] unat_next_index)
  show "pcq_isEmpty q \<longleftrightarrow> xs = []" "pcq_isFull q \<longleftrightarrow> Suc (length xs) = ?n"
    "pcq_read_check q = (if xs = [] then None else Some (q_readIndex q))"
    "pcq_write_check q = (if Suc (length xs) = ?n then None else Some (q_writeIndex q, next_index q (q_writeIndex q)))"
    by (simp_all add: pcq_isEmpty_def pcq_isFull_def pcq_read_check_def pcq_write_check_def Let_def empty full)
qed

lemma unat_scast_nonneg:
  fixes w :: u32
  assumes "unat w < 2 ^ 31"
  shows "unat (scast w :: u64) = unat w"
proof -
  have "int (unat w) < int (2 ^ 31)" using assms by (rule of_nat_less_iff [THEN iffD2])
  moreover have "int (unat w) = uint w" by (rule of_nat_unat)
  ultimately have "uint w < 2 ^ 31" by (simp only: of_nat_power of_nat_numeral)
  then have "sint w = uint w" unfolding sint_uint
    by (intro signed_take_bit_int_eq_self order_trans [OF _ uint_ge_0]) simp_all
  then have "(scast w :: u64) = ucast w" using of_int_sint [of w, where 'a = "64 word"] of_int_uint [of w, where 'a = "64 word"] by simp
  then show ?thesis using assms by (simp add: unat_ucast_mod)
qed

lemma sizeGuess_exact:
  assumes "buffer_ok q p c xs" "q_size q \<le> 0x80000000"
  shows "unat (pcq_sizeGuess q) = length xs"
proof -
  let ?n = "unat (q_size q)" and ?r = "unat (q_readIndex q)" and ?w = "unat (q_writeIndex q)"
  have b: "length xs < ?n" "?r < ?n" "?w = (?r + length xs) mod ?n"
    using assms by (simp_all add: buffer_ok_def Let_def)
  have n: "?n \<le> 2 ^ 31" using assms(2) by (simp add: word_le_nat_alt)
  define d where "d = q_writeIndex q - q_readIndex q"
  define ret where "ret = (if sint d < 0 then d + q_size q else d)"
  have "unat ret = length xs"
  proof (cases "?r + length xs < ?n")
    case True
    then have w: "?w = ?r + length xs" using b(3) by simp
    then have "unat d = length xs"
      unfolding d_def by (subst unat_sub) (simp_all add: word_le_nat_alt)
    moreover from this have "\<not> sint d < 0" using b(1) n by (simp add: sint_neg_iff)
    ultimately show ?thesis by (simp add: ret_def)
  next
    case False
    then have w: "?w + ?n = ?r + length xs" using b by (simp add: slot_mod)
    have "unat (d + q_size q) = length xs"
    proof -
      have "q_writeIndex q + q_size q = q_readIndex q + of_nat (length xs)"
        using arg_cong [OF w, of "of_nat :: nat \<Rightarrow> u32"] by simp
      then have "d + q_size q = of_nat (length xs)" unfolding d_def by (metis add_diff_cancel_left' add_diff_eq diff_add_eq)
      then show ?thesis using b(1) n by (simp add: unat_of_nat_mod)
    qed
    moreover have "sint d < 0"
    proof -
      have "?w < ?r" using w b by linarith
      moreover have "of_nat ?w = d + of_nat ?r" by (simp add: d_def)
      ultimately have "unat d = 2 ^ 32 + ?w - ?r"
        unfolding d_def by (simp add: unat_sub_if' word_le_nat_alt)
      then show ?thesis using b(2) n by (simp add: sint_neg_iff)
    qed
    ultimately show ?thesis by (simp add: ret_def)
  qed
  moreover from this have "unat (scast ret :: u64) = unat ret" using b(1) n by (intro unat_scast_nonneg) simp
  ultimately show ?thesis unfolding pcq_sizeGuess_def Let_def d_def [symmetric] ret_def [symmetric] by simp
qed

text \<open>With more slots than an \<open>int\<close> can count the guess is not even a possible size.\<close>

lemma sizeGuess_too_large:
  "pcq_sizeGuess \<lparr>q_size = 0xFFFFFFFF, q_records = xs, q_readIndex = 0, q_writeIndex = 0x80000005, q_hist = h\<rparr> =
     0xFFFFFFFF80000004"
  by (simp add: pcq_sizeGuess_def)

section \<open>Every step keeps the invariant\<close>

lemmas pcq_action_simps =
  pcq_construct_def construct_at_def pcq_move_def move_from_def pcq_destroy_def destroy_at_def deref_def

lemma front_index:
  assumes "buffer_ok q p c (x # ys)"
  shows "unat (q_readIndex q) < length (q_records q)" "q_records q ! unat (q_readIndex q) = front_slot c x"
    "0 < unat (q_size q)"
  using assms by (auto simp: buffer_ok_def Let_def expected_def dest: spec [of _ 0])

lemma buffer_front:
  assumes "buffer_ok q p c (x # ys)" "front_slot c' x = y"
  shows "buffer_ok (q\<lparr>q_records := (q_records q)[unat (q_readIndex q) := y]\<rparr>) p c' (x # ys)"
proof -
  have "unat (q_readIndex q) < unat (q_size q)" using assms(1) by (simp add: buffer_ok_def Let_def)
  then show ?thesis
    using buffer_slot [OF assms(1), of 0 p c' y] front_index(3) [OF assms(1)] assms(2) by (simp add: expected_def)
qed

lemma buffer_same_front:
  assumes "buffer_ok q p c xs" "\<And>x ys. xs = x # ys \<Longrightarrow> front_slot c' x = front_slot c x" "back_slot p' = back_slot p"
  shows "buffer_ok q p' c' xs"
proof -
  have "expected p' c' xs = expected p c xs" using assms(2,3) by (cases xs) (auto simp: expected_def)
  then show ?thesis using assms(1) by (simp add: buffer_ok_def)
qed

lemma buffer_hist: "buffer_ok (q\<lparr>q_hist := h\<rparr>) p c xs \<longleftrightarrow> buffer_ok q p c xs"
  by (simp add: buffer_ok_def)

lemma producer_inv:
  assumes act: "p_act q p q' p'" and inv: "pcq_inv q p c xs"
  obtains ys where "pcq_inv q' p' c ys"
proof -
  have I: "2 \<le> unat (q_size q)" "buffer_ok q p c xs" "producer_ok q xs p" "consumer_ok q xs c"
    "fifo_run (unat (q_size q) - 1) (q_hist q) [] = Some xs"
    using inv by (simp_all add: pcq_inv_def)
  have len: "length xs < unat (q_size q)" using I(2) by (simp add: buffer_ok_def Let_def)
  note checks = buffer_checks [OF I(2)]
  show thesis
    using act
  proof cases
    case (write_ok i j v)
    then have "pcq_inv q' p' c xs"
      using I len checks(4) by (auto simp: pcq_inv_def split: if_splits intro: buffer_same_front)
    then show ?thesis by (rule that)
  next
    case (write_full v)
    then have "consumer_ok q' xs c" using I(4) by (cases c) (simp_all add: next_index_def)
    with write_full have "pcq_inv q' p' c xs"
      using I len checks(4) by (auto simp: pcq_inv_def fifo_run_snoc buffer_hist split: if_splits)
    then show ?thesis by (rule that)
  next
    case (write_construct i v j)
    let ?i = "(unat (q_readIndex q) + length xs) mod unat (q_size q)"
    have i: "unat i = ?i" "unat i < length (q_records q)" and raw: "q_records q ! ?i = Raw"
      using I(2,3) write_construct(1) len by (auto simp: buffer_ok_def Let_def expected_def)
    have q': "q' = q\<lparr>q_records := (q_records q)[?i := Live v]\<rparr>"
      using write_construct(3) i raw by (simp add: pcq_action_simps)
    have "buffer_ok q' p' c xs"
      unfolding q' by (rule buffer_slot [OF I(2)]) (use len write_construct in \<open>auto simp: expected_def\<close>)
    moreover have "consumer_ok q' xs c" using I(4) q' by (cases c) (simp_all add: next_index_def)
    ultimately have "pcq_inv q' p' c xs"
      using I q' write_construct by (simp add: pcq_inv_def next_index_def)
    then show ?thesis by (rule that)
  next
    case (write_error i v e j)
    have "unat i < length (q_records q)" "q_records q ! unat i = Raw"
      using I(2,3) write_error len by (auto simp: buffer_ok_def Let_def expected_def)
    then have False using write_error by (simp add: pcq_action_simps)
    then show ?thesis ..
  next
    case (write_store j v)
    have "buffer_ok q' p' c (xs @ [v])"
      unfolding write_store using I write_store by (intro buffer_publish) simp_all
    moreover have "consumer_ok q' (xs @ [v]) c"
      using I(4) write_store by (cases c) (auto simp: next_index_def pcq_publish_def)
    moreover have "fifo_run (unat (q_size q) - 1) (q_hist q @ [Write v True]) [] = Some (xs @ [v])"
      using fifo_run_snoc [OF I(5), of "Write v True"] I(3) write_store by auto
    ultimately have "pcq_inv q' p' c (xs @ [v])"
      using I(1) write_store by (simp add: pcq_inv_def pcq_publish_def)
    then show ?thesis by (rule that)
  next
    case p_size
    then have "pcq_inv q' p' c xs"
      using I len sizeGuess_exact [OF I(2)] by (auto simp: pcq_inv_def intro: buffer_same_front)
    then show ?thesis by (rule that)
  next
    case (p_size_return n)
    then have "pcq_inv q' p' c xs" using I by (auto simp: pcq_inv_def intro: buffer_same_front)
    then show ?thesis by (rule that)
  qed
qed

lemma consumer_inv:
  assumes act: "c_act q c q' c'" and inv: "pcq_inv q p c xs"
  obtains ys where "pcq_inv q' p c' ys"
proof -
  have I: "2 \<le> unat (q_size q)" "buffer_ok q p c xs" "producer_ok q xs p" "consumer_ok q xs c"
    "fifo_run (unat (q_size q) - 1) (q_hist q) [] = Some xs"
    using inv by (simp_all add: pcq_inv_def)
  have len: "length xs < unat (q_size q)" using I(2) by (simp add: buffer_ok_def Let_def)
  note checks = buffer_checks [OF I(2)]
  have idle: "pcq_inv q' p c' xs" if "q' = q" "\<And>x. front_slot c' x = front_slot c x" "consumer_ok q xs c'"
    using I that by (auto simp: pcq_inv_def intro: buffer_same_front)
  show thesis
    using act
  proof cases
    case (read_ok i)
    then have "pcq_inv q' p c' xs" using checks(3) by (intro idle) (auto split: if_splits)
    then show ?thesis by (rule that)
  next
    case read_empty
    then have "producer_ok q' xs p" using I(3) by (cases p) (simp_all add: next_index_def)
    with read_empty have "pcq_inv q' p c' xs"
      using I len checks(3) by (auto simp: pcq_inv_def fifo_run_snoc buffer_hist split: if_splits)
    then show ?thesis by (rule that)
  next
    case (read_move i v)
    then obtain x ys where xs: "xs = x # ys" "i = q_readIndex q" using I(4) by (cases xs) auto
    have "v = x" and q': "q' = q\<lparr>q_records := (q_records q)[unat (q_readIndex q) := Moved]\<rparr>"
      using read_move front_index [OF I(2) [unfolded xs]] by (simp_all add: pcq_action_simps xs)
    moreover have "buffer_ok q' p c' xs"
      unfolding q' xs(1) by (rule buffer_front [OF I(2) [unfolded xs(1)]]) (simp add: read_move)
    moreover have "producer_ok q' xs p" using I(3) q' by (cases p) (simp_all add: next_index_def)
    ultimately have "pcq_inv q' p c' xs" using I read_move xs by (simp add: pcq_inv_def)
    then show ?thesis by (rule that)
  next
    case (read_error i e)
    then obtain x ys where xs: "xs = x # ys" "i = q_readIndex q" using I(4) by (cases xs) auto
    then have False using read_error front_index [OF I(2) [unfolded xs]] by (simp add: pcq_action_simps)
    then show ?thesis ..
  next
    case (destroy i v b)
    then obtain ys where xs: "xs = v # ys" "i = q_readIndex q" using I(4) by auto
    have q': "q' = q\<lparr>q_records := (q_records q)[unat (q_readIndex q) := Raw]\<rparr>"
      using destroy front_index [OF I(2) [unfolded xs]] by (simp add: pcq_action_simps xs split: if_splits)
    moreover have "buffer_ok q' p c' xs"
      unfolding q' xs(1) by (rule buffer_front [OF I(2) [unfolded xs(1)]]) (simp add: destroy)
    moreover have "producer_ok q' xs p" using I(3) q' by (cases p) (simp_all add: next_index_def)
    ultimately have "pcq_inv q' p c' xs" using I destroy xs by (simp add: pcq_inv_def next_index_def)
    then show ?thesis by (rule that)
  next
    case (destroy_error i e v b)
    then obtain ys where xs: "xs = v # ys" "i = q_readIndex q" using I(4) by auto
    then have False using destroy_error front_index [OF I(2) [unfolded xs]] by (simp add: pcq_action_simps split: if_splits)
    then show ?thesis ..
  next
    case (read_store j v)
    then obtain ys where xs: "xs = v # ys" "j = next_index q (q_readIndex q)" using I(4) by auto
    have "buffer_ok q' p c' ys"
      unfolding read_store using I(2) read_store xs by (intro buffer_consume [where x = v]) simp_all
    moreover have "producer_ok q' ys p"
      using I(3) read_store xs by (cases p) (auto simp: next_index_def pcq_consume_def)
    moreover have "fifo_run (unat (q_size q) - 1) (q_hist q @ [Read (Some v)]) [] = Some ys"
      using fifo_run_snoc [OF I(5), of "Read (Some v)"] xs by simp
    ultimately have "pcq_inv q' p c' ys" using I(1) read_store by (simp add: pcq_inv_def pcq_consume_def)
    then show ?thesis by (rule that)
  next
    case (front_ok i)
    then have "pcq_inv q' p c' xs" using checks(3) by (intro idle) (auto split: if_splits)
    then show ?thesis by (rule that)
  next
    case front_empty
    then have "producer_ok q' xs p" using I(3) by (cases p) (simp_all add: next_index_def)
    with front_empty have "pcq_inv q' p c' xs"
      using I len checks(3) by (auto simp: pcq_inv_def fifo_run_snoc buffer_hist split: if_splits)
    then show ?thesis by (rule that)
  next
    case (front_drop i)
    then have "pcq_inv q' p c' xs" by (intro idle) auto
    then show ?thesis by (rule that)
  next
    case (pop_front i v)
    then obtain x ys where xs: "xs = x # ys" "i = q_readIndex q" using I(4) by (cases xs) auto
    have "v = x" using pop_front front_index [OF I(2) [unfolded xs]] by (simp add: pcq_action_simps xs)
    then have "buffer_ok q' p c' xs"
      using I(2) pop_front xs by (auto intro: buffer_same_front)
    with \<open>v = x\<close> have "pcq_inv q' p c' xs" using I pop_front xs by (simp add: pcq_inv_def)
    then show ?thesis by (rule that)
  next
    case (front_error i e)
    then obtain x ys where xs: "xs = x # ys" "i = q_readIndex q" using I(4) by (cases xs) auto
    then have False using front_error front_index [OF I(2) [unfolded xs]] by (simp add: pcq_action_simps)
    then show ?thesis ..
  next
    case c_size
    then have "pcq_inv q' p c' xs" using sizeGuess_exact [OF I(2)] by (intro idle) auto
    then show ?thesis by (rule that)
  next
    case (c_size_return n)
    then have "pcq_inv q' p c' xs" by (intro idle) auto
    then show ?thesis by (rule that)
  qed
qed

lemma pcq_inv_step: "pcq_step (q, p, c) (q', p', c') \<Longrightarrow> pcq_inv q p c xs \<Longrightarrow> \<exists>ys. pcq_inv q' p' c' ys"
  by (erule pcq_stepE) (auto elim: producer_inv consumer_inv)

lemma pcq_inv_new:
  assumes "pcq_new sz = Inr q"
  shows "pcq_inv q P_Idle C_Idle []"
proof -
  have "2 \<le> unat sz" using assms by (simp add: pcq_new_def word_le_nat_alt split: if_splits)
  then show ?thesis using assms
    by (auto simp: pcq_new_def pcq_inv_def buffer_ok_def expected_def Let_def split: if_splits)
qed

lemmas rtranclp_induct3 = rtranclp_induct [of _ "(ax, ay, az)" "(bx, by, bz)", split_rule, consumes 1, case_names refl step]

lemma q_size_step: "pcq_step (q, p, c) (q', p', c') \<Longrightarrow> q_size q' = q_size q"
  by (auto elim!: pcq_stepE p_actE c_actE
      simp: pcq_publish_def pcq_consume_def pcq_construct_def pcq_move_def pcq_destroy_def andthen_eq_Inr_iff)

lemma pcq_inv_reachable:
  assumes "pcq_step\<^sup>*\<^sup>* (q, P_Idle, C_Idle) (q', p, c)" "pcq_new sz = Inr q"
  shows "q_size q' = sz \<and> (\<exists>xs. pcq_inv q' p c xs)"
proof -
  have start: "q_size q = sz \<and> (\<exists>xs. pcq_inv q P_Idle C_Idle xs)"
    using pcq_inv_new [OF assms(2)] assms(2) by (auto simp: pcq_new_def split: if_splits)
  have keep: "q_size q2 = sz \<and> (\<exists>xs. pcq_inv q2 p2 c2 xs)"
    if "q_size q1 = sz \<and> (\<exists>xs. pcq_inv q1 p1 c1 xs)" "pcq_step (q1, p1, c1) (q2, p2, c2)" for q1 p1 c1 q2 p2 c2
    using that(1) pcq_inv_step [OF that(2)] q_size_step [OF that(2)] by auto
  show ?thesis
    using assms(1) by (induction rule: rtranclp_induct3) (rule start, rule keep)
qed

section \<open>Destruction\<close>

lemma all_raw:
  assumes "buffer_ok q P_Idle C_Idle []"
  shows "q_records q = replicate (unat (q_size q)) Raw"
proof (rule nth_equalityI)
  let ?n = "unat (q_size q)" and ?r = "unat (q_readIndex q)"
  have b: "?r < ?n" "length (q_records q) = ?n" "\<And>k. k < ?n \<Longrightarrow> q_records q ! ((?r + k) mod ?n) = Raw"
    using assms by (simp_all add: buffer_ok_def Let_def expected_def)
  then show "length (q_records q) = length (replicate ?n Raw)" by simp
  fix j assume "j < length (q_records q)"
  then have j: "j < ?n" using b by simp
  define k where "k = (if ?r \<le> j then j - ?r else j + ?n - ?r)"
  have "k < ?n" "(?r + k) mod ?n = j" using j b(1) by (auto simp: k_def)
  then show "q_records q ! j = replicate ?n Raw ! j" using b(3) [of k] j by simp
qed

lemma pcq_delete_loop_cong:
  "q_writeIndex q = q_writeIndex q' \<Longrightarrow> q_size q = q_size q' \<Longrightarrow> pcq_delete_loop q n = pcq_delete_loop q' n"
  by (induction n) (intro ext, simp add: next_index_def)+

lemma pcq_delete_loop_raw:
  "buffer_ok q P_Idle C_Idle xs \<Longrightarrow> length xs \<le> m \<Longrightarrow>
   pcq_delete_loop q m (q_readIndex q) (q_records q) = Inr (replicate (unat (q_size q)) Raw)"
proof (induction xs arbitrary: q m)
  case Nil
  then have "q_readIndex q = q_writeIndex q" using buffer_checks(1) by (auto simp: pcq_isEmpty_def)
  then show ?case using all_raw [OF Nil(1)] by (cases m) simp_all
next
  case (Cons x xs)
  then obtain k where m: "m = Suc k" "length xs \<le> k" by (cases m) auto
  have ne: "q_readIndex q \<noteq> q_writeIndex q" using buffer_checks(1) [OF Cons(2)] by (simp add: pcq_isEmpty_def)
  define q1 where "q1 = q\<lparr>q_records := (q_records q)[unat (q_readIndex q) := Raw]\<rparr>"
  have "destroy_at (q_records q) (q_readIndex q) = Inr (q_records q1)"
    using front_index [OF Cons(2)] by (simp add: destroy_at_def q1_def)
  moreover have b1: "buffer_ok q1 P_Idle (C_Store (next_index q (q_readIndex q)) x) (x # xs)"
    unfolding q1_def by (rule buffer_front [OF Cons(2)]) simp
  define q2 where "q2 = pcq_consume q1 (next_index q (q_readIndex q)) (Read None)"
  have "buffer_ok q2 P_Idle C_Idle xs"
    unfolding q2_def by (rule buffer_consume [OF b1]) (simp add: q1_def next_index_def)
  from Cons.IH [OF this m(2)]
  have "pcq_delete_loop q2 k (next_index q (q_readIndex q)) (q_records q1) = Inr (replicate (unat (q_size q)) Raw)"
    by (simp add: q2_def pcq_consume_def q1_def)
  then have "pcq_delete_loop q k (next_index q (q_readIndex q)) (q_records q1) = Inr (replicate (unat (q_size q)) Raw)"
    by (subst pcq_delete_loop_cong [where q' = q2]) (simp_all add: q2_def pcq_consume_def q1_def)
  ultimately show ?case using ne m by simp
qed

section \<open>What the history says\<close>

definition written :: "'a event list \<Rightarrow> 'a list" where
  "written h = concat (map (\<lambda>e. case e of Write v True \<Rightarrow> [v] | _ \<Rightarrow> []) h)"

definition taken :: "'a event list \<Rightarrow> 'a list" where
  "taken h = concat (map (\<lambda>e. case e of Read (Some v) \<Rightarrow> [v] | _ \<Rightarrow> []) h)"

lemma fifo_order: "fifo_run n h xs = Some ys \<Longrightarrow> xs @ written h = taken h @ ys"
proof (induction h arbitrary: xs)
  case (Cons e h)
  then obtain zs where zs: "fifo_step n e xs = Some zs" "fifo_run n h zs = Some ys"
    by (auto simp: bind_eq_Some_conv)
  then show ?case using Cons.IH [OF zs(2)]
    by (cases "(n, e, xs)" rule: fifo_step.cases) (auto simp: written_def taken_def split: if_splits list.splits)
qed (simp add: written_def taken_def)

text \<open>The slot an operation is about to access.\<close>

fun p_slot :: "'a producer \<Rightarrow> u32 option" where
  "p_slot (P_Construct i j v) = Some i"
| "p_slot p = None"

fun c_slot :: "'a consumer \<Rightarrow> u32 option" where
  "c_slot (C_Move i) = Some i"
| "c_slot (C_Destroy i v b) = Some i"
| "c_slot (C_Front i) = Some i"
| "c_slot c = None"

lemma no_race:
  assumes "pcq_inv q p c xs"
  shows "p_slot p = None \<or> c_slot c = None \<or> p_slot p \<noteq> c_slot c"
proof -
  have "q_readIndex q = q_writeIndex q \<longleftrightarrow> xs = []"
    using assms buffer_checks(1) [of q p c xs] by (simp add: pcq_inv_def pcq_isEmpty_def)
  then show ?thesis using assms by (cases p; cases c) (auto simp: pcq_inv_def)
qed

fun p_rank :: "'a producer \<Rightarrow> nat" where
  "p_rank (P_Construct i j v) = 2"
| "p_rank (P_Store j v) = 1"
| "p_rank (P_Size n) = 1"
| "p_rank p = 0"

fun c_rank :: "'a consumer \<Rightarrow> nat" where
  "c_rank (C_Move i) = 3"
| "c_rank (C_Front i) = 3"
| "c_rank (C_Destroy i v b) = 2"
| "c_rank (C_Store j v) = 1"
| "c_rank (C_Size n) = 1"
| "c_rank c = 0"

lemma p_progress: "p \<noteq> P_Idle \<Longrightarrow> p \<noteq> P_Error \<Longrightarrow> \<exists>q' p'. p_act q p q' p'"
proof (cases p)
  case (P_Construct i j v)
  then show ?thesis by (cases "pcq_construct q i v") (auto intro: p_act.intros)
qed (auto intro: p_act.intros)

lemma c_progress: "c \<noteq> C_Idle \<Longrightarrow> c \<noteq> C_Error \<Longrightarrow> \<exists>q' c'. c_act q c q' c'"
proof (cases c)
  case (C_Move i)
  then show ?thesis by (cases "pcq_move q i") (auto intro: c_act.intros)
next
  case (C_Destroy i v b)
  then show ?thesis by (cases "pcq_destroy q i") (auto intro: c_act.intros)
qed (auto intro: c_act.intros)

lemma p_rank_less: "p_act q p q' p' \<Longrightarrow> p \<noteq> P_Idle \<Longrightarrow> p_rank p' < p_rank p"
  by (auto elim!: p_actE)

lemma c_rank_less: "c_act q c q' c' \<Longrightarrow> c \<noteq> C_Idle \<Longrightarrow> c_rank c' < c_rank c"
  by (auto elim!: c_actE)

section \<open>Properties\<close>

text \<open>
  C4. For every interleaving of one producer and one consumer: no operation accesses a slot in the
  wrong state or the slot the other thread is about to access; the outcomes of all operations, in
  the order in which they take effect, are those of a FIFO list bounded by the capacity, so that a
  write fails only when the queue is full, a read only when it is empty, and the values read are
  those written, in order, but for the elements still queued. \<open>isEmpty\<close>, \<open>isFull\<close> and, for a size of
  at most \<open>2 ^ 31\<close>, \<open>sizeGuess\<close> are right about that list at the moment of the loads.
\<close>

theorem pcq_fifo:
  assumes "pcq_new sz = Inr q0" "pcq_step\<^sup>*\<^sup>* (q0, P_Idle, C_Idle) (q, p, c)"
  shows "p \<noteq> P_Error \<and> c \<noteq> C_Error \<and> (p_slot p = None \<or> c_slot c = None \<or> p_slot p \<noteq> c_slot c) \<and>
    (\<exists>xs. fifo_run (unat (pcq_capacity q)) (q_hist q) [] = Some xs \<and>
       written (q_hist q) = taken (q_hist q) @ xs \<and> length xs \<le> unat (pcq_capacity q) \<and>
       pcq_isEmpty q = (xs = []) \<and> pcq_isFull q = (length xs = unat (pcq_capacity q)) \<and>
       (sz \<le> 0x80000000 \<longrightarrow> unat (pcq_sizeGuess q) = length xs))"
proof -
  obtain xs where sz: "q_size q = sz" and inv: "pcq_inv q p c xs"
    using pcq_inv_reachable [OF assms(2,1)] by blast
  have I: "2 \<le> unat (q_size q)" "buffer_ok q p c xs" "producer_ok q xs p" "consumer_ok q xs c"
    "fifo_run (unat (q_size q) - 1) (q_hist q) [] = Some xs"
    using inv by (simp_all add: pcq_inv_def)
  have cap: "unat (pcq_capacity q) = unat (q_size q) - 1"
    using I(1) by (simp add: pcq_capacity_def unat_sub word_le_nat_alt)
  have len: "length xs < unat (q_size q)" using I(2) by (simp add: buffer_ok_def Let_def)
  have "p \<noteq> P_Error" "c \<noteq> C_Error" using I(3,4) by auto
  moreover have "written (q_hist q) = taken (q_hist q) @ xs" using fifo_order [OF I(5)] by simp
  ultimately show ?thesis
    using no_race [OF inv] I(5) len buffer_checks(1,2) [OF I(2)] sizeGuess_exact [OF I(2)] sz
    by (auto simp: cap intro!: exI [of _ xs])
qed

definition pcq_example :: "nat pcq" where
  "pcq_example = \<lparr>q_size = 2, q_records = [Raw, Raw], q_readIndex = 0, q_writeIndex = 0, q_hist = []\<rparr>"

lemma two_slots: "replicate (unat (2 :: u32)) x = [x, x]"
proof -
  have "unat (2 :: u32) = Suc (Suc 0)" by simp
  then show ?thesis by (simp only: replicate.simps)
qed

lemma pcq_example_new: "pcq_new 2 = Inr pcq_example"
  by (simp add: pcq_new_def pcq_example_def ) (simp add: numeral_2_eq_2)

theorem pcq_fifo_witness:
  "\<exists>q. pcq_step\<^sup>*\<^sup>* (pcq_example, P_Idle, C_Idle) (q, P_Idle, C_Idle) \<and> q_hist q = [Write 7 True] \<and>
     (\<exists>xs. fifo_run (unat (pcq_capacity q)) (q_hist q) [] = Some xs \<and> written (q_hist q) = taken (q_hist q) @ xs)"
proof -
  define q1 where "q1 = pcq_example\<lparr>q_records := [Live 7, Raw]\<rparr>"
  define q2 where "q2 = pcq_publish q1 1 (Write 7 True)"
  have "pcq_write_check pcq_example = Some (0, 1)"
    by (simp add: pcq_write_check_def pcq_example_def next_index_def)
  moreover have "pcq_construct pcq_example 0 7 = Inr q1"
    by (simp add: pcq_construct_def construct_at_def pcq_example_def q1_def)
  ultimately have run: "pcq_step\<^sup>*\<^sup>* (pcq_example, P_Idle, C_Idle) (q2, P_Idle, C_Idle)"
    unfolding q2_def
    by (meson converse_rtranclp_into_rtranclp rtranclp.rtrancl_refl pcq_step.producer p_act.write_ok p_act.write_construct p_act.write_store)
  moreover have "q_hist q2 = [Write 7 True]" by (simp add: q2_def q1_def pcq_publish_def pcq_example_def)
  ultimately show ?thesis using pcq_fifo [OF pcq_example_new run] by blast
qed

text \<open>
  C36. An operation in progress can always take its next step, and it returns after at most three
  more steps of its own thread, whatever the other thread does; destroying the queue when no operation
  is in progress destroys exactly the elements that are left.
\<close>

theorem pcq_wait_free:
  assumes "pcq_new sz = Inr q0" "pcq_step\<^sup>*\<^sup>* (q0, P_Idle, C_Idle) (q, p, c)"
  shows "(p \<noteq> P_Idle \<longrightarrow> (\<exists>q' p'. p_act q p q' p') \<and>
       (\<forall>q' p'. p_act q p q' p' \<longrightarrow> p_rank p' < p_rank p \<and> p_rank p \<le> 3)) \<and>
    (c \<noteq> C_Idle \<longrightarrow> (\<exists>q' c'. c_act q c q' c') \<and>
       (\<forall>q' c'. c_act q c q' c' \<longrightarrow> c_rank c' < c_rank c \<and> c_rank c \<le> 3)) \<and>
    (p = P_Idle \<and> c = C_Idle \<longrightarrow> pcq_delete q = Inr (replicate (unat sz) Raw))"
proof (intro conjI impI allI)
  obtain xs where sz: "q_size q = sz" and inv: "pcq_inv q p c xs"
    using pcq_inv_reachable [OF assms(2,1)] by blast
  have "p \<noteq> P_Error" "c \<noteq> C_Error" using inv by (auto simp: pcq_inv_def)
  then show "p \<noteq> P_Idle \<Longrightarrow> \<exists>q' p'. p_act q p q' p'" "c \<noteq> C_Idle \<Longrightarrow> \<exists>q' c'. c_act q c q' c'"
    using p_progress c_progress by blast+
  show "p_rank p' < p_rank p" "p_rank p \<le> 3" if "p_act q p q' p'" "p \<noteq> P_Idle" for q' p'
    using that p_rank_less [of q p q' p'] by (cases p; auto)+
  show "c_rank c' < c_rank c" "c_rank c \<le> 3" if "c_act q c q' c'" "c \<noteq> C_Idle" for q' c'
    using that c_rank_less [of q c q' c'] by (cases c; auto)+
  assume "p = P_Idle \<and> c = C_Idle"
  then have b: "buffer_ok q P_Idle C_Idle xs" using inv by (simp add: pcq_inv_def)
  then have "length xs \<le> length (q_records q)" by (simp add: buffer_ok_def Let_def)
  from pcq_delete_loop_raw [OF b this] show "pcq_delete q = Inr (replicate (unat sz) Raw)"
    by (simp add: pcq_delete_def sz)
qed

theorem pcq_wait_free_witness:
  "(\<exists>q p. p_act pcq_example (P_Construct 0 1 7) q p) \<and> pcq_delete pcq_example = Inr [Raw, Raw]"
proof -
  have "pcq_write_check pcq_example = Some (0, 1)"
    by (simp add: pcq_write_check_def pcq_example_def next_index_def)
  then have "pcq_step\<^sup>*\<^sup>* (pcq_example, P_Idle, C_Idle) (pcq_example, P_Construct 0 1 7, C_Idle)"
    by (intro r_into_rtranclp pcq_step.producer p_act.write_ok)
  from pcq_wait_free [OF pcq_example_new this]
  have "\<exists>q p. p_act pcq_example (P_Construct 0 1 7) q p" by simp
  moreover have "pcq_delete pcq_example = Inr [Raw, Raw]"
    using pcq_wait_free [OF pcq_example_new rtranclp.rtrancl_refl] by (simp only: two_slots)
  ultimately show ?thesis ..
qed

end
