(* ===== verification/Folly_EvictingCache.thy ===== *)
theory Folly_EvictingCache
  imports Prelude "HOL-Library.AList"
begin

text \<open>
  \<open>folly/container/EvictingCacheMap.h\<close>: a map with a bound on its size that evicts the least recently
  used elements.

  Nodes are objects on the heap: \<open>ecm_nodes\<close> gives the pair in each allocated node, and the use of a
  node that has been freed is \<open>Undefined_Behaviour\<close>. The list \<open>lru_\<close> is a list of nodes, front first.
  The index is \<open>boost::intrusive::unordered_set\<close>, whose code is not part of the repository: it is a
  record of operations, an argument of the definitions, with its documented behaviour as the locale
  \<open>cache_index\<close>. A prune hook is a function of key, value and the state \<open>'w\<close> of the world, which says
  whether it throws; it does not access the map.
\<close>

section \<open>Definitions\<close>

type_synonym addr = nat

record ('k, 'ix) index_ops =
  op_find :: "'ix \<Rightarrow> 'k \<Rightarrow> addr option"
  op_insert :: "'ix \<Rightarrow> 'k \<Rightarrow> addr \<Rightarrow> 'ix \<times> addr \<times> bool"
  op_erase :: "'ix \<Rightarrow> 'k \<Rightarrow> addr \<Rightarrow> 'ix"
  op_count :: "'ix \<Rightarrow> nat"

type_synonym ('k, 'v, 'w) hook = "'k \<Rightarrow> 'v \<Rightarrow> 'w \<Rightarrow> 'w \<times> bool"

record ('k, 'v, 'w, 'ix) ecm =
  ecm_nodes :: "addr \<Rightarrow> ('k \<times> 'v) option"
  ecm_fresh :: addr
  ecm_index :: 'ix
  ecm_lru :: "addr list"
  ecm_maxSize :: nat
  ecm_clearSize :: nat
  ecm_hook :: "('k, 'v, 'w) hook option"

datatype exn = Cxx cxx_error | Hook_Threw

definition ecm_new :: "'ix \<Rightarrow> nat \<Rightarrow> nat \<Rightarrow> ('k, 'v, 'w, 'ix) ecm" where
  "ecm_new ix maxSize clearSize =
     \<lparr>ecm_nodes = (\<lambda>_. None), ecm_fresh = 0, ecm_index = ix, ecm_lru = [],
      ecm_maxSize = maxSize, ecm_clearSize = clearSize, ecm_hook = None\<rparr>"

text \<open>\<open>lru_.iterator_to(*it)\<close> followed by an access to the node.\<close>

definition node_at :: "('k, 'v, 'w, 'ix) ecm \<Rightarrow> addr \<Rightarrow> exn + 'k \<times> 'v" where
  "node_at s a = (case ecm_nodes s a of None \<Rightarrow> Inl (Cxx Undefined_Behaviour) | Some x \<Rightarrow> Inr x)"

definition ecm_size :: "('k, 'ix) index_ops \<Rightarrow> ('k, 'v, 'w, 'ix) ecm \<Rightarrow> nat" where
  "ecm_size ops s = op_count ops (ecm_index s)"

definition ecm_empty :: "('k, 'ix) index_ops \<Rightarrow> ('k, 'v, 'w, 'ix) ecm \<Rightarrow> bool" where
  "ecm_empty ops s \<longleftrightarrow> op_count ops (ecm_index s) = 0"

definition findInIndex :: "('k, 'ix) index_ops \<Rightarrow> 'k \<Rightarrow> ('k, 'v, 'w, 'ix) ecm \<Rightarrow> addr option" where
  "findInIndex ops k s = op_find ops (ecm_index s) k"

fun pruneWithFailSafeOption ::
  "('k, 'ix) index_ops \<Rightarrow> ('k, 'v, 'w) hook option \<Rightarrow> bool \<Rightarrow> nat \<Rightarrow> ('k, 'v, 'w, 'ix) ecm \<Rightarrow> 'w \<Rightarrow>
   ('k, 'v, 'w, 'ix) ecm \<times> 'w \<times> (exn + unit)" where
  "pruneWithFailSafeOption ops pruneHook failSafe 0 s w = (s, w, Inr ())"
| "pruneWithFailSafeOption ops pruneHook failSafe (Suc n) s w =
     (if ecm_lru s = [] then (s, w, Inr ())
      else case node_at s (last (ecm_lru s)) of
        Inl e \<Rightarrow> (s, w, Inl e)
      | Inr (k, v) \<Rightarrow>
          let ph = (case pruneHook of None \<Rightarrow> ecm_hook s | Some h \<Rightarrow> Some h);
              node = last (ecm_lru s);
              s = s\<lparr>ecm_lru := butlast (ecm_lru s)\<rparr>;
              s = s\<lparr>ecm_index := op_erase ops (ecm_index s) k node\<rparr>;
              s = s\<lparr>ecm_nodes := (ecm_nodes s)(node := None)\<rparr>
          in case ph of
               None \<Rightarrow> pruneWithFailSafeOption ops pruneHook failSafe n s w
             | Some h \<Rightarrow>
                 let (w, threw) = h k v w
                 in if threw \<and> \<not> failSafe then (s, w, Inl Hook_Threw)
                    else pruneWithFailSafeOption ops pruneHook failSafe n s w)"

definition ecm_prune where
  "ecm_prune ops pruneSize pruneHook s w = pruneWithFailSafeOption ops pruneHook False pruneSize s w"

definition ecm_clear where
  "ecm_clear ops pruneHook s w = ecm_prune ops (ecm_size ops s) pruneHook s w"

definition ecm_setPruneHook where
  "ecm_setPruneHook pruneHook s = s\<lparr>ecm_hook := pruneHook\<rparr>"

definition ecm_delete where
  "ecm_delete ops s w =
     (let s = ecm_setPruneHook None s
      in pruneWithFailSafeOption ops None True (ecm_size ops s) s w)"

definition ecm_setMaxSize where
  "ecm_setMaxSize ops maxSize pruneHook s w =
     (if maxSize \<noteq> 0 \<and> maxSize < ecm_size ops s then
        case ecm_prune ops (max (ecm_size ops s - maxSize) (ecm_clearSize s)) pruneHook s w of
          (s, w, Inl e) \<Rightarrow> (s, w, Inl e)
        | (s, w, Inr u) \<Rightarrow> (s\<lparr>ecm_maxSize := maxSize\<rparr>, w, Inr ())
      else (s\<lparr>ecm_maxSize := maxSize\<rparr>, w, Inr ()))"

definition ecm_setClearSize where
  "ecm_setClearSize clearSize s = s\<lparr>ecm_clearSize := clearSize\<rparr>"

definition ecm_exists where
  "ecm_exists ops k s = (findInIndex ops k s \<noteq> None)"

definition promote_node :: "addr \<Rightarrow> ('k, 'v, 'w, 'ix) ecm \<Rightarrow> ('k, 'v, 'w, 'ix) ecm" where
  "promote_node a s = s\<lparr>ecm_lru := a # remove1 a (ecm_lru s)\<rparr>"

definition ecm_find where
  "ecm_find ops k s =
     (case findInIndex ops k s of
        None \<Rightarrow> (s, None)
      | Some a \<Rightarrow> (promote_node a s, Some a))"

definition ecm_get where
  "ecm_get ops k s =
     (case ecm_find ops k s of
        (s, None) \<Rightarrow> (s, Inl (Cxx Out_Of_Range))
      | (s, Some a) \<Rightarrow> (s, case node_at s a of Inl e \<Rightarrow> Inl e | Inr (k, v) \<Rightarrow> Inr v))"

definition ecm_findWithoutPromotion where
  "ecm_findWithoutPromotion ops k s = findInIndex ops k s"

definition ecm_getWithoutPromotion where
  "ecm_getWithoutPromotion ops k s =
     (case ecm_findWithoutPromotion ops k s of
        None \<Rightarrow> Inl (Cxx Out_Of_Range)
      | Some a \<Rightarrow> (case node_at s a of Inl e \<Rightarrow> Inl e | Inr (k, v) \<Rightarrow> Inr v))"

text \<open>The iterator behind the erased one; \<open>None\<close> is \<open>end()\<close>.\<close>

definition ecm_erase_at where
  "ecm_erase_at ops a s =
     (case node_at s a of
        Inl e \<Rightarrow> (s, Inl e)
      | Inr (k, v) \<Rightarrow>
          let s = s\<lparr>ecm_index := op_erase ops (ecm_index s) k a\<rparr>;
              behind = tl (dropWhile (\<lambda>b. b \<noteq> a) (ecm_lru s));
              s = s\<lparr>ecm_lru := remove1 a (ecm_lru s)\<rparr>
          in (s\<lparr>ecm_nodes := (ecm_nodes s)(a := None)\<rparr>, Inr (if behind = [] then None else Some (hd behind))))"

definition ecm_erase where
  "ecm_erase ops k s =
     (case findInIndex ops k s of
        None \<Rightarrow> (s, Inr False)
      | Some a \<Rightarrow> (case ecm_erase_at ops a s of (s, Inl e) \<Rightarrow> (s, Inl e) | (s, Inr it) \<Rightarrow> (s, Inr True)))"

definition alloc_node where
  "alloc_node k v s =
     (ecm_fresh s, s\<lparr>ecm_nodes := (ecm_nodes s)(ecm_fresh s := Some (k, v)), ecm_fresh := ecm_fresh s + 1\<rparr>)"

definition evict_if_full where
  "evict_if_full ops pruneHook s w =
     (if ecm_maxSize s > 0 \<and> ecm_size ops s > ecm_maxSize s
      then ecm_prune ops (ecm_clearSize s) pruneHook s w else (s, w, Inr ()))"

definition ecm_set where
  "ecm_set ops k v promote pruneHook s w =
     (case findInIndex ops k s of
        Some a \<Rightarrow>
          (case node_at s a of
             Inl e \<Rightarrow> (s, w, Inl e)
           | Inr (k', v') \<Rightarrow>
               let s = s\<lparr>ecm_nodes := (ecm_nodes s)(a := Some (k', v))\<rparr>
               in (if promote then promote_node a s else s, w, Inr ()))
      | None \<Rightarrow>
          let (node, s) = alloc_node k v s;
              (ix, it, ok) = op_insert ops (ecm_index s) k node;
              s = s\<lparr>ecm_index := ix\<rparr>;
              s = s\<lparr>ecm_lru := node # ecm_lru s\<rparr>
          in evict_if_full ops pruneHook s w)"

definition ecm_insert where
  "ecm_insert ops k v pruneHook s w =
     (let (node, s) = alloc_node k v s;
          (ix, it, ok) = op_insert ops (ecm_index s) k node;
          s = s\<lparr>ecm_index := ix\<rparr>
      in case (if ok then evict_if_full ops pruneHook (s\<lparr>ecm_lru := node # ecm_lru s\<rparr>) w
               else (s\<lparr>ecm_nodes := (ecm_nodes s)(node := None)\<rparr>, w, Inr ())) of
           (s, w, Inl e) \<Rightarrow> (s, w, Inl e)
         | (s, w, Inr u) \<Rightarrow> (s, w, case node_at s it of Inl e \<Rightarrow> Inl e | Inr x \<Rightarrow> Inr (it, ok)))"

section \<open>The index\<close>

text \<open>What is documented of the hash set: \<open>find\<close> gives the node with an equal key, \<open>insert\<close> adds a
  node unless its key is there and otherwise gives the node that is.\<close>

locale cache_index =
  fixes ops :: "('k, 'ix) index_ops"
    and ok :: "'ix \<Rightarrow> bool"
    and entries :: "'ix \<Rightarrow> 'k \<Rightarrow> addr option"
  assumes finite_dom: "ok ix \<Longrightarrow> finite (dom (entries ix))"
    and find_entry: "ok ix \<Longrightarrow> op_find ops ix k = entries ix k"
    and count_entries: "ok ix \<Longrightarrow> op_count ops ix = card (dom (entries ix))"
    and insert_new: "ok ix \<Longrightarrow> entries ix k = None \<Longrightarrow>
      \<exists>ix'. op_insert ops ix k a = (ix', a, True) \<and> ok ix' \<and> entries ix' = (entries ix)(k \<mapsto> a)"
    and insert_old: "ok ix \<Longrightarrow> entries ix k = Some b \<Longrightarrow> op_insert ops ix k a = (ix, b, False)"
    and erase_entry: "ok ix \<Longrightarrow> entries ix k = Some a \<Longrightarrow>
      ok (op_erase ops ix k a) \<and> entries (op_erase ops ix k a) = (entries ix)(k := None)"

section \<open>The specification\<close>

record ('k, 'v, 'w) cache =
  c_entries :: "('k \<times> 'v) list"
  c_max :: nat
  c_clear :: nat
  c_hook :: "('k, 'v, 'w) hook option"

text \<open>The hook on the evicted elements in order: how many were evicted, and whether it threw.\<close>

fun call_hooks :: "('k, 'v, 'w) hook option \<Rightarrow> bool \<Rightarrow> ('k \<times> 'v) list \<Rightarrow> 'w \<Rightarrow> nat \<times> 'w \<times> bool" where
  "call_hooks ph failSafe [] w = (0, w, False)"
| "call_hooks ph failSafe ((k, v) # es) w =
     (let (w, threw) = (case ph of None \<Rightarrow> (w, False) | Some h \<Rightarrow> h k v w)
      in if threw \<and> \<not> failSafe then (1, w, True)
         else let (n, w, t) = call_hooks ph failSafe es w in (Suc n, w, t))"

definition spec_prune where
  "spec_prune n pruneHook c w =
     (let ph = (case pruneHook of None \<Rightarrow> c_hook c | Some h \<Rightarrow> Some h);
          (m, w, threw) = call_hooks ph False (take n (rev (c_entries c))) w
      in (c\<lparr>c_entries := take (length (c_entries c) - m) (c_entries c)\<rparr>, w,
          if threw then Inl Hook_Threw else Inr ()))"

definition touch :: "'k \<Rightarrow> ('k \<times> 'v) list \<Rightarrow> ('k \<times> 'v) list" where
  "touch k xs = (case map_of xs k of None \<Rightarrow> xs | Some v \<Rightarrow> (k, v) # AList.delete k xs)"

definition assign :: "'k \<Rightarrow> 'v \<Rightarrow> ('k \<times> 'v) list \<Rightarrow> ('k \<times> 'v) list" where
  "assign k v xs = map (\<lambda>(k', v'). if k' = k then (k, v) else (k', v')) xs"

datatype ('k, 'v, 'w) cache_op =
    Find 'k
  | Get 'k
  | Get_Without_Promotion 'k
  | Exists 'k
  | Set 'k 'v bool "('k, 'v, 'w) hook option"
  | Insert 'k 'v "('k, 'v, 'w) hook option"
  | Erase 'k
  | Prune nat "('k, 'v, 'w) hook option"
  | Clear "('k, 'v, 'w) hook option"
  | Set_Max nat "('k, 'v, 'w) hook option"
  | Set_Clear nat
  | Set_Hook "('k, 'v, 'w) hook option"
  | Count

datatype ('k, 'v) cache_out = Nothing | Flag bool | Value 'v | Entry "('k \<times> 'v) option" | Inserted 'k 'v bool | Number nat

definition spec_evict where
  "spec_evict pruneHook c w =
     (if c_max c > 0 \<and> length (c_entries c) > c_max c then spec_prune (c_clear c) pruneHook c w else (c, w, Inr ()))"

definition spec_add where
  "spec_add k v c = c\<lparr>c_entries := (k, v) # c_entries c\<rparr>"

fun with_out :: "'o \<Rightarrow> 'c \<times> 'w \<times> (exn + unit) \<Rightarrow> 'c \<times> 'w \<times> (exn + 'o)" where
  "with_out out (c, w, Inl e) = (c, w, Inl e)"
| "with_out out (c, w, Inr u) = (c, w, Inr out)"

text \<open>\<open>insert\<close> accesses the new node after the eviction, which may have removed it.\<close>

fun spec_exec :: "('k, 'v, 'w) cache_op \<Rightarrow> ('k, 'v, 'w) cache \<Rightarrow> 'w \<Rightarrow> ('k, 'v, 'w) cache \<times> 'w \<times> (exn + ('k, 'v) cache_out)" where
  "spec_exec (Find k) c w =
     (c\<lparr>c_entries := touch k (c_entries c)\<rparr>, w, Inr (Entry (map_option (Pair k) (map_of (c_entries c) k))))"
| "spec_exec (Get k) c w =
     (c\<lparr>c_entries := touch k (c_entries c)\<rparr>, w,
      case map_of (c_entries c) k of None \<Rightarrow> Inl (Cxx Out_Of_Range) | Some v \<Rightarrow> Inr (Value v))"
| "spec_exec (Get_Without_Promotion k) c w =
     (c, w, case map_of (c_entries c) k of None \<Rightarrow> Inl (Cxx Out_Of_Range) | Some v \<Rightarrow> Inr (Value v))"
| "spec_exec (Exists k) c w = (c, w, Inr (Flag (map_of (c_entries c) k \<noteq> None)))"
| "spec_exec (Set k v promote h) c w =
     (if map_of (c_entries c) k \<noteq> None
      then (c\<lparr>c_entries := (if promote then touch k (assign k v (c_entries c)) else assign k v (c_entries c))\<rparr>, w, Inr Nothing)
      else with_out Nothing (spec_evict h (spec_add k v c) w))"
| "spec_exec (Insert k v h) c w =
     (case map_of (c_entries c) k of
        Some v' \<Rightarrow> (c, w, Inr (Inserted k v' False))
      | None \<Rightarrow>
          (case spec_evict h (spec_add k v c) w of
             (c, w, Inl e) \<Rightarrow> (c, w, Inl e)
           | (c, w, Inr u) \<Rightarrow> (c, w, if c_entries c = [] then Inl (Cxx Undefined_Behaviour) else Inr (Inserted k v True))))"
| "spec_exec (Erase k) c w =
     (c\<lparr>c_entries := AList.delete k (c_entries c)\<rparr>, w, Inr (Flag (map_of (c_entries c) k \<noteq> None)))"
| "spec_exec (Prune n h) c w = with_out Nothing (spec_prune n h c w)"
| "spec_exec (Clear h) c w = with_out Nothing (spec_prune (length (c_entries c)) h c w)"
| "spec_exec (Set_Max m h) c w =
     (if m \<noteq> 0 \<and> m < length (c_entries c) then
        (case spec_prune (max (length (c_entries c) - m) (c_clear c)) h c w of
           (c, w, Inl e) \<Rightarrow> (c, w, Inl e)
         | (c, w, Inr u) \<Rightarrow> (c\<lparr>c_max := m\<rparr>, w, Inr Nothing))
      else (c\<lparr>c_max := m\<rparr>, w, Inr Nothing))"
| "spec_exec (Set_Clear n) c w = (c\<lparr>c_clear := n\<rparr>, w, Inr Nothing)"
| "spec_exec (Set_Hook h) c w = (c\<lparr>c_hook := h\<rparr>, w, Inr Nothing)"
| "spec_exec Count c w = (c, w, Inr (Number (length (c_entries c))))"

fun map_out :: "('a \<Rightarrow> 'b) \<Rightarrow> exn + 'a \<Rightarrow> exn + 'b" where
  "map_out f (Inl e) = Inl e"
| "map_out f (Inr x) = Inr (f x)"

fun ecm_exec ::
  "('k, 'ix) index_ops \<Rightarrow> ('k, 'v, 'w) cache_op \<Rightarrow> ('k, 'v, 'w, 'ix) ecm \<Rightarrow> 'w \<Rightarrow>
   ('k, 'v, 'w, 'ix) ecm \<times> 'w \<times> (exn + ('k, 'v) cache_out)" where
  "ecm_exec ops (Find k) s w =
     (case ecm_find ops k s of
        (s, None) \<Rightarrow> (s, w, Inr (Entry None))
      | (s, Some a) \<Rightarrow> (s, w, map_out (\<lambda>x. Entry (Some x)) (node_at s a)))"
| "ecm_exec ops (Get k) s w = (case ecm_get ops k s of (s, r) \<Rightarrow> (s, w, map_out Value r))"
| "ecm_exec ops (Get_Without_Promotion k) s w = (s, w, map_out Value (ecm_getWithoutPromotion ops k s))"
| "ecm_exec ops (Exists k) s w = (s, w, Inr (Flag (ecm_exists ops k s)))"
| "ecm_exec ops (Set k v promote h) s w = with_out Nothing (ecm_set ops k v promote h s w)"
| "ecm_exec ops (Insert k v h) s w =
     (case ecm_insert ops k v h s w of
        (s, w, Inl e) \<Rightarrow> (s, w, Inl e)
      | (s, w, Inr (it, b)) \<Rightarrow> (s, w, map_out (\<lambda>(k, v). Inserted k v b) (node_at s it)))"
| "ecm_exec ops (Erase k) s w = (case ecm_erase ops k s of (s, r) \<Rightarrow> (s, w, map_out Flag r))"
| "ecm_exec ops (Prune n h) s w = with_out Nothing (ecm_prune ops n h s w)"
| "ecm_exec ops (Clear h) s w = with_out Nothing (ecm_clear ops h s w)"
| "ecm_exec ops (Set_Max m h) s w = with_out Nothing (ecm_setMaxSize ops m h s w)"
| "ecm_exec ops (Set_Clear n) s w = (ecm_setClearSize n s, w, Inr Nothing)"
| "ecm_exec ops (Set_Hook h) s w = (ecm_setPruneHook h s, w, Inr Nothing)"
| "ecm_exec ops Count s w = (s, w, Inr (Number (ecm_size ops s)))"

section \<open>The invariant\<close>

definition pair_of :: "('k, 'v, 'w, 'ix) ecm \<Rightarrow> addr \<Rightarrow> 'k \<times> 'v" where
  "pair_of s a = the (ecm_nodes s a)"

definition ecm_abs :: "('k, 'v, 'w, 'ix) ecm \<Rightarrow> ('k, 'v, 'w) cache" where
  "ecm_abs s = \<lparr>c_entries = map (pair_of s) (ecm_lru s), c_max = ecm_maxSize s, c_clear = ecm_clearSize s, c_hook = ecm_hook s\<rparr>"

text \<open>The allocated nodes are those in the list, so that no node leaks; keys are distinct; the index has
  exactly the keys of the nodes.\<close>

definition ecm_inv :: "('ix \<Rightarrow> bool) \<Rightarrow> ('ix \<Rightarrow> 'k \<Rightarrow> addr option) \<Rightarrow> ('k, 'v, 'w, 'ix) ecm \<Rightarrow> bool" where
  "ecm_inv ok entries s \<longleftrightarrow>
     ok (ecm_index s) \<and> dom (ecm_nodes s) = set (ecm_lru s) \<and> (\<forall>a\<in>set (ecm_lru s). a < ecm_fresh s) \<and>
     distinct (ecm_lru s) \<and> distinct (map (fst \<circ> pair_of s) (ecm_lru s)) \<and>
     (\<forall>k a. entries (ecm_index s) k = Some a \<longleftrightarrow> a \<in> set (ecm_lru s) \<and> fst (pair_of s a) = k)"

section \<open>Lists of nodes\<close>

lemma map_of_nodes:
  "distinct (map (fst \<circ> f) as) \<Longrightarrow> map_of (map f as) k = Some v \<longleftrightarrow> (\<exists>a\<in>set as. f a = (k, v))"
  by (subst map_of_eq_Some_iff) (force simp: map_map [symmetric] simp del: map_map)+

lemma map_of_nodes_None: "map_of (map f as) k = None \<longleftrightarrow> k \<notin> (fst \<circ> f) ` set as"
  by (auto simp: map_of_eq_None_iff image_image)

lemma same_node: "distinct (map (fst \<circ> f) as) \<Longrightarrow> a \<in> set as \<Longrightarrow> b \<in> set as \<Longrightarrow> fst (f a) = fst (f b) \<Longrightarrow> a = b"
  by (auto simp: distinct_map inj_on_def)

lemma delete_nodes:
  assumes "distinct as" "distinct (map (fst \<circ> f) as)" "a \<in> set as"
  shows "AList.delete (fst (f a)) (map f as) = map f (remove1 a as)"
proof -
  have "AList.delete (fst (f a)) (map f as) = map f (filter (\<lambda>b. fst (f a) \<noteq> fst (f b)) as)"
    by (simp add: AList.delete_eq filter_map o_def case_prod_beta)
  also have "filter (\<lambda>b. fst (f a) \<noteq> fst (f b)) as = filter (\<lambda>b. b \<noteq> a) as"
    using same_node [OF assms(2,3)] by (intro filter_cong) auto
  also have "\<dots> = remove1 a as" using assms(1) by (simp add: distinct_remove1_removeAll removeAll_filter_not_eq eq_commute)
  finally show ?thesis .
qed

lemma call_hooks_count: "call_hooks ph fs es w = (n, w', t) \<Longrightarrow> n \<le> length es \<and> (\<not> t \<longrightarrow> n = length es)"
  by (induction ph fs es w arbitrary: n w' t rule: call_hooks.induct)
    (auto simp: Let_def split: prod.splits if_splits)

section \<open>Operations on a valid map\<close>

text \<open>Taking a node out of list, index and heap.\<close>

definition drop_node :: "('k, 'ix) index_ops \<Rightarrow> addr \<Rightarrow> ('k, 'v, 'w, 'ix) ecm \<Rightarrow> ('k, 'v, 'w, 'ix) ecm" where
  "drop_node ops a s = s\<lparr>ecm_lru := remove1 a (ecm_lru s), ecm_index := op_erase ops (ecm_index s) (fst (pair_of s a)) a,
     ecm_nodes := (ecm_nodes s)(a := None)\<rparr>"

context cache_index
begin

abbreviation "valid \<equiv> ecm_inv ok entries"

lemma invD:
  assumes "valid s"
  shows "ok (ecm_index s)" "dom (ecm_nodes s) = set (ecm_lru s)" "\<And>a. a \<in> set (ecm_lru s) \<Longrightarrow> a < ecm_fresh s"
    "distinct (ecm_lru s)" "distinct (map (fst \<circ> pair_of s) (ecm_lru s))"
    "\<And>k a. entries (ecm_index s) k = Some a \<longleftrightarrow> a \<in> set (ecm_lru s) \<and> fst (pair_of s a) = k"
  using assms by (simp_all add: ecm_inv_def)

lemma node_at_Inr: "valid s \<Longrightarrow> a \<in> set (ecm_lru s) \<Longrightarrow> node_at s a = Inr (pair_of s a)"
  using invD(2) by (fastforce simp: node_at_def pair_of_def split: option.split)

lemma find_Some: "valid s \<Longrightarrow> findInIndex ops k s = Some a \<longleftrightarrow> a \<in> set (ecm_lru s) \<and> fst (pair_of s a) = k"
  by (simp add: findInIndex_def find_entry invD)

lemma find_map_of: "valid s \<Longrightarrow> map_of (c_entries (ecm_abs s)) k = map_option (snd \<circ> pair_of s) (findInIndex ops k s)"
proof (cases "findInIndex ops k s")
  case None
  assume inv: "valid s"
  have "a \<in> set (ecm_lru s) \<Longrightarrow> fst (pair_of s a) \<noteq> k" for a
    using find_Some [OF inv, of k a] None by auto
  then have "map_of (map (pair_of s) (ecm_lru s)) k = None" by (auto simp: map_of_nodes_None)
  with None show ?thesis by (simp add: ecm_abs_def)
next
  case (Some a)
  assume inv: "valid s"
  have "a \<in> set (ecm_lru s)" "pair_of s a = (k, snd (pair_of s a))" using find_Some [OF inv] Some by auto
  then have "map_of (map (pair_of s) (ecm_lru s)) k = Some (snd (pair_of s a))"
    using map_of_nodes [OF invD(5) [OF inv]] by blast
  with Some show ?thesis by (simp add: ecm_abs_def)
qed

lemma size_length: "valid s \<Longrightarrow> ecm_size ops s = length (ecm_lru s)"
proof -
  assume inv: "valid s"
  have "dom (entries (ecm_index s)) = set (map (fst \<circ> pair_of s) (ecm_lru s))"
    using invD(6) [OF inv] by (auto simp: dom_def)
  then have "card (dom (entries (ecm_index s))) = length (map (fst \<circ> pair_of s) (ecm_lru s))"
    using distinct_card [OF invD(5) [OF inv]] by (simp only:)
  then show ?thesis using invD(1) [OF inv] by (simp add: ecm_size_def count_entries)
qed

lemma promote_inv:
  assumes inv: "valid s" and a: "a \<in> set (ecm_lru s)"
  shows "valid (promote_node a s)" "c_entries (ecm_abs (promote_node a s)) = touch (fst (pair_of s a)) (c_entries (ecm_abs s))"
proof -
  note I = invD [OF inv]
  have pair: "pair_of (promote_node a s) = pair_of s" by (simp add: promote_node_def pair_of_def fun_eq_iff)
  have set: "set (ecm_lru (promote_node a s)) = set (ecm_lru s)" using I(4) a by (auto simp: promote_node_def)
  have "distinct (map (fst \<circ> pair_of s) (a # remove1 a (ecm_lru s)))"
    using I(4,5) a by (auto simp: distinct_map inj_on_def)
  moreover have "distinct (a # remove1 a (ecm_lru s))" using I(4) by simp
  ultimately show "valid (promote_node a s)"
    using I set unfolding ecm_inv_def pair by (simp add: promote_node_def)
  have "findInIndex ops (fst (pair_of s a)) s = Some a" using find_Some [OF inv] a by blast
  then have "map_of (map (pair_of s) (ecm_lru s)) (fst (pair_of s a)) = Some (snd (pair_of s a))"
    using find_map_of [OF inv] by (simp add: ecm_abs_def)
  then show "c_entries (ecm_abs (promote_node a s)) = touch (fst (pair_of s a)) (c_entries (ecm_abs s))"
    using delete_nodes [OF I(4,5) a] unfolding ecm_abs_def pair by (simp add: touch_def promote_node_def)
qed

lemma drop_inv:
  assumes inv: "valid s" and a: "a \<in> set (ecm_lru s)"
  shows "valid (drop_node ops a s)" "c_entries (ecm_abs (drop_node ops a s)) = map (pair_of s) (remove1 a (ecm_lru s))"
proof -
  note I = invD [OF inv]
  have lru_eq: "ecm_lru (drop_node ops a s) = remove1 a (ecm_lru s)" by (simp add: drop_node_def)
  have lru: "set (ecm_lru (drop_node ops a s)) = set (ecm_lru s) - {a}" using I(4) by (simp add: drop_node_def)
  have pair: "pair_of (drop_node ops a s) b = pair_of s b" if "b \<noteq> a" for b using that by (simp add: drop_node_def pair_of_def)
  have map: "map (g \<circ> pair_of (drop_node ops a s)) (remove1 a (ecm_lru s)) = map (g \<circ> pair_of s) (remove1 a (ecm_lru s))" for g
    using pair I(4) by auto
  have e: "entries (ecm_index s) (fst (pair_of s a)) = Some a" using I(6) a by blast
  have ix: "ok (ecm_index (drop_node ops a s))"
    "entries (ecm_index (drop_node ops a s)) = (entries (ecm_index s))(fst (pair_of s a) := None)"
    using erase_entry [OF I(1) e] by (simp_all add: drop_node_def)
  have idx: "entries (ecm_index (drop_node ops a s)) k = Some b \<longleftrightarrow>
      b \<in> set (ecm_lru (drop_node ops a s)) \<and> fst (pair_of (drop_node ops a s) b) = k" for k b
  proof (cases "b = a")
    case True
    then show ?thesis using I(6) [of k a] by (auto simp: ix lru)
  next
    case False
    then show ?thesis using I(6) [of k b] pair [OF False] same_node [OF I(5) _ a, of b] by (auto simp: ix lru)
  qed
  have "distinct (map (fst \<circ> pair_of s) (remove1 a (ecm_lru s)))"
    using I(4,5) by (auto simp: distinct_map inj_on_def)
  then have "distinct (map (fst \<circ> pair_of (drop_node ops a s)) (ecm_lru (drop_node ops a s)))"
    by (simp only: lru_eq map)
  moreover have "dom (ecm_nodes (drop_node ops a s)) = set (ecm_lru (drop_node ops a s))"
    unfolding lru using I(2) by (auto simp: drop_node_def)
  moreover have "distinct (ecm_lru (drop_node ops a s))" "\<forall>b\<in>set (ecm_lru (drop_node ops a s)). b < ecm_fresh (drop_node ops a s)"
    using I(3,4) by (auto simp: drop_node_def)
  ultimately show "valid (drop_node ops a s)" using ix(1) idx unfolding ecm_inv_def by blast
  show "c_entries (ecm_abs (drop_node ops a s)) = map (pair_of s) (remove1 a (ecm_lru s))"
    using map [of id] by (simp only: ecm_abs_def cache.simps lru_eq id_comp)
qed

definition refines :: "('k, 'v, 'w, 'ix) ecm \<times> 'w \<times> 'o \<Rightarrow> ('k, 'v, 'w) cache \<times> 'w \<times> 'o \<Rightarrow> bool" where
  "refines x y \<longleftrightarrow> (case x of (s, w, r) \<Rightarrow> valid s \<and> y = (ecm_abs s, w, r))"

lemma refinesI: "x = (s, w, r) \<Longrightarrow> valid s \<Longrightarrow> y = (ecm_abs s, w, r) \<Longrightarrow> refines x y"
  by (simp add: refines_def)

lemma refinesE: "refines x y \<Longrightarrow> (\<And>s w r. x = (s, w, r) \<Longrightarrow> valid s \<Longrightarrow> y = (ecm_abs s, w, r) \<Longrightarrow> P) \<Longrightarrow> P"
  by (auto simp: refines_def split: prod.splits)

lemma refines_with_out: "refines x y \<Longrightarrow> refines (with_out out x) (with_out out y)"
  by (erule refinesE) (rename_tac s w r, case_tac r, auto simp: refines_def)

lemma prune_spec:
  assumes "valid s"
  shows "refines (pruneWithFailSafeOption ops h fs n s w)
    (let ph = (case h of None \<Rightarrow> c_hook (ecm_abs s) | Some g \<Rightarrow> Some g);
         (m, w, threw) = call_hooks ph fs (take n (rev (c_entries (ecm_abs s)))) w
     in ((ecm_abs s)\<lparr>c_entries := take (length (c_entries (ecm_abs s)) - m) (c_entries (ecm_abs s))\<rparr>, w,
         if threw then Inl Hook_Threw else Inr ()))"
  using assms
proof (induction n arbitrary: s w)
  case 0
  then show ?case by (auto intro!: refinesI)
next
  case (Suc n)
  show ?case
  proof (cases "ecm_lru s" rule: rev_cases)
    case Nil
    then show ?thesis using Suc.prems by (auto simp: ecm_abs_def intro!: refinesI)
  next
    case (snoc as a)
    note I = invD [OF Suc.prems]
    obtain k v where kv: "pair_of s a = (k, v)" by (cases "pair_of s a") auto
    have a: "a \<in> set (ecm_lru s)" "a \<notin> set as" using I(4) snoc by auto
    have node: "node_at s a = Inr (k, v)" using node_at_Inr [OF Suc.prems a(1)] kv by simp
    define t where "t = drop_node ops a s"
    have t: "valid t" "c_entries (ecm_abs t) = map (pair_of s) as" "ecm_hook t = ecm_hook s"
      using drop_inv [OF Suc.prems a(1)] snoc a(2) by (simp_all add: t_def remove1_append)
        (simp add: drop_node_def)
    have "ecm_abs t = (ecm_abs s)\<lparr>c_entries := c_entries (ecm_abs t)\<rparr>"
      by (simp add: ecm_abs_def t_def drop_node_def)
    note t = t this [unfolded t(2)]
    have t_eq: "s\<lparr>ecm_lru := butlast (ecm_lru s), ecm_index := op_erase ops (ecm_index s) k a, ecm_nodes := (ecm_nodes s)(a := None)\<rparr> = t"
      using snoc a(2) kv by (simp add: t_def drop_node_def remove1_append)
    have e: "c_entries (ecm_abs s) = map (pair_of s) as @ [(k, v)]" using snoc kv by (simp add: ecm_abs_def)
    define ph where "ph = (case h of None \<Rightarrow> ecm_hook s | Some g \<Rightarrow> Some g)"
    have ph: "(case h of None \<Rightarrow> c_hook (ecm_abs s) | Some g \<Rightarrow> Some g) = ph"
      "(case h of None \<Rightarrow> c_hook (ecm_abs t) | Some g \<Rightarrow> Some g) = ph"
      using t(3) by (simp_all add: ph_def ecm_abs_def split: option.splits)
    obtain w1 threw where call: "(case ph of None \<Rightarrow> (w, False) | Some g \<Rightarrow> g k v w) = (w1, threw)" by fastforce
    have step: "pruneWithFailSafeOption ops h fs (Suc n) s w =
        (if threw \<and> \<not> fs then (t, w1, Inl Hook_Threw) else pruneWithFailSafeOption ops h fs n t w1)"
      using snoc node call by (simp add: ph_def [symmetric] t_eq [symmetric] Let_def split: option.splits prod.splits)
    obtain m w2 thr where hooks: "call_hooks ph fs (take n (rev (map (pair_of s) as))) w1 = (m, w2, thr)"
      by (metis prod_cases3)
    have m: "m \<le> length as" using call_hooks_count [OF hooks] by simp
    show ?thesis
    proof (cases "threw \<and> \<not> fs")
      case True
      then show ?thesis unfolding step using t call
        by (intro refinesI [of _ t w1 "Inl Hook_Threw"]) (simp_all add: ph(1) e Let_def)
    next
      case False
      have "refines (pruneWithFailSafeOption ops h fs n t w1)
          ((ecm_abs t)\<lparr>c_entries := take (length as - m) (map (pair_of s) as)\<rparr>, w2, if thr then Inl Hook_Threw else Inr ())"
        using Suc.IH [OF t(1), of w1] hooks by (simp add: Let_def ph t(2))
      moreover have "(ecm_abs t)\<lparr>c_entries := xs\<rparr> = (ecm_abs s)\<lparr>c_entries := xs\<rparr>" for xs using t(4) by simp
      ultimately show ?thesis unfolding step ph(1) e
        using False call hooks m by (auto simp: Let_def)
    qed
  qed
qed

lemma ecm_prune_refines: "valid s \<Longrightarrow> refines (ecm_prune ops n h s w) (spec_prune n h (ecm_abs s) w)"
  unfolding ecm_prune_def spec_prune_def by (rule prune_spec)

lemma abs_sel [simp]: "c_max (ecm_abs s) = ecm_maxSize s" "c_clear (ecm_abs s) = ecm_clearSize s" "c_hook (ecm_abs s) = ecm_hook s"
  by (simp_all add: ecm_abs_def)

lemma length_entries [simp]: "length (c_entries (ecm_abs s)) = length (ecm_lru s)"
  by (simp add: ecm_abs_def)

lemma valid_params: "valid (s\<lparr>ecm_maxSize := m\<rparr>) \<longleftrightarrow> valid s" "valid (s\<lparr>ecm_clearSize := m\<rparr>) \<longleftrightarrow> valid s"
  "valid (s\<lparr>ecm_hook := h\<rparr>) \<longleftrightarrow> valid s"
  by (simp_all add: ecm_inv_def pair_of_def [abs_def] cong: conj_cong)

lemma abs_params: "ecm_abs (s\<lparr>ecm_maxSize := m\<rparr>) = (ecm_abs s)\<lparr>c_max := m\<rparr>"
  "ecm_abs (s\<lparr>ecm_clearSize := m\<rparr>) = (ecm_abs s)\<lparr>c_clear := m\<rparr>"
  "ecm_abs (s\<lparr>ecm_hook := h\<rparr>) = (ecm_abs s)\<lparr>c_hook := h\<rparr>"
  by (simp_all add: ecm_abs_def pair_of_def [abs_def])

lemma setMax_refines:
  "valid s \<Longrightarrow> refines (ecm_exec ops (Set_Max m h) s w) (spec_exec (Set_Max m h) (ecm_abs s) w)"
  using ecm_prune_refines [of s "max (length (ecm_lru s) - m) (ecm_clearSize s)" h w]
  by (auto simp: ecm_setMaxSize_def size_length valid_params abs_params refines_def split: sum.splits prod.splits)

lemma evict_refines: "valid s \<Longrightarrow> refines (evict_if_full ops h s w) (spec_evict h (ecm_abs s) w)"
  using ecm_prune_refines [of s "ecm_clearSize s" h w]
  by (auto simp: evict_if_full_def spec_evict_def size_length refines_def)

text \<open>Adding a new node with a new key in front.\<close>

lemma add_node:
  assumes inv: "valid s" and new: "map_of (c_entries (ecm_abs s)) k = None" and alloc: "alloc_node k v s = (a, t)"
  obtains ix where "op_insert ops (ecm_index t) k a = (ix, a, True)" "valid (t\<lparr>ecm_index := ix, ecm_lru := a # ecm_lru t\<rparr>)"
    "ecm_abs (t\<lparr>ecm_index := ix, ecm_lru := a # ecm_lru t\<rparr>) = spec_add k v (ecm_abs s)"
proof -
  note I = invD [OF inv]
  have a: "a = ecm_fresh s" and t: "t = s\<lparr>ecm_nodes := (ecm_nodes s)(a := Some (k, v)), ecm_fresh := a + 1\<rparr>"
    using alloc by (auto simp: alloc_node_def)
  have fresh: "a \<notin> set (ecm_lru s)" using I(3) a by blast
  have "entries (ecm_index s) k = None"
    using new find_map_of [OF inv, of k] find_entry [OF I(1)] by (simp add: findInIndex_def)
  then obtain ix where ix: "op_insert ops (ecm_index s) k a = (ix, a, True)" "ok ix" "entries ix = (entries (ecm_index s))(k \<mapsto> a)"
    using insert_new [OF I(1), of k a] by blast
  define u where "u = t\<lparr>ecm_index := ix, ecm_lru := a # ecm_lru t\<rparr>"
  have lru: "ecm_lru u = a # ecm_lru s" by (simp add: u_def t)
  have pair: "pair_of u a = (k, v)" "\<And>b. b \<noteq> a \<Longrightarrow> pair_of u b = pair_of s b" by (simp_all add: u_def t pair_of_def)
  have map: "map (g \<circ> pair_of u) (ecm_lru s) = map (g \<circ> pair_of s) (ecm_lru s)" for g
  proof (rule map_cong [OF refl])
    fix b assume "b \<in> set (ecm_lru s)"
    then have "b \<noteq> a" using fresh by blast
    then show "(g \<circ> pair_of u) b = (g \<circ> pair_of s) b" using pair(2) by simp
  qed
  have k: "k \<notin> (fst \<circ> pair_of s) ` set (ecm_lru s)" using new by (simp add: ecm_abs_def map_of_nodes_None)
  have "distinct (map (fst \<circ> pair_of u) (ecm_lru u))" using I(5) k unfolding lru by (simp add: map pair(1))
  moreover have "entries ix j = Some b \<longleftrightarrow> b \<in> set (ecm_lru u) \<and> fst (pair_of u b) = j" for j b
    using I(6) [of j b] pair(1) pair(2) [of b] fresh k \<open>entries (ecm_index s) k = None\<close>
    by (cases "b = a") (auto simp: ix(3) lru)
  moreover have "dom (ecm_nodes u) = set (ecm_lru u)" using I(2) by (auto simp: u_def t)
  moreover have "\<forall>b\<in>set (ecm_lru u). b < ecm_fresh u" using I(3) a by (auto simp: u_def t less_Suc_eq)
  ultimately have "valid u" using ix(2) I(4) fresh unfolding ecm_inv_def by (simp add: u_def t)
  moreover have "ecm_abs u = spec_add k v (ecm_abs s)"
    using map [of id] by (simp add: ecm_abs_def spec_add_def lru pair(1) id_comp) (simp add: u_def t)
  ultimately show thesis using that [of ix] ix(1) unfolding u_def by (simp add: t)
qed

lemma set_new_refines:
  assumes "valid s" "map_of (c_entries (ecm_abs s)) k = None"
  shows "refines (ecm_set ops k v p h s w) (spec_evict h (spec_add k v (ecm_abs s)) w)"
proof -
  obtain a t where alloc: "alloc_node k v s = (a, t)" by fastforce
  from add_node [OF assms alloc] obtain ix where
    ix: "op_insert ops (ecm_index t) k a = (ix, a, True)" "valid (t\<lparr>ecm_index := ix, ecm_lru := a # ecm_lru t\<rparr>)"
    "ecm_abs (t\<lparr>ecm_index := ix, ecm_lru := a # ecm_lru t\<rparr>) = spec_add k v (ecm_abs s)" .
  have none: "findInIndex ops k s = None" using assms(2) find_map_of [OF assms(1), of k] by simp
  show ?thesis using evict_refines [OF ix(2), of h w] unfolding ix(3) by (simp add: ecm_set_def none alloc ix(1))
qed

lemma assign_inv:
  assumes inv: "valid s" and a: "a \<in> set (ecm_lru s)" "fst (pair_of s a) = k"
    and t_def: "t = s\<lparr>ecm_nodes := (ecm_nodes s)(a := Some (k, v))\<rparr>"
  shows "valid t" "c_entries (ecm_abs t) = assign k v (c_entries (ecm_abs s))" "ecm_abs t = (ecm_abs s)\<lparr>c_entries := assign k v (c_entries (ecm_abs s))\<rparr>"
proof -
  note I = invD [OF inv]
  have pair: "pair_of t a = (k, v)" "\<And>b. b \<noteq> a \<Longrightarrow> pair_of t b = pair_of s b" by (simp_all add: t_def pair_of_def)
  then have fst: "fst (pair_of t b) = fst (pair_of s b)" for b using a(2) by (cases "b = a") simp_all
  then have "fst \<circ> pair_of t = fst \<circ> pair_of s" by (simp add: fun_eq_iff)
  then show "valid t" using I a(1) fst unfolding ecm_inv_def by (auto simp: t_def)
  have "pair_of t b = (case pair_of s b of (k', v') \<Rightarrow> if k' = k then (k, v) else (k', v'))" if "b \<in> set (ecm_lru s)" for b
    using same_node [OF I(5) a(1) that] a(2) pair by (cases "b = a") (auto split: prod.splits)
  then have "map (pair_of t) (ecm_lru s) = assign k v (map (pair_of s) (ecm_lru s))" by (simp add: assign_def)
  then show "c_entries (ecm_abs t) = assign k v (c_entries (ecm_abs s))" by (simp add: ecm_abs_def) (simp add: t_def)
  then show "ecm_abs t = (ecm_abs s)\<lparr>c_entries := assign k v (c_entries (ecm_abs s))\<rparr>" by (simp add: ecm_abs_def t_def)
qed

lemma set_refines:
  assumes inv: "valid s"
  shows "refines (ecm_exec ops (Set k v p h) s w) (spec_exec (Set k v p h) (ecm_abs s) w)"
proof (cases "findInIndex ops k s")
  case None
  then have "map_of (c_entries (ecm_abs s)) k = None" using find_map_of [OF inv] by simp
  from set_new_refines [OF inv this] this show ?thesis by (auto intro: refines_with_out)
next
  case (Some a)
  then have a: "a \<in> set (ecm_lru s)" "fst (pair_of s a) = k" using find_Some [OF inv] by auto
  define t where "t = s\<lparr>ecm_nodes := (ecm_nodes s)(a := Some (k, v))\<rparr>"
  note T = assign_inv [OF inv a t_def]
  obtain v' where "pair_of s a = (k, v')" using a(2) by (cases "pair_of s a") auto
  then have set: "ecm_set ops k v p h s w = (if p then promote_node a t else t, w, Inr ())"
    using node_at_Inr [OF inv a(1)] Some by (simp add: ecm_set_def t_def)
  have at: "a \<in> set (ecm_lru t)" "fst (pair_of t a) = k" using a by (simp_all add: t_def pair_of_def)
  have "ecm_abs (promote_node a t) = (ecm_abs t)\<lparr>c_entries := c_entries (ecm_abs (promote_node a t))\<rparr>"
    by (simp add: ecm_abs_def promote_node_def)
  then have "ecm_abs (promote_node a t) = (ecm_abs s)\<lparr>c_entries := touch k (assign k v (c_entries (ecm_abs s)))\<rparr>"
    using promote_inv(2) [OF T(1) at(1)] at(2) T(2,3) by simp
  then show ?thesis using find_map_of [OF inv, of k] Some T promote_inv(1) [OF T(1) at(1)]
    by (auto simp: set refines_def)
qed

lemma prune_lru: "pruneWithFailSafeOption ops h fs n s w = (s', w', r) \<Longrightarrow> \<exists>m. ecm_lru s' = take m (ecm_lru s)"
proof (induction n arbitrary: h s w)
  case 0
  then show ?case by (auto intro: exI [of _ "length (ecm_lru s)"])
next
  case (Suc n)
  have stop: "\<exists>m. xs = take m xs" "\<exists>m. butlast xs = take m xs" for xs :: "addr list"
    by (rule exI [of _ "length xs"], simp) (auto simp: butlast_conv_take)
  show ?case using Suc.prems
    by (auto simp: Let_def stop butlast_conv_take split: if_splits sum.splits option.splits prod.splits dest!: Suc.IH)
qed

lemma evict_lru: "evict_if_full ops h s w = (s', w', r) \<Longrightarrow> \<exists>m. ecm_lru s' = take m (ecm_lru s)"
  by (auto simp: evict_if_full_def ecm_prune_def dest: prune_lru split: if_splits intro: exI [of _ "length (ecm_lru s)"])

lemma spec_evict_take: "spec_evict h c w = (c', w', r) \<Longrightarrow> \<exists>m. c_entries c' = take m (c_entries c)"
  by (auto simp: spec_evict_def spec_prune_def Let_def split: prod.splits if_splits intro: exI [of _ "length (c_entries c)"])

lemma insert_refines:
  assumes inv: "valid s"
  shows "refines (ecm_exec ops (Insert k v h) s w) (spec_exec (Insert k v h) (ecm_abs s) w)"
proof (cases "findInIndex ops k s")
  case (Some b)
  note I = invD [OF inv]
  obtain a t where alloc: "alloc_node k v s = (a, t)" by fastforce
  then have a: "a = ecm_fresh s" and t: "t = s\<lparr>ecm_nodes := (ecm_nodes s)(a := Some (k, v)), ecm_fresh := a + 1\<rparr>"
    by (auto simp: alloc_node_def)
  have b: "b \<in> set (ecm_lru s)" "fst (pair_of s b) = k" using Some find_Some [OF inv] by auto
  have fresh: "a \<notin> set (ecm_lru s)" using I(3) a by blast
  then have none: "ecm_nodes s a = None" using I(2) by (metis domIff)
  have "entries (ecm_index s) k = Some b" using I(6) b by blast
  from insert_old [OF I(1) this] have old: "op_insert ops (ecm_index t) k a = (ecm_index s, b, False)" by (simp add: t)
  have u: "t\<lparr>ecm_index := ecm_index s, ecm_nodes := (ecm_nodes t)(a := None)\<rparr> = s\<lparr>ecm_fresh := Suc a\<rparr>"
    using none by (auto simp: t fun_eq_iff)
  define u where "u = s\<lparr>ecm_fresh := Suc a\<rparr>"
  have "valid u" using I unfolding ecm_inv_def u_def pair_of_def [abs_def] by (auto simp: a less_Suc_eq)
  have abs: "ecm_abs u = ecm_abs s" by (simp add: ecm_abs_def u_def pair_of_def [abs_def])
  obtain v' where kv: "pair_of u b = (k, v')" using b(2) by (cases "pair_of s b") (auto simp: u_def pair_of_def)
  have "node_at u b = Inr (k, v')" using node_at_Inr [OF \<open>valid u\<close>, of b] b(1) kv by (simp add: u_def)
  then have "ecm_insert ops k v h s w = (u, w, Inr (b, False))" "ecm_exec ops (Insert k v h) s w = (u, w, Inr (Inserted k v' False))"
    by (simp_all add: ecm_insert_def alloc old u u_def [symmetric] Let_def)
  moreover have "map_of (c_entries (ecm_abs s)) k = Some v'"
    using find_map_of [OF inv, of k] Some kv by (simp add: u_def pair_of_def)
  ultimately show ?thesis using \<open>valid u\<close> by (intro refinesI [of _ u w]) (simp_all add: abs)
next
  case None
  then have new: "map_of (c_entries (ecm_abs s)) k = None" using find_map_of [OF inv] by simp
  obtain a t where alloc: "alloc_node k v s = (a, t)" by fastforce
  from add_node [OF inv new alloc] obtain ix where
    ix: "op_insert ops (ecm_index t) k a = (ix, a, True)" "valid (t\<lparr>ecm_index := ix, ecm_lru := a # ecm_lru t\<rparr>)"
    "ecm_abs (t\<lparr>ecm_index := ix, ecm_lru := a # ecm_lru t\<rparr>) = spec_add k v (ecm_abs s)" .
  define u where "u = t\<lparr>ecm_index := ix, ecm_lru := a # ecm_lru t\<rparr>"
  obtain u' w' r where run: "evict_if_full ops h u w = (u', w', r)" by (metis prod_cases3)
  have u': "valid u'" and spec: "spec_evict h (spec_add k v (ecm_abs s)) w = (ecm_abs u', w', r)"
    using evict_refines [OF ix(2), of h w] run unfolding ix(3) u_def by (auto simp: refines_def)
  have ins: "ecm_insert ops k v h s w = (case r of Inl e \<Rightarrow> (u', w', Inl e)
      | Inr _ \<Rightarrow> (u', w', case node_at u' a of Inl e \<Rightarrow> Inl e | Inr x \<Rightarrow> Inr (a, True)))"
    using run by (simp add: ecm_insert_def alloc ix(1) u_def Let_def split: sum.splits)
  show ?thesis
  proof (cases r)
    case (Inl e)
    then show ?thesis using u' spec new by (simp add: ins refines_def)
  next
    case (Inr x)
    obtain m where m: "ecm_lru u' = take m (a # ecm_lru t)" using evict_lru [OF run] by (auto simp: u_def)
    show ?thesis
    proof (cases "ecm_lru u'")
      case Nil
      then have "dom (ecm_nodes u') = {}" using invD(2) [OF u'] by simp
      then have "ecm_nodes u' a = None" by simp
      then have "node_at u' a = Inl (Cxx Undefined_Behaviour)" by (simp add: node_at_def)
      moreover have "c_entries (ecm_abs u') = []" using Nil by (simp add: ecm_abs_def)
      ultimately show ?thesis using u' spec new Inr by (simp add: ins refines_def)
    next
      case (Cons b bs)
      then have "a = b" using m by (cases m) simp_all
      have "c_entries (ecm_abs u') = pair_of u' b # map (pair_of u') bs" using Cons by (simp add: ecm_abs_def)
      moreover have "\<exists>m. c_entries (ecm_abs u') = take m ((k, v) # c_entries (ecm_abs s))"
        using spec_evict_take [OF spec] by (simp add: spec_add_def)
      ultimately have kb: "pair_of u' b = (k, v)" by (metis list.inject take_Cons' list.distinct(1))
      then have "node_at u' a = Inr (k, v)" using node_at_Inr [OF u', of b] Cons kb \<open>a = b\<close> by simp
      moreover have "c_entries (ecm_abs u') \<noteq> []" using Cons by (simp add: ecm_abs_def)
      ultimately show ?thesis using u' spec new Inr by (simp add: ins refines_def)
    qed
  qed
qed

lemma entry_Some:
  assumes "valid s" "findInIndex ops k s = Some a"
  obtains v where "a \<in> set (ecm_lru s)" "node_at s a = Inr (k, v)" "map_of (c_entries (ecm_abs s)) k = Some v" "pair_of s a = (k, v)"
proof -
  have a: "a \<in> set (ecm_lru s)" "fst (pair_of s a) = k" using assms find_Some by auto
  then obtain v where "pair_of s a = (k, v)" by (cases "pair_of s a") auto
  then show ?thesis using that a(1) node_at_Inr [OF assms(1) a(1)] find_map_of [OF assms(1), of k] assms(2) by simp
qed

lemma entry_None: "valid s \<Longrightarrow> findInIndex ops k s = None \<Longrightarrow> map_of (c_entries (ecm_abs s)) k = None"
  by (simp add: find_map_of)

lemma promote_abs:
  assumes "valid s" "a \<in> set (ecm_lru s)" "pair_of s a = (k, v)"
  shows "ecm_abs (promote_node a s) = (ecm_abs s)\<lparr>c_entries := touch k (c_entries (ecm_abs s))\<rparr>" "node_at (promote_node a s) a = Inr (k, v)"
proof -
  have "ecm_abs (promote_node a s) = (ecm_abs s)\<lparr>c_entries := c_entries (ecm_abs (promote_node a s))\<rparr>"
    by (simp add: ecm_abs_def promote_node_def)
  then show "ecm_abs (promote_node a s) = (ecm_abs s)\<lparr>c_entries := touch k (c_entries (ecm_abs s))\<rparr>"
    using promote_inv(2) [OF assms(1,2)] assms(3) by simp
  show "node_at (promote_node a s) a = Inr (k, v)"
    using node_at_Inr [OF assms(1,2)] assms(3) by (simp add: node_at_def promote_node_def)
qed

lemma lookup_refines:
  assumes inv: "valid s"
  shows "refines (ecm_exec ops (Find k) s w) (spec_exec (Find k) (ecm_abs s) w)"
    "refines (ecm_exec ops (Get k) s w) (spec_exec (Get k) (ecm_abs s) w)"
    "refines (ecm_exec ops (Get_Without_Promotion k) s w) (spec_exec (Get_Without_Promotion k) (ecm_abs s) w)"
    "refines (ecm_exec ops (Exists k) s w) (spec_exec (Exists k) (ecm_abs s) w)"
proof -
  have *: "refines (ecm_exec ops (Find k) s w) (spec_exec (Find k) (ecm_abs s) w) \<and>
    refines (ecm_exec ops (Get k) s w) (spec_exec (Get k) (ecm_abs s) w) \<and>
    refines (ecm_exec ops (Get_Without_Promotion k) s w) (spec_exec (Get_Without_Promotion k) (ecm_abs s) w) \<and>
    refines (ecm_exec ops (Exists k) s w) (spec_exec (Exists k) (ecm_abs s) w)"
  proof (cases "findInIndex ops k s")
    case None
    note none = entry_None [OF inv None]
    moreover from none have "touch k (c_entries (ecm_abs s)) = c_entries (ecm_abs s)" by (simp add: touch_def)
    ultimately show ?thesis using None inv
      by (simp add: refines_def ecm_find_def ecm_get_def ecm_getWithoutPromotion_def ecm_findWithoutPromotion_def ecm_exists_def)
  next
    case (Some a)
    from entry_Some [OF inv Some] obtain v where
      a: "a \<in> set (ecm_lru s)" "node_at s a = Inr (k, v)" "map_of (c_entries (ecm_abs s)) k = Some v" "pair_of s a = (k, v)" .
    show ?thesis using Some a(2,3) inv promote_inv(1) [OF inv a(1)] promote_abs [OF inv a(1,4)]
      by (simp add: refines_def ecm_find_def ecm_get_def ecm_getWithoutPromotion_def ecm_findWithoutPromotion_def ecm_exists_def)
  qed
  then show "refines (ecm_exec ops (Find k) s w) (spec_exec (Find k) (ecm_abs s) w)"
    "refines (ecm_exec ops (Get k) s w) (spec_exec (Get k) (ecm_abs s) w)"
    "refines (ecm_exec ops (Get_Without_Promotion k) s w) (spec_exec (Get_Without_Promotion k) (ecm_abs s) w)"
    "refines (ecm_exec ops (Exists k) s w) (spec_exec (Exists k) (ecm_abs s) w)"
    by blast+
qed

lemma erase_refines:
  assumes inv: "valid s"
  shows "refines (ecm_exec ops (Erase k) s w) (spec_exec (Erase k) (ecm_abs s) w)"
proof (cases "findInIndex ops k s")
  case None
  note none = entry_None [OF inv None]
  then have "AList.delete k (c_entries (ecm_abs s)) = c_entries (ecm_abs s)" by (simp add: map_of_eq_None_iff delete_notin_dom)
  with none None inv show ?thesis by (simp add: refines_def ecm_erase_def)
next
  case (Some a)
  from entry_Some [OF inv Some] obtain v where
    a: "a \<in> set (ecm_lru s)" "node_at s a = Inr (k, v)" "map_of (c_entries (ecm_abs s)) k = Some v" "pair_of s a = (k, v)" .
  define t where "t = drop_node ops a s"
  have t_eq: "s\<lparr>ecm_index := op_erase ops (ecm_index s) k a, ecm_lru := remove1 a (ecm_lru s), ecm_nodes := (ecm_nodes s)(a := None)\<rparr> = t"
    by (simp add: t_def drop_node_def a(4))
  then have "ecm_exec ops (Erase k) s w = (t, w, Inr (Flag True))"
    using a(2) Some by (simp add: ecm_erase_def ecm_erase_at_def Let_def)
  moreover have "c_entries (ecm_abs t) = AList.delete k (c_entries (ecm_abs s))"
    using drop_inv(2) [OF inv a(1)] delete_nodes [OF invD(4,5) [OF inv] a(1)] a(4) by (simp add: t_def ecm_abs_def)
  moreover have "ecm_abs t = (ecm_abs s)\<lparr>c_entries := c_entries (ecm_abs t)\<rparr>"
    by (simp add: ecm_abs_def t_def drop_node_def)
  ultimately show ?thesis using drop_inv(1) [OF inv a(1)] a(3) by (simp add: refines_def t_def)
qed

lemma exec_refines:
  assumes "valid s"
  shows "refines (ecm_exec ops x s w) (spec_exec x (ecm_abs s) w)"
proof (cases x)
  case (Prune n h)
  then show ?thesis using refines_with_out [OF ecm_prune_refines [OF assms]] by simp
next
  case (Clear h)
  then show ?thesis using refines_with_out [OF ecm_prune_refines [OF assms]] by (simp add: ecm_clear_def size_length [OF assms])
next
  case (Set_Clear n)
  then show ?thesis using assms by (simp add: refines_def ecm_setClearSize_def valid_params abs_params)
next
  case (Set_Hook h)
  then show ?thesis using assms by (simp add: refines_def ecm_setPruneHook_def valid_params abs_params)
next
  case Count
  then show ?thesis using assms by (simp add: refines_def size_length)
qed (use assms lookup_refines set_refines insert_refines erase_refines setMax_refines in \<open>simp_all only:\<close>)

end

section \<open>Sequences of operations\<close>

text \<open>Exceptions are caught; after undefined behaviour nothing is said.\<close>

fun ecm_run where
  "ecm_run ops [] s w = (s, w, [])"
| "ecm_run ops (x # xs) s w =
     (case ecm_exec ops x s w of (s, w, r) \<Rightarrow>
        if r = Inl (Cxx Undefined_Behaviour) then (s, w, [r])
        else (case ecm_run ops xs s w of (s, w, rs) \<Rightarrow> (s, w, r # rs)))"

fun spec_run where
  "spec_run [] c w = (c, w, [])"
| "spec_run (x # xs) c w =
     (case spec_exec x c w of (c, w, r) \<Rightarrow>
        if r = Inl (Cxx Undefined_Behaviour) then (c, w, [r])
        else (case spec_run xs c w of (c, w, rs) \<Rightarrow> (c, w, r # rs)))"

context cache_index
begin

lemma run_refines: "valid s \<Longrightarrow> refines (ecm_run ops xs s w) (spec_run xs (ecm_abs s) w)"
proof (induction xs arbitrary: s w)
  case (Cons x xs)
  obtain t w' r where x: "ecm_exec ops x s w = (t, w', r)" by (metis prod_cases3)
  then have t: "valid t" "spec_exec x (ecm_abs s) w = (ecm_abs t, w', r)"
    using exec_refines [OF Cons.prems, of x w] by (auto simp: refines_def)
  show ?case using Cons.IH [OF t(1), of w'] t x by (auto simp: refines_def split: prod.splits)
qed (simp add: refines_def)

lemma new_valid: "ok ix \<Longrightarrow> entries ix = (\<lambda>k. None) \<Longrightarrow> valid (ecm_new ix m n)"
  by (simp add: ecm_inv_def ecm_new_def)

lemma delete_all:
  assumes inv: "valid s"
  shows "\<exists>t. ecm_delete ops s w = (t, w, Inr ()) \<and> ecm_nodes t = (\<lambda>_. None) \<and> ecm_lru t = []"
proof -
  define u where "u = ecm_setPruneHook None s"
  have u: "valid u" "ecm_hook u = None" "ecm_lru u = ecm_lru s" "ecm_size ops u = ecm_size ops s"
    using inv by (simp_all add: u_def ecm_setPruneHook_def valid_params ecm_size_def)
  have nodes: "call_hooks None fs es w = (length es, w, False)" for fs es
    by (induction es) auto
  define n where "n = length (ecm_lru s)"
  have "length (take n (rev (c_entries (ecm_abs u)))) = n" by (simp add: n_def u(3))
  then have "refines (ecm_delete ops s w) ((ecm_abs u)\<lparr>c_entries := []\<rparr>, w, Inr ())"
    using prune_spec [OF u(1), of None True n w] size_length [OF inv] u(2,3,4)
    by (simp add: nodes ecm_delete_def u_def [symmetric] Let_def n_def)
  then obtain t where t: "ecm_delete ops s w = (t, w, Inr ())" "valid t" "(ecm_abs u)\<lparr>c_entries := []\<rparr> = ecm_abs t"
    by (auto simp: refines_def)
  from arg_cong [OF t(3), of c_entries] have "c_entries (ecm_abs t) = []" by simp
  then have "ecm_lru t = []" by (simp add: ecm_abs_def)
  moreover from this have "dom (ecm_nodes t) = {}" using invD(2) [OF t(2)] by simp
  ultimately show ?thesis using t(1) by auto
qed

end

section \<open>An index\<close>

text \<open>An association list has the documented behaviour of the index.\<close>

definition alist_index :: "('k, ('k \<times> addr) list) index_ops" where
  "alist_index = \<lparr>op_find = map_of,
     op_insert = (\<lambda>ix k a. case map_of ix k of None \<Rightarrow> ((k, a) # ix, a, True) | Some b \<Rightarrow> (ix, b, False)),
     op_erase = (\<lambda>ix k a. AList.delete k ix), op_count = length\<rparr>"

interpretation alist: cache_index alist_index "\<lambda>ix. distinct (map fst ix)" map_of
proof
  fix ix :: "('k \<times> addr) list"
  assume "distinct (map fst ix)"
  then show "op_count alist_index ix = card (dom (map_of ix))"
    using distinct_card [of "map fst ix"] by (simp add: alist_index_def dom_map_of_conv_image_fst)
qed (force simp: alist_index_def finite_dom_map_of map_of_eq_None_iff AList.delete_conv distinct_delete split: option.splits)+

section \<open>The bound\<close>

definition bounded :: "('k, 'v, 'w) cache \<Rightarrow> bool" where
  "bounded c \<longleftrightarrow> 0 < c_clear c \<and> (c_max c = 0 \<or> length (c_entries c) \<le> c_max c)"

lemma call_hooks_pos: "call_hooks ph fs es w = (n, w', t) \<Longrightarrow> es \<noteq> [] \<Longrightarrow> 0 < n"
  by (cases es) (auto simp: Let_def split: prod.splits if_splits)

lemma spec_prune_result:
  assumes "spec_prune n h c w = (c', w', r)"
  shows "c_max c' = c_max c" "c_clear c' = c_clear c" "c_hook c' = c_hook c"
    "length (c_entries c') \<le> length (c_entries c)"
    "0 < n \<Longrightarrow> c_entries c \<noteq> [] \<Longrightarrow> length (c_entries c') < length (c_entries c)"
    "r = Inr () \<Longrightarrow> c_entries c' = take (length (c_entries c) - n) (c_entries c)"
proof -
  define ph where "ph = (case h of None \<Rightarrow> c_hook c | Some h \<Rightarrow> Some h)"
  obtain m w1 t where call: "call_hooks ph False (take n (rev (c_entries c))) w = (m, w1, t)" by (metis prod_cases3)
  have c': "c' = c\<lparr>c_entries := take (length (c_entries c) - m) (c_entries c)\<rparr>" "r = (if t then Inl Hook_Threw else Inr ())"
    using assms call by (auto simp: spec_prune_def ph_def [symmetric] Let_def)
  then show "c_max c' = c_max c" "c_clear c' = c_clear c" "c_hook c' = c_hook c" "length (c_entries c') \<le> length (c_entries c)"
    by simp_all
  show "0 < n \<Longrightarrow> c_entries c \<noteq> [] \<Longrightarrow> length (c_entries c') < length (c_entries c)"
    using call_hooks_pos [OF call] c' by (cases "c_entries c") auto
  assume "r = Inr ()"
  then have "m = min n (length (c_entries c))" using call_hooks_count [OF call] c' by (auto split: if_splits)
  then show "c_entries c' = take (length (c_entries c) - n) (c_entries c)" using c' by (simp add: min_def)
qed

lemma call_hooks_fold:
  "call_hooks ph fs es w = (n, w', False) \<Longrightarrow>
    w' = (case ph of None \<Rightarrow> w | Some g \<Rightarrow> fold (\<lambda>(k, v) w. fst (g k v w)) es w)"
proof (induction es arbitrary: w n)
  case (Cons x es)
  obtain k v where x: "x = (k, v)" by fastforce
  obtain w1 threw where call: "(case ph of None \<Rightarrow> (w, False) | Some h \<Rightarrow> h k v w) = (w1, threw)" by fastforce
  then obtain m where "call_hooks ph fs es w1 = (m, w', False)"
    using Cons.prems by (auto simp: x Let_def split: prod.splits if_splits)
  from Cons.IH [OF this] call show ?case by (auto simp: x split: option.splits)
qed (auto split: option.splits)

lemma spec_evict_bounded:
  assumes "spec_evict h (spec_add k v c) w = (c', w', r)" "bounded c"
  shows "bounded c'"
proof (cases "c_max c > 0 \<and> Suc (length (c_entries c)) > c_max c")
  case True
  then have "spec_prune (c_clear c) h (spec_add k v c) w = (c', w', r)"
    using assms(1) by (simp add: spec_evict_def spec_add_def)
  from spec_prune_result [OF this] show ?thesis using assms(2) True by (auto simp: bounded_def spec_add_def)
next
  case False
  then have "c' = spec_add k v c" using assms(1) by (auto simp: spec_evict_def spec_add_def)
  then show ?thesis using False assms(2) by (auto simp: bounded_def spec_add_def)
qed

lemma length_touch: "length (touch k xs) \<le> length xs"
proof (cases "map_of xs k")
  case (Some v)
  then have "k \<in> fst ` set xs" by (auto dest: map_of_SomeD intro: rev_image_eqI)
  then have "length (AList.delete k xs) < length xs"
    unfolding AList.delete_eq by (intro length_filter_less [of "(k, v)"]) (use map_of_SomeD [OF Some] in auto)
  then show ?thesis using Some by (simp add: touch_def)
qed (simp add: touch_def)

lemma spec_exec_bounded:
  assumes "bounded c" "x \<noteq> Set_Clear 0" "spec_exec x c w = (c', w', r)"
  shows "bounded c'"
proof (cases x)
  case (Set k v p h)
  show ?thesis
  proof (cases "map_of (c_entries c) k")
    case None
    obtain c1 w1 r1 where e: "spec_evict h (spec_add k v c) w = (c1, w1, r1)" by (metis prod_cases3)
    then have "c' = c1" using assms(3) None by (cases r1) (simp_all add: Set)
    with spec_evict_bounded [OF e assms(1)] show ?thesis by simp
  next
    case (Some v')
    then show ?thesis using assms(1,3) length_touch [of k "assign k v (c_entries c)"]
      by (auto simp: Set bounded_def assign_def split: if_splits)
  qed
next
  case (Insert k v h)
  show ?thesis
  proof (cases "map_of (c_entries c) k")
    case None
    obtain c1 w1 r1 where e: "spec_evict h (spec_add k v c) w = (c1, w1, r1)" by (metis prod_cases3)
    then have "c' = c1" using assms(3) None by (cases r1) (simp_all add: Insert)
    with spec_evict_bounded [OF e assms(1)] show ?thesis by simp
  next
    case (Some v')
    then show ?thesis using assms(1,3) by (simp add: Insert)
  qed
next
  case (Set_Max m h)
  show ?thesis
  proof (cases "m \<noteq> 0 \<and> m < length (c_entries c)")
    case True
    obtain c1 w1 r1 where e: "spec_prune (max (length (c_entries c) - m) (c_clear c)) h c w = (c1, w1, r1)" by (metis prod_cases3)
    note P = spec_prune_result [OF e]
    show ?thesis
    proof (cases r1)
      case (Inl x)
      then have "c' = c1" using assms(3) e True by (simp add: Set_Max)
      then show ?thesis using P(1,2,4) assms(1) by (auto simp: bounded_def)
    next
      case (Inr u)
      then have "c' = c1\<lparr>c_max := m\<rparr>" using assms(3) e True by (simp add: Set_Max)
      then show ?thesis using P(2,6) Inr assms(1) by (auto simp: bounded_def)
    qed
  next
    case False
    then show ?thesis using assms(1,3) by (auto simp: Set_Max bounded_def)
  qed
next
  case (Prune n h)
  obtain c1 w1 r1 where e: "spec_prune n h c w = (c1, w1, r1)" by (metis prod_cases3)
  then have "c' = c1" using assms(3) by (cases r1) (simp_all add: Prune)
  then show ?thesis using spec_prune_result(1,2,4) [OF e] assms(1) by (auto simp: bounded_def)
next
  case (Clear h)
  obtain c1 w1 r1 where e: "spec_prune (length (c_entries c)) h c w = (c1, w1, r1)" by (metis prod_cases3)
  then have "c' = c1" using assms(3) by (cases r1) (simp_all add: Clear)
  then show ?thesis using spec_prune_result(1,2,4) [OF e] assms(1) by (auto simp: bounded_def)
next
  case (Erase k)
  then show ?thesis using assms(1,3) length_delete_le [of k "c_entries c"] by (auto simp: bounded_def)
next
  case (Find k)
  then show ?thesis using assms(1,3) length_touch [of k "c_entries c"] by (auto simp: bounded_def)
next
  case (Get k)
  then show ?thesis using assms(1,3) length_touch [of k "c_entries c"] by (auto simp: bounded_def)
qed (use assms in \<open>auto simp: bounded_def\<close>)

lemma spec_run_bounded:
  "bounded c \<Longrightarrow> Set_Clear 0 \<notin> set xs \<Longrightarrow> spec_run xs c w = (c', w', rs) \<Longrightarrow> bounded c'"
proof (induction xs arbitrary: c w rs)
  case (Cons x xs)
  obtain d w1 r where x: "spec_exec x c w = (d, w1, r)" by (metis prod_cases3)
  then have "bounded d" using spec_exec_bounded [OF Cons.prems(1) _ x] Cons.prems(2) by auto
  then show ?case using Cons.IH Cons.prems x by (fastforce split: if_splits prod.splits)
qed simp

context cache_index
begin

lemma prune_result:
  assumes inv: "ecm_inv ok entries s" and prune: "pruneWithFailSafeOption ops h fs n s w = (t, w', Inr ())"
  shows "ecm_size ops s = length (ecm_lru s) \<and> ecm_lru t = take (length (ecm_lru s) - n) (ecm_lru s) \<and>
    ecm_size ops t = length (ecm_lru s) - n \<and>
    (\<forall>a. ecm_nodes t a = (if a \<in> set (ecm_lru t) then ecm_nodes s a else None)) \<and>
    w' = (case (case h of None \<Rightarrow> ecm_hook s | Some g \<Rightarrow> Some g) of
      None \<Rightarrow> w
    | Some g \<Rightarrow> fold (\<lambda>a w. fst (g (fst (pair_of s a)) (snd (pair_of s a)) w))
        (rev (drop (length (ecm_lru s) - n) (ecm_lru s))) w)"
proof -
  define ph where "ph = (case h of None \<Rightarrow> ecm_hook s | Some g \<Rightarrow> Some g)"
  define l where "l = length (ecm_lru s)"
  obtain m w1 threw where hooks: "call_hooks ph fs (take n (rev (c_entries (ecm_abs s)))) w = (m, w1, threw)"
    by (metis prod_cases3)
  have ph: "(case h of None \<Rightarrow> c_hook (ecm_abs s) | Some g \<Rightarrow> Some g) = ph"
    by (cases h) (simp_all add: ph_def)
  have t: "ecm_inv ok entries t" "\<not> threw" "w1 = w'"
    "(ecm_abs s)\<lparr>c_entries := take (l - m) (c_entries (ecm_abs s))\<rparr> = ecm_abs t"
    using prune_spec [OF inv, of h fs n w] prune hooks
    by (auto simp: refines_def ph l_def Let_def split: if_splits)
  have m: "m = min n l" using call_hooks_count [OF hooks] t(2) by (simp add: l_def)
  have entries: "map (pair_of t) (ecm_lru t) = take (l - m) (map (pair_of s) (ecm_lru s))"
    using arg_cong [OF t(4), of c_entries] by (simp add: ecm_abs_def)
  obtain j where j: "ecm_lru t = take j (ecm_lru s)" using prune_lru [OF prune] by blast
  have "length (ecm_lru t) = l - n" using arg_cong [OF entries, of length] by (simp add: m l_def)
  with j have lru: "ecm_lru t = take (l - n) (ecm_lru s)"
    by (metis append_eq_conv_conj append_take_drop_id)
  have pair: "pair_of t a = pair_of s a" if "a \<in> set (ecm_lru t)" for a
  proof -
    have "l - m = l - n" using m by simp
    then have "map (pair_of t) (ecm_lru t) = map (pair_of s) (ecm_lru t)" using entries by (simp add: lru take_map)
    then show ?thesis using that by simp
  qed
  have "ecm_nodes t a = (if a \<in> set (ecm_lru t) then ecm_nodes s a else None)" for a
  proof (cases "a \<in> set (ecm_lru t)")
    case True
    then have "a \<in> set (ecm_lru s)" using lru by (metis in_set_takeD)
    with True obtain x y where "ecm_nodes t a = Some x" "ecm_nodes s a = Some y"
      using invD(2) [OF inv] invD(2) [OF t(1)] by (metis domD)
    with pair [OF True] True show ?thesis by (simp add: pair_of_def)
  qed (use invD(2) [OF t(1)] in auto)
  moreover have "take n (rev (map (pair_of s) (ecm_lru s))) = map (pair_of s) (rev (drop (l - n) (ecm_lru s)))"
    by (simp add: rev_map take_map take_rev l_def)
  then have "w' = (case ph of None \<Rightarrow> w | Some g \<Rightarrow>
      fold (\<lambda>a w. fst (g (fst (pair_of s a)) (snd (pair_of s a)) w)) (rev (drop (l - n) (ecm_lru s))) w)"
    using call_hooks_fold [of ph fs "take n (rev (c_entries (ecm_abs s)))" w m w'] hooks t(2,3)
    by (cases ph) (simp_all add: ecm_abs_def fold_map comp_def case_prod_beta')
  ultimately show ?thesis
    using lru size_length [OF inv] size_length [OF t(1)] unfolding ph_def l_def by simp
qed

end

section \<open>Properties\<close>

lemma abs_new: "ecm_abs (ecm_new ix m n) = \<lparr>c_entries = [], c_max = m, c_clear = n, c_hook = None\<rparr>"
  by (simp add: ecm_abs_def ecm_new_def)

text \<open>
  C7. For every index that behaves as documented, every sequence of operations on a new map, prune hooks
  and their exceptions included, has the results of the same sequence on a list of pairs ordered by
  recency. No node that has been freed is accessed but by \<open>insert\<close> in the case the specification
  shows; the nodes on the heap are always exactly those in the list, keys are distinct, and the
  destructor frees all of them without calling a hook.
\<close>

theorem evicting_cache_refines:
  assumes "cache_index ops ok entries" "ok ix" "entries ix = (\<lambda>k. None)"
    and "ecm_run ops xs (ecm_new ix maxSize clearSize) w = (s, w', rs)"
  shows "spec_run xs \<lparr>c_entries = [], c_max = maxSize, c_clear = clearSize, c_hook = None\<rparr> w = (ecm_abs s, w', rs) \<and>
    dom (ecm_nodes s) = set (ecm_lru s) \<and> distinct (map fst (c_entries (ecm_abs s))) \<and>
    (\<exists>t. ecm_delete ops s w' = (t, w', Inr ()) \<and> ecm_nodes t = (\<lambda>a. None))"
proof -
  have valid: "ecm_inv ok entries (ecm_new ix maxSize clearSize)"
    using assms(1-3) by (rule cache_index.new_valid)
  have run: "spec_run xs \<lparr>c_entries = [], c_max = maxSize, c_clear = clearSize, c_hook = None\<rparr> w = (ecm_abs s, w', rs)"
    and s: "ecm_inv ok entries s"
    using cache_index.run_refines [OF assms(1) valid, of xs w] assms(4)
    by (simp_all add: cache_index.refines_def [OF assms(1)] abs_new)
  have "\<exists>t. ecm_delete ops s w' = (t, w', Inr ()) \<and> ecm_nodes t = (\<lambda>a. None)"
    using cache_index.delete_all [OF assms(1) s, of w'] by blast
  with run s show ?thesis by (simp add: ecm_inv_def ecm_abs_def)
qed

theorem evicting_cache_refines_witness:
  "fst (spec_run [Set 1 7 True None, Set 2 8 True None, Find 1, Set 3 9 True None, Exists 2]
      \<lparr>c_entries = [], c_max = 2, c_clear = 1, c_hook = None\<rparr> ()) =
    ecm_abs (fst (ecm_run alist_index [Set (1 :: nat) (7 :: nat) True None, Set 2 8 True None, Find 1, Set 3 9 True None, Exists 2]
      (ecm_new [] 2 1) ()))"
proof -
  let ?xs = "[Set (1 :: nat) (7 :: nat) True None, Set 2 8 True None, Find 1, Set 3 9 True None, Exists 2]"
  obtain s w rs where run: "ecm_run alist_index ?xs (ecm_new [] 2 1) () = (s, w, rs)" by (metis prod_cases3)
  from evicting_cache_refines [OF alist.cache_index_axioms _ _ run] run show ?thesis by (simp del: ecm_run.simps spec_run.simps)
qed

text \<open>
  C8. For every index that behaves as documented, a map with a maximum size, made with a clear size of at
  least 1 that no operation sets to 0, never has more elements than that after any sequence of
  operations, also when prune hooks throw. Pruning \<open>n\<close> elements in such a state, if no exception leaves
  it, keeps exactly the nodes at the front of the recency list, with their keys and values, frees the
  others, and has called the hook on those from the least recently used one on, each once.
\<close>

theorem cache_bounded:
  assumes "cache_index ops ok entries" "ok ix" "entries ix = (\<lambda>k. None)"
    and "0 < clearSize" "Set_Clear 0 \<notin> set xs"
    and "ecm_run ops xs (ecm_new ix maxSize clearSize) w = (s, w1, rs)"
    and "pruneWithFailSafeOption ops h failSafe n s w1 = (t, w2, Inr ())"
  shows "(ecm_maxSize s = 0 \<or> length (ecm_lru s) \<le> ecm_maxSize s) \<and> ecm_size ops s = length (ecm_lru s) \<and>
    ecm_lru t = take (length (ecm_lru s) - n) (ecm_lru s) \<and> ecm_size ops t = length (ecm_lru s) - n \<and>
    (\<forall>a. ecm_nodes t a = (if a \<in> set (ecm_lru t) then ecm_nodes s a else None)) \<and>
    w2 = (case (case h of None \<Rightarrow> ecm_hook s | Some g \<Rightarrow> Some g) of
      None \<Rightarrow> w1
    | Some g \<Rightarrow> fold (\<lambda>a w. fst (g (fst (pair_of s a)) (snd (pair_of s a)) w))
        (rev (drop (length (ecm_lru s) - n) (ecm_lru s))) w1)"
proof -
  have valid: "ecm_inv ok entries (ecm_new ix maxSize clearSize)"
    using assms(1-3) by (rule cache_index.new_valid)
  have run: "spec_run xs (ecm_abs (ecm_new ix maxSize clearSize)) w = (ecm_abs s, w1, rs)"
    and s: "ecm_inv ok entries s"
    using cache_index.run_refines [OF assms(1) valid, of xs w] assms(6)
    by (simp_all add: cache_index.refines_def [OF assms(1)])
  have "bounded (ecm_abs (ecm_new ix maxSize clearSize))" using assms(4) by (simp add: bounded_def abs_new)
  from spec_run_bounded [OF this assms(5) run] have "ecm_maxSize s = 0 \<or> length (ecm_lru s) \<le> ecm_maxSize s"
    by (simp add: bounded_def ecm_abs_def)
  with cache_index.prune_result [OF assms(1) s assms(7)] show ?thesis by blast
qed

theorem cache_bounded_witness:
  "ecm_lru (fst (pruneWithFailSafeOption alist_index (Some (\<lambda>k v w. (w @ [k], True))) True 2
      (fst (ecm_run alist_index [Set (1 :: nat) (7 :: nat) True None, Set 2 8 True None, Set 3 9 True None, Find 2] (ecm_new [] 3 1) []))
      [])) = [1]"
proof -
  let ?xs = "[Set (1 :: nat) (7 :: nat) True None, Set 2 8 True None, Set 3 9 True None, Find 2]"
  let ?h = "Some (\<lambda>k v w. (w @ [k], True)) :: (nat, nat, nat list) hook option"
  obtain s w1 rs where run: "ecm_run alist_index ?xs (ecm_new [] 3 1) ([] :: nat list) = (s, w1, rs)" by (metis prod_cases3)
  obtain t w2 r where prune: "pruneWithFailSafeOption alist_index ?h True 2 s w1 = (t, w2, r)" by (metis prod_cases3)
  have s: "ecm_lru s = [1, 2, 0]" "w1 = []" using run
    by (auto simp: ecm_new_def alist_index_def ecm_set_def alloc_node_def evict_if_full_def ecm_size_def ecm_find_def
      promote_node_def findInIndex_def node_at_def)
  have "r = Inr ()" using run prune
    by (auto simp: ecm_new_def alist_index_def ecm_set_def alloc_node_def evict_if_full_def ecm_size_def ecm_find_def
      promote_node_def findInIndex_def node_at_def numeral_2_eq_2)
  with prune have "pruneWithFailSafeOption alist_index ?h True 2 s w1 = (t, w2, Inr ())" by simp
  from cache_bounded [OF alist.cache_index_axioms _ _ _ _ run this] have "ecm_lru t = [1]" by (simp add: s)
  then show ?thesis using run prune s(2) by (simp del: ecm_run.simps pruneWithFailSafeOption.simps)
qed

text \<open>With a clear size above the maximum size, \<open>insert\<close> returns an iterator to the node it has evicted.\<close>

lemma insert_uses_evicted:
  "snd (snd (ecm_run alist_index [Insert (1 :: nat) (7 :: nat) None, Insert 2 8 None] (ecm_new [] 1 2) ())) =
     [Inr (Inserted 1 7 True), Inl (Cxx Undefined_Behaviour)]"
  by (simp add: ecm_new_def alist_index_def ecm_insert_def alloc_node_def evict_if_full_def ecm_size_def
    ecm_prune_def node_at_def Let_def numeral_2_eq_2)

end
