(* ===== verification/Folly_Math.thy ===== *)
theory Folly_Math
  imports Prelude
begin

text \<open>
  \<open>folly/ConstexprMath.h\<close> and \<open>folly/Math.h\<close> for the integer types.

  An integer type is its number of bits and its signedness, a value of the type an \<open>int\<close> in its
  range. The arithmetic operators are those of C++: operands of a type smaller than \<open>int\<close> are
  promoted to it, an overflow of a signed type and a division by zero are \<open>Undefined_Behaviour\<close>,
  an unsigned type wraps around, and a conversion \<open>T(x)\<close> takes the value modulo \<open>2 ^ bits\<close>.
\<close>

section \<open>Integer types and operators\<close>

record itype =
  it_bits :: nat
  it_signed :: bool

definition it_min :: "itype \<Rightarrow> int" where
  "it_min t = (if it_signed t then - (2 ^ (it_bits t - 1)) else 0)"

definition it_max :: "itype \<Rightarrow> int" where
  "it_max t = (if it_signed t then 2 ^ (it_bits t - 1) - 1 else 2 ^ it_bits t - 1)"

definition in_type :: "itype \<Rightarrow> int \<Rightarrow> bool" where
  "in_type t x \<longleftrightarrow> it_min t \<le> x \<and> x \<le> it_max t"

definition is_itype :: "itype \<Rightarrow> bool" where
  "is_itype t \<longleftrightarrow> it_bits t \<in> {8, 16, 32, 64}"

definition int_type :: itype where "int_type = \<lparr>it_bits = 32, it_signed = True\<rparr>"

definition promoted :: "itype \<Rightarrow> itype" where
  "promoted t = (if it_bits t < 32 then int_type else t)"

definition conv :: "itype \<Rightarrow> int \<Rightarrow> int" where
  "conv t x = (let m = x mod 2 ^ it_bits t
     in if it_signed t \<and> 2 ^ (it_bits t - 1) \<le> m then m - 2 ^ it_bits t else m)"

text \<open>The value of an expression of type \<open>t\<close>.\<close>

definition arith :: "itype \<Rightarrow> int \<Rightarrow> int result" where
  "arith t x = (if in_type t x then Inr x
     else if it_signed t then Inl Undefined_Behaviour else Inr (x mod 2 ^ it_bits t))"

definition add_op :: "itype \<Rightarrow> int \<Rightarrow> int \<Rightarrow> int result" where
  "add_op t a b = arith (promoted t) (a + b)"

definition sub_op :: "itype \<Rightarrow> int \<Rightarrow> int \<Rightarrow> int result" where
  "sub_op t a b = arith (promoted t) (a - b)"

definition mul_op :: "itype \<Rightarrow> int \<Rightarrow> int \<Rightarrow> int result" where
  "mul_op t a b = arith (promoted t) (a * b)"

definition neg_op :: "itype \<Rightarrow> int \<Rightarrow> int result" where
  "neg_op t a = arith (promoted t) (- a)"

definition div_op :: "itype \<Rightarrow> int \<Rightarrow> int \<Rightarrow> int result" where
  "div_op t a b = (if b = 0 then Inl Undefined_Behaviour else arith (promoted t) (a sdiv b))"

definition mod_op :: "itype \<Rightarrow> int \<Rightarrow> int \<Rightarrow> int result" where
  "mod_op t a b = (if b = 0 then Inl Undefined_Behaviour
     else andthen (arith (promoted t) (a sdiv b)) (\<lambda>_. Inr (a smod b)))"

definition xor_op :: "int \<Rightarrow> int \<Rightarrow> int" where
  "xor_op a b = a XOR b"

section \<open>\<open>Math.h\<close>\<close>

text \<open>\<open>R\<close> is the type of \<open>num / denom\<close>, which is already promoted.\<close>

definition divFloorBranchless :: "itype \<Rightarrow> int \<Rightarrow> int \<Rightarrow> int result" where
  "divFloorBranchless R num denom =
     andthen (div_op R num denom) (\<lambda>q.
     andthen (mod_op R num denom) (\<lambda>r.
       add_op R q ((if r \<noteq> 0 then 1 else 0) * (if it_signed R \<and> xor_op num denom < 0 then -1 else 0))))"

definition divFloorBranchful :: "itype \<Rightarrow> int \<Rightarrow> int \<Rightarrow> int result" where
  "divFloorBranchful R num denom =
     (if it_signed R \<and> xor_op num denom < 0 \<and> num \<noteq> 0
      then andthen (add_op R num (if num > 0 then -1 else 1)) (\<lambda>x.
           andthen (div_op R x denom) (\<lambda>q. sub_op R q 1))
      else div_op R num denom)"

definition divCeilBranchless :: "itype \<Rightarrow> int \<Rightarrow> int \<Rightarrow> int result" where
  "divCeilBranchless R num denom =
     andthen (div_op R num denom) (\<lambda>q.
     andthen (mod_op R num denom) (\<lambda>r.
       add_op R q ((if r \<noteq> 0 then 1 else 0) * (if it_signed R \<and> xor_op num denom < 0 then 0 else 1))))"

definition divCeilBranchful :: "itype \<Rightarrow> int \<Rightarrow> int \<Rightarrow> int result" where
  "divCeilBranchful R num denom =
     (if it_signed R \<and> xor_op num denom < 0 \<or> num = 0
      then div_op R num denom
      else andthen (add_op R num (if num > 0 then -1 else 1)) (\<lambda>x.
           andthen (div_op R x denom) (\<lambda>q. add_op R q 1)))"

definition divRoundAwayBranchless :: "itype \<Rightarrow> int \<Rightarrow> int \<Rightarrow> int result" where
  "divRoundAwayBranchless R num denom =
     andthen (div_op R num denom) (\<lambda>q.
     andthen (mod_op R num denom) (\<lambda>r.
       add_op R q ((if r \<noteq> 0 then 1 else 0) * (if it_signed R \<and> xor_op num denom < 0 then -1 else 1))))"

definition divRoundAwayBranchful :: "itype \<Rightarrow> int \<Rightarrow> int \<Rightarrow> int result" where
  "divRoundAwayBranchful R num denom =
     (if num = 0 then Inr 0
      else andthen (add_op R num (if num > 0 then -1 else 1)) (\<lambda>x.
           andthen (div_op R x denom) (\<lambda>q.
             add_op R q (if it_signed R \<and> xor_op num denom < 0 then -1 else 1))))"

text \<open>\<open>gives_remainder\<close> is \<open>kIntegerDivisionGivesRemainder\<close>.\<close>

definition divFloor :: "bool \<Rightarrow> itype \<Rightarrow> int \<Rightarrow> int \<Rightarrow> int result" where
  "divFloor gives_remainder R num denom =
     (if gives_remainder \<and> it_signed R then divFloorBranchless R num denom else divFloorBranchful R num denom)"

definition divCeil :: "bool \<Rightarrow> itype \<Rightarrow> int \<Rightarrow> int \<Rightarrow> int result" where
  "divCeil gives_remainder R num denom =
     (if gives_remainder \<and> it_signed R then divCeilBranchless R num denom else divCeilBranchful R num denom)"

definition divTrunc :: "itype \<Rightarrow> int \<Rightarrow> int \<Rightarrow> int result" where
  "divTrunc R num denom = div_op R num denom"

definition divRoundAway :: "bool \<Rightarrow> itype \<Rightarrow> int \<Rightarrow> int \<Rightarrow> int result" where
  "divRoundAway gives_remainder R num denom =
     (if gives_remainder \<and> it_signed R then divRoundAwayBranchless R num denom else divRoundAwayBranchful R num denom)"

section \<open>\<open>ConstexprMath.h\<close>\<close>

fun constexpr_max :: "'a::linorder \<Rightarrow> 'a list \<Rightarrow> 'a" where
  "constexpr_max a [] = a"
| "constexpr_max a (b # ts) = (if b < a then constexpr_max a ts else constexpr_max b ts)"

fun constexpr_min :: "'a::linorder \<Rightarrow> 'a list \<Rightarrow> 'a" where
  "constexpr_min a [] = a"
| "constexpr_min a (b # ts) = (if b < a then constexpr_min b ts else constexpr_min a ts)"

definition constexpr_clamp_by :: "'a \<Rightarrow> 'a \<Rightarrow> 'a \<Rightarrow> ('a \<Rightarrow> 'a \<Rightarrow> bool) \<Rightarrow> 'a" where
  "constexpr_clamp_by v lo hi lt = (if lt v lo then lo else if lt hi v then hi else v)"

definition constexpr_clamp :: "int \<Rightarrow> int \<Rightarrow> int \<Rightarrow> int" where
  "constexpr_clamp v lo hi = constexpr_clamp_by v lo hi (<)"

definition constexpr_abs :: "itype \<Rightarrow> int \<Rightarrow> int result" where
  "constexpr_abs T t =
     (if it_signed T
      then andthen (if t < 0 then neg_op T t else Inr t) (\<lambda>x. Inr (conv (T\<lparr>it_signed := False\<rparr>) x))
      else Inr t)"

partial_function (option) constexpr_log2_rec :: "itype \<Rightarrow> int \<Rightarrow> int \<Rightarrow> int result option" where
  "constexpr_log2_rec T a e =
     (if e = 1 then Some (Inr a)
      else case add_op T a 1 of
        Inl x \<Rightarrow> Some (Inl x)
      | Inr a' \<Rightarrow> (case div_op T e 2 of
          Inl x \<Rightarrow> Some (Inl x)
        | Inr e' \<Rightarrow> constexpr_log2_rec T (conv T a') (conv T e')))"

definition constexpr_log2 :: "itype \<Rightarrow> int \<Rightarrow> int result option" where
  "constexpr_log2 T t = constexpr_log2_rec T 0 t"

definition constexpr_log2_ceil_of :: "itype \<Rightarrow> int \<Rightarrow> int \<Rightarrow> int result" where
  "constexpr_log2_ceil_of T l2 t =
     (if 0 \<le> l2 \<and> l2 < int (it_bits (promoted T))
      then andthen (add_op T l2 (if conv (promoted T) (2 ^ nat l2) < t then 1 else 0)) (\<lambda>x. Inr (conv T x))
      else Inl Undefined_Behaviour)"

definition constexpr_log2_ceil :: "itype \<Rightarrow> int \<Rightarrow> int result option" where
  "constexpr_log2_ceil T t =
     (case constexpr_log2 T t of None \<Rightarrow> None | Some r \<Rightarrow> Some (andthen r (\<lambda>l2. constexpr_log2_ceil_of T l2 t)))"

definition constexpr_square :: "itype \<Rightarrow> int \<Rightarrow> int result" where
  "constexpr_square T t = andthen (mul_op T t t) (\<lambda>x. Inr (conv T x))"

definition constexpr_ceil :: "itype \<Rightarrow> int \<Rightarrow> int \<Rightarrow> int result" where
  "constexpr_ceil T t round =
     (if round = 0 then Inr t
      else andthen (if t < 0 then Inr 0 else sub_op T round 1) (\<lambda>d.
           andthen (add_op T t d) (\<lambda>s.
           andthen (div_op T s round) (\<lambda>q.
           andthen (mul_op T q round) (\<lambda>x. Inr (conv T x))))))"

fun constexpr_pow :: "itype \<Rightarrow> int \<Rightarrow> nat \<Rightarrow> int result" where
  "constexpr_pow T base e =
     (if e = 0 then Inr 1
      else if e = 1 then Inr base
      else andthen (constexpr_pow T base (e div 2)) (\<lambda>h.
           andthen (constexpr_square T h) (\<lambda>s.
           andthen (mul_op T s (if e mod 2 \<noteq> 0 then base else 1)) (\<lambda>x. Inr (conv T x)))))"

declare constexpr_pow.simps [simp del]

definition constexpr_find_last_set :: "itype \<Rightarrow> int \<Rightarrow> int result option" where
  "constexpr_find_last_set T t =
     (if t = 0 then Some (Inr 0)
      else let U = T\<lparr>it_signed := False\<rparr>
           in case constexpr_log2 U (conv U t) of None \<Rightarrow> None | Some r \<Rightarrow> Some (andthen r (\<lambda>l. Inr (1 + l))))"

fun constexpr_find_first_set_rec :: "nat \<Rightarrow> nat \<Rightarrow> int \<Rightarrow> nat" where
  "constexpr_find_first_set_rec s a u =
     (if s = 0 then a
      else constexpr_find_first_set_rec (s div 2) (a + s * (if drop_bit a u mod 2 ^ s = 0 then 1 else 0)) u)"

declare constexpr_find_first_set_rec.simps [simp del]

definition constexpr_find_first_set :: "itype \<Rightarrow> int \<Rightarrow> nat" where
  "constexpr_find_first_set T t =
     (if t = 0 then 0
      else 1 + constexpr_find_first_set_rec (it_bits T div 2) 0 (conv (T\<lparr>it_signed := False\<rparr>) t))"

definition intmax :: itype where "intmax = \<lparr>it_bits = 64, it_signed = True\<rparr>"

definition constexpr_add_overflow_clamped :: "itype \<Rightarrow> int \<Rightarrow> int \<Rightarrow> int result" where
  "constexpr_add_overflow_clamped T a b =
     (if it_bits T < it_bits intmax
      then andthen (add_op intmax a b) (\<lambda>x. Inr (conv T (constexpr_clamp x (it_min T) (it_max T))))
      else if \<not> a < 0 then andthen (sub_op T (it_max T) a) (\<lambda>x. add_op T a (constexpr_min b [conv T x]))
      else if \<not> b < 0 then add_op T a b
      else andthen (sub_op T (it_min T) a) (\<lambda>x. add_op T a (constexpr_max b [conv T x])))"

definition constexpr_sub_overflow_clamped :: "itype \<Rightarrow> int \<Rightarrow> int \<Rightarrow> int result" where
  "constexpr_sub_overflow_clamped T a b =
     (if \<not> it_signed T then (if a < b then Inr 0 else sub_op T a b)
      else if it_bits T < it_bits intmax
      then andthen (sub_op intmax a b) (\<lambda>x. Inr (conv T (constexpr_clamp x (it_min T) (it_max T))))
      else if (a < 0) = (b < 0) then sub_op T a b
      else if it_min T < b then andthen (neg_op T b) (\<lambda>x. constexpr_add_overflow_clamped T a (conv T x))
      else if a < 0 then sub_op T a b
      else Inr (it_max T))"

definition constexpr_clamp_cast :: "itype \<Rightarrow> itype \<Rightarrow> int \<Rightarrow> int" where
  "constexpr_clamp_cast Dst Src src =
     (if it_signed Src = it_signed Dst then
        (if it_bits Src \<le> it_bits Dst then conv Dst src
         else conv Dst (constexpr_clamp src (conv Src (it_min Dst)) (conv Src (it_max Dst))))
      else if it_signed Src \<and> \<not> it_signed Dst then
        (if src < 0 then 0
         else if it_bits Src \<le> it_bits Dst then conv Dst src
         else conv Dst (constexpr_min src [conv Src (it_max Dst)]))
      else
        (if it_bits Src < it_bits Dst then conv Dst src
         else conv Dst (constexpr_min src [conv Src (it_max Dst)])))"

section \<open>Arithmetic\<close>

lemma xor_neg: "(xor_op a b < 0) = ((a < 0) \<noteq> (b < 0))"
  by (simp add: xor_op_def)

lemma arith_Inr: "in_type t x \<Longrightarrow> arith t x = Inr x"
  by (simp add: arith_def)

lemma promoted_wide: "32 \<le> it_bits t \<Longrightarrow> promoted t = t"
  by (simp add: promoted_def)

lemma sdiv_nonneg: "0 \<le> n \<Longrightarrow> 0 < d \<Longrightarrow> n sdiv d = n div d" for n d :: int
  by (cases "n = 0") (simp_all add: signed_divide_int_def)

lemma smod_0_iff: "d \<noteq> 0 \<Longrightarrow> n smod d = 0 \<longleftrightarrow> d dvd n" for n d :: int
  by (cases "n = 0") (simp_all add: signed_modulo_int_def sgn_eq_0_iff mod_eq_0_iff_dvd)

lemma floor_sdiv:
  "d \<noteq> 0 \<Longrightarrow> n div d = n sdiv d - of_bool (\<not> d dvd n \<and> (n < 0) \<noteq> (d < 0))" for n d :: int
  unfolding divide_int_eq_signed_divide_int by (cases "n = 0") (auto simp: sgn_if)

lemma uminus_sdiv: "(- n) sdiv d = - (n sdiv d)" for n d :: int
  by (simp add: signed_divide_int_def)

lemma ceil_sdiv:
  "d \<noteq> 0 \<Longrightarrow> - (- n div d) = n sdiv d + of_bool (\<not> d dvd n \<and> (n < 0) = (d < 0))" for n d :: int
proof -
  assume d: "d \<noteq> 0"
  have "\<not> d dvd n \<Longrightarrow> n \<noteq> 0" by auto
  then show ?thesis using floor_sdiv [OF d, of "- n"] by (auto simp: uminus_sdiv)
qed

lemma sdiv_small: "\<not> d dvd n \<Longrightarrow> d \<noteq> 0 \<Longrightarrow> 2 * \<bar>n sdiv d\<bar> \<le> \<bar>n\<bar>" for n d :: int
proof -
  assume nd: "\<not> d dvd n" "d \<noteq> 0"
  then have "\<bar>d\<bar> \<noteq> 1" by (auto simp: abs_if split: if_splits)
  then have "2 \<le> \<bar>d\<bar>" using nd(2) by linarith
  then have "\<bar>n\<bar> div \<bar>d\<bar> \<le> \<bar>n\<bar> div 2" by (intro zdiv_mono2) auto
  moreover have "\<bar>n sdiv d\<bar> = \<bar>n\<bar> div \<bar>d\<bar>"
    using nd by (auto simp: signed_divide_int_def abs_mult sgn_if pos_imp_zdiv_nonneg_iff)
  ultimately show ?thesis by linarith
qed

lemma pred_div: "0 < b \<Longrightarrow> (a - 1) div b = a div b - of_bool (b dvd a)" for a b :: int
proof -
  assume b: "0 < b"
  have a: "a = b * (a div b) + a mod b" by simp
  show ?thesis
  proof (cases "b dvd a")
    case True
    then have "a - 1 = b * (a div b - 1) + (b - 1)" by (simp add: algebra_simps)
    then have "(a - 1) div b = a div b - 1" by (rule int_div_pos_eq) (use b in auto)
    then show ?thesis using True by simp
  next
    case False
    then have "a mod b \<noteq> 0" by (simp add: dvd_eq_mod_eq_0)
    moreover have "0 \<le> a mod b" "a mod b < b" using b by simp_all
    ultimately have "0 < a mod b" "a mod b < b" by simp_all
    then have "(a - 1) div b = a div b" using a by (intro int_div_pos_eq [of _ _ _ "a mod b - 1"]) linarith+
    then show ?thesis using False by simp
  qed
qed

text \<open>Moving the numerator one step towards zero.\<close>

lemma sdiv_towards_zero:
  fixes n d :: int
  assumes "n \<noteq> 0" "d \<noteq> 0"
  shows "(n + (if n > 0 then -1 else 1)) sdiv d = n sdiv d - (if d dvd n then sgn n * sgn d else 0)"
proof -
  define m where "m = n + (if n > 0 then -1 else 1)"
  have abs: "\<bar>m\<bar> = \<bar>n\<bar> - 1" using assms(1) by (simp add: m_def)
  have sgn: "sgn m = sgn n \<or> \<bar>n\<bar> - 1 = 0" using assms(1) by (auto simp: sgn_if m_def)
  then have "m sdiv d = sgn n * sgn d * ((\<bar>n\<bar> - 1) div \<bar>d\<bar>)"
    unfolding signed_divide_int_def abs by auto
  also have "(\<bar>n\<bar> - 1) div \<bar>d\<bar> = \<bar>n\<bar> div \<bar>d\<bar> - of_bool (d dvd n)"
    using pred_div [of "\<bar>d\<bar>" "\<bar>n\<bar>"] assms(2) by simp
  finally have "m sdiv d = n sdiv d - (if d dvd n then sgn n * sgn d else 0)"
    by (simp add: signed_divide_int_def [of n] right_diff_distrib)
  then show ?thesis unfolding m_def .
qed

section \<open>Rounding division\<close>

text \<open>The operands for which the quotient is defined.\<close>

definition div_ok :: "itype \<Rightarrow> int \<Rightarrow> int \<Rightarrow> bool" where
  "div_ok R n d \<longleftrightarrow> it_bits R \<in> {32, 64} \<and> in_type R n \<and> in_type R d \<and> d \<noteq> 0 \<and>
     \<not> (it_signed R \<and> n = it_min R \<and> d = -1)"

lemma div_okD:
  assumes "div_ok R n d"
  shows "promoted R = R" "d \<noteq> 0" "in_type R (n sdiv d)" "\<not> it_signed R \<Longrightarrow> 0 \<le> n \<and> 0 < d"
    "\<not> d dvd n \<Longrightarrow> in_type R (n sdiv d + 1)" "\<not> d dvd n \<Longrightarrow> it_signed R \<Longrightarrow> in_type R (n sdiv d - 1)"
proof -
  have bits: "it_bits R = 32 \<or> it_bits R = 64" and range: "it_min R \<le> n" "n \<le> it_max R" "it_min R \<le> d" and d: "d \<noteq> 0"
    and ov: "\<not> (it_signed R \<and> n = it_min R \<and> d = -1)"
    using assms by (auto simp: div_ok_def in_type_def)
  show "promoted R = R" "d \<noteq> 0" using bits d by (auto simp: promoted_def)
  show unsigned: "\<not> it_signed R \<Longrightarrow> 0 \<le> n \<and> 0 < d" using range d by (auto simp: it_min_def)
  have q: "- \<bar>n\<bar> \<le> n sdiv d" "n sdiv d \<le> \<bar>n\<bar>" using sdiv_int_range [of n d] by auto
  show "in_type R (n sdiv d)"
  proof (cases "it_signed R")
    case True
    then have m: "it_min R = - it_max R - 1" by (simp add: it_min_def it_max_def)
    show ?thesis
    proof (cases "n = it_min R")
      case True
      then have "d \<noteq> -1" using ov \<open>it_signed R\<close> by simp
      moreover have "n < 0" using True \<open>it_signed R\<close> by (simp add: it_min_def)
      ultimately have "d \<noteq> -1" "n < 0" by simp_all
      then have "n sdiv d \<noteq> - n" by simp
      then show ?thesis using q True m \<open>n < 0\<close> by (simp add: in_type_def)
    next
      case False
      then have "\<bar>n\<bar> \<le> it_max R" using range m by linarith
      then show ?thesis using q m by (simp add: in_type_def)
    qed
  next
    case False
    then have "0 \<le> n sdiv d" using unsigned by (simp add: signed_divide_int_def sgn_if pos_imp_zdiv_nonneg_iff)
    then show ?thesis using q range False unsigned by (simp add: in_type_def it_min_def)
  qed
  assume nd: "\<not> d dvd n"
  from sdiv_small [OF this d] have s: "2 * \<bar>n sdiv d\<bar> \<le> \<bar>n\<bar>" .
  have "n \<noteq> 0" using nd by auto
  have big: "3 \<le> it_max R" using bits by (auto simp: it_max_def)
  have n: "\<bar>n\<bar> \<le> it_max R + 1" using range by (auto simp: it_min_def it_max_def split: if_splits)
  have "0 \<le> n sdiv d" if "\<not> it_signed R" using unsigned [OF that] by (simp add: signed_divide_int_def sgn_if pos_imp_zdiv_nonneg_iff)
  then show "in_type R (n sdiv d + 1)"
    using s n big by (cases "it_signed R") (auto simp: in_type_def it_min_def it_max_def)
  assume "it_signed R"
  then show "in_type R (n sdiv d - 1)" using s n big by (auto simp: in_type_def it_min_def it_max_def)
qed

lemma div_op_ok: "div_ok R n d \<Longrightarrow> div_op R n d = Inr (n sdiv d)"
  and mod_op_ok: "div_ok R n d \<Longrightarrow> mod_op R n d = Inr (n smod d)"
  by (simp_all add: div_op_def mod_op_def div_okD arith_Inr)

lemma branchless_ok:
  assumes "div_ok R n d"
  shows "divFloorBranchless R n d = Inr (n div d)" "divCeilBranchless R n d = Inr (- (- n div d))"
    "divRoundAwayBranchless R n d = Inr (if (n < 0) = (d < 0) then - (- n div d) else n div d)"
proof -
  note D = div_okD [OF assms]
  have adj: "add_op R (n sdiv d) k = Inr (n sdiv d + k)" if "k = 0 \<or> \<not> d dvd n \<and> (k = 1 \<or> k = -1 \<and> it_signed R)" for k
    using that D by (auto simp: add_op_def arith_Inr)
  have sign: "(n < 0) = (d < 0)" if "\<not> it_signed R" using D(4) [OF that] by auto
  have nz: "n \<noteq> 0" if "\<not> d dvd n" using that by auto
  then have pos: "\<not> d dvd n \<Longrightarrow> \<not> n < 0 \<Longrightarrow> 0 < n" by force
  show "divFloorBranchless R n d = Inr (n div d)" "divCeilBranchless R n d = Inr (- (- n div d))"
    "divRoundAwayBranchless R n d = Inr (if (n < 0) = (d < 0) then - (- n div d) else n div d)"
    using D(2) sign by (auto simp: divFloorBranchless_def divCeilBranchless_def divRoundAwayBranchless_def div_op_ok [OF assms]
        mod_op_ok [OF assms] smod_0_iff floor_sdiv ceil_sdiv xor_neg adj pos)
qed

lemma branchful_ok:
  assumes "div_ok R n d"
  shows "divFloorBranchful R n d = Inr (n div d)" "divCeilBranchful R n d = Inr (- (- n div d))"
    "divRoundAwayBranchful R n d = Inr (if (n < 0) = (d < 0) then - (- n div d) else n div d)"
proof -
  note D = div_okD [OF assms]
  let ?m = "n + (if n > 0 then -1 else 1)"
  have sign: "(n < 0) = (d < 0)" if "\<not> it_signed R" using D(4) [OF that] by auto
  have range: "it_min R \<le> n" "n \<le> it_max R" "0 \<le> it_max R" and bits: "it_bits R = 32 \<or> it_bits R = 64"
    using assms by (auto simp: div_ok_def in_type_def it_max_def)
  have min: "it_min R \<le> 0" by (simp add: it_min_def)
  have m: "in_type R ?m" if "n \<noteq> 0"
    using range min that unfolding in_type_def by (cases "0 < n") simp_all
  have step: "add_op R n (if n > 0 then -1 else 1) = Inr ?m" if "n \<noteq> 0"
    using m [OF that] D(1) by (simp only: add_op_def arith_Inr)
  have sm: "div_ok R ?m d" if "n \<noteq> 0"
  proof -
    have "\<not> (it_signed R \<and> ?m = it_min R \<and> d = -1)" if "n \<noteq> 0"
    proof
      assume a: "it_signed R \<and> ?m = it_min R \<and> d = -1"
      then have "it_min R < - 1" using bits by (auto simp: it_min_def)
      with a range that show False by (auto split: if_splits)
    qed
    then show ?thesis using assms m that by (simp add: div_ok_def)
  qed
  have q: "div_op R ?m d = Inr (n sdiv d - (if d dvd n then sgn n * sgn d else 0))" if "n \<noteq> 0"
    using div_op_ok [OF sm [OF that]] sdiv_towards_zero [OF that D(2)] by simp
  have adj: "in_type R (n sdiv d + k)" if "\<not> d dvd n" "k = 1 \<or> k = -1 \<and> it_signed R" for k
    using that D by auto
  have nz: "n \<noteq> 0" if "\<not> d dvd n" using that by auto
  have floor: "n div d = n sdiv d + (if d dvd n then 0 else sgn n * sgn d)" if "(n < 0) \<noteq> (d < 0)"
    using that D(2) nz by (auto simp: floor_sdiv sgn_if)
  have ceil: "- (- n div d) = n sdiv d + (if d dvd n then 0 else sgn n * sgn d)" if "(n < 0) = (d < 0)"
    using that D(2) nz by (auto simp: ceil_sdiv sgn_if)
  have same: "n div d = n sdiv d" if "(n < 0) = (d < 0)" using that D(2) by (simp add: floor_sdiv)
  have same': "- (- n div d) = n sdiv d" if "(n < 0) \<noteq> (d < 0)" using that D(2) by (simp add: ceil_sdiv)
  have s: "sgn n * sgn d = (if (n < 0) = (d < 0) then 1 else -1)" if "n \<noteq> 0" using that D(2) by (simp add: sgn_if)
  have r: "in_type R (n sdiv d + (if d dvd n then 0 else sgn n * sgn d))" if "n \<noteq> 0"
    using D(3,5,6) s [OF that] sign by auto
  show "divFloorBranchful R n d = Inr (n div d)"
    using sign same floor r s q step D(1) div_op_ok [OF assms]
    by (auto simp: divFloorBranchful_def xor_neg sub_op_def arith_Inr)
  show "divCeilBranchful R n d = Inr (- (- n div d))"
    using sign same' ceil r s q step D(1) div_op_ok [OF assms]
    by (auto simp: divCeilBranchful_def xor_neg add_op_def arith_Inr)
  show "divRoundAwayBranchful R n d = Inr (if (n < 0) = (d < 0) then - (- n div d) else n div d)"
    using sign ceil floor r s q step D(1)
    by (auto simp: divRoundAwayBranchful_def xor_neg add_op_def arith_Inr)
qed

section \<open>Logarithms\<close>

text \<open>The value of an expression of the promoted type, converted back, when it is in range.\<close>

lemma conv_id:
  assumes "in_type T x" "0 < it_bits T"
  shows "conv T x = x"
proof (cases "it_signed T")
  case True
  let ?h = "2 ^ (it_bits T - 1) :: int"
  have h: "2 ^ it_bits T = 2 * ?h" using assms(2) by (cases "it_bits T") simp_all
  have r: "- ?h \<le> x" "x < ?h" using assms(1) True by (simp_all add: in_type_def it_min_def it_max_def)
  show ?thesis
  proof (cases "0 \<le> x")
    case True
    then have "x mod 2 ^ it_bits T = x" using r unfolding h by simp
    then show ?thesis using r by (simp add: conv_def)
  next
    case False
    have "x mod (2 * ?h) = (x + 2 * ?h) mod (2 * ?h)" by simp
    also have "\<dots> = x + 2 * ?h" using r False by (intro mod_pos_pos_trivial) simp_all
    finally have "x mod 2 ^ it_bits T = x + 2 * ?h" unfolding h .
    then show ?thesis using r \<open>it_signed T\<close> unfolding conv_def h by simp
  qed
next
  case False
  then have "x mod 2 ^ it_bits T = x" using assms(1) by (simp add: in_type_def it_min_def it_max_def)
  then show ?thesis using False by (simp add: conv_def)
qed

lemma itype_facts:
  assumes "is_itype T"
  shows "0 < it_bits T" "it_bits T \<le> 64" "8 \<le> it_bits T" "127 \<le> it_max T" "it_min T \<le> 0"
    "it_max T \<le> it_max (promoted T)" "it_min (promoted T) \<le> it_min T" "32 \<le> it_bits (promoted T)"
  using assms by (auto simp: is_itype_def it_max_def it_min_def promoted_def int_type_def)

lemma in_promoted: "is_itype T \<Longrightarrow> in_type T x \<Longrightarrow> in_type (promoted T) x"
  using itype_facts(6,7) [of T] by (auto simp: in_type_def)

lemma small_in_type: "is_itype T \<Longrightarrow> 0 \<le> x \<Longrightarrow> x \<le> 127 \<Longrightarrow> in_type T x"
  using itype_facts(4,5) [of T] by (auto simp: in_type_def)

lemma half_in_type: "in_type T x \<Longrightarrow> 0 \<le> x \<Longrightarrow> in_type T (x div 2)"
proof -
  assume "in_type T x" "0 \<le> x"
  moreover have "it_min T \<le> 0" by (simp add: it_min_def)
  ultimately show ?thesis unfolding in_type_def by linarith
qed

lemma log2_rec_ok:
  assumes T: "is_itype T"
  shows "in_type T e \<Longrightarrow> 1 \<le> e \<Longrightarrow> 0 \<le> a \<Longrightarrow> a + int (bitlen (nat e)) \<le> 100 \<Longrightarrow>
    constexpr_log2_rec T a e = Some (Inr (a + int (bitlen (nat e)) - 1))"
proof (induction "nat e" arbitrary: a e rule: less_induct)
  case less
  show ?case
  proof (cases "e = 1")
    case True
    then show ?thesis by (subst constexpr_log2_rec.simps) (simp add: bitlen_pos)
  next
    case False
    then have e: "2 \<le> e" using less.prems(2) by simp
    have half: "e sdiv 2 = e div 2" using e by (simp add: signed_divide_int_def)
    have len: "bitlen (nat e) = Suc (bitlen (nat (e div 2)))" using e by (simp add: bitlen_pos nat_div_distrib)
    have in2: "in_type T (e div 2)" by (rule half_in_type) (use less.prems in auto)
    have "in_type T (a + 1)" by (rule small_in_type [OF T]) (use less.prems(3,4) in auto)
    then have "add_op T a 1 = Inr (a + 1)" "conv T (a + 1) = a + 1"
      using in_promoted [OF T] conv_id itype_facts(1) [OF T] by (auto simp: add_op_def arith_Inr)
    moreover have "div_op T e 2 = Inr (e div 2)" "conv T (e div 2) = e div 2"
      using in2 in_promoted [OF T] conv_id itype_facts(1) [OF T] by (auto simp: div_op_def arith_Inr half)
    moreover have "constexpr_log2_rec T (a + 1) (e div 2) = Some (Inr (a + 1 + int (bitlen (nat (e div 2))) - 1))"
      by (rule less.hyps) (use e in2 less.prems(3,4) len in \<open>auto simp: nat_div_distrib\<close>)
    ultimately show ?thesis using False len by (subst constexpr_log2_rec.simps) simp
  qed
qed

lemma log2_rec_pos: "constexpr_log2_rec T a e = Some r \<Longrightarrow> \<forall>x. r = Inr x \<longrightarrow> is_itype T \<longrightarrow> in_type T e \<longrightarrow> 1 \<le> e"
proof (induction rule: constexpr_log2_rec.raw_induct [rotated 1, consumes 1])
  case (1 f T a e r)
  show ?case
  proof (intro allI impI)
    fix x assume r: "r = Inr x" and T: "is_itype T" "in_type T e"
    show "1 \<le> e"
    proof (rule ccontr)
      assume "\<not> 1 \<le> e"
      then have e: "e \<le> 0" by simp
      have half: "e sdiv 2 \<le> 0" "in_type T (e sdiv 2)"
        using e T by (auto simp: signed_divide_int_def in_type_def sgn_if it_min_def it_max_def is_itype_def split: if_splits)
      then have d: "div_op T e 2 = Inr (e sdiv 2)" "conv T (e sdiv 2) = e sdiv 2"
        using in_promoted [OF T(1)] conv_id itype_facts(1) [OF T(1)] by (auto simp: div_op_def arith_Inr)
      from 1(2) r e d obtain a' where "f T (conv T a') (e sdiv 2) = Some (Inr x)"
        by (auto split: if_splits sum.splits)
      from 1(1) [OF this] half T(1) show False by auto
    qed
  qed
qed

lemma log2_ok:
  "is_itype T \<Longrightarrow> in_type T t \<Longrightarrow> 1 \<le> t \<Longrightarrow> constexpr_log2 T t = Some (Inr (int (bitlen (nat t)) - 1))"
proof -
  assume T: "is_itype T" "in_type T t" "1 \<le> t"
  have "nat t < 2 ^ 64"
    using T by (auto simp: in_type_def it_max_def is_itype_def nat_less_iff split: if_splits)
  then have "bitlen (nat t) \<le> 64" by (simp add: bitlen_le_iff)
  then show ?thesis using log2_rec_ok [OF T, of 0] by (simp add: constexpr_log2_def)
qed

lemma log2_iff:
  assumes "is_itype T" "in_type T t"
  shows "(\<exists>x. constexpr_log2 T t = Some (Inr x)) \<longleftrightarrow> 1 \<le> t"
  using log2_ok [OF assms] log2_rec_pos [of T 0 t] assms by (auto simp: constexpr_log2_def)

lemma log2_bounds:
  assumes "1 \<le> t"
  shows "2 ^ (bitlen (nat t) - 1) \<le> t" "t < 2 ^ bitlen (nat t)"
proof -
  have "0 < nat t" using assms by simp
  from exp_bitlen_le [OF this] have "int (2 ^ (bitlen (nat t) - 1)) \<le> int (nat t)" by (simp only: of_nat_le_iff)
  then show "2 ^ (bitlen (nat t) - 1) \<le> t" using assms by simp
  have "int (nat t) < int (2 ^ bitlen (nat t))" using less_exp_bitlen [of "nat t"] by (simp only: of_nat_less_iff)
  then show "t < 2 ^ bitlen (nat t)" using assms by simp
qed

lemma bitlen_bits:
  assumes "in_type T t" "0 \<le> t" "0 < it_bits T"
  shows "bitlen (nat t) \<le> (if it_signed T then it_bits T - 1 else it_bits T)"
proof -
  have "nat t < 2 ^ (if it_signed T then it_bits T - 1 else it_bits T)"
    using assms by (auto simp: in_type_def it_max_def nat_less_iff split: if_splits)
  then show ?thesis by (simp add: bitlen_le_iff)
qed

lemma log2_ceil_ok:
  assumes T: "is_itype T" "in_type T t" "1 \<le> t"
  shows "constexpr_log2_ceil T t = Some (Inr (int (bitlen (nat (t - 1)))))"
proof -
  define l where "l = bitlen (nat t) - 1"
  have len: "bitlen (nat t) = Suc l" using T(3) by (simp add: l_def bitlen_pos)
  note b = log2_bounds [OF T(3), unfolded len]
  have lbits: "l < it_bits T" "it_signed T \<Longrightarrow> l < it_bits T - 1"
    using bitlen_bits [OF T(2)] T(3) itype_facts(1,3) [OF T(1)] len by (auto split: if_splits)
  have shift: "conv (promoted T) (2 ^ l) = 2 ^ l"
  proof (rule conv_id)
    have "2 ^ l \<le> t" using b(1) by simp
    then have "in_type T (2 ^ l)" using T(2) itype_facts(5) [OF T(1)] by (auto simp: in_type_def intro: order_trans)
    then show "in_type (promoted T) (2 ^ l)" by (rule in_promoted [OF T(1)])
  qed (use itype_facts(8) [OF T(1)] in simp)
  have l: "int l < int (it_bits (promoted T))" using lbits(1) by (auto simp: promoted_def int_type_def)
  have add: "add_op T (int l) k = Inr (int l + k)" "conv T (int l + k) = int l + k" if "k = 0 \<or> k = 1" for k
  proof -
    have "in_type T (int l + k)"
      by (rule small_in_type [OF T(1)]) (use that lbits itype_facts(2) [OF T(1)] in auto)
    then show "add_op T (int l) k = Inr (int l + k)" "conv T (int l + k) = int l + k"
      using in_promoted [OF T(1)] conv_id itype_facts(1) [OF T(1)] by (auto simp: add_op_def arith_Inr)
  qed
  have "int (bitlen (nat (t - 1))) = int l + (if 2 ^ l < t then 1 else 0)"
  proof (cases "2 ^ l < t")
    case True
    then have "2 ^ l \<le> nat (t - 1)" by (simp add: le_nat_iff)
    moreover have "nat (t - 1) < 2 ^ Suc l" using b(2) T(3) by (simp add: nat_less_iff del: power_Suc)
    ultimately show ?thesis using True bitlen_eqI [of l "nat (t - 1)"] by simp
  next
    case False
    then have t: "t = 2 ^ l" using b(1) by simp
    have "bitlen (nat (t - 1)) = l"
    proof (cases l)
      case (Suc m)
      have "(2 :: int) ^ m \<le> 2 ^ l - 1" "(2 :: int) ^ l - 1 < 2 ^ l" using Suc by simp_all
      then show ?thesis using Suc bitlen_eqI [of m "nat (t - 1)"] unfolding t by (simp add: nat_less_iff le_nat_iff)
    qed (simp add: t)
    then show ?thesis using False by simp
  qed
  then show ?thesis using add shift l lbits
    by (simp add: constexpr_log2_ceil_def log2_ok [OF T] len constexpr_log2_ceil_of_def)
qed

lemma find_last_set_ok:
  assumes T: "is_itype T" "in_type T t"
  shows "constexpr_find_last_set T t = Some (Inr (int (bitlen (nat (t mod 2 ^ it_bits T)))))"
proof (cases "t = 0")
  case False
  let ?U = "T\<lparr>it_signed := False\<rparr>"
  have U: "is_itype ?U" using T(1) by (simp add: is_itype_def)
  have c: "conv ?U t = t mod 2 ^ it_bits T" by (simp add: conv_def)
  have "\<bar>t\<bar> < 2 ^ it_bits T"
    using T itype_facts(1) [OF T(1)] by (cases "it_bits T") (auto simp: in_type_def it_min_def it_max_def split: if_splits)
  then have "\<not> 2 ^ it_bits T dvd t" using False zdvd_imp_le [of "2 ^ it_bits T" "\<bar>t\<bar>"] by auto
  then have "t mod 2 ^ it_bits T \<noteq> 0" by (simp only: dvd_eq_mod_eq_0 not_False_eq_True)
  moreover have "0 \<le> t mod 2 ^ it_bits T" by simp
  ultimately have "1 \<le> t mod 2 ^ it_bits T" by linarith
  moreover have "t mod 2 ^ it_bits T < 2 ^ it_bits T" "0 \<le> t mod 2 ^ it_bits T" by simp_all
  then have "in_type ?U (t mod 2 ^ it_bits T)" by (simp add: in_type_def it_min_def it_max_def)
  ultimately show ?thesis using False log2_ok [OF U] by (simp add: constexpr_find_last_set_def c Let_def)
qed (simp add: constexpr_find_last_set_def)

section \<open>Clamping\<close>

lemma clamp_in_type: "it_min T \<le> it_max T \<Longrightarrow> in_type T (constexpr_clamp x (it_min T) (it_max T))"
  by (simp add: constexpr_clamp_def constexpr_clamp_by_def in_type_def)

lemma clamp_min_max: "lo \<le> hi \<Longrightarrow> constexpr_clamp x lo hi = min (max x lo) hi"
  by (auto simp: constexpr_clamp_def constexpr_clamp_by_def)

lemma add_clamped_ok:
  assumes T: "is_itype T" and ab: "in_type T a" "in_type T b"
  shows "constexpr_add_overflow_clamped T a b = Inr (min (max (a + b) (it_min T)) (it_max T))"
proof (cases "it_bits T < 64")
  case True
  have "in_type intmax (a + b)"
    using T ab True by (auto simp: is_itype_def in_type_def it_min_def it_max_def intmax_def split: if_splits)
  moreover have "promoted intmax = intmax" by (simp add: promoted_def intmax_def)
  ultimately have "add_op intmax a b = Inr (a + b)" by (simp add: add_op_def arith_Inr)
  moreover have le: "it_min T \<le> it_max T" using itype_facts(4,5) [OF T] by simp
  ultimately show ?thesis
    using True conv_id [OF clamp_in_type [OF le, of "a + b"] itype_facts(1) [OF T]]
    by (simp add: constexpr_add_overflow_clamped_def intmax_def clamp_min_max)
next
  case False
  then have T64: "it_bits T = 64" using T by (auto simp: is_itype_def)
  then have P: "promoted T = T" by (simp add: promoted_def)
  have r: "it_min T \<le> a" "a \<le> it_max T" "it_min T \<le> b" "b \<le> it_max T" "it_min T \<le> 0" "0 \<le> it_max T"
    using ab itype_facts(4,5) [OF T] by (auto simp: in_type_def)
  have un: "it_min T = - it_max T - 1 \<or> it_min T = 0" by (auto simp: it_min_def it_max_def)
  consider "0 \<le> a" | "a < 0" "0 \<le> b" | "a < 0" "b < 0" by linarith
  then show ?thesis
  proof cases
    case 1
    have "in_type T (it_max T - a)" using r 1 by (simp add: in_type_def)
    then have "sub_op T (it_max T) a = Inr (it_max T - a)" "conv T (it_max T - a) = it_max T - a"
      using P conv_id T64 by (simp_all add: sub_op_def arith_Inr)
    moreover have "in_type T (a + min b (it_max T - a))" using r 1 by (auto simp: in_type_def)
    ultimately show ?thesis using 1 T64 P r
      by (auto simp: constexpr_add_overflow_clamped_def intmax_def add_op_def arith_Inr in_type_def)
  next
    case 2
    then have "in_type T (a + b)" using r by (auto simp: in_type_def)
    then show ?thesis using 2 T64 P by (simp add: constexpr_add_overflow_clamped_def intmax_def add_op_def arith_Inr in_type_def)
  next
    case 3
    then have neg: "it_min T = - it_max T - 1" using un r by linarith
    have "in_type T (it_min T - a)" using r 3 neg by (simp add: in_type_def)
    then have "sub_op T (it_min T) a = Inr (it_min T - a)" "conv T (it_min T - a) = it_min T - a"
      using P conv_id T64 by (simp_all add: sub_op_def arith_Inr)
    moreover have "in_type T (a + max b (it_min T - a))" using r 3 by (auto simp: in_type_def)
    ultimately show ?thesis using 3 T64 P r
      by (auto simp: constexpr_add_overflow_clamped_def intmax_def add_op_def arith_Inr in_type_def)
  qed
qed

lemma sub_clamped_ok:
  assumes T: "is_itype T" and ab: "in_type T a" "in_type T b"
  shows "constexpr_sub_overflow_clamped T a b = Inr (min (max (a - b) (it_min T)) (it_max T))"
proof -
  have r: "it_min T \<le> a" "a \<le> it_max T" "it_min T \<le> b" "b \<le> it_max T" "it_min T \<le> 0" "0 \<le> it_max T"
    using ab itype_facts(4,5) [OF T] by (auto simp: in_type_def)
  have sub: "sub_op T a b = Inr (a - b)" if "in_type T (a - b)"
    using in_promoted [OF T that] by (simp add: sub_op_def arith_Inr)
  consider "\<not> it_signed T" | "it_signed T" "it_bits T < 64" | "it_signed T" "it_bits T = 64"
    using T by (cases "it_signed T") (auto simp: is_itype_def)
  then show ?thesis
  proof cases
    case 1
    then have z: "it_min T = 0" by (simp add: it_min_def)
    show ?thesis
    proof (cases "a < b")
      case True
      then show ?thesis using 1 z r by (simp add: constexpr_sub_overflow_clamped_def)
    next
      case False
      then have "in_type T (a - b)" using r z by (simp add: in_type_def)
      then show ?thesis using 1 False sub r z by (simp add: constexpr_sub_overflow_clamped_def in_type_def)
    qed
  next
    case 2
    have "in_type intmax (a - b)"
      using T ab 2 by (auto simp: is_itype_def in_type_def it_min_def it_max_def intmax_def)
    moreover have "promoted intmax = intmax" by (simp add: promoted_def intmax_def)
    ultimately have "sub_op intmax a b = Inr (a - b)" by (simp add: sub_op_def arith_Inr)
    moreover have le: "it_min T \<le> it_max T" using r by simp
    ultimately show ?thesis
      using 2 conv_id [OF clamp_in_type [OF le, of "a - b"] itype_facts(1) [OF T]]
      by (simp add: constexpr_sub_overflow_clamped_def intmax_def clamp_min_max)
  next
    case 3
    then have P: "promoted T = T" and m: "it_min T = - it_max T - 1"
      by (simp_all add: promoted_def it_min_def it_max_def)
    have def64: "constexpr_sub_overflow_clamped T a b =
        (if (a < 0) = (b < 0) then sub_op T a b
         else if it_min T < b then andthen (neg_op T b) (\<lambda>x. constexpr_add_overflow_clamped T a (conv T x))
         else if a < 0 then sub_op T a b
         else Inr (it_max T))"
      using 3 by (simp add: constexpr_sub_overflow_clamped_def intmax_def)
    show ?thesis
    proof (cases "(a < 0) = (b < 0)")
      case True
      then have "in_type T (a - b)" using r m by (auto simp: in_type_def)
      then show ?thesis using True sub unfolding def64 by (simp add: in_type_def)
    next
      case False
      show ?thesis
      proof (cases "it_min T < b")
        case True
        then have nb: "in_type T (- b)" using r m by (simp add: in_type_def)
        then have "neg_op T b = Inr (- b)" "conv T (- b) = - b"
          using P conv_id itype_facts(1) [OF T] by (simp_all add: neg_op_def arith_Inr)
        then show ?thesis using True False add_clamped_ok [OF T ab(1) nb] unfolding def64 by simp
      next
        case b: False
        then have "b = it_min T" using r by simp
        then show ?thesis using b False r m unfolding def64 by auto
      qed
    qed
  qed
qed

lemma it_max_mono:
  assumes "it_bits A < it_bits B \<or> it_bits A = it_bits B \<and> (it_signed A = it_signed B \<or> it_signed A)" "0 < it_bits A"
  shows "it_max A \<le> it_max B"
proof (cases "it_bits A < it_bits B")
  case True
  have "(2 :: int) ^ (it_bits A - 1) \<le> 2 ^ it_bits A" "(2 :: int) ^ it_bits A \<le> 2 ^ (it_bits B - 1)"
    "(2 :: int) ^ (it_bits B - 1) \<le> 2 ^ it_bits B" using True by (intro power_increasing; simp)+
  then show ?thesis unfolding it_max_def
    by (cases "it_signed A"; cases "it_signed B"; simp only: if_True if_False; linarith)
next
  case False
  have "(2 :: int) ^ (it_bits B - 1) \<le> 2 ^ it_bits B" by (intro power_increasing) simp_all
  then have "(2 :: int) ^ (it_bits B - 1) - 1 \<le> 2 ^ it_bits B - 1" by linarith
  moreover have "it_bits A = it_bits B" "it_signed A = it_signed B \<or> it_signed A" using False assms by auto
  ultimately show ?thesis
  proof (cases "it_signed A = it_signed B")
    case False
    then have "it_max A = 2 ^ (it_bits B - 1) - 1" "it_max B = 2 ^ it_bits B - 1"
      using \<open>it_bits A = it_bits B\<close> \<open>it_signed A = it_signed B \<or> it_signed A\<close> by (simp_all add: it_max_def)
    then show ?thesis using \<open>(2 :: int) ^ (it_bits B - 1) - 1 \<le> 2 ^ it_bits B - 1\<close> by (simp only:)
  qed (simp add: it_max_def)
qed

lemma clamp_cast_ok:
  assumes D: "is_itype Dst" and S: "is_itype Src" and x: "in_type Src src"
  shows "constexpr_clamp_cast Dst Src src = min (max src (it_min Dst)) (it_max Dst)"
proof -
  have le: "it_min Dst \<le> it_max Dst" using itype_facts(4,5) [OF D] by simp
  have fits: "conv Dst y = y" if "it_min Dst \<le> y" "y \<le> it_max Dst" for y
    using conv_id [of Dst y] that itype_facts(1) [OF D] by (simp add: in_type_def)
  have fits': "conv Src y = y" if "it_min Src \<le> y" "y \<le> it_max Src" for y
    using conv_id [of Src y] that itype_facts(1) [OF S] by (simp add: in_type_def)
  have sgn: "it_min T = (if it_signed T then - it_max T - 1 else 0)" for T by (simp add: it_min_def it_max_def)
  note r = x [unfolded in_type_def]
  show ?thesis
  proof (cases "it_signed Src = it_signed Dst")
    case same: True
    show ?thesis
    proof (cases "it_bits Src \<le> it_bits Dst")
      case True
      then have "it_max Src \<le> it_max Dst" using same itype_facts(1) [OF S] by (intro it_max_mono) auto
      then have "it_min Dst \<le> src" "src \<le> it_max Dst" using r same by (auto simp: sgn split: if_splits)
      then show ?thesis using True same fits by (simp add: constexpr_clamp_cast_def)
    next
      case False
      then have "it_max Dst \<le> it_max Src" using same itype_facts(1) [OF D] by (intro it_max_mono) auto
      moreover from this have "it_min Src \<le> it_min Dst" using same by (simp add: sgn)
      ultimately have "conv Src (it_min Dst) = it_min Dst" "conv Src (it_max Dst) = it_max Dst"
        using le by (auto intro: fits')
      then show ?thesis using False same le fits by (simp add: constexpr_clamp_cast_def clamp_min_max)
    qed
  next
    case other: False
    show ?thesis
    proof (cases "it_signed Src")
      case True
      then have un: "\<not> it_signed Dst" "it_min Dst = 0" using other by (simp_all add: it_min_def)
      show ?thesis
      proof (cases "it_bits Src \<le> it_bits Dst")
        case bits: True
        then have "it_max Src \<le> it_max Dst" using True itype_facts(1) [OF S] by (intro it_max_mono) auto
        then show ?thesis using True un bits r fits itype_facts(4) [OF D] by (auto simp: constexpr_clamp_cast_def le)
      next
        case bits: False
        then have "it_max Dst \<le> it_max Src" using itype_facts(1) [OF D] by (intro it_max_mono) auto
        then have "conv Src (it_max Dst) = it_max Dst" using le itype_facts(4,5) [OF D] itype_facts(5) [OF S] by (intro fits') auto
        then show ?thesis using True un bits r fits le by (auto simp: constexpr_clamp_cast_def)
      qed
    next
      case False
      then have sg: "it_signed Dst" "it_min Src = 0" using other by (simp_all add: it_min_def)
      show ?thesis
      proof (cases "it_bits Src < it_bits Dst")
        case bits: True
        then have "it_max Src \<le> it_max Dst" using itype_facts(1) [OF S] by (intro it_max_mono) auto
        then show ?thesis using False sg bits r fits itype_facts(5) [OF D] by (auto simp: constexpr_clamp_cast_def le)
      next
        case bits: False
        then have "it_max Dst \<le> it_max Src" using sg itype_facts(1) [OF D] by (intro it_max_mono) auto
        then have "conv Src (it_max Dst) = it_max Dst" using itype_facts(4,5) [OF D] sg(2) by (intro fits') auto
        then show ?thesis using False sg bits r fits le itype_facts(4,5) [OF D] by (auto simp: constexpr_clamp_cast_def)
      qed
    qed
  qed
qed

section \<open>Multiples and powers\<close>

lemma op_ok:
  assumes "is_itype T" "in_type T x"
  shows "arith (promoted T) x = Inr x" "conv T x = x"
  using in_promoted [OF assms] conv_id [OF assms(2)] itype_facts(1) [OF assms(1)] by (simp_all add: arith_Inr)

text \<open>The least multiple of \<open>round\<close> that is not below \<open>t\<close>, if the sum does not leave the type.\<close>

lemma ceil_ok:
  assumes T: "is_itype T" and t: "in_type T t" and d: "in_type T d" "0 < d"
    and sum: "0 \<le> t \<Longrightarrow> in_type T (t + (d - 1))" and m: "m = - (- t div d) * d"
  shows "constexpr_ceil T t d = Inr m" "t \<le> m" "m < t + d" "d dvd m"
proof -
  have c: "- (- t div d) = t sdiv d + of_bool (\<not> d dvd t \<and> 0 \<le> t)"
    using ceil_sdiv [of d t] d(2) by (auto simp: not_less)
  have dm: "- t = d * (- t div d) + (- t) mod d" by simp
  have md: "0 \<le> (- t) mod d" "(- t) mod d < d" using d(2) by simp_all
  have "m = - (d * (- t div d))" by (simp add: m mult.commute)
  with dm have "m = t + (- t) mod d" by linarith
  with md show "t \<le> m" "m < t + d" by simp_all
  show "d dvd m" by (simp add: m)
  show "constexpr_ceil T t d = Inr m"
  proof (cases "t < 0")
    case True
    have q: "t sdiv d * d = m" using c True m by simp
    have "m < d" using \<open>m < t + d\<close> True by simp
    then have "m \<le> 0" using zdvd_imp_le [OF \<open>d dvd m\<close>] by linarith
    then have "in_type T m" using t itype_facts(4) [OF T] \<open>t \<le> m\<close> by (auto simp: in_type_def)
    moreover have "in_type T (t sdiv d)"
    proof -
      have "\<bar>t sdiv d\<bar> \<le> \<bar>t\<bar>" using sdiv_int_range [of t d] by auto
      moreover have "t sdiv d \<le> 0" using q \<open>m \<le> 0\<close> d(2) by (metis mult_le_0_iff not_le)
      ultimately show ?thesis using t True itype_facts(4) [OF T] by (auto simp: in_type_def)
    qed
    ultimately show ?thesis
      using True d(2) op_ok [OF T t] op_ok [OF T, of m] op_ok [OF T, of "t sdiv d"] q
      by (simp add: constexpr_ceil_def add_op_def div_op_def mul_op_def)
  next
    case False
    then have s: "in_type T (t + (d - 1))" using sum by simp
    have "in_type T (d - 1)" using d itype_facts(5) [OF T] by (auto simp: in_type_def)
    have q: "(t + (d - 1)) sdiv d = - (- t div d)"
    proof -
      have "(t + (d - 1)) sdiv d = (t + (d - 1)) div d" using False d(2) by (intro sdiv_nonneg) simp_all
      also have "\<dots> = - (- t div d)"
      proof -
        have "t + (d - 1) = d * (- (- t div d)) + (d - 1 - (- t) mod d)" using dm by (simp add: algebra_simps)
        then show ?thesis by (rule int_div_pos_eq) (use md in auto)
      qed
      finally show ?thesis .
    qed
    have "0 \<le> m" "m \<le> t + (d - 1)" using \<open>t \<le> m\<close> \<open>m < t + d\<close> False by simp_all
    then have "in_type T m" using s itype_facts(5) [OF T] by (auto simp: in_type_def)
    moreover have "in_type T (- (- t div d))"
    proof -
      have "0 \<le> - (- t div d)" using False d(2) div_nonpos_pos_le0 [of "- t" d] by simp
      moreover have "- (- t div d) * 1 \<le> - (- t div d) * d" using calculation d(2) by (intro mult_left_mono) simp_all
      then have "- (- t div d) \<le> m" by (simp add: m)
      ultimately show ?thesis using \<open>in_type T m\<close> itype_facts(5) [OF T] by (auto simp: in_type_def)
    qed
    ultimately show ?thesis
      using False d(2) op_ok [OF T s] op_ok [OF T \<open>in_type T (d - 1)\<close>] op_ok [OF T, of m] op_ok [OF T, of "- (- t div d)"] q m
      by (simp add: constexpr_ceil_def add_op_def sub_op_def div_op_def mul_op_def)
  qed
qed

lemma power_even_odd: "(b :: int) ^ e = (b ^ (e div 2)) * (b ^ (e div 2)) * (if e mod 2 \<noteq> 0 then b else 1)"
proof -
  have "e = e div 2 + e div 2 + e mod 2" by presburger
  then have "b ^ e = b ^ (e div 2) * b ^ (e div 2) * b ^ (e mod 2)" by (metis power_add)
  also have "b ^ (e mod 2) = (if e mod 2 \<noteq> 0 then b else 1)" by (cases "e mod 2 = 0") (simp_all add: mod_2_eq_odd)
  finally show ?thesis .
qed

lemma smaller_in_type:
  assumes T: "is_itype T" and x: "in_type T x" and b: "in_type T b" "y < 0 \<Longrightarrow> b < 0"
    and y: "2 * \<bar>y\<bar> \<le> \<bar>x\<bar> \<or> \<bar>y\<bar> \<le> 1"
  shows "in_type T y"
proof -
  have m: "it_min T = (if it_signed T then - it_max T - 1 else 0)" by (simp add: it_min_def it_max_def)
  have "127 \<le> it_max T" using itype_facts(4) [OF T] .
  moreover have "y < 0 \<Longrightarrow> it_signed T" using b m by (auto simp: in_type_def split: if_splits)
  ultimately show ?thesis using x y m by (cases "it_signed T"; cases "y < 0") (auto simp: in_type_def)
qed

lemma power_smaller:
  fixes b :: int
  assumes "k < n"
  shows "2 * \<bar>b ^ k\<bar> \<le> \<bar>b ^ n\<bar> \<or> \<bar>b ^ k\<bar> \<le> 1"
proof (cases "\<bar>b\<bar> \<le> 1")
  case True
  then show ?thesis by (simp add: power_abs power_le_one)
next
  case False
  have n: "n = k + (n - k)" "n - k \<noteq> 0" using assms by simp_all
  have "\<bar>b\<bar> ^ 1 \<le> \<bar>b\<bar> ^ (n - k)" using False n(2) by (intro power_increasing) simp_all
  then have "2 \<le> \<bar>b\<bar> ^ (n - k)" using False by simp
  then have "\<bar>b\<bar> ^ k * 2 \<le> \<bar>b\<bar> ^ k * \<bar>b\<bar> ^ (n - k)" by (intro mult_left_mono) simp_all
  also have "\<bar>b\<bar> ^ k * \<bar>b\<bar> ^ (n - k) = \<bar>b\<bar> ^ n" using n(1) by (metis power_add)
  finally show ?thesis by (simp add: power_abs)
qed

lemma pow_ok:
  assumes T: "is_itype T"
  shows "in_type T base \<Longrightarrow> in_type T (base ^ e) \<Longrightarrow> constexpr_pow T base e = Inr (base ^ e)"
proof (induction e rule: less_induct)
  case (less e)
  show ?case
  proof (cases "e \<le> 1")
    case True
    then have "e = 0 \<or> e = 1" by auto
    then show ?thesis by (subst constexpr_pow.simps) auto
  next
    case False
    define h where "h = e div 2"
    have h: "h < e" "h + h \<le> e" using False by (simp_all add: h_def)
    have pow: "in_type T (base ^ k)" if "k \<le> e" for k
    proof (cases "k = e")
      case False
      have "base ^ k < 0 \<Longrightarrow> base < 0" by (meson not_less zero_le_power)
      moreover have "2 * \<bar>base ^ k\<bar> \<le> \<bar>base ^ e\<bar> \<or> \<bar>base ^ k\<bar> \<le> 1"
        by (rule power_smaller) (use that False in simp)
      ultimately show ?thesis by (rule smaller_in_type [OF T less.prems(2,1)])
    qed (use less.prems in simp)
    have eq: "base ^ e = base ^ (h + h) * (if e mod 2 \<noteq> 0 then base else 1)"
      unfolding h_def power_add using power_even_odd [of base e] .
    have half: "constexpr_pow T base h = Inr (base ^ h)" using less.IH [OF h(1)] less.prems(1) pow [of h] h by simp
    have sq: "constexpr_square T (base ^ h) = Inr (base ^ (h + h))"
      using op_ok [OF T pow [OF h(2)]] by (simp add: constexpr_square_def mul_op_def power_add)
    have "mul_op T (base ^ (h + h)) (if e mod 2 \<noteq> 0 then base else 1) = Inr (base ^ e)" "conv T (base ^ e) = base ^ e"
      using op_ok [OF T less.prems(2)] by (simp_all only: mul_op_def eq [symmetric])
    then show ?thesis using False half sq
      by (subst constexpr_pow.simps) (simp add: h_def [symmetric])
  qed
qed

section \<open>The lowest set bit\<close>

lemma find_first_rec_ok:
  fixes u :: int
  shows "\<forall>i<a. \<not> bit u i \<Longrightarrow> \<exists>i. a \<le> i \<and> i < a + 2 ^ k \<and> bit u i \<Longrightarrow>
    (let i = constexpr_find_first_set_rec (if k = 0 then 0 else 2 ^ (k - 1)) a u in bit u i \<and> (\<forall>j<i. \<not> bit u j))"
proof (induction k arbitrary: a)
  case 0
  then obtain i where "a \<le> i" "i < a + 1" "bit u i" by auto
  then have "bit u a" by (cases "i = a") auto
  then show ?case using 0 by (subst constexpr_find_first_set_rec.simps) simp
next
  case (Suc k)
  let ?s = "2 ^ k :: nat"
  have z: "drop_bit a u mod 2 ^ ?s = 0 \<longleftrightarrow> (\<forall>i<?s. \<not> bit u (a + i))"
  proof -
    have "drop_bit a u mod 2 ^ ?s = take_bit ?s (drop_bit a u)" by (simp add: take_bit_eq_mod)
    also have "\<dots> = 0 \<longleftrightarrow> (\<forall>i<?s. \<not> bit u (a + i))"
      by (auto simp: bit_eq_iff [of _ 0] bit_take_bit_iff bit_drop_bit_eq add.commute)
    finally show ?thesis .
  qed
  have s: "(if Suc k = 0 then 0 else 2 ^ (Suc k - 1)) = ?s" "?s div 2 = (if k = 0 then 0 else 2 ^ (k - 1))"
    by (simp, cases k) simp_all
  define b where "b = a + ?s * (if drop_bit a u mod 2 ^ ?s = 0 then 1 else 0)"
  have step: "constexpr_find_first_set_rec ?s a u = constexpr_find_first_set_rec (if k = 0 then 0 else 2 ^ (k - 1)) b u"
    by (subst constexpr_find_first_set_rec.simps) (simp add: s(2) b_def)
  obtain i where i: "a \<le> i" "i < a + 2 ^ Suc k" "bit u i" using Suc.prems(2) by blast
  have "\<forall>j<b. \<not> bit u j"
  proof (intro allI impI)
    fix j assume j: "j < b"
    show "\<not> bit u j"
    proof (cases "j < a")
      case False
      then have "drop_bit a u mod 2 ^ ?s = 0" "j - a < ?s" using j by (auto simp: b_def split: if_splits)
      then have "\<not> bit u (a + (j - a))" by (rule z [THEN iffD1, rule_format])
      then show ?thesis using False by simp
    qed (use Suc.prems(1) in blast)
  qed
  moreover have "\<exists>i. b \<le> i \<and> i < b + 2 ^ k \<and> bit u i"
  proof (cases "drop_bit a u mod 2 ^ ?s = 0")
    case True
    then have "\<not> i - a < ?s" using z i(1,3) by (metis le_add_diff_inverse)
    then show ?thesis using True i by (intro exI [of _ i]) (simp add: b_def)
  next
    case False
    then obtain j where "j < ?s" "bit u (a + j)" using z by blast
    then show ?thesis using False by (intro exI [of _ "a + j"]) (simp add: b_def)
  qed
  ultimately show ?case using Suc.IH [of b] unfolding s(1) step by simp
qed

lemma find_first_set_ok:
  assumes T: "is_itype T" and t: "in_type T t" "t \<noteq> 0"
  shows "\<exists>i. constexpr_find_first_set T t = Suc i \<and> bit t i \<and> (\<forall>j<i. \<not> bit t j)"
proof -
  define u where "u = t mod 2 ^ it_bits T"
  have u: "u = take_bit (it_bits T) t" by (simp add: u_def take_bit_eq_mod)
  have "\<bar>t\<bar> < 2 ^ it_bits T"
    using t T itype_facts(1) [OF T] by (cases "it_bits T") (auto simp: in_type_def it_min_def it_max_def split: if_splits)
  then have "\<not> 2 ^ it_bits T dvd t" using t(2) zdvd_imp_le [of "2 ^ it_bits T" "\<bar>t\<bar>"] by auto
  then have "u \<noteq> 0" by (simp add: u_def dvd_eq_mod_eq_0)
  then obtain i where i: "bit u i" by (auto simp: bit_eq_iff)
  then have ib: "i < it_bits T" by (simp add: u bit_take_bit_iff)
  obtain k where k: "it_bits T = 2 ^ k" "0 < k"
  proof -
    have "\<exists>k. it_bits T = 2 ^ k \<and> 0 < k"
      using T unfolding is_itype_def
      by (elim insertE emptyE) (intro exI [of _ 3], simp, intro exI [of _ 4], simp, intro exI [of _ 5], simp, intro exI [of _ 6], simp)
    then show thesis using that by blast
  qed
  have half: "it_bits T div 2 = 2 ^ (k - 1)" using k by (cases k) simp_all
  have c: "conv (T\<lparr>it_signed := False\<rparr>) t = u" by (simp add: conv_def u_def)
  have "let i = constexpr_find_first_set_rec (2 ^ (k - 1)) 0 u in bit u i \<and> (\<forall>j<i. \<not> bit u j)"
    using find_first_rec_ok [of 0 u k] i ib k by auto
  then obtain n where n: "constexpr_find_first_set_rec (2 ^ (k - 1)) 0 u = n" "bit u n" "\<forall>j<n. \<not> bit u j"
    by (auto simp: Let_def)
  have nb: "n < it_bits T" using n(2) by (simp add: u bit_take_bit_iff)
  have "bit t n" "\<forall>j<n. \<not> bit t j" using n nb by (auto simp: u bit_take_bit_iff)
  then show ?thesis using n(1) t(2) by (simp add: constexpr_find_first_set_def half c)
qed

section \<open>Properties\<close>

text \<open>
  C37. For every pair of operands for which the quotient is defined, both on a machine whose division
  gives the remainder and on one where it does not, \<open>divFloor\<close>, \<open>divCeil\<close>, \<open>divTrunc\<close> and
  \<open>divRoundAway\<close> are the exact quotient rounded down, up, towards zero and away from zero, and no
  intermediate result overflows. For signed types the branch-free and the branching code agree.
\<close>

theorem division_rounds:
  assumes "div_ok R n d"
  shows "divFloor g R n d = Inr (n div d) \<and> divCeil g R n d = Inr (- (- n div d)) \<and>
    divTrunc R n d = Inr (n sdiv d) \<and>
    divRoundAway g R n d = Inr (if (n < 0) = (d < 0) then - (- n div d) else n div d)"
  using branchless_ok [OF assms] branchful_ok [OF assms] div_op_ok [OF assms]
  by (simp add: divFloor_def divCeil_def divTrunc_def divRoundAway_def)

theorem division_rounds_witness:
  "divFloor True int_type (-7) 2 = Inr (-4) \<and> divCeil False int_type (-7) 2 = Inr (-3) \<and>
   divTrunc int_type (-7) 2 = Inr (-3) \<and> divRoundAway False int_type (-7) 2 = Inr (-4)"
proof -
  have "div_ok int_type (-7) 2" by (simp add: div_ok_def int_type_def in_type_def it_min_def it_max_def)
  from division_rounds [OF this, of True] division_rounds [OF this, of False] show ?thesis
    by (simp add: signed_divide_int_def)
qed

text \<open>
  C38. For every integer type of 8 to 64 bits, addition and subtraction with clamping give the exact
  result moved to the nearest bound of the type, and \<open>constexpr_clamp_cast\<close> between any two integer types
  the value moved to the nearest bound of the destination; no intermediate result overflows.
\<close>

theorem clamped_arithmetic:
  assumes "is_itype T" "in_type T a" "in_type T b" "is_itype Dst"
  shows "constexpr_add_overflow_clamped T a b = Inr (min (max (a + b) (it_min T)) (it_max T)) \<and>
    constexpr_sub_overflow_clamped T a b = Inr (min (max (a - b) (it_min T)) (it_max T)) \<and>
    constexpr_clamp_cast Dst T a = min (max a (it_min Dst)) (it_max Dst)"
  using add_clamped_ok [OF assms(1-3)] sub_clamped_ok [OF assms(1-3)] clamp_cast_ok [OF assms(4,1,2)] by simp

theorem clamped_arithmetic_witness:
  "constexpr_add_overflow_clamped intmax 0x7FFFFFFFFFFFFFFF 1 = Inr 0x7FFFFFFFFFFFFFFF \<and>
   constexpr_clamp_cast \<lparr>it_bits = 16, it_signed = False\<rparr> intmax 0x7FFFFFFFFFFFFFFF = 65535"
proof -
  have "is_itype intmax" "in_type intmax 0x7FFFFFFFFFFFFFFF" "in_type intmax 1" "is_itype \<lparr>it_bits = 16, it_signed = False\<rparr>"
    by (simp_all add: is_itype_def intmax_def in_type_def it_min_def it_max_def)
  from clamped_arithmetic [OF this] show ?thesis by (simp add: it_min_def it_max_def intmax_def)
qed

text \<open>
  C39. \<open>constexpr_log2\<close> returns a value exactly for positive arguments: for 0 and for negative values the
  recursion never reaches its end. Where it returns, it gives the rounded-down logarithm,
  \<open>constexpr_log2_ceil\<close> the rounded-up one and \<open>constexpr_find_last_set\<close> the position of the highest set
  bit, which are defined for all their arguments.
\<close>

theorem log2_terminates:
  assumes "is_itype T" "in_type T t"
  shows "(\<exists>x. constexpr_log2 T t = Some (Inr x)) = (1 \<le> t) \<and>
    (1 \<le> t \<longrightarrow> (\<exists>n. constexpr_log2 T t = Some (Inr (int n)) \<and> 2 ^ n \<le> t \<and> t < 2 ^ Suc n) \<and>
       (\<exists>n. constexpr_log2_ceil T t = Some (Inr (int n)) \<and> t \<le> 2 ^ n \<and> (n = 0 \<or> 2 ^ (n - 1) < t))) \<and>
    constexpr_find_last_set T t = Some (Inr (int (bitlen (nat (t mod 2 ^ it_bits T)))))"
proof -
  have "(\<exists>n. constexpr_log2 T t = Some (Inr (int n)) \<and> 2 ^ n \<le> t \<and> t < 2 ^ Suc n) \<and>
       (\<exists>n. constexpr_log2_ceil T t = Some (Inr (int n)) \<and> t \<le> 2 ^ n \<and> (n = 0 \<or> 2 ^ (n - 1) < t))" if t: "1 \<le> t"
  proof
    define l where "l = bitlen (nat t) - 1"
    have len: "bitlen (nat t) = Suc l" using t by (simp add: l_def bitlen_pos)
    show "\<exists>n. constexpr_log2 T t = Some (Inr (int n)) \<and> 2 ^ n \<le> t \<and> t < 2 ^ Suc n"
      using log2_ok [OF assms t] log2_bounds [OF t] unfolding len by (intro exI [of _ l]) simp
    define n where "n = bitlen (nat (t - 1))"
    have "t \<le> 2 ^ n \<and> (n = 0 \<or> 2 ^ (n - 1) < t)"
    proof (cases "t = 1")
      case False
      then show ?thesis using log2_bounds [of "t - 1"] t unfolding n_def by simp
    qed (simp add: n_def)
    then show "\<exists>n. constexpr_log2_ceil T t = Some (Inr (int n)) \<and> t \<le> 2 ^ n \<and> (n = 0 \<or> 2 ^ (n - 1) < t)"
      using log2_ceil_ok [OF assms t] unfolding n_def by blast
  qed
  then show ?thesis using log2_iff [OF assms] find_last_set_ok [OF assms] by blast
qed

theorem log2_terminates_witness:
  "(\<nexists>x. constexpr_log2 int_type 0 = Some (Inr x)) \<and> (\<exists>x. constexpr_log2 int_type 9 = Some (Inr x))"
proof -
  have "is_itype int_type" "in_type int_type 0" "in_type int_type 9"
    by (simp_all add: is_itype_def int_type_def in_type_def it_min_def it_max_def)
  from log2_terminates [OF this(1,2)] log2_terminates [OF this(1,3)] show ?thesis by simp
qed

text \<open>
  \<open>constexpr_pow\<close> is the power whenever it is a value of the type, without overflow on the way;
  \<open>constexpr_ceil\<close> the least multiple of its positive second argument that is not below the first, if the sum
  it forms does not overflow; \<open>constexpr_find_first_set\<close> one more than the index of the lowest set bit.
\<close>

theorem pow_ceil_find:
  assumes "is_itype T" "in_type T t" "in_type T (t ^ e)" "in_type T d" "0 < d" "0 \<le> t \<Longrightarrow> in_type T (t + (d - 1))" "t \<noteq> 0"
  shows "constexpr_pow T t e = Inr (t ^ e) \<and>
    (\<exists>m. constexpr_ceil T t d = Inr m \<and> t \<le> m \<and> m < t + d \<and> d dvd m) \<and>
    (\<exists>i. constexpr_find_first_set T t = Suc i \<and> bit t i \<and> (\<forall>j<i. \<not> bit t j))"
  using pow_ok [OF assms(1-3)] ceil_ok [OF assms(1,2,4-6) refl] find_first_set_ok [OF assms(1,2,7)] by blast

theorem pow_ceil_find_witness:
  "constexpr_pow int_type (-3) 5 = Inr (-243) \<and> constexpr_ceil int_type (-3) 2 = Inr (-2)"
proof -
  have T: "is_itype int_type" "in_type int_type (-3)" "in_type int_type ((-3) ^ 5)" "in_type int_type 2"
    by (simp_all add: is_itype_def int_type_def in_type_def it_min_def it_max_def)
  from pow_ceil_find [OF T] obtain m where m: "constexpr_pow int_type (-3) 5 = Inr ((-3) ^ 5)"
    "constexpr_ceil int_type (-3) 2 = Inr m" "- 3 \<le> m" "m < - 3 + 2" "2 dvd m" by auto
  then have "m = -3 \<or> m = -2" by linarith
  then have "m = -2" using m(5) by auto
  then show ?thesis using m(1,2) by simp
qed

end
