(* ===== verification/Folly_Conv.thy ===== *)
theory Folly_Conv
  imports Folly_Math
begin

text \<open>
  Conversions between integers and text, \<open>folly/Conv.h\<close> and \<open>folly/Conv.cpp\<close>, with the comparisons of
  \<open>folly/Traits.h\<close> they use.

  A string is the list of its bytes and a pointer into it an index; \<open>char\<close> is signed, so a byte from
  128 on is a negative number, for which \<open>std::isspace\<close> and \<open>std::isdigit\<close> are undefined and which
  becomes a huge index when it is converted to \<open>size_t\<close>. Integer types and the operators on them are
  those of \<open>Folly_Math\<close>. \<open>Expected\<close> is a sum of a \<open>ConversionCode\<close> and a value, inside the result
  type that also shows undefined behaviour.
\<close>

section \<open>Characters and codes\<close>

definition ascii :: "string \<Rightarrow> u8 list" where
  "ascii s = map of_char s"

datatype ConversionCode =
    SUCCESS
  | EMPTY_INPUT_STRING
  | NO_DIGITS
  | BOOL_OVERFLOW
  | BOOL_INVALID_VALUE
  | NON_DIGIT_CHAR
  | INVALID_LEADING_CHAR
  | POSITIVE_OVERFLOW
  | NEGATIVE_OVERFLOW
  | STRING_TO_FLOAT_ERROR
  | NON_WHITESPACE_AFTER_END
  | ARITH_POSITIVE_OVERFLOW
  | ARITH_NEGATIVE_OVERFLOW
  | ARITH_LOSS_OF_PRECISION

type_synonym 'a expected = "ConversionCode + 'a"

definition digit_char :: "u8 \<Rightarrow> bool" where
  "digit_char c \<longleftrightarrow> 0x30 \<le> c \<and> c \<le> 0x39"

definition space_char :: "u8 \<Rightarrow> bool" where
  "space_char c \<longleftrightarrow> c = 0x20 \<or> (9 \<le> c \<and> c \<le> 13)"

text \<open>The functions of \<open><cctype>\<close>: -1 is \<open>EOF\<close>, other negative arguments are undefined.\<close>

definition std_isdigit :: "u8 \<Rightarrow> bool result" where
  "std_isdigit c = (if sint c < -1 then Inl Undefined_Behaviour else Inr (digit_char c))"

definition std_isspace :: "u8 \<Rightarrow> bool result" where
  "std_isspace c = (if sint c < -1 then Inl Undefined_Behaviour else Inr (space_char c))"

text \<open>\<open>static_cast<size_t>(c)\<close>.\<close>

definition size_of_char :: "u8 \<Rightarrow> nat" where
  "size_of_char c = unat (scast c :: u64)"

section \<open>Digits to integers\<close>

function findFirstNonDigit :: "u8 list \<Rightarrow> nat \<Rightarrow> nat \<Rightarrow> nat result" where
  "findFirstNonDigit s b e =
     (if b < e then andthen (rd s b) (\<lambda>x.
        if (scast x :: u32) - 0x30 \<ge> 10 then Inr b else findFirstNonDigit s (b + 1) e)
      else Inr b)"
  by auto

termination by (relation "measure (\<lambda>(s, b, e). e - b)") auto

declare findFirstNonDigit.simps [simp del]

definition unsigned_of :: "itype \<Rightarrow> itype" where
  "unsigned_of t = t\<lparr>it_signed := False\<rparr>"

text \<open>\<open>numeric_limits<UT>::digits10\<close>.\<close>

definition limits_digits10 :: "itype \<Rightarrow> nat" where
  "limits_digits10 U = (if it_bits U = 8 then 2 else if it_bits U = 16 then 4 else if it_bits U = 32 then 9 else 19)"

definition MaxString :: "itype \<Rightarrow> u8 list" where
  "MaxString U =
     (if it_bits U = 8 then ascii ''255''
      else if it_bits U = 16 then ascii ''65535''
      else if it_bits U = 32 then ascii ''4294967295''
      else ascii ''18446744073709551615'')"

definition OOR :: int where "OOR = 10000"

definition shift1 :: "int list" where
  "shift1 = replicate 48 OOR @ [0, 1, 2, 3, 4, 5, 6, 7, 8, 9] @ replicate 198 OOR"

definition shift10 :: "int list" where
  "shift10 = replicate 48 OOR @ [0, 10, 20, 30, 40, 50, 60, 70, 80, 90] @ replicate 198 OOR"

definition shift100 :: "int list" where
  "shift100 = replicate 48 OOR @ [0, 100, 200, 300, 400, 500, 600, 700, 800, 900] @ replicate 198 OOR"

definition shift1000 :: "int list" where
  "shift1000 = replicate 48 OOR @ [0, 1000, 2000, 3000, 4000, 5000, 6000, 7000, 8000, 9000] @ replicate 198 OOR"

text \<open>
  \<open>SignedValueHandler\<close>; its state is whether the number is negative. \<open>init\<close> also returns the position
  it has moved to.
\<close>

definition sgn_init :: "itype \<Rightarrow> u8 list \<Rightarrow> nat \<Rightarrow> (ConversionCode \<times> bool \<times> nat) result" where
  "sgn_init T s b =
     (if it_signed T
      then andthen (rd s b) (\<lambda>c. andthen (std_isdigit c) (\<lambda>d.
        if \<not> d
        then if c = 0x2D then Inr (SUCCESS, True, b + 1)
             else if c \<noteq> 0x2B then Inr (INVALID_LEADING_CHAR, False, b)
             else Inr (SUCCESS, False, b + 1)
        else Inr (SUCCESS, False, b)))
      else Inr (SUCCESS, False, b))"

definition sgn_overflow :: "itype \<Rightarrow> bool \<Rightarrow> ConversionCode" where
  "sgn_overflow T negative =
     (if it_signed T \<and> negative then NEGATIVE_OVERFLOW else POSITIVE_OVERFLOW)"

definition sgn_finalize :: "itype \<Rightarrow> itype \<Rightarrow> bool \<Rightarrow> int \<Rightarrow> int expected result" where
  "sgn_finalize T U negative v =
     (if it_signed T
      then if negative
        then andthen (neg_op U v) (\<lambda>x. let rv = conv T x in
          Inr (if rv > 0 then Inl NEGATIVE_OVERFLOW else Inr rv))
        else let rv = conv T v in Inr (if rv < 0 then Inl POSITIVE_OVERFLOW else Inr rv)
      else Inr (Inr v))"

fun strncmp :: "u8 list \<Rightarrow> nat \<Rightarrow> u8 list \<Rightarrow> nat \<Rightarrow> nat \<Rightarrow> int result" where
  "strncmp s b v i 0 = Inr 0"
| "strncmp s b v i (Suc n) =
     andthen (rd s b) (\<lambda>x. andthen (rd v i) (\<lambda>y.
       if x \<noteq> y then Inr (if x < y then -1 else 1)
       else if x = 0 then Inr 0
       else strncmp s (b + 1) v (i + 1) n))"

text \<open>Skipping leading zeros: \<open>None\<close> if nothing else is left.\<close>

function skip_zeros :: "u8 list \<Rightarrow> nat \<Rightarrow> nat \<Rightarrow> nat option result" where
  "skip_zeros s b e =
     (if b < e then andthen (rd s b) (\<lambda>c. if c \<noteq> 0x30 then Inr (Some b) else skip_zeros s (b + 1) e)
      else Inr None)"
  by auto

termination by (relation "measure (\<lambda>(s, b, e). e - b)") auto

declare skip_zeros.simps [simp del]

definition shift_at :: "int list \<Rightarrow> u8 list \<Rightarrow> nat \<Rightarrow> int result" where
  "shift_at t s i = andthen (rd s i) (\<lambda>c. rd t (size_of_char c))"

text \<open>The loop over groups of four digits; \<open>None\<close> is the jump to \<open>outOfRange\<close>.\<close>

function digits_loop :: "itype \<Rightarrow> u8 list \<Rightarrow> nat \<Rightarrow> nat \<Rightarrow> int \<Rightarrow> (int \<times> nat) option result" where
  "digits_loop U s b e result =
     (if 4 \<le> e - b
      then andthen (mul_op U result (conv U 10000)) (\<lambda>m.
           andthen (shift_at shift1000 s b) (\<lambda>r0.
           andthen (shift_at shift100 s (b + 1)) (\<lambda>r1.
           andthen (shift_at shift10 s (b + 2)) (\<lambda>r2.
           andthen (shift_at shift1 s (b + 3)) (\<lambda>r3.
             if r0 + r1 + r2 + r3 \<ge> OOR then Inr None
             else andthen (add_op U (conv U m) (conv U (r0 + r1 + r2 + r3))) (\<lambda>x.
               digits_loop U s (b + 4) e (conv U x)))))))
      else Inr (Some (result, b)))"
  by auto

termination by (relation "measure (\<lambda>(U, s, b, e, r). e - b)") auto

declare digits_loop.simps [simp del]

text \<open>The rest of at most three digits; \<open>UT(k * result + sum)\<close> is computed in the promoted type.\<close>

definition digits_tail_add :: "itype \<Rightarrow> int \<Rightarrow> int \<Rightarrow> int \<Rightarrow> int option result" where
  "digits_tail_add U k result sm =
     (if sm \<ge> OOR then Inr None
      else andthen (mul_op U k result) (\<lambda>m. andthen (add_op U m sm) (\<lambda>x. Inr (Some (conv U x)))))"

definition digits_tail :: "itype \<Rightarrow> u8 list \<Rightarrow> nat \<Rightarrow> nat \<Rightarrow> int \<Rightarrow> int option result" where
  "digits_tail U s b e result =
     (if e - b = 3
      then andthen (shift_at shift100 s b) (\<lambda>r0.
           andthen (shift_at shift10 s (b + 1)) (\<lambda>r1.
           andthen (shift_at shift1 s (b + 2)) (\<lambda>r2.
             digits_tail_add U 1000 result (r0 + r1 + r2))))
      else if e - b = 2
      then andthen (shift_at shift10 s b) (\<lambda>r0.
           andthen (shift_at shift1 s (b + 1)) (\<lambda>r1. digits_tail_add U 100 result (r0 + r1)))
      else if e - b = 1
      then andthen (shift_at shift1 s b) (\<lambda>r0. digits_tail_add U 10 result r0)
      else Inr (Some result))"

definition digits_parse :: "itype \<Rightarrow> itype \<Rightarrow> bool \<Rightarrow> u8 list \<Rightarrow> nat \<Rightarrow> nat \<Rightarrow> nat \<Rightarrow> int expected result" where
  "digits_parse T U negative s b e sz =
     andthen (digits_loop U s b e 0) (\<lambda>r. case r of
       None \<Rightarrow> Inr (Inl NON_DIGIT_CHAR)
     | Some (result, b') \<Rightarrow>
         if b' = e \<and> sz = 0 then Inr (Inl NO_DIGITS)
         else andthen (digits_tail U s b' e result) (\<lambda>r'. case r' of
           None \<Rightarrow> Inr (Inl NON_DIGIT_CHAR)
         | Some result' \<Rightarrow> sgn_finalize T U negative result'))"

text \<open>The overflow check of a number with more than \<open>digits10\<close> digits.\<close>

definition digits_check :: "itype \<Rightarrow> u8 list \<Rightarrow> nat \<Rightarrow> nat \<Rightarrow> bool result" where
  "digits_check U s b sz =
     (if sz > limits_digits10 U
      then if sz \<noteq> limits_digits10 U + 1 then Inr True
           else andthen (strncmp s b (MaxString U @ [0]) 0 sz) (\<lambda>r. Inr (r > 0))
      else Inr False)"

text \<open>\<open>size_t(e - b)\<close>, which wraps around if a sign has been skipped in an empty range.\<close>

definition ptr_size :: "nat \<Rightarrow> nat \<Rightarrow> nat" where
  "ptr_size b e = (if b \<le> e then e - b else 2 ^ 64 - (b - e))"

definition digits_to :: "itype \<Rightarrow> u8 list \<Rightarrow> nat \<Rightarrow> nat \<Rightarrow> int expected result" where
  "digits_to T s b0 e =
     (let U = unsigned_of T in
      andthen (sgn_init T s b0) (\<lambda>(err, negative, b).
      if err \<noteq> SUCCESS then Inr (Inl err)
      else let sz = ptr_size b e in
        if sz > limits_digits10 U
        then andthen (if b < e then andthen (rd s b) (\<lambda>c. Inr (c = 0x30)) else Inr False) (\<lambda>zero.
          andthen (if zero then skip_zeros s (b + 1) e else Inr (Some b)) (\<lambda>z. case z of
            None \<Rightarrow> Inr (Inr 0)
          | Some b' \<Rightarrow>
              let sz' = (if zero then ptr_size b' e else sz) in
              andthen (digits_check U s b' sz') (\<lambda>over.
                if over then Inr (Inl (sgn_overflow T negative))
                else digits_parse T U negative s b' e sz')))
        else digits_parse T U negative s b e sz))"

text \<open>The index of the first character that is not white space, if there is one.\<close>

function skip_spaces :: "u8 list \<Rightarrow> nat \<Rightarrow> nat option result" where
  "skip_spaces s b =
     (if b \<ge> length s then Inr None
      else andthen (rd s b) (\<lambda>c. andthen (std_isspace c) (\<lambda>x.
        if \<not> x then Inr (Some b) else skip_spaces s (b + 1))))"
  by auto

termination by (relation "measure (\<lambda>(s, b). length s - b)") auto

declare skip_spaces.simps [simp del]

text \<open>\<open>str_to_integral\<close> returns the expected value and what is left of the piece it was given.\<close>

definition str_to_integral :: "itype \<Rightarrow> u8 list \<Rightarrow> (int expected \<times> u8 list) result" where
  "str_to_integral T s =
     andthen (skip_spaces s 0) (\<lambda>z. case z of
       None \<Rightarrow> Inr (Inl EMPTY_INPUT_STRING, s)
     | Some b0 \<Rightarrow>
         andthen (sgn_init T s b0) (\<lambda>(err, negative, b).
         if err \<noteq> SUCCESS then Inr (Inl err, s)
         else if it_signed T \<and> b \<ge> length s then Inr (Inl NO_DIGITS, s)
         else andthen (rd s b) (\<lambda>c. andthen (std_isdigit c) (\<lambda>d.
           if \<not> d then Inr (Inl NON_DIGIT_CHAR, s)
           else andthen (findFirstNonDigit s (b + 1) (length s)) (\<lambda>m.
                andthen (digits_to (unsigned_of T) s b m) (\<lambda>tmp. case tmp of
                  Inl err \<Rightarrow> Inr (Inl (if err = POSITIVE_OVERFLOW then sgn_overflow T negative else err), s)
                | Inr v \<Rightarrow> andthen (sgn_finalize T (unsigned_of T) negative v) (\<lambda>res. case res of
                    Inl err \<Rightarrow> Inr (Inl err, s)
                  | Inr x \<Rightarrow> Inr (Inr x, drop m s))))))))"

section \<open>Text to Booleans\<close>

definition tolower_ascii :: "u8 \<Rightarrow> u8" where
  "tolower_ascii c = c OR 0x20"

text \<open>The position behind \<open>value\<close> if the piece starts with it.\<close>

fun bool_str_cmp :: "u8 list \<Rightarrow> nat \<Rightarrow> u8 list \<Rightarrow> nat option result" where
  "bool_str_cmp s p [] = Inr (Some p)"
| "bool_str_cmp s p (v # vs) =
     (if p = length s then Inr None
      else andthen (rd s p) (\<lambda>c. if tolower_ascii c \<noteq> v then Inr None else bool_str_cmp s (p + 1) vs))"

function bool_digits :: "u8 list \<Rightarrow> nat \<Rightarrow> bool \<Rightarrow> (bool \<times> nat) option result" where
  "bool_digits s b result =
     (if b < length s
      then andthen (rd s b) (\<lambda>c. andthen (std_isdigit c) (\<lambda>d.
        if \<not> d then Inr (Some (result, b))
        else if result \<or> (c \<noteq> 0x30 \<and> c \<noteq> 0x31) then Inr None
        else bool_digits s (b + 1) (c = 0x31)))
      else Inr (Some (result, b)))"
  by auto

termination by (relation "measure (\<lambda>(s, b, r). length s - b)") auto

declare bool_digits.simps [simp del]

definition bool_word :: "u8 list \<Rightarrow> nat \<Rightarrow> u8 list \<Rightarrow> nat result" where
  "bool_word s b v = andthen (bool_str_cmp s b v) (\<lambda>r. case r of Some p \<Rightarrow> Inr p | None \<Rightarrow> Inr (b + 1))"

definition str_to_bool :: "u8 list \<Rightarrow> (bool expected \<times> u8 list) result" where
  "str_to_bool s =
     andthen (skip_spaces s 0) (\<lambda>z. case z of
       None \<Rightarrow> Inr (Inl EMPTY_INPUT_STRING, s)
     | Some b \<Rightarrow> andthen (rd s b) (\<lambda>c.
         if c = 0x30 \<or> c = 0x31
         then andthen (bool_digits s b False) (\<lambda>r. case r of
                None \<Rightarrow> Inr (Inl BOOL_OVERFLOW, s)
              | Some (result, b') \<Rightarrow> Inr (Inr result, drop b' s))
         else if c = 0x79 \<or> c = 0x59
         then andthen (bool_word s b (ascii ''yes'')) (\<lambda>b'. Inr (Inr True, drop b' s))
         else if c = 0x6E \<or> c = 0x4E
         then andthen (bool_word s b (ascii ''no'')) (\<lambda>b'. Inr (Inr False, drop b' s))
         else if c = 0x74 \<or> c = 0x54
         then andthen (bool_word s b (ascii ''true'')) (\<lambda>b'. Inr (Inr True, drop b' s))
         else if c = 0x66 \<or> c = 0x46
         then andthen (bool_word s b (ascii ''false'')) (\<lambda>b'. Inr (Inr False, drop b' s))
         else if c = 0x6F \<or> c = 0x4F
         then andthen (bool_str_cmp s b (ascii ''on'')) (\<lambda>r. case r of
                Some b' \<Rightarrow> Inr (Inr True, drop b' s)
              | None \<Rightarrow> andthen (bool_str_cmp s b (ascii ''off'')) (\<lambda>r'. case r' of
                  Some b' \<Rightarrow> Inr (Inr False, drop b' s)
                | None \<Rightarrow> Inr (Inl BOOL_INVALID_VALUE, s)))
         else Inr (Inl BOOL_INVALID_VALUE, s)))"

section \<open>Error messages\<close>

record ConversionError =
  ce_what :: "u8 list"
  ce_code :: ConversionCode

definition ErrorString :: "ConversionCode \<Rightarrow> u8 list \<times> bool" where
  "ErrorString code = (case code of
       SUCCESS \<Rightarrow> (ascii ''Success'', True)
     | EMPTY_INPUT_STRING \<Rightarrow> (ascii ''Empty input string'', True)
     | NO_DIGITS \<Rightarrow> (ascii ''No digits found in input string'', True)
     | BOOL_OVERFLOW \<Rightarrow> (ascii ''Integer overflow when parsing bool (must be 0 or 1)'', True)
     | BOOL_INVALID_VALUE \<Rightarrow> (ascii ''Invalid value for bool'', True)
     | NON_DIGIT_CHAR \<Rightarrow> (ascii ''Non-digit character found'', True)
     | INVALID_LEADING_CHAR \<Rightarrow> (ascii ''Invalid leading character'', True)
     | POSITIVE_OVERFLOW \<Rightarrow> (ascii ''Overflow during conversion'', True)
     | NEGATIVE_OVERFLOW \<Rightarrow> (ascii ''Negative overflow during conversion'', True)
     | STRING_TO_FLOAT_ERROR \<Rightarrow> (ascii ''Unable to convert string to floating point value'', True)
     | NON_WHITESPACE_AFTER_END \<Rightarrow> (ascii ''Non-whitespace character found after end of conversion'', True)
     | ARITH_POSITIVE_OVERFLOW \<Rightarrow> (ascii ''Overflow during arithmetic conversion'', False)
     | ARITH_NEGATIVE_OVERFLOW \<Rightarrow> (ascii ''Negative overflow during arithmetic conversion'', False)
     | ARITH_LOSS_OF_PRECISION \<Rightarrow> (ascii ''Loss of precision during arithmetic conversion'', False))"

definition makeConversionError :: "ConversionCode \<Rightarrow> u8 list \<Rightarrow> ConversionError" where
  "makeConversionError code input =
     (let (str, quote) = ErrorString code in
      if code = EMPTY_INPUT_STRING \<and> input = [] then \<lparr>ce_what = str, ce_code = code\<rparr>
      else \<lparr>ce_what = str @ ascii '': '' @ (if quote then [0x22] else []) @ input @ (if quote then [0x22] else []),
            ce_code = code\<rparr>)"

section \<open>The conversions of strings\<close>

fun enforceWhitespaceErr :: "u8 list \<Rightarrow> ConversionCode result" where
  "enforceWhitespaceErr [] = Inr SUCCESS"
| "enforceWhitespaceErr (c # cs) = andthen (std_isspace c) (\<lambda>x.
     if \<not> x then Inr NON_WHITESPACE_AFTER_END else enforceWhitespaceErr cs)"

definition CheckTrailingSpace :: "u8 list \<Rightarrow> unit expected result" where
  "CheckTrailingSpace sp = andthen (enforceWhitespaceErr sp) (\<lambda>e.
     Inr (if e \<noteq> SUCCESS then Inl e else Inr ()))"

text \<open>\<open>convert\<close> is the \<open>convertTo\<close> of the target type: \<open>str_to_integral\<close> or \<open>str_to_bool\<close>.\<close>

definition parseTo :: "(u8 list \<Rightarrow> ('a expected \<times> u8 list) result) \<Rightarrow> u8 list \<Rightarrow> ('a \<times> u8 list) expected result" where
  "parseTo convert src = andthen (convert src) (\<lambda>(res, rest). case res of
     Inl e \<Rightarrow> Inr (Inl e) | Inr v \<Rightarrow> Inr (Inr (v, rest)))"

definition tryTo :: "(u8 list \<Rightarrow> ('a expected \<times> u8 list) result) \<Rightarrow> u8 list \<Rightarrow> 'a expected result" where
  "tryTo convert src = andthen (parseTo convert src) (\<lambda>tmp. case tmp of
     Inl e \<Rightarrow> Inr (Inl e)
   | Inr (v, rest) \<Rightarrow> andthen (CheckTrailingSpace rest) (\<lambda>c. case c of Inl e \<Rightarrow> Inr (Inl e) | Inr _ \<Rightarrow> Inr (Inr v)))"

definition conv_to :: "(u8 list \<Rightarrow> ('a expected \<times> u8 list) result) \<Rightarrow> u8 list \<Rightarrow> (ConversionError + 'a) result" where
  "conv_to convert src = andthen (parseTo convert src) (\<lambda>tmp. case tmp of
     Inl e \<Rightarrow> Inr (Inl (makeConversionError e src))
   | Inr (v, rest) \<Rightarrow> andthen (CheckTrailingSpace rest) (\<lambda>c. case c of
       Inl e \<Rightarrow> Inr (Inl (makeConversionError e rest)) | Inr _ \<Rightarrow> Inr (Inr v)))"

text \<open>The versions for a pointer to a piece, which they advance past what they have used.\<close>

definition tryTo_ptr :: "(u8 list \<Rightarrow> ('a expected \<times> u8 list) result) \<Rightarrow> u8 list \<Rightarrow> ('a expected \<times> u8 list) result" where
  "tryTo_ptr convert src = andthen (parseTo convert src) (\<lambda>tmp. case tmp of
     Inl e \<Rightarrow> Inr (Inl e, src) | Inr (v, sp) \<Rightarrow> Inr (Inr v, sp))"

definition conv_to_ptr :: "(u8 list \<Rightarrow> ('a expected \<times> u8 list) result) \<Rightarrow> u8 list \<Rightarrow> ((ConversionError + 'a) \<times> u8 list) result" where
  "conv_to_ptr convert src = andthen (parseTo convert src) (\<lambda>tmp. case tmp of
     Inl e \<Rightarrow> Inr (Inl (makeConversionError e src), src) | Inr (v, sp) \<Rightarrow> Inr (Inr v, sp))"

text \<open>The version for a pair of pointers, without white space.\<close>

definition conv_to_range :: "itype \<Rightarrow> u8 list \<Rightarrow> nat \<Rightarrow> nat \<Rightarrow> (ConversionError + int) result" where
  "conv_to_range T s b e = andthen (digits_to T s b e) (\<lambda>tmp. case tmp of
     Inl code \<Rightarrow> Inr (Inl (makeConversionError code (take (e - b) (drop b s)))) | Inr v \<Rightarrow> Inr (Inr v))"

section \<open>Integers to digits\<close>

definition powersOf10 :: "u64 list" where
  "powersOf10 = [1, 10, 100, 1000, 10000, 100000, 1000000, 10000000, 100000000, 1000000000,
     10000000000, 100000000000, 1000000000000, 10000000000000, 100000000000000,
     1000000000000000, 10000000000000000, 100000000000000000, 1000000000000000000,
     10000000000000000000]"

text \<open>The branch for x86-64 estimates the logarithm; \<open>77 / 256\<close> is close to \<open>log 10 2\<close>.\<close>

definition digits10_x86 :: "u64 \<Rightarrow> u32 result" where
  "digits10_x86 v =
     (if v = 0 then Inr 1
      else let leadingZeroes = (of_nat (builtin_clz v) :: u32);
               bits = 63 - leadingZeroes;
               minLength = 1 + drop_bit 8 (bits * 77)
           in andthen (rd powersOf10 (unat minLength)) (\<lambda>p. Inr (minLength + (if v \<ge> p then 1 else 0))))"

function digits10_loop :: "u64 \<Rightarrow> u32 \<Rightarrow> u32" where
  "digits10_loop v result =
     (if v < 10 then result
      else if v < 100 then result + 1
      else if v < 1000 then result + 2
      else if v < 10000 then result + 3
      else digits10_loop (v div 10000) (result + 4))"
  by auto

termination
  by (relation "measure (\<lambda>(v, r). unat v)")
    (auto simp: unat_div word_less_nat_alt not_less word_le_nat_alt intro!: div_less_dividend)

declare digits10_loop.simps [simp del]

definition digits10 :: "bool \<Rightarrow> u64 \<Rightarrow> u32 result" where
  "digits10 x86_64 v = (if x86_64 then digits10_x86 v else Inr (digits10_loop v 1))"

text \<open>A buffer on the stack is not initialised: its elements are \<open>None\<close> until they are written.\<close>

function buffer_loop :: "u64 \<Rightarrow> u8 option list \<Rightarrow> u32 \<Rightarrow> (u64 \<times> u8 option list \<times> u32) result" where
  "buffer_loop v buffer pos =
     (if v \<ge> 10
      then andthen (wr buffer (unat pos) (Some (0x30 + ucast (v mod 10)))) (\<lambda>buffer'.
             buffer_loop (v div 10) buffer' (pos - 1))
      else Inr (v, buffer, pos))"
  by auto

termination
  by (relation "measure (\<lambda>(v, b, p). unat v)")
    (auto simp: unat_div word_less_nat_alt not_less word_le_nat_alt intro!: div_less_dividend)

declare buffer_loop.simps [simp del]

definition uint64ToBufferUnsafe :: "bool \<Rightarrow> u64 \<Rightarrow> u8 option list \<Rightarrow> (u32 \<times> u8 option list) result" where
  "uint64ToBufferUnsafe x86_64 v buffer =
     andthen (digits10 x86_64 v) (\<lambda>result.
     andthen (buffer_loop v buffer (result - 1)) (\<lambda>(v', buffer', pos).
     andthen (wr buffer' (unat pos) (Some (ucast v' + 0x30))) (\<lambda>buffer''. Inr (result, buffer''))))"

text \<open>\<open>result->append(buffer, n)\<close> reads the first \<open>n\<close> elements.\<close>

definition append_buffer :: "u8 list \<Rightarrow> u8 option list \<Rightarrow> nat \<Rightarrow> u8 list result" where
  "append_buffer result buffer n =
     andthen (traverse (\<lambda>i. andthen (rd buffer i) (\<lambda>x. case x of
         None \<Rightarrow> Inl Undefined_Behaviour | Some c \<Rightarrow> Inr c)) [0..<n])
       (\<lambda>cs. Inr (result @ cs))"

definition toAppend_unsigned :: "bool \<Rightarrow> u64 \<Rightarrow> u8 list \<Rightarrow> u8 list result" where
  "toAppend_unsigned x86_64 v result =
     andthen (uint64ToBufferUnsafe x86_64 v (replicate 20 None)) (\<lambda>(n, buffer).
       append_buffer result buffer (unat n))"

definition toAppend_signed :: "bool \<Rightarrow> int \<Rightarrow> u8 list \<Rightarrow> u8 list result" where
  "toAppend_signed x86_64 v result =
     (if v < 0
      then andthen (uint64ToBufferUnsafe x86_64 (NOT (word_of_int v) + 1) (replicate 20 None)) (\<lambda>(n, buffer).
             append_buffer (result @ [0x2D]) buffer (unat n))
      else andthen (uint64ToBufferUnsafe x86_64 (word_of_int v) (replicate 20 None)) (\<lambda>(n, buffer).
             append_buffer result buffer (unat n)))"

text \<open>A type of less than four bytes goes through the 64-bit type of its signedness.\<close>

definition toAppend_int :: "bool \<Rightarrow> itype \<Rightarrow> int \<Rightarrow> u8 list \<Rightarrow> u8 list result" where
  "toAppend_int x86_64 T v result =
     (if it_signed T then toAppend_signed x86_64 v result
      else toAppend_unsigned x86_64 (word_of_int v) result)"

definition estimateSpaceNeeded_int :: "bool \<Rightarrow> itype \<Rightarrow> int \<Rightarrow> nat result" where
  "estimateSpaceNeeded_int x86_64 T v =
     (if it_signed T
      then if v < 0
        then andthen (digits10 x86_64 (NOT (word_of_int v) + 1)) (\<lambda>n. Inr (1 + unat n))
        else andthen (digits10 x86_64 (word_of_int v)) (\<lambda>n. Inr (unat n))
      else andthen (digits10 x86_64 (word_of_int v)) (\<lambda>n. Inr (unat n)))"

section \<open>Appending and joining values\<close>

text \<open>
  The arguments of the variadic functions: a character, a string literal (the array with its
  terminator), a pointer to a terminated string or null, a string or piece, an integer.
\<close>

datatype conv_arg =
    Arg_Char u8
  | Arg_Literal "u8 list"
  | Arg_CStr "u8 list option"
  | Arg_Str "u8 list"
  | Arg_Int itype int

definition c_chars :: "u8 list \<Rightarrow> u8 list" where
  "c_chars a = takeWhile (\<lambda>c. c \<noteq> 0) a"

fun toAppend :: "bool \<Rightarrow> conv_arg \<Rightarrow> u8 list \<Rightarrow> u8 list result" where
  "toAppend x86_64 (Arg_Char c) result = Inr (result @ [c])"
| "toAppend x86_64 (Arg_Literal a) result = Inr (result @ c_chars a)"
| "toAppend x86_64 (Arg_CStr p) result = Inr (case p of None \<Rightarrow> result | Some a \<Rightarrow> result @ c_chars a)"
| "toAppend x86_64 (Arg_Str a) result = Inr (result @ a)"
| "toAppend x86_64 (Arg_Int T v) result = toAppend_int x86_64 T v result"

fun estimateSpaceNeeded :: "bool \<Rightarrow> conv_arg \<Rightarrow> nat result" where
  "estimateSpaceNeeded x86_64 (Arg_Char c) = Inr 1"
| "estimateSpaceNeeded x86_64 (Arg_Literal a) = Inr (length a)"
| "estimateSpaceNeeded x86_64 (Arg_CStr p) = Inr (case p of None \<Rightarrow> 0 | Some a \<Rightarrow> length (c_chars a))"
| "estimateSpaceNeeded x86_64 (Arg_Str a) = Inr (length a)"
| "estimateSpaceNeeded x86_64 (Arg_Int T v) = estimateSpaceNeeded_int x86_64 T v"

fun estimateSpaceToReserve :: "bool \<Rightarrow> nat \<Rightarrow> conv_arg list \<Rightarrow> nat result" where
  "estimateSpaceToReserve x86_64 sofar [] = Inr sofar"
| "estimateSpaceToReserve x86_64 sofar (v # vs) =
     andthen (estimateSpaceNeeded x86_64 v) (\<lambda>n. estimateSpaceToReserve x86_64 (sofar + n) vs)"

fun toAppendStrImpl :: "bool \<Rightarrow> conv_arg list \<Rightarrow> u8 list \<Rightarrow> u8 list result" where
  "toAppendStrImpl x86_64 [] result = Inr result"
| "toAppendStrImpl x86_64 (v # vs) result =
     andthen (toAppend x86_64 v result) (\<lambda>result'. toAppendStrImpl x86_64 vs result')"

fun toAppendDelimStrImpl :: "bool \<Rightarrow> conv_arg \<Rightarrow> conv_arg list \<Rightarrow> u8 list \<Rightarrow> u8 list result" where
  "toAppendDelimStrImpl x86_64 delim [] result = Inr result"
| "toAppendDelimStrImpl x86_64 delim [v] result = toAppend x86_64 v result"
| "toAppendDelimStrImpl x86_64 delim (v # w # vs) result =
     andthen (toAppend x86_64 v result) (\<lambda>result'.
     andthen (toAppend x86_64 delim result') (\<lambda>result''.
       toAppendDelimStrImpl x86_64 delim (w # vs) result''))"

text \<open>The capacity that is reserved and the string that results.\<close>

definition toAppendFit :: "bool \<Rightarrow> conv_arg list \<Rightarrow> u8 list \<Rightarrow> (nat \<times> u8 list) result" where
  "toAppendFit x86_64 vs result =
     andthen (estimateSpaceToReserve x86_64 0 vs) (\<lambda>n.
     andthen (toAppendStrImpl x86_64 vs result) (\<lambda>r. Inr (n, r)))"

definition toAppendDelimFit :: "bool \<Rightarrow> conv_arg \<Rightarrow> conv_arg list \<Rightarrow> u8 list \<Rightarrow> (nat \<times> u8 list) result" where
  "toAppendDelimFit x86_64 delim vs result =
     andthen (estimateSpaceToReserve x86_64 0 [delim]) (\<lambda>d.
     andthen (estimateSpaceToReserve x86_64 ((length vs - 1) * d) vs) (\<lambda>n.
     andthen (toAppendDelimStrImpl x86_64 delim vs result) (\<lambda>r. Inr (n, r))))"

definition to_text :: "bool \<Rightarrow> conv_arg list \<Rightarrow> u8 list result" where
  "to_text x86_64 vs = andthen (toAppendFit x86_64 vs []) (\<lambda>(n, r). Inr r)"

definition toDelim :: "bool \<Rightarrow> conv_arg \<Rightarrow> conv_arg list \<Rightarrow> u8 list result" where
  "toDelim x86_64 delim vs = andthen (toAppendDelimFit x86_64 delim vs []) (\<lambda>(n, r). Inr r)"

section \<open>Integers to integers\<close>

text \<open>The usual arithmetic conversions, and a comparison after them.\<close>

definition common_type :: "itype \<Rightarrow> itype \<Rightarrow> itype" where
  "common_type A B =
     (let A' = promoted A; B' = promoted B in
      if it_bits A' < it_bits B' then B'
      else if it_bits B' < it_bits A' then A'
      else if it_signed A' then B' else A')"

definition less_op :: "itype \<Rightarrow> int \<Rightarrow> itype \<Rightarrow> int \<Rightarrow> bool" where
  "less_op A a B b = (let C = common_type A B in conv C a < conv C b)"

definition less_than_impl :: "itype \<Rightarrow> int \<Rightarrow> itype \<Rightarrow> int \<Rightarrow> bool" where
  "less_than_impl RHS rhs LHS lhs =
     (if less_op LHS (it_max LHS) RHS rhs then True
      else if \<not> less_op LHS (it_min LHS) RHS rhs then False
      else less_op LHS lhs RHS rhs)"

definition greater_than_impl :: "itype \<Rightarrow> int \<Rightarrow> itype \<Rightarrow> int \<Rightarrow> bool" where
  "greater_than_impl RHS rhs LHS lhs =
     (if less_op LHS (it_max LHS) RHS rhs then False
      else if less_op RHS rhs LHS (it_min LHS) then True
      else less_op RHS rhs LHS lhs)"

definition convertTo_integral :: "itype \<Rightarrow> itype \<Rightarrow> int \<Rightarrow> int expected" where
  "convertTo_integral Tgt Src v =
     (if less_op (unsigned_of Tgt) (conv (unsigned_of Tgt) (it_max Tgt)) (unsigned_of Src) (conv (unsigned_of Src) (it_max Src))
         \<and> greater_than_impl Tgt (it_max Tgt) Src v
      then Inl ARITH_POSITIVE_OVERFLOW
      else if (it_signed Src \<and> (\<not> it_signed Tgt \<or> it_bits Src > it_bits Tgt))
         \<and> less_than_impl Tgt (it_min Tgt) Src v
      then Inl ARITH_NEGATIVE_OVERFLOW
      else Inr (conv Tgt v))"

definition convertTo_of_bool :: "bool \<Rightarrow> int expected" where
  "convertTo_of_bool v = Inr (if v then 1 else 0)"

definition to_bool :: "int \<Rightarrow> bool" where
  "to_bool v \<longleftrightarrow> v \<noteq> 0"

text \<open>\<open>to\<close>; \<open>pretty_name\<close> is the compiler's name of the target type.\<close>

definition errorValue :: "bool \<Rightarrow> u8 list \<Rightarrow> itype \<Rightarrow> int \<Rightarrow> u8 list result" where
  "errorValue x86_64 pretty_name Src v =
     to_text x86_64 [Arg_Literal (ascii ''('' @ [0]), Arg_CStr (Some (pretty_name @ [0])), Arg_Literal (ascii '') '' @ [0]), Arg_Int Src v]"

definition to_arith :: "bool \<Rightarrow> u8 list \<Rightarrow> itype \<Rightarrow> itype \<Rightarrow> int \<Rightarrow> (ConversionError + int) result" where
  "to_arith x86_64 pretty_name Tgt Src v =
     (case convertTo_integral Tgt Src v of
        Inr x \<Rightarrow> Inr (Inr x)
      | Inl e \<Rightarrow> andthen (errorValue x86_64 pretty_name Src v) (\<lambda>t. Inr (Inl (makeConversionError e t))))"

end
