(* ===== verification/Folly_Conv_Print.thy ===== *)
theory Folly_Conv_Print
  imports Folly_Conv
begin

text \<open>Integers to text: the number of digits, the buffer, and the space that is reserved.\<close>

section \<open>Decimal notation\<close>

definition digit_of :: "nat \<Rightarrow> u8" where
  "digit_of n = of_nat (48 + n)"

function decimal :: "nat \<Rightarrow> u8 list" where
  "decimal n = (if n < 10 then [digit_of n] else decimal (n div 10) @ [digit_of (n mod 10)])"
  by auto

termination by (relation "measure id") auto

declare decimal.simps [simp del]

definition dec_value :: "u8 list \<Rightarrow> nat" where
  "dec_value ds = foldl (\<lambda>a c. 10 * a + (unat c - 48)) 0 ds"

lemma dec_value_simps [simp]:
  "dec_value [] = 0" "dec_value (ds @ [c]) = 10 * dec_value ds + (unat c - 48)"
  by (simp_all add: dec_value_def)

lemma dec_value_append: "dec_value (xs @ ys) = dec_value xs * 10 ^ length ys + dec_value ys"
proof (induction ys rule: rev_induct)
  case (snoc y ys)
  have "dec_value (xs @ ys @ [y]) = 10 * dec_value (xs @ ys) + (unat y - 48)"
    using dec_value_simps(2) [of "xs @ ys" y] by simp
  then show ?case using snoc by (simp add: algebra_simps)
qed simp

lemma dec_value_Cons: "dec_value (c # ds) = (unat c - 48) * 10 ^ length ds + dec_value ds"
  using dec_value_append [of "[c]" ds] dec_value_simps(2) [of "[]" c] by simp

lemma digit_char_unat: "digit_char c \<longleftrightarrow> 48 \<le> unat c \<and> unat c \<le> 57"
  by (simp add: digit_char_def word_le_nat_alt)

lemma digit_of: "d < 10 \<Longrightarrow> unat (digit_of d) = 48 + d"
  unfolding digit_of_def by (rule unat_of_nat_u8) simp

lemma digit_of_digit: "d < 10 \<Longrightarrow> digit_char (digit_of d)"
  by (simp add: digit_char_unat digit_of)

lemma dec_value_less: "list_all digit_char ds \<Longrightarrow> dec_value ds < 10 ^ length ds"
proof (induction ds rule: rev_induct)
  case (snoc c ds)
  then have "dec_value ds < 10 ^ length ds" "unat c - 48 < 10" by (auto simp: digit_char_unat)
  then have "10 * dec_value ds + (unat c - 48) < 10 * 10 ^ length ds" by linarith
  then show ?case by simp
qed simp

lemma decimal_facts:
  "list_all digit_char (decimal n)" "decimal n \<noteq> []" "dec_value (decimal n) = n"
proof (induction n rule: decimal.induct)
  case (1 n)
  { case 1 show ?case using "1.IH"(1) by (subst decimal.simps) (simp add: digit_of_digit) }
  { case 2 show ?case by (subst decimal.simps) simp }
  { case 3
    have "dec_value [digit_of n] = n" if "n < 10"
      using that dec_value_simps(2) [of "[]" "digit_of n"] by (simp add: digit_of)
    then show ?case using "1.IH"(3) by (subst decimal.simps) (simp add: digit_of) }
qed

lemma decimal_length_le: "1 \<le> k \<Longrightarrow> length (decimal n) \<le> k \<longleftrightarrow> n < 10 ^ k"
proof (induction n arbitrary: k rule: decimal.induct)
  case (1 n)
  show ?case
  proof (cases "n < 10")
    case True
    moreover have "(10::nat) ^ 1 \<le> 10 ^ k" using "1.prems" by (intro power_increasing) auto
    ultimately show ?thesis using "1.prems" by (subst decimal.simps) simp
  next
    case False
    then have len: "length (decimal n) = Suc (length (decimal (n div 10)))" by (subst decimal.simps) simp
    obtain j where k: "k = Suc j" using "1.prems" by (cases k) auto
    show ?thesis
    proof (cases "j = 0")
      case True
      then show ?thesis using False len k decimal_facts(2) [of "n div 10"] by simp
    next
      case j: False
      then have "length (decimal (n div 10)) \<le> j \<longleftrightarrow> n div 10 < 10 ^ j" using "1.IH" [OF False] by simp
      also have "\<dots> \<longleftrightarrow> n < 10 ^ k" unfolding k by (simp add: div_less_iff_less_mult mult.commute)
      finally show ?thesis using len k by simp
    qed
  qed
qed

lemma decimal_length_pos: "1 \<le> length (decimal n)"
  using decimal_facts(2) [of n] by (cases "decimal n") auto

lemma decimal_length_eqI:
  assumes "n < 10 ^ k" "1 \<le> k" "k = 1 \<or> 10 ^ (k - 1) \<le> n"
  shows "length (decimal n) = k"
proof -
  have "length (decimal n) \<le> k" using decimal_length_le assms by blast
  moreover have "k \<le> length (decimal n)"
  proof (cases "k = 1")
    case False
    then have "\<not> length (decimal n) \<le> k - 1" using decimal_length_le [of "k - 1" n] assms by auto
    then show ?thesis by simp
  qed (use decimal_length_pos in simp)
  ultimately show ?thesis by simp
qed

lemma decimal_length_u64: "length (decimal (unat (v :: u64))) \<le> 20"
proof -
  have "unat v < 2 ^ 64" using unsigned_less [of v] by simp
  also have "(2::nat) ^ 64 \<le> 10 ^ 20" by simp
  finally show ?thesis using decimal_length_le [of 20 "unat v"] by simp
qed

section \<open>Counting the digits\<close>

text \<open>The estimate of the decimal logarithm from the binary one is at most one too small.\<close>

definition estimate_ok :: "nat \<Rightarrow> bool" where
  "estimate_ok b = (let m = 1 + b * 77 div 256 in m < 20 \<and> (m = 1 \<or> 10 ^ (m - 1) \<le> (2::int) ^ b) \<and> (2::int) ^ Suc b \<le> 10 ^ (m + 1))"

lemma upt_64:
  "[0..<64] = [0, 1, 2, 3, 4, 5, 6, 7, 8, 9, 10, 11, 12, 13, 14, 15, 16, 17, 18, 19, 20, 21, 22, 23,
     24, 25, 26, 27, 28, 29, 30, 31, 32, 33, 34, 35, 36, 37, 38, 39, 40, 41, 42, 43, 44, 45,
     46, 47, 48, 49, 50, 51, 52, 53, 54, 55, 56, 57, 58, 59, 60, 61, 62, 63]"
  by (simp add: upt_rec)

lemma estimates_ok:
  assumes "b < 64"
  shows "estimate_ok b"
proof -
  have "list_all estimate_ok [0..<64]" unfolding upt_64 by (simp add: estimate_ok_def)
  then show ?thesis using assms by (simp add: list_all_iff)
qed

lemma powersOf10_values: "map uint powersOf10 = map (\<lambda>i. 10 ^ i) [0, 1, 2, 3, 4, 5, 6, 7, 8, 9, 10, 11, 12, 13, 14, 15, 16, 17, 18, 19]"
  by (simp add: powersOf10_def)

lemma powersOf10_nth:
  assumes "i < 20"
  shows "unat (powersOf10 ! i) = 10 ^ i"
proof -
  have len: "length powersOf10 = 20" by (simp add: powersOf10_def)
  have upt: "[0, 1, 2, 3, 4, 5, 6, 7, 8, 9, 10, 11, 12, 13, 14, 15, 16, 17, 18, 19] = [0..<20]" by (simp add: upt_rec)
  have "map uint powersOf10 ! i = 10 ^ i" unfolding powersOf10_values upt using assms by simp
  then have "uint (powersOf10 ! i) = 10 ^ i" using assms len by simp
  then show ?thesis by (simp add: unat_eq_nat_uint nat_power_eq)
qed

lemma length_powersOf10: "length powersOf10 = 20"
  by (simp add: powersOf10_def)

lemma minLength:
  assumes "b < 64"
  shows "unat (1 + drop_bit 8 ((63 - (of_nat (63 - b) :: u32)) * 77)) = 1 + b * 77 div 256"
proof -
  have "63 - (of_nat (63 - b) :: u32) = of_nat b" using assms by (simp add: of_nat_diff)
  moreover have "(of_nat b :: u32) * 77 = of_nat (b * 77)" by simp
  ultimately have d: "drop_bit 8 ((63 - (of_nat (63 - b) :: u32)) * 77) = drop_bit 8 (of_nat (b * 77) :: u32)" by simp
  have "unat (of_nat (b * 77) :: u32) = b * 77" using assms by (subst unat_of_nat_mod) simp
  then have u: "unat (drop_bit 8 (of_nat (b * 77) :: u32)) = b * 77 div 256" by (simp add: unat_drop_bit)
  have "unat (1 + drop_bit 8 (of_nat (b * 77) :: u32)) = 1 + b * 77 div 256"
    using u assms by (simp add: unat_word_ariths(1))
  then show ?thesis unfolding d .
qed

lemma digits10_x86_ok: "digits10_x86 v = Inr (of_nat (length (decimal (unat v))))"
proof (cases "v = 0")
  case True
  then show ?thesis by (simp add: digits10_x86_def decimal.simps [of 0])
next
  case False
  define n where "n = unat v"
  define b where "b = bitlen n - 1"
  define m where "m = 1 + b * 77 div 256"
  have n: "0 < n" using False by (simp add: n_def unat_gt_0)
  have bl: "bitlen n = Suc b" using bitlen_pos [OF n] by (simp add: b_def)
  have "bitlen n \<le> 64" using bitlen_unat_le [of v] by (simp add: n_def)
  then have b: "b < 64" by (simp add: bl)
  have clz: "builtin_clz v = 63 - b" using False bl by (simp add: builtin_clz_def n_def)
  have lo: "2 ^ b \<le> n" and hi: "n < 2 ^ Suc b"
    using exp_bitlen_le [OF n] less_exp_bitlen [of n] by (simp_all add: bl)
  have est: "m < 20" "m = 1 \<or> (10::int) ^ (m - 1) \<le> 2 ^ b" "(2::int) ^ Suc b \<le> 10 ^ (m + 1)"
    using estimates_ok [OF b] unfolding estimate_ok_def Let_def m_def by auto
  have "m = 1 \<or> int (10 ^ (m - 1)) \<le> int (2 ^ b)" "int (2 ^ Suc b) \<le> int (10 ^ (m + 1))"
    using est(2,3) by simp_all
  then have nat: "m = 1 \<or> 10 ^ (m - 1) \<le> (2::nat) ^ b" "(2::nat) ^ Suc b \<le> 10 ^ (m + 1)"
    by linarith+
  have low: "m = 1 \<or> 10 ^ (m - 1) \<le> n" using nat(1) lo by linarith
  have high: "n < 10 ^ (m + 1)" using nat(2) hi by linarith
  have ml: "unat (1 + drop_bit 8 ((63 - (of_nat (63 - b) :: u32)) * 77)) = m"
    unfolding m_def by (rule minLength [OF b])
  define w where "w = 1 + drop_bit 8 ((63 - (of_nat (63 - b) :: u32)) * 77)"
  have mw: "unat w = m" using ml unfolding w_def [symmetric] .
  have "w = of_nat (unat w)" by simp
  then have w: "w = of_nat m" unfolding mw .
  have le: "powersOf10 ! m \<le> v \<longleftrightarrow> 10 ^ m \<le> n"
    using powersOf10_nth [OF est(1)] by (simp add: word_le_nat_alt n_def)
  have m1: "1 \<le> m" by (simp add: m_def)
  have "length (decimal n) = (if 10 ^ m \<le> n then m + 1 else m)"
    using decimal_length_eqI [of n m] decimal_length_eqI [of n "m + 1"] low high m1 by auto
  moreover have "digits10_x86 v = Inr (of_nat m + (if 10 ^ m \<le> n then 1 else 0))"
    unfolding digits10_x86_def Let_def clz w_def [symmetric]
    using False est(1) length_powersOf10 le mw by (simp add: w)
  ultimately show ?thesis by (simp add: n_def)
qed

lemma decimal_step: "10 \<le> n \<Longrightarrow> length (decimal n) = Suc (length (decimal (n div 10)))"
  by (subst decimal.simps) simp

lemma decimal_small: "n < 10 \<Longrightarrow> length (decimal n) = 1"
  by (simp add: decimal.simps [of n])

lemma digits10_loop_ok: "digits10_loop v r = r + of_nat (length (decimal (unat v)) - 1)"
proof (induction v r rule: digits10_loop.induct)
  case (1 v r)
  define n where "n = unat v"
  note cmp = word_less_nat_alt n_def [symmetric]
  consider "n < 10" | "10 \<le> n" "n < 100" | "100 \<le> n" "n < 1000" | "1000 \<le> n" "n < 10000" | "10000 \<le> n" by linarith
  then show ?case
  proof cases
    case 5
    have big: "\<not> v < 10" "\<not> v < 100" "\<not> v < 1000" "\<not> v < 10000" using 5 by (simp_all add: cmp)
    have "length (decimal n) = 4 + length (decimal (n div 10000))"
      using 5 decimal_step [of n] decimal_step [of "n div 10"] decimal_step [of "n div 100"]
        decimal_step [of "n div 1000"] by (simp add: div_mult2_eq [symmetric])
    then have "length (decimal n) - 1 = 4 + (length (decimal (n div 10000)) - 1)"
      using decimal_length_pos [of "n div 10000"] by simp
    then show ?thesis using "1.IH" [OF big] big
      by (subst digits10_loop.simps) (simp add: n_def unat_div)
  qed (use decimal_step [of n] decimal_step [of "n div 10"] decimal_step [of "n div 100"] decimal_small in
    \<open>subst digits10_loop.simps; simp add: cmp div_mult2_eq [symmetric]\<close>)+
qed

lemma digits10_ok: "digits10 x86_64 v = Inr (of_nat (length (decimal (unat v))))"
proof -
  have "of_nat (length (decimal (unat v))) = (1 :: u32) + of_nat (length (decimal (unat v)) - 1)"
    using decimal_length_pos [of "unat v"] by (simp add: of_nat_diff)
  then show ?thesis by (simp add: digits10_def digits10_x86_ok digits10_loop_ok)
qed

section \<open>The buffer\<close>

lemma buffer_loop_ok:
  assumes "length (decimal (unat v)) \<le> length buffer" "length buffer < 2 ^ 32"
    "pos = of_nat (length (decimal (unat v)) - 1)"
  shows "\<exists>v' buffer'. buffer_loop v buffer pos = Inr (v', buffer', 0) \<and>
    buffer'[0 := Some (ucast v' + 0x30)] = map Some (decimal (unat v)) @ drop (length (decimal (unat v))) buffer \<and>
    buffer' \<noteq> []"
  using assms
proof (induction v buffer pos rule: buffer_loop.induct)
  case (1 v buffer pos)
  define n where "n = unat v"
  show ?case
  proof (cases "10 \<le> v")
    case False
    then have n: "n < 10" by (simp add: word_le_nat_alt n_def)
    then have d: "decimal n = [digit_of n]" by (simp add: decimal.simps [of n])
    have len: "length (decimal n) = 1" by (simp add: d)
    obtain x xs where buf: "buffer = x # xs" using "1.prems"(1) unfolding n_def [symmetric] len by (cases buffer) auto
    have "ucast v + 0x30 = (digit_of n :: u8)"
      by (rule word_unat_eq_iff [THEN iffD2])
        (use n in \<open>simp add: digit_of unat_word_ariths(1) unat_ucast_mod n_def\<close>)
    then show ?thesis using False "1.prems"(3) unfolding n_def [symmetric] len
      by (subst buffer_loop.simps) (simp add: buf d)
  next
    case True
    then have n: "10 \<le> n" by (simp add: word_le_nat_alt n_def)
    define k where "k = length (decimal (n div 10))"
    have len: "length (decimal n) = Suc k" using decimal_step [OF n] by (simp add: k_def)
    have k: "k < length buffer" "k < 2 ^ 32" using "1.prems"(1,2) unfolding n_def [symmetric] len by simp_all
    have pos: "unat pos = k" using k(2) "1.prems"(3) unfolding n_def [symmetric] len
      by (simp add: unat_of_nat_mod)
    define buffer1 where "buffer1 = buffer[k := Some (0x30 + ucast (v mod 10))]"
    have w: "wr buffer (unat pos) (Some (0x30 + ucast (v mod 10))) = Inr buffer1"
      using k(1) by (simp add: pos buffer1_def)
    have k1: "1 \<le> k" unfolding k_def by (rule decimal_length_pos)
    have nd: "unat (v div 10) = n div 10" by (simp add: unat_div n_def)
    have "pos = of_nat k" using "1.prems"(3) unfolding n_def [symmetric] len by simp
    then have pos1: "pos - 1 = of_nat (k - 1)" using k1 by (simp add: of_nat_diff)
    obtain v' buffer' where IH: "buffer_loop (v div 10) buffer1 (pos - 1) = Inr (v', buffer', 0)"
      "buffer'[0 := Some (ucast v' + 0x30)] = map Some (decimal (n div 10)) @ drop k buffer1" "buffer' \<noteq> []"
    proof -
      have "k \<le> length buffer1" "length buffer1 < 2 ^ 32" using k(1) "1.prems"(2) by (simp_all add: buffer1_def)
      then show ?thesis using "1.IH" [OF True w] pos1 that unfolding nd k_def [symmetric] by blast
    qed
    have "0x30 + ucast (v mod 10) = (digit_of (n mod 10) :: u8)"
      by (rule word_unat_eq_iff [THEN iffD2])
        (simp add: digit_of unat_word_ariths(1) unat_ucast_mod unat_mod n_def)
    then have "drop k buffer1 = Some (digit_of (n mod 10)) # drop (Suc k) buffer"
      using k(1) by (simp add: buffer1_def drop_update_swap Cons_nth_drop_Suc [symmetric])
    moreover have "decimal n = decimal (n div 10) @ [digit_of (n mod 10)]" using n by (subst decimal.simps) simp
    ultimately have "buffer'[0 := Some (ucast v' + 0x30)] = map Some (decimal n) @ drop (length (decimal n)) buffer"
      unfolding IH(2) len by simp
    moreover have "buffer_loop v buffer pos = Inr (v', buffer', 0)"
      using True w IH(1) by (subst buffer_loop.simps) simp
    ultimately show ?thesis using IH(3) unfolding n_def [symmetric] by blast
  qed
qed

lemma uint64ToBufferUnsafe_ok:
  assumes "length (decimal (unat v)) \<le> length buffer" "length buffer < 2 ^ 32"
  shows "uint64ToBufferUnsafe x86_64 v buffer =
    Inr (of_nat (length (decimal (unat v))), map Some (decimal (unat v)) @ drop (length (decimal (unat v))) buffer)"
proof -
  have "of_nat (length (decimal (unat v))) - 1 = (of_nat (length (decimal (unat v)) - 1) :: u32)"
    using decimal_length_pos [of "unat v"] by (simp add: of_nat_diff)
  then obtain v' buffer' where "buffer_loop v buffer (of_nat (length (decimal (unat v))) - 1) = Inr (v', buffer', 0)"
    "buffer'[0 := Some (ucast v' + 0x30)] = map Some (decimal (unat v)) @ drop (length (decimal (unat v))) buffer"
    "buffer' \<noteq> []"
    using buffer_loop_ok [OF assms] by metis
  then show ?thesis by (simp add: uint64ToBufferUnsafe_def digits10_ok)
qed

lemma append_buffer_ok: "append_buffer result (map Some cs @ rest) (length cs) = Inr (result @ cs)"
proof -
  have "traverse (\<lambda>i. andthen (rd (map Some cs @ rest) i) (\<lambda>x. case x of
      None \<Rightarrow> Inl Undefined_Behaviour | Some c \<Rightarrow> Inr c)) [0..<length cs] = Inr (map (\<lambda>i. cs ! i) [0..<length cs])"
    by (rule traverse_Inr) (simp add: nth_append)
  then show ?thesis by (simp add: append_buffer_def map_nth)
qed

lemma print_u64:
  "andthen (uint64ToBufferUnsafe x86_64 v (replicate 20 None)) (\<lambda>(n, buffer). append_buffer result buffer (unat n))
   = Inr (result @ decimal (unat v))"
proof -
  have "unat (of_nat (length (decimal (unat v))) :: u32) = length (decimal (unat v))"
    using decimal_length_u64 [of v] by (simp add: unat_of_nat_mod)
  then show ?thesis
    using decimal_length_u64 [of v] by (simp add: uint64ToBufferUnsafe_ok append_buffer_ok)
qed

section \<open>Printing integers\<close>

definition text_of_int :: "int \<Rightarrow> u8 list" where
  "text_of_int v = (if v < 0 then 0x2D # decimal (nat (- v)) else decimal (nat v))"

lemma in_int64:
  assumes "is_itype T" "in_type T v"
  shows "- (2 ^ 63) \<le> v" "v < 2 ^ 64" "it_signed T \<Longrightarrow> v < 2 ^ 63"
  using assms by (auto simp: is_itype_def in_type_def it_min_def it_max_def split: if_splits)

lemma unat_of_nonneg: "0 \<le> v \<Longrightarrow> v < 2 ^ 64 \<Longrightarrow> unat (word_of_int v :: u64) = nat v"
  by (simp add: unat_eq_nat_uint unsigned_of_int take_bit_int_eq_self)

lemma unat_of_neg: "v < 0 \<Longrightarrow> - (2 ^ 63) \<le> v \<Longrightarrow> unat (NOT (word_of_int v) + 1 :: u64) = nat (- v)"
proof -
  assume v: "v < 0" "- (2 ^ 63) \<le> v"
  have "NOT (word_of_int v) + 1 = (word_of_int (- v) :: u64)" by (simp add: not_eq_complement)
  then show ?thesis using unat_of_nonneg [of "- v"] v by simp
qed

lemma toAppend_int_ok:
  assumes "is_itype T" "in_type T v"
  shows "toAppend_int x86_64 T v result = Inr (result @ text_of_int v)"
proof (cases "v < 0")
  case True
  then have "it_signed T" using assms by (auto simp: in_type_def it_min_def split: if_splits)
  then show ?thesis using True in_int64 [OF assms]
    by (simp add: toAppend_int_def toAppend_signed_def print_u64 unat_of_neg text_of_int_def)
next
  case False
  then have "unat (word_of_int v :: u64) = nat v" using in_int64 [OF assms] by (intro unat_of_nonneg) auto
  then show ?thesis using False
    by (simp add: toAppend_int_def toAppend_signed_def toAppend_unsigned_def print_u64 text_of_int_def)
qed

lemma estimate_int_ok:
  assumes "is_itype T" "in_type T v"
  shows "estimateSpaceNeeded_int x86_64 T v = Inr (length (text_of_int v))"
proof -
  have len: "unat (of_nat (length (decimal (unat (w :: u64)))) :: u32) = length (decimal (unat w))" for w
    using decimal_length_u64 [of w] by (simp add: unat_of_nat_mod)
  show ?thesis
  proof (cases "v < 0")
    case True
    then have "it_signed T" using assms by (auto simp: in_type_def it_min_def split: if_splits)
    then show ?thesis using True in_int64 [OF assms] len [of "NOT (word_of_int v) + 1"]
      by (simp add: estimateSpaceNeeded_int_def digits10_ok unat_of_neg text_of_int_def)
  next
    case False
    then have "unat (word_of_int v :: u64) = nat v" using in_int64 [OF assms] by (intro unat_of_nonneg) auto
    then show ?thesis using False len [of "word_of_int v"]
      by (simp add: estimateSpaceNeeded_int_def digits10_ok text_of_int_def)
  qed
qed

section \<open>Appending and reserving\<close>

text \<open>The characters of an argument, and the values an integer argument can have.\<close>

fun arg_chars :: "conv_arg \<Rightarrow> u8 list" where
  "arg_chars (Arg_Char c) = [c]"
| "arg_chars (Arg_Literal a) = c_chars a"
| "arg_chars (Arg_CStr p) = (case p of None \<Rightarrow> [] | Some a \<Rightarrow> c_chars a)"
| "arg_chars (Arg_Str a) = a"
| "arg_chars (Arg_Int T v) = text_of_int v"

fun arg_ok :: "conv_arg \<Rightarrow> bool" where
  "arg_ok (Arg_Int T v) = (is_itype T \<and> in_type T v)"
| "arg_ok _ = True"

fun delimited :: "u8 list \<Rightarrow> u8 list list \<Rightarrow> u8 list" where
  "delimited d [] = []"
| "delimited d [x] = x"
| "delimited d (x # y # xs) = x @ d @ delimited d (y # xs)"

text \<open>The space that is asked for: that of the characters, and one byte more for a literal.\<close>

definition arg_space :: "conv_arg \<Rightarrow> nat" where
  "arg_space a = (case a of Arg_Literal s \<Rightarrow> length s | _ \<Rightarrow> length (arg_chars a))"

lemma arg_space_ge: "length (arg_chars a) \<le> arg_space a"
  by (cases a) (auto simp: arg_space_def c_chars_def length_takeWhile_le)

lemma toAppend_ok: "arg_ok a \<Longrightarrow> toAppend x86_64 a result = Inr (result @ arg_chars a)"
  by (cases a) (auto simp: toAppend_int_ok split: option.splits)

lemma estimate_ok_arg: "arg_ok a \<Longrightarrow> estimateSpaceNeeded x86_64 a = Inr (arg_space a)"
  by (cases a) (auto simp: estimate_int_ok arg_space_def split: option.splits)

lemma estimateSpaceToReserve_ok:
  "list_all arg_ok vs \<Longrightarrow> estimateSpaceToReserve x86_64 n vs = Inr (n + sum_list (map arg_space vs))"
  by (induction vs arbitrary: n) (simp_all add: estimate_ok_arg)

lemma toAppendStrImpl_ok:
  "list_all arg_ok vs \<Longrightarrow> toAppendStrImpl x86_64 vs result = Inr (result @ concat (map arg_chars vs))"
  by (induction vs arbitrary: result) (simp_all add: toAppend_ok)

lemma toAppendDelimStrImpl_ok:
  "arg_ok d \<Longrightarrow> list_all arg_ok vs \<Longrightarrow>
   toAppendDelimStrImpl x86_64 d vs result = Inr (result @ delimited (arg_chars d) (map arg_chars vs))"
  by (induction x86_64 d vs result rule: toAppendDelimStrImpl.induct) (simp_all add: toAppend_ok)

lemma length_delimited_le:
  "length (delimited d xs) \<le> (length xs - 1) * length d + sum_list (map length xs)"
  by (induction d xs rule: delimited.induct) simp_all

lemma sum_chars_le: "sum_list (map length (map arg_chars vs)) \<le> sum_list (map arg_space vs)"
  unfolding map_map comp_def by (rule sum_list_mono) (rule arg_space_ge)

text \<open>
  C40. Joining any arguments, with or without a delimiter, gives their characters in order, integers in
  decimal notation; the space reserved beforehand is enough for the characters that are appended, and
  neither the digit count nor the writes to the buffer leave their arrays, on x86-64 and elsewhere.
\<close>

theorem append_fits:
  assumes "list_all arg_ok (d # vs)"
  shows "(\<exists>n. toAppendFit x86_64 vs s = Inr (n, s @ concat (map arg_chars vs)) \<and> length (concat (map arg_chars vs)) \<le> n) \<and>
    (\<exists>n. toAppendDelimFit x86_64 d vs s = Inr (n, s @ delimited (arg_chars d) (map arg_chars vs)) \<and>
       length (delimited (arg_chars d) (map arg_chars vs)) \<le> n)"
proof
  have d: "arg_ok d" "list_all arg_ok vs" using assms by simp_all
  let ?n = "sum_list (map arg_space vs)"
  have "length (concat (map arg_chars vs)) \<le> ?n" using sum_chars_le [of vs] by (simp add: length_concat)
  then show "\<exists>n. toAppendFit x86_64 vs s = Inr (n, s @ concat (map arg_chars vs)) \<and> length (concat (map arg_chars vs)) \<le> n"
    by (simp add: toAppendFit_def estimateSpaceToReserve_ok d toAppendStrImpl_ok)
  have "length (delimited (arg_chars d) (map arg_chars vs)) \<le> (length vs - 1) * length (arg_chars d) + ?n"
    using length_delimited_le [of "arg_chars d" "map arg_chars vs"] sum_chars_le [of vs] by simp
  also have "\<dots> \<le> (length vs - 1) * arg_space d + ?n"
    using arg_space_ge [of d] by simp
  finally show "\<exists>n. toAppendDelimFit x86_64 d vs s = Inr (n, s @ delimited (arg_chars d) (map arg_chars vs)) \<and>
       length (delimited (arg_chars d) (map arg_chars vs)) \<le> n"
    by (simp add: toAppendDelimFit_def estimateSpaceToReserve_ok estimate_ok_arg d toAppendDelimStrImpl_ok)
qed

theorem append_fits_witness:
  "\<exists>n. toAppendDelimFit True (Arg_Char 0x2C) [Arg_Int int_type (-7), Arg_Str [0x61]] [] =
      Inr (n, delimited [0x2C] [text_of_int (-7), [0x61]]) \<and> length (delimited [0x2C] [text_of_int (-7), [0x61]]) \<le> n"
  using append_fits [of "Arg_Char 0x2C" "[Arg_Int int_type (-7), Arg_Str [0x61]]" True "[]"]
  by (simp add: is_itype_def int_type_def in_type_def it_min_def it_max_def)

end
