(* ===== verification/Folly_Conv_Arith.thy ===== *)
theory Folly_Conv_Arith
  imports Folly_Conv
begin

text \<open>The checked conversion between integer types.\<close>

text \<open>
  The conversions in which the comparison with the least value of the target is made in an unsigned
  type, where that of the source has become a large number.
\<close>

definition unchecked_negative :: "itype \<Rightarrow> itype \<Rightarrow> bool" where
  "unchecked_negative Tgt Src \<longleftrightarrow>
     it_signed Src \<and> \<not> it_signed Tgt \<and> 32 \<le> it_bits Tgt \<and> it_bits Src \<le> it_bits Tgt"

lemma conv_itype: "is_itype T \<Longrightarrow> in_type T x \<Longrightarrow> conv T x = x"
  using conv_id itype_facts(1) by blast

lemma is_itype_promoted: "is_itype T \<Longrightarrow> is_itype (promoted T)"
  by (auto simp: is_itype_def promoted_def int_type_def)

lemma is_itype_common: "is_itype A \<Longrightarrow> is_itype B \<Longrightarrow> is_itype (common_type A B)"
  by (simp add: common_type_def Let_def is_itype_promoted)

lemma common_signed:
  assumes "is_itype A" "is_itype B"
  shows "it_signed (common_type A B) \<longleftrightarrow> \<not> (it_bits A = it_bits B \<and> 32 \<le> it_bits A \<and> \<not> (it_signed A \<and> it_signed B))
    \<and> \<not> (it_bits A < it_bits B \<and> 32 \<le> it_bits B \<and> \<not> it_signed B) \<and> \<not> (it_bits B < it_bits A \<and> 32 \<le> it_bits A \<and> \<not> it_signed A)"
  using assms by (auto simp: common_type_def Let_def promoted_def int_type_def is_itype_def)

lemma common_wide:
  "it_bits (promoted A) \<le> it_bits (common_type A B)" "it_bits (promoted B) \<le> it_bits (common_type A B)"
  by (auto simp: common_type_def Let_def)

lemma in_type_widen:
  assumes "is_itype A" "is_itype C" "in_type A x" "it_bits A \<le> it_bits C"
    "it_signed C \<Longrightarrow> \<not> it_signed A \<Longrightarrow> it_bits A < it_bits C" "\<not> it_signed C \<Longrightarrow> 0 \<le> x"
  shows "in_type C x"
proof -
  have pow: "(2::int) ^ (it_bits A - 1) \<le> 2 ^ (it_bits C - 1)" "(2::int) ^ it_bits A \<le> 2 ^ it_bits C"
    using assms(4) by (intro power_increasing; simp)+
  have A: "(2::int) ^ it_bits A = 2 * 2 ^ (it_bits A - 1)"
    using itype_facts(1) [OF assms(1)] by (cases "it_bits A") simp_all
  have "it_bits A < it_bits C \<Longrightarrow> (2::int) ^ it_bits A \<le> 2 ^ (it_bits C - 1)"
    by (rule power_increasing) auto
  then show ?thesis using assms(3,5,6) pow A
    unfolding in_type_def it_min_def it_max_def by (cases "it_signed A"; cases "it_signed C"; simp del: power_increasing_iff; linarith)
qed

lemma common_in_left:
  assumes "is_itype A" "is_itype B" "in_type A a" "it_signed (common_type A B) \<or> 0 \<le> a"
  shows "in_type (common_type A B) a"
proof (rule in_type_widen [OF is_itype_promoted [OF assms(1)] is_itype_common [OF assms(1,2)]])
  show "in_type (promoted A) a" by (rule in_promoted [OF assms(1,3)])
  show "it_bits (promoted A) \<le> it_bits (common_type A B)" by (rule common_wide(1))
  show "0 \<le> a" if "\<not> it_signed (common_type A B)" using assms(4) that by simp
  show "it_bits (promoted A) < it_bits (common_type A B)"
    if "it_signed (common_type A B)" "\<not> it_signed (promoted A)"
    using that by (auto simp: common_type_def Let_def split: if_splits)
qed

lemma common_commute: "is_itype A \<Longrightarrow> is_itype B \<Longrightarrow> common_type A B = common_type B A"
  by (auto simp: common_type_def Let_def promoted_def int_type_def intro!: itype.equality)

lemma less_op_exact:
  assumes "is_itype A" "is_itype B" "in_type A a" "in_type B b"
    "it_signed (common_type A B) \<or> 0 \<le> a \<and> 0 \<le> b"
  shows "less_op A a B b \<longleftrightarrow> a < b"
proof -
  have "in_type (common_type A B) a" using assms by (intro common_in_left) auto
  moreover have "in_type (common_type A B) b"
    unfolding common_commute [OF assms(1,2)]
    using assms by (intro common_in_left) (auto simp: common_commute [OF assms(1,2)])
  ultimately show ?thesis
    by (simp add: less_op_def Let_def conv_itype is_itype_common [OF assms(1,2)])
qed

lemma conv_unsigned_nonneg: "\<not> it_signed C \<Longrightarrow> 0 \<le> conv C x"
  by (simp add: conv_def)

lemma less_op_zero_unsigned: "\<not> it_signed (common_type A B) \<Longrightarrow> \<not> less_op A a B 0"
  using conv_unsigned_nonneg [of "common_type A B" a]
  by (simp add: less_op_def Let_def conv_def not_less)

lemma it_ranges:
  assumes "is_itype T"
  shows "in_type T (it_min T)" "in_type T (it_max T)" "0 < it_max T" "it_min T \<le> 0" "\<not> it_signed T \<Longrightarrow> it_min T = 0"
    "it_signed T \<Longrightarrow> it_min T < 0"
  using itype_facts [OF assms] by (auto simp: in_type_def it_min_def)

lemma max_guard:
  assumes "is_itype A" "is_itype B"
  shows "less_op (unsigned_of A) (conv (unsigned_of A) (it_max A)) (unsigned_of B) (conv (unsigned_of B) (it_max B))
    \<longleftrightarrow> it_max A < it_max B"
proof -
  have i: "is_itype (unsigned_of T)" "in_type (unsigned_of T) (it_max T)" if "is_itype T" for T
    using that it_ranges(3) [OF that]
    by (auto simp: is_itype_def unsigned_of_def in_type_def it_min_def it_max_def)
  note a = i [OF assms(1)] and b = i [OF assms(2)]
  have "0 \<le> it_max A" "0 \<le> it_max B" using it_ranges(3) [OF assms(1)] it_ranges(3) [OF assms(2)] by auto
  then show ?thesis using less_op_exact [OF a(1) b(1) a(2) b(2)] by (simp add: conv_itype [OF a] conv_itype [OF b])
qed

lemma above_max:
  assumes "is_itype Tgt" "is_itype Src" "in_type Src v" "it_max Tgt < it_max Src"
  shows "greater_than_impl Tgt (it_max Tgt) Src v \<longleftrightarrow> it_max Tgt < v"
proof -
  have C: "it_signed (common_type Tgt Src) \<or> \<not> it_signed Src"
  proof (rule ccontr)
    assume n: "\<not> (it_signed (common_type Tgt Src) \<or> \<not> it_signed Src)"
    then have "it_bits Src \<le> it_bits Tgt" "\<not> it_signed Tgt"
      using common_signed [OF assms(1,2)] by auto
    then have "it_max Src \<le> it_max Tgt"
      using in_type_widen [OF assms(2,1) it_ranges(2) [OF assms(2)]] it_ranges(3) [OF assms(2)]
      by (auto simp: in_type_def)
    then show False using assms(4) by simp
  qed
  note r = it_ranges [OF assms(1)] and s = it_ranges [OF assms(2)]
  have nn: "0 \<le> v" if "\<not> it_signed Src" using assms(3) s(5) [OF that] by (simp add: in_type_def)
  have 1: "\<not> less_op Src (it_max Src) Tgt (it_max Tgt)"
    using less_op_exact [OF assms(2,1) s(2) r(2)] r(3) s(3) assms(4) by simp
  have 2: "\<not> less_op Tgt (it_max Tgt) Src (it_min Src)"
    using less_op_exact [OF assms(1,2) r(2) s(1)] r(3) s(4,5) C by auto
  have 3: "less_op Tgt (it_max Tgt) Src v \<longleftrightarrow> it_max Tgt < v"
    using less_op_exact [OF assms(1,2) r(2) assms(3)] r(3) C nn by auto
  show ?thesis unfolding greater_than_impl_def using 1 2 3 by simp
qed

lemma below_min:
  assumes "is_itype Tgt" "is_itype Src" "in_type Src v" "it_signed Src" "\<not> it_signed Tgt \<or> it_bits Tgt < it_bits Src"
  shows "less_than_impl Tgt (it_min Tgt) Src v \<longleftrightarrow> v < it_min Tgt \<and> \<not> unchecked_negative Tgt Src"
proof -
  note r = it_ranges [OF assms(1)] and s = it_ranges [OF assms(2)]
  have common: "common_type Src Tgt = common_type Tgt Src" by (rule common_commute [OF assms(2,1)])
  have C: "it_signed (common_type Src Tgt) \<longleftrightarrow> \<not> unchecked_negative Tgt Src"
    using common_signed [OF assms(2,1)] assms(4,5) by (auto simp: unchecked_negative_def)
  show ?thesis
  proof (cases "unchecked_negative Tgt Src")
    case True
    then have u: "\<not> it_signed (common_type Src Tgt)" "it_min Tgt = 0"
      using C r(5) by (auto simp: unchecked_negative_def)
    have "\<not> less_op Src (it_max Src) Tgt 0" "\<not> less_op Src (it_min Src) Tgt 0"
      using less_op_zero_unsigned [OF u(1)] by auto
    then show ?thesis unfolding less_than_impl_def u(2) using True by simp
  next
    case False
    then have sg: "it_signed (common_type Src Tgt)" using C by simp
    have lt: "it_min Src < it_min Tgt"
    proof (cases "it_signed Tgt")
      case True
      then have "it_bits Tgt - 1 < it_bits Src - 1" using assms(5) itype_facts(1) [OF assms(1)] by auto
      then have "(2::int) ^ (it_bits Tgt - 1) < 2 ^ (it_bits Src - 1)" by (rule power_strict_increasing) simp
      then show ?thesis using True assms(4) by (simp add: it_min_def)
    next
      case False
      then show ?thesis using s(6) [OF assms(4)] r(5) by simp
    qed
    have "\<not> less_op Src (it_max Src) Tgt (it_min Tgt)" "less_op Src (it_min Src) Tgt (it_min Tgt)"
      "less_op Src v Tgt (it_min Tgt) \<longleftrightarrow> v < it_min Tgt"
      using less_op_exact [OF assms(2,1) s(2) r(1)] less_op_exact [OF assms(2,1) s(1) r(1)]
        less_op_exact [OF assms(2,1,3) r(1)] sg lt s(3) r(4) by auto
    then show ?thesis unfolding less_than_impl_def using False by simp
  qed
qed

lemma convertTo_cases:
  assumes "is_itype Tgt" "is_itype Src" "in_type Src v"
  shows "convertTo_integral Tgt Src v =
    (if it_max Tgt < v then Inl ARITH_POSITIVE_OVERFLOW
     else if v < it_min Tgt \<and> \<not> unchecked_negative Tgt Src then Inl ARITH_NEGATIVE_OVERFLOW
     else Inr (conv Tgt v))"
proof -
  have v: "it_max Tgt < v \<Longrightarrow> it_max Tgt < it_max Src" using assms(3) by (simp add: in_type_def)
  have up: "less_op (unsigned_of Tgt) (conv (unsigned_of Tgt) (it_max Tgt)) (unsigned_of Src) (conv (unsigned_of Src) (it_max Src))
      \<and> greater_than_impl Tgt (it_max Tgt) Src v \<longleftrightarrow> it_max Tgt < v"
    using max_guard [OF assms(1,2)] above_max [OF assms] v by auto
  have neg: "it_signed Src \<and> (\<not> it_signed Tgt \<or> it_bits Tgt < it_bits Src)" if "v < it_min Tgt"
  proof (rule ccontr)
    assume n: "\<not> ?thesis"
    have "it_min Src \<le> v" using assms(3) by (simp add: in_type_def)
    moreover have "it_min Tgt \<le> it_min Src"
    proof (cases "it_signed Src")
      case True
      then have "(2::int) ^ (it_bits Src - 1) \<le> 2 ^ (it_bits Tgt - 1)" "it_signed Tgt"
        using n by (auto intro!: power_increasing)
      then show ?thesis using True by (simp add: it_min_def)
    next
      case False
      then show ?thesis using it_ranges(4) [OF assms(1)] it_ranges(5) [OF assms(2)] by simp
    qed
    ultimately show False using that by simp
  qed
  show ?thesis
    unfolding convertTo_integral_def up using below_min [OF assms] neg by (auto simp: unchecked_negative_def)
qed

text \<open>
  C16. The checked conversion of an integer to another integer type gives the value if the target
  type has it, and a positive overflow above its greatest value. Below its least value it gives a
  negative overflow, except for a signed source and an unsigned target of at least 32 bits that is not
  smaller than the source: then a negative number is converted without an error, to a number that is
  larger by a power of two.
\<close>

theorem convertTo_integral_outcome:
  assumes "is_itype Tgt" "is_itype Src" "in_type Src v"
  shows "convertTo_integral Tgt Src v =
    (if in_type Tgt v then Inr v
     else if it_max Tgt < v then Inl ARITH_POSITIVE_OVERFLOW
     else if unchecked_negative Tgt Src then Inr (v + 2 ^ it_bits Tgt)
     else Inl ARITH_NEGATIVE_OVERFLOW)"
proof -
  have "conv Tgt v = v + 2 ^ it_bits Tgt" if "unchecked_negative Tgt Src" "v < it_min Tgt"
  proof -
    have u: "\<not> it_signed Tgt" "it_min Tgt = 0" "it_bits Src \<le> it_bits Tgt"
      using that it_ranges(5) [OF assms(1)] by (auto simp: unchecked_negative_def)
    have "- (2 ^ (it_bits Src - 1)) \<le> v"
      using assms(3) that(1) by (auto simp: in_type_def it_min_def unchecked_negative_def)
    moreover have "(2::int) ^ (it_bits Src - 1) \<le> 2 ^ it_bits Tgt" by (rule power_increasing) (use u in auto)
    ultimately have "0 \<le> v + 2 ^ it_bits Tgt" "v + 2 ^ it_bits Tgt < 2 ^ it_bits Tgt"
      using that(2) u(2) by linarith+
    then have "(v + 2 ^ it_bits Tgt) mod 2 ^ it_bits Tgt = v + 2 ^ it_bits Tgt" by (rule mod_pos_pos_trivial)
    then show ?thesis using u by (simp add: conv_def)
  qed
  then show ?thesis
    unfolding convertTo_cases [OF assms] using conv_itype [OF assms(1)] by (auto simp: in_type_def)
qed

theorem convertTo_integral_outcome_witness:
  "convertTo_integral \<lparr>it_bits = 32, it_signed = False\<rparr> int_type (-1) = Inr 0xFFFFFFFF \<and>
   convertTo_integral \<lparr>it_bits = 16, it_signed = False\<rparr> int_type (-1) = Inl ARITH_NEGATIVE_OVERFLOW \<and>
   convertTo_integral \<lparr>it_bits = 8, it_signed = True\<rparr> int_type 128 = Inl ARITH_POSITIVE_OVERFLOW"
  using convertTo_integral_outcome [of "\<lparr>it_bits = 32, it_signed = False\<rparr>" int_type "-1"]
    convertTo_integral_outcome [of "\<lparr>it_bits = 16, it_signed = False\<rparr>" int_type "-1"]
    convertTo_integral_outcome [of "\<lparr>it_bits = 8, it_signed = True\<rparr>" int_type "128"]
  by (simp add: is_itype_def int_type_def in_type_def it_min_def it_max_def unchecked_negative_def)

end
