(* ===== verification/Folly_Conv_Parse.thy ===== *)
theory Folly_Conv_Parse
  imports Folly_Conv_Print Folly_Conv_Arith
begin

text \<open>Text to integers: the digit tables, the overflow check, signs and white space.\<close>

section \<open>Characters\<close>

definition ascii_char :: "u8 \<Rightarrow> bool" where
  "ascii_char c \<longleftrightarrow> unat c < 128"

lemma ascii_uint: "ascii_char c \<longleftrightarrow> uint c < 128"
proof -
  have u: "uint c = int (unat c)" by simp
  show ?thesis unfolding ascii_char_def u by (rule iffI; linarith)
qed

lemma sint_ascii: "ascii_char c \<Longrightarrow> sint c = uint c"
proof -
  assume "ascii_char c"
  then have "uint c < 2 ^ 7" by (simp add: ascii_uint)
  then have "signed_take_bit 7 (uint c) = uint c" using uint_ge_0 [of c] by (intro signed_take_bit_int_eq_self; linarith)
  then show "sint c = uint c" by (simp add: sint_uint)
qed

lemma ascii_ctype [simp]:
  assumes "ascii_char c"
  shows "std_isdigit c = Inr (digit_char c)" "std_isspace c = Inr (space_char c)"
  by (simp_all add: std_isdigit_def std_isspace_def sint_ascii [OF assms] not_less order_trans [OF _ uint_ge_0])

lemma scast_ascii: "ascii_char c \<Longrightarrow> (scast c :: 'b::len word) = ucast c"
  using arg_cong [OF sint_ascii, of c "word_of_int :: int \<Rightarrow> 'b word"] by simp

lemma size_of_ascii: "ascii_char c \<Longrightarrow> size_of_char c = unat c"
  by (simp add: size_of_char_def scast_ascii unat_ucast_mod ascii_char_def)

lemma digit_uint: "digit_char c \<longleftrightarrow> 48 \<le> uint c \<and> uint c \<le> 57"
  by (simp add: digit_char_def word_le_def)

lemma digit_ascii: "digit_char c \<Longrightarrow> ascii_char c"
  by (simp add: digit_char_unat ascii_char_def)

lemma space_ascii: "space_char c \<Longrightarrow> ascii_char c"
  by (auto simp: space_char_def ascii_char_def word_le_nat_alt)

lemma space_not_digit: "space_char c \<Longrightarrow> \<not> digit_char c"
  by (auto simp: space_char_def digit_char_unat word_le_nat_alt)

section \<open>The tables\<close>

definition shift_value :: "int \<Rightarrow> u8 \<Rightarrow> int" where
  "shift_value k c = (if digit_char c then k * (uint c - 48) else OOR)"

lemma shift_tables:
  "shift1 = replicate 48 OOR @ map (\<lambda>d. 1 * int d) [0..<10] @ replicate 198 OOR"
  "shift10 = replicate 48 OOR @ map (\<lambda>d. 10 * int d) [0..<10] @ replicate 198 OOR"
  "shift100 = replicate 48 OOR @ map (\<lambda>d. 100 * int d) [0..<10] @ replicate 198 OOR"
  "shift1000 = replicate 48 OOR @ map (\<lambda>d. 1000 * int d) [0..<10] @ replicate 198 OOR"
  unfolding shift1_def shift10_def shift100_def shift1000_def by (simp_all add: upt_rec)

lemma shift_lookup:
  assumes "ascii_char c"
  shows "rd (replicate 48 OOR @ map (\<lambda>d. k * int d) [0..<10] @ replicate 198 OOR) (size_of_char c) = Inr (shift_value k c)"
proof -
  define i where "i = unat c"
  have i: "i < 128" using assms by (simp add: ascii_char_def i_def)
  have u: "uint c = int i" by (simp add: i_def)
  have "(replicate 48 OOR @ map (\<lambda>d. k * int d) [0..<10] @ replicate 198 OOR) ! i = shift_value k c"
    using i unfolding shift_value_def digit_uint u by (auto simp: nth_append of_nat_diff)
  then show ?thesis using i by (simp add: size_of_ascii [OF assms] i_def)
qed

lemma shift_at_ok:
  assumes "i < length s" "ascii_char (s ! i)"
  shows "shift_at shift1 s i = Inr (shift_value 1 (s ! i))" "shift_at shift10 s i = Inr (shift_value 10 (s ! i))"
    "shift_at shift100 s i = Inr (shift_value 100 (s ! i))" "shift_at shift1000 s i = Inr (shift_value 1000 (s ! i))"
  unfolding shift_at_def shift_tables rd_Inr [OF assms(1)] andthen_Inr by (rule shift_lookup [OF assms(2)])+

lemma shift_value_bounds:
  "0 \<le> k \<Longrightarrow> k \<le> 1000 \<Longrightarrow> 0 \<le> shift_value k c \<and> shift_value k c \<le> 10000"
  "digit_char c \<Longrightarrow> shift_value k c = k * (uint c - 48)"
  "\<not> digit_char c \<Longrightarrow> shift_value k c = OOR"
proof -
  assume k: "0 \<le> k" "k \<le> 1000"
  show "0 \<le> shift_value k c \<and> shift_value k c \<le> 10000"
  proof (cases "digit_char c")
    case True
    then have "0 \<le> uint c - 48" "uint c - 48 \<le> 9" by (auto simp: digit_uint)
    then have "k * (uint c - 48) \<le> 1000 * 9" "0 \<le> k * (uint c - 48)"
      using k mult_mono [of k 1000 "uint c - 48" 9] by auto
    then show ?thesis using True by (simp add: shift_value_def)
  qed (simp add: shift_value_def OOR_def)
qed (simp_all add: shift_value_def)

section \<open>Runs of characters\<close>

definition span :: "u8 list \<Rightarrow> nat \<Rightarrow> nat \<Rightarrow> u8 list" where
  "span s b e = take (e - b) (drop b s)"

lemma length_span: "e \<le> length s \<Longrightarrow> length (span s b e) = e - b"
  by (simp add: span_def)

lemma span_empty [simp]: "e \<le> b \<Longrightarrow> span s b e = []"
  by (simp add: span_def)

lemma span_Cons: "b < e \<Longrightarrow> e \<le> length s \<Longrightarrow> span s b e = s ! b # span s (Suc b) e"
  by (simp add: span_def Cons_nth_drop_Suc [symmetric] take_Cons' Suc_diff_Suc [symmetric])

lemma span_end: "span s b (length s) = drop b s"
  by (simp add: span_def)

lemma findFirstNonDigit_ok:
  assumes "b \<le> e" "e \<le> length s" "list_all ascii_char (span s b e)"
  shows "findFirstNonDigit s b e = Inr (b + length (takeWhile digit_char (span s b e)))"
  using assms
proof (induction s b e rule: findFirstNonDigit.induct)
  case (1 s b e)
  show ?case
  proof (cases "b < e")
    case True
    have sp: "span s b e = s ! b # span s (b + 1) e" using span_Cons True "1.prems"(2) by simp
    then have asc: "ascii_char (s ! b)" "list_all ascii_char (span s (b + 1) e)" using "1.prems"(3) by simp_all
    have cmp: "((scast (s ! b) :: u32) - 0x30 \<ge> 10) \<longleftrightarrow> \<not> digit_char (s ! b)"
    proof -
      have u: "unat (scast (s ! b) :: u32) = unat (s ! b)" "unat (s ! b) < 128"
        using asc(1) by (simp_all add: scast_ascii unat_ucast_mod ascii_char_def)
      show ?thesis using u(2) by (auto simp: word_le_nat_alt unat_sub_if' digit_char_unat u(1))
    qed
    show ?thesis
      using True "1.prems" asc cmp "1.IH" [of "s ! b"]
      by (subst findFirstNonDigit.simps) (simp add: sp)
  qed (use "1.prems" in \<open>subst findFirstNonDigit.simps; simp\<close>)
qed

lemma skip_zeros_ok:
  assumes "b \<le> e" "e \<le> length s"
  shows "skip_zeros s b e = Inr (if list_all (\<lambda>c. c = 0x30) (span s b e) then None
    else Some (b + length (takeWhile (\<lambda>c. c = 0x30) (span s b e))))"
  using assms
proof (induction s b e rule: skip_zeros.induct)
  case (1 s b e)
  show ?case
  proof (cases "b < e")
    case True
    have sp: "span s b e = s ! b # span s (b + 1) e" using span_Cons True "1.prems"(2) by simp
    show ?thesis
      using True "1.prems" "1.IH" [of "s ! b"] by (subst skip_zeros.simps) (auto simp: sp)
  qed (use "1.prems" in \<open>subst skip_zeros.simps; simp\<close>)
qed

lemma skip_spaces_ok:
  assumes "b \<le> length s" "list_all ascii_char (drop b s)"
  shows "skip_spaces s b = Inr (if list_all space_char (drop b s) then None
    else Some (b + length (takeWhile space_char (drop b s))))"
  using assms
proof (induction s b rule: skip_spaces.induct)
  case (1 s b)
  show ?case
  proof (cases "b < length s")
    case True
    have sp: "drop b s = s ! b # drop (b + 1) s" using Cons_nth_drop_Suc [OF True] by simp
    then have asc: "ascii_char (s ! b)" "list_all ascii_char (drop (b + 1) s)" using "1.prems"(2) by simp_all
    show ?thesis
      using True asc "1.prems" "1.IH" [of "s ! b" True]
      by (subst skip_spaces.simps) (auto simp: sp)
  qed (use "1.prems" in \<open>subst skip_spaces.simps; simp\<close>)
qed

section \<open>Groups of digits\<close>

definition is_utype :: "itype \<Rightarrow> bool" where
  "is_utype U \<longleftrightarrow> is_itype U \<and> \<not> it_signed U"

lemma utype_facts:
  assumes "is_utype U"
  shows "is_itype U" "it_min U = 0" "it_max U = 2 ^ it_bits U - 1" "in_type U x \<longleftrightarrow> 0 \<le> x \<and> x \<le> it_max U"
  using assms by (auto simp: is_utype_def it_min_def it_max_def in_type_def)

text \<open>An unsigned operation is defined if it does not overflow the \<open>int\<close> a small type is promoted to.\<close>

lemma arith_defined:
  assumes "is_utype U" "0 \<le> x" "it_bits U < 32 \<Longrightarrow> x < 2 ^ 31"
  obtains y where "arith (promoted U) x = Inr y" "0 \<le> y" "it_bits U < 32 \<Longrightarrow> y = x" "x \<le> it_max U \<Longrightarrow> y = x"
proof (cases "it_bits U < 32")
  case True
  then have "arith (promoted U) x = Inr x"
    using assms(2,3) by (intro arith_Inr) (simp add: promoted_def int_type_def in_type_def it_min_def it_max_def)
  then show ?thesis using that assms(2) by blast
next
  case False
  then have p: "promoted U = U" by (simp add: promoted_def)
  show ?thesis
  proof (cases "x \<le> it_max U")
    case True
    then show ?thesis using that [of x] False assms(1,2) by (simp add: p arith_Inr utype_facts)
  next
    case f: False
    then show ?thesis using that [of "x mod 2 ^ it_bits U"] False assms(1)
      by (simp add: p arith_def utype_facts is_utype_def)
  qed
qed

lemma conv_bounds: "is_utype U \<Longrightarrow> 0 \<le> conv U x \<and> conv U x \<le> it_max U"
  using pos_mod_bound [of "2 ^ it_bits U" x] by (simp add: conv_def is_utype_def it_max_def)

lemma conv_le: "is_utype U \<Longrightarrow> 0 \<le> x \<Longrightarrow> conv U x \<le> x"
  by (simp add: conv_def is_utype_def zmod_le_nonneg_dividend)

lemma conv_utype: "is_utype U \<Longrightarrow> 0 \<le> x \<Longrightarrow> x \<le> it_max U \<Longrightarrow> conv U x = x"
  by (rule conv_itype) (simp_all add: utype_facts)

lemma small_max: "is_utype U \<Longrightarrow> it_bits U < 32 \<Longrightarrow> it_max U \<le> 65535"
  by (auto simp: is_utype_def is_itype_def it_max_def)

lemma mul_defined:
  assumes "is_utype U" "0 \<le> a" "a \<le> it_max U" "0 \<le> k" "k \<le> 10000"
  obtains m where "mul_op U k a = Inr m" "mul_op U a k = Inr m" "0 \<le> m" "it_bits U < 32 \<Longrightarrow> m \<le> 655350000"
    "a * k \<le> it_max U \<Longrightarrow> m = a * k"
proof -
  have small: "a * k \<le> 655350000" if "it_bits U < 32"
    using mult_mono [of a 65535 k 10000] small_max [OF assms(1) that] assms by simp
  then have "it_bits U < 32 \<Longrightarrow> a * k < 2 ^ 31" by fastforce
  moreover have "0 \<le> a * k" using assms by simp
  ultimately obtain m where "arith (promoted U) (a * k) = Inr m" "0 \<le> m" "it_bits U < 32 \<Longrightarrow> m = a * k"
    "a * k \<le> it_max U \<Longrightarrow> m = a * k" using arith_defined [OF assms(1)] by metis
  then show ?thesis using that [of m] small by (simp add: mul_op_def mult.commute)
qed

lemma add_defined:
  assumes "is_utype U" "0 \<le> a" "it_bits U < 32 \<Longrightarrow> a \<le> 655350000" "0 \<le> b" "b \<le> 10000"
  obtains x where "add_op U a b = Inr x" "0 \<le> x" "a + b \<le> it_max U \<Longrightarrow> x = a + b"
proof -
  have "it_bits U < 32 \<Longrightarrow> a + b < 2 ^ 31" using assms by simp
  moreover have "0 \<le> a + b" using assms by simp
  ultimately obtain x where "arith (promoted U) (a + b) = Inr x" "0 \<le> x" "a + b \<le> it_max U \<Longrightarrow> x = a + b"
    using arith_defined [OF assms(1)] by metis
  then show ?thesis using that [of x] by (simp add: add_op_def)
qed

text \<open>The loop together with the rest.\<close>

definition digits_run :: "itype \<Rightarrow> u8 list \<Rightarrow> nat \<Rightarrow> nat \<Rightarrow> int \<Rightarrow> int option result" where
  "digits_run U s b e r = andthen (digits_loop U s b e r) (\<lambda>q. case q of
     None \<Rightarrow> Inr None | Some (r', b') \<Rightarrow> digits_tail U s b' e r')"

lemma tail_add_ok:
  assumes "is_utype U" "0 \<le> r" "r \<le> it_max U" "0 \<le> k" "k \<le> 10000" "0 \<le> sm"
  shows "sm \<ge> OOR \<Longrightarrow> digits_tail_add U k r sm = Inr None"
    "sm < OOR \<Longrightarrow> r * k + sm \<le> it_max U \<Longrightarrow> digits_tail_add U k r sm = Inr (Some (r * k + sm))"
proof -
  show "sm \<ge> OOR \<Longrightarrow> digits_tail_add U k r sm = Inr None" by (simp add: digits_tail_add_def)
  assume sm: "sm < OOR" "r * k + sm \<le> it_max U"
  obtain m where m: "mul_op U k r = Inr m" "0 \<le> m" "it_bits U < 32 \<Longrightarrow> m \<le> 655350000"
    "r * k \<le> it_max U \<Longrightarrow> m = r * k" using mul_defined [OF assms(1-5)] by metis
  have mk: "m = r * k" using m(4) sm(2) assms(6) by simp
  obtain x where x: "add_op U m sm = Inr x" "m + sm \<le> it_max U \<Longrightarrow> x = m + sm"
    using add_defined [OF assms(1) m(2,3) assms(6)] sm(1) by (metis OOR_def less_imp_le)
  have "x = r * k + sm" using x(2) mk sm(2) by simp
  moreover have "0 \<le> r * k + sm" using assms by simp
  ultimately show "digits_tail_add U k r sm = Inr (Some (r * k + sm))"
    using sm m(1) x(1) by (simp add: digits_tail_add_def conv_utype [OF assms(1)])
qed

lemma three_cases: "(n :: nat) < 4 \<Longrightarrow> n = 0 \<or> n = 1 \<or> n = 2 \<or> n = 3"
  by linarith

lemma dec_value_int: "digit_char c \<Longrightarrow> int (unat c - 48) = uint c - 48"
  by (simp add: digit_char_unat of_nat_diff)

lemma tail_digits:
  assumes "is_utype U" "b \<le> e" "e \<le> length s" "e - b < 4" "list_all digit_char (span s b e)"
    "0 \<le> r" "r * 10 ^ (e - b) + int (dec_value (span s b e)) \<le> it_max U"
  shows "digits_tail U s b e r = Inr (Some (r * 10 ^ (e - b) + int (dec_value (span s b e))))"
proof -
  have "r * 1 \<le> r * 10 ^ (e - b)" using assms(6) by (intro mult_left_mono) auto
  then have r: "r \<le> it_max U" using assms(7) by simp
  consider "e - b = 0" | "e - b = 1" | "e - b = 2" | "e - b = 3" using three_cases [OF assms(4)] by (elim disjE) simp_all
  then show ?thesis
  proof cases
    case 1
    then have "b = e" using assms(2) by simp
    then show ?thesis by (simp add: digits_tail_def)
  next
    case 2
    then have e: "e = Suc b" using assms(2) by simp
    have sp: "span s b e = [s ! b]" using e assms(3) by (simp add: span_Cons)
    have d: "digit_char (s ! b)" using assms(5) unfolding sp by simp
    then show ?thesis using assms(1,3,6,7) r e digit_ascii [OF d] tail_add_ok [OF assms(1,6) r, of 10]
      unfolding sp by (simp add: digits_tail_def shift_at_ok shift_value_bounds(2) dec_value_Cons dec_value_int [OF d] digit_uint OOR_def)
  next
    case 3
    then have e: "e = Suc (Suc b)" using assms(2) by simp
    have sp: "span s b e = [s ! b, s ! Suc b]" using e assms(3) by (simp add: span_Cons)
    have d: "digit_char (s ! b)" "digit_char (s ! Suc b)" using assms(5) unfolding sp by simp_all
    then show ?thesis using assms(1,3,6,7) r e digit_ascii [OF d(1)] digit_ascii [OF d(2)] tail_add_ok [OF assms(1,6) r, of 100]
      unfolding sp by (simp add: digits_tail_def shift_at_ok shift_value_bounds(2) dec_value_Cons dec_value_int [OF d(1)] dec_value_int [OF d(2)] digit_uint OOR_def)
  next
    case 4
    then have e: "e = Suc (Suc (Suc b))" using assms(2) by simp
    have sp: "span s b e = [s ! b, s ! Suc b, s ! Suc (Suc b)]" using e assms(3) by (simp add: span_Cons)
    have d: "digit_char (s ! b)" "digit_char (s ! Suc b)" "digit_char (s ! Suc (Suc b))" using assms(5) unfolding sp by simp_all
    then show ?thesis using assms(1,3,6,7) r e digit_ascii [OF d(1)] digit_ascii [OF d(2)] digit_ascii [OF d(3)] tail_add_ok [OF assms(1,6) r, of 1000]
      unfolding sp by (simp add: digits_tail_def shift_at_ok shift_value_bounds(2) dec_value_Cons
        dec_value_int [OF d(1)] dec_value_int [OF d(2)] dec_value_int [OF d(3)] digit_uint OOR_def)
  qed
qed

text \<open>Characters that are not digits are noticed, whatever the number so far.\<close>

lemma shift_sum:
  "0 \<le> shift_value k c" "\<not> digit_char c \<Longrightarrow> shift_value k c = OOR" if "k \<in> {1, 10, 100, 1000}" for k c
  using shift_value_bounds(1) [of k c] shift_value_bounds(3) that by auto

lemma tail_bad:
  assumes "is_utype U" "b \<le> e" "e \<le> length s" "e - b < 4" "list_all ascii_char (span s b e)"
    "\<not> list_all digit_char (span s b e)" "0 \<le> r" "r \<le> it_max U"
  shows "digits_tail U s b e r = Inr None"
proof -
  note tb = tail_add_ok(1) [OF assms(1,7,8)]
  consider "e - b = 0" | "e - b = 1" | "e - b = 2" | "e - b = 3" using three_cases [OF assms(4)] by (elim disjE) simp_all
  then show ?thesis
  proof cases
    case 1
    then show ?thesis using assms(2,6) by simp
  next
    case 2
    then have e: "e = Suc b" using assms(2) by simp
    have sp: "span s b e = [s ! b]" using e assms(3) by (simp add: span_Cons)
    have d: "ascii_char (s ! b)" "\<not> digit_char (s ! b)" using assms(5,6) unfolding sp by simp_all
    then have "shift_value 1 (s ! b) \<ge> OOR" by (simp add: shift_sum(2))
    then show ?thesis using d(1) e assms(3) tb [of 10] by (simp add: digits_tail_def shift_at_ok shift_sum(1))
  next
    case 3
    then have e: "e = Suc (Suc b)" using assms(2) by simp
    have sp: "span s b e = [s ! b, s ! Suc b]" using e assms(3) by (simp add: span_Cons)
    have d: "ascii_char (s ! b)" "ascii_char (s ! Suc b)" "\<not> digit_char (s ! b) \<or> \<not> digit_char (s ! Suc b)"
      using assms(5,6) unfolding sp by auto
    have "shift_value 10 (s ! b) + shift_value 1 (s ! Suc b) \<ge> OOR"
      using d(3) shift_sum [of 10 "s ! b"] shift_sum [of 1 "s ! Suc b"] by auto
    then show ?thesis using d(1,2) e assms(3) tb [of 100]
      by (simp add: digits_tail_def shift_at_ok shift_sum(1))
  next
    case 4
    then have e: "e = Suc (Suc (Suc b))" using assms(2) by simp
    have sp: "span s b e = [s ! b, s ! Suc b, s ! Suc (Suc b)]" using e assms(3) by (simp add: span_Cons)
    have d: "ascii_char (s ! b)" "ascii_char (s ! Suc b)" "ascii_char (s ! Suc (Suc b))"
      "\<not> digit_char (s ! b) \<or> \<not> digit_char (s ! Suc b) \<or> \<not> digit_char (s ! Suc (Suc b))"
      using assms(5,6) unfolding sp by auto
    have "shift_value 100 (s ! b) + shift_value 10 (s ! Suc b) + shift_value 1 (s ! Suc (Suc b)) \<ge> OOR"
      using d(4) shift_sum [of 100 "s ! b"] shift_sum [of 10 "s ! Suc b"] shift_sum [of 1 "s ! Suc (Suc b)"] by auto
    then show ?thesis using d(1-3) e assms(3) tb [of 1000]
      by (simp add: digits_tail_def shift_at_ok shift_sum(1))
  qed
qed

lemma span_four:
  assumes "4 \<le> e - b" "e \<le> length s"
  shows "span s b e = [s ! b, s ! (b + 1), s ! (b + 2), s ! (b + 3)] @ span s (b + 4) e"
proof -
  have "b < e" "Suc b < e" "Suc (Suc b) < e" "Suc (Suc (Suc b)) < e" using assms(1) by simp_all
  then show ?thesis using assms(2) by (simp add: span_Cons numeral_eq_Suc)
qed

lemma four_sum:
  assumes "digit_char c0" "digit_char c1" "digit_char c2" "digit_char c3"
  shows "shift_value 1000 c0 + shift_value 100 c1 + shift_value 10 c2 + shift_value 1 c3 = int (dec_value [c0, c1, c2, c3])"
  by (simp add: shift_value_bounds(2) dec_value_Cons assms dec_value_int [OF assms(1)] dec_value_int [OF assms(2)]
      dec_value_int [OF assms(3)] dec_value_int [OF assms(4)])

lemma loop_step:
  assumes "is_utype U" "4 \<le> e - b" "e \<le> length s" "0 \<le> r" "r \<le> it_max U"
    "list_all ascii_char [s ! b, s ! (b + 1), s ! (b + 2), s ! (b + 3)]"
  shows "\<not> list_all digit_char [s ! b, s ! (b + 1), s ! (b + 2), s ! (b + 3)] \<Longrightarrow> digits_loop U s b e r = Inr None"
    "list_all digit_char [s ! b, s ! (b + 1), s ! (b + 2), s ! (b + 3)] \<Longrightarrow>
     \<exists>r'. digits_loop U s b e r = digits_loop U s (b + 4) e r' \<and> 0 \<le> r' \<and> r' \<le> it_max U \<and>
       (it_bits U \<noteq> 8 \<longrightarrow> r * 10000 + int (dec_value [s ! b, s ! (b + 1), s ! (b + 2), s ! (b + 3)]) \<le> it_max U \<longrightarrow>
        r' = r * 10000 + int (dec_value [s ! b, s ! (b + 1), s ! (b + 2), s ! (b + 3)]))"
proof -
  define q where "q = shift_value 1000 (s ! b) + shift_value 100 (s ! (b + 1)) + shift_value 10 (s ! (b + 2)) + shift_value 1 (s ! (b + 3))"
  have b: "b < length s" "b + 1 < length s" "b + 2 < length s" "b + 3 < length s" using assms(2,3) by simp_all
  have asc: "ascii_char (s ! b)" "ascii_char (s ! (b + 1))" "ascii_char (s ! (b + 2))" "ascii_char (s ! (b + 3))"
    using assms(6) by simp_all
  have "0 \<le> conv U 10000" "conv U 10000 \<le> 10000" using conv_bounds [OF assms(1)] conv_le [OF assms(1)] by auto
  then obtain m where m: "mul_op U r (conv U 10000) = Inr m" "0 \<le> m" "r * conv U 10000 \<le> it_max U \<Longrightarrow> m = r * conv U 10000"
    using mul_defined [OF assms(1,4,5)] by metis
  have unfold: "digits_loop U s b e r = (if q \<ge> OOR then Inr None
      else andthen (add_op U (conv U m) (conv U q)) (\<lambda>x. digits_loop U s (b + 4) e (conv U x)))"
    using assms(2) m(1) by (subst digits_loop.simps) (simp only: shift_at_ok [OF b(1) asc(1)] shift_at_ok [OF b(2) asc(2)]
      shift_at_ok [OF b(3) asc(3)] shift_at_ok [OF b(4) asc(4)] andthen_Inr q_def if_True)
  note sv = shift_sum [of 1000 "s ! b"] shift_sum [of 100 "s ! (b + 1)"] shift_sum [of 10 "s ! (b + 2)"] shift_sum [of 1 "s ! (b + 3)"]
  { assume "\<not> list_all digit_char [s ! b, s ! (b + 1), s ! (b + 2), s ! (b + 3)]"
    then have "q \<ge> OOR" unfolding q_def using sv by auto
    then show "digits_loop U s b e r = Inr None" unfolding unfold by simp }
  assume d: "list_all digit_char [s ! b, s ! (b + 1), s ! (b + 2), s ! (b + 3)]"
  then have dd: "digit_char (s ! b)" "digit_char (s ! (b + 1))" "digit_char (s ! (b + 2))" "digit_char (s ! (b + 3))" by simp_all
  have q: "q = int (dec_value [s ! b, s ! (b + 1), s ! (b + 2), s ! (b + 3)])"
    unfolding q_def by (rule four_sum [OF dd])
  have q4: "q < OOR" "0 \<le> q" using dec_value_less [OF d] unfolding q OOR_def by simp_all
  have cq: "0 \<le> conv U q" "conv U q \<le> 10000" "0 \<le> conv U m" "it_bits U < 32 \<Longrightarrow> conv U m \<le> 655350000"
    using conv_bounds [OF assms(1), of q] conv_bounds [OF assms(1), of m] conv_le [OF assms(1) q4(2)] q4(1) small_max [OF assms(1)]
    by (auto simp: OOR_def)
  then obtain x where x: "add_op U (conv U m) (conv U q) = Inr x" "conv U m + conv U q \<le> it_max U \<Longrightarrow> x = conv U m + conv U q"
    using add_defined [OF assms(1)] by metis
  have "conv U x = r * 10000 + q" if "it_bits U \<noteq> 8" "r * 10000 + q \<le> it_max U"
  proof -
    have "10000 \<le> it_max U" using that(1) assms(1) by (auto simp: is_utype_def is_itype_def it_max_def)
    then have "conv U 10000 = 10000" by (simp add: conv_utype [OF assms(1)])
    then have "m = r * 10000" using m(3) that(2) q4(2) by simp
    moreover have "q \<le> it_max U" "r * 10000 \<le> it_max U" "0 \<le> r * 10000" using that(2) q4(2) assms(4) by simp_all
    ultimately show ?thesis using x(2) that(2) q4(2) assms(1,4) by (simp add: conv_utype)
  qed
  then show "\<exists>r'. digits_loop U s b e r = digits_loop U s (b + 4) e r' \<and> 0 \<le> r' \<and> r' \<le> it_max U \<and>
       (it_bits U \<noteq> 8 \<longrightarrow> r * 10000 + int (dec_value [s ! b, s ! (b + 1), s ! (b + 2), s ! (b + 3)]) \<le> it_max U \<longrightarrow>
        r' = r * 10000 + int (dec_value [s ! b, s ! (b + 1), s ! (b + 2), s ! (b + 3)]))"
    using unfold q4(1) x(1) conv_bounds [OF assms(1), of x] unfolding q [symmetric] by (intro exI [of _ "conv U x"]) simp
qed

lemma run_step:
  assumes "digits_loop U s b e r = digits_loop U s b' e r'"
  shows "digits_run U s b e r = digits_run U s b' e r'"
  by (simp add: digits_run_def assms)

lemma run_short: "e - b < 4 \<Longrightarrow> digits_run U s b e r = digits_tail U s b e r"
  by (simp add: digits_run_def digits_loop.simps)

lemma run_digits:
  assumes "is_utype U" "e \<le> length s"
  shows "b \<le> e \<Longrightarrow> list_all digit_char (span s b e) \<Longrightarrow> 0 \<le> r \<Longrightarrow>
    r * 10 ^ (e - b) + int (dec_value (span s b e)) \<le> it_max U \<Longrightarrow> (it_bits U = 8 \<Longrightarrow> e - b \<le> 3) \<Longrightarrow>
    digits_run U s b e r = Inr (Some (r * 10 ^ (e - b) + int (dec_value (span s b e))))"
proof (induction "e - b" arbitrary: b r rule: less_induct)
  case less
  have r0: "r * 1 \<le> r * 10 ^ (e - b)" using less.prems(3) by (intro mult_left_mono) auto
  then have r: "r \<le> it_max U" using less.prems(4) by simp
  show ?case
  proof (cases "4 \<le> e - b")
    case False
    then show ?thesis using tail_digits [OF assms(1) less.prems(1) assms(2) _ less.prems(2-4)] by (simp add: run_short)
  next
    case True
    define four where "four = [s ! b, s ! (b + 1), s ! (b + 2), s ! (b + 3)]"
    have sp: "span s b e = four @ span s (b + 4) e" using span_four [OF True assms(2)] by (simp add: four_def)
    have d: "list_all digit_char four" "list_all digit_char (span s (b + 4) e)" using less.prems(2) unfolding sp by simp_all
    have a: "list_all ascii_char four" using d(1) by (auto simp: list_all_iff digit_ascii)
    have e: "e - b = 4 + (e - (b + 4))" using True by simp
    have dec: "dec_value (span s b e) = dec_value four * 10 ^ (e - (b + 4)) + dec_value (span s (b + 4) e)"
      unfolding sp dec_value_append length_span [OF assms(2)] ..
    have total: "r * 10 ^ (e - b) + int (dec_value (span s b e)) =
        (r * 10000 + int (dec_value four)) * 10 ^ (e - (b + 4)) + int (dec_value (span s (b + 4) e))"
      unfolding dec e by (simp add: power_add algebra_simps)
    have "(r * 10000 + int (dec_value four)) * 1 \<le> (r * 10000 + int (dec_value four)) * 10 ^ (e - (b + 4))"
      using less.prems(3) by (intro mult_left_mono) auto
    then have le: "r * 10000 + int (dec_value four) \<le> it_max U" using less.prems(4) unfolding total by simp
    have n8: "it_bits U \<noteq> 8" using less.prems(5) True by auto
    obtain r' where r': "digits_loop U s b e r = digits_loop U s (b + 4) e r'" "r' = r * 10000 + int (dec_value four)"
      using loop_step(2) [OF assms(1) True assms(2) less.prems(3) r a [unfolded four_def] d(1) [unfolded four_def]] n8 le
      unfolding four_def [symmetric] by blast
    have "digits_run U s (b + 4) e r' = Inr (Some (r' * 10 ^ (e - (b + 4)) + int (dec_value (span s (b + 4) e))))"
      using less.prems True d(2) n8 unfolding total r'(2) [symmetric] by (intro less.hyps) (auto simp: r'(2))
    then show ?thesis unfolding run_step [OF r'(1)] total r'(2) .
  qed
qed

lemma run_bad:
  assumes "is_utype U" "e \<le> length s"
  shows "b \<le> e \<Longrightarrow> list_all ascii_char (span s b e) \<Longrightarrow> \<not> list_all digit_char (span s b e) \<Longrightarrow> 0 \<le> r \<Longrightarrow> r \<le> it_max U \<Longrightarrow>
    digits_run U s b e r = Inr None"
proof (induction "e - b" arbitrary: b r rule: less_induct)
  case less
  show ?case
  proof (cases "4 \<le> e - b")
    case False
    then show ?thesis using tail_bad [OF assms(1) less.prems(1) assms(2) _ less.prems(2-5)] by (simp add: run_short)
  next
    case True
    define four where "four = [s ! b, s ! (b + 1), s ! (b + 2), s ! (b + 3)]"
    have sp: "span s b e = four @ span s (b + 4) e" using span_four [OF True assms(2)] by (simp add: four_def)
    have a: "list_all ascii_char four" "list_all ascii_char (span s (b + 4) e)" using less.prems(2) unfolding sp by simp_all
    note step = loop_step [OF assms(1) True assms(2) less.prems(4,5) a(1) [unfolded four_def], folded four_def]
    show ?thesis
    proof (cases "list_all digit_char four")
      case False
      then show ?thesis using step(1) by (simp add: digits_run_def)
    next
      case d: True
      then obtain r' where r': "digits_loop U s b e r = digits_loop U s (b + 4) e r'" "0 \<le> r'" "r' \<le> it_max U"
        using step(2) by blast
      have "digits_run U s (b + 4) e r' = Inr None"
        using less.prems True d r' a(2) unfolding sp by (intro less.hyps) auto
      then show ?thesis unfolding run_step [OF r'(1)] .
    qed
  qed
qed

end
