(* ===== verification/Folly_Conv_Props.thy ===== *)
theory Folly_Conv_Props
  imports Folly_Conv_Parse
begin

text \<open>Parsing against its reference, and the round trip of integers through text.\<close>

section \<open>The overflow check\<close>

lemma strncmp_defined:
  "b + n \<le> length s \<Longrightarrow> i + n \<le> length v \<Longrightarrow> \<exists>r. strncmp s b v i n = Inr r"
  by (induction s b v i n rule: strncmp.induct) auto

lemma digit_less:
  assumes "digit_char x" "digit_char y" "x < y" "list_all digit_char xs" "list_all digit_char ys" "length xs = length ys"
  shows "dec_value (x # xs) < dec_value (y # ys)"
proof -
  have "unat x < unat y" using assms(3) by (simp add: word_less_nat_alt)
  then have "Suc (unat x - 48) \<le> unat y - 48" using assms(1,2) by (simp add: digit_char_unat)
  then have "Suc (unat x - 48) * 10 ^ length xs \<le> (unat y - 48) * 10 ^ length xs" by (rule mult_le_mono1)
  then show ?thesis using dec_value_less [OF assms(4)] by (simp add: dec_value_Cons assms(6))
qed

lemma strncmp_digits:
  assumes "b + n \<le> length s" "i + n \<le> length v" "list_all digit_char (span s b (b + n))" "list_all digit_char (span v i (i + n))"
  shows "\<exists>r. strncmp s b v i n = Inr r \<and> (0 < r \<longleftrightarrow> dec_value (span v i (i + n)) < dec_value (span s b (b + n)))"
  using assms
proof (induction n arbitrary: b i)
  case (Suc n)
  have sp: "span s b (b + Suc n) = s ! b # span s (Suc b) (Suc b + n)" "span v i (i + Suc n) = v ! i # span v (Suc i) (Suc i + n)"
    using Suc.prems(1,2) by (simp_all add: span_Cons)
  have d: "digit_char (s ! b)" "digit_char (v ! i)" "list_all digit_char (span s (Suc b) (Suc b + n))"
    "list_all digit_char (span v (Suc i) (Suc i + n))" using Suc.prems(3,4) unfolding sp by simp_all
  have len: "length (span s (Suc b) (Suc b + n)) = n" "length (span v (Suc i) (Suc i + n)) = n"
    using Suc.prems(1,2) by (simp_all add: length_span)
  have step: "strncmp s b v i (Suc n) = (if s ! b \<noteq> v ! i then Inr (if s ! b < v ! i then -1 else 1)
      else if s ! b = 0 then Inr 0 else strncmp s (Suc b) v (Suc i) n)" using Suc.prems(1,2) by simp
  consider "s ! b < v ! i" | "v ! i < s ! b" | "s ! b = v ! i" by (rule linorder_cases)
  then show ?case
  proof cases
    case 1
    then have "dec_value (span s b (b + Suc n)) < dec_value (span v i (i + Suc n))"
      unfolding sp using d len by (intro digit_less) simp_all
    then show ?thesis using 1 unfolding step by auto
  next
    case 2
    then have "dec_value (span v i (i + Suc n)) < dec_value (span s b (b + Suc n))"
      unfolding sp using d len by (intro digit_less) simp_all
    then show ?thesis using 2 unfolding step by auto
  next
    case 3
    have "s ! b \<noteq> 0" using d(1) by (auto simp: digit_char_unat)
    then have "strncmp s b v i (Suc n) = strncmp s (Suc b) v (Suc i) n" unfolding step using 3 by simp
    moreover have "\<exists>r. strncmp s (Suc b) v (Suc i) n = Inr r \<and>
        (0 < r \<longleftrightarrow> dec_value (span v (Suc i) (Suc i + n)) < dec_value (span s (Suc b) (Suc b + n)))"
      using Suc.prems(1,2) d(3,4) by (intro Suc.IH) simp_all
    ultimately show ?thesis using 3 len unfolding sp dec_value_Cons by auto
  qed
qed simp

declare strncmp.simps(2) [simp del]

lemma MaxString_facts:
  assumes "is_utype U"
  shows "length (MaxString U) = limits_digits10 U + 1" "list_all digit_char (MaxString U)"
    "int (dec_value (MaxString U)) = it_max U" "10 ^ limits_digits10 U \<le> it_max U" "it_max U < 10 ^ (limits_digits10 U + 1)"
  using assms by (auto simp: is_utype_def is_itype_def MaxString_def limits_digits10_def it_max_def ascii_def digit_char_def
      dec_value_def)

lemma dec_value_ge:
  assumes "list_all digit_char ds" "ds \<noteq> []" "hd ds \<noteq> 0x30"
  shows "10 ^ (length ds - 1) \<le> dec_value ds"
proof -
  obtain c cs where ds: "ds = c # cs" using assms(2) by (cases ds) auto
  have "unat c \<noteq> 48" using assms(3) by (auto simp: ds word_unat_eq_iff)
  then have "1 \<le> unat c - 48" using assms(1) by (auto simp: ds digit_char_unat)
  then have "1 * 10 ^ length cs \<le> (unat c - 48) * 10 ^ length cs" by (rule mult_le_mono1)
  then have "10 ^ length cs \<le> (unat c - 48) * 10 ^ length cs" by (simp only: mult_1)
  then have "10 ^ length cs \<le> dec_value ds" unfolding ds dec_value_Cons by linarith
  then show ?thesis by (simp add: ds)
qed

lemma digits_check_digits:
  assumes "is_utype U" "b \<le> e" "e \<le> length s" "list_all digit_char (span s b e)"
    "e - b \<le> limits_digits10 U \<or> s ! b \<noteq> 0x30"
  shows "digits_check U s b (e - b) = Inr (it_max U < int (dec_value (span s b e)))"
proof -
  note M = MaxString_facts [OF assms(1)]
  have less: "dec_value (span s b e) < 10 ^ (e - b)" using dec_value_less [OF assms(4)] by (simp add: length_span [OF assms(3)])
  consider "e - b \<le> limits_digits10 U" | "e - b = limits_digits10 U + 1" | "e - b > limits_digits10 U + 1" by linarith
  then show ?thesis
  proof cases
    case 1
    have "int (dec_value (span s b e)) < int (10 ^ (e - b))" using less by (simp only: of_nat_less_iff)
    then have "int (dec_value (span s b e)) < 10 ^ (e - b)" by simp
    also have "(10::int) ^ (e - b) \<le> 10 ^ limits_digits10 U" by (rule power_increasing) (use 1 in auto)
    finally have "\<not> it_max U < int (dec_value (span s b e))" using M(4) by linarith
    then show ?thesis using 1 by (simp add: digits_check_def)
  next
    case 2
    have e: "e = b + (e - b)" using assms(2) by simp
    have v: "span (MaxString U @ [0]) 0 (0 + (e - b)) = MaxString U" using 2 M(1) by (simp add: span_def)
    have se: "span s b (b + (e - b)) = span s b e" using assms(2) by simp
    obtain r where r: "strncmp s b (MaxString U @ [0]) 0 (e - b) = Inr r"
      "0 < r \<longleftrightarrow> dec_value (MaxString U) < dec_value (span s b e)"
    proof -
      have "b + (e - b) \<le> length s" "0 + (e - b) \<le> length (MaxString U @ [0])" using assms(2,3) M(1) 2 by simp_all
      then show ?thesis using strncmp_digits [of b "e - b" s 0 "MaxString U @ [0]"] M(2) assms(4) that unfolding v se by blast
    qed
    show ?thesis using 2 r by (simp add: digits_check_def flip: M(3))
  next
    case 3
    then have "span s b e = s ! b # span s (Suc b) e" using assms(3) by (intro span_Cons) simp_all
    then have "10 ^ (e - b - 1) \<le> dec_value (span s b e)"
      using dec_value_ge [OF assms(4)] assms(5) 3 by (simp add: length_span [OF assms(3)])
    then have "int (10 ^ (e - b - 1)) \<le> int (dec_value (span s b e))" by (simp only: of_nat_le_iff)
    then have "(10::int) ^ (e - b - 1) \<le> int (dec_value (span s b e))" by simp
    moreover have "(10::int) ^ (limits_digits10 U + 1) \<le> 10 ^ (e - b - 1)" by (rule power_increasing) (use 3 in auto)
    ultimately have "it_max U < int (dec_value (span s b e))" using M(5) by linarith
    then show ?thesis using 3 by (simp add: digits_check_def)
  qed
qed

lemma digits_check_defined:
  assumes "is_utype U" "b \<le> e" "e \<le> length s"
  obtains x where "digits_check U s b (e - b) = Inr x"
proof (cases "e - b = limits_digits10 U + 1")
  case True
  then have "b + (e - b) \<le> length s" "0 + (e - b) \<le> length (MaxString U @ [0])"
    using assms MaxString_facts(1) [OF assms(1)] by simp_all
  then obtain r where "strncmp s b (MaxString U @ [0]) 0 (e - b) = Inr r" using strncmp_defined by blast
  then have "digits_check U s b (e - b) = Inr (0 < r)" using True by (simp add: digits_check_def del: strncmp.simps)
  then show ?thesis by (rule that)
next
  case False
  then show ?thesis by (intro that [of "e - b > limits_digits10 U"]) (simp add: digits_check_def)
qed

section \<open>Digits to unsigned integers\<close>

lemma parse_run:
  assumes "b \<le> e"
  shows "digits_parse T U neg s b e (e - b) =
    (if b = e then Inr (Inl NO_DIGITS)
     else andthen (digits_run U s b e 0) (\<lambda>r. case r of
       None \<Rightarrow> Inr (Inl NON_DIGIT_CHAR) | Some x \<Rightarrow> sgn_finalize T U neg x))"
proof (cases "b = e")
  case True
  then show ?thesis by (simp add: digits_parse_def digits_loop.simps)
next
  case False
  then have "e - b \<noteq> 0" using assms by simp
  then show ?thesis using False
    by (cases "digits_loop U s b e 0") (auto simp: digits_parse_def digits_run_def split: option.splits)
qed

lemma utype_simps [simp]:
  assumes "is_utype U"
  shows "unsigned_of U = U" "sgn_init U s b = Inr (SUCCESS, False, b)" "sgn_finalize U U' neg x = Inr (Inr x)"
    "sgn_overflow U neg = POSITIVE_OVERFLOW"
  using assms by (simp_all add: is_utype_def unsigned_of_def sgn_init_def sgn_finalize_def sgn_overflow_def)

text \<open>What follows the test for leading zeros.\<close>

definition checked_parse :: "itype \<Rightarrow> u8 list \<Rightarrow> nat \<Rightarrow> nat \<Rightarrow> int expected result" where
  "checked_parse U s b e = andthen (digits_check U s b (e - b)) (\<lambda>over.
     if over then Inr (Inl POSITIVE_OVERFLOW) else digits_parse U U False s b e (e - b))"

lemma checked_parse_digits:
  assumes "is_utype U" "b \<le> e" "e \<le> length s" "list_all digit_char (span s b e)"
    "e - b \<le> limits_digits10 U \<or> s ! b \<noteq> 0x30"
  shows "checked_parse U s b e = Inr (if b = e then Inl NO_DIGITS
    else if int (dec_value (span s b e)) \<le> it_max U then Inr (int (dec_value (span s b e))) else Inl POSITIVE_OVERFLOW)"
proof (cases "int (dec_value (span s b e)) \<le> it_max U")
  case True
  have l8: "e - b \<le> 3" if "it_bits U = 8" and ne: "b \<noteq> e"
  proof (rule ccontr)
    assume n: "\<not> e - b \<le> 3"
    have l2: "limits_digits10 U = 2" by (simp add: limits_digits10_def that)
    have "span s b e \<noteq> []" "hd (span s b e) \<noteq> 0x30"
      using span_Cons [of b e s] assms(2,3,5) n l2 by auto
    then have "10 ^ (e - b - 1) \<le> dec_value (span s b e)"
      using dec_value_ge [OF assms(4)] by (simp add: length_span [OF assms(3)])
    moreover have "(10::nat) ^ 3 \<le> 10 ^ (e - b - 1)" using n by (intro power_increasing) auto
    moreover have "it_max U = 255" using that assms(1) by (simp add: is_utype_def it_max_def)
    ultimately show False using True by simp
  qed
  show ?thesis
  proof (cases "b = e")
    case eq: True
    then show ?thesis
      unfolding checked_parse_def digits_check_digits [OF assms] parse_run [OF assms(2)] using True by simp
  next
    case False
    have "digits_run U s b e 0 = Inr (Some (int (dec_value (span s b e))))"
      using run_digits [OF assms(1,3,2,4), of 0] l8 [OF _ False] True by simp
    then show ?thesis
      unfolding checked_parse_def digits_check_digits [OF assms] parse_run [OF assms(2)] using assms(1) True False by simp
  qed
next
  case False
  then have "b \<noteq> e" using utype_facts(3) [OF assms(1)] by auto
  then show ?thesis unfolding checked_parse_def digits_check_digits [OF assms] using False by simp
qed

lemma checked_parse_bad:
  assumes "is_utype U" "b \<le> e" "e \<le> length s" "list_all ascii_char (span s b e)" "\<not> list_all digit_char (span s b e)"
  shows "checked_parse U s b e \<in> {Inr (Inl POSITIVE_OVERFLOW), Inr (Inl NON_DIGIT_CHAR)}"
proof -
  obtain x where x: "digits_check U s b (e - b) = Inr x" using digits_check_defined [OF assms(1-3)] .
  have "b \<noteq> e" using assms(5) by auto
  moreover have "0 \<le> it_max U" by (simp add: utype_facts(3) [OF assms(1)])
  ultimately have "digits_parse U U False s b e (e - b) = Inr (Inl NON_DIGIT_CHAR)"
    using run_bad [OF assms(1,3,2,4,5), of 0] assms(2) by (simp add: parse_run)
  then show ?thesis using x by (cases x) (simp_all add: checked_parse_def)
qed

lemma digits_to_unfold:
  assumes "is_utype U" "b \<le> e" "e \<le> length s"
  shows "digits_to U s b e =
    (if limits_digits10 U < e - b \<and> s ! b = 0x30
     then andthen (skip_zeros s (b + 1) e) (\<lambda>z. case z of None \<Rightarrow> Inr (Inr 0) | Some b' \<Rightarrow>
        andthen (digits_check U s b' (ptr_size b' e)) (\<lambda>over.
          if over then Inr (Inl POSITIVE_OVERFLOW) else digits_parse U U False s b' e (ptr_size b' e)))
     else checked_parse U s b e)"
proof (cases "limits_digits10 U < e - b")
  case True
  then have "b < e" "b < length s" using assms(3) by simp_all
  then show ?thesis using True assms by (cases "s ! b = 0x30")
      (simp_all add: digits_to_def ptr_size_def checked_parse_def Let_def cong: if_cong)
next
  case False
  then show ?thesis using assms by (simp add: digits_to_def ptr_size_def checked_parse_def digits_check_def Let_def)
qed


lemma takeWhile_zeros_value:
  "dec_value (takeWhile (\<lambda>c. c = 0x30) ds @ rest) = dec_value rest"
proof (induction ds)
  case (Cons c ds)
  then show ?case by (simp add: dec_value_Cons)
qed simp

text \<open>Leading zeros do not change the value.\<close>

lemma span_split: "b \<le> m \<Longrightarrow> m \<le> e \<Longrightarrow> span s b e = span s b m @ span s m e"
proof -
  assume "b \<le> m" "m \<le> e"
  then have "e - b = (m - b) + (e - m)" "drop m s = drop (m - b) (drop b s)" by simp_all
  then show ?thesis unfolding span_def by (simp add: take_add)
qed

lemma skip_prefix:
  fixes P :: "u8 \<Rightarrow> bool"
  assumes "b \<le> e" "e \<le> length s"
  defines "m \<equiv> b + length (takeWhile P (span s b e))"
  shows "m \<le> e" "span s b m = takeWhile P (span s b e)" "span s m e = dropWhile P (span s b e)"
proof -
  have le: "length (takeWhile P (span s b e)) \<le> e - b"
    using length_takeWhile_le [of P "span s b e"] by (simp add: length_span [OF assms(2)])
  then show me: "m \<le> e" using assms(1) by (simp add: m_def)
  have "span s b e = span s b m @ span s m e" by (rule span_split) (simp_all add: m_def me [unfolded m_def])
  moreover have "length (span s b m) = length (takeWhile P (span s b e))"
    using me assms(2) by (simp add: length_span m_def)
  ultimately show "span s b m = takeWhile P (span s b e)" "span s m e = dropWhile P (span s b e)"
    by (metis append_eq_append_conv takeWhile_dropWhile_id)+
qed

lemma zeros_dropWhile:
  "dec_value (dropWhile (\<lambda>c. c = 0x30) ds) = dec_value ds"
  using takeWhile_zeros_value [of ds "dropWhile (\<lambda>c. c = 0x30) ds"] by simp

lemma digits_to_zeros:
  assumes "is_utype U" "b < e" "e \<le> length s" "limits_digits10 U < e - b" "s ! b = 0x30"
  defines "m \<equiv> b + length (takeWhile (\<lambda>c. c = 0x30) (span s b e))"
  shows "digits_to U s b e = (if list_all (\<lambda>c. c = 0x30) (span s b e) then Inr (Inr 0) else checked_parse U s m e)"
proof -
  have sp: "span s b e = 0x30 # span s (b + 1) e" using span_Cons [OF assms(2,3)] assms(5) by simp
  have m: "m = b + 1 + length (takeWhile (\<lambda>c. c = 0x30) (span s (b + 1) e))" unfolding m_def sp by simp
  have me: "m \<le> e" using skip_prefix(1) [of b e s "\<lambda>c. c = 0x30"] assms(2,3) by (simp add: m_def)
  have ps: "ptr_size m e = e - m" using me by (simp add: ptr_size_def)
  have all: "list_all (\<lambda>c. c = 0x30) (span s b e) \<longleftrightarrow> list_all (\<lambda>c. c = 0x30) (span s (b + 1) e)" unfolding sp by simp
  have "skip_zeros s (b + 1) e = Inr (if list_all (\<lambda>c. c = 0x30) (span s (b + 1) e) then None else Some m)"
    using skip_zeros_ok [of "b + 1" e s] assms(2,3) unfolding m by simp
  then show ?thesis
    using assms(4,5) ps unfolding digits_to_unfold [OF assms(1) less_imp_le [OF assms(2)] assms(3)] all
    by (simp add: checked_parse_def cong: if_cong)
qed

lemma digits_to_digits:
  assumes "is_utype U" "b \<le> e" "e \<le> length s" "list_all digit_char (span s b e)"
  shows "digits_to U s b e = Inr (if b = e then Inl NO_DIGITS
    else if int (dec_value (span s b e)) \<le> it_max U then Inr (int (dec_value (span s b e))) else Inl POSITIVE_OVERFLOW)"
proof (cases "limits_digits10 U < e - b \<and> s ! b = 0x30")
  case False
  then show ?thesis unfolding digits_to_unfold [OF assms(1-3)]
    using checked_parse_digits [OF assms] by auto
next
  case True
  then have be: "b < e" using assms(2) by linarith
  define m where "m = b + length (takeWhile (\<lambda>c. c = 0x30) (span s b e))"
  note sk = skip_prefix [OF assms(2,3), of "\<lambda>c. c = 0x30", folded m_def]
  have to: "digits_to U s b e = (if list_all (\<lambda>c. c = 0x30) (span s b e) then Inr (Inr 0) else checked_parse U s m e)"
    using digits_to_zeros [OF assms(1) be assms(3)] True by (simp add: m_def)
  have val: "dec_value (span s m e) = dec_value (span s b e)" unfolding sk(3) by (rule zeros_dropWhile)
  show ?thesis
  proof (cases "list_all (\<lambda>c. c = 0x30) (span s b e)")
    case all: True
    then have dw: "dropWhile (\<lambda>c. c = 0x30) (span s b e) = []" by (simp add: list_all_iff)
    have "dec_value (span s b e) = 0" using zeros_dropWhile [of "span s b e"] unfolding dw by simp
    then show ?thesis using be to all utype_facts(3) [OF assms(1)] by simp
  next
    case False
    then have ne: "dropWhile (\<lambda>c. c = 0x30) (span s b e) \<noteq> []" by (simp add: list_all_iff)
    then have me: "m < e" unfolding sk(3) [symmetric] using sk(1) by (cases "m = e") auto
    have "s ! m = hd (span s m e)" using span_Cons [OF me assms(3)] by simp
    then have "s ! m \<noteq> 0x30" using hd_dropWhile [OF ne] unfolding sk(3) by simp
    moreover have "list_all digit_char (span s m e)"
      using assms(4) unfolding sk(3) by (auto simp: list_all_iff dest: set_dropWhileD)
    ultimately have "checked_parse U s m e = Inr (if m = e then Inl NO_DIGITS
      else if int (dec_value (span s m e)) \<le> it_max U then Inr (int (dec_value (span s m e))) else Inl POSITIVE_OVERFLOW)"
      using sk(1) by (intro checked_parse_digits [OF assms(1) _ assms(3)]) auto
    then show ?thesis using to False me be val by simp
  qed
qed

lemma digits_to_bad:
  assumes "is_utype U" "b \<le> e" "e \<le> length s" "list_all ascii_char (span s b e)" "\<not> list_all digit_char (span s b e)"
  shows "digits_to U s b e \<in> {Inr (Inl POSITIVE_OVERFLOW), Inr (Inl NON_DIGIT_CHAR)}"
proof (cases "limits_digits10 U < e - b \<and> s ! b = 0x30")
  case False
  then show ?thesis unfolding digits_to_unfold [OF assms(1-3)] using checked_parse_bad [OF assms] by auto
next
  case True
  then have be: "b < e" using assms(2) by linarith
  define m where "m = b + length (takeWhile (\<lambda>c. c = 0x30) (span s b e))"
  note sk = skip_prefix [OF assms(2,3), of "\<lambda>c. c = 0x30", folded m_def]
  have d0: "digit_char 0x30" by (simp add: digit_char_def)
  have na: "\<not> list_all (\<lambda>c. c = 0x30) (span s b e)" using assms(5) d0 unfolding list_all_iff by metis
  then have to: "digits_to U s b e = checked_parse U s m e"
    using digits_to_zeros [OF assms(1) be assms(3)] True by (simp add: m_def)
  have "list_all digit_char (takeWhile (\<lambda>c. c = 0x30) (span s b e))"
    using d0 by (auto simp: list_all_iff dest: set_takeWhileD)
  moreover have "span s b e = takeWhile (\<lambda>c. c = 0x30) (span s b e) @ span s m e" unfolding sk(3) by simp
  ultimately have "\<not> list_all digit_char (span s m e)" using assms(5) by (metis list_all_append)
  moreover have "list_all ascii_char (span s m e)"
    using assms(4) unfolding sk(3) by (auto simp: list_all_iff dest: set_dropWhileD)
  ultimately show ?thesis unfolding to using checked_parse_bad [OF assms(1) sk(1) assms(3)] by blast
qed

section \<open>The reference parser\<close>

definition sign_of :: "itype \<Rightarrow> u8 list \<Rightarrow> bool \<times> u8 list" where
  "sign_of T t = (if it_signed T \<and> t \<noteq> [] \<and> (hd t = 0x2D \<or> hd t = 0x2B) then (hd t = 0x2D, tl t) else (False, t))"

definition parse_integral :: "itype \<Rightarrow> u8 list \<Rightarrow> int expected \<times> u8 list" where
  "parse_integral T s =
     (let t = dropWhile space_char s; (negative, u) = sign_of T t; ds = takeWhile digit_char u;
          v = (if negative then - int (dec_value ds) else int (dec_value ds)) in
      if t = [] then (Inl EMPTY_INPUT_STRING, s)
      else if it_signed T \<and> u = t \<and> \<not> digit_char (hd t) then (Inl INVALID_LEADING_CHAR, s)
      else if u = [] then (Inl NO_DIGITS, s)
      else if ds = [] then (Inl NON_DIGIT_CHAR, s)
      else if in_type T v then (Inr v, drop (length ds) u)
      else (Inl (if negative then NEGATIVE_OVERFLOW else POSITIVE_OVERFLOW), s))"

lemma is_utype_unsigned: "is_itype T \<Longrightarrow> is_utype (unsigned_of T)"
  by (simp add: is_utype_def is_itype_def unsigned_of_def)

lemma unsigned_max: "it_max (unsigned_of T) = 2 ^ it_bits T - 1" "it_bits (unsigned_of T) = it_bits T"
  by (simp_all add: unsigned_of_def it_max_def)

text \<open>The final conversion, for a magnitude that fits the unsigned type.\<close>

lemma conv_cong_mod: "x mod 2 ^ it_bits T = y mod 2 ^ it_bits T \<Longrightarrow> conv T x = conv T y"
  by (simp add: conv_def)

lemma conv_signed_range:
  assumes "is_itype T" "it_signed T" "0 \<le> x" "x < 2 ^ it_bits T"
  shows "conv T x = (if x \<le> it_max T then x else x - 2 ^ it_bits T)"
  using assms by (simp add: conv_def it_max_def Let_def)

lemma neg_mod:
  assumes "is_utype U" "0 \<le> v" "v \<le> it_max U"
  obtains x where "neg_op U v = Inr x" "x mod 2 ^ it_bits U = (- v) mod 2 ^ it_bits U"
proof (cases "it_bits U < 32")
  case True
  then have "in_type (promoted U) (- v)"
    using assms small_max [OF assms(1) True] by (simp add: promoted_def int_type_def in_type_def it_min_def it_max_def)
  then show ?thesis using that [of "- v"] by (simp add: neg_op_def arith_Inr)
next
  case False
  then have "promoted U = U" by (simp add: promoted_def)
  then show ?thesis
    using that [of "- v"] that [of "(- v) mod 2 ^ it_bits U"] assms(1)
    by (cases "in_type U (- v)") (simp_all add: neg_op_def arith_def is_utype_def)
qed

lemma finalize_ok:
  assumes "is_itype T" "0 \<le> v" "v \<le> it_max (unsigned_of T)" "negative \<Longrightarrow> it_signed T"
  shows "sgn_finalize T (unsigned_of T) negative v = Inr (let w = (if negative then - v else v) in
    if in_type T w then Inr w else Inl (if negative then NEGATIVE_OVERFLOW else POSITIVE_OVERFLOW))"
proof (cases "it_signed T")
  case False
  then have "in_type T v" "\<not> negative"
    using assms by (auto simp: in_type_def it_min_def it_max_def unsigned_of_def)
  then show ?thesis using False by (simp add: sgn_finalize_def)
next
  case True
  have half: "(2::int) ^ it_bits T = 2 * 2 ^ (it_bits T - 1)"
    using itype_facts(1) [OF assms(1)] by (cases "it_bits T") simp_all
  have mx: "it_max T = 2 ^ (it_bits T - 1) - 1" "it_min T = - (2 ^ (it_bits T - 1))"
    using True by (simp_all add: it_max_def it_min_def)
  have v: "v < 2 ^ it_bits T" using assms(3) by (simp add: unsigned_max(1))
  note pv = conv_signed_range [OF assms(1) True assms(2) v]
  show ?thesis
  proof (cases negative)
    case False
    then show ?thesis using True assms(2) v pv half mx by (auto simp: sgn_finalize_def Let_def in_type_def)
  next
    case neg: True
    obtain x where x: "neg_op (unsigned_of T) v = Inr x" "x mod 2 ^ it_bits T = (- v) mod 2 ^ it_bits T"
      using neg_mod [OF is_utype_unsigned [OF assms(1)] assms(2,3)] by (metis unsigned_max(2))
    have cx: "conv T x = conv T (- v)" by (rule conv_cong_mod [OF x(2)])
    have "conv T (- v) = (if - v \<ge> it_min T then - v else 2 ^ it_bits T - v)"
    proof (cases "it_min T \<le> - v")
      case True
      then have "in_type T (- v)" using assms(2) itype_facts(4) [OF assms(1)] by (simp add: in_type_def)
      then show ?thesis using True conv_itype [OF assms(1)] by simp
    next
      case False
      have "conv T (- v) = conv T (2 ^ it_bits T - v)" by (rule conv_cong_mod) (simp add: mod_diff_left_eq [symmetric])
      moreover have "conv T (2 ^ it_bits T - v) = 2 ^ it_bits T - v"
        using False mx half assms(2) v by (subst conv_signed_range [OF assms(1) True]) (auto simp: )
      ultimately show ?thesis using False by simp
    qed
    then show ?thesis using neg True x(1) cx assms(2) v mx half itype_facts(4) [OF assms(1)]
      by (auto simp: sgn_finalize_def Let_def in_type_def)
  qed
qed

section \<open>Parsing\<close>

text \<open>What comes after the sign.\<close>

definition parse_digits :: "itype \<Rightarrow> bool \<Rightarrow> u8 list \<Rightarrow> nat \<Rightarrow> (int expected \<times> u8 list) result" where
  "parse_digits T negative s b = andthen (rd s b) (\<lambda>c. andthen (std_isdigit c) (\<lambda>d.
     if \<not> d then Inr (Inl NON_DIGIT_CHAR, s)
     else andthen (findFirstNonDigit s (b + 1) (length s)) (\<lambda>m.
          andthen (digits_to (unsigned_of T) s b m) (\<lambda>tmp. case tmp of
            Inl err \<Rightarrow> Inr (Inl (if err = POSITIVE_OVERFLOW then sgn_overflow T negative else err), s)
          | Inr v \<Rightarrow> andthen (sgn_finalize T (unsigned_of T) negative v) (\<lambda>res. case res of
              Inl err \<Rightarrow> Inr (Inl err, s)
            | Inr x \<Rightarrow> Inr (Inr x, drop m s))))))"

lemma magnitude_range:
  assumes "is_itype T" "negative \<Longrightarrow> it_signed T" "it_max (unsigned_of T) < v"
  shows "\<not> in_type T (if negative then - v else v)"
proof -
  have "(2::int) ^ it_bits T = 2 * 2 ^ (it_bits T - 1)"
    using itype_facts(1) [OF assms(1)] by (cases "it_bits T") simp_all
  moreover have "(0::int) < 2 ^ (it_bits T - 1)" by simp
  ultimately show ?thesis using assms(2,3) unfolding unsigned_max
    by (cases "it_signed T"; cases negative; simp add: in_type_def it_max_def it_min_def)
qed

lemma parse_digits_ok:
  assumes "is_itype T" "list_all ascii_char s" "b < length s" "negative \<Longrightarrow> it_signed T"
  defines "ds \<equiv> takeWhile digit_char (drop b s)"
  defines "v \<equiv> (if negative then - int (dec_value ds) else int (dec_value ds))"
  shows "parse_digits T negative s b = Inr (if ds = [] then (Inl NON_DIGIT_CHAR, s)
    else if in_type T v then (Inr v, drop (length ds) (drop b s))
    else (Inl (if negative then NEGATIVE_OVERFLOW else POSITIVE_OVERFLOW), s))"
proof -
  have sp: "drop b s = s ! b # drop (Suc b) s" using Cons_nth_drop_Suc [OF assms(3)] by simp
  have a: "ascii_char (s ! b)" using assms(2,3) by (simp add: list_all_length)
  show ?thesis
  proof (cases "digit_char (s ! b)")
    case False
    then show ?thesis using a assms(3) by (simp add: parse_digits_def ds_def sp)
  next
    case True
    define m where "m = b + length ds"
    have ds: "ds = s ! b # takeWhile digit_char (drop (Suc b) s)" unfolding ds_def sp using True by simp
    have m: "b < m" "m \<le> length s"
      using length_takeWhile_le [of digit_char "drop b s"] assms(3) by (simp_all add: m_def ds ds_def [symmetric])
    have span: "span s b m = ds" by (simp add: span_def m_def ds_def takeWhile_eq_take [symmetric])
    have "list_all digit_char ds" by (auto simp: ds_def list_all_iff dest: set_takeWhileD)
    then have dto: "digits_to (unsigned_of T) s b m = Inr (if int (dec_value ds) \<le> it_max (unsigned_of T)
        then Inr (int (dec_value ds)) else Inl POSITIVE_OVERFLOW)"
      using digits_to_digits [OF is_utype_unsigned [OF assms(1)], of b m s] m unfolding span by simp
    have "list_all ascii_char (drop (Suc b) s)" using assms(2) by (auto simp: list_all_iff dest: in_set_dropD)
    then have find: "findFirstNonDigit s (b + 1) (length s) = Inr m"
      using findFirstNonDigit_ok [of "b + 1" "length s" s] assms(3) by (simp add: span_end m_def ds)
    show ?thesis
    proof (cases "int (dec_value ds) \<le> it_max (unsigned_of T)")
      case fits: True
      show ?thesis
        using a True assms(3,4) dto find fits finalize_ok [OF assms(1) _ fits, of negative]
        by (simp add: parse_digits_def v_def [symmetric] Let_def ds m_def add.commute)
    next
      case False
      then have "\<not> in_type T v" using magnitude_range [OF assms(1,4)] by (simp add: v_def)
      then show ?thesis using a True assms(3,4) dto find False by (auto simp: parse_digits_def ds sgn_overflow_def)
    qed
  qed
qed

lemma str_to_integral_reference_lemma:
  assumes "is_itype T" "list_all ascii_char s"
  shows "str_to_integral T s = Inr (parse_integral T s)"
proof -
  define t where "t = dropWhile space_char s"
  define b where "b = length (takeWhile space_char s)"
  have t: "t = drop b s" by (simp add: t_def b_def dropWhile_eq_drop)
  have all: "list_all space_char s \<longleftrightarrow> t = []" by (simp add: t_def list_all_iff)
  have sk: "skip_spaces s 0 = Inr (if t = [] then None else Some b)"
    using skip_spaces_ok [of 0 s] assms(2) by (simp add: all b_def)
  show ?thesis
  proof (cases "t = []")
    case True
    then show ?thesis using sk by (simp add: str_to_integral_def parse_integral_def t_def [symmetric] Let_def split: prod.splits)
  next
    case False
    then have b: "b < length s" unfolding t by simp
    have hd: "hd t = s ! b" "tl t = drop (b + 1) s" unfolding t using b by (simp_all add: hd_drop_conv_nth tl_drop drop_Suc)
    have a: "ascii_char (s ! b)" using assms(2) b by (simp add: list_all_length)
    have dig: "\<not> digit_char 0x2D" "\<not> digit_char 0x2B" by (simp_all add: digit_char_def)
    have unfold: "str_to_integral T s = andthen (sgn_init T s b) (\<lambda>(err, negative, b).
         if err \<noteq> SUCCESS then Inr (Inl err, s)
         else if it_signed T \<and> b \<ge> length s then Inr (Inl NO_DIGITS, s)
         else parse_digits T negative s b)"
      unfolding str_to_integral_def parse_digits_def sk using False by simp
    have ne: "drop b s \<noteq> []" using b by simp
    have tl: "tl t \<noteq> t" using False by (cases t) auto
    show ?thesis
    proof (cases "it_signed T \<and> (s ! b = 0x2D \<or> s ! b = 0x2B)")
      case sign: True
      then have "sgn_init T s b = Inr (SUCCESS, s ! b = 0x2D, b + 1)"
        using a b dig by (auto simp: sgn_init_def)
      then have l: "str_to_integral T s = (if b + 1 \<ge> length s then Inr (Inl NO_DIGITS, s) else parse_digits T (s ! b = 0x2D) s (b + 1))"
        unfolding unfold using sign by simp
      have r: "sign_of T t = (s ! b = 0x2D, drop (b + 1) s)" using sign False hd by (simp add: sign_of_def)
      show ?thesis
        unfolding l parse_integral_def t_def [symmetric] Let_def r split_conv
        using parse_digits_ok [OF assms, of "b + 1" "s ! b = 0x2D"] sign False tl hd by simp
    next
      case nosign: False
      have r: "sign_of T t = (False, drop b s)" using nosign hd t by (auto simp: sign_of_def)
      show ?thesis
      proof (cases "it_signed T \<and> \<not> digit_char (s ! b)")
        case True
        then have "sgn_init T s b = Inr (INVALID_LEADING_CHAR, False, b)"
          using a b nosign by (simp add: sgn_init_def)
        then show ?thesis
          unfolding unfold parse_integral_def t_def [symmetric] Let_def r split_conv using True False hd t by simp
      next
        case ok: False
        then have "sgn_init T s b = Inr (SUCCESS, False, b)" using a b by (auto simp: sgn_init_def)
        then show ?thesis
          unfolding unfold parse_integral_def t_def [symmetric] Let_def r split_conv
          using parse_digits_ok [OF assms b, of False] ok False hd t b by (auto simp: )
      qed
    qed
  qed
qed

section \<open>Truth values\<close>

text \<open>The number 0 or 1 with leading zeros, and a word in any mixture of cases.\<close>

definition bool_number :: "u8 list \<Rightarrow> bool" where
  "bool_number ds \<longleftrightarrow> ds \<noteq> [] \<and> list_all (\<lambda>c. c = 0x30) (butlast ds) \<and> (last ds = 0x30 \<or> last ds = 0x31)"

definition word_at :: "u8 list \<Rightarrow> u8 list \<Rightarrow> bool" where
  "word_at w t \<longleftrightarrow> length w \<le> length t \<and> map tolower_ascii (take (length w) t) = w"

definition parse_bool :: "u8 list \<Rightarrow> bool expected \<times> u8 list" where
  "parse_bool s =
     (let t = dropWhile space_char s; ds = takeWhile digit_char t; c = hd t;
          word = (\<lambda>w. if word_at w t then drop (length w) t else tl t) in
      if t = [] then (Inl EMPTY_INPUT_STRING, s)
      else if c = 0x30 \<or> c = 0x31
      then if bool_number ds then (Inr (last ds = 0x31), drop (length ds) t) else (Inl BOOL_OVERFLOW, s)
      else if c = 0x79 \<or> c = 0x59 then (Inr True, word (ascii ''yes''))
      else if c = 0x6E \<or> c = 0x4E then (Inr False, word (ascii ''no''))
      else if c = 0x74 \<or> c = 0x54 then (Inr True, word (ascii ''true''))
      else if c = 0x66 \<or> c = 0x46 then (Inr False, word (ascii ''false''))
      else if (c = 0x6F \<or> c = 0x4F) \<and> word_at (ascii ''on'') t then (Inr True, drop 2 t)
      else if (c = 0x6F \<or> c = 0x4F) \<and> word_at (ascii ''off'') t then (Inr False, drop 3 t)
      else (Inl BOOL_INVALID_VALUE, s))"

lemma bool_str_cmp_ok:
  "p \<le> length s \<Longrightarrow> bool_str_cmp s p w = Inr (if word_at w (drop p s) then Some (p + length w) else None)"
proof (induction w arbitrary: p)
  case (Cons v vs)
  show ?case
  proof (cases "p = length s")
    case False
    then have p: "p < length s" using Cons.prems by simp
    then have "drop p s = s ! p # drop (Suc p) s" by (simp add: Cons_nth_drop_Suc)
    then show ?thesis using p Cons.IH [of "Suc p"] by (auto simp: word_at_def)
  qed (simp add: word_at_def)
qed (simp add: word_at_def)

lemma bool_number_Cons:
  "bool_number (c # cs) \<longleftrightarrow> (if cs = [] then c = 0x30 \<or> c = 0x31 else c = 0x30 \<and> bool_number cs)"
  by (simp add: bool_number_def)

lemma bool_digits_ok:
  assumes "b \<le> length s" "list_all ascii_char (drop b s)"
  defines "ds \<equiv> takeWhile digit_char (drop b s)"
  shows "bool_digits s b r = Inr (if ds = [] then Some (r, b)
    else if \<not> r \<and> bool_number ds then Some (last ds = 0x31, b + length ds) else None)"
  using assms(1,2) unfolding ds_def
proof (induction s b r rule: bool_digits.induct)
  case (1 s b r)
  show ?case
  proof (cases "b < length s")
    case True
    have sp: "drop b s = s ! b # drop (Suc b) s" using Cons_nth_drop_Suc [OF True] by simp
    then have a: "ascii_char (s ! b)" "list_all ascii_char (drop (Suc b) s)" using "1.prems"(2) by simp_all
    show ?thesis
    proof (cases "digit_char (s ! b) \<and> \<not> (r \<or> s ! b \<noteq> 0x30 \<and> s ! b \<noteq> 0x31)")
      case False
      then show ?thesis using True a sp by (subst bool_digits.simps) (auto simp: bool_number_Cons)
    next
      case t: True
      have IH: "bool_digits s (b + 1) (s ! b = 0x31) = Inr (if takeWhile digit_char (drop (Suc b) s) = [] then Some (s ! b = 0x31, b + 1)
          else if s ! b \<noteq> 0x31 \<and> bool_number (takeWhile digit_char (drop (Suc b) s))
          then Some (last (takeWhile digit_char (drop (Suc b) s)) = 0x31, b + 1 + length (takeWhile digit_char (drop (Suc b) s))) else None)"
        using "1.IH" [of "s ! b" True] True t a by simp
      then show ?thesis using True a t sp by (subst bool_digits.simps) (auto simp: bool_number_Cons)
    qed
  qed (use "1.prems" in \<open>subst bool_digits.simps; simp\<close>)
qed

lemma str_to_bool_ok:
  assumes "list_all ascii_char s"
  shows "str_to_bool s = Inr (parse_bool s)"
proof -
  define t where "t = dropWhile space_char s"
  define b where "b = length (takeWhile space_char s)"
  have t: "t = drop b s" by (simp add: t_def b_def dropWhile_eq_drop)
  have all: "list_all space_char s \<longleftrightarrow> t = []" by (simp add: t_def list_all_iff)
  have sk: "skip_spaces s 0 = Inr (if t = [] then None else Some b)"
    using skip_spaces_ok [of 0 s] assms by (simp add: all b_def)
  show ?thesis
  proof (cases "t = []")
    case True
    then show ?thesis using sk by (simp add: str_to_bool_def parse_bool_def t_def [symmetric] Let_def)
  next
    case False
    then have b: "b < length s" unfolding t by simp
    have hd: "s ! b = hd t" unfolding t using b by (simp add: hd_drop_conv_nth)
    have tl: "drop (Suc b) s = tl t" unfolding t by (simp add: tl_drop drop_Suc)
    have dr: "drop (b + n) s = drop n t" for n unfolding t by (simp add: add.commute)
    have word: "bool_word s b w = Inr (if word_at w t then b + length w else b + 1)" for w
      using bool_str_cmp_ok [of b s w] b by (simp add: bool_word_def t)
    have cmp: "bool_str_cmp s b w = Inr (if word_at w t then Some (b + length w) else None)" for w
      using bool_str_cmp_ok [of b s w] b by (simp add: t)
    have "list_all ascii_char (drop b s)" using assms by (auto simp: list_all_iff dest: in_set_dropD)
    then have digs: "bool_digits s b False = Inr (if takeWhile digit_char t = [] then Some (False, b)
        else if bool_number (takeWhile digit_char t)
        then Some (last (takeWhile digit_char t) = 0x31, b + length (takeWhile digit_char t)) else None)"
      using bool_digits_ok [of b s False] b by (simp add: t)
    have d: "digit_char 0x30" "digit_char 0x31" by (simp_all add: digit_char_def)
    have dn: "takeWhile digit_char t \<noteq> []" if "hd t = 0x30 \<or> hd t = 0x31"
      using that False d by (cases t) auto
    have len: "length (ascii ''on'') = 2" "length (ascii ''off'') = 3" by (simp_all add: ascii_def)
    have dr2: "drop (Suc (Suc b)) s = drop 2 t" using dr [of 2] by simp
    have one: "drop (Suc 0) t = tl t" by (simp add: drop_Suc)
    show ?thesis
      using sk False b dn unfolding str_to_bool_def parse_bool_def t_def [symmetric] Let_def
      by (simp add: hd digs cmp word dr dr2 tl len one)
  qed
qed

section \<open>The properties\<close>

text \<open>
  C14. On every string of ASCII characters and for every integer type, \<open>str_to_integral\<close> computes the
  reference parser: white space, a sign for signed types, the longest run of digits, the value if the
  type has it and otherwise the overflow of the right sign, and the error code of each malformed input;
  it is defined and leaves the piece alone on errors. \<open>str_to_bool\<close> accepts 0 and 1 with leading zeros
  and the English words in any mixture of cases, or their first letter.
\<close>

theorem parsers_reference:
  assumes "is_itype T" "list_all ascii_char s"
  shows "str_to_integral T s = Inr (parse_integral T s) \<and> str_to_bool s = Inr (parse_bool s)"
  using str_to_integral_reference_lemma [OF assms] str_to_bool_ok [OF assms(2)] by blast

theorem parsers_reference_witness:
  "str_to_integral int_type (ascii '' -12x'') = Inr (Inr (-12), ascii ''x'') \<and>
   str_to_bool (ascii '' oFf '') = Inr (Inr False, ascii '' '')"
proof -
  have i: "is_itype int_type" by (simp add: is_itype_def int_type_def)
  have a: "list_all ascii_char (ascii '' -12x'')" "list_all ascii_char (ascii '' oFf '')"
    by (simp_all add: ascii_char_def ascii_def)
  have p: "parse_integral int_type (ascii '' -12x'') = (Inr (-12), ascii ''x'')"
    "parse_bool (ascii '' oFf '') = (Inr False, ascii '' '')" by code_simp+
  show ?thesis using parsers_reference [OF i a(1)] parsers_reference [OF i a(2)] unfolding p by blast
qed

text \<open>White space around the printed number does not matter.\<close>

lemma text_of_int_chars: "list_all ascii_char (text_of_int v)"
proof -
  have "list_all ascii_char (decimal n)" for n
    using decimal_facts(1) [of n] by (auto simp: list_all_iff digit_ascii)
  then show ?thesis by (simp add: text_of_int_def ascii_char_def)
qed

lemma takeWhile_run: "list_all P xs \<Longrightarrow> ys = [] \<or> \<not> P (hd ys) \<Longrightarrow> takeWhile P (xs @ ys) = xs"
  by (cases ys) (auto simp: list_all_iff takeWhile_append)

lemma dropWhile_run: "list_all P xs \<Longrightarrow> ys = [] \<or> \<not> P (hd ys) \<Longrightarrow> dropWhile P (xs @ ys) = ys"
  by (cases ys) (auto simp: list_all_iff dropWhile_append)

lemma parse_text:
  assumes "is_itype T" "in_type T v" "list_all space_char w1" "list_all space_char w2"
  shows "parse_integral T (w1 @ text_of_int v @ w2) = (Inr v, w2)"
proof -
  define n where "n = nat (if v < 0 then - v else v)"
  note dec = decimal_facts [of n]
  have hdig: "digit_char (hd (decimal n))" using dec(1,2) by (cases "decimal n") auto
  have ns: "\<not> space_char (hd (text_of_int v @ w2))" "text_of_int v @ w2 \<noteq> []"
    using hdig dec(2) space_not_digit by (auto simp: text_of_int_def n_def space_char_def)
  have t: "dropWhile space_char (w1 @ text_of_int v @ w2) = text_of_int v @ w2"
    using ns by (intro dropWhile_run [OF assms(3)]) simp
  have w: "w2 = [] \<or> \<not> digit_char (hd w2)" using assms(4) space_not_digit by (cases w2) auto
  have tw: "takeWhile digit_char (decimal n @ w2) = decimal n" by (rule takeWhile_run [OF dec(1) w])
  have nd: "\<not> digit_char 0x2D" "\<not> digit_char 0x2B" by (simp_all add: digit_char_def)
  show ?thesis
  proof (cases "v < 0")
    case True
    then have sg: "it_signed T" using assms(2) by (auto simp: in_type_def it_min_def split: if_splits)
    have x: "text_of_int v = 0x2D # decimal n" using True by (simp add: text_of_int_def n_def)
    have sgn: "sign_of T (text_of_int v @ w2) = (True, decimal n @ w2)" using sg by (simp add: x sign_of_def)
    have val: "- int n = v" using True by (simp add: n_def)
    show ?thesis
      unfolding parse_integral_def t Let_def sgn split_conv
      using assms(2) dec(2) by (simp add: x tw dec(3) val)
  next
    case False
    have x: "text_of_int v = decimal n" using False by (simp add: text_of_int_def n_def)
    have h: "hd (decimal n @ w2) = hd (decimal n)" using dec(2) by simp
    have "hd (decimal n) \<noteq> 0x2D" "hd (decimal n) \<noteq> 0x2B" using hdig nd by metis+
    then have sgn: "sign_of T (text_of_int v @ w2) = (False, decimal n @ w2)" by (simp add: x sign_of_def h)
    have val: "int n = v" using False by (simp add: n_def)
    show ?thesis
      unfolding parse_integral_def t Let_def sgn split_conv
      using assms(2) dec(2) hdig by (simp add: x tw dec(3) val h)
  qed
qed

lemma enforceWhitespaceErr_ok:
  "list_all ascii_char s \<Longrightarrow> enforceWhitespaceErr s = Inr (if list_all space_char s then SUCCESS else NON_WHITESPACE_AFTER_END)"
  by (induction s) auto

text \<open>
  C15. Printing an integer of any type and parsing the text, with any white space before and after it,
  gives the integer back, both with the checked conversion and with the one that advances the piece;
  both branches of the digit count are correct.
\<close>

theorem integer_text_roundtrip:
  assumes "is_itype T" "in_type T v" "list_all space_char w1" "list_all space_char w2"
  shows "\<exists>t. to_text x86_64 [Arg_Int T v] = Inr t \<and>
    conv_to (str_to_integral T) (w1 @ t @ w2) = Inr (Inr v) \<and>
    conv_to_ptr (str_to_integral T) (w1 @ t @ w2) = Inr (Inr v, w2)"
proof (intro exI conjI)
  have asc: "list_all ascii_char w1" "list_all ascii_char w2"
    using assms(3,4) by (auto simp: list_all_iff space_ascii)
  then have "list_all ascii_char (w1 @ text_of_int v @ w2)" using text_of_int_chars by simp
  then have p: "str_to_integral T (w1 @ text_of_int v @ w2) = Inr (Inr v, w2)"
    using str_to_integral_reference_lemma [OF assms(1)] parse_text [OF assms] by simp
  show "to_text x86_64 [Arg_Int T v] = Inr (text_of_int v)"
    using assms(1,2) by (simp add: to_text_def toAppendFit_def toAppend_int_ok estimate_int_ok)
  show "conv_to (str_to_integral T) (w1 @ text_of_int v @ w2) = Inr (Inr v)"
    using p enforceWhitespaceErr_ok [OF asc(2)] assms(4) by (simp add: conv_to_def parseTo_def CheckTrailingSpace_def)
  show "conv_to_ptr (str_to_integral T) (w1 @ text_of_int v @ w2) = Inr (Inr v, w2)"
    using p by (simp add: conv_to_ptr_def parseTo_def)
qed

theorem integer_text_roundtrip_witness:
  "\<exists>t. to_text True [Arg_Int int_type (-2147483648)] = Inr t \<and>
    conv_to (str_to_integral int_type) ([0x20] @ t @ [0x0A]) = Inr (Inr (-2147483648)) \<and>
    conv_to_ptr (str_to_integral int_type) ([0x20] @ t @ [0x0A]) = Inr (Inr (-2147483648), [0x0A])"
  by (rule integer_text_roundtrip)
    (simp_all add: is_itype_def int_type_def in_type_def it_min_def it_max_def space_char_def)

section \<open>Outside the assumptions\<close>

text \<open>
  An empty range of a signed type is read past its end; a byte that is not ASCII becomes an index
  outside of the tables, and \<open>std::isspace\<close> is not defined for it.
\<close>

lemma empty_range_overread: "conv_to_range int_type [] 0 0 = Inl Undefined_Behaviour"
  by (simp add: conv_to_range_def digits_to_def sgn_init_def int_type_def rd_def Let_def)

lemma high_byte_out_of_table:
  "conv_to_range \<lparr>it_bits = 32, it_signed = False\<rparr> [0xE9] 0 1 = Inl Undefined_Behaviour"
proof -
  have "length shift1 \<le> size_of_char 0xE9" by (simp add: shift1_def size_of_char_def)
  then have "shift_at shift1 [0xE9] 0 = Inl Undefined_Behaviour" by (simp add: shift_at_def rd_def)
  then show ?thesis
    by (simp add: conv_to_range_def digits_to_def sgn_init_def unsigned_of_def ptr_size_def limits_digits10_def
        digits_parse_def digits_loop.simps digits_tail_def Let_def)
qed

lemma high_byte_isspace: "str_to_integral int_type [0xE9] = Inl Undefined_Behaviour"
  by code_simp

end
