(* ===== verification/Folly_FBString.thy ===== *)
theory Folly_FBString
  imports Folly_Bits
begin

text \<open>
  \<open>fbstring_core\<close> and the modifiers of \<open>basic_fbstring\<close> of \<open>folly/FBString.h\<close>, with \<open>smartRealloc\<close> of
  \<open>folly/memory/Malloc.h\<close>, for characters of one byte on a 64-bit little-endian machine.

  A string object is the 24 bytes of the union: the characters of a small string with the size in the
  last byte, or the pointer, size and capacity of a medium or large one, whose category is in the two
  upper bits of the last byte. The heap maps the address of the first character of a block to the block;
  a block of a large string has a reference counter in front. A pointer is an offset into an object,
  into a block, or into characters that belong to the caller.
\<close>

section \<open>Memory\<close>

text \<open>
  The string objects of the program carry 32-bit names, so there are fewer strings than addresses. The
  temporaries of the core and of the string functions are objects of their own.
\<close>

datatype oid = Str u32 | Core_Temp | Str_Temp

instance oid :: finite
proof
  have "UNIV \<subseteq> range Str \<union> {Core_Temp, Str_Temp}"
    by (auto intro: oid.exhaust)
  then show "finite (UNIV :: oid set)" by (rule finite_subset) simp
qed

record block =
  blk_refs :: "nat option"
  blk_bytes :: "u8 list"

type_synonym core = "u8 list"
type_synonym fb_heap = "u64 \<Rightarrow> block option"

record mem =
  objs :: "oid \<Rightarrow> core option"
  heap :: fb_heap

datatype ptr =
    In_Object oid nat
  | In_Block u64 nat
  | Extern "u8 list" nat

text \<open>
  What the code takes from its surroundings: whether jemalloc is in use and its \<open>nallocx\<close>, the address
  \<open>malloc\<close> returns, the contents of fresh memory, whether a pointer is aligned to a word, the bytes
  behind a string in its last word, and the build flag that turns in-situ storage off.
\<close>

record fb_env =
  usingJEMalloc :: bool
  nallocx :: "nat \<Rightarrow> nat"
  malloc_at :: "fb_heap \<Rightarrow> nat \<Rightarrow> u64 option"
  raw_bytes :: "nat \<Rightarrow> u8 list"
  word_aligned :: "ptr \<Rightarrow> bool"
  bytes_behind :: "ptr \<Rightarrow> u8 list"
  disable_sso :: bool

fun ptr_add :: "ptr \<Rightarrow> nat \<Rightarrow> ptr" where
  "ptr_add (In_Object i k) n = In_Object i (k + n)"
| "ptr_add (In_Block a k) n = In_Block a (k + n)"
| "ptr_add (Extern m k) n = Extern m (k + n)"

text \<open>The bytes a pointer can reach, starting at offset 0 of what it points into.\<close>

fun target :: "mem \<Rightarrow> ptr \<Rightarrow> u8 list result" where
  "target st (In_Object i k) = (case objs st i of None \<Rightarrow> Inl Undefined_Behaviour | Some c \<Rightarrow> Inr c)"
| "target st (In_Block a k) = (case heap st a of None \<Rightarrow> Inl Undefined_Behaviour | Some b \<Rightarrow> Inr (blk_bytes b))"
| "target st (Extern m k) = Inr m"

fun offset :: "ptr \<Rightarrow> nat" where
  "offset (In_Object i k) = k"
| "offset (In_Block a k) = k"
| "offset (Extern m k) = k"

fun same_base :: "ptr \<Rightarrow> ptr \<Rightarrow> bool" where
  "same_base (In_Object i k) (In_Object j l) = (i = j)"
| "same_base (In_Block a k) (In_Block b l) = (a = b)"
| "same_base _ _ = False"

definition read_mem :: "mem \<Rightarrow> ptr \<Rightarrow> nat \<Rightarrow> u8 list result" where
  "read_mem st p n = andthen (target st p) (\<lambda>bs.
     if offset p + n \<le> length bs then Inr (take n (drop (offset p) bs)) else Inl Undefined_Behaviour)"

definition overwrite :: "u8 list \<Rightarrow> nat \<Rightarrow> u8 list \<Rightarrow> u8 list" where
  "overwrite bs k cs = take k bs @ cs @ drop (k + length cs) bs"

fun write_mem :: "mem \<Rightarrow> ptr \<Rightarrow> u8 list \<Rightarrow> mem result" where
  "write_mem st (In_Object i k) cs = (case objs st i of
     None \<Rightarrow> Inl Undefined_Behaviour
   | Some c \<Rightarrow> if k + length cs \<le> length c
       then Inr (st\<lparr>objs := (objs st)(i \<mapsto> overwrite c k cs)\<rparr>) else Inl Undefined_Behaviour)"
| "write_mem st (In_Block a k) cs = (case heap st a of
     None \<Rightarrow> Inl Undefined_Behaviour
   | Some b \<Rightarrow> if k + length cs \<le> length (blk_bytes b)
       then Inr (st\<lparr>heap := (heap st)(a \<mapsto> b\<lparr>blk_bytes := overwrite (blk_bytes b) k cs\<rparr>)\<rparr>) else Inl Undefined_Behaviour)"
| "write_mem st (Extern m k) cs = Inl Undefined_Behaviour"

text \<open>\<open>memcpy\<close> must not be given overlapping ranges, \<open>memmove\<close> may.\<close>

definition podCopy :: "mem \<Rightarrow> ptr \<Rightarrow> nat \<Rightarrow> ptr \<Rightarrow> mem result" where
  "podCopy st b n d =
     (if same_base b d \<and> 0 < n \<and> offset b < offset d + n \<and> offset d < offset b + n then Inl Undefined_Behaviour
      else andthen (read_mem st b n) (\<lambda>cs. write_mem st d cs))"

definition podMove :: "mem \<Rightarrow> ptr \<Rightarrow> nat \<Rightarrow> ptr \<Rightarrow> mem result" where
  "podMove st b n d = andthen (read_mem st b n) (\<lambda>cs. write_mem st d cs)"

definition podFill :: "mem \<Rightarrow> ptr \<Rightarrow> nat \<Rightarrow> u8 \<Rightarrow> mem result" where
  "podFill st b n c = write_mem st b (replicate n c)"

text \<open>\<open>std::copy\<close> must not start its output inside its input.\<close>

definition std_copy :: "mem \<Rightarrow> ptr \<Rightarrow> nat \<Rightarrow> ptr \<Rightarrow> mem result" where
  "std_copy st b n d =
     (if same_base b d \<and> offset b < offset d \<and> offset d < offset b + n then Inl Undefined_Behaviour
      else podMove st b n d)"

section \<open>Allocation\<close>

definition goodMallocSize :: "fb_env \<Rightarrow> nat \<Rightarrow> nat" where
  "goodMallocSize env minSize =
     (if minSize = 0 then 0
      else if \<not> usingJEMalloc env then minSize
      else let rv = nallocx env minSize in if rv \<noteq> 0 then rv else minSize)"

definition checkedMalloc :: "fb_env \<Rightarrow> nat option \<Rightarrow> nat \<Rightarrow> nat \<Rightarrow> mem \<Rightarrow> (u64 \<times> mem) result" where
  "checkedMalloc env refs header n st = (case malloc_at env (heap st) n of
     None \<Rightarrow> Inl Bad_Alloc
   | Some a \<Rightarrow> Inr (a, st\<lparr>heap := (heap st)(a \<mapsto> \<lparr>blk_refs = refs, blk_bytes = raw_bytes env (n - header)\<rparr>)\<rparr>))"

definition free_block :: "u64 \<Rightarrow> mem \<Rightarrow> mem result" where
  "free_block a st = (case heap st a of
     None \<Rightarrow> Inl Undefined_Behaviour | Some b \<Rightarrow> Inr (st\<lparr>heap := (heap st)(a := None)\<rparr>))"

text \<open>The bytes in front of the characters of a block.\<close>

definition header_size :: "block \<Rightarrow> nat" where
  "header_size b = (case blk_refs b of None \<Rightarrow> 0 | Some _ \<Rightarrow> 8)"

definition checkedRealloc :: "fb_env \<Rightarrow> u64 \<Rightarrow> nat \<Rightarrow> mem \<Rightarrow> (u64 \<times> mem) result" where
  "checkedRealloc env p n st = (case heap st p of
     None \<Rightarrow> Inl Undefined_Behaviour
   | Some b \<Rightarrow> (case malloc_at env ((heap st)(p := None)) n of
       None \<Rightarrow> Inl Bad_Alloc
     | Some a \<Rightarrow> let m = n - header_size b in
         Inr (a, st\<lparr>heap := ((heap st)(p := None))(a \<mapsto> b\<lparr>blk_bytes := take m (blk_bytes b) @ drop (length (blk_bytes b)) (raw_bytes env m)\<rparr>)\<rparr>)))"

definition smartRealloc :: "fb_env \<Rightarrow> u64 \<Rightarrow> nat \<Rightarrow> nat \<Rightarrow> nat \<Rightarrow> mem \<Rightarrow> (u64 \<times> mem) result" where
  "smartRealloc env p currentSize currentCapacity newCapacity st =
     (let slack = currentCapacity - currentSize in
      if slack * 2 > currentSize
      then (case heap st p of None \<Rightarrow> Inl Undefined_Behaviour
        | Some b \<Rightarrow> andthen (checkedMalloc env (blk_refs b) (header_size b) newCapacity st) (\<lambda>(a, st1).
            andthen (podCopy st1 (In_Block p 0) (currentSize - header_size b) (In_Block a 0)) (\<lambda>st2.
            andthen (free_block p st2) (\<lambda>st3. Inr (a, st3)))))
      else checkedRealloc env p newCapacity st)"

section \<open>The representation of a string\<close>

definition category :: "core \<Rightarrow> u8" where
  "category c = (c ! 23) AND 0xC0"

definition isSmall :: u8 where "isSmall = 0"
definition isMedium :: u8 where "isMedium = 0x80"
definition isLarge :: u8 where "isLarge = 0x40"

definition ml_data :: "core \<Rightarrow> u64" where "ml_data c = of_le_bytes (take 8 c)"
definition ml_size :: "core \<Rightarrow> nat" where "ml_size c = unat (of_le_bytes (take 8 (drop 8 c)) :: u64)"
definition ml_capacity :: "core \<Rightarrow> u64" where "ml_capacity c = of_le_bytes (take 8 (drop 16 c))"

definition capacityExtractMask :: u64 where
  "capacityExtractMask = NOT (push_bit 56 0xC0)"

definition ml_cap :: "core \<Rightarrow> nat" where
  "ml_cap c = unat (ml_capacity c AND capacityExtractMask)"

definition set_ml_data :: "u64 \<Rightarrow> core \<Rightarrow> core" where
  "set_ml_data a c = overwrite c 0 (le_bytes a)"

definition set_ml_size :: "nat \<Rightarrow> core \<Rightarrow> core" where
  "set_ml_size n c = overwrite c 8 (le_bytes (of_nat n :: u64))"

definition setCapacity :: "nat \<Rightarrow> u8 \<Rightarrow> core \<Rightarrow> core" where
  "setCapacity cap cat c = overwrite c 16 (le_bytes ((of_nat cap :: u64) OR push_bit 56 (ucast cat)))"

definition smallSize :: "core \<Rightarrow> nat" where
  "smallSize c = 23 - unat (c ! 23)"

definition setSmallSize :: "nat \<Rightarrow> core \<Rightarrow> core" where
  "setSmallSize s c = (c[23 := of_nat (23 - s)])[s := 0]"

text \<open>The last byte is compared as a signed number after the subtraction.\<close>

definition core_size :: "core \<Rightarrow> nat" where
  "core_size c = (let maybeSmallSize = (23 - ucast (c ! 23) :: u64) in
     if 0 \<le> sint maybeSmallSize then unat maybeSmallSize else ml_size c)"

definition get_core :: "mem \<Rightarrow> oid \<Rightarrow> core result" where
  "get_core st i = (case objs st i of None \<Rightarrow> Inl Undefined_Behaviour | Some c \<Rightarrow> Inr c)"

definition put_core :: "oid \<Rightarrow> core \<Rightarrow> mem \<Rightarrow> mem" where
  "put_core i c st = st\<lparr>objs := (objs st)(i \<mapsto> c)\<rparr>"

section \<open>Reference counts\<close>

definition refs :: "mem \<Rightarrow> u64 \<Rightarrow> nat result" where
  "refs st a = (case heap st a of
     Some b \<Rightarrow> (case blk_refs b of Some n \<Rightarrow> Inr n | None \<Rightarrow> Inl Undefined_Behaviour)
   | None \<Rightarrow> Inl Undefined_Behaviour)"

definition set_refs :: "u64 \<Rightarrow> nat \<Rightarrow> mem \<Rightarrow> mem" where
  "set_refs a n st = (case heap st a of
     Some b \<Rightarrow> st\<lparr>heap := (heap st)(a \<mapsto> b\<lparr>blk_refs := Some n\<rparr>)\<rparr> | None \<Rightarrow> st)"

definition incrementRefs :: "u64 \<Rightarrow> mem \<Rightarrow> mem result" where
  "incrementRefs a st = andthen (refs st a) (\<lambda>n. Inr (set_refs a (n + 1) st))"

definition decrementRefs :: "u64 \<Rightarrow> mem \<Rightarrow> mem result" where
  "decrementRefs a st = andthen (refs st a) (\<lambda>oldcnt.
     if oldcnt = 1 then free_block a st else Inr (set_refs a (oldcnt - 1) st))"

text \<open>\<open>create\<close> returns the address, the size that fits into the block, and the memory.\<close>

definition rc_create :: "fb_env \<Rightarrow> nat \<Rightarrow> mem \<Rightarrow> (u64 \<times> nat \<times> mem) result" where
  "rc_create env n st =
     (let allocSize = goodMallocSize env ((8 + (n + 1)) mod 2 ^ 64) in
      andthen (checkedMalloc env (Some 1) 8 allocSize st) (\<lambda>(a, st'). Inr (a, allocSize - 8 - 1, st')))"

definition rc_create_from :: "fb_env \<Rightarrow> ptr \<Rightarrow> nat \<Rightarrow> mem \<Rightarrow> (u64 \<times> nat \<times> mem) result" where
  "rc_create_from env p n st = andthen (rc_create env n st) (\<lambda>(a, n', st').
     if n > 0 then andthen (podCopy st' p n (In_Block a 0)) (\<lambda>st''. Inr (a, n', st'')) else Inr (a, n', st'))"

definition rc_reallocate :: "fb_env \<Rightarrow> u64 \<Rightarrow> nat \<Rightarrow> nat \<Rightarrow> nat \<Rightarrow> mem \<Rightarrow> (u64 \<times> nat \<times> mem) result" where
  "rc_reallocate env a currentSize currentCapacity newCapacity st =
     (let allocNewCapacity = goodMallocSize env ((8 + (newCapacity + 1)) mod 2 ^ 64) in
      andthen (smartRealloc env a (8 + (currentSize + 1)) (8 + (currentCapacity + 1)) allocNewCapacity st) (\<lambda>(a', st').
        Inr (a', allocNewCapacity - 8 - 1, st')))"

section \<open>The core\<close>

definition reset :: "oid \<Rightarrow> mem \<Rightarrow> mem result" where
  "reset i st = andthen (get_core st i) (\<lambda>c. Inr (put_core i (setSmallSize 0 c) st))"

definition capacity :: "mem \<Rightarrow> oid \<Rightarrow> nat result" where
  "capacity st i = andthen (get_core st i) (\<lambda>c.
     if category c = isSmall then Inr 23
     else if category c = isLarge
     then andthen (refs st (ml_data c)) (\<lambda>n. if n > 1 then Inr (ml_size c) else Inr (ml_cap c))
     else Inr (ml_cap c))"

definition isShared :: "mem \<Rightarrow> oid \<Rightarrow> bool result" where
  "isShared st i = andthen (get_core st i) (\<lambda>c.
     if category c = isLarge then andthen (refs st (ml_data c)) (\<lambda>n. Inr (n > 1)) else Inr False)"

definition str_size :: "mem \<Rightarrow> oid \<Rightarrow> nat result" where
  "str_size st i = andthen (get_core st i) (\<lambda>c. Inr (core_size c))"

definition c_str :: "mem \<Rightarrow> oid \<Rightarrow> ptr result" where
  "c_str st i = andthen (get_core st i) (\<lambda>c.
     Inr (if category c = isSmall then In_Object i 0 else In_Block (ml_data c) 0))"

text \<open>The characters are written into an object whose bytes are arbitrary.\<close>

definition initSmall :: "fb_env \<Rightarrow> oid \<Rightarrow> ptr \<Rightarrow> nat \<Rightarrow> mem \<Rightarrow> mem result" where
  "initSmall env i p n st =
     andthen (if word_aligned env p \<and> \<not> disable_sso env
       then andthen (read_mem st p n) (\<lambda>cs.
            let ws = take (8 * ((n + 7) div 8)) (cs @ bytes_behind env p) in
            andthen (get_core st i) (\<lambda>c. Inr (put_core i (overwrite c 0 ws) st)))
       else if n \<noteq> 0 then podCopy st p n (In_Object i 0) else Inr st) (\<lambda>st'.
     andthen (get_core st' i) (\<lambda>c. Inr (put_core i (setSmallSize n c) st')))"

definition initMedium :: "fb_env \<Rightarrow> oid \<Rightarrow> ptr \<Rightarrow> nat \<Rightarrow> mem \<Rightarrow> mem result" where
  "initMedium env i p n st =
     (let allocSize = goodMallocSize env (1 + n) in
      andthen (checkedMalloc env None 0 allocSize st) (\<lambda>(a, st1).
      andthen (if n > 0 then podCopy st1 p n (In_Block a 0) else Inr st1) (\<lambda>st2.
      andthen (get_core st2 i) (\<lambda>c.
        write_mem (put_core i (setCapacity (allocSize - 1) isMedium (set_ml_size n (set_ml_data a c))) st2) (In_Block a n) [0]))))"

definition initLarge :: "fb_env \<Rightarrow> oid \<Rightarrow> ptr \<Rightarrow> nat \<Rightarrow> mem \<Rightarrow> mem result" where
  "initLarge env i p n st =
     andthen (rc_create_from env p n st) (\<lambda>(a, effectiveCapacity, st1).
     andthen (get_core st1 i) (\<lambda>c.
       write_mem (put_core i (setCapacity effectiveCapacity isLarge (set_ml_size n (set_ml_data a c))) st1) (In_Block a n) [0]))"

text \<open>An object comes into being with whatever its memory held.\<close>

definition new_object :: "fb_env \<Rightarrow> oid \<Rightarrow> mem \<Rightarrow> mem" where
  "new_object env i st = put_core i (raw_bytes env 24) st"

definition core_default :: "fb_env \<Rightarrow> oid \<Rightarrow> mem \<Rightarrow> mem result" where
  "core_default env i st = reset i (new_object env i st)"

definition core_from :: "fb_env \<Rightarrow> oid \<Rightarrow> ptr \<Rightarrow> nat \<Rightarrow> mem \<Rightarrow> mem result" where
  "core_from env i p n st =
     (let st1 = new_object env i st in
      if \<not> disable_sso env \<and> n \<le> 23 then initSmall env i p n st1
      else if n \<le> 254 then initMedium env i p n st1
      else initLarge env i p n st1)"

definition copyMedium :: "fb_env \<Rightarrow> oid \<Rightarrow> core \<Rightarrow> mem \<Rightarrow> mem result" where
  "copyMedium env i rhs st =
     (let allocSize = goodMallocSize env ((1 + ml_size rhs) mod 2 ^ 64) in
      andthen (checkedMalloc env None 0 allocSize st) (\<lambda>(a, st1).
      andthen (podCopy st1 (In_Block (ml_data rhs) 0) (ml_size rhs + 1) (In_Block a 0)) (\<lambda>st2.
      andthen (get_core st2 i) (\<lambda>c.
        Inr (put_core i (setCapacity (allocSize - 1) isMedium (set_ml_size (ml_size rhs) (set_ml_data a c))) st2)))))"

definition core_copy :: "fb_env \<Rightarrow> oid \<Rightarrow> oid \<Rightarrow> mem \<Rightarrow> mem result" where
  "core_copy env i j st0 =
     (let st = new_object env i st0 in
      andthen (get_core st j) (\<lambda>rhs.
      if category rhs = isSmall then Inr (put_core i rhs st)
      else if category rhs = isMedium then copyMedium env i rhs st
      else if category rhs = isLarge then incrementRefs (ml_data rhs) (put_core i rhs st)
      else Inl Undefined_Behaviour))"

definition core_move :: "fb_env \<Rightarrow> oid \<Rightarrow> oid \<Rightarrow> mem \<Rightarrow> mem result" where
  "core_move env i j st = andthen (get_core st j) (\<lambda>rhs. reset j (put_core i rhs st))"

definition core_adopt :: "fb_env \<Rightarrow> oid \<Rightarrow> u64 \<Rightarrow> nat \<Rightarrow> nat \<Rightarrow> mem \<Rightarrow> mem result" where
  "core_adopt env i a n allocatedSize st0 =
     (let st = new_object env i st0 in
      if n > 0 then andthen (get_core st i) (\<lambda>c.
        Inr (put_core i (setCapacity (allocatedSize - 1) isMedium (set_ml_size n (set_ml_data a c))) st))
      else andthen (free_block a st) (reset i))"

definition destroyMediumLarge :: "core \<Rightarrow> mem \<Rightarrow> mem result" where
  "destroyMediumLarge c st =
     (if category c = isMedium then free_block (ml_data c) st else decrementRefs (ml_data c) st)"

definition core_destroy :: "oid \<Rightarrow> mem \<Rightarrow> mem result" where
  "core_destroy i st = andthen (get_core st i) (\<lambda>c.
     andthen (if category c = isSmall then Inr st else destroyMediumLarge c st) (\<lambda>st'.
       Inr (st'\<lparr>objs := (objs st')(i := None)\<rparr>)))"

definition core_swap :: "oid \<Rightarrow> oid \<Rightarrow> mem \<Rightarrow> mem result" where
  "core_swap i j st = andthen (get_core st i) (\<lambda>t. andthen (get_core st j) (\<lambda>r.
     Inr (put_core j t (put_core i r st))))"

definition unshare :: "fb_env \<Rightarrow> oid \<Rightarrow> nat \<Rightarrow> mem \<Rightarrow> mem result" where
  "unshare env i minCapacity st = andthen (get_core st i) (\<lambda>c.
     andthen (rc_create env (max minCapacity (ml_cap c)) st) (\<lambda>(a, effectiveCapacity, st1).
     andthen (podCopy st1 (In_Block (ml_data c) 0) (ml_size c + 1) (In_Block a 0)) (\<lambda>st2.
     andthen (decrementRefs (ml_data c) st2) (\<lambda>st3.
       Inr (put_core i (setCapacity effectiveCapacity isLarge (set_ml_data a c)) st3)))))"

definition mutableData :: "fb_env \<Rightarrow> oid \<Rightarrow> mem \<Rightarrow> (ptr \<times> mem) result" where
  "mutableData env i st = andthen (get_core st i) (\<lambda>c.
     if category c = isSmall then Inr (In_Object i 0, st)
     else if category c = isMedium then Inr (In_Block (ml_data c) 0, st)
     else if category c = isLarge
     then andthen (refs st (ml_data c)) (\<lambda>n.
          andthen (if n > 1 then unshare env i 0 st else Inr st) (\<lambda>st'.
          andthen (get_core st' i) (\<lambda>c'. Inr (In_Block (ml_data c') 0, st'))))
     else Inl Undefined_Behaviour)"

definition shrinkMedium :: "oid \<Rightarrow> nat \<Rightarrow> mem \<Rightarrow> mem result" where
  "shrinkMedium i delta st = andthen (get_core st i) (\<lambda>c.
     write_mem (put_core i (set_ml_size (ml_size c - delta) c) st) (In_Block (ml_data c) (ml_size c - delta)) [0])"

definition shrinkLarge :: "fb_env \<Rightarrow> oid \<Rightarrow> nat \<Rightarrow> mem \<Rightarrow> mem result" where
  "shrinkLarge env i delta st =
     (if delta \<noteq> 0
      then andthen (get_core st i) (\<lambda>c.
           andthen (core_from env Core_Temp (In_Block (ml_data c) 0) (ml_size c - delta) st) (\<lambda>st1.
           andthen (core_swap Core_Temp i st1) (core_destroy Core_Temp)))
      else Inr st)"

definition shrink :: "fb_env \<Rightarrow> oid \<Rightarrow> nat \<Rightarrow> mem \<Rightarrow> mem result" where
  "shrink env i delta st = andthen (get_core st i) (\<lambda>c.
     if category c = isSmall then Inr (put_core i (setSmallSize (smallSize c - delta) c) st)
     else andthen (if category c = isMedium then Inr True else andthen (refs st (ml_data c)) (\<lambda>n. Inr (n = 1))) (\<lambda>unique.
       if unique then shrinkMedium i delta st else shrinkLarge env i delta st))"

definition reserveLarge :: "fb_env \<Rightarrow> oid \<Rightarrow> nat \<Rightarrow> mem \<Rightarrow> mem result" where
  "reserveLarge env i minCapacity st = andthen (get_core st i) (\<lambda>c.
     andthen (refs st (ml_data c)) (\<lambda>n.
     if n > 1 then unshare env i minCapacity st
     else if minCapacity > ml_cap c
     then andthen (rc_reallocate env (ml_data c) (ml_size c) (ml_cap c) minCapacity st) (\<lambda>(a, newCapacity, st1).
          Inr (put_core i (setCapacity newCapacity isLarge (set_ml_data a c)) st1))
     else Inr st))"

definition reserveSmall :: "fb_env \<Rightarrow> oid \<Rightarrow> nat \<Rightarrow> mem \<Rightarrow> mem result" where
  "reserveSmall env i minCapacity st = andthen (get_core st i) (\<lambda>c.
     if \<not> disable_sso env \<and> minCapacity \<le> 23 then Inr st
     else if minCapacity \<le> 254
     then (let allocSizeBytes = goodMallocSize env (1 + minCapacity); n = smallSize c in
           andthen (checkedMalloc env None 0 allocSizeBytes st) (\<lambda>(a, st1).
           andthen (podCopy st1 (In_Object i 0) (n + 1) (In_Block a 0)) (\<lambda>st2.
             Inr (put_core i (setCapacity (allocSizeBytes - 1) isMedium (set_ml_size n (set_ml_data a c))) st2))))
     else andthen (rc_create env minCapacity st) (\<lambda>(a, newCapacity, st1).
          let n = smallSize c in
          andthen (podCopy st1 (In_Object i 0) (n + 1) (In_Block a 0)) (\<lambda>st2.
            Inr (put_core i (setCapacity newCapacity isLarge (set_ml_size n (set_ml_data a c))) st2))))"

text \<open>
  A medium string that becomes large is copied into a temporary string that has just been reserved. That
  call of \<open>reserve\<close> is one for a small string.
\<close>

definition reserveMedium :: "fb_env \<Rightarrow> oid \<Rightarrow> nat \<Rightarrow> mem \<Rightarrow> mem result" where
  "reserveMedium env i minCapacity st = andthen (get_core st i) (\<lambda>c.
     if minCapacity \<le> ml_cap c then Inr st
     else if minCapacity \<le> 254
     then (let capacityBytes = goodMallocSize env (1 + minCapacity) in
           andthen (smartRealloc env (ml_data c) (ml_size c + 1) (ml_cap c + 1) capacityBytes st) (\<lambda>(a, st1).
             Inr (put_core i (setCapacity (capacityBytes - 1) isMedium (set_ml_data a c)) st1)))
     else andthen (core_default env Core_Temp st) (\<lambda>st1.
          andthen (reserveSmall env Core_Temp minCapacity st1) (\<lambda>st2.
          andthen (get_core st2 Core_Temp) (\<lambda>t.
          let t' = set_ml_size (ml_size c) t in
          andthen (podCopy (put_core Core_Temp t' st2) (In_Block (ml_data c) 0) (ml_size c + 1) (In_Block (ml_data t') 0)) (\<lambda>st3.
          andthen (core_swap Core_Temp i st3) (core_destroy Core_Temp))))))"

definition reserve :: "fb_env \<Rightarrow> oid \<Rightarrow> nat \<Rightarrow> mem \<Rightarrow> mem result" where
  "reserve env i minCapacity st = andthen (get_core st i) (\<lambda>c.
     if category c = isSmall then reserveSmall env i minCapacity st
     else if category c = isMedium then reserveMedium env i minCapacity st
     else if category c = isLarge then reserveLarge env i minCapacity st
     else Inl Undefined_Behaviour)"

text \<open>The pointer to the \<open>delta\<close> new characters, which are not initialised.\<close>

definition expandNoinit :: "fb_env \<Rightarrow> oid \<Rightarrow> nat \<Rightarrow> bool \<Rightarrow> mem \<Rightarrow> (ptr \<times> mem) result" where
  "expandNoinit env i delta expGrowth st =
     andthen (get_core st i) (\<lambda>c.
     let sz = (if category c = isSmall then smallSize c else ml_size c);
         newSz = (sz + delta) mod 2 ^ 64 in
     if category c = isSmall \<and> \<not> disable_sso env \<and> newSz \<le> 23
     then Inr (In_Object i sz, put_core i (setSmallSize newSz c) st)
     else andthen (if category c = isSmall
         then reserveSmall env i (if expGrowth then max newSz (2 * 23) else newSz) st
         else andthen (capacity st i) (\<lambda>cap.
           if newSz > cap then reserve env i (if expGrowth then max newSz ((1 + cap * 3 mod 2 ^ 64 div 2) mod 2 ^ 64) else newSz) st
           else Inr st)) (\<lambda>st1.
       andthen (get_core st1 i) (\<lambda>c1.
       andthen (write_mem (put_core i (set_ml_size newSz c1) st1) (In_Block (ml_data c1) newSz) [0]) (\<lambda>st2.
         Inr (In_Block (ml_data c1) sz, st2)))))"

definition core_push_back :: "fb_env \<Rightarrow> oid \<Rightarrow> u8 \<Rightarrow> mem \<Rightarrow> mem result" where
  "core_push_back env i ch st = andthen (expandNoinit env i 1 True st) (\<lambda>(p, st'). write_mem st' p [ch])"

end
