(* ===== verification/Folly_FBString_State.thy ===== *)
theory Folly_FBString_State
  imports Folly_FBString
begin

text \<open>
  What the core of a string promises. A well-formed memory (\<open>fb_ok\<close>) has only well-formed objects, and
  the counter of a block is the number of objects that point to it. The contents of the strings are the
  abstract state: each operation of the core changes the contents of one string, leaves every other
  string and its storage alone, and keeps the memory well-formed, or fails because \<open>malloc\<close> did.
\<close>

section \<open>The 24 bytes\<close>

definition ml_core :: "u64 \<Rightarrow> nat \<Rightarrow> nat \<Rightarrow> u8 \<Rightarrow> core" where
  "ml_core a n cap cat =
     le_bytes a @ le_bytes (of_nat n :: u64) @ le_bytes ((of_nat cap :: u64) OR push_bit 56 (ucast cat))"

named_theorems core_simps \<open>reading and writing the fields of a string object\<close>

lemma length_overwrite [simp]: "k + length cs \<le> length bs \<Longrightarrow> length (overwrite bs k cs) = length bs"
  by (simp add: overwrite_def)

lemma overwrite_0 [simp]: "overwrite bs 0 cs = cs @ drop (length cs) bs"
  by (simp add: overwrite_def)

lemma overwrite_Nil [simp]: "k \<le> length bs \<Longrightarrow> overwrite bs k [] = bs"
  by (simp add: overwrite_def)

lemma length_ml_core [core_simps]: "length (ml_core a n cap cat) = 24"
  by (simp add: ml_core_def)

lemma set_ml_core [core_simps]:
  "length c = 24 \<Longrightarrow> setCapacity cap cat (set_ml_size n (set_ml_data a c)) = ml_core a n cap cat"
  "set_ml_size m (ml_core a n cap cat) = ml_core a m cap cat"
  "setCapacity cap' cat' (set_ml_data a' (ml_core a n cap cat)) = ml_core a' n cap' cat'"
  by (simp_all add: setCapacity_def set_ml_size_def set_ml_data_def ml_core_def overwrite_def)

lemma ml_data_ml_core [core_simps]: "ml_data (ml_core a n cap cat) = a"
  by (simp add: ml_data_def ml_core_def of_le_bytes_le_bytes)

lemma ml_size_ml_core [core_simps]: "n < 2 ^ 64 \<Longrightarrow> ml_size (ml_core a n cap cat) = n"
  by (simp add: ml_size_def ml_core_def of_le_bytes_le_bytes unat_of_nat)

lemma bit_last_byte:
  "bit (ml_core a n cap cat ! 23) m \<longleftrightarrow> m < 8 \<and> (bit cap (56 + m) \<or> bit cat m)"
proof -
  have "ml_core a n cap cat ! 23 = le_bytes ((of_nat cap :: u64) OR push_bit 56 (ucast cat)) ! 7"
    by (simp add: ml_core_def nth_append)
  then show ?thesis
    by (auto simp: bit_le_bytes bit_simps)
qed

lemma bit_above: "n < 2 ^ k \<Longrightarrow> k \<le> j \<Longrightarrow> \<not> bit (n :: nat) j"
  by (metis bit_take_bit_iff leD take_bit_nat_eq_self)

lemma bit_categories:
  "bit isMedium m \<longleftrightarrow> m = 7" "bit isLarge m \<longleftrightarrow> m = 6" "bit (0xC0 :: u8) m \<longleftrightarrow> m = 6 \<or> m = 7"
proof -
  have *: "m < 8 \<Longrightarrow> m \<in> {0,1,2,3,4,5,6,7}" by auto
  show "bit isMedium m \<longleftrightarrow> m = 7" "bit isLarge m \<longleftrightarrow> m = 6" "bit (0xC0 :: u8) m \<longleftrightarrow> m = 6 \<or> m = 7"
    by (cases "m < 8"; use * in \<open>auto simp: isMedium_def isLarge_def bit_simps\<close>)+
qed

lemma bit_category: "bit (category c) m \<longleftrightarrow> bit (c ! 23) m \<and> (m = 6 \<or> m = 7)"
  unfolding category_def bit_and_iff bit_categories ..

lemma bit_mask: "bit capacityExtractMask m \<longleftrightarrow> m < 62"
proof -
  have "bit (push_bit 56 0xC0 :: u64) m \<longleftrightarrow> m = 62 \<or> m = 63"
  proof (cases "m < 64")
    case True
    then have "m \<in> set [0..<64]" by simp
    then show ?thesis by (auto simp: upt_rec bit_simps)
  qed (auto simp: bit_simps)
  then show ?thesis by (auto simp: capacityExtractMask_def bit_simps)
qed

lemma category_ml_core [core_simps]:
  assumes "cap < 2 ^ 62"
  shows "category (ml_core a n cap isMedium) = isMedium" "category (ml_core a n cap isLarge) = isLarge"
  by (rule bit_word_eqI; use bit_above [OF assms] in \<open>auto simp: bit_category bit_last_byte bit_categories\<close>)+

lemma ml_cap_ml_core [core_simps]:
  "cap < 2 ^ 62 \<Longrightarrow> ml_cap (ml_core a n cap isMedium) = cap"
  "cap < 2 ^ 62 \<Longrightarrow> ml_cap (ml_core a n cap isLarge) = cap"
proof -
  have m: "(of_nat cap OR push_bit 56 (ucast cat)) AND capacityExtractMask = (of_nat cap :: u64)"
    if "cap < 2 ^ 62" "\<And>m. bit cat m \<Longrightarrow> m = 6 \<or> m = 7" for cat :: u8
    by (rule bit_word_eqI) (use bit_above [OF that(1)] in \<open>auto simp: bit_mask bit_simps simp flip: not_le dest: that(2)\<close>)
  have c: "ml_cap (ml_core a n cap cat) = unat ((of_nat cap OR push_bit 56 (ucast cat)) AND capacityExtractMask)" for cat
    by (simp add: ml_cap_def ml_capacity_def ml_core_def of_le_bytes_le_bytes)
  show "cap < 2 ^ 62 \<Longrightarrow> ml_cap (ml_core a n cap isMedium) = cap"
    "cap < 2 ^ 62 \<Longrightarrow> ml_cap (ml_core a n cap isLarge) = cap"
    unfolding c by (subst m; simp add: bit_categories unat_of_nat)+
qed

lemma category_small_iff: "category c = isSmall \<longleftrightarrow> unat (c ! 23) < 64"
proof
  assume small: "category c = isSmall"
  have "\<not> bit (c ! 23) m" if "6 \<le> m" for m
  proof (cases "m < 8")
    case True
    with that have "m = 6 \<or> m = 7" by auto
    with small show ?thesis by (metis bit_category isSmall_def bit_0_eq bot_apply bot_bool_def)
  qed (use bit_word.rep_eq in \<open>auto dest: bit_imp_le_length\<close>)
  then have "take_bit 6 (c ! 23) = c ! 23"
    by (intro bit_word_eqI) (auto simp: bit_take_bit_iff simp flip: not_le)
  then have "unat (c ! 23) = take_bit 6 (unat (c ! 23))"
    by (metis unsigned_take_bit_eq)
  also have "\<dots> < 2 ^ 6" by (rule take_bit_nat_less_exp)
  finally show "unat (c ! 23) < 64" by simp
next
  assume "unat (c ! 23) < 64"
  then have "\<not> bit (unat (c ! 23)) m" if "6 \<le> m" for m
    using bit_above [of _ 6 m] that by simp
  then show "category c = isSmall"
    by (intro bit_word_eqI) (auto simp: bit_category isSmall_def bit_unsigned_iff)
qed

lemma isSmall_neq [core_simps]: "isMedium \<noteq> isSmall" "isLarge \<noteq> isSmall" "isLarge \<noteq> isMedium"
  "isSmall \<noteq> isMedium" "isSmall \<noteq> isLarge" "isMedium \<noteq> isLarge"
  by (simp_all add: isSmall_def isMedium_def isLarge_def)

lemma core_size_small:
  assumes "unat (c ! 23) \<le> 23"
  shows "core_size c = smallSize c"
proof -
  let ?m = "23 - ucast (c ! 23) :: u64"
  have "unat ?m = unat (23 :: u64) - unat (ucast (c ! 23) :: u64)"
    using assms by (intro unat_sub) (simp add: word_le_nat_alt unat_ucast_up)
  then have n: "unat ?m = 23 - unat (c ! 23)"
    by (simp add: unat_ucast_up)
  then have "uint ?m < 2 ^ 63" by (simp add: uint_nat)
  then have "signed_take_bit 63 (uint ?m) = uint ?m"
    by (intro signed_take_bit_int_eq_self) (rule order_trans [OF _ uint_ge_0], simp_all)
  then have "sint ?m = uint ?m"
    by (simp add: sint_uint)
  then show ?thesis using n by (simp add: core_size_def smallSize_def Let_def)
qed

lemma core_size_long:
  assumes "64 \<le> unat (c ! 23)"
  shows "core_size c = ml_size c"
proof -
  let ?m = "23 - ucast (c ! 23) :: u64"
  have "int (unat (c ! 23)) = uint (c ! 23)" by simp
  with assms have b: "64 \<le> uint (c ! 23)" by linarith
  have "uint (c ! 23) < 256" using uint_lt2p [of "c ! 23"] by simp
  note b = b this
  have "word_of_int (23 - uint (c ! 23)) = (word_of_int 23 - word_of_int (uint (c ! 23)) :: u64)"
    by (rule of_int_diff)
  also have "\<dots> = ?m"
    by (subst ucast_eq) (rule arg_cong2 [where f = minus, OF of_int_numeral refl])
  finally have "?m = word_of_int (23 - uint (c ! 23))" ..
  then have "sint ?m = sint (word_of_int (23 - uint (c ! 23)) :: u64)"
    by (rule arg_cong)
  also have "\<dots> = signed_take_bit 63 (23 - uint (c ! 23))"
    by (subst signed_of_int) simp
  also have "\<dots> = 23 - uint (c ! 23)"
    using b by (intro signed_take_bit_int_eq_self) simp_all
  finally have "sint ?m < 0" using b by linarith
  then show ?thesis by (simp add: core_size_def Let_def)
qed

section \<open>Well-formed memories\<close>

definition small_ok :: "fb_env \<Rightarrow> core \<Rightarrow> bool" where
  "small_ok env c \<longleftrightarrow> length c = 24 \<and> unat (c ! 23) \<le> 23 \<and> c ! smallSize c = 0 \<and>
     (disable_sso env \<longrightarrow> smallSize c = 0)"

definition long_category :: "block \<Rightarrow> u8" where
  "long_category b = (if blk_refs b = None then isMedium else isLarge)"

definition long_ok :: "core \<Rightarrow> u64 \<Rightarrow> nat \<Rightarrow> nat \<Rightarrow> block \<Rightarrow> bool" where
  "long_ok c a n cap b \<longleftrightarrow> c = ml_core a n cap (long_category b) \<and> n \<le> cap \<and>
     cap < length (blk_bytes b) \<and> cap + 1 + header_size b \<le> 2 ^ 61 \<and> blk_bytes b ! n = 0"

definition core_ok :: "fb_env \<Rightarrow> fb_heap \<Rightarrow> core \<Rightarrow> bool" where
  "core_ok env h c \<longleftrightarrow> small_ok env c \<or> (\<exists>a n cap b. h a = Some b \<and> long_ok c a n cap b)"

definition blk_count :: "block \<Rightarrow> nat" where
  "blk_count b = (case blk_refs b of None \<Rightarrow> 1 | Some n \<Rightarrow> n)"

definition points :: "core option \<Rightarrow> u64 \<Rightarrow> bool" where
  "points x a \<longleftrightarrow> (\<exists>c. x = Some c \<and> category c \<noteq> isSmall \<and> ml_data c = a)"

definition users :: "(oid \<Rightarrow> core option) \<Rightarrow> u64 \<Rightarrow> oid set" where
  "users m a = {i. points (m i) a}"

definition mem_ok :: "fb_env \<Rightarrow> (oid \<Rightarrow> core option) \<Rightarrow> fb_heap \<Rightarrow> bool" where
  "mem_ok env m h \<longleftrightarrow> (\<forall>i c. m i = Some c \<longrightarrow> core_ok env h c) \<and>
     (\<forall>a b. h a = Some b \<longrightarrow> card (users m a) = blk_count b \<and> 0 < blk_count b) \<and>
     (\<forall>i j a. points (m i) a \<longrightarrow> points (m j) a \<longrightarrow> m i = m j)"

definition fb_ok :: "fb_env \<Rightarrow> mem \<Rightarrow> bool" where
  "fb_ok env st \<longleftrightarrow> mem_ok env (objs st) (heap st)"

text \<open>The characters of a string, and of all strings.\<close>

definition content :: "fb_heap \<Rightarrow> core \<Rightarrow> u8 list" where
  "content h c = (if category c = isSmall then take (smallSize c) c
     else (case h (ml_data c) of None \<Rightarrow> [] | Some b \<Rightarrow> take (ml_size c) (blk_bytes b)))"

definition strings :: "mem \<Rightarrow> oid \<Rightarrow> u8 list option" where
  "strings st i = map_option (content (heap st)) (objs st i)"

text \<open>Everything but the strings of a set is left alone, their storage included.\<close>

definition same_storage :: "fb_heap \<Rightarrow> fb_heap \<Rightarrow> core option \<Rightarrow> bool" where
  "same_storage h h' x \<longleftrightarrow> (\<forall>a. points x a \<longrightarrow> map_option blk_bytes (h' a) = map_option blk_bytes (h a))"

definition frame :: "oid set \<Rightarrow> mem \<Rightarrow> mem \<Rightarrow> bool" where
  "frame S st st' \<longleftrightarrow> (\<forall>j. j \<notin> S \<longrightarrow> objs st' j = objs st j \<and> same_storage (heap st) (heap st') (objs st j))"

lemma frame_refl [simp]: "frame S st st"
  by (simp add: frame_def same_storage_def)

lemma frame_trans: "frame S st st' \<Longrightarrow> frame T st' st'' \<Longrightarrow> S \<union> T \<subseteq> U \<Longrightarrow> frame U st st''"
  unfolding frame_def same_storage_def by (metis UnI1 UnI2 subsetD)

lemma frame_strings: "frame S st st' \<Longrightarrow> j \<notin> S \<Longrightarrow> strings st' j = strings st j"
proof -
  assume "frame S st st'" "j \<notin> S"
  then have o: "objs st' j = objs st j" and s: "same_storage (heap st) (heap st') (objs st j)"
    by (simp_all add: frame_def)
  have "content (heap st') c = content (heap st) c" if c: "objs st j = Some c" for c
  proof (cases "category c = isSmall")
    case False
    then have "map_option blk_bytes (heap st' (ml_data c)) = map_option blk_bytes (heap st (ml_data c))"
      using s c by (simp add: same_storage_def points_def)
    then show ?thesis
      using False by (auto simp: content_def split: option.splits)
  qed (simp add: content_def)
  then show ?thesis using o by (cases "objs st j") (simp_all add: strings_def)
qed

text \<open>A string that exists neither before nor after does not count.\<close>

lemma frame_hidden:
  "frame (insert t S) st st' \<Longrightarrow> objs st t = None \<Longrightarrow> objs st' t = None \<Longrightarrow> frame S st st'"
  unfolding frame_def same_storage_def points_def by (metis insert_iff option.simps(3))

lemma frame_strings_upd:
  "frame {i} st st' \<Longrightarrow> strings st' i = Some xs \<Longrightarrow> strings st' = (strings st)(i \<mapsto> xs)"
  by (auto simp: fun_eq_iff dest: frame_strings)

section \<open>Objects and blocks come and go\<close>

lemma small_category: "small_ok env c \<Longrightarrow> category c = isSmall"
  by (simp add: small_ok_def category_small_iff)

lemma long_category_cases: "long_category b = isMedium \<or> long_category b = isLarge"
  by (simp add: long_category_def)

lemma long_fields:
  assumes "long_ok c a n cap b"
  shows "length c = 24" "category c = long_category b" "category c \<noteq> isSmall" "ml_data c = a"
    "ml_size c = n" "ml_cap c = cap" "64 \<le> unat (c ! 23)"
proof -
  have b: "n < 2 ^ 64" "cap < 2 ^ 62" using assms by (simp_all add: long_ok_def)
  have c: "c = ml_core a n cap (long_category b)" using assms by (simp add: long_ok_def)
  show "length c = 24" "ml_data c = a" "ml_size c = n" using b(1) by (simp_all add: c core_simps)
  show cat: "category c = long_category b" "category c \<noteq> isSmall" "ml_cap c = cap"
    unfolding c using long_category_cases [of b] b(2) by (auto simp: core_simps)
  then show "64 \<le> unat (c ! 23)" using category_small_iff [of c] by simp
qed

lemma core_ok_cases:
  assumes "core_ok env h c"
  obtains (small) "small_ok env c" "category c = isSmall"
  | (long) a n cap b where "h a = Some b" "long_ok c a n cap b" "category c \<noteq> isSmall" "ml_data c = a"
  using assms small_category long_fields unfolding core_ok_def by metis

lemma pointed_block:
  "mem_ok env m h \<Longrightarrow> points (m i) a \<Longrightarrow> \<exists>n cap b c. m i = Some c \<and> h a = Some b \<and> long_ok c a n cap b"
  unfolding mem_ok_def points_def by (metis core_ok_cases)

lemma users_upd: "users (m(i := x)) a = (if points x a then insert i (users m a) else users m a - {i})"
  by (auto simp: users_def)

lemma in_users [simp]: "i \<in> users m a \<longleftrightarrow> points (m i) a"
  by (simp add: users_def)

lemma users_upd_free: "\<not> points (m i) a \<Longrightarrow> users (m(i := x)) a = (if points x a then insert i (users m a) else users m a)"
  by (auto simp: users_def)

lemma points_unique: "points x a \<Longrightarrow> points x a' \<longleftrightarrow> a' = a"
  by (auto simp: points_def)

lemma not_points [simp]: "\<not> points None a"
  by (simp add: points_def)

lemma points_long: "long_ok c a n cap b \<Longrightarrow> points (Some c) a' \<longleftrightarrow> a' = a"
  using long_fields [of c a n cap b] by (auto simp: points_def)

lemma points_small: "small_ok env c \<Longrightarrow> \<not> points (Some c) a"
  by (auto simp: points_def dest: small_category)

text \<open>What letting go of an object does to the blocks.\<close>

definition released :: "fb_heap \<Rightarrow> core option \<Rightarrow> fb_heap" where
  "released h x = (\<lambda>a. if points x a then (case h a of None \<Rightarrow> None
     | Some b \<Rightarrow> if blk_count b = 1 then None else Some (b\<lparr>blk_refs := Some (blk_count b - 1)\<rparr>)) else h a)"

lemma released_free [simp]: "(\<And>a. \<not> points x a) \<Longrightarrow> released h x = h"
  by (simp add: released_def)

lemma core_ok_mono:
  assumes "core_ok env h c"
    and "\<And>a b. points (Some c) a \<Longrightarrow> h a = Some b \<Longrightarrow>
      \<exists>b'. h' a = Some b' \<and> blk_bytes b' = blk_bytes b \<and> (blk_refs b' = None \<longleftrightarrow> blk_refs b = None)"
  shows "core_ok env h' c"
  using assms(1)
proof (cases rule: core_ok_cases)
  case small then show ?thesis by (simp add: core_ok_def)
next
  case (long a n cap b)
  then obtain b' where "h' a = Some b'" "blk_bytes b' = blk_bytes b" "blk_refs b' = None \<longleftrightarrow> blk_refs b = None"
    using assms(2) [of a b] points_long [OF long(2)] by auto
  with long(2) have "long_ok c a n cap b'"
    by (auto simp: long_ok_def long_category_def header_size_def split: option.splits)
  with \<open>h' a = Some b'\<close> show ?thesis unfolding core_ok_def by blast
qed

lemma blk_count_shared: "1 < blk_count b \<Longrightarrow> blk_refs b = Some (blk_count b)"
  by (simp add: blk_count_def split: option.splits)

lemma mem_okD:
  assumes "mem_ok env m h"
  shows "m i = Some c \<Longrightarrow> core_ok env h c" "h a = Some b \<Longrightarrow> card (users m a) = blk_count b"
    "h a = Some b \<Longrightarrow> 0 < blk_count b" "points (m i) a \<Longrightarrow> points (m j) a \<Longrightarrow> m i = m j"
  using assms unfolding mem_ok_def by blast+

lemma user_count:
  assumes "mem_ok env m h" "points (m i) a" "h a = Some b"
  shows "card (users m a - {i}) = blk_count b - 1" "blk_count b = 1 \<Longrightarrow> points (m j) a \<Longrightarrow> j = i"
    "points (m j) a \<Longrightarrow> j \<noteq> i \<Longrightarrow> 1 < blk_count b \<and> blk_refs b = Some (blk_count b)"
proof -
  have i: "i \<in> users m a" using assms(2) by (simp add: users_def)
  show c: "card (users m a - {i}) = blk_count b - 1"
    using mem_okD(2) [OF assms(1,3)] i by (simp add: card_Diff_singleton)
  show one: "blk_count b = 1 \<Longrightarrow> points (m j) a \<Longrightarrow> j = i"
    using c by (auto simp: users_def)
  assume "points (m j) a" "j \<noteq> i"
  then have "blk_count b \<noteq> 1" using one by blast
  then have "1 < blk_count b" using mem_okD(3) [OF assms(1,3)] by linarith
  then show "1 < blk_count b \<and> blk_refs b = Some (blk_count b)" using blk_count_shared by blast
qed

lemma blk_count_set [simp]: "blk_count (b\<lparr>blk_refs := Some n\<rparr>) = n"
  by (simp add: blk_count_def)

lemma mem_ok_release:
  assumes ok: "mem_ok env m h"
  shows "mem_ok env (m(i := None)) (released h (m i))"
  unfolding mem_ok_def
proof (intro conjI allI impI)
  fix j c
  assume j: "(m(i := None)) j = Some c"
  then have ji: "j \<noteq> i" "m j = Some c" by (auto split: if_splits)
  show "core_ok env (released h (m i)) c"
  proof (rule core_ok_mono [OF mem_okD(1) [OF ok ji(2)]])
    fix a b assume "points (Some c) a" "h a = Some b"
    then show "\<exists>b'. released h (m i) a = Some b' \<and> blk_bytes b' = blk_bytes b \<and> (blk_refs b' = None \<longleftrightarrow> blk_refs b = None)"
      using user_count(3) [OF ok, of i a b j] ji by (auto simp: released_def)
  qed
next
  fix a b'
  assume h': "released h (m i) a = Some b'"
  show "card (users (m(i := None)) a) = blk_count b'" "0 < blk_count b'"
  proof -
    obtain b where b: "h a = Some b" using h' by (auto simp: released_def split: option.splits if_splits)
    show "card (users (m(i := None)) a) = blk_count b'" "0 < blk_count b'"
      using h' b mem_okD(2,3) [OF ok b] user_count(1) [OF ok _ b, of i]
      by (auto simp: released_def users_upd_free users_upd split: if_splits)
  qed
next
  fix j k a
  assume "points ((m(i := None)) j) a" "points ((m(i := None)) k) a"
  then show "(m(i := None)) j = (m(i := None)) k"
    using mem_okD(4) [OF ok, of j a k] by (auto split: if_splits)
qed

lemma mem_ok_put_small:
  assumes ok: "mem_ok env m h" and i: "m i = None" and c: "small_ok env c"
  shows "mem_ok env (m(i \<mapsto> c)) h"
  using ok i points_small [OF c] c unfolding mem_ok_def
  by (auto simp: users_upd_free core_ok_def)

lemma mem_ok_put_new:
  assumes ok: "mem_ok env m h" and i: "m i = None" and a: "h a = None"
    and c: "long_ok c a n cap b" and b: "blk_count b = 1"
  shows "mem_ok env (m(i \<mapsto> c)) (h(a \<mapsto> b))"
proof -
  have p: "\<not> points (m j) a" for j using pointed_block [OF ok] a by fastforce
  then have u: "users m a = {}" by (simp add: users_def)
  show ?thesis unfolding mem_ok_def
  proof (intro conjI allI impI)
    fix j d assume j: "(m(i \<mapsto> c)) j = Some d"
    show "core_ok env (h(a \<mapsto> b)) d"
    proof (cases "j = i")
      case True with j c show ?thesis by (auto simp: core_ok_def)
    next
      case False
      with j have "m j = Some d" by simp
      then show ?thesis
        using p [of j] by (intro core_ok_mono [OF mem_okD(1) [OF ok \<open>m j = Some d\<close>]]) auto
    qed
  next
    fix a' b' assume h': "(h(a \<mapsto> b)) a' = Some b'"
    have i': "i \<notin> users m a'" using i by (simp add: users_def)
    show "card (users (m(i \<mapsto> c)) a') = blk_count b'" "0 < blk_count b'"
      using i h' b u i' mem_okD(2,3) [OF ok, of a' b'] by (auto simp: users_upd_free points_long [OF c] split: if_splits)
  next
    fix j k a'
    assume "points ((m(i \<mapsto> c)) j) a'" "points ((m(i \<mapsto> c)) k) a'"
    then show "(m(i \<mapsto> c)) j = (m(i \<mapsto> c)) k"
      using mem_okD(4) [OF ok, of j a' k] p points_long [OF c] by (auto split: if_splits)
  qed
qed

lemma mem_ok_put_shared:
  assumes ok: "mem_ok env m h" and i: "m i = None" and j: "m j = Some c" "points (Some c) a"
    and a: "h a = Some b" "blk_refs b = Some k"
  shows "mem_ok env (m(i \<mapsto> c)) (h(a \<mapsto> b\<lparr>blk_refs := Some (k + 1)\<rparr>))"
  unfolding mem_ok_def
proof (intro conjI allI impI)
  fix l d assume l: "(m(i \<mapsto> c)) l = Some d"
  then have "core_ok env h d" using mem_okD(1) [OF ok] j by (auto split: if_splits)
  then show "core_ok env (h(a \<mapsto> b\<lparr>blk_refs := Some (k + 1)\<rparr>)) d"
    by (rule core_ok_mono) (use a in auto)
next
  fix a' b' assume h': "(h(a \<mapsto> b\<lparr>blk_refs := Some (k + 1)\<rparr>)) a' = Some b'"
  have i': "i \<notin> users m a'" using i by (simp add: users_def)
  show "card (users (m(i \<mapsto> c)) a') = blk_count b'" "0 < blk_count b'"
    using i h' a i' mem_okD(2,3) [OF ok, of a' b'] mem_okD(2,3) [OF ok a(1)] points_unique [OF j(2)]
    by (auto simp: users_upd_free blk_count_def split: if_splits)
next
  fix l l' a'
  assume "points ((m(i \<mapsto> c)) l) a'" "points ((m(i \<mapsto> c)) l') a'"
  then show "(m(i \<mapsto> c)) l = (m(i \<mapsto> c)) l'"
    using mem_okD(4) [OF ok] j(1) by (metis fun_upd_apply)
qed

section \<open>One string is replaced\<close>

text \<open>The postcondition of every operation: string \<open>i\<close> now has the characters \<open>xs\<close>.\<close>

definition post :: "fb_env \<Rightarrow> oid \<Rightarrow> mem \<Rightarrow> u8 list \<Rightarrow> mem \<Rightarrow> bool" where
  "post env i st xs st' \<longleftrightarrow> fb_ok env st' \<and> frame {i} st st' \<and> strings st' i = Some xs"

text \<open>A string that is the only user of its block.\<close>

definition unique :: "mem \<Rightarrow> oid \<Rightarrow> u64 \<Rightarrow> nat \<Rightarrow> nat \<Rightarrow> block \<Rightarrow> bool" where
  "unique st i a n cap b \<longleftrightarrow> heap st a = Some b \<and> blk_count b = 1 \<and>
     objs st i = Some (ml_core a n cap (long_category b)) \<and> long_ok (ml_core a n cap (long_category b)) a n cap b"

lemma released_bytes:
  assumes "mem_ok env m h" "points (m j) a" "j \<noteq> i"
  shows "map_option blk_bytes (released h (m i) a) = map_option blk_bytes (h a)" "released h (m i) a \<noteq> None"
proof -
  obtain b where b: "h a = Some b" using pointed_block [OF assms(1,2)] by blast
  have "points (m i) a \<Longrightarrow> blk_count b \<noteq> 1"
    using user_count(3) [OF assms(1) _ b assms(2,3)] by auto
  then show "map_option blk_bytes (released h (m i) a) = map_option blk_bytes (h a)" "released h (m i) a \<noteq> None"
    using b by (auto simp: released_def)
qed

lemma frame_released:
  assumes "fb_ok env st"
  shows "frame {i} st (st\<lparr>objs := (objs st)(i := x), heap := released (heap st) (objs st i)\<rparr>)"
  using released_bytes [OF assms [unfolded fb_ok_def]] by (auto simp: frame_def same_storage_def)

lemma content_small: "small_ok env c \<Longrightarrow> content h c = take (smallSize c) c"
  by (simp add: content_def small_category)

lemma content_long: "long_ok c a n cap b \<Longrightarrow> h a = Some b \<Longrightarrow> content h c = take n (blk_bytes b)"
  using long_fields [of c a n cap b] by (simp add: content_def)

lemma replace_small:
  assumes "fb_ok env st" "small_ok env c"
  shows "post env i st (take (smallSize c) c)
    (st\<lparr>objs := (objs st)(i \<mapsto> c), heap := released (heap st) (objs st i)\<rparr>)"
  using mem_ok_put_small [OF mem_ok_release [OF assms(1) [unfolded fb_ok_def], of i], of i c] assms
    frame_released [OF assms(1), of i "Some c"]
  by (simp add: post_def fb_ok_def strings_def content_small)

lemma replace_new:
  assumes "fb_ok env st" "released (heap st) (objs st i) a = None" "long_ok c a n cap b" "blk_count b = 1"
  defines "st' \<equiv> st\<lparr>objs := (objs st)(i \<mapsto> c), heap := (released (heap st) (objs st i))(a \<mapsto> b)\<rparr>"
  shows "post env i st (take n (blk_bytes b)) st'" "unique st' i a n cap b"
proof -
  have "same_storage (heap st) (heap st') (objs st j)" if "j \<noteq> i" for j
  proof -
    note r = released_bytes [OF assms(1) [unfolded fb_ok_def] _ that]
    have "\<not> points (objs st j) a" using r(2) [of a] assms(2) by blast
    then show ?thesis using r(1) by (auto simp: same_storage_def st'_def)
  qed
  then have "frame {i} st st'" by (simp add: frame_def st'_def)
  moreover have "fb_ok env st'"
    using mem_ok_put_new [OF mem_ok_release [OF assms(1) [unfolded fb_ok_def], of i], of i a c n cap b] assms
    by (simp add: fb_ok_def st'_def)
  ultimately show "post env i st (take n (blk_bytes b)) st'"
    using content_long [OF assms(3)] by (simp add: post_def strings_def st'_def)
  show "unique st' i a n cap b"
    using assms(3,4) by (simp add: unique_def st'_def long_ok_def)
qed

lemma unique_released:
  assumes "unique st i a n cap b"
  shows "released (heap st) (objs st i) = (heap st)(a := None)"
  using assms points_long [of "ml_core a n cap (long_category b)" a n cap b]
  by (auto simp: released_def unique_def fun_eq_iff)

lemma replace_unique:
  assumes "fb_ok env st" "unique st i a n cap b" "a' = a \<or> heap st a' = None"
    "long_ok c a' n' cap' b'" "blk_count b' = 1"
  defines "st' \<equiv> st\<lparr>objs := (objs st)(i \<mapsto> c), heap := ((heap st)(a := None))(a' \<mapsto> b')\<rparr>"
  shows "post env i st (take n' (blk_bytes b')) st'" "unique st' i a' n' cap' b'"
  using replace_new [OF assms(1) _ assms(4,5), of i] assms(3) unfolding st'_def unique_released [OF assms(2)]
  by auto

section \<open>Outcomes\<close>

text \<open>
  What the code relies on: \<open>malloc\<close> returns an address that is not in use, \<open>nallocx\<close> returns 0 or the
  size that a request is rounded up to, and the aligned words that hold the last character of a string can
  be read.
\<close>

definition env_ok :: "fb_env \<Rightarrow> bool" where
  "env_ok env \<longleftrightarrow> (\<forall>h n a. malloc_at env h n = Some a \<longrightarrow> h a = None) \<and>
     (\<forall>n. length (raw_bytes env n) = n) \<and> (\<forall>p. length (bytes_behind env p) = 7) \<and>
     (\<forall>n \<le> 2 ^ 61. nallocx env n = 0 \<or> n \<le> nallocx env n \<and> nallocx env n \<le> 2 ^ 61)"

text \<open>An allocation failed although few blocks were live.\<close>

definition exhausted :: "fb_env \<Rightarrow> bool" where
  "exhausted env \<longleftrightarrow> (\<exists>h n. card (dom h) \<le> 2 ^ 33 \<and> malloc_at env h n = None)"

definition yields :: "fb_env \<Rightarrow> 'a result \<Rightarrow> ('a \<Rightarrow> bool) \<Rightarrow> bool" where
  "yields env r P = (case r of Inl e \<Rightarrow> e = Bad_Alloc \<and> exhausted env | Inr x \<Rightarrow> P x)"

lemma yields_Inr [simp]: "yields env (Inr x) P = P x"
  by (simp add: yields_def)

lemma yields_andthen [simp]: "yields env (andthen r f) P = yields env r (\<lambda>x. yields env (f x) P)"
  by (cases r) (simp_all add: yields_def)

lemma yields_mono: "yields env r P \<Longrightarrow> (\<And>x. P x \<Longrightarrow> Q x) \<Longrightarrow> yields env r Q"
  by (cases r) (simp_all add: yields_def)

lemma env_okD:
  assumes "env_ok env"
  shows "malloc_at env h n = Some a \<Longrightarrow> h a = None" "length (raw_bytes env n) = n"
    "length (bytes_behind env p) = 7"
  using assms unfolding env_ok_def by blast+

lemma goodMallocSize_bounds:
  assumes "env_ok env" "n \<le> 2 ^ 61"
  shows "n \<le> goodMallocSize env n" "goodMallocSize env n \<le> 2 ^ 61"
  using assms unfolding env_ok_def goodMallocSize_def by (auto simp: Let_def)

lemma card_oid: "card (UNIV :: oid set) \<le> 2 ^ 33"
proof -
  have "UNIV \<subseteq> range Str \<union> {Core_Temp, Str_Temp}"
    by (auto intro: oid.exhaust)
  then have "card (UNIV :: oid set) \<le> card (range Str \<union> {Core_Temp, Str_Temp})"
    by (intro card_mono) simp_all
  also have "\<dots> \<le> card (range Str) + card {Core_Temp, Str_Temp}" by (rule card_Un_le)
  also have "card (range Str) \<le> CARD(u32)" by (rule card_image_le) simp
  finally show ?thesis by (simp add: card_word)
qed

lemma few_blocks:
  assumes "fb_ok env st"
  shows "card (dom (heap st)) \<le> 2 ^ 33"
proof -
  have "dom (heap st) \<subseteq> (\<lambda>i. ml_data (the (objs st i))) ` UNIV"
  proof
    fix a assume "a \<in> dom (heap st)"
    then obtain b where "heap st a = Some b" by blast
    with assms have "card (users (objs st) a) \<noteq> 0"
      using mem_okD(2,3) [of env "objs st" "heap st" a b] by (simp add: fb_ok_def)
    then obtain i where "i \<in> users (objs st) a" by (metis card.empty ex_in_conv)
    then have "a = ml_data (the (objs st i))" by (auto simp: points_def)
    then show "a \<in> (\<lambda>i. ml_data (the (objs st i))) ` UNIV" by blast
  qed
  then have "card (dom (heap st)) \<le> card ((\<lambda>i. ml_data (the (objs st i))) ` UNIV)"
    by (intro card_mono) simp_all
  also have "\<dots> \<le> card (UNIV :: oid set)" by (rule card_image_le) simp
  finally show ?thesis using card_oid by linarith
qed

lemma checkedMalloc_yields:
  assumes "env_ok env" "card (dom (heap st)) \<le> 2 ^ 33"
    "\<And>a. heap st a = None \<Longrightarrow>
      P (a, st\<lparr>heap := (heap st)(a \<mapsto> \<lparr>blk_refs = rc, blk_bytes = raw_bytes env (n - header)\<rparr>)\<rparr>)"
  shows "yields env (checkedMalloc env rc header n st) P"
proof (cases "malloc_at env (heap st) n")
  case None
  then have "exhausted env" using assms(2) unfolding exhausted_def by blast
  with None show ?thesis by (simp add: checkedMalloc_def yields_def)
next
  case (Some a)
  with assms(3) env_okD(1) [OF assms(1)] show ?thesis by (simp add: checkedMalloc_def)
qed

end
