(* ===== verification/Folly_FBString_Core.thy ===== *)
theory Folly_FBString_Core
  imports Folly_FBString_State
begin

text \<open>
  The operations of \<open>fbstring_core\<close>: each one yields a memory in which one string has the characters it
  should have and everything else is as before.
\<close>

section \<open>Reading and copying\<close>

lemma mem_update_order [simp]: "objs_update f (heap_update g st) = heap_update g (objs_update f st)"
  by (cases st) simp

lemma get_core_Some [simp]: "objs st i = Some c \<Longrightarrow> get_core st i = Inr c"
  by (simp add: get_core_def)

lemma objs_put_core [simp]: "objs (put_core i c st) = (objs st)(i \<mapsto> c)"
  and heap_put_core [simp]: "heap (put_core i c st) = heap st"
  by (simp_all add: put_core_def)

lemma read_put_core: "read_mem st p n = Inr cs \<Longrightarrow> objs st i = None \<Longrightarrow> read_mem (put_core i c st) p n = Inr cs"
  by (cases p) (auto simp: read_mem_def put_core_def split: option.splits)

lemma read_alloc:
  "read_mem st p n = Inr cs \<Longrightarrow> heap st a = None \<Longrightarrow> read_mem (st\<lparr>heap := (heap st)(a \<mapsto> b)\<rparr>) p n = Inr cs"
  by (cases p) (auto simp: read_mem_def split: option.splits)

lemma read_not_new: "read_mem st p n = Inr cs \<Longrightarrow> heap st a = None \<Longrightarrow> \<not> same_base p (In_Block a k)"
  by (cases p) (auto simp: read_mem_def split: option.splits)

lemma read_not_dead: "read_mem st p n = Inr cs \<Longrightarrow> objs st i = None \<Longrightarrow> \<not> same_base p (In_Object i k)"
  by (cases p) (auto simp: read_mem_def split: option.splits)

lemma read_length: "read_mem st p n = Inr cs \<Longrightarrow> length cs = n"
  by (auto simp: read_mem_def andthen_eq_Inr_iff split: if_splits)

lemma read_block: "heap st a = Some b \<Longrightarrow> k + n \<le> length (blk_bytes b) \<Longrightarrow>
    read_mem st (In_Block a k) n = Inr (take n (drop k (blk_bytes b)))"
  by (simp add: read_mem_def)

lemma read_object: "objs st i = Some c \<Longrightarrow> k + n \<le> length c \<Longrightarrow>
    read_mem st (In_Object i k) n = Inr (take n (drop k c))"
  by (simp add: read_mem_def)

lemma copy_to_new:
  assumes "read_mem st p n = Inr cs" "heap st a = None" "n \<le> length bs"
  shows "podCopy (st\<lparr>heap := (heap st)(a \<mapsto> \<lparr>blk_refs = rc, blk_bytes = bs\<rparr>)\<rparr>) p n (In_Block a 0) =
    Inr (st\<lparr>heap := (heap st)(a \<mapsto> \<lparr>blk_refs = rc, blk_bytes = cs @ drop n bs\<rparr>)\<rparr>)"
  using read_alloc [OF assms(1,2)] read_not_new [OF assms(1,2)] read_length [OF assms(1)] assms(3)
  by (simp add: podCopy_def)

lemma fb_ok_core: "fb_ok env st \<Longrightarrow> objs st i = Some c \<Longrightarrow> core_ok env (heap st) c"
  unfolding fb_ok_def by (rule mem_okD(1))

lemma malloc_yields:
  assumes "env_ok env" "fb_ok env st" "heap st' = heap st"
    "\<And>a bs. heap st a = None \<Longrightarrow> length bs = n - header \<Longrightarrow>
      P (a, st'\<lparr>heap := (heap st')(a \<mapsto> \<lparr>blk_refs = rc, blk_bytes = bs\<rparr>)\<rparr>)"
  shows "yields env (checkedMalloc env rc header n st') P"
  using assms(3,4) few_blocks [OF assms(2)] env_okD(2) [OF assms(1)]
  by (intro checkedMalloc_yields assms(1)) simp_all

section \<open>Construction\<close>

lemma setSmallSize:
  assumes "length c = 24" "s \<le> 23"
  shows "length (setSmallSize s c) = 24" "smallSize (setSmallSize s c) = s"
    "take s (setSmallSize s c) = take s c"
    "(disable_sso env \<longrightarrow> s = 0) \<Longrightarrow> small_ok env (setSmallSize s c)"
proof -
  have "unat (of_nat (23 - s) :: u8) = 23 - s"
    by (subst unat_of_nat) simp
  then have b: "unat (setSmallSize s c ! 23) = 23 - s"
    using assms by (cases "s = 23") (simp_all add: setSmallSize_def)
  show l: "length (setSmallSize s c) = 24" using assms by (simp add: setSmallSize_def)
  show s: "smallSize (setSmallSize s c) = s" using assms b by (simp add: smallSize_def)
  show "take s (setSmallSize s c) = take s c" using assms by (simp add: setSmallSize_def)
  have "setSmallSize s c ! s = 0" using assms by (simp add: setSmallSize_def)
  then show "(disable_sso env \<longrightarrow> s = 0) \<Longrightarrow> small_ok env (setSmallSize s c)"
    unfolding small_ok_def l s b by simp
qed

lemma put_small_post:
  assumes "fb_ok env st" "\<And>a. \<not> points (objs st i) a" "length c = 24" "s \<le> 23" "disable_sso env \<longrightarrow> s = 0"
  shows "post env i st (take s c) (st\<lparr>objs := (objs st)(i \<mapsto> setSmallSize s c)\<rparr>)"
  using replace_small [OF assms(1) setSmallSize(4) [OF assms(3,4,5)], of i] assms(2)
    setSmallSize(2,3) [OF assms(3,4)] by simp

lemma core_default_post:
  assumes "env_ok env" "fb_ok env st" "objs st i = None"
  shows "\<exists>st'. core_default env i st = Inr st' \<and> post env i st [] st' \<and>
    objs st' = (objs st)(i \<mapsto> setSmallSize 0 (raw_bytes env 24)) \<and> heap st' = heap st"
  using put_small_post [of env st i "raw_bytes env 24" 0] assms env_okD(2) [OF assms(1)]
  by (simp add: core_default_def reset_def new_object_def put_core_def)

lemma initSmall_yields:
  assumes "env_ok env" "fb_ok env st" "objs st i = None" "read_mem st p n = Inr cs"
    "n \<le> 23" "\<not> disable_sso env"
  shows "yields env (initSmall env i p n (new_object env i st)) (post env i st cs)"
proof -
  let ?r = "raw_bytes env 24"
  have r: "length ?r = 24" using env_okD(2) [OF assms(1)] .
  have cs: "length cs = n" using assms(4) by (rule read_length)
  have rd: "read_mem (new_object env i st) p n = Inr cs"
    unfolding new_object_def by (rule read_put_core [OF assms(4,3)])
  let ?ws = "take (8 * ((n + 7) div 8)) (cs @ bytes_behind env p)"
  have w: "length ?ws = 8 * ((n + 7) div 8)" "take n ?ws = cs"
    using cs env_okD(3) [OF assms(1), of p] by (auto simp: min_def)
  have "(n + 7) div 8 \<le> 30 div 8" using assms(5) by (intro div_le_mono) simp
  then have "8 * ((n + 7) div 8) \<le> 24" by simp
  then have l: "length (overwrite ?r 0 ?ws) = 24"
    unfolding overwrite_0 length_append length_drop w(1) r by simp
  have t: "take n (overwrite ?r 0 ?ws) = cs" using w cs by simp
  have p: "post env i st cs (st\<lparr>objs := (objs st)(i \<mapsto> setSmallSize n c)\<rparr>)" if "length c = 24" "take n c = cs" for c
    using put_small_post [OF assms(2) _ that(1) assms(5)] assms(3,6) that(2) by simp
  have copy: "podCopy (new_object env i st) p n (In_Object i 0) = Inr (put_core i (cs @ drop n ?r) st)"
    using rd read_not_dead [OF assms(4,3)] cs r assms(5) by (simp add: podCopy_def new_object_def put_core_def)
  show ?thesis
    using rd copy p [OF l t] p [of "cs @ drop n ?r"] p [OF r] cs r assms(5,6)
    by (auto simp: initSmall_def Let_def new_object_def put_core_def)
qed

lemma attach_new:
  assumes "fb_ok env st" "\<And>a. \<not> points (objs st i) a" "heap st a = None"
    "rc = None \<and> cat = isMedium \<or> rc = Some 1 \<and> cat = isLarge"
    "n \<le> cap" "cap < length bs" "cap + 1 + (if rc = None then 0 else 8) \<le> 2 ^ 61" "bs ! n = 0"
  defines "st' \<equiv> st\<lparr>objs := (objs st)(i \<mapsto> ml_core a n cap cat),
    heap := (heap st)(a \<mapsto> \<lparr>blk_refs = rc, blk_bytes = bs\<rparr>)\<rparr>"
  shows "post env i st (take n bs) st'" "unique st' i a n cap \<lparr>blk_refs = rc, blk_bytes = bs\<rparr>"
proof -
  let ?b = "\<lparr>blk_refs = rc, blk_bytes = bs\<rparr>"
  have cat: "cat = long_category ?b" "blk_count ?b = 1"
    using assms(4) by (auto simp: long_category_def blk_count_def)
  have l: "long_ok (ml_core a n cap cat) a n cap ?b"
    using assms(5-8) cat(1) by (auto simp: long_ok_def header_size_def split: option.splits)
  show "post env i st (take n bs) st'" "unique st' i a n cap ?b"
    using replace_new [OF assms(1) _ l cat(2), of i] assms(2,3) unfolding st'_def by simp_all
qed

text \<open>Sizes for which the arithmetic of the code does not wrap around.\<close>

text \<open>
  A block for \<open>n\<close> characters: the capacity it has room for, and fresh bytes. The sizes are ones for which
  the arithmetic of the code does not wrap around.
\<close>

lemma rc_create_yields:
  assumes "env_ok env" "fb_ok env st" "heap st' = heap st" "n + 9 \<le> 2 ^ 61"
    "\<And>a bs cap. heap st a = None \<Longrightarrow> n \<le> cap \<Longrightarrow> cap + 9 \<le> 2 ^ 61 \<Longrightarrow> length bs = Suc cap \<Longrightarrow>
      P (a, cap, st'\<lparr>heap := (heap st)(a \<mapsto> \<lparr>blk_refs = Some 1, blk_bytes = bs\<rparr>)\<rparr>)"
  shows "yields env (rc_create env n st') P"
proof -
  define g where "g = goodMallocSize env ((8 + (n + 1)) mod 2 ^ 64)"
  have "(8 + (n + 1)) mod 2 ^ 64 = n + 9" using assms(4) by simp
  then have "g = goodMallocSize env (n + 9)" unfolding g_def by (rule arg_cong)
  then have g: "n + 9 \<le> g" "g \<le> 2 ^ 61"
    using goodMallocSize_bounds [OF assms(1,4)] by simp_all
  show ?thesis
    unfolding rc_create_def Let_def yields_andthen g_def [symmetric]
  proof (rule malloc_yields [OF assms(1-3)])
    fix a and bs :: "u8 list"
    assume "heap st a = None" "length bs = g - 8"
    then show "yields env (case (a, st'\<lparr>heap := (heap st')(a \<mapsto> \<lparr>blk_refs = Some 1, blk_bytes = bs\<rparr>)\<rparr>) of
        (a, st'a) \<Rightarrow> Inr (a, g - 8 - 1, st'a)) P"
      using assms(5) [of a "g - 8 - 1" bs] assms(3) g by simp
  qed
qed

lemma medium_yields:
  assumes "env_ok env" "fb_ok env st" "heap st' = heap st" "n + 1 \<le> 2 ^ 61"
    "\<And>a bs cap. heap st a = None \<Longrightarrow> n \<le> cap \<Longrightarrow> cap + 1 \<le> 2 ^ 61 \<Longrightarrow> length bs = Suc cap \<Longrightarrow>
      yields env (f (Suc cap) (a, st'\<lparr>heap := (heap st)(a \<mapsto> \<lparr>blk_refs = None, blk_bytes = bs\<rparr>)\<rparr>)) P"
  shows "yields env (let g = goodMallocSize env (1 + n) in andthen (checkedMalloc env None 0 g st') (f g)) P"
    "yields env (let g = goodMallocSize env ((1 + n) mod 2 ^ 64) in andthen (checkedMalloc env None 0 g st') (f g)) P"
proof -
  define g where "g = goodMallocSize env (1 + n)"
  have g: "1 + n \<le> g" "g \<le> 2 ^ 61"
    unfolding g_def using goodMallocSize_bounds [OF assms(1)] assms(4) by simp_all
  have "yields env (checkedMalloc env None 0 g st') (\<lambda>x. yields env (f g x) P)"
  proof (rule malloc_yields [OF assms(1-3)])
    fix a and bs :: "u8 list"
    assume "heap st a = None" "length bs = g - 0"
    then show "yields env (f g (a, st'\<lparr>heap := (heap st')(a \<mapsto> \<lparr>blk_refs = None, blk_bytes = bs\<rparr>)\<rparr>)) P"
      using assms(5) [of a "g - 1" bs] assms(3) g by simp
  qed
  then show "yields env (let g = goodMallocSize env (1 + n) in andthen (checkedMalloc env None 0 g st') (f g)) P"
    by (simp add: g_def Let_def)
  moreover have "(1 + n) mod 2 ^ 64 = 1 + n" using assms(4) by simp
  ultimately show "yields env (let g = goodMallocSize env ((1 + n) mod 2 ^ 64) in andthen (checkedMalloc env None 0 g st') (f g)) P"
    by (simp only:)
qed

lemma copy_to_new_objs:
  assumes "read_mem st p n = Inr cs" "objs st i = None" "heap st a = None" "n \<le> length bs"
  shows "podCopy (st\<lparr>objs := (objs st)(i \<mapsto> c), heap := (heap st)(a \<mapsto> \<lparr>blk_refs = rc, blk_bytes = bs\<rparr>)\<rparr>) p n (In_Block a 0) =
    Inr (st\<lparr>objs := (objs st)(i \<mapsto> c), heap := (heap st)(a \<mapsto> \<lparr>blk_refs = rc, blk_bytes = cs @ drop n bs\<rparr>)\<rparr>)"
  using copy_to_new [OF read_put_core [OF assms(1,2), of c], of a bs rc] assms(3,4) by (simp add: put_core_def)

lemma copy_to_new_if:
  assumes "read_mem st p n = Inr cs" "objs st i = None" "heap st a = None" "n \<le> length bs"
  shows "(if 0 < n then podCopy (st\<lparr>objs := (objs st)(i \<mapsto> c), heap := (heap st)(a \<mapsto> \<lparr>blk_refs = rc, blk_bytes = bs\<rparr>)\<rparr>) p n (In_Block a 0)
      else Inr (st\<lparr>objs := (objs st)(i \<mapsto> c), heap := (heap st)(a \<mapsto> \<lparr>blk_refs = rc, blk_bytes = bs\<rparr>)\<rparr>)) =
    Inr (st\<lparr>objs := (objs st)(i \<mapsto> c), heap := (heap st)(a \<mapsto> \<lparr>blk_refs = rc, blk_bytes = cs @ drop n bs\<rparr>)\<rparr>)"
  using copy_to_new_objs [OF assms] read_length [OF assms(1)] by auto

lemma attach_terminated:
  assumes "fb_ok env st" "\<And>a. \<not> points (objs st i) a" "heap st a = None"
    "rc = None \<and> cat = isMedium \<or> rc = Some 1 \<and> cat = isLarge"
    "n \<le> cap" "cap < length bs" "cap + 1 + (if rc = None then 0 else 8) \<le> 2 ^ 61" "length cs = n"
  defines "st' \<equiv> st\<lparr>objs := (objs st)(i \<mapsto> ml_core a n cap cat),
    heap := (heap st)(a \<mapsto> \<lparr>blk_refs = rc, blk_bytes = cs @ 0 # drop (Suc n) bs\<rparr>)\<rparr>"
  shows "post env i st cs st'" "unique st' i a n cap \<lparr>blk_refs = rc, blk_bytes = cs @ 0 # drop (Suc n) bs\<rparr>"
proof -
  have l: "cap < length (cs @ 0 # drop (Suc n) bs)" "(cs @ 0 # drop (Suc n) bs) ! n = 0"
    "take n (cs @ 0 # drop (Suc n) bs) = cs"
    using assms(5,6,8) by (auto simp: nth_append)
  show "post env i st cs st'" "unique st' i a n cap \<lparr>blk_refs = rc, blk_bytes = cs @ 0 # drop (Suc n) bs\<rparr>"
    using attach_new [OF assms(1-5) l(1) assms(7) l(2)] unfolding st'_def l(3) by simp_all
qed

lemma initMedium_yields:
  assumes "env_ok env" "fb_ok env st" "objs st i = None" "read_mem st p n = Inr cs" "n + 1 \<le> 2 ^ 61"
  shows "yields env (initMedium env i p n (new_object env i st)) (post env i st cs)"
  unfolding initMedium_def
  by (rule medium_yields(1) [OF assms(1,2) _ assms(5)], simp add: new_object_def)
    (use read_length [OF assms(4)] assms(3) env_okD(2) [OF assms(1), of 24] attach_terminated(1) [OF assms(2), of i _ None isMedium n] in
      \<open>simp add: new_object_def put_core_def copy_to_new_if [OF assms(4,3)] core_simps overwrite_def\<close>)

lemma initLarge_yields:
  assumes "env_ok env" "fb_ok env st" "objs st i = None" "read_mem st p n = Inr cs" "n + 9 \<le> 2 ^ 61" "0 < n"
  shows "yields env (initLarge env i p n (new_object env i st)) (post env i st cs)"
  unfolding initLarge_def rc_create_from_def yields_andthen
  by (rule rc_create_yields [OF assms(1,2) _ assms(5)], simp add: new_object_def)
    (use read_length [OF assms(4)] assms(3,6) env_okD(2) [OF assms(1), of 24] attach_terminated(1) [OF assms(2), of i _ "Some 1" isLarge n] in
      \<open>simp add: new_object_def put_core_def copy_to_new_objs [OF assms(4,3)] core_simps overwrite_def\<close>)

lemma core_from_yields:
  assumes "env_ok env" "fb_ok env st" "objs st i = None" "read_mem st p n = Inr cs" "n + 9 \<le> 2 ^ 61"
  shows "yields env (core_from env i p n st) (post env i st cs)"
  using initSmall_yields [OF assms(1-4)] initMedium_yields [OF assms(1-4)] initLarge_yields [OF assms] assms(5)
  by (auto simp: core_from_def Let_def)

text \<open>The two kinds of object, with what the code reads from them.\<close>

lemma core_cases:
  assumes "fb_ok env st" "objs st i = Some c"
  obtains (small) "category c = isSmall" "small_ok env c" "length c = 24" "strings st i = Some (take (smallSize c) c)"
    "\<And>a. \<not> points (objs st i) a" "smallSize c \<le> 23" "core_size c = smallSize c"
  | (medium) a n cap b where "category c = isMedium" "c = ml_core a n cap isMedium" "heap st a = Some b"
    "blk_refs b = None" "blk_count b = 1" "long_ok c a n cap b" "strings st i = Some (take n (blk_bytes b))"
    "unique st i a n cap b" "ml_data c = a" "ml_size c = n" "ml_cap c = cap" "core_size c = n"
    "n \<le> cap" "cap < length (blk_bytes b)" "cap + 1 \<le> 2 ^ 61" "blk_bytes b ! n = 0"
  | (large) a n cap b k where "category c = isLarge" "c = ml_core a n cap isLarge" "heap st a = Some b"
    "blk_refs b = Some k" "blk_count b = k" "0 < k" "long_ok c a n cap b" "strings st i = Some (take n (blk_bytes b))"
    "k = 1 \<Longrightarrow> unique st i a n cap b" "ml_data c = a" "ml_size c = n" "ml_cap c = cap" "core_size c = n"
    "n \<le> cap" "cap < length (blk_bytes b)" "cap + 9 \<le> 2 ^ 61" "blk_bytes b ! n = 0"
  using fb_ok_core [OF assms]
proof (cases rule: core_ok_cases)
  case small
  then show thesis
    using that(1) points_small [OF small(1)] assms(2) content_small [OF small(1)] core_size_small [of c]
    by (simp add: small_ok_def strings_def smallSize_def)
next
  case (long a n cap b)
  note f = long_fields [OF long(2)]
  have s: "strings st i = Some (take n (blk_bytes b))"
    using content_long [where h = "heap st", OF long(2,1)] assms(2) by (simp add: strings_def)
  have pos: "0 < blk_count b" using mem_okD(3) [OF assms(1) [unfolded fb_ok_def] long(1)] .
  show thesis
  proof (cases "blk_refs b")
    case None
    have "unique st i a n cap b"
      using long(1,2) None assms(2) by (simp add: unique_def blk_count_def long_ok_def)
    then show thesis
      using that(2) None long(1,2) f s core_size_long [OF f(7)]
      by (auto simp: long_category_def long_ok_def blk_count_def header_size_def)
  next
    case (Some k)
    then have "k = 1 \<Longrightarrow> unique st i a n cap b"
      using long(1,2) assms(2) by (simp add: unique_def blk_count_def long_ok_def)
    then show thesis
      using that(3) Some long(1,2) f s pos core_size_long [OF f(7)]
      by (auto simp: long_category_def long_ok_def blk_count_def header_size_def)
  qed
qed

lemma released_long:
  "long_ok c a n cap b \<Longrightarrow> h a = Some b \<Longrightarrow> released h (Some c) =
    h(a := if blk_count b = 1 then None else Some (b\<lparr>blk_refs := Some (blk_count b - 1)\<rparr>))"
  by (auto simp: released_def points_long fun_eq_iff)

lemma core_copy_yields:
  assumes "env_ok env" "fb_ok env st" "objs st i = None" "objs st j = Some c" "strings st j = Some xs"
  shows "yields env (core_copy env i j st) (post env i st xs)"
proof -
  have ij: "i \<noteq> j" using assms(3,4) by auto
  from assms(2,4) show ?thesis
  proof (cases rule: core_cases)
    case small
    then show ?thesis
      using replace_small [OF assms(2) small(2), of i] assms(3-5) ij
      by (simp add: core_copy_def new_object_def put_core_def get_core_def)
  next
    case (medium a n cap b)
    have rd: "read_mem st (In_Block a 0) (n + 1) = Inr (take (n + 1) (blk_bytes b))"
      using medium by (simp add: read_block)
    have t: "take (n + 1) (blk_bytes b) = xs @ [0]"
      using medium assms(5) by (simp add: take_Suc_conv_app_nth)
    have "yields env (copyMedium env i c (new_object env i st)) (post env i st xs)"
      unfolding copyMedium_def medium(9,10)
      by (rule medium_yields(2) [OF assms(1,2)], simp add: new_object_def, use medium in simp)
        (use medium assms(3,5) env_okD(2) [OF assms(1), of 24] attach_terminated(1) [OF assms(2), of i _ None isMedium n] in
         \<open>simp add: new_object_def put_core_def copy_to_new_objs [OF rd [unfolded t] assms(3), simplified] core_simps\<close>)
    then show ?thesis
      using medium(1) assms(4) ij by (simp add: core_copy_def new_object_def get_core_def core_simps)
  next
    case (large a n cap b k)
    let ?st = "st\<lparr>objs := (objs st)(i \<mapsto> c), heap := (heap st)(a \<mapsto> b\<lparr>blk_refs := Some (k + 1)\<rparr>)\<rparr>"
    have "points (Some c) a" using points_long [OF large(7)] by simp
    then have "mem_ok env ((objs st)(i \<mapsto> c)) ((heap st)(a \<mapsto> b\<lparr>blk_refs := Some (k + 1)\<rparr>))"
      by (rule mem_ok_put_shared [OF assms(2) [unfolded fb_ok_def] assms(3,4) _ large(3,4)])
    moreover have "frame {i} st ?st"
      using large(3) by (auto simp: frame_def same_storage_def)
    moreover have "strings ?st i = Some (take n (blk_bytes b))"
      using large(1,10,11) by (simp add: strings_def content_def core_simps)
    moreover have "xs = take n (blk_bytes b)" using large(8) assms(5) by simp
    ultimately have "post env i st xs ?st" by (simp add: post_def fb_ok_def)
    then show ?thesis
      using large assms(3,4) ij
      by (simp add: core_copy_def new_object_def put_core_def get_core_def incrementRefs_def refs_def set_refs_def core_simps)
  qed
qed

lemma core_destroy_eq:
  assumes "fb_ok env st" "objs st i = Some c"
  shows "core_destroy i st = Inr (st\<lparr>objs := (objs st)(i := None), heap := released (heap st) (objs st i)\<rparr>)"
  using assms
proof (cases rule: core_cases)
  case small
  then show ?thesis using assms(2) by (simp add: core_destroy_def)
next
  case (medium a n cap b)
  then show ?thesis
    using assms(2) released_long [where h = "heap st", OF medium(6,3)]
    by (simp add: core_destroy_def destroyMediumLarge_def free_block_def core_simps)
next
  case (large a n cap b k)
  then show ?thesis
    using assms(2) released_long [where h = "heap st", OF large(7,3)]
    by (simp add: core_destroy_def destroyMediumLarge_def decrementRefs_def refs_def set_refs_def free_block_def core_simps)
qed

lemma core_destroy_post:
  assumes "fb_ok env st" "objs st i = Some c"
  shows "\<exists>st'. core_destroy i st = Inr st' \<and> fb_ok env st' \<and> frame {i} st st' \<and> objs st' i = None"
  using core_destroy_eq [OF assms] mem_ok_release [OF assms(1) [unfolded fb_ok_def], of i]
    frame_released [OF assms(1), of i None] by (simp add: fb_ok_def)

text \<open>Exchanging the names of two objects changes nothing else.\<close>

definition exchange :: "oid \<Rightarrow> oid \<Rightarrow> mem \<Rightarrow> mem" where
  "exchange i j st = st\<lparr>objs := (objs st)(i := objs st j, j := objs st i)\<rparr>"

lemma exchange_ok:
  assumes "fb_ok env st"
  shows "fb_ok env (exchange i j st)" "frame {i, j} st (exchange i j st)"
    "strings (exchange i j st) = (strings st)(i := strings st j, j := strings st i)"
proof -
  let ?p = "id(i := j, j := i)"
  have m: "objs (exchange i j st) = objs st \<circ> ?p" "heap (exchange i j st) = heap st"
    by (auto simp: exchange_def)
  have p: "?p \<circ> ?p = id" by auto
  then have "inj ?p" by (metis inj_on_id inj_on_imageI2)
  moreover have "users (objs st \<circ> ?p) a = ?p ` users (objs st) a" for a
  proof
    show "users (objs st \<circ> ?p) a \<subseteq> ?p ` users (objs st) a"
    proof
      fix x assume "x \<in> users (objs st \<circ> ?p) a"
      then have "?p x \<in> users (objs st) a" by simp
      then have "?p (?p x) \<in> ?p ` users (objs st) a" by (rule imageI)
      then show "x \<in> ?p ` users (objs st) a" using p by (metis comp_apply id_apply)
    qed
    show "?p ` users (objs st) a \<subseteq> users (objs st \<circ> ?p) a" by auto
  qed
  ultimately have "card (users (objs st \<circ> ?p) a) = card (users (objs st) a)" for a
    by (metis card_image inj_on_subset subset_UNIV)
  then show "fb_ok env (exchange i j st)"
    using assms unfolding fb_ok_def mem_ok_def m by (metis comp_apply)
  show "frame {i, j} st (exchange i j st)"
    by (auto simp: frame_def same_storage_def exchange_def)
  show "strings (exchange i j st) = (strings st)(i := strings st j, j := strings st i)"
    by (auto simp: strings_def exchange_def)
qed

lemma core_length: "fb_ok env st \<Longrightarrow> objs st i = Some c \<Longrightarrow> length c = 24"
  by (rule core_cases [of env st i c]) (simp_all add: length_ml_core)

lemma core_move_post:
  assumes "fb_ok env st" "objs st i = None" "objs st j = Some c"
  shows "\<exists>st'. core_move env i j st = Inr st' \<and> fb_ok env st' \<and> frame {i, j} st st' \<and>
    strings st' = (strings st)(i := strings st j, j \<mapsto> [])"
proof -
  have ij: "i \<noteq> j" using assms by auto
  let ?st = "exchange i j st"
  let ?st' = "?st\<lparr>objs := (objs ?st)(j \<mapsto> setSmallSize 0 c)\<rparr>"
  note e = exchange_ok [OF assms(1), of i j]
  have j: "objs ?st j = None" using assms(2) by (simp add: exchange_def)
  have p: "post env j ?st [] ?st'"
    using put_small_post [OF e(1) _ core_length [OF assms(1,3)], of j 0] j by simp
  have "frame {i, j} st ?st'"
    using e(2) p by (auto simp: post_def intro: frame_trans)
  moreover have "strings ?st' = (strings st)(i := strings st j, j \<mapsto> [])"
    using frame_strings_upd [of j ?st ?st' "[]"] p e(3) by (auto simp: post_def)
  moreover have "core_move env i j st = Inr ?st'"
    using assms(2,3) ij by (auto simp: core_move_def reset_def put_core_def exchange_def fun_upd_twist)
  ultimately show ?thesis using p by (auto simp: post_def)
qed

lemma core_swap_eq: "objs st i = Some c \<Longrightarrow> objs st j = Some d \<Longrightarrow> core_swap i j st = Inr (exchange i j st)"
  by (simp add: core_swap_def put_core_def exchange_def)

text \<open>A string takes custody of a block that \<open>malloc\<close> returned to the caller.\<close>

lemma core_adopt_post:
  assumes "env_ok env" "fb_ok env st" "objs st i = None" "heap st a = None"
    "n < length bs" "length bs \<le> 2 ^ 61" "bs ! n = 0"
  shows "\<exists>st'. core_adopt env i a n (length bs) (st\<lparr>heap := (heap st)(a \<mapsto> \<lparr>blk_refs = None, blk_bytes = bs\<rparr>)\<rparr>) = Inr st' \<and>
    post env i st (take n bs) st'"
proof (cases "n = 0")
  case False
  then show ?thesis
    using attach_new(1) [OF assms(2) _ assms(4), of i None isMedium n "length bs - 1" bs] assms env_okD(2) [OF assms(1), of 24]
    by (simp add: core_adopt_def new_object_def put_core_def core_simps Suc_le_eq)
next
  case True
  have "(heap st)(a := None) = heap st" using assms(4) by auto
  then show ?thesis
    using True put_small_post [OF assms(2), of i "raw_bytes env 24" 0] assms env_okD(2) [OF assms(1), of 24]
    by (cases st) (simp add: core_adopt_def new_object_def put_core_def free_block_def reset_def)
qed

section \<open>Changing a string in place\<close>

lemma update_unique:
  assumes "fb_ok env st" "unique st i a n cap b" "n' \<le> cap" "length bs = length (blk_bytes b)" "bs ! n' = 0"
  defines "st' \<equiv> st\<lparr>objs := (objs st)(i \<mapsto> ml_core a n' cap (long_category b)), heap := (heap st)(a \<mapsto> b\<lparr>blk_bytes := bs\<rparr>)\<rparr>"
  shows "post env i st (take n' bs) st'" "unique st' i a n' cap (b\<lparr>blk_bytes := bs\<rparr>)"
proof -
  have c: "long_category (b\<lparr>blk_bytes := bs\<rparr>) = long_category b" "blk_count (b\<lparr>blk_bytes := bs\<rparr>) = 1"
    "header_size (b\<lparr>blk_bytes := bs\<rparr>) = header_size b"
    using assms(2) by (simp_all add: long_category_def unique_def blk_count_def header_size_def)
  have l: "long_ok (ml_core a n' cap (long_category b)) a n' cap (b\<lparr>blk_bytes := bs\<rparr>)"
    using assms(2-5) c by (auto simp: unique_def long_ok_def)
  show "post env i st (take n' bs) st'" "unique st' i a n' cap (b\<lparr>blk_bytes := bs\<rparr>)"
    using replace_unique [OF assms(1,2) _ l c(2)] unfolding st'_def by simp_all
qed

lemma uniqueD:
  assumes "unique st i a n cap b"
  shows "objs st i = Some (ml_core a n cap (long_category b))" "heap st a = Some b"
    "category (ml_core a n cap (long_category b)) = long_category b" "n \<le> cap" "cap < length (blk_bytes b)"
    "cap + 1 + header_size b \<le> 2 ^ 61" "blk_bytes b ! n = 0" "strings st i = Some (take n (blk_bytes b))"
    "n < 2 ^ 64" "cap < 2 ^ 62" "blk_refs b = None \<or> blk_refs b = Some 1"
    "ml_cap (ml_core a n cap (long_category b)) = cap" "ml_size (ml_core a n cap (long_category b)) = n"
proof -
  have l: "long_ok (ml_core a n cap (long_category b)) a n cap b" using assms by (simp add: unique_def)
  note f = long_fields [OF l]
  show "category (ml_core a n cap (long_category b)) = long_category b"
    "ml_cap (ml_core a n cap (long_category b)) = cap" "ml_size (ml_core a n cap (long_category b)) = n"
    using f by simp_all
  show "strings st i = Some (take n (blk_bytes b))"
    using content_long [OF l, of "heap st"] assms by (simp add: strings_def unique_def)
  show "blk_refs b = None \<or> blk_refs b = Some 1"
    using assms by (auto simp: unique_def blk_count_def split: option.splits)
qed (use assms in \<open>auto simp: unique_def long_ok_def\<close>)

lemma shrinkMedium_post:
  assumes "fb_ok env st" "unique st i a n cap b" "delta \<le> n" "strings st i = Some xs"
  shows "\<exists>st'. shrinkMedium i delta st = Inr st' \<and> post env i st (take (n - delta) xs) st'"
proof -
  note u = uniqueD [OF assms(2)]
  let ?bs = "overwrite (blk_bytes b) (n - delta) [0]"
  have l: "length ?bs = length (blk_bytes b)" using u(4,5) by simp
  have z: "?bs ! (n - delta) = 0" using u(4,5) by (simp add: overwrite_def nth_append)
  have t: "take (n - delta) ?bs = take (n - delta) xs"
    using u(4,5,8) assms(3,4) by (simp add: overwrite_def)
  show ?thesis
    using update_unique(1) [OF assms(1,2) _ l z] u t assms(3)
    by (simp add: shrinkMedium_def put_core_def core_simps)
qed

text \<open>What \<open>reserve\<close> and \<open>expandNoinit\<close> leave behind: room for \<open>m\<close> characters that nobody else uses.\<close>

definition ready :: "mem \<Rightarrow> oid \<Rightarrow> nat \<Rightarrow> bool" where
  "ready st i m \<longleftrightarrow> (\<exists>c. objs st i = Some c \<and> category c = isSmall \<and> m \<le> 23) \<or>
     (\<exists>a n cap b. unique st i a n cap b \<and> m \<le> cap)"

lemma unshare_yields:
  assumes "env_ok env" "fb_ok env st" "objs st i = Some c" "category c = isLarge" "refs st (ml_data c) = Inr k"
    "1 < k" "strings st i = Some xs" "m + 9 \<le> 2 ^ 61"
  shows "yields env (unshare env i m st)
    (\<lambda>st'. post env i st xs st' \<and> (\<exists>a n cap b. unique st' i a n cap b \<and> m \<le> cap \<and> ml_cap c \<le> cap))"
  using assms(2,3)
proof (cases rule: core_cases)
  case (large a n cap b j)
  have k: "j = k" "k \<noteq> 1" using large(3,4,10) assms(5,6) by (auto simp: refs_def)
  have rd: "read_mem st (In_Block a 0) (n + 1) = Inr (xs @ [0])"
    using large assms(7) by (simp add: read_block take_Suc_conv_app_nth)
  have mx: "max m cap + 9 \<le> 2 ^ 61" using large(16) assms(8) by simp
  have rel: "released (heap st) (objs st i) = (heap st)(a \<mapsto> b\<lparr>blk_refs := Some (k - 1)\<rparr>)"
    using released_long [where h = "heap st", OF large(7,3)] large(5) k assms(3) by simp
  show ?thesis
    unfolding unshare_def get_core_Some [OF assms(3)] andthen_Inr large(10-12) yields_andthen
  proof (rule rc_create_yields [OF assms(1,2) refl mx])
    fix a' cap' and bs :: "u8 list"
    assume a': "heap st a' = None" and cap': "max m cap \<le> cap'" "cap' + 9 \<le> 2 ^ 61" and bs: "length bs = Suc cap'"
    let ?b = "\<lparr>blk_refs = Some 1, blk_bytes = (xs @ [0]) @ drop (n + 1) bs\<rparr>"
    have ne: "a' \<noteq> a" using a' large(3) by auto
    have cp: "podCopy (st\<lparr>heap := (heap st)(a' \<mapsto> \<lparr>blk_refs = Some 1, blk_bytes = bs\<rparr>)\<rparr>) (In_Block a 0) (n + 1) (In_Block a' 0) =
        Inr (st\<lparr>heap := (heap st)(a' \<mapsto> ?b)\<rparr>)"
      using large(14) cap'(1) bs by (intro copy_to_new [OF rd a']) simp
    have n: "length xs = n" using large assms(7) by simp
    have lb: "long_ok (ml_core a' n cap' isLarge) a' n cap' ?b"
      using cap' large(14) n bs by (simp add: long_ok_def long_category_def header_size_def nth_append)
    have "released (heap st) (objs st i) a' = None" using rel ne a' by simp
    note R = replace_new [OF assms(2) this lb, unfolded rel, simplified]
    have tk: "take n ((xs @ [0]) @ drop (n + 1) bs) = xs" using n by simp
    show "yields env (case (a', cap', st\<lparr>heap := (heap st)(a' \<mapsto> \<lparr>blk_refs = Some 1, blk_bytes = bs\<rparr>)\<rparr>) of
        (a', effectiveCapacity, st1) \<Rightarrow> andthen (podCopy st1 (In_Block a 0) (n + 1) (In_Block a' 0))
          (\<lambda>st2. andthen (decrementRefs a st2) (\<lambda>st3. Inr (put_core i (setCapacity effectiveCapacity isLarge (set_ml_data a' c)) st3))))
       (\<lambda>st'. post env i st xs st' \<and> (\<exists>a n capa b. unique st' i a n capa b \<and> m \<le> capa \<and> cap \<le> capa))"
      using R tk cap'(1) ne large(3,4) k
      by (auto simp: cp [simplified] decrementRefs_def refs_def set_refs_def put_core_def large(2) core_simps blk_count_def fun_upd_twist)
  qed
qed (use assms(4) in \<open>simp_all add: core_simps\<close>)

text \<open>The owner of a pointer into a string that may be written.\<close>

definition buffer :: "mem \<Rightarrow> oid \<Rightarrow> ptr \<Rightarrow> bool" where
  "buffer st i p \<longleftrightarrow> (\<exists>c. objs st i = Some c \<and> category c = isSmall \<and> p = In_Object i 0) \<or>
     (\<exists>a n cap b. unique st i a n cap b \<and> p = In_Block a 0)"

lemma unique_buffer: "unique st i a n cap b \<Longrightarrow> buffer st i (In_Block a 0)"
  by (auto simp: buffer_def)

lemma unique_core: "unique st i a n cap b \<Longrightarrow> get_core st i = Inr (ml_core a n cap (long_category b))"
  by (simp add: unique_def)

lemma post_refl: "fb_ok env st \<Longrightarrow> strings st i = Some xs \<Longrightarrow> post env i st xs st"
  by (simp add: post_def)

lemma post_trans: "post env i st xs st' \<Longrightarrow> post env i st' ys st'' \<Longrightarrow> post env i st ys st''"
  by (auto simp: post_def intro: frame_trans)

lemma mutableData_yields:
  assumes "env_ok env" "fb_ok env st" "strings st i = Some xs"
  shows "yields env (mutableData env i st) (\<lambda>(p, st'). post env i st xs st' \<and> buffer st' i p)"
proof -
  obtain c where c: "objs st i = Some c" using assms(3) by (auto simp: strings_def)
  have P: "post env i st xs st" using post_refl assms(2,3) .
  from assms(2) c show ?thesis
  proof (cases rule: core_cases)
    case small
    then show ?thesis using P c by (auto simp: mutableData_def buffer_def)
  next
    case (medium a n cap b)
    then show ?thesis using P c by (auto simp: mutableData_def buffer_def core_simps)
  next
    case (large a n cap b k)
    have r: "refs st a = Inr k" using large(3,4) by (simp add: refs_def)
    show ?thesis
    proof (cases "k = 1")
      case True
      then show ?thesis using P c large r by (auto simp: mutableData_def buffer_def core_simps)
    next
      case False
      then have "1 < k" using large(6) by simp
      note u = unshare_yields [OF assms(1,2) c large(1) _ this assms(3), unfolded large(10), OF r, of 0]
      have "yields env (unshare env i 0 st) (\<lambda>st'. yields env (get_core st' i)
          (\<lambda>c'. post env i st xs st' \<and> buffer st' i (In_Block (ml_data c') 0)))"
        by (rule yields_mono [OF u]) (auto simp: unique_core core_simps intro: unique_buffer)
      then show ?thesis
        using c large r \<open>1 < k\<close> by (simp add: mutableData_def core_simps)
    qed
  qed
qed

lemma smartRealloc_yields:
  assumes "env_ok env" "fb_ok env st" "unique st i a n cap b" "header_size b + (cap + 1) \<le> new"
    "\<And>a' bs. a' = a \<or> heap st a' = None \<Longrightarrow> length bs = new - header_size b \<Longrightarrow>
      take (n + 1) bs = take (n + 1) (blk_bytes b) \<Longrightarrow>
      P (a', st\<lparr>heap := ((heap st)(a := None))(a' \<mapsto> b\<lparr>blk_bytes := bs\<rparr>)\<rparr>)"
  shows "yields env (smartRealloc env a (header_size b + (n + 1)) (header_size b + (cap + 1)) new st) P"
proof -
  note u = uniqueD [OF assms(3)]
  let ?h = "header_size b"
  let ?e = "(heap st)(a := None)"
  have b: "\<lparr>blk_refs = blk_refs b, blk_bytes = bs\<rparr> = b\<lparr>blk_bytes := bs\<rparr>" for bs by (cases b) simp
  have alloc: "yields env (checkedMalloc env (blk_refs b) ?h new st) (\<lambda>(a', st1).
      yields env (podCopy st1 (In_Block a 0) (?h + (n + 1) - ?h) (In_Block a' 0))
        (\<lambda>st2. yields env (free_block a st2) (\<lambda>st3. P (a', st3))))"
  proof (rule malloc_yields [OF assms(1,2) refl], clarify)
    fix a' and bs :: "u8 list"
    assume a': "heap st a' = None" and bs: "length bs = new - ?h"
    have rd: "read_mem st (In_Block a 0) (n + 1) = Inr (take (n + 1) (blk_bytes b))"
      using u(2,4,5) by (simp add: read_block)
    have ne: "a' \<noteq> a" using a' u(2) by auto
    have cp: "podCopy (st\<lparr>heap := (heap st)(a' \<mapsto> \<lparr>blk_refs = blk_refs b, blk_bytes = bs\<rparr>)\<rparr>) (In_Block a 0) (n + 1) (In_Block a' 0) =
       Inr (st\<lparr>heap := (heap st)(a' \<mapsto> b\<lparr>blk_bytes := take (n + 1) (blk_bytes b) @ drop (n + 1) bs\<rparr>)\<rparr>)"
      using assms(4) bs u(4) by (subst copy_to_new [OF rd a']) (simp_all add: b)
    show "yields env (podCopy (st\<lparr>heap := (heap st)(a' \<mapsto> \<lparr>blk_refs = blk_refs b, blk_bytes = bs\<rparr>)\<rparr>) (In_Block a 0)
          (?h + (n + 1) - ?h) (In_Block a' 0)) (\<lambda>st2. yields env (free_block a st2) (\<lambda>st3. P (a', st3)))"
      using assms(5) [of a' "take (n + 1) (blk_bytes b) @ drop (n + 1) bs"] a' bs ne u(2,4,5) assms(4)
      by (simp add: cp [simplified] free_block_def fun_upd_twist)
  qed
  have "card (dom ?e) \<le> card (dom (heap st))" by (intro card_mono) auto
  then have few: "card (dom ?e) \<le> 2 ^ 33" using few_blocks [OF assms(2)] by linarith
  have "yields env (checkedRealloc env a new st) P"
  proof (cases "malloc_at env ?e new")
    case None
    then have "exhausted env" using few unfolding exhausted_def by blast
    then show ?thesis using None u(2) by (simp add: checkedRealloc_def yields_def)
  next
    case (Some a')
    let ?bs = "take (new - ?h) (blk_bytes b) @ drop (length (blk_bytes b)) (raw_bytes env (new - ?h))"
    have "a' = a \<or> heap st a' = None" using env_okD(1) [OF assms(1) Some] by (auto split: if_splits)
    moreover have "length ?bs = new - ?h" using env_okD(2) [OF assms(1)] by simp
    moreover have "n + 1 \<le> new - ?h" "n + 1 \<le> length (blk_bytes b)" using u(4,5) assms(4) by linarith+
    then have "take (n + 1) ?bs = take (n + 1) (blk_bytes b)" by simp
    ultimately have "P (a', st\<lparr>heap := ?e(a' \<mapsto> b\<lparr>blk_bytes := ?bs\<rparr>)\<rparr>)" by (rule assms(5))
    then show ?thesis using Some u(2) by (simp add: checkedRealloc_def Let_def)
  qed
  with alloc show ?thesis
    using u(2) by (simp add: smartRealloc_def Let_def case_prod_unfold)
qed

text \<open>A unique string moves to a larger block, or stays where it is.\<close>

lemma move_unique:
  assumes "fb_ok env st" "unique st i a n cap b" "a' = a \<or> heap st a' = None" "n \<le> cap'" "cap' < length bs"
    "cap' + 1 + header_size b \<le> 2 ^ 61" "take (n + 1) bs = take (n + 1) (blk_bytes b)" "strings st i = Some xs"
  defines "st' \<equiv> st\<lparr>objs := (objs st)(i \<mapsto> ml_core a' n cap' (long_category b)),
    heap := ((heap st)(a := None))(a' \<mapsto> b\<lparr>blk_bytes := bs\<rparr>)\<rparr>"
  shows "post env i st xs st'" "unique st' i a' n cap' (b\<lparr>blk_bytes := bs\<rparr>)"
proof -
  note u = uniqueD [OF assms(2)]
  have "bs ! n = take (n + 1) bs ! n" by simp
  also have "\<dots> = 0" unfolding assms(7) using u(7) by simp
  finally have z: "bs ! n = 0" .
  have c: "long_category (b\<lparr>blk_bytes := bs\<rparr>) = long_category b" "blk_count (b\<lparr>blk_bytes := bs\<rparr>) = 1"
    "header_size (b\<lparr>blk_bytes := bs\<rparr>) = header_size b"
    using assms(2) by (simp_all add: long_category_def unique_def blk_count_def header_size_def)
  have l: "long_ok (ml_core a' n cap' (long_category b)) a' n cap' (b\<lparr>blk_bytes := bs\<rparr>)"
    using assms(4-6) z c by (auto simp: long_ok_def)
  have "take n bs = take n (take (n + 1) bs)" by simp
  also have "\<dots> = xs" unfolding assms(7) using u(8) assms(8) by simp
  finally have t: "take n bs = xs" .
  show "post env i st xs st'" "unique st' i a' n cap' (b\<lparr>blk_bytes := bs\<rparr>)"
    using replace_unique [OF assms(1-3) l c(2)] t unfolding st'_def by simp_all
qed

lemma unique_length: "unique st i a n cap b \<Longrightarrow> strings st i = Some xs \<Longrightarrow> length xs = n"
  using uniqueD(4,5,8) [of st i a n cap b] by auto

text \<open>A temporary string takes the place of a string and dies with the old contents.\<close>

lemma swap_in:
  assumes "fb_ok env st3" "frame {t} st st3" "objs st t = None" "i \<noteq> t" "strings st i = Some xs" "strings st3 t = Some ys"
  shows "\<exists>st5. andthen (core_swap t i st3) (core_destroy t) = Inr st5 \<and> post env i st ys st5 \<and> objs st5 t = None \<and>
    (\<forall>a n cap b. unique st3 t a n cap b \<longrightarrow> unique st5 i a n cap b)"
proof -
  obtain c where "objs st i = Some c" using assms(5) by (auto simp: strings_def)
  then have c: "objs st3 i = Some c" using assms(2,4) by (simp add: frame_def)
  obtain d where d: "objs st3 t = Some d" using assms(6) by (auto simp: strings_def)
  let ?st4 = "exchange t i st3"
  note e = exchange_ok [OF assms(1), of t i]
  have o4: "objs ?st4 t = Some c" "objs ?st4 i = Some d" using c d assms(4) by (auto simp: exchange_def)
  let ?st5 = "?st4\<lparr>objs := (objs ?st4)(t := None), heap := released (heap ?st4) (objs ?st4 t)\<rparr>"
  have de: "core_destroy t ?st4 = Inr ?st5" by (rule core_destroy_eq [OF e(1) o4(1)])
  have f5: "frame {t} ?st4 ?st5" by (rule frame_released [OF e(1)])
  have "frame {t, i} st3 ?st5" by (rule frame_trans [OF e(2) f5]) auto
  then have "frame {t, i} st ?st5" by (rule frame_trans [OF assms(2)]) auto
  then have f: "frame {i} st ?st5" by (rule frame_hidden) (simp_all add: assms(3))
  have ok: "fb_ok env ?st5" using mem_ok_release [OF e(1) [unfolded fb_ok_def], of t] by (simp add: fb_ok_def)
  have "strings ?st5 i = strings ?st4 i" by (rule frame_strings [OF f5]) (simp add: assms(4))
  then have s: "strings ?st5 i = Some ys" using e(3) assms(4,6) by simp
  have "unique ?st5 i a n cap b" if u: "unique st3 t a n cap b" for a n cap b
  proof -
    have "\<not> points (objs st3 i) a"
      using user_count(2) [OF assms(1) [unfolded fb_ok_def], of t a b i] u assms(4) points_long
      by (auto simp: unique_def)
    then show ?thesis using u o4 c d assms(4) by (auto simp: unique_def exchange_def released_def)
  qed
  then show ?thesis using f ok s de core_swap_eq [OF d c] by (auto simp: post_def)
qed

definition max_length :: nat where
  "max_length = 2 ^ 59"

lemma shrinkLarge_yields:
  assumes "env_ok env" "fb_ok env st" "objs st i = Some c" "category c = isLarge" "strings st i = Some xs"
    "delta \<le> length xs" "objs st Core_Temp = None"
  shows "yields env (shrinkLarge env i delta st) (post env i st (take (length xs - delta) xs))"
  using assms(2,3)
proof (cases rule: core_cases)
  case (large a n cap b k)
  have it: "i \<noteq> Core_Temp" using assms(3,7) by auto
  have xs: "xs = take n (blk_bytes b)" "length xs = n" using large assms(5) by simp_all
  have rd: "read_mem st (In_Block a 0) (n - delta) = Inr (take (n - delta) xs)"
    using large xs by (simp add: read_block)
  have n9: "n - delta + 9 \<le> 2 ^ 61" using large(14,16) by linarith
  have "yields env (core_from env Core_Temp (In_Block a 0) (n - delta) st)
      (\<lambda>st1. yields env (andthen (core_swap Core_Temp i st1) (core_destroy Core_Temp)) (post env i st (take (n - delta) xs)))"
  proof (rule yields_mono [OF core_from_yields [OF assms(1,2,7) rd n9]])
    fix st1 assume "post env Core_Temp st (take (n - delta) xs) st1"
    then show "yields env (andthen (core_swap Core_Temp i st1) (core_destroy Core_Temp)) (post env i st (take (n - delta) xs))"
      using swap_in [OF _ _ assms(7) it assms(5), of env st1] by (force simp: post_def simp del: yields_andthen)
  qed
  then have "yields env (andthen (core_from env Core_Temp (In_Block a 0) (n - delta) st)
      (\<lambda>st1. andthen (core_swap Core_Temp i st1) (core_destroy Core_Temp))) (post env i st (take (n - delta) xs))"
    by (simp del: yields_andthen add: yields_andthen [of env "core_from _ _ _ _ _"])
  then show ?thesis
    using large assms(3) xs(2) post_refl [OF assms(2,5)] by (simp add: shrinkLarge_def del: yields_andthen)
qed (use assms(4) in \<open>simp_all add: core_simps\<close>)

lemma shrink_yields:
  assumes "env_ok env" "fb_ok env st" "strings st i = Some xs" "delta \<le> length xs" "objs st Core_Temp = None"
  shows "yields env (shrink env i delta st) (post env i st (take (length xs - delta) xs))"
proof -
  obtain c where c: "objs st i = Some c" using assms(3) by (auto simp: strings_def)
  from assms(2) c show ?thesis
  proof (cases rule: core_cases)
    case small
    then have xs: "xs = take (smallSize c) c" "length xs = smallSize c" using assms(3) by simp_all
    have "disable_sso env \<longrightarrow> smallSize c - delta = 0" using small(2) by (simp add: small_ok_def)
    then have "post env i st (take (smallSize c - delta) c) (put_core i (setSmallSize (smallSize c - delta) c) st)"
      unfolding put_core_def using small by (intro put_small_post assms(2)) simp_all
    moreover have "take (smallSize c - delta) c = take (length xs - delta) xs" using xs by (simp add: take_take)
    ultimately show ?thesis using c small(1) by (simp add: shrink_def)
  next
    case (medium a n cap b)
    have "length xs = n" using unique_length [OF medium(8) assms(3)] .
    then show ?thesis
      using shrinkMedium_post [OF assms(2) medium(8) _ assms(3), of delta] assms(4) c medium
      by (auto simp: shrink_def core_simps)
  next
    case (large a n cap b k)
    have r: "refs st a = Inr k" using large(3,4) by (simp add: refs_def)
    show ?thesis
    proof (cases "k = 1")
      case True
      have "length xs = n" using unique_length [OF large(9) [OF True] assms(3)] .
      then show ?thesis
        using shrinkMedium_post [OF assms(2) large(9) [OF True] _ assms(3), of delta] assms(4) c large r True
        by (auto simp: shrink_def core_simps)
    next
      case False
      then show ?thesis
        using shrinkLarge_yields [OF assms(1,2) c large(1) assms(3-5)] c large r
        by (simp add: shrink_def core_simps)
    qed
  qed
qed

section \<open>Room for more characters\<close>

definition roomy :: "mem \<Rightarrow> oid \<Rightarrow> nat \<Rightarrow> bool" where
  "roomy st i m \<longleftrightarrow> (\<exists>a n cap b. unique st i a n cap b \<and> m \<le> cap)"

lemma roomyI: "unique st i a n cap b \<Longrightarrow> m \<le> cap \<Longrightarrow> roomy st i m"
  by (auto simp: roomy_def)

lemma roomy_mono: "roomy st i m \<Longrightarrow> k \<le> m \<Longrightarrow> roomy st i k"
  unfolding roomy_def by (metis order_trans)

lemma reserveSmall_yields:
  assumes "env_ok env" "fb_ok env st" "objs st i = Some c" "category c = isSmall" "strings st i = Some xs"
    "m + 9 \<le> 2 ^ 61"
  shows "yields env (reserveSmall env i m st)
    (\<lambda>st'. post env i st xs st' \<and> ((disable_sso env \<or> 23 < m) \<longrightarrow> roomy st' i m) \<and>
      (\<not> disable_sso env \<and> m \<le> 23 \<longrightarrow> st' = st))"
  using assms(2,3)
proof (cases rule: core_cases)
  case small
  let ?n = "smallSize c"
  have xs: "xs = take ?n c" using small assms(5) by simp
  have n: "length xs = ?n" using small xs by simp
  have "c ! ?n = 0" using small(2) by (simp add: small_ok_def)
  then have rd: "read_mem st (In_Object i 0) (?n + 1) = Inr (xs @ [0])"
    using small xs assms(3) by (simp add: read_object take_Suc_conv_app_nth)
  have nm: "?n \<le> m" if "disable_sso env \<or> 23 < m" using small that by (auto simp: small_ok_def)
  have cp: "podCopy (st\<lparr>heap := (heap st)(a \<mapsto> \<lparr>blk_refs = rc, blk_bytes = bs\<rparr>)\<rparr>) (In_Object i 0) (?n + 1) (In_Block a 0) =
      Inr (st\<lparr>heap := (heap st)(a \<mapsto> \<lparr>blk_refs = rc, blk_bytes = xs @ 0 # drop (Suc ?n) bs\<rparr>)\<rparr>)"
    if "heap st a = None" "?n + 1 \<le> length bs" for a bs rc
    using copy_to_new [OF rd that] by simp
  note at = attach_terminated [OF assms(2) small(5)]
  have med: "yields env (reserveSmall env i m st) (\<lambda>st'. post env i st xs st' \<and> roomy st' i m)"
    if "disable_sso env \<or> 23 < m" "m \<le> 254"
  proof -
    have "yields env (let g = goodMallocSize env (1 + m) in andthen (checkedMalloc env None 0 g st) (\<lambda>(a, st1).
           andthen (podCopy st1 (In_Object i 0) (?n + 1) (In_Block a 0)) (\<lambda>st2.
             Inr (put_core i (setCapacity (g - 1) isMedium (set_ml_size ?n (set_ml_data a c))) st2))))
        (\<lambda>st'. post env i st xs st' \<and> roomy st' i m)"
    proof (rule medium_yields(1) [OF assms(1,2) refl])
      fix a cap and bs :: "u8 list"
      assume a: "heap st a = None" "m \<le> cap" "cap + 1 \<le> 2 ^ 61" "length bs = Suc cap"
      then show "yields env (case (a, st\<lparr>heap := (heap st)(a \<mapsto> \<lparr>blk_refs = None, blk_bytes = bs\<rparr>)\<rparr>) of (a, st1) \<Rightarrow>
           andthen (podCopy st1 (In_Object i 0) (?n + 1) (In_Block a 0)) (\<lambda>st2.
             Inr (put_core i (setCapacity (Suc cap - 1) isMedium (set_ml_size ?n (set_ml_data a c))) st2)))
        (\<lambda>st'. post env i st xs st' \<and> roomy st' i m)"
        using at [OF a(1), of None isMedium ?n cap bs xs] nm [OF that(1)] cp [OF a(1), of bs None] n small(3)
        by (auto simp: put_core_def core_simps intro: roomyI)
    qed (use that(2) in simp)
    then show ?thesis
      using that assms(3) by (auto simp: reserveSmall_def Let_def simp del: yields_andthen)
  qed
  have lrg: "yields env (reserveSmall env i m st) (\<lambda>st'. post env i st xs st' \<and> roomy st' i m)" if m: "254 < m"
  proof -
    have "yields env (rc_create env m st) (\<lambda>x. yields env (case x of (a, newCapacity, st1) \<Rightarrow>
          andthen (podCopy st1 (In_Object i 0) (?n + 1) (In_Block a 0)) (\<lambda>st2.
            Inr (put_core i (setCapacity newCapacity isLarge (set_ml_size ?n (set_ml_data a c))) st2)))
        (\<lambda>st'. post env i st xs st' \<and> roomy st' i m))"
    proof (rule rc_create_yields [OF assms(1,2) refl assms(6)])
      fix a cap and bs :: "u8 list"
      assume a: "heap st a = None" "m \<le> cap" "cap + 9 \<le> 2 ^ 61" "length bs = Suc cap"
      then show "yields env (case (a, cap, st\<lparr>heap := (heap st)(a \<mapsto> \<lparr>blk_refs = Some 1, blk_bytes = bs\<rparr>)\<rparr>) of (a, newCapacity, st1) \<Rightarrow>
          andthen (podCopy st1 (In_Object i 0) (?n + 1) (In_Block a 0)) (\<lambda>st2.
            Inr (put_core i (setCapacity newCapacity isLarge (set_ml_size ?n (set_ml_data a c))) st2)))
        (\<lambda>st'. post env i st xs st' \<and> roomy st' i m)"
        using at [OF a(1), of "Some 1" isLarge ?n cap bs xs] nm m cp [OF a(1), of bs "Some 1"] n small(3)
        by (auto simp: put_core_def core_simps intro: roomyI)
    qed
    then show ?thesis
      using m assms(3) by (simp add: reserveSmall_def Let_def case_prod_unfold)
  qed
  show ?thesis
  proof (cases "\<not> disable_sso env \<and> m \<le> 23")
    case True
    then show ?thesis using assms(3) post_refl [OF assms(2,5)] by (simp add: reserveSmall_def)
  next
    case False
    then have "yields env (reserveSmall env i m st) (\<lambda>st'. post env i st xs st' \<and> roomy st' i m)"
      using med lrg by linarith
    with False show ?thesis by (auto elim: yields_mono)
  qed
qed (use assms(4) in \<open>simp_all add: core_simps\<close>)

lemma reserveLarge_yields:
  assumes "env_ok env" "fb_ok env st" "objs st i = Some c" "category c = isLarge" "strings st i = Some xs"
    "m + 9 \<le> 2 ^ 61"
  shows "yields env (reserveLarge env i m st) (\<lambda>st'. post env i st xs st' \<and> roomy st' i m)"
  using assms(2,3)
proof (cases rule: core_cases)
  case (large a n cap b k)
  have r: "refs st a = Inr k" using large(3,4) by (simp add: refs_def)
  show ?thesis
  proof (cases "k = 1")
    case False
    then have "1 < k" using large(6) by simp
    have "yields env (unshare env i m st) (\<lambda>st'. post env i st xs st' \<and> roomy st' i m)"
      by (rule yields_mono [OF unshare_yields [OF assms(1,2,3) large(1) _ \<open>1 < k\<close> assms(5,6)]])
        (use r large in \<open>auto simp: core_simps intro: roomyI\<close>)
    then show ?thesis using assms(3) large r \<open>1 < k\<close> by (simp add: reserveLarge_def core_simps)
  next
    case True
    note u = large(9) [OF True]
    have h: "header_size b = 8" "long_category b = isLarge"
      using large(4) by (simp_all add: header_size_def long_category_def)
    define g where "g = goodMallocSize env ((8 + (m + 1)) mod 2 ^ 64)"
    have "(8 + (m + 1)) mod 2 ^ 64 = m + 9" using assms(6) by simp
    then have "g = goodMallocSize env (m + 9)" unfolding g_def by (rule arg_cong)
    then have g: "m + 9 \<le> g" "g \<le> 2 ^ 61" using goodMallocSize_bounds [OF assms(1,6)] by simp_all
    have "yields env (rc_reallocate env a n cap m st) (\<lambda>(a', cap', st1).
        (\<lambda>st'. post env i st xs st' \<and> roomy st' i m) (put_core i (ml_core a' n cap' isLarge) st1))" if "cap < m"
      unfolding rc_reallocate_def Let_def yields_andthen g_def [symmetric]
    proof (rule smartRealloc_yields [OF assms(1,2) u, unfolded h])
      show "8 + (cap + 1) \<le> g" using that g by simp
      fix a' and bs :: "u8 list"
      assume a': "a' = a \<or> heap st a' = None" and bs: "length bs = g - 8" "take (n + 1) bs = take (n + 1) (blk_bytes b)"
      have "n \<le> g - 8 - 1" "g - 8 - 1 < length bs" "g - 8 - 1 + 1 + header_size b \<le> 2 ^ 61"
        using large(14) that g bs(1) h(1) by linarith+
      note move_unique [OF assms(2) u a' this bs(2) assms(5), unfolded h]
      then show "yields env (case (a', st\<lparr>heap := ((heap st)(a := None))(a' \<mapsto> b\<lparr>blk_bytes := bs\<rparr>)\<rparr>) of (a', st') \<Rightarrow> Inr (a', g - 8 - 1, st'))
          (\<lambda>(a', cap', st1). post env i st xs (put_core i (ml_core a' n cap' isLarge) st1) \<and>
            roomy (put_core i (ml_core a' n cap' isLarge) st1) i m)"
        using g by (auto simp: put_core_def intro: roomyI)
    qed
    then have *: "cap < m \<Longrightarrow> yields env (rc_reallocate env a n cap m st) (\<lambda>x. yields env (case x of (a', cap', st1) \<Rightarrow>
        Inr (put_core i (setCapacity cap' isLarge (set_ml_data a' c)) st1)) (\<lambda>st'. post env i st xs st' \<and> roomy st' i m))"
      by (rule yields_mono) (auto simp: large(2) core_simps)
    moreover have "m \<le> cap \<Longrightarrow> roomy st i m" using u by (rule roomyI)
    ultimately show ?thesis
      using assms(3) large(10-12) r True post_refl [OF assms(2,5)] by (auto simp: reserveLarge_def not_less)
  qed
qed (use assms(4) in \<open>simp_all add: core_simps\<close>)

text \<open>The temporary string into which a medium string moves when it becomes large.\<close>

lemma nascent_yields:
  assumes "env_ok env" "fb_ok env st" "objs st Core_Temp = None" "unique st i a n cap b" "strings st i = Some xs"
    "cap < m" "254 < m" "m + 9 \<le> 2 ^ 61"
  shows "yields env (andthen (core_default env Core_Temp st) (\<lambda>st1. andthen (reserveSmall env Core_Temp m st1) (\<lambda>st2.
      andthen (get_core st2 Core_Temp) (\<lambda>t. podCopy (put_core Core_Temp (set_ml_size n t) st2) (In_Block a 0) (n + 1)
        (In_Block (ml_data (set_ml_size n t)) 0)))))
    (\<lambda>st3. fb_ok env st3 \<and> frame {Core_Temp} st st3 \<and> strings st3 Core_Temp = Some xs \<and> roomy st3 Core_Temp m)"
proof -
  note u = uniqueD [OF assms(4)]
  have it: "i \<noteq> Core_Temp" using u(1) assms(3) by auto
  obtain st1 where st1: "core_default env Core_Temp st = Inr st1" "post env Core_Temp st [] st1"
    "objs st1 = (objs st)(Core_Temp \<mapsto> setSmallSize 0 (raw_bytes env 24))"
    using core_default_post [OF assms(1-3)] by auto
  have ok1: "fb_ok env st1" "strings st1 Core_Temp = Some []" "frame {Core_Temp} st st1"
    using st1(2) by (simp_all add: post_def)
  have "small_ok env (setSmallSize 0 (raw_bytes env 24))"
    using env_okD(2) [OF assms(1), of 24] by (intro setSmallSize(4)) simp_all
  then have cat: "category (setSmallSize 0 (raw_bytes env 24)) = isSmall" by (rule small_category)
  have "yields env (reserveSmall env Core_Temp m st1) (\<lambda>st2. yields env (andthen (get_core st2 Core_Temp)
      (\<lambda>t. podCopy (put_core Core_Temp (set_ml_size n t) st2) (In_Block a 0) (n + 1) (In_Block (ml_data (set_ml_size n t)) 0)))
    (\<lambda>st3. fb_ok env st3 \<and> frame {Core_Temp} st st3 \<and> strings st3 Core_Temp = Some xs \<and> roomy st3 Core_Temp m))"
  proof (rule yields_mono [OF reserveSmall_yields [OF assms(1) ok1(1) _ cat ok1(2) assms(8)]])
    show "objs st1 Core_Temp = Some (setSmallSize 0 (raw_bytes env 24))" by (simp add: st1(3))
    fix st2
    assume "post env Core_Temp st1 [] st2 \<and> ((disable_sso env \<or> 23 < m) \<longrightarrow> roomy st2 Core_Temp m) \<and>
        (\<not> disable_sso env \<and> m \<le> 23 \<longrightarrow> st2 = st1)"
    then have p2: "post env Core_Temp st1 [] st2" and "roomy st2 Core_Temp m" using assms(7) by simp_all
    then obtain a' n' cap' b' where u': "unique st2 Core_Temp a' n' cap' b'" "m \<le> cap'" by (auto simp: roomy_def)
    note v = uniqueD [OF u'(1)]
    have f2: "frame {Core_Temp} st st2"
      using p2 ok1(3) by (auto simp: post_def intro: frame_trans)
    have ok2: "fb_ok env st2" using p2 by (simp add: post_def)
    have io: "objs st2 i = Some (ml_core a n cap (long_category b))"
      using f2 u(1) it by (simp add: frame_def)
    then have pa: "points (objs st2 i) a"
      using assms(4) points_long by (auto simp: unique_def)
    have "map_option blk_bytes (heap st2 a) = map_option blk_bytes (heap st a)"
      using f2 it u(1) io pa by (auto simp: frame_def same_storage_def)
    then obtain b2 where b2: "heap st2 a = Some b2" "blk_bytes b2 = blk_bytes b" using u(2) by auto
    have ne: "a \<noteq> a'"
      using user_count(2) [OF ok2 [unfolded fb_ok_def], of Core_Temp a' b' i] u'(1) pa it points_long
      by (auto simp: unique_def)
    have xs: "take (n + 1) (blk_bytes b) = xs @ [0]" "length xs = n"
      using u(4,5,7,8) assms(5) unique_length [OF assms(4,5)] by (simp_all add: take_Suc_conv_app_nth)
    let ?bs = "(xs @ [0]) @ drop (n + 1) (blk_bytes b')"
    have nc: "n \<le> cap'" using u(4) assms(6) u'(2) by simp
    have l: "length ?bs = length (blk_bytes b')" "?bs ! n = 0" using nc v(5) xs(2) by (simp_all add: nth_append)
    note up = update_unique [OF ok2 u'(1) nc l]
    have "podCopy (put_core Core_Temp (set_ml_size n (ml_core a' n' cap' (long_category b'))) st2) (In_Block a 0) (n + 1) (In_Block a' 0) =
        Inr (st2\<lparr>objs := (objs st2)(Core_Temp \<mapsto> ml_core a' n cap' (long_category b')), heap := (heap st2)(a' \<mapsto> b'\<lparr>blk_bytes := ?bs\<rparr>)\<rparr>)"
      using b2 ne v(2,5) u(4,5) nc xs by (simp add: podCopy_def read_mem_def put_core_def core_simps)
    moreover have "take n ?bs = xs" using xs(2) by simp
    ultimately show "yields env (andthen (get_core st2 Core_Temp)
        (\<lambda>t. podCopy (put_core Core_Temp (set_ml_size n t) st2) (In_Block a 0) (n + 1) (In_Block (ml_data (set_ml_size n t)) 0)))
      (\<lambda>st3. fb_ok env st3 \<and> frame {Core_Temp} st st3 \<and> strings st3 Core_Temp = Some xs \<and> roomy st3 Core_Temp m)"
      using up f2 u'(2) v(1) by (auto simp: post_def core_simps intro: roomyI frame_trans)
  qed
  then show ?thesis using st1(1) by simp
qed

lemma reserveMedium_yields:
  assumes "env_ok env" "fb_ok env st" "objs st i = Some c" "category c = isMedium" "strings st i = Some xs"
    "m + 9 \<le> 2 ^ 61" "objs st Core_Temp = None"
  shows "yields env (reserveMedium env i m st) (\<lambda>st'. post env i st xs st' \<and> roomy st' i m)"
  using assms(2,3)
proof (cases rule: core_cases)
  case (medium a n cap b)
  note u = medium(8)
  have h: "header_size b = 0" "long_category b = isMedium"
    using medium(4) by (simp_all add: header_size_def long_category_def)
  have it: "i \<noteq> Core_Temp" using assms(3,7) by auto
  consider (fits) "m \<le> cap" | (grow) "cap < m" "m \<le> 254" | (large) "cap < m" "254 < m" by linarith
  then show ?thesis
  proof cases
    case fits
    then show ?thesis
      using assms(3) medium(11) post_refl [OF assms(2,5)] roomyI [OF u] by (simp add: reserveMedium_def)
  next
    case grow
    define g where "g = goodMallocSize env (1 + m)"
    have g: "1 + m \<le> g" "g \<le> 2 ^ 61"
      unfolding g_def using goodMallocSize_bounds [OF assms(1), of "1 + m"] assms(6) by simp_all
    have "yields env (smartRealloc env a (n + 1) (cap + 1) g st) (\<lambda>(a', st1).
        (\<lambda>st'. post env i st xs st' \<and> roomy st' i m) (put_core i (ml_core a' n (g - 1) isMedium) st1))"
    proof (rule smartRealloc_yields [OF assms(1,2) u, unfolded h add_0])
      show "cap + 1 \<le> g" using grow g by simp
      fix a' and bs :: "u8 list"
      assume a': "a' = a \<or> heap st a' = None" and bs: "length bs = g - 0" "take (n + 1) bs = take (n + 1) (blk_bytes b)"
      have "n \<le> g - 1" "g - 1 < length bs" "g - 1 + 1 + header_size b \<le> 2 ^ 61"
        using medium(13) grow g bs(1) h(1) by linarith+
      note move_unique [OF assms(2) u a' this bs(2) assms(5), unfolded h]
      then show "case (a', st\<lparr>heap := ((heap st)(a := None))(a' \<mapsto> b\<lparr>blk_bytes := bs\<rparr>)\<rparr>) of (a', st1) \<Rightarrow>
          post env i st xs (put_core i (ml_core a' n (g - 1) isMedium) st1) \<and>
          roomy (put_core i (ml_core a' n (g - 1) isMedium) st1) i m"
        using g by (auto simp: put_core_def intro: roomyI)
    qed
    then have "yields env (smartRealloc env a (n + 1) (cap + 1) g st) (\<lambda>x. yields env (case x of (a', st1) \<Rightarrow>
        Inr (put_core i (setCapacity (g - 1) isMedium (set_ml_data a' c)) st1)) (\<lambda>st'. post env i st xs st' \<and> roomy st' i m))"
      by (rule yields_mono) (auto simp: medium(2) core_simps)
    then show ?thesis
      using grow assms(3) medium(9-11) by (simp add: reserveMedium_def g_def Let_def)
  next
    case large
    have sw: "yields env (andthen (core_swap Core_Temp i st3) (core_destroy Core_Temp)) (\<lambda>st'. post env i st xs st' \<and> roomy st' i m)"
      if st3: "fb_ok env st3 \<and> frame {Core_Temp} st st3 \<and> strings st3 Core_Temp = Some xs \<and> roomy st3 Core_Temp m" for st3
    proof -
      obtain a' n' cap' b' where u': "unique st3 Core_Temp a' n' cap' b'" "m \<le> cap'" using st3 by (auto simp: roomy_def)
      obtain st5 where "andthen (core_swap Core_Temp i st3) (core_destroy Core_Temp) = Inr st5" "post env i st xs st5"
        "unique st5 i a' n' cap' b'"
        using swap_in [of env st3 Core_Temp st i xs xs] st3 assms(5,7) it u'(1) by blast
      then show ?thesis using u'(2) by (simp add: roomyI del: yields_andthen)
    qed
    have "yields env (reserveMedium env i m st) (\<lambda>st'. post env i st xs st' \<and> roomy st' i m) =
      yields env (andthen (andthen (core_default env Core_Temp st) (\<lambda>st1. andthen (reserveSmall env Core_Temp m st1) (\<lambda>st2.
        andthen (get_core st2 Core_Temp) (\<lambda>t. podCopy (put_core Core_Temp (set_ml_size n t) st2) (In_Block a 0) (n + 1)
        (In_Block (ml_data (set_ml_size n t)) 0))))) (\<lambda>st3. andthen (core_swap Core_Temp i st3) (core_destroy Core_Temp)))
        (\<lambda>st'. post env i st xs st' \<and> roomy st' i m)"
      using large assms(3) medium(9-11) by (simp add: reserveMedium_def Let_def)
    then show ?thesis
      using yields_mono [OF nascent_yields [OF assms(1,2,7) u assms(5) large assms(6)] sw]
      by (simp only: yields_andthen)
  qed
qed (use assms(4) in \<open>simp_all add: core_simps\<close>)

lemma reserve_yields:
  assumes "env_ok env" "fb_ok env st" "strings st i = Some xs" "m + 9 \<le> 2 ^ 61" "objs st Core_Temp = None"
  shows "yields env (reserve env i m st) (post env i st xs)"
    "objs st i = Some c \<Longrightarrow> category c \<noteq> isSmall \<Longrightarrow> yields env (reserve env i m st) (\<lambda>st'. post env i st xs st' \<and> roomy st' i m)"
proof -
  obtain c where c: "objs st i = Some c" using assms(3) by (auto simp: strings_def)
  have long: "yields env (reserve env i m st) (\<lambda>st'. post env i st xs st' \<and> roomy st' i m)" if "category c \<noteq> isSmall"
    using assms(2) c
  proof (cases rule: core_cases)
    case medium
    then show ?thesis
      using reserveMedium_yields [OF assms(1,2) c medium(1) assms(3-5)] c by (simp add: reserve_def core_simps)
  next
    case large
    then show ?thesis
      using reserveLarge_yields [OF assms(1,2) c large(1) assms(3,4)] c by (simp add: reserve_def core_simps)
  qed (use that in simp)
  then show "objs st i = Some c' \<Longrightarrow> category c' \<noteq> isSmall \<Longrightarrow> yields env (reserve env i m st) (\<lambda>st'. post env i st xs st' \<and> roomy st' i m)" for c'
    using c by simp
  show "yields env (reserve env i m st) (post env i st xs)"
  proof (cases "category c = isSmall")
    case True
    then show ?thesis
      using yields_mono [OF reserveSmall_yields [OF assms(1,2) c True assms(3,4)]] c
      by (simp add: reserve_def)
  next
    case False
    then show ?thesis by (auto intro: yields_mono [OF long])
  qed
qed

text \<open>The size of a unique string is set, and its end is written.\<close>

lemma set_size_post:
  assumes "fb_ok env st" "unique st i a n cap b" "strings st i = Some xs" "m \<le> cap" "n \<le> m"
  shows "\<exists>st' ys. length ys = m - n \<and>
    write_mem (put_core i (set_ml_size m (ml_core a n cap (long_category b))) st) (In_Block a m) [0] = Inr st' \<and>
    post env i st (xs @ ys) st' \<and> buffer st' i (In_Block a 0)"
proof -
  note u = uniqueD [OF assms(2)]
  let ?bs = "overwrite (blk_bytes b) m [0]"
  let ?ys = "take (m - n) (drop n (blk_bytes b))"
  have l: "length ?bs = length (blk_bytes b)" "?bs ! m = 0"
    using assms(4) u(5) by (simp_all add: overwrite_def nth_append)
  note up = update_unique [OF assms(1,2,4) l]
  have "take m ?bs = take (n + (m - n)) (blk_bytes b)" using assms(4,5) u(5) by (simp add: overwrite_def)
  also have "\<dots> = xs @ ?ys"
  proof -
    have "take n (blk_bytes b) = xs" using u(8) assms(3) by simp
    then show ?thesis by (simp only: take_add)
  qed
  finally have t: "take m ?bs = xs @ ?ys" .
  let ?st' = "st\<lparr>objs := (objs st)(i \<mapsto> ml_core a m cap (long_category b)), heap := (heap st)(a \<mapsto> b\<lparr>blk_bytes := ?bs\<rparr>)\<rparr>"
  have "length ?ys = m - n" using assms(4,5) u(5) by simp
  moreover have "write_mem (put_core i (set_ml_size m (ml_core a n cap (long_category b))) st) (In_Block a m) [0] = Inr ?st'"
    using u(2,5) assms(4) by (simp add: put_core_def core_simps)
  moreover have "post env i st (xs @ ?ys) ?st'" using up(1) t by simp
  ultimately show ?thesis using unique_buffer [OF up(2)] by blast
qed

lemma overwrite_single: "k < length bs \<Longrightarrow> overwrite bs k [x] = bs[k := x]"
  by (simp add: overwrite_def upd_conv_take_nth_drop)

lemma write_Nil: "target st p = Inr bs \<Longrightarrow> offset p \<le> length bs \<Longrightarrow> (\<forall>m k. p \<noteq> Extern m k) \<Longrightarrow> write_mem st p [] = Inr st"
  by (cases p) (auto split: option.splits simp: fun_upd_idem)

lemma capacity_of:
  "objs st i = Some c \<Longrightarrow> category c = isMedium \<Longrightarrow> capacity st i = Inr (ml_cap c)"
  "objs st i = Some c \<Longrightarrow> category c = isLarge \<Longrightarrow> refs st (ml_data c) = Inr k \<Longrightarrow>
     capacity st i = Inr (if 1 < k then ml_size c else ml_cap c)"
  by (simp_all add: capacity_def core_simps)

text \<open>What \<open>expandNoinit\<close> returns: the place of \<open>delta\<close> new characters at the end of the string.\<close>

definition expanded :: "fb_env \<Rightarrow> oid \<Rightarrow> mem \<Rightarrow> u8 list \<Rightarrow> nat \<Rightarrow> ptr \<times> mem \<Rightarrow> bool" where
  "expanded env i st xs delta = (\<lambda>(p, st'). (\<exists>ys. length ys = delta \<and> post env i st (xs @ ys) st') \<and>
     write_mem st' p [] = Inr st' \<and> (\<exists>q. p = ptr_add q (length xs) \<and> (0 < delta \<longrightarrow> buffer st' i q)))"

lemma expandedI:
  "length ys = delta \<Longrightarrow> post env i st (xs @ ys) st' \<Longrightarrow> write_mem st' p [] = Inr st' \<Longrightarrow>
   p = ptr_add q (length xs) \<Longrightarrow> (0 < delta \<longrightarrow> buffer st' i q) \<Longrightarrow> expanded env i st xs delta (p, st')"
  unfolding expanded_def by auto

lemma expanded_block:
  assumes "fb_ok env st" "roomy st i (length xs + delta)" "strings st i = Some xs" "post env i st0 xs st"
  shows "yields env (andthen (get_core st i) (\<lambda>c1. andthen (write_mem (put_core i (set_ml_size (length xs + delta) c1) st)
      (In_Block (ml_data c1) (length xs + delta)) [0]) (\<lambda>st2. Inr (In_Block (ml_data c1) (length xs), st2))))
    (expanded env i st0 xs delta)"
proof -
  obtain a n cap b where u: "unique st i a n cap b" "length xs + delta \<le> cap" using assms(2) by (auto simp: roomy_def)
  have n: "length xs = n" by (rule unique_length [OF u(1) assms(3)])
  obtain st' ys where s: "length ys = length xs + delta - n"
    "write_mem (put_core i (set_ml_size (length xs + delta) (ml_core a n cap (long_category b))) st) (In_Block a (length xs + delta)) [0] = Inr st'"
    "post env i st (xs @ ys) st'" "buffer st' i (In_Block a 0)"
    using set_size_post [OF assms(1) u(1) assms(3) u(2)] n by auto
  have "write_mem st' (In_Block a (length xs)) [] = Inr st'"
    using s(2) u(2) uniqueD(2,5) [OF u(1)] n
    by (intro write_Nil) (auto simp: put_core_def core_simps split: if_splits)
  moreover have "In_Block a (length xs) = ptr_add (In_Block a 0) (length xs)" by simp
  ultimately show ?thesis
    using s n unique_core [OF u(1)] post_trans [OF assms(4) s(3)]
    by (auto simp: core_simps simp del: write_mem.simps intro!: expandedI [where q = "In_Block a 0"])
qed

lemma growth_bounds:
  assumes "k < new" "new \<le> max_length"
  shows "new \<le> (if g then max new ((1 + k * 3 mod 2 ^ 64 div 2) mod 2 ^ 64) else new)"
    "(if g then max new ((1 + k * 3 mod 2 ^ 64 div 2) mod 2 ^ 64) else new) + 9 \<le> 2 ^ 61"
proof -
  have "(1 + k * 3 mod 2 ^ 64 div 2) mod 2 ^ 64 \<le> 1 + k * 3 mod 2 ^ 64 div 2" "k * 3 mod 2 ^ 64 \<le> k * 3"
    by (rule mod_less_eq_dividend)+
  then have "(1 + k * 3 mod 2 ^ 64 div 2) mod 2 ^ 64 \<le> 1 + k * 3"
    using div_le_dividend [of "k * 3 mod 2 ^ 64" 2] by linarith
  moreover have "1 + k * 3 + 9 \<le> 2 ^ 61" "new + 9 \<le> 2 ^ 61"
    using assms by (simp_all add: max_length_def)
  ultimately show "(if g then max new ((1 + k * 3 mod 2 ^ 64 div 2) mod 2 ^ 64) else new) + 9 \<le> 2 ^ 61"
    by (auto simp del: One_nat_def)
qed simp

lemma expandNoinit_yields:
  assumes "env_ok env" "fb_ok env st" "strings st i = Some xs" "length xs + delta \<le> max_length" "objs st Core_Temp = None"
  shows "yields env (expandNoinit env i delta g st) (expanded env i st xs delta)"
proof -
  obtain c where c: "objs st i = Some c" using assms(3) by (auto simp: strings_def)
  let ?new = "length xs + delta"
  have wrap: "?new mod 2 ^ 64 = ?new" using assms(4) by (simp add: max_length_def)
  note P = post_refl [OF assms(2,3)]
  define fin where "fin = (\<lambda>st1. andthen (get_core st1 i) (\<lambda>c1. andthen (write_mem (put_core i (set_ml_size ?new c1) st1)
      (In_Block (ml_data c1) ?new) [0]) (\<lambda>st2. Inr (In_Block (ml_data c1) (length xs), st2))))"
  have fin: "yields env (fin st1) (expanded env i st xs delta)" if "post env i st xs st1" "roomy st1 i m" "?new \<le> m" for st1 m
    unfolding fin_def
    by (rule expanded_block) (use that in \<open>auto simp: post_def elim: roomy_mono\<close>)
  from assms(2) c show ?thesis
  proof (cases rule: core_cases)
    case small
    have xs: "length xs = smallSize c" "xs = take (smallSize c) c" using small assms(3) by auto
    show ?thesis
    proof (cases "\<not> disable_sso env \<and> ?new \<le> 23")
      case True
      let ?ys = "take delta (drop (length xs) c)"
      have t: "take ?new c = xs @ ?ys" using xs by (simp add: take_add)
      have p: "post env i st (xs @ ?ys) (put_core i (setSmallSize ?new c) st)"
        unfolding put_core_def t [symmetric] using small True by (intro put_small_post assms(2)) simp_all
      have ss: "small_ok env (setSmallSize ?new c)" using True small(3) by (intro setSmallSize(4)) simp_all
      then have "buffer (put_core i (setSmallSize ?new c) st) i (In_Object i 0)"
        using small_category by (auto simp: buffer_def)
      moreover have "write_mem (put_core i (setSmallSize ?new c) st) (In_Object i (length xs)) [] = Inr (put_core i (setSmallSize ?new c) st)"
        using setSmallSize(1) [OF small(3), of ?new] True by (intro write_Nil) auto
      moreover have "length ?ys = delta" using True small(3) by auto
      ultimately have "expanded env i st xs delta (In_Object i (length xs), put_core i (setSmallSize ?new c) st)"
        using p by (intro expandedI [where q = "In_Object i 0" and ys = ?ys]) (simp_all del: write_mem.simps)
      then show ?thesis
        using True c small(1) xs(1) wrap by (simp add: expandNoinit_def Let_def)
    next
      case False
      define m where "m = (if g then max ?new (2 * 23) else ?new)"
      have m: "?new \<le> m" "m + 9 \<le> 2 ^ 61" "disable_sso env \<or> 23 < m"
        using False assms(4) by (auto simp: m_def max_length_def)
      have "yields env (andthen (reserveSmall env i m st) fin) (expanded env i st xs delta)"
        unfolding yields_andthen
        by (rule yields_mono [OF reserveSmall_yields [OF assms(1,2) c small(1) assms(3) m(2)]]) (use fin m(1,3) in blast)
      moreover have "(\<not> disable_sso env \<and> ?new \<le> 23) = False" using False by blast
      then have "expandNoinit env i delta g st = andthen (reserveSmall env i m st) fin"
        using wrap c small(1)
        by (cases "disable_sso env") (simp_all add: expandNoinit_def Let_def m_def fin_def xs(1) [symmetric] del: write_mem.simps)
      ultimately show ?thesis by simp
    qed
  next
    case (medium a n cap b)
    have n: "length xs = n" by (rule unique_length [OF medium(8) assms(3)])
    show ?thesis
    proof (cases "cap < ?new")
      case False
      then show ?thesis
        using fin [OF P roomyI [OF medium(8), of ?new]] c medium(1,10,11) n wrap capacity_of(1) [OF c]
        unfolding fin_def by (simp add: expandNoinit_def Let_def core_simps del: yields_andthen)
    next
      case True
      define m where "m = (if g then max ?new ((1 + cap * 3 mod 2 ^ 64 div 2) mod 2 ^ 64) else ?new)"
      have m: "?new \<le> m" "m + 9 \<le> 2 ^ 61"
        unfolding m_def by (rule growth_bounds [OF True assms(4)])+
      have "yields env (andthen (reserve env i m st) fin) (expanded env i st xs delta)"
        unfolding yields_andthen
        by (rule yields_mono [OF reserve_yields(2) [OF assms(1-3) m(2) assms(5) c]]) (use fin m(1) medium(1) in \<open>auto simp: core_simps\<close>)
      moreover have "expandNoinit env i delta g st = andthen (reserve env i m st) fin"
        using True c medium(1,10,11) n wrap capacity_of(1) [OF c]
        by (simp add: expandNoinit_def Let_def core_simps m_def fin_def del: write_mem.simps)
      ultimately show ?thesis by simp
    qed
  next
    case (large a n cap b k)
    have n: "length xs = n" using large(8,14,15) assms(3) by auto
    have r: "refs st (ml_data c) = Inr k" using large(3,4,10) by (simp add: refs_def)
    let ?cap = "if 1 < k then n else cap"
    note cp = capacity_of(2) [OF c large(1) r, unfolded large(11,12)]
    show ?thesis
    proof (cases "?cap < ?new")
      case False
      show ?thesis
      proof (cases "k = 1")
        case True
        then show ?thesis
          using False fin [OF P roomyI [OF large(9) [OF True], of ?new]] c large(1,10,11) n wrap cp
          unfolding fin_def by (simp add: expandNoinit_def Let_def core_simps del: yields_andthen)
      next
        case k: False
        then have d: "delta = 0" using False n large(6) by (simp split: if_splits)
        have "overwrite (blk_bytes b) n [0] = (blk_bytes b)[n := 0]"
          using large(14,15) by (intro overwrite_single) simp
        then have ov: "overwrite (blk_bytes b) n [0] = blk_bytes b" using list_update_id [of "blk_bytes b" n] large(17) by simp
        have same: "put_core i c st = st" using c by (cases st) (auto simp: put_core_def fun_upd_idem)
        have "b\<lparr>blk_bytes := blk_bytes b\<rparr> = b" by (cases b) simp
        then have "write_mem st (In_Block a n) [0] = Inr st"
          using large(3,14,15) by (cases st) (simp add: ov fun_upd_idem)
        moreover have "write_mem st (In_Block a n) [] = Inr st"
          using large(3,14,15) by (intro write_Nil [of _ _ "blk_bytes b"]) auto
        with P d n have "expanded env i st xs delta (In_Block a n, st)"
          by (intro expandedI [where q = "In_Block a 0" and ys = "[]"]) (simp_all del: write_mem.simps)
        moreover have "set_ml_size n c = c" unfolding large(2) by (simp add: core_simps)
        ultimately show ?thesis
          using False d c large(1,10,11) n wrap cp same by (simp add: expandNoinit_def Let_def core_simps del: write_mem.simps)
      qed
    next
      case True
      define m where "m = (if g then max ?new ((1 + ?cap * 3 mod 2 ^ 64 div 2) mod 2 ^ 64) else ?new)"
      have m: "?new \<le> m" "m + 9 \<le> 2 ^ 61"
        unfolding m_def by (rule growth_bounds [OF True assms(4)])+
      have "yields env (andthen (reserve env i m st) fin) (expanded env i st xs delta)"
        unfolding yields_andthen
        by (rule yields_mono [OF reserve_yields(2) [OF assms(1-3) m(2) assms(5) c]]) (use fin m(1) large(1) in \<open>auto simp: core_simps\<close>)
      moreover have "expandNoinit env i delta g st = andthen (reserve env i m st) fin"
        using True c large(1,10,11) n wrap cp
        by (simp add: expandNoinit_def Let_def core_simps m_def fin_def del: write_mem.simps)
      ultimately show ?thesis by simp
    qed
  qed
qed

end
