(* ===== verification/Folly_FBString_Ops.thy ===== *)
theory Folly_FBString_Ops
  imports Folly_FBString_Core
begin

text \<open>
  The modifiers of \<open>basic_fbstring\<close> over the operations of the core, and their correctness. The source of
  a copy is a pointer: into characters of the caller, into another string or into the string itself.
\<close>

section \<open>Operations\<close>

text \<open>\<open>begin()\<close> of a string that is not constant is \<open>mutableData()\<close>.\<close>

definition procrustes :: "nat \<Rightarrow> nat \<Rightarrow> nat" where
  "procrustes n nmax = (if n > nmax then nmax else n)"

definition enforce_range :: "bool \<Rightarrow> 'a result \<Rightarrow> 'a result" where
  "enforce_range b r = (if b then r else Inl Out_Of_Range)"

definition fb_resize :: "fb_env \<Rightarrow> oid \<Rightarrow> nat \<Rightarrow> u8 \<Rightarrow> mem \<Rightarrow> mem result" where
  "fb_resize env i n c st = andthen (str_size st i) (\<lambda>sz.
     if n \<le> sz then shrink env i (sz - n) st
     else let delta = n - sz in
       andthen (expandNoinit env i delta False st) (\<lambda>(pData, st'). podFill st' pData delta c))"

definition fb_clear :: "fb_env \<Rightarrow> oid \<Rightarrow> mem \<Rightarrow> mem result" where
  "fb_clear env i st = fb_resize env i 0 0 st"

definition fb_pop_back :: "fb_env \<Rightarrow> oid \<Rightarrow> mem \<Rightarrow> mem result" where
  "fb_pop_back env i st = shrink env i 1 st"

text \<open>\<open>std::less_equal\<close> orders all pointers; the two tests hold for a pointer into the old characters only.\<close>

definition inside :: "ptr \<Rightarrow> nat \<Rightarrow> ptr \<Rightarrow> bool" where
  "inside oldData oldSize s \<longleftrightarrow> same_base oldData s \<and> offset oldData \<le> offset s \<and> \<not> offset oldData + oldSize \<le> offset s"

definition fb_append :: "fb_env \<Rightarrow> oid \<Rightarrow> ptr \<Rightarrow> nat \<Rightarrow> mem \<Rightarrow> mem result" where
  "fb_append env i s n st =
     (if n = 0 then Inr st
      else andthen (str_size st i) (\<lambda>oldSize.
           andthen (c_str st i) (\<lambda>oldData.
           andthen (expandNoinit env i n True st) (\<lambda>(pData, st1).
             if inside oldData oldSize s
             then andthen (c_str st1 i) (\<lambda>d. podMove st1 (ptr_add d (offset s - offset oldData)) n pData)
             else podCopy st1 s n pData))))"

definition fb_append_fill :: "fb_env \<Rightarrow> oid \<Rightarrow> nat \<Rightarrow> u8 \<Rightarrow> mem \<Rightarrow> mem result" where
  "fb_append_fill env i n c st = andthen (expandNoinit env i n True st) (\<lambda>(pData, st'). podFill st' pData n c)"

definition fb_append_str :: "fb_env \<Rightarrow> oid \<Rightarrow> oid \<Rightarrow> mem \<Rightarrow> mem result" where
  "fb_append_str env i j st = andthen (c_str st j) (\<lambda>d. andthen (str_size st j) (\<lambda>n. fb_append env i d n st))"

definition fb_append_sub :: "fb_env \<Rightarrow> oid \<Rightarrow> oid \<Rightarrow> nat \<Rightarrow> nat \<Rightarrow> mem \<Rightarrow> mem result" where
  "fb_append_sub env i j pos n st = andthen (str_size st j) (\<lambda>sz.
     enforce_range (pos \<le> sz) (andthen (c_str st j) (\<lambda>d.
       fb_append env i (ptr_add d pos) (procrustes n (sz - pos)) st)))"

definition fb_assign :: "fb_env \<Rightarrow> oid \<Rightarrow> ptr \<Rightarrow> nat \<Rightarrow> mem \<Rightarrow> mem result" where
  "fb_assign env i s n st =
     (if n = 0 then fb_resize env i 0 0 st
      else andthen (str_size st i) (\<lambda>sz.
        if sz \<ge> n
        then andthen (mutableData env i st) (\<lambda>(d, st1). andthen (podMove st1 s n d) (\<lambda>st2.
             andthen (str_size st2 i) (\<lambda>sz'. shrink env i (sz' - n) st2)))
        else andthen (fb_resize env i 0 0 st) (\<lambda>st1. andthen (expandNoinit env i n False st1) (\<lambda>(d, st2).
             podCopy st2 s n d))))"

definition fb_assign_str :: "fb_env \<Rightarrow> oid \<Rightarrow> oid \<Rightarrow> mem \<Rightarrow> mem result" where
  "fb_assign_str env i j st =
     (if i = j then Inr st else andthen (c_str st j) (\<lambda>d. andthen (str_size st j) (\<lambda>n. fb_assign env i d n st)))"

definition fb_move_assign :: "fb_env \<Rightarrow> oid \<Rightarrow> oid \<Rightarrow> mem \<Rightarrow> mem result" where
  "fb_move_assign env i goner st =
     (if i = goner then Inr st else andthen (core_destroy i st) (core_move env i goner))"

definition fb_construct_fill :: "fb_env \<Rightarrow> oid \<Rightarrow> nat \<Rightarrow> u8 \<Rightarrow> mem \<Rightarrow> mem result" where
  "fb_construct_fill env i n c st = andthen (core_default env i st) (\<lambda>st1.
     andthen (expandNoinit env i n False st1) (\<lambda>(pData, st2). podFill st2 pData n c))"

definition fb_write_at :: "fb_env \<Rightarrow> oid \<Rightarrow> nat \<Rightarrow> u8 \<Rightarrow> mem \<Rightarrow> mem result" where
  "fb_write_at env i pos c st = andthen (mutableData env i st) (\<lambda>(d, st'). write_mem st' (ptr_add d pos) [c])"

definition fb_at :: "oid \<Rightarrow> nat \<Rightarrow> mem \<Rightarrow> u8 result" where
  "fb_at i n st = andthen (str_size st i) (\<lambda>sz. enforce_range (n < sz)
     (andthen (c_str st i) (\<lambda>d. andthen (read_mem st (ptr_add d n) 1) (\<lambda>cs. Inr (hd cs)))))"

definition fb_assign_char :: "fb_env \<Rightarrow> oid \<Rightarrow> u8 \<Rightarrow> mem \<Rightarrow> mem result" where
  "fb_assign_char env i c st = andthen (str_size st i) (\<lambda>sz.
     if sz = 0 then andthen (expandNoinit env i 1 False st) (\<lambda>(_, st'). fb_write_at env i 0 c st')
     else andthen (isShared st i) (\<lambda>sh.
       if sh then andthen (fb_construct_fill env Str_Temp 1 c st) (\<lambda>st1.
            andthen (core_swap Str_Temp i st1) (core_destroy Str_Temp))
       else andthen (shrink env i (sz - 1) st) (fb_write_at env i 0 c)))"

text \<open>The first of the three calls of \<open>begin()\<close> makes the string unique; the others change nothing.\<close>

definition fb_erase :: "fb_env \<Rightarrow> oid \<Rightarrow> nat \<Rightarrow> nat \<Rightarrow> mem \<Rightarrow> mem result" where
  "fb_erase env i pos n0 st = andthen (str_size st i) (\<lambda>len.
     enforce_range (pos \<le> len) (let n = procrustes n0 (len - pos) in
       andthen (mutableData env i st) (\<lambda>(b, st1).
       andthen (std_copy st1 (ptr_add b (pos + n)) (len - (pos + n)) (ptr_add b pos)) (\<lambda>st2.
         fb_resize env i (len - n) 0 st2))))"

text \<open>Insertion before position \<open>pos\<close>; \<open>begin() + pos\<close> in the caller has made the string unique.\<close>

definition insertImplDiscr_fill :: "fb_env \<Rightarrow> oid \<Rightarrow> nat \<Rightarrow> nat \<Rightarrow> u8 \<Rightarrow> mem \<Rightarrow> mem result" where
  "insertImplDiscr_fill env i pos n c st = andthen (str_size st i) (\<lambda>oldSize.
     andthen (expandNoinit env i n True st) (\<lambda>(_, st1).
     andthen (mutableData env i st1) (\<lambda>(b, st2).
     andthen (podMove st2 (ptr_add b pos) (oldSize - pos) (ptr_add b (pos + n))) (\<lambda>st3.
       podFill st3 (ptr_add b pos) n c))))"

definition insertImpl :: "fb_env \<Rightarrow> oid \<Rightarrow> nat \<Rightarrow> ptr \<Rightarrow> nat \<Rightarrow> mem \<Rightarrow> mem result" where
  "insertImpl env i pos s n st = andthen (str_size st i) (\<lambda>oldSize.
     andthen (expandNoinit env i n True st) (\<lambda>(_, st1).
     andthen (mutableData env i st1) (\<lambda>(b, st2).
     andthen (podMove st2 (ptr_add b pos) (oldSize - pos) (ptr_add b (pos + n))) (\<lambda>st3.
       std_copy st3 s n (ptr_add b pos)))))"

definition fb_insert_fill :: "fb_env \<Rightarrow> oid \<Rightarrow> nat \<Rightarrow> nat \<Rightarrow> u8 \<Rightarrow> mem \<Rightarrow> mem result" where
  "fb_insert_fill env i pos n c st = andthen (str_size st i) (\<lambda>len. enforce_range (pos \<le> len)
     (andthen (mutableData env i st) (\<lambda>(_, st'). insertImplDiscr_fill env i pos n c st')))"

definition fb_insert :: "fb_env \<Rightarrow> oid \<Rightarrow> nat \<Rightarrow> ptr \<Rightarrow> nat \<Rightarrow> mem \<Rightarrow> mem result" where
  "fb_insert env i pos s n st = andthen (str_size st i) (\<lambda>len. enforce_range (pos \<le> len)
     (andthen (mutableData env i st) (\<lambda>(_, st'). insertImpl env i pos s n st')))"

definition fb_shrink_to_fit :: "fb_env \<Rightarrow> oid \<Rightarrow> mem \<Rightarrow> mem result" where
  "fb_shrink_to_fit env i st = andthen (capacity st i) (\<lambda>cap. andthen (str_size st i) (\<lambda>sz.
     if cap < sz * 3 mod 2 ^ 64 div 2 then Inr st
     else andthen (c_str st i) (\<lambda>d. andthen (core_from env Str_Temp d sz st) (\<lambda>st1.
          andthen (core_swap Str_Temp i st1) (core_destroy Str_Temp)))))"

definition fb_substr :: "fb_env \<Rightarrow> oid \<Rightarrow> oid \<Rightarrow> nat \<Rightarrow> nat \<Rightarrow> mem \<Rightarrow> mem result" where
  "fb_substr env i j pos n st = andthen (str_size st j) (\<lambda>sz. enforce_range (pos \<le> sz)
     (andthen (c_str st j) (\<lambda>d. core_from env i (ptr_add d pos) (min n (sz - pos)) st)))"

section \<open>Reading and writing a string\<close>

lemma core_of_strings: "strings st i = Some xs \<Longrightarrow> \<exists>c. objs st i = Some c"
  by (auto simp: strings_def)

lemma str_size_eq:
  assumes "fb_ok env st" "strings st i = Some xs"
  shows "str_size st i = Inr (length xs)"
proof -
  obtain c where c: "objs st i = Some c" using core_of_strings [OF assms(2)] by blast
  have "core_size c = length xs"
    by (rule core_cases [OF assms(1) c]) (use assms(2) in auto)
  then show ?thesis using c by (simp add: str_size_def)
qed

lemma c_str_eq:
  assumes "fb_ok env st" "objs st i = Some c"
  shows "c_str st i = Inr (if category c = isSmall then In_Object i 0 else In_Block (ml_data c) 0)"
  using assms by (simp add: c_str_def)

lemma c_str_ex: "fb_ok env st \<Longrightarrow> strings st i = Some xs \<Longrightarrow> \<exists>p. c_str st i = Inr p"
  using core_of_strings [of st i xs] c_str_eq by blast

lemma read_string:
  assumes "fb_ok env st" "strings st i = Some xs" "c_str st i = Inr p" "k + n \<le> length xs"
  shows "read_mem st (ptr_add p k) n = Inr (take n (drop k xs))"
proof -
  obtain c where c: "objs st i = Some c" using core_of_strings [OF assms(2)] by blast
  note p = c_str_eq [OF assms(1) c, unfolded assms(3)]
  from assms(1) c show ?thesis
  proof (cases rule: core_cases)
    case small
    then show ?thesis using assms(2,4) c p by (auto simp: read_mem_def drop_take min_def)
  next
    case (medium a n' cap b)
    then show ?thesis using assms(2,4) p by (auto simp: read_mem_def drop_take min_def core_simps)
  next
    case (large a n' cap b k')
    then show ?thesis using assms(2,4) p by (auto simp: read_mem_def drop_take min_def core_simps)
  qed
qed

lemma buffer_c_str: "buffer st i p \<Longrightarrow> c_str st i = Inr p"
  unfolding buffer_def
proof (elim disjE exE conjE)
  fix a n cap b assume u: "unique st i a n cap b" and p: "p = In_Block a 0"
  then show "c_str st i = Inr p"
    using uniqueD(1,3) [OF u] long_category_cases [of b] by (auto simp: c_str_def core_simps)
qed (simp add: c_str_def)

lemma ptr_add_0: "offset p = 0 \<Longrightarrow> ptr_add p 0 = p"
  by (cases p) simp_all

lemma offset_ptr_add [simp]: "offset (ptr_add p k) = offset p + k"
  by (cases p) simp_all

lemma ptr_add_add [simp]: "ptr_add (ptr_add p k) n = ptr_add p (k + n)"
  by (cases p) simp_all

lemma same_base_ptr_add [simp]: "same_base (ptr_add p k) q = same_base p q" "same_base p (ptr_add q k) = same_base p q"
  by (cases p; cases q; simp)+

lemma buffer_offset: "buffer st i p \<Longrightarrow> offset p = 0"
  by (auto simp: buffer_def)

lemma overwrite_after:
  assumes "k + length ys \<le> j" "j < length bs"
  shows "overwrite bs k ys ! j = bs ! j"
proof -
  have "\<not> j - k < length ys" "\<not> j < k" "k \<le> length bs" using assms by auto
  then show ?thesis using assms by (simp add: overwrite_def nth_append min_def)
qed

lemma take_overwrite:
  assumes "k + length ys \<le> m" "m \<le> length bs"
  shows "take m (overwrite bs k ys) = overwrite (take m bs) k ys"
proof (cases "m \<le> k")
  case True
  then have "m = k" "length ys = 0" using assms(1) by linarith+
  then show ?thesis by (simp add: overwrite_def)
next
  case False
  then show ?thesis using assms by (simp add: overwrite_def drop_take min_def add.commute)
qed

text \<open>A write through the pointer that \<open>mutableData\<close> or \<open>expandNoinit\<close> returned.\<close>

lemma buffer_write:
  assumes "fb_ok env st" "buffer st i p" "strings st i = Some xs" "k + length ys \<le> length xs"
  shows "\<exists>st'. write_mem st (ptr_add p k) ys = Inr st' \<and> post env i st (overwrite xs k ys) st' \<and> buffer st' i p"
  using assms(2) [unfolded buffer_def]
proof (elim disjE exE conjE)
  fix c assume c: "objs st i = Some c" "category c = isSmall" and p: "p = In_Object i 0"
  from assms(1) c(1) have s: "small_ok env c" "length c = 24" "xs = take (smallSize c) c" "\<And>a. \<not> points (objs st i) a" "smallSize c \<le> 23"
    using c(2) assms(3) by (cases rule: core_cases; simp add: core_simps)+
  let ?c = "overwrite c k ys"
  have k: "k + length ys \<le> smallSize c" "length xs = smallSize c" using s(2,3,5) assms(4) by auto
  have nth: "?c ! j = c ! j" if "smallSize c \<le> j" "j \<le> 23" for j
    using k that s(2,5) by (intro overwrite_after) simp_all
  have sz: "smallSize ?c = smallSize c" using nth [of 23] s(5) by (simp add: smallSize_def)
  have ok: "small_ok env ?c"
    using s(1,2,5) k nth [of 23] nth [of "smallSize c"] by (auto simp: small_ok_def sz)
  have t: "take (smallSize ?c) ?c = overwrite xs k ys"
    unfolding sz s(3) using k(1) s(2,5) by (intro take_overwrite) simp_all
  show ?thesis
    using replace_small [OF assms(1) ok, of i] s(2,4,5) c p t small_category [OF ok] k
    by (auto simp: buffer_def)
next
  fix a n cap b assume u: "unique st i a n cap b" and p: "p = In_Block a 0"
  note v = uniqueD [OF u]
  have n: "length xs = n" by (rule unique_length [OF u assms(3)])
  let ?bs = "overwrite (blk_bytes b) k ys"
  have l: "length ?bs = length (blk_bytes b)" "?bs ! n = 0"
    using v(4,5,7) assms(4) n overwrite_after [of k ys n "blk_bytes b"] by simp_all
  have xs: "xs = take n (blk_bytes b)" using v(8) assms(3) by simp
  have t: "take n ?bs = overwrite xs k ys"
    unfolding xs using assms(4) n v(4,5) by (intro take_overwrite) simp_all
  have o: "(objs st)(i \<mapsto> ml_core a n cap (long_category b)) = objs st" using v(1) by auto
  have w: "write_mem st (ptr_add p k) ys =
      Inr (st\<lparr>objs := (objs st)(i \<mapsto> ml_core a n cap (long_category b)), heap := (heap st)(a \<mapsto> b\<lparr>blk_bytes := ?bs\<rparr>)\<rparr>)"
    using p v(2,4,5) assms(4) n unfolding o by simp
  show ?thesis
    using update_unique [OF assms(1) u v(4) l] unique_buffer w t p by auto
qed

section \<open>Sources\<close>

text \<open>Where the characters of a copy come from, the pointer the code is given, and the characters.\<close>

datatype src = Chars_Of oid nat | Caller "u8 list" nat

fun ptr_of :: "mem \<Rightarrow> src \<Rightarrow> ptr result" where
  "ptr_of st (Chars_Of j k) = andthen (c_str st j) (\<lambda>p. Inr (ptr_add p k))"
| "ptr_of st (Caller m k) = Inr (Extern m k)"

fun src_chars :: "(oid \<Rightarrow> u8 list option) \<Rightarrow> src \<Rightarrow> nat \<Rightarrow> u8 list option" where
  "src_chars m (Chars_Of j k) n = (case m j of None \<Rightarrow> None
     | Some ys \<Rightarrow> if k + n \<le> length ys then Some (take n (drop k ys)) else None)"
| "src_chars m (Caller ys k) n = (if k + n \<le> length ys then Some (take n (drop k ys)) else None)"

fun foreign :: "oid \<Rightarrow> src \<Rightarrow> bool" where
  "foreign i (Chars_Of j k) \<longleftrightarrow> j \<noteq> i"
| "foreign i (Caller ys k) \<longleftrightarrow> True"

lemma src_chars_length: "src_chars m s n = Some cs \<Longrightarrow> length cs = n"
  by (cases s) (auto split: option.splits if_splits)

lemma src_chars_strings: "src_chars m (Chars_Of j k) n = Some cs \<Longrightarrow>
    \<exists>ys. m j = Some ys \<and> k + n \<le> length ys \<and> cs = take n (drop k ys)"
  by (auto split: option.splits if_splits)

lemma read_source:
  assumes "fb_ok env st" "src_chars (strings st) s n = Some cs" "ptr_of st s = Inr p"
  shows "read_mem st p n = Inr cs"
proof (cases s)
  case (Chars_Of j k)
  then show ?thesis
    using assms read_string [OF assms(1)] by (auto split: option.splits if_splits simp: andthen_eq_Inr_iff)
next
  case (Caller ys k)
  then show ?thesis using assms by (auto simp: read_mem_def split: if_splits)
qed

lemma foreign_source:
  assumes "fb_ok env st" "fb_ok env st'" "frame {i} st st'" "foreign i s"
    "src_chars (strings st) s n = Some cs" "ptr_of st s = Inr p"
  shows "read_mem st' p n = Inr cs" "buffer st' i q \<Longrightarrow> \<not> same_base p q" "buffer st' i q \<Longrightarrow> \<not> same_base q p"
proof -
  have "read_mem st' p n = Inr cs \<and> (\<forall>q. buffer st' i q \<longrightarrow> \<not> same_base p q \<and> \<not> same_base q p)"
  proof (cases s)
    case (Chars_Of j k)
    with assms(4) have ji: "j \<noteq> i" by simp
    obtain ys where ys: "strings st j = Some ys" "k + n \<le> length ys" "cs = take n (drop k ys)"
      using src_chars_strings assms(5) Chars_Of by blast
    obtain c where c: "objs st j = Some c" using core_of_strings [OF ys(1)] by blast
    obtain p0 where p0: "c_str st j = Inr p0" "p = ptr_add p0 k"
      using assms(6) Chars_Of by (auto simp: andthen_eq_Inr_iff)
    have c': "objs st' j = Some c" using assms(3) ji c by (simp add: frame_def)
    have "c_str st' j = Inr p0" using p0(1) c c' by (simp add: c_str_def)
    moreover have "strings st' j = Some ys" using frame_strings [OF assms(3), of j] ji ys(1) by simp
    ultimately have r: "read_mem st' p n = Inr cs"
      using read_string [OF assms(2), of j ys p0 k n] ys(2,3) p0(2) by simp
    have "\<not> same_base p0 q \<and> \<not> same_base q p0" if "buffer st' i q" for q
    proof
      have "False" if "same_base p0 q \<or> same_base q p0"
      proof -
        from c_str_eq [OF assms(1) c] p0(1) have e: "p0 = (if category c = isSmall then In_Object j 0 else In_Block (ml_data c) 0)" by simp
        with \<open>buffer st' i q\<close> that ji obtain n' cap b where "unique st' i (ml_data c) n' cap b" "category c \<noteq> isSmall"
          by (auto simp: buffer_def split: if_splits)
        then show False
          using user_count(2) [OF assms(2) [unfolded fb_ok_def], of i "ml_data c" b j] c' ji points_long
          by (auto simp: unique_def points_def)
      qed
      then show "\<not> same_base p0 q" "\<not> same_base q p0" by blast+
    qed
    then show ?thesis using r p0(2) by simp
  next
    case (Caller ys k)
    then have "p = Extern ys k" using assms(6) by simp
    then show ?thesis using assms(5) Caller by (auto simp: read_mem_def buffer_def split: if_splits)
  qed
  then show "read_mem st' p n = Inr cs" "buffer st' i q \<Longrightarrow> \<not> same_base p q" "buffer st' i q \<Longrightarrow> \<not> same_base q p" by blast+
qed

lemma not_same_base_copy:
  "read_mem st p n = Inr cs \<Longrightarrow> \<not> same_base p d \<Longrightarrow> podCopy st p n d = write_mem st d cs"
  "read_mem st p n = Inr cs \<Longrightarrow> \<not> same_base p d \<Longrightarrow> std_copy st p n d = write_mem st d cs"
  "read_mem st p n = Inr cs \<Longrightarrow> podMove st p n d = write_mem st d cs"
  by (simp_all add: podCopy_def std_copy_def podMove_def)

text \<open>The length of a string after a change.\<close>

lemma overwrite_end: "length ys = length zs \<Longrightarrow> overwrite (xs @ ys) (length xs) zs = xs @ zs"
  by (simp add: overwrite_def)

section \<open>Correctness\<close>

lemma postD:
  assumes "post env i st xs st'"
  shows "fb_ok env st'" "frame {i} st st'" "strings st' i = Some xs" "t \<noteq> i \<Longrightarrow> objs st' t = objs st t"
  using assms by (auto simp: post_def frame_def)

lemma post_chain: "post env i st xs st1 \<Longrightarrow> yields env r (post env i st1 ys) \<Longrightarrow> yields env r (post env i st ys)"
  by (erule yields_mono) (rule post_trans)

lemma not_temp: "strings st i = Some xs \<Longrightarrow> objs st t = None \<Longrightarrow> t \<noteq> i"
  by (auto simp: strings_def)

lemma expanded_write:
  assumes "expanded env i st xs delta (p, st1)" "length zs = delta"
  shows "\<exists>st2. write_mem st1 p zs = Inr st2 \<and> post env i st (xs @ zs) st2"
proof -
  from assms(1) obtain ys q where e: "length ys = delta" "post env i st (xs @ ys) st1" "write_mem st1 p [] = Inr st1"
    "p = ptr_add q (length xs)" "0 < delta \<longrightarrow> buffer st1 i q"
    by (auto simp: expanded_def)
  show ?thesis
  proof (cases "delta = 0")
    case True
    then show ?thesis using e assms(2) by simp
  next
    case False
    with e(5) have "buffer st1 i q" by simp
    then obtain st2 where "write_mem st1 p zs = Inr st2" "post env i st1 (overwrite (xs @ ys) (length xs) zs) st2"
      using buffer_write [OF postD(1) [OF e(2)] _ postD(3) [OF e(2)], of q "length xs" zs] assms(2) e(1,4) by auto
    then show ?thesis using post_trans [OF e(2)] overwrite_end [of ys zs xs] e(1) assms(2) by auto
  qed
qed

lemma fill_expanded:
  "expanded env i st xs n (p, st1) \<Longrightarrow> yields env (podFill st1 p n c) (post env i st (xs @ replicate n c))"
  using expanded_write [of env i st xs n p st1 "replicate n c"] by (auto simp: podFill_def)

lemma fb_resize_yields:
  assumes "env_ok env" "fb_ok env st" "strings st i = Some xs" "objs st Core_Temp = None"
    "length xs < n \<Longrightarrow> n \<le> max_length"
  shows "yields env (fb_resize env i n c st) (post env i st (take n xs @ replicate (n - length xs) c))"
proof (cases "n \<le> length xs")
  case True
  then show ?thesis
    using shrink_yields [OF assms(1-3) _ assms(4), of "length xs - n"] str_size_eq [OF assms(2,3)]
    by (simp add: fb_resize_def)
next
  case False
  then have "yields env (expandNoinit env i (n - length xs) False st)
      (\<lambda>x. yields env (case x of (pData, st') \<Rightarrow> podFill st' pData (n - length xs) c) (post env i st (xs @ replicate (n - length xs) c)))"
    using fill_expanded assms(5)
    by (intro yields_mono [OF expandNoinit_yields [OF assms(1-3) _ assms(4)]]) auto
  then show ?thesis using False str_size_eq [OF assms(2,3)] by (simp add: fb_resize_def Let_def)
qed

lemma fb_append_fill_yields:
  assumes "env_ok env" "fb_ok env st" "strings st i = Some xs" "objs st Core_Temp = None" "length xs + n \<le> max_length"
  shows "yields env (fb_append_fill env i n c st) (post env i st (xs @ replicate n c))"
  unfolding fb_append_fill_def yields_andthen
  by (rule yields_mono [OF expandNoinit_yields [OF assms(1-3,5,4)]]) (auto intro: fill_expanded)

lemma core_push_back_yields:
  assumes "env_ok env" "fb_ok env st" "strings st i = Some xs" "objs st Core_Temp = None" "length xs < max_length"
  shows "yields env (core_push_back env i c st) (post env i st (xs @ [c]))"
  unfolding core_push_back_def yields_andthen
proof (rule yields_mono [OF expandNoinit_yields [OF assms(1-3) _ assms(4)]])
  fix x assume "expanded env i st xs 1 x"
  then show "yields env (case x of (p, st') \<Rightarrow> write_mem st' p [c]) (post env i st (xs @ [c]))"
    using expanded_write [of env i st xs 1 "fst x" "snd x" "[c]"] by (auto simp: case_prod_beta)
qed (use assms(5) in simp)

text \<open>Strings that share a block are equal.\<close>

lemma shared_equal:
  assumes "fb_ok env st" "objs st i = Some c" "objs st j = Some d" "category c \<noteq> isSmall" "category d \<noteq> isSmall" "ml_data c = ml_data d"
  shows "strings st i = strings st j"
proof -
  have "objs st i = objs st j"
    using mem_okD(4) [OF assms(1) [unfolded fb_ok_def], of i "ml_data c" j] assms(2-) by (auto simp: points_def)
  then show ?thesis by (simp add: strings_def)
qed

lemma same_base_shared:
  assumes "fb_ok env st" "strings st i = Some xs" "strings st j = Some ys" "c_str st i = Inr p" "c_str st j = Inr q" "same_base p q"
  shows "p = q \<and> xs = ys"
proof -
  obtain c d where c: "objs st i = Some c" and d: "objs st j = Some d"
    using core_of_strings assms(2,3) by blast
  have p: "p = (if category c = isSmall then In_Object i 0 else In_Block (ml_data c) 0)"
    "q = (if category d = isSmall then In_Object j 0 else In_Block (ml_data d) 0)"
    using c_str_eq [OF assms(1) c] c_str_eq [OF assms(1) d] assms(4,5) by simp_all
  show ?thesis
  proof (cases "i = j")
    case False
    then have "category c \<noteq> isSmall" "category d \<noteq> isSmall" "ml_data c = ml_data d"
      using assms(6) unfolding p by (auto split: if_splits)
    then show ?thesis using shared_equal [OF assms(1) c d] assms(2,3) p by simp
  qed (use assms(2-5) in simp)
qed

lemma fb_append_yields:
  assumes "env_ok env" "fb_ok env st" "strings st i = Some xs" "objs st Core_Temp = None" "length xs + n \<le> max_length"
    "src_chars (strings st) s n = Some cs" "ptr_of st s = Inr p"
  shows "yields env (fb_append env i p n st) (post env i st (xs @ cs))"
proof (cases "n = 0")
  case True
  then show ?thesis
    using src_chars_length [OF assms(6)] post_refl [OF assms(2,3)] by (simp add: fb_append_def)
next
  case False
  note cs = src_chars_length [OF assms(6)]
  obtain d0 where d0: "c_str st i = Inr d0" using c_str_ex [OF assms(2,3)] by blast
  have o0: "offset d0 = 0" using d0 by (auto simp: c_str_def andthen_eq_Inr_iff)
  have "yields env (if inside d0 (length xs) p
      then andthen (c_str st1 i) (\<lambda>d. podMove st1 (ptr_add d (offset p - offset d0)) n pData)
      else podCopy st1 p n pData) (post env i st (xs @ cs))"
    if e: "expanded env i st xs n (pData, st1)" for pData st1
  proof -
    from e False obtain ys q where x: "length ys = n" "post env i st (xs @ ys) st1" "pData = ptr_add q (length xs)" "buffer st1 i q"
      by (auto simp: expanded_def)
    obtain st2 where w: "write_mem st1 pData cs = Inr st2" "post env i st (xs @ cs) st2"
      using expanded_write [OF e cs] by blast
    have own: "read_mem st1 (ptr_add q k) n = Inr cs" if "k + n \<le> length xs" "cs = take n (drop k xs)" for k
      using read_string [OF postD(1,3) [OF x(2)] buffer_c_str [OF x(4)], of k n] that postD(1,3) [OF x(2)] by simp
    show ?thesis
    proof (cases "inside d0 (length xs) p")
      case True
      obtain j k where s: "s = Chars_Of j k"
        using True assms(7) by (cases s) (auto simp: inside_def elim: same_base.elims)
      obtain ys' where ys': "strings st j = Some ys'" "k + n \<le> length ys'" "cs = take n (drop k ys')"
        using src_chars_strings assms(6) s by blast
      obtain q0 where q0: "c_str st j = Inr q0" "p = ptr_add q0 k"
        using assms(7) s by (auto simp: andthen_eq_Inr_iff)
      have "d0 = q0 \<and> xs = ys'"
        using same_base_shared [OF assms(2,3) ys'(1) d0 q0(1)] True q0(2) by (simp add: inside_def)
      then have "offset p - offset d0 = k" "k + n \<le> length xs" "cs = take n (drop k xs)" using q0(2) ys' by simp_all
      then show ?thesis using True buffer_c_str [OF x(4)] own not_same_base_copy(3) w by simp
    next
      case out: False
      have "foreign i s"
      proof (cases s)
        case (Chars_Of j k)
        show ?thesis
        proof (rule ccontr)
          assume "\<not> foreign i s"
          then have j: "j = i" using Chars_Of by simp
          then have "p = ptr_add d0 k" using assms(7) Chars_Of d0 by simp
          moreover have "k + n \<le> length xs" using src_chars_strings assms(3,6) Chars_Of j by fastforce
          moreover have "same_base d0 d0" using d0 by (auto simp: c_str_def andthen_eq_Inr_iff)
          ultimately show False using out False o0 by (simp add: inside_def)
        qed
      qed simp
      from foreign_source [OF assms(2) postD(1,2) [OF x(2)] this assms(6,7)]
      have "podCopy st1 p n pData = write_mem st1 pData cs"
        using x(3,4) by (intro not_same_base_copy(1)) simp_all
      then show ?thesis using out w by simp
    qed
  qed
  then have "yields env (expandNoinit env i n True st) (\<lambda>x. yields env (case x of (pData, st1) \<Rightarrow>
      if inside d0 (length xs) p then andthen (c_str st1 i) (\<lambda>d. podMove st1 (ptr_add d (offset p - offset d0)) n pData)
      else podCopy st1 p n pData) (post env i st (xs @ cs)))"
    by (intro yields_mono [OF expandNoinit_yields [OF assms(1-3,5,4)]]) (auto simp del: yields_andthen)
  then show ?thesis
    using False d0 str_size_eq [OF assms(2,3)] by (simp add: fb_append_def del: yields_andthen) (simp only: yields_andthen)
qed

lemma mutable_cases:
  assumes "fb_ok env st" "strings st i = Some xs"
  obtains (own) p where "buffer st i p" "mutableData env i st = Inr (p, st)"
  | (shared) j c where "j \<noteq> i" "objs st j = objs st i" "objs st i = Some c" "category c \<noteq> isSmall"
proof -
  obtain c where c: "objs st i = Some c" using core_of_strings [OF assms(2)] by blast
  from assms(1) c show thesis
  proof (cases rule: core_cases)
    case small
    then show thesis using c by (intro own [of "In_Object i 0"]) (auto simp: mutableData_def buffer_def)
  next
    case (medium a n cap b)
    then show thesis using c
      by (intro own [of "In_Block a 0"]) (auto simp: mutableData_def core_simps intro: unique_buffer)
  next
    case (large a n cap b k)
    show thesis
    proof (cases "k = 1")
      case True
      then show thesis using c large
        by (intro own [of "In_Block a 0"]) (auto simp: mutableData_def core_simps refs_def intro: unique_buffer)
    next
      case False
      have p: "points (objs st i) a" using c large(1,10) by (simp add: points_def core_simps)
      have "card (users (objs st) a) = k"
        using mem_okD(2) [OF assms(1) [unfolded fb_ok_def] large(3)] large(5) by simp
      then have "card (users (objs st) a) \<noteq> card {i}" using False by simp
      then have "users (objs st) a \<noteq> {i}" by metis
      then obtain j where j: "points (objs st j) a" "j \<noteq> i" using p in_users by blast
      have "objs st j = objs st i" by (rule mem_okD(4) [OF assms(1) [unfolded fb_ok_def] j(1) p])
      then show thesis using j(2) c large(1) by (intro shared [of j c]) (simp_all add: core_simps)
    qed
  qed
qed

lemma mutable_source:
  assumes "env_ok env" "fb_ok env st" "strings st i = Some xs" "src_chars (strings st) s n = Some cs" "ptr_of st s = Inr p"
  shows "yields env (mutableData env i st) (\<lambda>(d, st'). post env i st xs st' \<and> buffer st' i d \<and> read_mem st' p n = Inr cs)"
proof -
  have F: "yields env (mutableData env i st) (\<lambda>(d, st'). post env i st xs st' \<and> buffer st' i d \<and> read_mem st' p n = Inr cs)"
    if f: "foreign i t" "src_chars (strings st) t n = Some cs" "ptr_of st t = Inr p" for t
    by (rule yields_mono [OF mutableData_yields [OF assms(1-3)]])
      (use foreign_source(1) [OF assms(2) _ _ f] in \<open>auto simp: post_def\<close>)
  show ?thesis
  proof (cases "foreign i s")
    case False
    then obtain k where s: "s = Chars_Of i k" by (cases s) auto
    from assms(2,3) show ?thesis
    proof (cases rule: mutable_cases)
      case (own q)
      then show ?thesis using post_refl [OF assms(2,3)] read_source [OF assms(2,4,5)] by simp
    next
      case (shared j c)
      then have "strings st j = strings st i" "c_str st j = c_str st i"
        by (simp_all add: strings_def c_str_def get_core_def)
      then show ?thesis using F [of "Chars_Of j k"] shared(1) s assms(4,5) by simp
    qed
  qed (use F assms(4,5) in blast)
qed

lemma fb_assign_yields:
  assumes "env_ok env" "fb_ok env st" "strings st i = Some xs" "objs st Core_Temp = None" "n \<le> max_length"
    "src_chars (strings st) s n = Some cs" "ptr_of st s = Inr p"
  shows "yields env (fb_assign env i p n st) (post env i st cs)"
proof -
  note cs = src_chars_length [OF assms(6)]
  note sz = str_size_eq [OF assms(2,3)]
  have t: "Core_Temp \<noteq> i" by (rule not_temp [OF assms(3,4)])
  consider "n = 0" | (le) "0 < n" "n \<le> length xs" | (gt) "0 < n" "length xs < n" by linarith
  then show ?thesis
  proof cases
    case 1
    then show ?thesis using fb_resize_yields [OF assms(1-4), of 0] cs by (simp add: fb_assign_def)
  next
    case le
    have "yields env (andthen (podMove st1 p n d) (\<lambda>st2. andthen (str_size st2 i) (\<lambda>sz'. shrink env i (sz' - n) st2))) (post env i st cs)"
      if a: "post env i st xs st1" "buffer st1 i d" "read_mem st1 p n = Inr cs" for d st1
    proof -
      have d: "ptr_add d 0 = d" by (rule ptr_add_0 [OF buffer_offset [OF a(2)]])
      obtain st2 where w: "write_mem st1 d cs = Inr st2" "post env i st1 (overwrite xs 0 cs) st2"
        using buffer_write [OF postD(1) [OF a(1)] a(2) postD(3) [OF a(1)], of 0 cs] le cs d by auto
      have l: "length (overwrite xs 0 cs) = length xs" using le cs by simp
      have o: "objs st2 Core_Temp = None" using postD(4) [OF w(2) t] postD(4) [OF a(1) t] assms(4) by simp
      have "yields env (shrink env i (length xs - n) st2) (post env i st2 (take (length xs - (length xs - n)) (overwrite xs 0 cs)))"
        by (rule shrink_yields [OF assms(1) postD(1) [OF w(2)] postD(3) [OF w(2)] _ o, unfolded l]) simp
      moreover have "take (length xs - (length xs - n)) (overwrite xs 0 cs) = cs" using le cs by simp
      ultimately have "yields env (shrink env i (length xs - n) st2) (post env i st cs)"
        using post_trans [OF a(1) post_trans [OF w(2)]] by (auto elim: yields_mono)
      then show ?thesis
        using w(1) str_size_eq [OF postD(1) [OF w(2)] postD(3) [OF w(2)]] l not_same_base_copy(3) [OF a(3)] by simp
    qed
    then have "yields env (mutableData env i st) (\<lambda>x. yields env (case x of (d, st1) \<Rightarrow> andthen (podMove st1 p n d)
        (\<lambda>st2. andthen (str_size st2 i) (\<lambda>sz'. shrink env i (sz' - n) st2))) (post env i st cs))"
      by (intro yields_mono [OF mutable_source [OF assms(1-3,6,7)]]) (auto simp del: yields_andthen)
    then show ?thesis using le sz by (simp add: fb_assign_def del: yields_andthen) (simp only: yields_andthen)
  next
    case gt
    have f: "foreign i s"
    proof (rule ccontr)
      assume "\<not> foreign i s"
      then obtain k where "s = Chars_Of i k" by (cases s) auto
      then show False using assms(3,6) gt by (auto split: if_splits)
    qed
    have "yields env (andthen (expandNoinit env i n False st1) (\<lambda>(d, st2). podCopy st2 p n d)) (post env i st cs)"
      if a: "post env i st [] st1" for st1
    proof -
      have o: "objs st1 Core_Temp = None" using postD(4) [OF a t] assms(4) by simp
      have "yields env (podCopy st2 p n d) (post env i st cs)" if e: "expanded env i st1 [] n (d, st2)" for d st2
      proof -
        obtain ys q where x: "post env i st1 ([] @ ys) st2" "d = ptr_add q 0" "buffer st2 i q"
          using e gt by (auto simp: expanded_def)
        obtain st3 where w: "write_mem st2 d cs = Inr st3" "post env i st1 ([] @ cs) st3"
          using expanded_write [OF e cs] by blast
        have "frame {i} st st2" using postD(2) [OF a] postD(2) [OF x(1)] by (rule frame_trans) simp
        from foreign_source [OF assms(2) postD(1) [OF x(1)] this f assms(6,7)]
        have "podCopy st2 p n d = write_mem st2 d cs" using x(2,3) by (intro not_same_base_copy(1)) simp_all
        then show ?thesis using w post_trans [OF a w(2)] by simp
      qed
      then show ?thesis
        unfolding yields_andthen
        by (intro yields_mono [OF expandNoinit_yields [OF assms(1) postD(1) [OF a] postD(3) [OF a] _ o]]) (use assms(5) in auto)
    qed
    then have "yields env (fb_resize env i 0 0 st) (\<lambda>st1. yields env (andthen (expandNoinit env i n False st1) (\<lambda>(d, st2). podCopy st2 p n d)) (post env i st cs))"
      using yields_mono [OF fb_resize_yields [OF assms(1-4), of 0 0]] by simp
    then show ?thesis using gt sz by (simp add: fb_assign_def)
  qed
qed

lemma mutable_write:
  assumes "env_ok env" "fb_ok env st" "strings st i = Some xs" "k + length ys \<le> length xs"
  shows "yields env (andthen (mutableData env i st) (\<lambda>(d, st'). write_mem st' (ptr_add d k) ys)) (post env i st (overwrite xs k ys))"
proof -
  have w: "yields env (write_mem st' (ptr_add d k) ys) (post env i st (overwrite xs k ys))"
    if "post env i st xs st'" "buffer st' i d" for d st'
    using buffer_write [OF postD(1) [OF that(1)] that(2) postD(3) [OF that(1)] assms(4)] post_trans [OF that(1)] by auto
  show ?thesis
    unfolding yields_andthen by (rule yields_mono [OF mutableData_yields [OF assms(1-3)]]) (use w in auto)
qed

lemma fb_write_at_yields:
  assumes "env_ok env" "fb_ok env st" "strings st i = Some xs" "pos < length xs"
  shows "yields env (fb_write_at env i pos c st) (post env i st (xs[pos := c]))"
  using mutable_write [OF assms(1-3), of pos "[c]"] assms(4) unfolding fb_write_at_def
  by (simp add: overwrite_single del: yields_andthen)

lemma fb_at_eq:
  assumes "fb_ok env st" "strings st i = Some xs"
  shows "fb_at i n st = (if n < length xs then Inr (xs ! n) else Inl Out_Of_Range)"
proof -
  obtain p where p: "c_str st i = Inr p" using c_str_ex [OF assms] by blast
  have "n < length xs \<Longrightarrow> read_mem st (ptr_add p n) 1 = Inr [xs ! n]"
    using read_string [OF assms p, of n 1] by (simp add: take_Suc hd_drop_conv_nth)
  then show ?thesis
    using p by (simp add: fb_at_def str_size_eq [OF assms] enforce_range_def)
qed

lemma fb_erase_yields:
  assumes "env_ok env" "fb_ok env st" "strings st i = Some xs" "objs st Core_Temp = None" "pos \<le> length xs"
  shows "yields env (fb_erase env i pos n st) (post env i st (take pos xs @ drop (pos + n) xs))"
proof -
  define m where "m = procrustes n (length xs - pos)"
  have m: "pos + m \<le> length xs" "drop (pos + m) xs = drop (pos + n) xs"
    using assms(5) by (auto simp: m_def procrustes_def)
  have t: "Core_Temp \<noteq> i" by (rule not_temp [OF assms(3,4)])
  let ?ys = "overwrite xs pos (drop (pos + m) xs)"
  have l: "length ?ys = length xs" using m(1) by simp
  have tk: "take (length xs - m) ?ys = take pos xs @ drop (pos + n) xs"
    unfolding m(2) [symmetric] using m(1) by (simp add: overwrite_def)
  have "yields env (andthen (std_copy st1 (ptr_add b (pos + m)) (length xs - (pos + m)) (ptr_add b pos)) (\<lambda>st2. fb_resize env i (length xs - m) 0 st2))
      (post env i st (take pos xs @ drop (pos + n) xs))"
    if a: "post env i st xs st1" "buffer st1 i b" for b st1
  proof -
    have "read_mem st1 (ptr_add b (pos + m)) (length xs - (pos + m)) = Inr (drop (pos + m) xs)"
      using read_string [OF postD(1,3) [OF a(1)] buffer_c_str [OF a(2)], of "pos + m" "length xs - (pos + m)"] m(1)
        postD(1,3) [OF a(1)] by simp
    then have cp: "std_copy st1 (ptr_add b (pos + m)) (length xs - (pos + m)) (ptr_add b pos) = write_mem st1 (ptr_add b pos) (drop (pos + m) xs)"
      by (simp add: std_copy_def podMove_def)
    obtain st2 where w: "write_mem st1 (ptr_add b pos) (drop (pos + m) xs) = Inr st2" "post env i st1 ?ys st2"
      using buffer_write [OF postD(1) [OF a(1)] a(2) postD(3) [OF a(1)], of pos "drop (pos + m) xs"] m(1) by auto
    have o: "objs st2 Core_Temp = None" using postD(4) [OF w(2) t] postD(4) [OF a(1) t] assms(4) by simp
    have "yields env (fb_resize env i (length xs - m) 0 st2) (post env i st2 (take pos xs @ drop (pos + n) xs))"
      using fb_resize_yields [OF assms(1) postD(1) [OF w(2)] postD(3) [OF w(2)] o, of "length xs - m" 0]
      unfolding l tk by simp
    then have "yields env (fb_resize env i (length xs - m) 0 st2) (post env i st (take pos xs @ drop (pos + n) xs))"
      by (rule yields_mono) (rule post_trans [OF post_trans [OF a(1) w(2)]])
    then show ?thesis by (simp add: cp w(1))
  qed
  then have "yields env (mutableData env i st) (\<lambda>x. yields env (case x of (b, st1) \<Rightarrow>
      andthen (std_copy st1 (ptr_add b (pos + m)) (length xs - (pos + m)) (ptr_add b pos)) (\<lambda>st2. fb_resize env i (length xs - m) 0 st2))
      (post env i st (take pos xs @ drop (pos + n) xs)))"
    by (intro yields_mono [OF mutableData_yields [OF assms(1-3)]]) (auto simp del: yields_andthen)
  then show ?thesis
    using assms(5) by (simp add: fb_erase_def str_size_eq [OF assms(2,3)] enforce_range_def Let_def m_def)
qed

text \<open>The gap that an insertion opens.\<close>

lemma gap_filled:
  assumes "length ys = n" "length cs = n" "pos \<le> length xs"
  shows "overwrite (overwrite (xs @ ys) (pos + n) (drop pos xs)) pos cs = take pos xs @ cs @ drop pos xs"
  using assms by (simp add: overwrite_def)

lemma open_gap:
  assumes "env_ok env" "fb_ok env st" "strings st i = Some xs" "objs st Core_Temp = None" "length xs + n \<le> max_length" "pos \<le> length xs"
    "\<And>b st3 zs. post env i st zs st3 \<Longrightarrow> buffer st3 i b \<Longrightarrow> length zs = length xs + n \<Longrightarrow>
      (\<And>cs. length cs = n \<Longrightarrow> overwrite zs pos cs = take pos xs @ cs @ drop pos xs) \<Longrightarrow> yields env (f b st3) Q"
  shows "yields env (andthen (str_size st i) (\<lambda>oldSize. andthen (expandNoinit env i n True st) (\<lambda>(_, st1).
     andthen (mutableData env i st1) (\<lambda>(b, st2). andthen (podMove st2 (ptr_add b pos) (oldSize - pos) (ptr_add b (pos + n))) (\<lambda>st3. f b st3))))) Q"
proof -
  have mv: "yields env (andthen (podMove st2 (ptr_add b pos) (length xs - pos) (ptr_add b (pos + n))) (\<lambda>st3. f b st3)) Q"
    if ys: "length ys = n" and a: "post env i st (xs @ ys) st2" "buffer st2 i b" for ys st2 b
  proof -
    have rd: "read_mem st2 (ptr_add b pos) (length xs - pos) = Inr (drop pos xs)"
      using read_string [OF postD(1,3) [OF a(1)] buffer_c_str [OF a(2)], of pos "length xs - pos"] assms(6) postD(1,3) [OF a(1)] by simp
    obtain st3 where w: "write_mem st2 (ptr_add b (pos + n)) (drop pos xs) = Inr st3"
      "post env i st2 (overwrite (xs @ ys) (pos + n) (drop pos xs)) st3" "buffer st3 i b"
      using buffer_write [OF postD(1) [OF a(1)] a(2) postD(3) [OF a(1)], of "pos + n" "drop pos xs"] assms(6) ys by auto
    have "yields env (f b st3) Q"
      using assms(6) ys by (intro assms(7) [OF post_trans [OF a(1) w(2)] w(3)]) (simp_all add: gap_filled)
    then show ?thesis by (simp add: not_same_base_copy(3) [OF rd] w(1))
  qed
  have "yields env (andthen (mutableData env i st1) (\<lambda>(b, st2). andthen (podMove st2 (ptr_add b pos) (length xs - pos) (ptr_add b (pos + n))) (\<lambda>st3. f b st3))) Q"
    if "expanded env i st xs n (p, st1)" for p st1
  proof -
    from that obtain ys where ys: "length ys = n" "post env i st (xs @ ys) st1" by (auto simp: expanded_def)
    show ?thesis
      unfolding yields_andthen [of env "mutableData env i st1"]
      by (rule yields_mono [OF mutableData_yields [OF assms(1) postD(1) [OF ys(2)] postD(3) [OF ys(2)]]])
        (use mv [OF ys(1) post_trans [OF ys(2)]] in \<open>auto simp del: yields_andthen\<close>)
  qed
  then have "yields env (expandNoinit env i n True st) (\<lambda>x. yields env (case x of (_, st1) \<Rightarrow>
     andthen (mutableData env i st1) (\<lambda>(b, st2). andthen (podMove st2 (ptr_add b pos) (length xs - pos) (ptr_add b (pos + n))) (\<lambda>st3. f b st3))) Q)"
    by (intro yields_mono [OF expandNoinit_yields [OF assms(1-3,5,4)]]) (auto simp del: yields_andthen)
  then show ?thesis by (simp add: str_size_eq [OF assms(2,3)])
qed

lemma insertImplDiscr_fill_yields:
  assumes "env_ok env" "fb_ok env st" "strings st i = Some xs" "objs st Core_Temp = None" "length xs + n \<le> max_length" "pos \<le> length xs"
  shows "yields env (insertImplDiscr_fill env i pos n c st) (post env i st (take pos xs @ replicate n c @ drop pos xs))"
  unfolding insertImplDiscr_fill_def
proof (rule open_gap [OF assms])
  fix b st3 zs
  assume a: "post env i st zs st3" "buffer st3 i b" "length zs = length xs + n"
    "\<And>cs. length cs = n \<Longrightarrow> overwrite zs pos cs = take pos xs @ cs @ drop pos xs"
  show "yields env (podFill st3 (ptr_add b pos) n c) (post env i st (take pos xs @ replicate n c @ drop pos xs))"
    using buffer_write [OF postD(1) [OF a(1)] a(2) postD(3) [OF a(1)], of pos "replicate n c"] a(3) a(4) [of "replicate n c"] assms(6)
      post_trans [OF a(1)] by (auto simp: podFill_def)
qed

lemma insertImpl_yields:
  assumes "env_ok env" "fb_ok env st" "strings st i = Some xs" "objs st Core_Temp = None" "length xs + n \<le> max_length" "pos \<le> length xs"
    "foreign i s" "src_chars (strings st) s n = Some cs" "ptr_of st s = Inr p"
  shows "yields env (insertImpl env i pos p n st) (post env i st (take pos xs @ cs @ drop pos xs))"
  unfolding insertImpl_def
proof (rule open_gap [OF assms(1-6)])
  note cs = src_chars_length [OF assms(8)]
  fix b st3 zs
  assume a: "post env i st zs st3" "buffer st3 i b" "length zs = length xs + n"
    "\<And>cs. length cs = n \<Longrightarrow> overwrite zs pos cs = take pos xs @ cs @ drop pos xs"
  from foreign_source [OF assms(2) postD(1,2) [OF a(1)] assms(7-9)]
  have "std_copy st3 p n (ptr_add b pos) = write_mem st3 (ptr_add b pos) cs"
    using a(2) by (intro not_same_base_copy(2)) simp_all
  then show "yields env (std_copy st3 p n (ptr_add b pos)) (post env i st (take pos xs @ cs @ drop pos xs))"
    using buffer_write [OF postD(1) [OF a(1)] a(2) postD(3) [OF a(1)], of pos cs] a(3) a(4) [OF cs] assms(6) cs
      post_trans [OF a(1)] by auto
qed

text \<open>The strings and sources that another string's change leaves alone.\<close>

lemma foreign_kept:
  assumes "frame {i} st st'" "foreign i s"
  shows "src_chars (strings st') s n = src_chars (strings st) s n" "ptr_of st' s = ptr_of st s"
proof -
  have "src_chars (strings st') s n = src_chars (strings st) s n \<and> ptr_of st' s = ptr_of st s"
  proof (cases s)
    case (Chars_Of j k)
    with assms(2) have j: "j \<noteq> i" by simp
    then have "objs st' j = objs st j" using assms(1) by (simp add: frame_def)
    then have "c_str st' j = c_str st j" by (simp add: c_str_def get_core_def)
    then show ?thesis using Chars_Of frame_strings [OF assms(1), of j] j by simp
  qed simp
  then show "src_chars (strings st') s n = src_chars (strings st) s n" "ptr_of st' s = ptr_of st s" by simp_all
qed

lemma fb_insert_fill_yields:
  assumes "env_ok env" "fb_ok env st" "strings st i = Some xs" "objs st Core_Temp = None" "length xs + n \<le> max_length" "pos \<le> length xs"
  shows "yields env (fb_insert_fill env i pos n c st) (post env i st (take pos xs @ replicate n c @ drop pos xs))"
proof -
  have t: "Core_Temp \<noteq> i" by (rule not_temp [OF assms(3,4)])
  have "yields env (insertImplDiscr_fill env i pos n c st') (post env i st (take pos xs @ replicate n c @ drop pos xs))"
    if a: "post env i st xs st'" for st'
    using insertImplDiscr_fill_yields [OF assms(1) postD(1) [OF a] postD(3) [OF a] _ assms(5,6)] postD(4) [OF a t] assms(4)
    by (intro post_chain [OF a]) simp
  then have "yields env (mutableData env i st) (\<lambda>x. yields env (case x of (_, st') \<Rightarrow> insertImplDiscr_fill env i pos n c st')
      (post env i st (take pos xs @ replicate n c @ drop pos xs)))"
    by (intro yields_mono [OF mutableData_yields [OF assms(1-3)]]) auto
  then show ?thesis using assms(6) by (simp add: fb_insert_fill_def str_size_eq [OF assms(2,3)] enforce_range_def)
qed

lemma fb_insert_yields:
  assumes "env_ok env" "fb_ok env st" "strings st i = Some xs" "objs st Core_Temp = None" "length xs + n \<le> max_length" "pos \<le> length xs"
    "foreign i s" "src_chars (strings st) s n = Some cs" "ptr_of st s = Inr p"
  shows "yields env (fb_insert env i pos p n st) (post env i st (take pos xs @ cs @ drop pos xs))"
proof -
  have t: "Core_Temp \<noteq> i" by (rule not_temp [OF assms(3,4)])
  have "yields env (insertImpl env i pos p n st') (post env i st (take pos xs @ cs @ drop pos xs))"
    if a: "post env i st xs st'" for st'
    using insertImpl_yields [OF assms(1) postD(1) [OF a] postD(3) [OF a] _ assms(5-7)] postD(4) [OF a t] assms(4,8,9)
      foreign_kept [OF postD(2) [OF a] assms(7)]
    by (intro post_chain [OF a]) simp
  then have "yields env (mutableData env i st) (\<lambda>x. yields env (case x of (_, st') \<Rightarrow> insertImpl env i pos p n st')
      (post env i st (take pos xs @ cs @ drop pos xs)))"
    by (intro yields_mono [OF mutableData_yields [OF assms(1-3)]]) auto
  then show ?thesis using assms(6) by (simp add: fb_insert_def str_size_eq [OF assms(2,3)] enforce_range_def)
qed

lemma fb_construct_fill_yields:
  assumes "env_ok env" "fb_ok env st" "objs st i = None" "objs st Core_Temp = None" "i \<noteq> Core_Temp" "n \<le> max_length"
  shows "yields env (fb_construct_fill env i n c st) (post env i st (replicate n c))"
proof -
  obtain st1 where st1: "core_default env i st = Inr st1" "post env i st [] st1"
    using core_default_post [OF assms(1-3)] by blast
  have o: "objs st1 Core_Temp = None" using postD(4) [OF st1(2)] assms(4,5) by metis
  have "yields env (podFill st2 p n c) (post env i st (replicate n c))" if "expanded env i st1 [] n (p, st2)" for p st2
    using fill_expanded [OF that, of c] by (rule yields_mono) (simp add: post_trans [OF st1(2)])
  then have "yields env (expandNoinit env i n False st1) (\<lambda>x. yields env (case x of (p, st2) \<Rightarrow> podFill st2 p n c) (post env i st (replicate n c)))"
    by (intro yields_mono [OF expandNoinit_yields [OF assms(1) postD(1) [OF st1(2)] postD(3) [OF st1(2)] _ o]]) (use assms(6) in auto)
  then show ?thesis by (simp add: fb_construct_fill_def st1(1))
qed

text \<open>A new string is built in a temporary object and exchanged with the old one.\<close>

lemma replaced_by_temp:
  assumes "fb_ok env st" "objs st t = None" "i \<noteq> t" "strings st i = Some xs" "post env t st ys st1"
  shows "yields env (andthen (core_swap t i st1) (core_destroy t)) (post env i st ys)"
  using swap_in [OF postD(1,2) [OF assms(5)] assms(2,3,4) postD(3) [OF assms(5)]] by (auto simp del: yields_andthen)

lemma isShared_ex: "fb_ok env st \<Longrightarrow> strings st i = Some xs \<Longrightarrow> \<exists>b. isShared st i = Inr b"
proof -
  assume a: "fb_ok env st" "strings st i = Some xs"
  obtain c where c: "objs st i = Some c" using core_of_strings [OF a(2)] by blast
  from a(1) c show ?thesis
    by (cases rule: core_cases) (use c in \<open>auto simp: isShared_def refs_def core_simps\<close>)
qed

lemma fb_assign_char_yields:
  assumes "env_ok env" "fb_ok env st" "strings st i = Some xs" "objs st Core_Temp = None" "objs st Str_Temp = None"
  shows "yields env (fb_assign_char env i c st) (post env i st [c])"
proof -
  note sz = str_size_eq [OF assms(2,3)]
  have t: "Core_Temp \<noteq> i" "i \<noteq> Str_Temp" using not_temp [OF assms(3)] assms(4,5) by blast+
  have wr: "yields env (fb_write_at env i 0 c st') (post env i st [c])" if a: "post env i st ys st'" "length ys = 1" for ys st'
  proof -
    have "ys[0 := c] = [c]" using a(2) by (cases ys) auto
    then show ?thesis
      using fb_write_at_yields [OF assms(1) postD(1) [OF a(1)] postD(3) [OF a(1)], of 0 c] a(2) post_trans [OF a(1)]
      by (auto elim: yields_mono)
  qed
  show ?thesis
  proof (cases "xs = []")
    case True
    have "yields env (fb_write_at env i 0 c st') (post env i st [c])" if "expanded env i st xs 1 (p, st')" for p st'
      using that wr True by (auto simp: expanded_def)
    then have "yields env (expandNoinit env i 1 False st) (\<lambda>x. yields env (case x of (_, st') \<Rightarrow> fb_write_at env i 0 c st') (post env i st [c]))"
      by (intro yields_mono [OF expandNoinit_yields [OF assms(1-3) _ assms(4)]]) (use True in \<open>auto simp: max_length_def\<close>)
    then show ?thesis using True sz by (simp add: fb_assign_char_def)
  next
    case False
    obtain sh where sh: "isShared st i = Inr sh" using isShared_ex [OF assms(2,3)] by blast
    have A: "yields env (andthen (fb_construct_fill env Str_Temp 1 c st) (\<lambda>st1. andthen (core_swap Str_Temp i st1) (core_destroy Str_Temp))) (post env i st [c])"
      unfolding yields_andthen [of env "fb_construct_fill env Str_Temp 1 c st"]
      by (rule yields_mono [OF fb_construct_fill_yields [OF assms(1,2,5,4)]])
        (use replaced_by_temp [OF assms(2,5) t(2) assms(3)] in \<open>auto simp: max_length_def simp del: yields_andthen\<close>)
    have B: "yields env (andthen (shrink env i (length xs - 1) st) (fb_write_at env i 0 c)) (post env i st [c])"
      unfolding yields_andthen
      by (rule yields_mono [OF shrink_yields [OF assms(1-3) _ assms(4)]]) (use wr False in \<open>auto simp: Suc_le_eq\<close>)
    show ?thesis using A B False sz sh by (simp add: fb_assign_char_def del: yields_andthen)
  qed
qed

text \<open>Copies whose source is a whole string or a part of one.\<close>

lemma string_source:
  "strings st j = Some ys \<Longrightarrow> k + n \<le> length ys \<Longrightarrow> src_chars (strings st) (Chars_Of j k) n = Some (take n (drop k ys))"
  "c_str st j = Inr p \<Longrightarrow> ptr_of st (Chars_Of j k) = Inr (ptr_add p k)"
  by simp_all

lemma take_min_rest: "take (min n (length ys - pos)) (drop pos ys) = take n (drop pos ys)"
  by (simp add: min_def)

lemma c_str_offset: "c_str st j = Inr p \<Longrightarrow> ptr_add p 0 = p"
  by (rule ptr_add_0) (auto simp: c_str_def andthen_eq_Inr_iff)

lemma fb_append_sub_yields:
  assumes "env_ok env" "fb_ok env st" "strings st i = Some xs" "objs st Core_Temp = None"
    "strings st j = Some ys" "pos \<le> length ys" "length xs + min n (length ys - pos) \<le> max_length"
  shows "yields env (fb_append_sub env i j pos n st) (post env i st (xs @ take n (drop pos ys)))"
proof -
  obtain p where p: "c_str st j = Inr p" using c_str_ex [OF assms(2,5)] by blast
  have m: "procrustes n (length ys - pos) = min n (length ys - pos)" by (simp add: procrustes_def)
  show ?thesis
    using fb_append_yields [OF assms(1-4,7) string_source(1) [OF assms(5)] string_source(2) [OF p], of pos] assms(6) p
    by (simp add: fb_append_sub_def str_size_eq [OF assms(2,5)] enforce_range_def m take_min_rest del: take_take)
qed

lemma fb_append_str_yields:
  assumes "env_ok env" "fb_ok env st" "strings st i = Some xs" "objs st Core_Temp = None"
    "strings st j = Some ys" "length xs + length ys \<le> max_length"
  shows "yields env (fb_append_str env i j st) (post env i st (xs @ ys))"
proof -
  obtain p where p: "c_str st j = Inr p" using c_str_ex [OF assms(2,5)] by blast
  show ?thesis
    using fb_append_yields [OF assms(1-4,6) string_source(1) [OF assms(5)] string_source(2) [OF p], of 0] p c_str_offset [OF p]
    by (simp add: fb_append_str_def str_size_eq [OF assms(2,5)])
qed

lemma fb_assign_str_yields:
  assumes "env_ok env" "fb_ok env st" "strings st i = Some xs" "objs st Core_Temp = None"
    "strings st j = Some ys" "length ys \<le> max_length"
  shows "yields env (fb_assign_str env i j st) (post env i st ys)"
proof -
  obtain p where p: "c_str st j = Inr p" using c_str_ex [OF assms(2,5)] by blast
  show ?thesis
    using fb_assign_yields [OF assms(1-4,6) string_source(1) [OF assms(5)] string_source(2) [OF p], of 0] p c_str_offset [OF p]
      post_refl [OF assms(2)] assms(5)
    by (simp add: fb_assign_str_def str_size_eq [OF assms(2,5)])
qed

lemma fb_substr_yields:
  assumes "env_ok env" "fb_ok env st" "objs st i = None" "strings st j = Some ys" "pos \<le> length ys" "length (take n (drop pos ys)) \<le> max_length"
  shows "yields env (fb_substr env i j pos n st) (post env i st (take n (drop pos ys)))"
proof -
  obtain p where p: "c_str st j = Inr p" using c_str_ex [OF assms(2,4)] by blast
  let ?m = "min n (length ys - pos)"
  have "read_mem st (ptr_add p pos) ?m = Inr (take n (drop pos ys))"
    using read_string [OF assms(2,4) p, of pos ?m] assms(5) by (simp add: take_min_rest del: take_take)
  moreover have "?m + 9 \<le> max_length + 9" using assms(6) by (simp add: min.commute)
  then have "?m + 9 \<le> 2 ^ 61" by (rule order_trans) (simp add: max_length_def)
  ultimately show ?thesis
    using core_from_yields [OF assms(1-3)] p assms(5)
    by (simp add: fb_substr_def str_size_eq [OF assms(2,4)] enforce_range_def)
qed

lemma capacity_ex: "fb_ok env st \<Longrightarrow> strings st i = Some xs \<Longrightarrow> \<exists>m. capacity st i = Inr m"
proof -
  assume a: "fb_ok env st" "strings st i = Some xs"
  obtain c where c: "objs st i = Some c" using core_of_strings [OF a(2)] by blast
  from a(1) c show ?thesis
    by (cases rule: core_cases) (use c in \<open>auto simp: capacity_def refs_def core_simps\<close>)
qed

lemma fb_shrink_to_fit_yields:
  assumes "env_ok env" "fb_ok env st" "strings st i = Some xs" "objs st Str_Temp = None" "length xs \<le> max_length"
  shows "yields env (fb_shrink_to_fit env i st) (post env i st xs)"
proof -
  have t: "i \<noteq> Str_Temp" using not_temp [OF assms(3,4)] by blast
  obtain p m where p: "c_str st i = Inr p" and m: "capacity st i = Inr m"
    using c_str_ex [OF assms(2,3)] capacity_ex [OF assms(2,3)] by blast
  have rd: "read_mem st p (length xs) = Inr xs"
    using read_string [OF assms(2,3) p, of 0 "length xs"] c_str_offset [OF p] by simp
  have "length xs + 9 \<le> 2 ^ 61" using assms(5) by (simp add: max_length_def)
  then have "yields env (andthen (core_from env Str_Temp p (length xs) st) (\<lambda>st1. andthen (core_swap Str_Temp i st1) (core_destroy Str_Temp))) (post env i st xs)"
    unfolding yields_andthen [of env "core_from env Str_Temp p (length xs) st"]
    by (intro yields_mono [OF core_from_yields [OF assms(1,2,4) rd]] replaced_by_temp [OF assms(2,4) t assms(3)])
  then show ?thesis
    using p m post_refl [OF assms(2,3)] by (simp add: fb_shrink_to_fit_def str_size_eq [OF assms(2,3)] del: yields_andthen)
qed

lemma fb_move_assign_post:
  assumes "fb_ok env st" "strings st i = Some xs" "strings st j = Some ys"
  shows "\<exists>st'. fb_move_assign env i j st = Inr st' \<and> fb_ok env st' \<and> frame {i, j} st st' \<and>
    strings st' = (if i = j then strings st else (strings st)(i \<mapsto> ys, j \<mapsto> []))"
proof (cases "i = j")
  case False
  obtain c d where c: "objs st i = Some c" and d: "objs st j = Some d" using core_of_strings assms(2,3) by blast
  obtain st1 where s: "core_destroy i st = Inr st1" "fb_ok env st1" "frame {i} st st1" "objs st1 i = None"
    using core_destroy_post [OF assms(1) c] by blast
  have d1: "objs st1 j = Some d" using s(3) d False by (simp add: frame_def)
  obtain st2 where t: "core_move env i j st1 = Inr st2" "fb_ok env st2" "frame {i, j} st1 st2"
    "strings st2 = (strings st1)(i := strings st1 j, j \<mapsto> [])"
    using core_move_post [OF s(2,4) d1] by blast
  have "strings st1 k = strings st k" if "k \<noteq> i" for k using frame_strings [OF s(3)] that by simp
  then have "strings st2 = (strings st)(i \<mapsto> ys, j \<mapsto> [])" using t(4) assms(3) False by (auto simp: fun_eq_iff)
  moreover have "frame {i, j} st st2" using s(3) t(3) by (rule frame_trans) simp
  ultimately show ?thesis using s(1) t(1,2) False by (simp add: fb_move_assign_def)
qed (use assms in \<open>simp add: fb_move_assign_def\<close>)

section \<open>Replacing a part of a string\<close>

text \<open>\<open>copy_n\<close> copies one character after the other.\<close>

primrec copy_n :: "mem \<Rightarrow> ptr \<Rightarrow> nat \<Rightarrow> ptr \<Rightarrow> mem result" where
  "copy_n st b 0 d = Inr st"
| "copy_n st b (Suc n) d = andthen (podMove st b 1 d) (\<lambda>st'. copy_n st' (ptr_add b 1) n (ptr_add d 1))"

text \<open>\<open>append(first, last)\<close> inserts at \<open>end()\<close>, which has made the string unique.\<close>

definition append_range :: "fb_env \<Rightarrow> oid \<Rightarrow> ptr \<Rightarrow> nat \<Rightarrow> mem \<Rightarrow> mem result" where
  "append_range env i s n st = andthen (mutableData env i st) (\<lambda>(_, st1).
     andthen (str_size st1 i) (\<lambda>sz. insertImpl env i sz s n st1))"

text \<open>The source begins in the string or at its end: the result is put together in a new string.\<close>

definition replaceAliased :: "fb_env \<Rightarrow> oid \<Rightarrow> ptr \<Rightarrow> nat \<Rightarrow> nat \<Rightarrow> ptr \<Rightarrow> nat \<Rightarrow> mem \<Rightarrow> mem result" where
  "replaceAliased env i b pos n1 s n2 st = andthen (str_size st i) (\<lambda>sz.
     andthen (core_default env Str_Temp st) (\<lambda>st1.
     andthen (reserve env Str_Temp (sz - n1 + n2) st1) (\<lambda>st2.
     andthen (append_range env Str_Temp b pos st2) (\<lambda>st3.
     andthen (append_range env Str_Temp s n2 st3) (\<lambda>st4.
     andthen (append_range env Str_Temp (ptr_add b (pos + n1)) (sz - (pos + n1)) st4) (\<lambda>st5.
     andthen (core_swap i Str_Temp st5) (core_destroy Str_Temp)))))))"

definition replaceImpl :: "fb_env \<Rightarrow> oid \<Rightarrow> ptr \<Rightarrow> nat \<Rightarrow> nat \<Rightarrow> ptr \<Rightarrow> nat \<Rightarrow> mem \<Rightarrow> mem result" where
  "replaceImpl env i b pos n1 s n2 st = andthen (str_size st i) (\<lambda>sz.
     if same_base b s \<and> offset b \<le> offset s \<and> offset s \<le> offset b + sz
     then replaceAliased env i b pos n1 s n2 st
     else if n1 > n2
     then andthen (std_copy st s n2 (ptr_add b pos)) (fb_erase env i (pos + n2) (n1 - n2))
     else andthen (copy_n st s n1 (ptr_add b pos)) (insertImpl env i (pos + n1) (ptr_add s n1) (n2 - n1)))"

definition fb_replace :: "fb_env \<Rightarrow> oid \<Rightarrow> nat \<Rightarrow> nat \<Rightarrow> ptr \<Rightarrow> nat \<Rightarrow> mem \<Rightarrow> mem result" where
  "fb_replace env i pos n1 s n2 st = andthen (str_size st i) (\<lambda>len. enforce_range (pos \<le> len)
     (andthen (mutableData env i st) (\<lambda>(b, st1).
       replaceImpl env i b pos (procrustes n1 (len - pos)) s n2 st1)))"

definition replaceImplDiscr_fill :: "fb_env \<Rightarrow> oid \<Rightarrow> ptr \<Rightarrow> nat \<Rightarrow> nat \<Rightarrow> nat \<Rightarrow> u8 \<Rightarrow> mem \<Rightarrow> mem result" where
  "replaceImplDiscr_fill env i b pos n1 n2 c st =
     (if n1 > n2
      then andthen (podFill st (ptr_add b pos) n2 c) (fb_erase env i (pos + n2) (n1 - n2))
      else andthen (podFill st (ptr_add b pos) n1 c) (insertImplDiscr_fill env i (pos + n1) (n2 - n1) c))"

definition fb_replace_fill :: "fb_env \<Rightarrow> oid \<Rightarrow> nat \<Rightarrow> nat \<Rightarrow> nat \<Rightarrow> u8 \<Rightarrow> mem \<Rightarrow> mem result" where
  "fb_replace_fill env i pos n1 n2 c st = andthen (str_size st i) (\<lambda>len. enforce_range (pos \<le> len)
     (andthen (mutableData env i st) (\<lambda>(b, st1).
       replaceImplDiscr_fill env i b pos (procrustes n1 (len - pos)) n2 c st1)))"

fun shift :: "src \<Rightarrow> nat \<Rightarrow> src" where
  "shift (Chars_Of j k) m = Chars_Of j (k + m)"
| "shift (Caller ys k) m = Caller ys (k + m)"

lemma shift_source:
  assumes "src_chars f s n = Some cs" "m \<le> n"
  shows "src_chars f (shift s m) (n - m) = Some (drop m cs)" "src_chars f s m = Some (take m cs)"
  using assms by (cases s; auto split: option.splits if_splits simp: drop_take add.commute)+

lemma shift_ptr: "ptr_of st s = Inr p \<Longrightarrow> ptr_of st (shift s m) = Inr (ptr_add p m)"
  by (cases s) (auto simp: andthen_eq_Inr_iff)

lemma shift_foreign [simp]: "foreign i (shift s m) = foreign i s"
  by (cases s) simp_all

lemma overwrite_Cons:
  "Suc (k + length cs) \<le> length xs \<Longrightarrow> overwrite (overwrite xs k [c]) (Suc k) cs = overwrite xs k (c # cs)"
  by (simp add: overwrite_def add.commute)

lemma copy_n_post:
  assumes "fb_ok env st" "strings st i = Some xs" "buffer st i b" "k + n \<le> length xs"
    "foreign i s" "src_chars (strings st) s n = Some cs" "ptr_of st s = Inr p"
  shows "\<exists>st'. copy_n st p n (ptr_add b k) = Inr st' \<and> post env i st (overwrite xs k cs) st' \<and> buffer st' i b"
  using assms
proof (induction n arbitrary: st s p cs k xs)
  case 0
  then show ?case using src_chars_length [OF "0.prems"(6)] post_refl by simp
next
  case (Suc n)
  obtain c cs' where cs: "cs = c # cs'" "length cs' = n"
    using src_chars_length [OF Suc.prems(6)] by (cases cs) auto
  have "src_chars (strings st) s 1 = Some [c]"
    using shift_source(2) [OF Suc.prems(6), of 1] cs by simp
  from foreign_source(1) [OF Suc.prems(1,1) frame_refl Suc.prems(5) this Suc.prems(7)]
  have rd: "podMove st p 1 (ptr_add b k) = write_mem st (ptr_add b k) [c]" by (rule not_same_base_copy(3))
  obtain st1 where w: "write_mem st (ptr_add b k) [c] = Inr st1" "post env i st (overwrite xs k [c]) st1" "buffer st1 i b"
    using buffer_write [OF Suc.prems(1,3,2), of k "[c]"] Suc.prems(4) by auto
  note kept = foreign_kept [OF postD(2) [OF w(2)] Suc.prems(5)] foreign_kept [OF postD(2) [OF w(2)], of "shift s 1"]
  have "src_chars (strings st1) (shift s 1) n = Some cs'" "ptr_of st1 (shift s 1) = Inr (ptr_add p 1)"
    using shift_source(1) [OF Suc.prems(6), of 1] shift_ptr [OF Suc.prems(7), of 1] kept Suc.prems(5) cs by simp_all
  then obtain st' where "copy_n st1 (ptr_add p 1) n (ptr_add b (k + 1)) = Inr st'"
    "post env i st1 (overwrite (overwrite xs k [c]) (k + 1) cs') st'" "buffer st' i b"
    using Suc.IH [OF postD(1) [OF w(2)] postD(3) [OF w(2)] w(3), of "k + 1" "shift s 1" cs' "ptr_add p 1"] Suc.prems(4,5) by auto
  then show ?case
    using rd w(1,2) cs Suc.prems(4) overwrite_Cons [of k cs' xs c] post_trans [OF w(2)] by auto
qed

lemma append_range_yields:
  assumes "env_ok env" "fb_ok env st" "strings st i = Some xs" "objs st Core_Temp = None" "length xs + n \<le> max_length"
    "foreign i s" "src_chars (strings st) s n = Some cs" "ptr_of st s = Inr p"
  shows "yields env (append_range env i p n st) (post env i st (xs @ cs))"
proof -
  have t: "Core_Temp \<noteq> i" by (rule not_temp [OF assms(3,4)])
  have "yields env (andthen (str_size st1 i) (\<lambda>sz. insertImpl env i sz p n st1)) (post env i st (xs @ cs))"
    if a: "post env i st xs st1" for st1
    using insertImpl_yields [OF assms(1) postD(1) [OF a] postD(3) [OF a] _ assms(5) _ assms(6), of "length xs" cs p]
      postD(4) [OF a t] assms(4,7,8) foreign_kept [OF postD(2) [OF a] assms(6)] str_size_eq [OF postD(1) [OF a] postD(3) [OF a]]
    by (intro post_chain [OF a]) simp
  then show ?thesis
    unfolding append_range_def yields_andthen [of env "mutableData env i st"]
    by (intro yields_mono [OF mutableData_yields [OF assms(1-3)]]) (auto simp del: yields_andthen)
qed

lemma replaceAliased_yields:
  assumes "env_ok env" "fb_ok env st" "strings st i = Some xs" "objs st Core_Temp = None" "objs st Str_Temp = None"
    "c_str st i = Inr b" "pos + n1 \<le> length xs" "k + n2 \<le> length xs" "length xs - n1 + n2 \<le> max_length"
  shows "yields env (replaceAliased env i b pos n1 (ptr_add b k) n2 st)
    (post env i st (take pos xs @ take n2 (drop k xs) @ drop (pos + n1) xs))"
proof -
  have t: "Core_Temp \<noteq> Str_Temp" "i \<noteq> Str_Temp" using not_temp [OF assms(3,5)] by auto
  have step: "yields env (append_range env Str_Temp (ptr_add b m) n st') (post env Str_Temp st (zs @ take n (drop m xs)))"
    if a: "post env Str_Temp st zs st'" "length zs + n \<le> max_length" "m + n \<le> length xs" for zs st' m n
  proof -
    have f: "foreign Str_Temp (Chars_Of i m)" using t(2) by simp
    have o: "objs st' Core_Temp = None" using postD(4) [OF a(1) t(1)] assms(4) by simp
    show ?thesis
      using append_range_yields [OF assms(1) postD(1) [OF a(1)] postD(3) [OF a(1)] o a(2) f, of "take n (drop m xs)" "ptr_add b m"]
        foreign_kept [OF postD(2) [OF a(1)] f] string_source(1) [of st i xs m n] string_source(2) [of st i b m] assms(3,6) a(3)
      by (intro post_chain [OF a(1)]) simp
  qed
  have swapped: "yields env (andthen (core_swap i Str_Temp st5) (core_destroy Str_Temp)) (post env i st zs)"
    if a: "post env Str_Temp st zs st5" for zs st5
  proof -
    obtain c where "objs st i = Some c" using core_of_strings [OF assms(3)] by blast
    then have "objs st5 i = Some c" using postD(4) [OF a, of i] t(2) by simp
    moreover obtain d where "objs st5 Str_Temp = Some d" using core_of_strings [OF postD(3) [OF a]] by blast
    ultimately have "core_swap i Str_Temp st5 = core_swap Str_Temp i st5"
      using t(2) by (auto simp: core_swap_eq exchange_def fun_upd_twist)
    then show ?thesis using replaced_by_temp [OF assms(2,5) t(2) assms(3) a] by simp
  qed
  obtain st1 where st1: "core_default env Str_Temp st = Inr st1" "post env Str_Temp st [] st1"
    using core_default_post [OF assms(1,2,5)] by blast
  have o1: "objs st1 Core_Temp = None" using postD(4) [OF st1(2) t(1)] assms(4) by simp
  have r: "length xs - n1 + n2 + 9 \<le> 2 ^ 61" using assms(9) by (simp add: max_length_def)
  have "yields env (andthen (append_range env Str_Temp b pos st2) (\<lambda>st3. andthen (append_range env Str_Temp (ptr_add b k) n2 st3) (\<lambda>st4.
      andthen (append_range env Str_Temp (ptr_add b (pos + n1)) (length xs - (pos + n1)) st4) (\<lambda>st5.
      andthen (core_swap i Str_Temp st5) (core_destroy Str_Temp)))))
      (post env i st (take pos xs @ take n2 (drop k xs) @ drop (pos + n1) xs))" if a: "post env Str_Temp st [] st2" for st2
  proof -
    have l: "length (take pos xs) = pos" "length (take pos xs @ take n2 (drop k xs)) = pos + n2" using assms(7,8) by simp_all
    have s1: "yields env (append_range env Str_Temp b pos st2) (post env Str_Temp st (take pos xs))"
      using step [OF a, of pos 0] assms(7,9) c_str_offset [OF assms(6)] by simp
    have s2: "yields env (append_range env Str_Temp (ptr_add b k) n2 st3) (post env Str_Temp st (take pos xs @ take n2 (drop k xs)))"
      if "post env Str_Temp st (take pos xs) st3" for st3
      using step [OF that, of n2 k] assms(7-9) l(1) by simp
    have s3: "yields env (append_range env Str_Temp (ptr_add b (pos + n1)) (length xs - (pos + n1)) st4)
        (post env Str_Temp st (take pos xs @ take n2 (drop k xs) @ drop (pos + n1) xs))"
      if "post env Str_Temp st (take pos xs @ take n2 (drop k xs)) st4" for st4
      using step [OF that, of "length xs - (pos + n1)" "pos + n1"] assms(7,9) unfolding l by simp
    show ?thesis
      unfolding yields_andthen [of env "append_range _ _ _ _ _"]
      by (rule yields_mono [OF s1], rule yields_mono [OF s2], assumption, rule yields_mono [OF s3], assumption, rule swapped)
  qed
  then have "yields env (reserve env Str_Temp (length xs - n1 + n2) st1) (\<lambda>st2. yields env (andthen (append_range env Str_Temp b pos st2)
      (\<lambda>st3. andthen (append_range env Str_Temp (ptr_add b k) n2 st3) (\<lambda>st4.
      andthen (append_range env Str_Temp (ptr_add b (pos + n1)) (length xs - (pos + n1)) st4) (\<lambda>st5.
      andthen (core_swap i Str_Temp st5) (core_destroy Str_Temp)))))
      (post env i st (take pos xs @ take n2 (drop k xs) @ drop (pos + n1) xs)))"
    by (intro yields_mono [OF reserve_yields(1) [OF assms(1) postD(1) [OF st1(2)] postD(3) [OF st1(2)] r o1]]) (simp add: post_trans [OF st1(2)] del: yields_andthen)
  then show ?thesis
    by (simp add: replaceAliased_def str_size_eq [OF assms(2,3)] st1(1))
qed

lemma overwrite_drop: "pos + length cs \<le> m \<Longrightarrow> pos + length cs \<le> length xs \<Longrightarrow> drop m (overwrite xs pos cs) = drop m xs"
  by (simp add: overwrite_def)

lemma overwrite_take: "pos + length cs \<le> length xs \<Longrightarrow> take (pos + length cs) (overwrite xs pos cs) = take pos xs @ cs"
  by (simp add: overwrite_def)

lemma buffer_base: "buffer st i b \<Longrightarrow> same_base b b"
  by (auto simp: buffer_def)

lemma replaceImpl_yields:
  assumes "env_ok env" "fb_ok env st" "strings st i = Some xs" "objs st Core_Temp = None" "objs st Str_Temp = None"
    "buffer st i b" "pos + n1 \<le> length xs" "length xs - n1 + n2 \<le> max_length"
    "src_chars (strings st) s n2 = Some cs" "ptr_of st s = Inr p"
  shows "yields env (replaceImpl env i b pos n1 p n2 st) (post env i st (take pos xs @ cs @ drop (pos + n1) xs))"
proof -
  note cs = src_chars_length [OF assms(9)]
  note sz = str_size_eq [OF assms(2,3)]
  note b = buffer_c_str [OF assms(6)]
  have t: "Core_Temp \<noteq> i" by (rule not_temp [OF assms(3,4)])
  show ?thesis
  proof (cases "foreign i s")
    case False
    then obtain k where s: "s = Chars_Of i k" by (cases s) auto
    have k: "k + n2 \<le> length xs" "cs = take n2 (drop k xs)"
      using src_chars_strings [of "strings st" i k n2 cs] assms(3,9) s by auto
    have p: "p = ptr_add b k" using assms(10) s b by simp
    then have "same_base b p" "offset b \<le> offset p" "offset p \<le> offset b + length xs"
      using buffer_base [OF assms(6)] k(1) by simp_all
    then show ?thesis
      using replaceAliased_yields [OF assms(1-5) b assms(7) k(1) assms(8)] k(2) p
      by (simp add: replaceImpl_def sz)
  next
    case True
    have nb: "\<not> same_base b p"
      by (rule foreign_source(3) [OF assms(2,2) frame_refl True assms(9,10,6)])
    show ?thesis
    proof (cases "n1 > n2")
      case less: True
      have rd: "std_copy st p n2 (ptr_add b pos) = write_mem st (ptr_add b pos) cs"
        using foreign_source(1,2) [OF assms(2,2) frame_refl True assms(9,10)] assms(6)
        by (intro not_same_base_copy(2)) simp_all
      let ?ys = "overwrite xs pos cs"
      have c: "pos + length cs \<le> length xs" using less cs assms(7) by simp
      obtain st1 where w: "write_mem st (ptr_add b pos) cs = Inr st1" "post env i st ?ys st1"
        using buffer_write [OF assms(2,6,3) c] by blast
      have o: "objs st1 Core_Temp = None" using postD(4) [OF w(2) t] assms(4) by simp
      have "yields env (fb_erase env i (pos + n2) (n1 - n2) st1)
          (post env i st1 (take (pos + n2) ?ys @ drop (pos + n2 + (n1 - n2)) ?ys))"
        using c cs by (intro fb_erase_yields [OF assms(1) postD(1) [OF w(2)] postD(3) [OF w(2)] o]) simp
      moreover have "take (pos + n2) ?ys @ drop (pos + n2 + (n1 - n2)) ?ys = take pos xs @ cs @ drop (pos + n1) xs"
        using overwrite_take [OF c] overwrite_drop [OF _ c, of "pos + n1"] cs less by simp
      ultimately have "yields env (fb_erase env i (pos + n2) (n1 - n2) st1) (post env i st (take pos xs @ cs @ drop (pos + n1) xs))"
        by (intro post_chain [OF w(2)]) simp
      then show ?thesis using nb sz less rd w(1) by (simp add: replaceImpl_def)
    next
      case False
      then have n: "n1 \<le> n2" by simp
      let ?ys = "overwrite xs pos (take n1 cs)"
      have c: "pos + length (take n1 cs) \<le> length xs" using n cs assms(7) by simp
      obtain st1 where w: "copy_n st p n1 (ptr_add b pos) = Inr st1" "post env i st ?ys st1"
        using copy_n_post [OF assms(2,3,6,7) True shift_source(2) [OF assms(9) n] assms(10)] by blast
      have o: "objs st1 Core_Temp = None" using postD(4) [OF w(2) t] assms(4) by simp
      have l: "length ?ys = length xs" using c by simp
      have f: "foreign i (shift s n1)" using True by simp
      have "yields env (insertImpl env i (pos + n1) (ptr_add p n1) (n2 - n1) st1)
          (post env i st1 (take (pos + n1) ?ys @ drop n1 cs @ drop (pos + n1) ?ys))"
        using foreign_kept [OF postD(2) [OF w(2)] f] shift_source(1) [OF assms(9) n] shift_ptr [OF assms(10)] l assms(7,8) n
        by (intro insertImpl_yields [OF assms(1) postD(1) [OF w(2)] postD(3) [OF w(2)] o _ _ f]) simp_all
      moreover have "take (pos + n1) ?ys @ drop n1 cs @ drop (pos + n1) ?ys = take pos xs @ cs @ drop (pos + n1) xs"
        using overwrite_take [OF c] overwrite_drop [OF _ c, of "pos + n1"] cs n by simp
      ultimately have "yields env (insertImpl env i (pos + n1) (ptr_add p n1) (n2 - n1) st1) (post env i st (take pos xs @ cs @ drop (pos + n1) xs))"
        by (intro post_chain [OF w(2)]) simp
      then show ?thesis using nb sz False w(1) by (simp add: replaceImpl_def)
    qed
  qed
qed

text \<open>A source is still one after the string has been made unique, perhaps under another name.\<close>

lemma mutable_renamed:
  assumes "env_ok env" "fb_ok env st" "strings st i = Some xs" "src_chars (strings st) s n = Some cs" "ptr_of st s = Inr p"
  shows "yields env (mutableData env i st) (\<lambda>(d, st'). post env i st xs st' \<and> buffer st' i d \<and>
    (\<exists>s'. src_chars (strings st') s' n = Some cs \<and> ptr_of st' s' = Inr p))"
proof -
  have F: "yields env (mutableData env i st) (\<lambda>(d, st'). post env i st xs st' \<and> buffer st' i d \<and>
      (\<exists>s'. src_chars (strings st') s' n = Some cs \<and> ptr_of st' s' = Inr p))"
    if f: "foreign i t" "src_chars (strings st) t n = Some cs" "ptr_of st t = Inr p" for t
  proof (rule yields_mono [OF mutableData_yields [OF assms(1-3)]], clarify, intro conjI exI [of _ t])
    fix d st' assume a: "post env i st xs st'"
    show "src_chars (strings st') t n = Some cs" "ptr_of st' t = Inr p"
      using foreign_kept [OF postD(2) [OF a] f(1)] f(2,3) by simp_all
  qed
  show ?thesis
  proof (cases "foreign i s")
    case False
    then obtain k where s: "s = Chars_Of i k" by (cases s) auto
    from assms(2,3) show ?thesis
    proof (cases rule: mutable_cases)
      case (own q)
      then show ?thesis using post_refl [OF assms(2,3)] assms(4,5) by auto
    next
      case (shared j c)
      then have "strings st j = strings st i" "c_str st j = c_str st i"
        by (simp_all add: strings_def c_str_def get_core_def)
      then show ?thesis using F [of "Chars_Of j k"] shared(1) s assms(4,5) by simp
    qed
  qed (use F assms(4,5) in blast)
qed

lemma fb_replace_yields:
  assumes "env_ok env" "fb_ok env st" "strings st i = Some xs" "objs st Core_Temp = None" "objs st Str_Temp = None"
    "pos \<le> length xs" "length (take pos xs @ cs @ drop (pos + n1) xs) \<le> max_length"
    "src_chars (strings st) s n2 = Some cs" "ptr_of st s = Inr p"
  shows "yields env (fb_replace env i pos n1 p n2 st) (post env i st (take pos xs @ cs @ drop (pos + n1) xs))"
proof -
  define m where "m = procrustes n1 (length xs - pos)"
  have m: "pos + m \<le> length xs" "drop (pos + m) xs = drop (pos + n1) xs"
    using assms(6) by (auto simp: m_def procrustes_def)
  have l: "length xs - m + n2 \<le> max_length"
    using assms(6,7) m src_chars_length [OF assms(8)] unfolding m(2) [symmetric] by simp
  have t: "Core_Temp \<noteq> i" "Str_Temp \<noteq> i" using not_temp [OF assms(3)] assms(4,5) by blast+
  have "yields env (replaceImpl env i b pos m p n2 st1) (post env i st (take pos xs @ cs @ drop (pos + n1) xs))"
    if a: "post env i st xs st1" "buffer st1 i b" "src_chars (strings st1) s' n2 = Some cs" "ptr_of st1 s' = Inr p" for b st1 s'
    using replaceImpl_yields [OF assms(1) postD(1) [OF a(1)] postD(3) [OF a(1)] _ _ a(2) m(1) l a(3,4)]
      postD(4) [OF a(1)] t assms(4,5) unfolding m(2) by (intro post_chain [OF a(1)]) simp
  then have "yields env (mutableData env i st) (\<lambda>x. yields env (case x of (b, st1) \<Rightarrow> replaceImpl env i b pos m p n2 st1)
      (post env i st (take pos xs @ cs @ drop (pos + n1) xs)))"
    by (intro yields_mono [OF mutable_renamed [OF assms(1-3,8,9)]]) auto
  then show ?thesis
    using assms(6) by (simp add: fb_replace_def str_size_eq [OF assms(2,3)] enforce_range_def m_def)
qed

lemma fb_replace_fill_yields:
  assumes "env_ok env" "fb_ok env st" "strings st i = Some xs" "objs st Core_Temp = None"
    "pos \<le> length xs" "length (take pos xs @ replicate n2 c @ drop (pos + n1) xs) \<le> max_length"
  shows "yields env (fb_replace_fill env i pos n1 n2 c st) (post env i st (take pos xs @ replicate n2 c @ drop (pos + n1) xs))"
proof -
  define m where "m = procrustes n1 (length xs - pos)"
  have m: "pos + m \<le> length xs" "drop (pos + m) xs = drop (pos + n1) xs"
    using assms(5) by (auto simp: m_def procrustes_def)
  have l: "length xs - m + n2 \<le> max_length"
    using assms(5,6) m unfolding m(2) [symmetric] by simp
  have t: "Core_Temp \<noteq> i" by (rule not_temp [OF assms(3,4)])
  let ?R = "take pos xs @ replicate n2 c @ drop (pos + n1) xs"
  have fl: "\<exists>st2. podFill st1 (ptr_add b pos) k c = Inr st2 \<and> post env i st (overwrite xs pos (replicate k c)) st2 \<and> objs st2 Core_Temp = None"
    if a: "post env i st xs st1" "buffer st1 i b" "pos + k \<le> length xs" for b st1 k
    using buffer_write [OF postD(1) [OF a(1)] a(2) postD(3) [OF a(1)], of pos "replicate k c"] a(3) post_trans [OF a(1)]
      postD(4) [OF post_trans [OF a(1)] t] assms(4) by (auto simp: podFill_def)
  have "yields env (replaceImplDiscr_fill env i b pos m n2 c st1) (post env i st ?R)"
    if a: "post env i st xs st1" "buffer st1 i b" for b st1
  proof (cases "m > n2")
    case True
    let ?ys = "overwrite xs pos (replicate n2 c)"
    have c: "pos + length (replicate n2 c) \<le> length xs" using True m(1) by simp
    obtain st2 where w: "podFill st1 (ptr_add b pos) n2 c = Inr st2" "post env i st ?ys st2" "objs st2 Core_Temp = None"
      using fl [OF a] c by auto
    have "yields env (fb_erase env i (pos + n2) (m - n2) st2) (post env i st2 (take (pos + n2) ?ys @ drop (pos + n2 + (m - n2)) ?ys))"
      using c by (intro fb_erase_yields [OF assms(1) postD(1) [OF w(2)] postD(3) [OF w(2)] w(3)]) simp
    moreover have "take (pos + n2) ?ys @ drop (pos + n2 + (m - n2)) ?ys = ?R"
      using overwrite_take [OF c] overwrite_drop [OF _ c, of "pos + m"] True m(2) by simp
    ultimately show ?thesis using True w(1) by (simp add: replaceImplDiscr_fill_def post_chain [OF w(2)])
  next
    case False
    let ?ys = "overwrite xs pos (replicate m c)"
    have c: "pos + length (replicate m c) \<le> length xs" using m(1) by simp
    obtain st2 where w: "podFill st1 (ptr_add b pos) m c = Inr st2" "post env i st ?ys st2" "objs st2 Core_Temp = None"
      using fl [OF a] c by auto
    have ln: "length ?ys = length xs" using c by simp
    have "yields env (insertImplDiscr_fill env i (pos + m) (n2 - m) c st2)
        (post env i st2 (take (pos + m) ?ys @ replicate (n2 - m) c @ drop (pos + m) ?ys))"
      using ln m(1) l False by (intro insertImplDiscr_fill_yields [OF assms(1) postD(1) [OF w(2)] postD(3) [OF w(2)] w(3)]) simp_all
    moreover have "replicate m c @ replicate (n2 - m) c = replicate n2 c"
      using False by (simp flip: replicate_add)
    then have "take (pos + m) ?ys @ replicate (n2 - m) c @ drop (pos + m) ?ys = ?R"
      using overwrite_take [OF c] overwrite_drop [OF _ c, of "pos + m"] m(2) by simp
    ultimately show ?thesis using False w(1) by (simp add: replaceImplDiscr_fill_def post_chain [OF w(2)])
  qed
  then have "yields env (mutableData env i st) (\<lambda>x. yields env (case x of (b, st1) \<Rightarrow> replaceImplDiscr_fill env i b pos m n2 c st1) (post env i st ?R))"
    by (intro yields_mono [OF mutableData_yields [OF assms(1-3)]]) auto
  then show ?thesis
    using assms(5) by (simp add: fb_replace_fill_def str_size_eq [OF assms(2,3)] enforce_range_def m_def)
qed

end
