(* ===== verification/Folly_FBString_Spec.thy ===== *)
theory Folly_FBString_Spec
  imports Folly_FBString_Ops
begin

text \<open>
  Programs over strings. A command is a call of one of the operations; \<open>exec\<close> runs it on the memory. The
  specification \<open>spec\<close> knows no memory: strings are lists of characters under names. A call is outside the
  contract (\<open>None\<close>) when a string is not alive, a source does not have the characters, the result would be
  longer than \<open>max_length\<close>, or a string is inserted into itself.
\<close>

datatype cmd =
    New u32
  | New_From u32 src nat
  | New_Fill u32 nat u8
  | New_Copy u32 u32
  | New_Move u32 u32
  | New_Substr u32 u32 nat nat
  | Delete u32
  | Assign u32 src nat
  | Assign_Str u32 u32
  | Move_Assign u32 u32
  | Assign_Char u32 u8
  | Append u32 src nat
  | Append_Fill u32 nat u8
  | Append_Str u32 u32
  | Append_Sub u32 u32 nat nat
  | Push_Back u32 u8
  | Pop_Back u32
  | Resize u32 nat u8
  | Clear u32
  | Erase u32 nat nat
  | Insert u32 nat src nat
  | Insert_Fill u32 nat nat u8
  | Replace u32 nat nat src nat
  | Replace_Fill u32 nat nat nat u8
  | Set_Char u32 nat u8
  | Swap u32 u32
  | Reserve u32 nat
  | Shrink_To_Fit u32

section \<open>Running a program on the memory\<close>

fun exec :: "fb_env \<Rightarrow> cmd \<Rightarrow> mem \<Rightarrow> mem result" where
  "exec env (New i) st = core_default env (Str i) st"
| "exec env (New_From i s n) st = andthen (ptr_of st s) (\<lambda>p. core_from env (Str i) p n st)"
| "exec env (New_Fill i n c) st = fb_construct_fill env (Str i) n c st"
| "exec env (New_Copy i j) st = core_copy env (Str i) (Str j) st"
| "exec env (New_Move i j) st = core_move env (Str i) (Str j) st"
| "exec env (New_Substr i j pos n) st = fb_substr env (Str i) (Str j) pos n st"
| "exec env (Delete i) st = core_destroy (Str i) st"
| "exec env (Assign i s n) st = andthen (ptr_of st s) (\<lambda>p. fb_assign env (Str i) p n st)"
| "exec env (Assign_Str i j) st = fb_assign_str env (Str i) (Str j) st"
| "exec env (Move_Assign i j) st = fb_move_assign env (Str i) (Str j) st"
| "exec env (Assign_Char i c) st = fb_assign_char env (Str i) c st"
| "exec env (Append i s n) st = andthen (ptr_of st s) (\<lambda>p. fb_append env (Str i) p n st)"
| "exec env (Append_Fill i n c) st = fb_append_fill env (Str i) n c st"
| "exec env (Append_Str i j) st = fb_append_str env (Str i) (Str j) st"
| "exec env (Append_Sub i j pos n) st = fb_append_sub env (Str i) (Str j) pos n st"
| "exec env (Push_Back i c) st = core_push_back env (Str i) c st"
| "exec env (Pop_Back i) st = fb_pop_back env (Str i) st"
| "exec env (Resize i n c) st = fb_resize env (Str i) n c st"
| "exec env (Clear i) st = fb_clear env (Str i) st"
| "exec env (Erase i pos n) st = fb_erase env (Str i) pos n st"
| "exec env (Insert i pos s n) st = andthen (ptr_of st s) (\<lambda>p. fb_insert env (Str i) pos p n st)"
| "exec env (Insert_Fill i pos n c) st = fb_insert_fill env (Str i) pos n c st"
| "exec env (Replace i pos n1 s n2) st = andthen (ptr_of st s) (\<lambda>p. fb_replace env (Str i) pos n1 p n2 st)"
| "exec env (Replace_Fill i pos n1 n2 c) st = fb_replace_fill env (Str i) pos n1 n2 c st"
| "exec env (Set_Char i pos c) st = fb_write_at env (Str i) pos c st"
| "exec env (Swap i j) st = core_swap (Str i) (Str j) st"
| "exec env (Reserve i n) st = reserve env (Str i) n st"
| "exec env (Shrink_To_Fit i) st = fb_shrink_to_fit env (Str i) st"

fun fb_run :: "fb_env \<Rightarrow> cmd list \<Rightarrow> mem \<Rightarrow> mem result" where
  "fb_run env [] st = Inr st"
| "fb_run env (c # cs) st = andthen (exec env c st) (fb_run env cs)"

definition empty_mem :: mem where
  "empty_mem = \<lparr>objs = (\<lambda>_. None), heap = (\<lambda>_. None)\<rparr>"

section \<open>The specification\<close>

type_synonym strs = "oid \<Rightarrow> u8 list option"

definition fit :: "strs \<Rightarrow> u32 \<Rightarrow> u8 list \<Rightarrow> strs result option" where
  "fit m i ys = (if length ys \<le> max_length then Some (Inr (m(Str i \<mapsto> ys))) else None)"

definition fresh :: "strs \<Rightarrow> u32 \<Rightarrow> 'a option \<Rightarrow> 'a option" where
  "fresh m i r = (if m (Str i) = None then r else None)"

definition ranged :: "bool \<Rightarrow> 'a result option \<Rightarrow> 'a result option" where
  "ranged b r = (if b then r else Some (Inl Out_Of_Range))"

fun spec :: "cmd \<Rightarrow> strs \<Rightarrow> strs result option" where
  "spec (New i) m = fresh m i (fit m i [])"
| "spec (New_From i s n) m = Option.bind (src_chars m s n) (\<lambda>cs. fresh m i (fit m i cs))"
| "spec (New_Fill i n c) m = fresh m i (fit m i (replicate n c))"
| "spec (New_Copy i j) m = Option.bind (m (Str j)) (\<lambda>ys. fresh m i (fit m i ys))"
| "spec (New_Move i j) m = Option.bind (m (Str j)) (\<lambda>ys. fresh m i (Some (Inr (m(Str i \<mapsto> ys, Str j \<mapsto> [])))))"
| "spec (New_Substr i j pos n) m = Option.bind (m (Str j)) (\<lambda>ys. fresh m i (ranged (pos \<le> length ys) (fit m i (take n (drop pos ys)))))"
| "spec (Delete i) m = Option.bind (m (Str i)) (\<lambda>_. Some (Inr (m(Str i := None))))"
| "spec (Assign i s n) m = Option.bind (m (Str i)) (\<lambda>_. Option.bind (src_chars m s n) (fit m i))"
| "spec (Assign_Str i j) m = Option.bind (m (Str i)) (\<lambda>_. Option.bind (m (Str j)) (fit m i))"
| "spec (Move_Assign i j) m = Option.bind (m (Str i)) (\<lambda>_. Option.bind (m (Str j)) (\<lambda>ys.
     Some (Inr (if i = j then m else m(Str i \<mapsto> ys, Str j \<mapsto> [])))))"
| "spec (Assign_Char i c) m = Option.bind (m (Str i)) (\<lambda>_. fit m i [c])"
| "spec (Append i s n) m = Option.bind (m (Str i)) (\<lambda>xs. Option.bind (src_chars m s n) (\<lambda>cs. fit m i (xs @ cs)))"
| "spec (Append_Fill i n c) m = Option.bind (m (Str i)) (\<lambda>xs. fit m i (xs @ replicate n c))"
| "spec (Append_Str i j) m = Option.bind (m (Str i)) (\<lambda>xs. Option.bind (m (Str j)) (\<lambda>ys. fit m i (xs @ ys)))"
| "spec (Append_Sub i j pos n) m = Option.bind (m (Str i)) (\<lambda>xs. Option.bind (m (Str j)) (\<lambda>ys.
     ranged (pos \<le> length ys) (fit m i (xs @ take n (drop pos ys)))))"
| "spec (Push_Back i c) m = Option.bind (m (Str i)) (\<lambda>xs. fit m i (xs @ [c]))"
| "spec (Pop_Back i) m = Option.bind (m (Str i)) (\<lambda>xs. if xs = [] then None else Some (Inr (m(Str i \<mapsto> butlast xs))))"
| "spec (Resize i n c) m = Option.bind (m (Str i)) (\<lambda>xs. fit m i (take n xs @ replicate (n - length xs) c))"
| "spec (Clear i) m = Option.bind (m (Str i)) (\<lambda>_. fit m i [])"
| "spec (Erase i pos n) m = Option.bind (m (Str i)) (\<lambda>xs. ranged (pos \<le> length xs) (Some (Inr (m(Str i \<mapsto> take pos xs @ drop (pos + n) xs)))))"
| "spec (Insert i pos s n) m = Option.bind (m (Str i)) (\<lambda>xs. Option.bind (src_chars m s n) (\<lambda>cs.
     if foreign (Str i) s then ranged (pos \<le> length xs) (fit m i (take pos xs @ cs @ drop pos xs)) else None))"
| "spec (Insert_Fill i pos n c) m = Option.bind (m (Str i)) (\<lambda>xs. ranged (pos \<le> length xs) (fit m i (take pos xs @ replicate n c @ drop pos xs)))"
| "spec (Replace i pos n1 s n2) m = Option.bind (m (Str i)) (\<lambda>xs. Option.bind (src_chars m s n2) (\<lambda>cs.
     ranged (pos \<le> length xs) (fit m i (take pos xs @ cs @ drop (pos + n1) xs))))"
| "spec (Replace_Fill i pos n1 n2 c) m = Option.bind (m (Str i)) (\<lambda>xs.
     ranged (pos \<le> length xs) (fit m i (take pos xs @ replicate n2 c @ drop (pos + n1) xs)))"
| "spec (Set_Char i pos c) m = Option.bind (m (Str i)) (\<lambda>xs. if pos < length xs then Some (Inr (m(Str i \<mapsto> xs[pos := c]))) else None)"
| "spec (Swap i j) m = Option.bind (m (Str i)) (\<lambda>xs. Option.bind (m (Str j)) (\<lambda>ys. Some (Inr (m(Str i \<mapsto> ys, Str j \<mapsto> xs)))))"
| "spec (Reserve i n) m = Option.bind (m (Str i)) (\<lambda>xs. if n \<le> max_length then Some (Inr (m(Str i \<mapsto> xs))) else None)"
| "spec (Shrink_To_Fit i) m = Option.bind (m (Str i)) (fit m i)"

fun fb_spec_run :: "cmd list \<Rightarrow> strs \<Rightarrow> strs result option" where
  "fb_spec_run [] m = Some (Inr m)"
| "fb_spec_run (c # cs) m = (case spec c m of None \<Rightarrow> None | Some (Inl e) \<Rightarrow> Some (Inl e) | Some (Inr m') \<Rightarrow> fb_spec_run cs m')"

section \<open>Refinement\<close>

definition fb_wf :: "fb_env \<Rightarrow> mem \<Rightarrow> bool" where
  "fb_wf env st \<longleftrightarrow> fb_ok env st \<and> objs st Core_Temp = None \<and> objs st Str_Temp = None"

text \<open>The result is the specified one, or \<open>malloc\<close> failed.\<close>

definition agrees :: "fb_env \<Rightarrow> strs result \<Rightarrow> mem result \<Rightarrow> bool" where
  "agrees env x r \<longleftrightarrow> (case r of Inr st' \<Rightarrow> fb_wf env st' \<and> x = Inr (strings st')
     | Inl e \<Rightarrow> x = Inl e \<or> e = Bad_Alloc \<and> exhausted env)"

lemma agrees_post:
  assumes "fb_wf env st" "yields env r (post env (Str i) st ys)"
  shows "agrees env (Inr ((strings st)(Str i \<mapsto> ys))) r"
proof (cases r)
  case (Inl e)
  then show ?thesis using assms(2) by (simp add: agrees_def yields_def)
next
  case (Inr st')
  then have p: "post env (Str i) st ys st'" using assms(2) by simp
  then have "strings st' = (strings st)(Str i \<mapsto> ys)" by (auto simp: post_def intro: frame_strings_upd)
  then show ?thesis using assms(1) Inr postD(1,4) [OF p] by (simp add: agrees_def fb_wf_def)
qed

lemma agrees_fit:
  "fb_wf env st \<Longrightarrow> fit (strings st) i ys = Some x \<Longrightarrow> (length ys \<le> max_length \<Longrightarrow> yields env r (post env (Str i) st ys)) \<Longrightarrow> agrees env x r"
  by (auto simp: fit_def agrees_post split: if_splits)

lemma agrees_frame:
  assumes "fb_wf env st" "r = Inr st'" "fb_ok env st'" "frame {Str i, Str j} st st'" "strings st' = m"
  shows "agrees env (Inr m) r"
  using assms by (simp add: agrees_def fb_wf_def frame_def)

lemma strings_None: "strings st i = None \<longleftrightarrow> objs st i = None"
  by (simp add: strings_def)

lemma source_ptr:
  assumes "fb_ok env st" "src_chars (strings st) s n = Some cs"
  shows "\<exists>p. ptr_of st s = Inr p"
proof (cases s)
  case (Chars_Of j k)
  then obtain ys where "strings st j = Some ys" using src_chars_strings assms(2) by blast
  then show ?thesis using c_str_ex [OF assms(1)] Chars_Of by fastforce
qed simp

lemma fresh_eq_Some [simp]: "fresh m i r = Some x \<longleftrightarrow> m (Str i) = None \<and> r = Some x"
  by (simp add: fresh_def)

lemma ranged_eq_Some: "ranged b r = Some x \<longleftrightarrow> (b \<and> r = Some x) \<or> (\<not> b \<and> x = Inl Out_Of_Range)"
  by (auto simp: ranged_def)

lemma butlast_take_rest: "xs \<noteq> [] \<Longrightarrow> butlast xs = take (length xs - 1) xs"
  by (simp add: butlast_conv_take)

lemma agrees_ranged:
  "fb_wf env st \<Longrightarrow> ranged b (fit (strings st) i ys) = Some x \<Longrightarrow> (\<not> b \<Longrightarrow> r = Inl Out_Of_Range) \<Longrightarrow>
    (b \<Longrightarrow> length ys \<le> max_length \<Longrightarrow> yields env r (post env (Str i) st ys)) \<Longrightarrow> agrees env x r"
  by (cases b) (auto simp: ranged_def agrees_def intro: agrees_fit [unfolded agrees_def])

text \<open>A position beyond the end is reported before anything changes.\<close>

lemma range_errors:
  assumes "fb_ok env st" "strings st i = Some xs" "\<not> pos \<le> length xs"
  shows "fb_erase env i pos n st = Inl Out_Of_Range" "fb_insert env i pos p n st = Inl Out_Of_Range"
    "fb_insert_fill env i pos n c st = Inl Out_Of_Range" "fb_replace env i pos n1 p n st = Inl Out_Of_Range"
    "fb_replace_fill env i pos n1 n c st = Inl Out_Of_Range" "fb_append_sub env j i pos n st = Inl Out_Of_Range"
    "fb_substr env j i pos n st = Inl Out_Of_Range"
  using assms(3)
  by (simp_all add: fb_erase_def fb_insert_def fb_insert_fill_def fb_replace_def fb_replace_fill_def fb_append_sub_def
      fb_substr_def str_size_eq [OF assms(1,2)] enforce_range_def)

lemma agrees_error [simp]: "agrees env (Inl e) (Inl e)"
  by (simp add: agrees_def)

lemma wfD: "fb_wf env st \<Longrightarrow> fb_ok env st" "fb_wf env st \<Longrightarrow> objs st Core_Temp = None" "fb_wf env st \<Longrightarrow> objs st Str_Temp = None"
  by (simp_all add: fb_wf_def)

lemma long_enough: "n + 9 \<le> 2 ^ 61" if "n \<le> max_length" for n
  using that by (simp add: max_length_def)

text \<open>Construction and destruction.\<close>

lemma exec_construct:
  assumes "env_ok env" "fb_wf env st" "spec c (strings st) = Some x"
  shows "c = New i \<Longrightarrow> agrees env x (exec env c st)"
    "c = New_From i s n \<Longrightarrow> agrees env x (exec env c st)"
    "c = New_Fill i n ch \<Longrightarrow> agrees env x (exec env c st)"
    "c = New_Copy i j \<Longrightarrow> agrees env x (exec env c st)"
    "c = New_Move i j \<Longrightarrow> agrees env x (exec env c st)"
    "c = New_Substr i j pos n \<Longrightarrow> agrees env x (exec env c st)"
    "c = Delete i \<Longrightarrow> agrees env x (exec env c st)"
proof -
  note w = wfD [OF assms(2)] and fit = agrees_fit [OF assms(2)]
  show "c = New i \<Longrightarrow> agrees env x (exec env c st)"
    using assms(3) core_default_post [OF assms(1) w(1), of "Str i"]
    by (auto simp: strings_None intro!: fit)
  show "c = New_From i s n \<Longrightarrow> agrees env x (exec env c st)"
  proof -
    assume c: "c = New_From i s n"
    then obtain cs where cs: "src_chars (strings st) s n = Some cs" "objs st (Str i) = None" "fit (strings st) i cs = Some x"
      using assms(3) by (auto simp: bind_eq_Some_conv strings_None)
    obtain p where p: "ptr_of st s = Inr p" using source_ptr [OF w(1) cs(1)] by blast
    show ?thesis
      using core_from_yields [OF assms(1) w(1) cs(2) read_source [OF w(1) cs(1) p] long_enough] src_chars_length [OF cs(1)] p c
      by (auto intro!: fit [OF cs(3)])
  qed
  show "c = New_Fill i n ch \<Longrightarrow> agrees env x (exec env c st)"
    using assms(3) by (auto simp: strings_None intro!: fit fb_construct_fill_yields assms(1) w)
  show "c = New_Copy i j \<Longrightarrow> agrees env x (exec env c st)"
  proof -
    assume c: "c = New_Copy i j"
    then obtain ys where ys: "strings st (Str j) = Some ys" "objs st (Str i) = None" "fit (strings st) i ys = Some x"
      using assms(3) by (auto simp: bind_eq_Some_conv strings_None)
    obtain d where "objs st (Str j) = Some d" using core_of_strings [OF ys(1)] by blast
    from core_copy_yields [OF assms(1) w(1) ys(2) this ys(1)] show ?thesis
      using c by (auto intro!: fit [OF ys(3)])
  qed
  show "c = New_Move i j \<Longrightarrow> agrees env x (exec env c st)"
  proof -
    assume c: "c = New_Move i j"
    then obtain ys where ys: "strings st (Str j) = Some ys" "objs st (Str i) = None" "x = Inr ((strings st)(Str i \<mapsto> ys, Str j \<mapsto> []))"
      using assms(3) by (auto simp: bind_eq_Some_conv strings_None)
    obtain d where "objs st (Str j) = Some d" using core_of_strings [OF ys(1)] by blast
    from core_move_post [OF w(1) ys(2) this] show ?thesis
      using c ys by (auto intro!: agrees_frame [OF assms(2), where i = i and j = j])
  qed
  show "c = New_Substr i j pos n \<Longrightarrow> agrees env x (exec env c st)"
    using assms(3) range_errors(7) [OF w(1)] fb_substr_yields [OF assms(1) w(1)]
    by (auto simp: bind_eq_Some_conv strings_None intro!: agrees_ranged [OF assms(2)])
  show "c = Delete i \<Longrightarrow> agrees env x (exec env c st)"
  proof -
    assume c: "c = Delete i"
    then obtain xs where xs: "strings st (Str i) = Some xs" "x = Inr ((strings st)(Str i := None))"
      using assms(3) by (auto simp: bind_eq_Some_conv)
    obtain d where "objs st (Str i) = Some d" using core_of_strings [OF xs(1)] by blast
    then obtain st' where d: "core_destroy (Str i) st = Inr st'" "fb_ok env st'" "frame {Str i} st st'" "objs st' (Str i) = None"
      using core_destroy_post [OF w(1)] by blast
    have "strings st' = (strings st)(Str i := None)"
      using frame_strings [OF d(3)] d(4) by (auto simp: fun_eq_iff strings_None)
    then show ?thesis
      using c d xs(2) by (auto intro!: agrees_frame [OF assms(2), where i = i and j = i])
  qed
qed

text \<open>Assignment.\<close>

lemma exec_assign:
  assumes "env_ok env" "fb_wf env st" "spec c (strings st) = Some x"
  shows "c = Assign i s n \<Longrightarrow> agrees env x (exec env c st)"
    "c = Assign_Str i j \<Longrightarrow> agrees env x (exec env c st)"
    "c = Move_Assign i j \<Longrightarrow> agrees env x (exec env c st)"
    "c = Assign_Char i ch \<Longrightarrow> agrees env x (exec env c st)"
    "c = Swap i j \<Longrightarrow> agrees env x (exec env c st)"
proof -
  note w = wfD [OF assms(2)] and fit = agrees_fit [OF assms(2)]
  show "c = Assign i s n \<Longrightarrow> agrees env x (exec env c st)"
  proof -
    assume c: "c = Assign i s n"
    then obtain xs cs where cs: "strings st (Str i) = Some xs" "src_chars (strings st) s n = Some cs" "fit (strings st) i cs = Some x"
      using assms(3) by (auto simp: bind_eq_Some_conv)
    obtain p where p: "ptr_of st s = Inr p" using source_ptr [OF w(1) cs(2)] by blast
    show ?thesis
      using fb_assign_yields [OF assms(1) w(1) cs(1) w(2) _ cs(2) p] src_chars_length [OF cs(2)] p c
      by (auto intro!: fit [OF cs(3)])
  qed
  show "c = Assign_Str i j \<Longrightarrow> agrees env x (exec env c st)"
    using assms(3) by (auto simp: bind_eq_Some_conv intro!: fit fb_assign_str_yields assms(1) w)
  show "c = Move_Assign i j \<Longrightarrow> agrees env x (exec env c st)"
  proof -
    assume c: "c = Move_Assign i j"
    then obtain xs ys where ys: "strings st (Str i) = Some xs" "strings st (Str j) = Some ys"
        "x = Inr (if i = j then strings st else (strings st)(Str i \<mapsto> ys, Str j \<mapsto> []))"
      using assms(3) by (auto simp: bind_eq_Some_conv)
    from fb_move_assign_post [OF w(1) ys(1,2)] show ?thesis
      using c ys(3) by (auto intro!: agrees_frame [OF assms(2), where i = i and j = j])
  qed
  show "c = Assign_Char i ch \<Longrightarrow> agrees env x (exec env c st)"
    using assms(3) by (auto simp: bind_eq_Some_conv intro!: fit fb_assign_char_yields assms(1) w)
  show "c = Swap i j \<Longrightarrow> agrees env x (exec env c st)"
  proof -
    assume c: "c = Swap i j"
    then obtain xs ys where ys: "strings st (Str i) = Some xs" "strings st (Str j) = Some ys"
        "x = Inr ((strings st)(Str i \<mapsto> ys, Str j \<mapsto> xs))"
      using assms(3) by (auto simp: bind_eq_Some_conv)
    obtain d e where "objs st (Str i) = Some d" "objs st (Str j) = Some e" using core_of_strings ys(1,2) by blast
    then have "core_swap (Str i) (Str j) st = Inr (exchange (Str i) (Str j) st)" by (rule core_swap_eq)
    then show ?thesis
      using c ys exchange_ok [OF w(1), of "Str i" "Str j"] by (auto intro!: agrees_frame [OF assms(2), where i = i and j = j])
  qed
qed

text \<open>Growing, shrinking and changing.\<close>

lemma exec_modify:
  assumes "env_ok env" "fb_wf env st" "spec c (strings st) = Some x"
  shows "c = Append i s n \<Longrightarrow> agrees env x (exec env c st)"
    "c = Append_Fill i n ch \<Longrightarrow> agrees env x (exec env c st)"
    "c = Append_Str i j \<Longrightarrow> agrees env x (exec env c st)"
    "c = Append_Sub i j pos n \<Longrightarrow> agrees env x (exec env c st)"
    "c = Push_Back i ch \<Longrightarrow> agrees env x (exec env c st)"
    "c = Pop_Back i \<Longrightarrow> agrees env x (exec env c st)"
    "c = Resize i n ch \<Longrightarrow> agrees env x (exec env c st)"
    "c = Clear i \<Longrightarrow> agrees env x (exec env c st)"
    "c = Set_Char i pos ch \<Longrightarrow> agrees env x (exec env c st)"
    "c = Reserve i n \<Longrightarrow> agrees env x (exec env c st)"
    "c = Shrink_To_Fit i \<Longrightarrow> agrees env x (exec env c st)"
proof -
  note w = wfD [OF assms(2)] and fit = agrees_fit [OF assms(2)] and post = agrees_post [OF assms(2)]
    and ranged = agrees_ranged [OF assms(2)]
  show "c = Append i s n \<Longrightarrow> agrees env x (exec env c st)"
  proof -
    assume c: "c = Append i s n"
    then obtain xs cs where cs: "strings st (Str i) = Some xs" "src_chars (strings st) s n = Some cs" "fit (strings st) i (xs @ cs) = Some x"
      using assms(3) by (auto simp: bind_eq_Some_conv)
    obtain p where p: "ptr_of st s = Inr p" using source_ptr [OF w(1) cs(2)] by blast
    show ?thesis
      using fb_append_yields [OF assms(1) w(1) cs(1) w(2) _ cs(2) p] src_chars_length [OF cs(2)] p c
      by (auto intro!: fit [OF cs(3)])
  qed
  show "c = Append_Fill i n ch \<Longrightarrow> agrees env x (exec env c st)"
    using assms(3) by (auto simp: bind_eq_Some_conv intro!: fit fb_append_fill_yields assms(1) w)
  show "c = Append_Str i j \<Longrightarrow> agrees env x (exec env c st)"
    using assms(3) by (auto simp: bind_eq_Some_conv intro!: fit fb_append_str_yields assms(1) w)
  show "c = Append_Sub i j pos n \<Longrightarrow> agrees env x (exec env c st)"
    using assms(3) range_errors(6) [OF w(1)] fb_append_sub_yields [OF assms(1) w(1) _ w(2)]
    by (auto simp: bind_eq_Some_conv min.commute intro!: ranged)
  show "c = Push_Back i ch \<Longrightarrow> agrees env x (exec env c st)"
    using assms(3) by (auto simp: bind_eq_Some_conv intro!: fit core_push_back_yields assms(1) w)
  show "c = Pop_Back i \<Longrightarrow> agrees env x (exec env c st)"
    using assms(3) shrink_yields [OF assms(1) w(1) _ _ w(2), of "Str i" _ 1]
    by (auto simp: bind_eq_Some_conv fb_pop_back_def butlast_take_rest Suc_le_eq split: if_splits intro!: post)
  show "c = Resize i n ch \<Longrightarrow> agrees env x (exec env c st)"
    using assms(3) by (auto simp: bind_eq_Some_conv intro!: fit fb_resize_yields assms(1) w)
  show "c = Clear i \<Longrightarrow> agrees env x (exec env c st)"
    using assms(3) fb_resize_yields [OF assms(1) w(1) _ w(2), of "Str i" _ 0 0]
    by (auto simp: bind_eq_Some_conv fb_clear_def intro!: fit)
  show "c = Set_Char i pos ch \<Longrightarrow> agrees env x (exec env c st)"
    using assms(3) by (auto simp: bind_eq_Some_conv split: if_splits intro!: post fb_write_at_yields assms(1) w)
  show "c = Reserve i n \<Longrightarrow> agrees env x (exec env c st)"
    using assms(3) by (auto simp: bind_eq_Some_conv split: if_splits intro!: post reserve_yields(1) long_enough assms(1) w)
  show "c = Shrink_To_Fit i \<Longrightarrow> agrees env x (exec env c st)"
    using assms(3) by (auto simp: bind_eq_Some_conv intro!: fit fb_shrink_to_fit_yields assms(1) w)
qed

text \<open>Changes at a position.\<close>

lemma exec_at_position:
  assumes "env_ok env" "fb_wf env st" "spec c (strings st) = Some x"
  shows "c = Erase i pos n \<Longrightarrow> agrees env x (exec env c st)"
    "c = Insert i pos s n \<Longrightarrow> agrees env x (exec env c st)"
    "c = Insert_Fill i pos n ch \<Longrightarrow> agrees env x (exec env c st)"
    "c = Replace i pos n1 s n \<Longrightarrow> agrees env x (exec env c st)"
    "c = Replace_Fill i pos n1 n ch \<Longrightarrow> agrees env x (exec env c st)"
proof -
  note w = wfD [OF assms(2)] and fit = agrees_fit [OF assms(2)] and post = agrees_post [OF assms(2)]
    and ranged = agrees_ranged [OF assms(2)]
  show "c = Erase i pos n \<Longrightarrow> agrees env x (exec env c st)"
    using assms(3) range_errors(1) [OF w(1)] fb_erase_yields [OF assms(1) w(1) _ w(2)]
    by (auto simp: bind_eq_Some_conv ranged_eq_Some intro!: post)
  show "c = Insert i pos s n \<Longrightarrow> agrees env x (exec env c st)"
  proof -
    assume c: "c = Insert i pos s n"
    then obtain xs cs where cs: "strings st (Str i) = Some xs" "src_chars (strings st) s n = Some cs" "foreign (Str i) s"
      "ranged (pos \<le> length xs) (fit (strings st) i (take pos xs @ cs @ drop pos xs)) = Some x"
      using assms(3) by (auto simp: bind_eq_Some_conv split: if_splits)
    obtain p where p: "ptr_of st s = Inr p" using source_ptr [OF w(1) cs(2)] by blast
    show ?thesis
      using fb_insert_yields [OF assms(1) w(1) cs(1) w(2) _ _ cs(3,2) p] range_errors(2) [OF w(1) cs(1)]
        src_chars_length [OF cs(2)] p c by (auto intro!: ranged [OF cs(4)])
  qed
  show "c = Insert_Fill i pos n ch \<Longrightarrow> agrees env x (exec env c st)"
    using assms(3) range_errors(3) [OF w(1)] fb_insert_fill_yields [OF assms(1) w(1) _ w(2)]
    by (auto simp: bind_eq_Some_conv intro!: ranged)
  show "c = Replace i pos n1 s n \<Longrightarrow> agrees env x (exec env c st)"
  proof -
    assume c: "c = Replace i pos n1 s n"
    then obtain xs cs where cs: "strings st (Str i) = Some xs" "src_chars (strings st) s n = Some cs"
      "ranged (pos \<le> length xs) (fit (strings st) i (take pos xs @ cs @ drop (pos + n1) xs)) = Some x"
      using assms(3) by (auto simp: bind_eq_Some_conv)
    obtain p where p: "ptr_of st s = Inr p" using source_ptr [OF w(1) cs(2)] by blast
    show ?thesis
      using fb_replace_yields [OF assms(1) w(1) cs(1) w(2,3) _ _ cs(2) p] range_errors(4) [OF w(1) cs(1)] p c
      by (auto intro!: ranged [OF cs(3)])
  qed
  show "c = Replace_Fill i pos n1 n ch \<Longrightarrow> agrees env x (exec env c st)"
    using assms(3) range_errors(5) [OF w(1)] fb_replace_fill_yields [OF assms(1) w(1) _ w(2)]
    by (auto simp: bind_eq_Some_conv intro!: ranged)
qed

lemma exec_agrees:
  assumes "env_ok env" "fb_wf env st" "spec c (strings st) = Some x"
  shows "agrees env x (exec env c st)"
  using exec_construct [OF assms] exec_assign [OF assms] exec_modify [OF assms] exec_at_position [OF assms]
  by (cases c) blast+

lemma run_agrees:
  assumes "env_ok env" "fb_wf env st" "fb_spec_run cs (strings st) = Some x"
  shows "agrees env x (fb_run env cs st)"
  using assms(2,3)
proof (induction cs arbitrary: st)
  case Nil
  then show ?case by (simp add: agrees_def)
next
  case (Cons c cs)
  then obtain y where y: "spec c (strings st) = Some y" by (auto split: option.splits)
  have a: "agrees env y (exec env c st)" by (rule exec_agrees [OF assms(1) Cons.prems(1) y])
  show ?case
  proof (cases "exec env c st")
    case (Inl e)
    with a y Cons.prems(2) show ?thesis by (auto simp: agrees_def split: sum.splits)
  next
    case (Inr st')
    with a have "fb_wf env st'" "y = Inr (strings st')" by (simp_all add: agrees_def)
    with Inr y Cons.prems(2) Cons.IH show ?thesis by simp
  qed
qed

section \<open>Insertion of a string's own characters\<close>

lemma setSmallSize_facts:
  assumes "length c = 24" "n \<le> 23"
  shows "length (setSmallSize n c) = 24" "setSmallSize n c ! 23 = of_nat (23 - n)" "l \<le> n \<Longrightarrow> take l (setSmallSize n c) = take l c"
proof -
  show "length (setSmallSize n c) = 24" using assms by (simp add: setSmallSize_def)
  show "setSmallSize n c ! 23 = of_nat (23 - n)" using assms by (cases "n = 23") (simp_all add: setSmallSize_def)
  show "l \<le> n \<Longrightarrow> take l (setSmallSize n c) = take l c" using assms by (simp add: setSmallSize_def take_update_cancel)
qed

lemma small_of_last_byte:
  assumes "c ! 23 = of_nat (23 - n)" "n \<le> 23"
  shows "category c = isSmall" "smallSize c = n"
proof -
  have "unat (c ! 23) = 23 - n" unfolding assms(1) by (subst unat_of_nat) simp
  then show "category c = isSmall" "smallSize c = n"
    using assms(2) by (simp_all add: category_small_iff smallSize_def)
qed

lemma insert_own_lists:
  fixes n k pos :: nat
  assumes "length xs \<le> length c" "take (length xs) c = xs" "pos + n \<le> k" "k + n \<le> length xs"
  defines "c2 \<equiv> overwrite c (pos + n) (drop pos xs)"
  shows "take (length xs - pos) (drop pos c) = drop pos xs"
    "overwrite c2 pos (take n (drop k c2)) =
       take pos xs @ take n (drop (k - n) xs) @ drop pos xs @ drop (length xs + n) c"
proof -
  show "take (length xs - pos) (drop pos c) = drop pos xs"
    by (metis assms(2) drop_take)
  have c2: "c2 = take (pos + n) c @ drop pos xs @ drop (length xs + n) c"
    using assms(3,4) by (simp add: c2_def overwrite_def add.commute [of n "length xs"])
  have "take pos c = take pos xs" using assms(2,3,4) by (metis add_leD1 min.absorb1 order_trans take_take)
  moreover have "take n (drop k c2) = take n (drop (k - n) xs)"
    unfolding c2 using assms(1,3,4) by (simp add: min_absorb1 add.commute)
  moreover have "length (take n (drop (k - n) xs)) = n" using assms(3,4) by simp
  moreover have "take pos c2 = take pos c" "drop (pos + n) c2 = drop pos xs @ drop (length xs + n) c"
    unfolding c2 using assms(1,3,4) by (simp_all add: min_absorb1)
  ultimately show "overwrite c2 pos (take n (drop k c2)) =
       take pos xs @ take n (drop (k - n) xs) @ drop pos xs @ drop (length xs + n) c"
    by (simp add: overwrite_def)
qed

text \<open>Inside a small string the moved characters are read where the ones to insert have been.\<close>

lemma insert_own_small:
  assumes "objs st i = Some c" "small_ok env c" "\<not> disable_sso env" "strings st i = Some xs"
    and "length xs + n \<le> 23" "pos + n \<le> k" "k + n \<le> length xs"
  shows "\<exists>st'. fb_insert env i pos (In_Object i k) n st = Inr st' \<and>
    strings st' = (strings st)(i \<mapsto> take pos xs @ take n (drop (k - n) xs) @ drop pos xs)"
proof -
  let ?l = "length xs"
  note c = small_ok_def [THEN iffD1, OF assms(2)] small_category [OF assms(2)]
  have size: "smallSize c = ?l" and xs: "take ?l c = xs"
    using assms(1,4) c by (auto simp: strings_def content_def smallSize_def)
  have core: "core_size c = ?l" using core_size_small [of c] c(1) size by simp
  define c1 where "c1 = setSmallSize (?l + n) c"
  define c2 where "c2 = overwrite c1 (pos + n) (drop pos xs)"
  define c3 where "c3 = take pos xs @ take n (drop (k - n) xs) @ drop pos xs @ drop (?l + n) c1"
  have c1: "length c1 = 24" "c1 ! 23 = of_nat (23 - (?l + n))" "take ?l c1 = xs"
    using setSmallSize_facts(1,2) [of c "?l + n"] setSmallSize_facts(3) [of c "?l + n" ?l] c(1) assms(5) xs
    by (simp_all add: c1_def)
  note small1 = small_of_last_byte [OF c1(2) assms(5)]
  have l: "pos \<le> ?l" "?l \<le> length c1" using assms(6,7) c1(1) assms(5) by simp_all
  note lists = insert_own_lists [OF l(2) c1(3) assms(6,7), folded c2_def c3_def]
  have c2: "length c2 = 24" using c1(1) l assms(5) by (simp add: c2_def overwrite_def)
  have expand: "expandNoinit env i n True st = Inr (In_Object i ?l, put_core i c1 st)"
    using assms(1,3,5) c(2) size by (simp add: expandNoinit_def get_core_def c1_def Let_def)
  have move: "podMove (put_core i c1 st) (In_Object i pos) (?l - pos) (In_Object i (pos + n)) = Inr (put_core i c2 st)"
    using l c1(1) assms(5) lists(1) by (simp add: podMove_def read_mem_def put_core_def c2_def)
  have copy: "std_copy (put_core i c2 st) (In_Object i k) n (In_Object i pos) = Inr (put_core i c3 st)"
    using l c2 assms(5-7) lists(2) by (simp add: std_copy_def podMove_def read_mem_def put_core_def)
  have "fb_insert env i pos (In_Object i k) n st = Inr (put_core i c3 st)"
    using assms(1) c(2) l core small1(1) expand move copy
    by (simp add: fb_insert_def insertImpl_def enforce_range_def str_size_def get_core_def mutableData_def put_core_def)
  moreover have "c3 ! 23 = of_nat (23 - (?l + n))"
  proof -
    define ys where "ys = take pos xs @ take n (drop (k - n) xs) @ drop pos xs"
    have "length ys = ?l + n" using l assms(6,7) by (simp add: ys_def)
    moreover have "c3 = ys @ drop (?l + n) c1" by (simp add: c3_def ys_def)
    ultimately show ?thesis using c1(1,2) assms(5) by (simp add: nth_append)
  qed
  note small3 = small_of_last_byte [OF this assms(5)]
  have "strings (put_core i c3 st) = (strings st)(i \<mapsto> take pos xs @ take n (drop (k - n) xs) @ drop pos xs)"
    using small3 l assms(6,7) by (auto simp: fun_eq_iff strings_def put_core_def content_def c3_def)
  ultimately show ?thesis by blast
qed

section \<open>What the invariant says of the memory\<close>

lemma storage:
  assumes "fb_ok env st"
  shows "case heap st a of None \<Rightarrow> users (objs st) a = {} | Some b \<Rightarrow> 0 < blk_count b \<and> card (users (objs st) a) = blk_count b"
proof (cases "heap st a")
  case None
  then have "\<not> points (objs st i) a" for i
    using pointed_block [OF assms [unfolded fb_ok_def], of i a] by auto
  then show ?thesis using None by (auto simp: users_def)
next
  case (Some b)
  then show ?thesis using mem_okD(2,3) [OF assms [unfolded fb_ok_def]] by simp
qed

lemma no_leak:
  assumes "fb_ok env st" "\<And>i. objs st i = None"
  shows "heap st = (\<lambda>a. None)"
proof
  fix a
  have "users (objs st) a = {}" using assms(2) by (auto simp: users_def)
  then show "heap st a = None" using storage [OF assms(1), of a] by (auto split: option.splits)
qed

lemma terminated:
  assumes "fb_ok env st" "strings st i = Some xs"
  shows "\<exists>p. c_str st i = Inr p \<and> read_mem st p (length xs + 1) = Inr (xs @ [0])"
proof -
  obtain c where c: "objs st i = Some c" using core_of_strings [OF assms(2)] by blast
  from assms(1) c show ?thesis
    by (cases rule: core_cases)
      (use assms(2) c in \<open>auto simp: c_str_def read_mem_def get_core_def core_simps take_Suc_conv_app_nth small_ok_def\<close>)
qed

lemma empty_wf: "fb_wf env empty_mem" "strings empty_mem = (\<lambda>_. None)"
  by (simp_all add: fb_wf_def fb_ok_def mem_ok_def empty_mem_def strings_def fun_eq_iff users_def)

section \<open>Properties\<close>

text \<open>An allocator for examples: the least free address from 1 on, without jemalloc.\<close>

definition demo_env :: fb_env where
  "demo_env = \<lparr>usingJEMalloc = False, nallocx = (\<lambda>n. n),
     malloc_at = (\<lambda>h n. find (\<lambda>a. h a = None) (map of_nat [1..<2 ^ 33 + 2])), raw_bytes = (\<lambda>n. replicate n 0),
     word_aligned = (\<lambda>_. False), bytes_behind = (\<lambda>_. replicate 7 0), disable_sso = False\<rparr>"

lemma demo_env_ok: "env_ok demo_env"
  by (auto simp: env_ok_def demo_env_def find_Some_iff)

lemma demo_env_enough: "\<not> exhausted demo_env"
proof
  assume "exhausted demo_env"
  then obtain h :: fb_heap where h: "card (dom h) \<le> 2 ^ 33" "find (\<lambda>a. h a = None) (map of_nat [1..<2 ^ 33 + 2]) = None"
    by (auto simp: exhausted_def demo_env_def)
  let ?A = "(of_nat :: nat \<Rightarrow> u64) ` {1..<2 ^ 33 + 2}"
  have "inj_on (of_nat :: nat \<Rightarrow> u64) {1..<2 ^ 33 + 2}"
    by (rule inj_onI) (simp add: word_of_nat_eq_iff take_bit_nat_eq_self)
  then have "card ?A = 2 ^ 33 + 1" by (simp add: card_image)
  moreover have "?A \<subseteq> dom h" using h(2) by (auto simp: find_None_iff)
  then have "card ?A \<le> card (dom h)" by (rule card_mono [rotated]) simp
  ultimately show False using h(1) by simp
qed



text \<open>
  C2. After every program inside the contract that returns, the memory is exactly that of the strings
  alive: no object points to a block that has been freed; every live block is used by at least one
  string, a medium one by one, and the counter of a large one is the number of strings that share it;
  without strings no block is left. Every string alive is terminated: behind its \<open>size()\<close> characters at
  \<open>c_str()\<close> there is a null character that can be read.
\<close>

theorem fb_storage:
  assumes "env_ok env" "fb_spec_run cs (\<lambda>_. None) = Some x" "fb_run env cs empty_mem = Inr st"
  shows "(\<forall>a. case heap st a of
        None \<Rightarrow> users (objs st) a = {}
      | Some b \<Rightarrow> card (users (objs st) a) = (case blk_refs b of None \<Rightarrow> 1 | Some n \<Rightarrow> n) \<and> users (objs st) a \<noteq> {}) \<and>
    ((\<forall>i. objs st i = None) \<longrightarrow> heap st = (\<lambda>_. None)) \<and>
    (\<forall>i. case strings st i of
        None \<Rightarrow> objs st i = None
      | Some xs \<Rightarrow> str_size st i = Inr (length xs) \<and>
          (\<exists>p. c_str st i = Inr p \<and> read_mem st p (length xs + 1) = Inr (xs @ [0])))"
proof -
  have ok: "fb_ok env st"
    using run_agrees [OF assms(1) empty_wf(1), of cs x] assms(2,3) by (simp add: empty_wf(2) agrees_def fb_wf_def)
  have "case heap st a of None \<Rightarrow> users (objs st) a = {}
      | Some b \<Rightarrow> card (users (objs st) a) = (case blk_refs b of None \<Rightarrow> 1 | Some n \<Rightarrow> n) \<and> users (objs st) a \<noteq> {}" for a
    using storage [OF ok, of a] by (auto simp: blk_count_def split: option.splits)
  moreover have "case strings st i of None \<Rightarrow> objs st i = None
      | Some xs \<Rightarrow> str_size st i = Inr (length xs) \<and> (\<exists>p. c_str st i = Inr p \<and> read_mem st p (length xs + 1) = Inr (xs @ [0]))" for i
    using str_size_eq [OF ok, of i] terminated [OF ok, of i] by (auto simp: strings_None split: option.splits)
  ultimately show ?thesis using no_leak [OF ok] by blast
qed

theorem fb_storage_witness:
  "\<exists>st. fb_run demo_env [New_From 0 (Caller (replicate 300 7) 0) 300, New_Copy 1 0, Delete 0, Delete 1] empty_mem = Inr st \<and>
     heap st = (\<lambda>_. None)"
proof -
  let ?cs = "[New_From 0 (Caller (replicate 300 7) 0) 300, New_Copy 1 0, Delete 0, Delete 1]"
  have spec: "fb_spec_run ?cs (\<lambda>_. None) = Some (Inr (\<lambda>_. None))"
    by (simp add: fit_def max_length_def fresh_def fun_eq_iff)
  from run_agrees [OF demo_env_ok empty_wf(1), of ?cs] spec obtain st where
    st: "fb_run demo_env ?cs empty_mem = Inr st" "strings st = (\<lambda>_. None)"
    using demo_env_enough by (auto simp: agrees_def empty_wf(2) simp del: fb_run.simps fb_spec_run.simps split: sum.splits)
  then have "objs st i = None" for i by (metis strings_None)
  with fb_storage [OF demo_env_ok spec st(1)] st(1) show ?thesis by blast
qed

text \<open>
  C13. Inserting a part of a string into itself is where the code differs from \<open>std::string\<close>: in a string
  stored in the object, which stays there, a source at or behind the position is read after the
  characters have been moved. What is inserted are not the \<open>n\<close> characters from \<open>k\<close> on but those from
  \<open>k - n\<close> on.
\<close>

theorem fb_insert_own_part:
  assumes "fb_wf env st" "\<not> disable_sso env" "strings st (Str i) = Some xs"
    and "c_str st (Str i) = Inr (In_Object (Str i) 0)"
    and "length xs + n \<le> 23" "pos + n \<le> k" "k + n \<le> length xs"
  shows "\<exists>st'. exec env (Insert i pos (Chars_Of (Str i) k) n) st = Inr st' \<and>
    strings st' = (strings st)(Str i \<mapsto> take pos xs @ take n (drop (k - n) xs) @ drop pos xs)"
proof -
  obtain c where c: "objs st (Str i) = Some c" using core_of_strings [OF assms(3)] by blast
  have "category c = isSmall" using assms(4) c by (simp add: c_str_def get_core_def split: if_splits)
  with wfD(1) [OF assms(1)] c have "small_ok env c"
    by (auto simp: fb_ok_def dest: mem_okD(1) elim: core_ok_cases)
  from insert_own_small [OF c this assms(2,3,5-7)] assms(4) show ?thesis by simp
qed


theorem fb_insert_own_part_witness:
  "\<exists>st'. exec demo_env (Insert 0 0 (Chars_Of (Str 0) 2) 2)
       \<lparr>objs = (\<lambda>_. None)(Str 0 \<mapsto> [97, 98, 99, 100] @ replicate 19 0 @ [19]), heap = (\<lambda>_. None)\<rparr> = Inr st' \<and>
     strings st' (Str 0) = Some [97, 98, 97, 98, 99, 100]"
proof -
  let ?c = "[97, 98, 99, 100] @ replicate 19 0 @ [19] :: core"
  let ?st = "\<lparr>objs = (\<lambda>_. None)(Str 0 \<mapsto> ?c), heap = (\<lambda>_. None)\<rparr>"
  have c: "length ?c = 24" "?c ! 23 = 19" "smallSize ?c = 4" "category ?c = isSmall"
    by (simp_all add: nth_append smallSize_def category_small_iff)
  then have small: "small_ok demo_env ?c" by (simp add: small_ok_def demo_env_def nth_append)
  have "mem_ok demo_env (\<lambda>_. None) (\<lambda>_. None)"
    using empty_wf(1) [of demo_env] by (simp add: fb_wf_def fb_ok_def empty_mem_def)
  from mem_ok_put_small [OF this _ small, of "Str 0"] have fb_wf: "fb_wf demo_env ?st" by (simp add: fb_wf_def fb_ok_def)
  have str: "strings ?st (Str 0) = Some [97, 98, 99, 100]" "c_str ?st (Str 0) = Inr (In_Object (Str 0) 0)"
    using c(3,4) by (simp_all add: strings_def content_def c_str_def get_core_def del: append_Cons)
  have "\<not> disable_sso demo_env" by (simp add: demo_env_def)
  from fb_insert_own_part [OF fb_wf this str, of 2 0 2] obtain st' where
    "exec demo_env (Insert 0 0 (Chars_Of (Str 0) 2) 2) ?st = Inr st'" "strings st' = (strings ?st)(Str 0 \<mapsto> [97, 98, 97, 98, 99, 100])"
    by auto
  then show ?thesis by (intro exI [of _ st']) simp
qed

end
