(* ===== verification/Folly_FBString_Find.thy ===== *)
theory Folly_FBString_Find
  imports Prelude
begin

text \<open>
  The searches of \<open>basic_fbstring\<close> (\<open>folly/FBString.h\<close>) and \<open>compare\<close>, on the characters of a string.
  The searches never change a string, so they are functions of the two character sequences; every access
  is checked.
\<close>

section \<open>Finding a string in a string\<close>

definition fb_npos :: nat where
  "fb_npos = 2 ^ 64 - 1"










section \<open>The other searches\<close>









section \<open>Comparison\<close>



section \<open>References\<close>


text \<open>The first of some positions that passes a test.\<close>

definition fb_first_in :: "(nat \<Rightarrow> bool) \<Rightarrow> nat list \<Rightarrow> nat" where
  "fb_first_in P is = (case List.find P is of None \<Rightarrow> fb_npos | Some i \<Rightarrow> i)"

lemma first_in_Nil [simp]: "fb_first_in P [] = fb_npos"
  by (simp add: fb_first_in_def)




section \<open>Correctness\<close>







section \<open>The other searches and the comparison\<close>










section \<open>Properties\<close>



end
