(* ===== verification/Spec2Isabelle.thy ===== *)
theory Spec2Isabelle
  imports Folly_Varint Folly_FixedString_Props Folly_GroupVarint_Stream Folly_Hash Folly_RWSpinLock
    Folly_RWTicketSpinLock Folly_RWHolders Folly_Escape Folly_ToLower Folly_ByteSearch Folly_Range Folly_Split Folly_PCQueue Folly_EvictingCache Folly_Math Folly_Conv_Props
    Folly_FBString_Spec Folly_FBString_Find
begin

text \<open>
  A verification library for the C++ core of this repository.

  \<^bold>\<open>The program.\<close> The repository is a mobile chat application: a few React Native screens
  (\<open>src/src/\<close>) and, below \<open>src/ios/Pods\<close>, the native code the application is built with. The logic in
  C++ is that of Folly (\<open>src/ios/Pods/Flipper-Folly/folly\<close>), on which the debugging client Flipper is
  built; the rest is user interface, input and output. The theories model the parts of Folly that
  compute: codings, strings, ranges and searches, arithmetic, containers, and the small concurrent
  structures. All file names below are relative to the \<open>folly\<close> directory.

  \<^bold>\<open>Conventions.\<close> \<open>Prelude\<close> holds what all theories share. Machine words are \<open>u8\<close> to \<open>u64\<close>, a byte
  string is a list of \<open>u8\<close>, and a pointer into an array is an index. A function that can fail returns a
  sum whose left side is a \<open>cxx_error\<close>: an exception of the code or \<open>Undefined_Behaviour\<close>. \<open>rd\<close> and \<open>wr\<close>
  check every access to an array, so a theorem that a function returns \<open>Inr\<close> also says that it stays
  inside its arrays. Objects are records that are passed on; shared memory of threads is a state that
  \<open>Interleaving\<close> lets several threads change one atomic access at a time. \<open>assert\<close> is not modelled as a
  check. Memory orders are left out: each concurrent structure is one word, or a pair of words with one
  writer each, and the steps are the accesses to them.

  \<^bold>\<open>The theories.\<close>
  \<^item> \<open>Folly_Varint\<close> (\<open>Varint.h\<close>): the base-128 encoder, its size, the decoder with its unrolled fast path
    and ZigZag. The decoder equals a byte-by-byte reference, decodes every encoding, and is an instance
    of the locale \<open>codec\<close> of the prelude for whole sequences.
  \<^item> \<open>Folly_Bits\<close> (\<open>lang/Bits.h\<close>): bit positions, powers of two, byte order, unaligned access.
  \<^item> \<open>Folly_GroupVarint\<close>, \<open>_Correct\<close>, \<open>_Stream\<close> (\<open>GroupVarint.h\<close>, \<open>GroupVarint.cpp\<close>,
    \<open>detail/GroupVarintDetail.h\<close>): the group formats with their generated tables, the portable and the
    SSSE3 decoder, which are equal, and the streaming encoder and decoder. The locale \<open>group_format\<close>
    carries the proofs of the streams for both widths.
  \<^item> \<open>Folly_FixedString_Base\<close>, \<open>Folly_FixedString\<close>, \<open>_Correct\<close>, \<open>_Props\<close> (\<open>FixedString.h\<close>,
    \<open>lang/Ordering.h\<close>, \<open>portability/Constexpr.h\<close>): strings of bounded length in an array. The mutating
    members of \<open>fs_op\<close> refine operations on lists of characters in any sequence (locale
    \<open>data_refinement\<close>); the overloads of \<open>replace\<close> that do not check the capacity are treated apart.
  \<^item> \<open>Folly_FBString\<close>, \<open>_State\<close>, \<open>_Core\<close>, \<open>_Ops\<close>, \<open>_Spec\<close>, \<open>_Find\<close> (\<open>FBString.h\<close>, \<open>memory/Malloc.h\<close>): strings that are
    stored in the object up to 23 characters, in a block of their own up to 254, and in a block shared by
    reference counting beyond. The memory is explicit: objects of 24 bytes, blocks under 64-bit addresses,
    pointers with offsets. What \<open>malloc\<close>, \<open>nallocx\<close>, fresh memory and the alignment of pointers are is the
    parameter \<open>fb_env\<close>, with the documented behaviour in \<open>env_ok\<close>. Characters have one byte, the machine
    is a 64-bit little-endian one. \<open>_Core\<close> and \<open>_Ops\<close> prove each operation against the invariant \<open>fb_ok\<close> and a
    frame condition; \<open>_Spec\<close> runs programs of operations against lists of characters; \<open>_Find\<close> has the
    searches and \<open>compare\<close>. Each program is sequential, so the reference counter is a number.
  \<^item> \<open>Folly_Hash\<close> (\<open>hash/Hash.h\<close>): mixers and their inverses (locale \<open>reversible_mix\<close>), FNV, Hsieh,
    integral hashers and combiners.
  \<^item> \<open>Folly_RWSpinLock\<close>, \<open>Folly_RWTicketSpinLock\<close>, \<open>Folly_RWHolders\<close> (\<open>synchronization/RWSpinLock.h\<close>): two
    reader/writer locks as step relations of any number of clients, with mutual exclusion by rule
    induction (locale \<open>thread_invariant\<close> of \<open>Interleaving\<close>), and the scoped holders over them.
  \<^item> \<open>Folly_Escape\<close>, \<open>Folly_ToLower\<close>, \<open>Folly_Split\<close> (\<open>String.h\<close>, \<open>String-inl.h\<close>, \<open>String.cpp\<close>): escapes and
    hexadecimal output, lower-casing by words, splitting, joining and trimming. \<open>Folly_Split\<close> is built
    on \<open>Folly_Range\<close> as the code is.
  \<^item> \<open>Folly_Range\<close>, \<open>Folly_Range_Search\<close>, \<open>Folly_ByteSearch\<close> (\<open>Range.h\<close>, \<open>detail/RangeCommon.h\<close>, \<open>.cpp\<close>,
    \<open>detail/RangeSse42.cpp\<close>, \<open>container/SparseByteSet.h\<close>): ranges over memory, the search functions for
    any comparison (locale \<open>comparator\<close>), the byte sets (locale \<open>byte_set\<close>) and the SSE4.2 search with its
    loads that must not leave a page.
  \<^item> \<open>Folly_PCQueue\<close> (\<open>ProducerConsumerQueue.h\<close>): one producer and one consumer interleaved; the queue
    refines a bounded list, with the life times of the elements.
  \<^item> \<open>Folly_EvictingCache\<close> (\<open>container/EvictingCacheMap.h\<close>): nodes on a heap, the list of recency, prune
    hooks that may throw; the hash index is a parameter, described by the locale \<open>cache_index\<close> with the
    documented behaviour of the intrusive set.
  \<^item> \<open>Folly_Math\<close> (\<open>Math.h\<close>, \<open>ConstexprMath.h\<close>): rounding division, clamping, logarithms and powers of the
    integer types, with promotion, wrap-around and overflow written out.
  \<^item> \<open>Folly_Conv\<close>, \<open>_Arith\<close>, \<open>_Print\<close>, \<open>_Parse\<close>, \<open>_Props\<close> (\<open>Conv.h\<close>, \<open>Conv.cpp\<close>, comparisons of \<open>Traits.h\<close>):
    numbers to text and back, truth values, conversions between integer types, error messages. The
    integer types are those of \<open>Folly_Math\<close>.

  \<^bold>\<open>Kinds of lemmas.\<close> Each component has lemmas that every operation keeps the invariant of its state;
  lemmas that compute an operation on every branch, errors included; an equivalence or a refinement where
  the code optimises (tables, words instead of bytes, SIMD, lazily computed skips); and witnesses that
  apply each property with hypotheses at concrete values. Loops are functions with a measure: the distance
  to the end of the buffer, the value that is divided, the number of occupied slots. The loops that may
  not end, \<open>constexpr_log2\<close> of a number that is not positive and the waiting loops of the locks, are a
  partial function and steps of a relation; \<open>log2_terminates\<close>, \<open>rw_waiter_can_finish\<close> and
  \<open>pcq_wait_free\<close> say when they end. The only fuel is the bound of the loop that empties a queue in its
  destructor, which is the capacity and is never used up.

  \<^bold>\<open>Not modelled.\<close> The screens and entry points in JavaScript, whose behaviour is that of React Native
  and of a web service; the native shells, which are generated; futures, executors, sockets and event
  bases of Folly, the Flipper client and CocoaAsyncSocket, which are calls of the operating system and of
  other threads; double-conversion, which is a package of its own, and with it all conversions of
  floating-point numbers; the containers F14, ConcurrentHashMap and the like, which rest on vector
  instructions, hazard pointers and the memory model. Inside the modelled files the left-out functions are
  those named in the notes of \<open>PROJECT.json\<close>: streams, iterators, type-level functions and wrappers.
\<close>

end
